(* ===== verification/Prelude.thy ===== *)
theory Prelude
  imports Main "HOL-Library.Word"
begin

unbundle bit_operations_syntax

text \<open>
  Shared vocabulary of the development.

  \<^item> C integer types as words, and little-endian access to byte lists, the representation of
    every structure the sources overlay on raw memory, disk blocks or packets.
  \<^item> \<open>stop\<close>: the ways a kernel routine ends other than by returning. \<open>Panic m\<close> is
    \<open>panic("m")\<close> of \<^verbatim>\<open>console.c\<close>; \<open>Sleeps c\<close> is a call of \<open>sleep\<close> on channel \<open>c\<close>
    from which only another process or an interrupt can wake the caller; \<open>Spins\<close> is a busy loop
    whose condition only another agent can change; \<open>Wild\<close> is an access through a null or dangling
    pointer, or outside an array.
  \<^item> \<open>andThen\<close>: sequencing of routines that may stop.
\<close>

section \<open>Types\<close>

type_synonym byte = "8 word"      \<comment> \<open>uchar, char\<close>
type_synonym ushort = "16 word"
type_synonym uint = "32 word"

datatype chan = Chan string nat   \<comment> \<open>the address slept on: which structure, which index\<close>

datatype stop = Panic string | Sleeps chan | Spins string | Wild string

type_synonym 'a res = "stop + 'a"

named_theorems seq_simps \<open>sequencing of routines that may stop\<close>
named_theorems byte_simps \<open>reads after writes of byte lists\<close>

section \<open>Sequencing\<close>

definition andThen :: "'a res \<Rightarrow> ('a \<Rightarrow> 'b res) \<Rightarrow> 'b res" where
  "andThen r k = (case r of Inl e \<Rightarrow> Inl e | Inr x \<Rightarrow> k x)"

lemma andThen_Inl [simp, seq_simps]: "andThen (Inl e) k = Inl e"
  by (simp add: andThen_def)

lemma andThen_Inr [simp, seq_simps]: "andThen (Inr x) k = k x"
  by (simp add: andThen_def)

lemma andThen_eq_Inr [seq_simps]: "andThen r k = Inr y \<longleftrightarrow> (\<exists>x. r = Inr x \<and> k x = Inr y)"
  by (cases r) auto

lemma andThen_assoc: "andThen (andThen r k) h = andThen r (\<lambda>x. andThen (k x) h)"
  by (cases r) auto

lemma andThen_cong [fundef_cong]:
  "r = r' \<Longrightarrow> (\<And>x. r' = Inr x \<Longrightarrow> k x = k' x) \<Longrightarrow> andThen r k = andThen r' k'"
  by (cases r') auto

lemma andThen_case_split: "P (andThen r k) \<longleftrightarrow> (\<forall>e. r = Inl e \<longrightarrow> P (Inl e)) \<and> (\<forall>x. r = Inr x \<longrightarrow> P (k x))"
  by (cases r) auto

lemma andThen_case_split_asm:
  "P (andThen r k) \<longleftrightarrow> \<not> ((\<exists>e. r = Inl e \<and> \<not> P (Inl e)) \<or> (\<exists>x. r = Inr x \<and> \<not> P (k x)))"
  by (cases r) auto

lemmas andThen_splits = andThen_case_split andThen_case_split_asm

text \<open>An array access that the source does not bound is \<open>Wild\<close> when it is out of range.\<close>

definition rd :: "string \<Rightarrow> 'a list \<Rightarrow> nat \<Rightarrow> 'a res" where
  "rd what xs i = (if i < length xs then Inr (xs ! i) else Inl (Wild what))"

lemma rd_in [simp]: "i < length xs \<Longrightarrow> rd what xs i = Inr (xs ! i)"
  by (simp add: rd_def)

section \<open>Words\<close>

lemma unat_minus_one_word [simp]: "unat (- 1 :: uint) = 4294967295"
  by (simp add: unsigned_minus_1_eq_mask mask_eq_exp_minus_1)

lemma unat_uint_less [simp]: "unat (w :: uint) < 4294967296"
  using unsigned_less [of w] by simp

section \<open>Byte lists\<close>

definition patch :: "'a list \<Rightarrow> nat \<Rightarrow> 'a list \<Rightarrow> 'a list" where
  "patch xs off ys = take off xs @ ys @ drop (off + length ys) xs"

definition slice :: "'a list \<Rightarrow> nat \<Rightarrow> nat \<Rightarrow> 'a list" where
  "slice xs off n = take n (drop off xs)"

lemma length_patch [simp]: "off + length ys \<le> length xs \<Longrightarrow> length (patch xs off ys) = length xs"
  by (simp add: patch_def)

lemma length_slice [simp]: "length (slice xs off n) = min n (length xs - off)"
  by (simp add: slice_def)

lemma nth_patch:
  assumes "off + length ys \<le> length xs" "i < length xs"
  shows "patch xs off ys ! i = (if off \<le> i \<and> i < off + length ys then ys ! (i - off) else xs ! i)"
  using assms by (auto simp: patch_def nth_append)

lemma nth_slice: "off + n \<le> length xs \<Longrightarrow> i < n \<Longrightarrow> slice xs off n ! i = xs ! (off + i)"
  by (simp add: slice_def)

lemma slice_patch_same [byte_simps]:
  "off + length ys \<le> length xs \<Longrightarrow> n = length ys \<Longrightarrow> slice (patch xs off ys) off n = ys"
  by (simp add: patch_def slice_def)

lemma slice_patch_other [byte_simps]:
  assumes "off + length ys \<le> length xs" "o' + n \<le> off \<or> off + length ys \<le> o'" "o' + n \<le> length xs"
  shows "slice (patch xs off ys) o' n = slice xs o' n"
proof (rule nth_equalityI)
  fix i assume i: "i < length (slice (patch xs off ys) o' n)"
  with assms have "i < n" by simp
  with assms show "slice (patch xs off ys) o' n ! i = slice xs o' n ! i"
    by (auto simp: nth_slice nth_patch)
qed (use assms in simp)

lemma patch_Nil [simp]: "patch xs off [] = xs"
  by (simp add: patch_def)

lemma slice_0 [simp]: "slice xs off 0 = []"
  by (simp add: slice_def)

lemma slice_all [simp]: "slice xs 0 (length xs) = xs"
  by (simp add: slice_def)

lemma slice_split: "n \<le> m \<Longrightarrow> slice xs off m = slice xs off n @ slice xs (off + n) (m - n)"
  by (metis slice_def add.commute drop_drop le_add_diff_inverse take_add)

section \<open>Little-endian words in byte lists\<close>

definition bytes16 :: "ushort \<Rightarrow> byte list" where
  "bytes16 w = [ucast w, ucast (drop_bit 8 w)]"

definition bytes32 :: "uint \<Rightarrow> byte list" where
  "bytes32 w = [ucast w, ucast (drop_bit 8 w), ucast (drop_bit 16 w), ucast (drop_bit 24 w)]"

definition get16 :: "byte list \<Rightarrow> nat \<Rightarrow> ushort" where
  "get16 bs off = ucast (bs ! off) OR push_bit 8 (ucast (bs ! (off + 1)))"

definition get32 :: "byte list \<Rightarrow> nat \<Rightarrow> uint" where
  "get32 bs off = ucast (bs ! off) OR push_bit 8 (ucast (bs ! (off + 1)))
     OR push_bit 16 (ucast (bs ! (off + 2))) OR push_bit 24 (ucast (bs ! (off + 3)))"

definition put16 :: "byte list \<Rightarrow> nat \<Rightarrow> ushort \<Rightarrow> byte list" where
  "put16 bs off w = patch bs off (bytes16 w)"

definition put32 :: "byte list \<Rightarrow> nat \<Rightarrow> uint \<Rightarrow> byte list" where
  "put32 bs off w = patch bs off (bytes32 w)"

lemma length_bytes16 [simp]: "length (bytes16 w) = 2"
  by (simp add: bytes16_def)

lemma length_bytes32 [simp]: "length (bytes32 w) = 4"
  by (simp add: bytes32_def)

lemma length_put16 [simp]: "off + 2 \<le> length bs \<Longrightarrow> length (put16 bs off w) = length bs"
  by (simp add: put16_def)

lemma length_put32 [simp]: "off + 4 \<le> length bs \<Longrightarrow> length (put32 bs off w) = length bs"
  by (simp add: put32_def)

lemma join16: "ucast (ucast (w :: ushort) :: byte) OR push_bit 8 (ucast (ucast (drop_bit 8 w) :: byte)) = w"
  by (rule bit_word_eqI) (auto simp: bit_simps)

lemma join32:
  "ucast (ucast (w :: uint) :: byte) OR push_bit 8 (ucast (ucast (drop_bit 8 w) :: byte))
     OR push_bit 16 (ucast (ucast (drop_bit 16 w) :: byte))
     OR push_bit 24 (ucast (ucast (drop_bit 24 w) :: byte)) = w"
proof (rule bit_word_eqI)
  fix n assume "n < LENGTH(32)"
  then consider "n < 8" | "8 \<le> n" "n < 16" | "16 \<le> n" "n < 24" | "24 \<le> n" "n < 32"
    by fastforce
  then show "bit (ucast (ucast w :: byte) OR push_bit 8 (ucast (ucast (drop_bit 8 w) :: byte))
     OR push_bit 16 (ucast (ucast (drop_bit 16 w) :: byte))
     OR push_bit 24 (ucast (ucast (drop_bit 24 w) :: byte)) :: uint) n = bit w n"
    by cases (simp_all add: bit_simps, linarith+)
qed

lemma get16_put16_same [byte_simps]: "off + 2 \<le> length bs \<Longrightarrow> get16 (put16 bs off w) off = w"
  by (simp add: get16_def put16_def nth_patch bytes16_def join16)

lemma get32_put32_same [byte_simps]: "off + 4 \<le> length bs \<Longrightarrow> get32 (put32 bs off w) off = w"
  by (simp add: get32_def put32_def nth_patch bytes32_def join32)

lemma get16_patch_other [byte_simps]:
  "off + length ys \<le> length bs \<Longrightarrow> o' + 2 \<le> off \<or> off + length ys \<le> o' \<Longrightarrow> o' + 2 \<le> length bs \<Longrightarrow>
   get16 (patch bs off ys) o' = get16 bs o'"
  by (auto simp: get16_def nth_patch)

lemma get32_patch_other [byte_simps]:
  "off + length ys \<le> length bs \<Longrightarrow> o' + 4 \<le> off \<or> off + length ys \<le> o' \<Longrightarrow> o' + 4 \<le> length bs \<Longrightarrow>
   get32 (patch bs off ys) o' = get32 bs o'"
  by (auto simp: get32_def nth_patch)

lemma get16_put16_other [byte_simps]:
  "off + 2 \<le> length bs \<Longrightarrow> o' + 2 \<le> off \<or> off + 2 \<le> o' \<Longrightarrow> o' + 2 \<le> length bs \<Longrightarrow>
   get16 (put16 bs off w) o' = get16 bs o'"
  by (simp add: put16_def get16_patch_other)

lemma get16_put32_other [byte_simps]:
  "off + 4 \<le> length bs \<Longrightarrow> o' + 2 \<le> off \<or> off + 4 \<le> o' \<Longrightarrow> o' + 2 \<le> length bs \<Longrightarrow>
   get16 (put32 bs off w) o' = get16 bs o'"
  by (simp add: put32_def get16_patch_other)

lemma get32_put16_other [byte_simps]:
  "off + 2 \<le> length bs \<Longrightarrow> o' + 4 \<le> off \<or> off + 2 \<le> o' \<Longrightarrow> o' + 4 \<le> length bs \<Longrightarrow>
   get32 (put16 bs off w) o' = get32 bs o'"
  by (simp add: put16_def get32_patch_other)

lemma get32_put32_other [byte_simps]:
  "off + 4 \<le> length bs \<Longrightarrow> o' + 4 \<le> off \<or> off + 4 \<le> o' \<Longrightarrow> o' + 4 \<le> length bs \<Longrightarrow>
   get32 (put32 bs off w) o' = get32 bs o'"
  by (simp add: put32_def get32_patch_other)

end
