(* ===== verification/Cstring.thy ===== *)
theory Cstring
  imports Prelude
begin

text \<open>
  The memory and string routines of \<^verbatim>\<open>string.c\<close> (kernel) and \<^verbatim>\<open>ulib.c\<close> (user library).

  Routines whose result depends on how the two regions overlap (\<open>memset\<close>, \<open>memmove\<close>) act on a
  byte-addressed memory with 32-bit addresses. Routines that only scan or fill a region act on the
  list of bytes from the pointer on; running off that list is \<open>Wild\<close>.
\<close>

type_synonym mem = "uint \<Rightarrow> byte"

section \<open>Memory routines\<close>

primrec stosb :: "nat \<Rightarrow> mem \<Rightarrow> uint \<Rightarrow> byte \<Rightarrow> mem" where
  "stosb 0 m d c = m"
| "stosb (Suc n) m d c = stosb n (m(d := c)) (d + 1) c"

text \<open>\<open>memset(dst, c, n)\<close>: the \<open>int\<close> argument \<open>c\<close> is stored as its low byte.\<close>

definition memset :: "mem \<Rightarrow> uint \<Rightarrow> uint \<Rightarrow> uint \<Rightarrow> mem" where
  "memset m dst c n = stosb (unat n) m dst (ucast c)"

primrec copy_fwd :: "nat \<Rightarrow> mem \<Rightarrow> uint \<Rightarrow> uint \<Rightarrow> mem" where
  "copy_fwd 0 m d s = m"
| "copy_fwd (Suc n) m d s = copy_fwd n (m(d := m s)) (d + 1) (s + 1)"

primrec copy_back :: "nat \<Rightarrow> mem \<Rightarrow> uint \<Rightarrow> uint \<Rightarrow> mem" where
  "copy_back 0 m d s = m"
| "copy_back (Suc n) m d s = copy_back n (m(d - 1 := m (s - 1))) (d - 1) (s - 1)"

definition memmove :: "mem \<Rightarrow> uint \<Rightarrow> uint \<Rightarrow> uint \<Rightarrow> mem" where
  "memmove m dst src n =
     (if src < dst \<and> src + n > dst
      then copy_back (unat n) m (dst + n) (src + n)
      else copy_fwd (unat n) m dst src)"

definition memcpy :: "mem \<Rightarrow> uint \<Rightarrow> uint \<Rightarrow> uint \<Rightarrow> mem" where
  "memcpy m dst src n = memmove m dst src n"

definition bytes_at :: "mem \<Rightarrow> uint \<Rightarrow> nat \<Rightarrow> byte list" where
  "bytes_at m a n = map (\<lambda>i. m (a + of_nat i)) [0..<n]"

text \<open>The user library's \<open>memmove\<close> takes an \<open>int\<close> count and always copies upwards.\<close>

definition ulib_memmove :: "mem \<Rightarrow> uint \<Rightarrow> uint \<Rightarrow> int \<Rightarrow> mem" where
  "ulib_memmove m vdst vsrc n = copy_fwd (nat n) m vdst vsrc"

fun memcmp :: "byte list \<Rightarrow> byte list \<Rightarrow> nat \<Rightarrow> int res" where
  "memcmp s1 s2 0 = Inr 0"
| "memcmp (a # s1) (b # s2) (Suc n) = (if a \<noteq> b then Inr (uint a - uint b) else memcmp s1 s2 n)"
| "memcmp _ _ (Suc n) = Inl (Wild ''memcmp'')"

section \<open>String routines\<close>

fun strncmp :: "byte list \<Rightarrow> byte list \<Rightarrow> nat \<Rightarrow> int res" where
  "strncmp p q 0 = Inr 0"
| "strncmp (a # p) (b # q) (Suc n) =
     (if a \<noteq> 0 \<and> a = b then strncmp p q n else Inr (uint a - uint b))"
| "strncmp _ _ (Suc n) = Inl (Wild ''strncmp'')"

text \<open>The \<open>n\<close> bytes that \<open>strncpy\<close> stores at its destination.\<close>

fun strncpy_bytes :: "byte list \<Rightarrow> nat \<Rightarrow> byte list res" where
  "strncpy_bytes t 0 = Inr []"
| "strncpy_bytes (c # t) (Suc n) =
     (if c \<noteq> 0 then andThen (strncpy_bytes t n) (\<lambda>r. Inr (c # r)) else Inr (c # replicate n 0))"
| "strncpy_bytes [] (Suc n) = Inl (Wild ''strncpy'')"

definition strncpy :: "byte list \<Rightarrow> byte list \<Rightarrow> int \<Rightarrow> byte list res" where
  "strncpy s t n = andThen (strncpy_bytes t (nat n)) (\<lambda>bs.
     if length bs \<le> length s then Inr (patch s 0 bs) else Inl (Wild ''strncpy''))"

text \<open>The bytes stored by \<open>safestrcpy\<close> when \<open>n > 0\<close>; the loop decrements before it tests.\<close>

fun safestrcpy_bytes :: "byte list \<Rightarrow> nat \<Rightarrow> byte list res" where
  "safestrcpy_bytes t 0 = Inr []"
| "safestrcpy_bytes t (Suc 0) = Inr [0]"
| "safestrcpy_bytes (c # t) (Suc (Suc n)) =
     (if c \<noteq> 0 then andThen (safestrcpy_bytes t (Suc n)) (\<lambda>r. Inr (c # r)) else Inr [c, 0])"
| "safestrcpy_bytes [] (Suc (Suc n)) = Inl (Wild ''safestrcpy'')"

definition safestrcpy :: "byte list \<Rightarrow> byte list \<Rightarrow> int \<Rightarrow> byte list res" where
  "safestrcpy s t n =
     (if n \<le> 0 then Inr s
      else andThen (safestrcpy_bytes t (nat n)) (\<lambda>bs.
        if length bs \<le> length s then Inr (patch s 0 bs) else Inl (Wild ''safestrcpy'')))"

fun strlen_from :: "byte list \<Rightarrow> nat \<Rightarrow> nat res" where
  "strlen_from [] n = Inl (Wild ''strlen'')"
| "strlen_from (c # s) n = (if c \<noteq> 0 then strlen_from s (Suc n) else Inr n)"

definition strlen :: "byte list \<Rightarrow> nat res" where
  "strlen s = strlen_from s 0"

text \<open>\<^verbatim>\<open>ulib.c\<close>.\<close>

fun strcpy_bytes :: "byte list \<Rightarrow> byte list res" where
  "strcpy_bytes [] = Inl (Wild ''strcpy'')"
| "strcpy_bytes (c # t) =
     (if c \<noteq> 0 then andThen (strcpy_bytes t) (\<lambda>r. Inr (c # r)) else Inr [c])"

definition strcpy :: "byte list \<Rightarrow> byte list \<Rightarrow> byte list res" where
  "strcpy s t = andThen (strcpy_bytes t) (\<lambda>bs.
     if length bs \<le> length s then Inr (patch s 0 bs) else Inl (Wild ''strcpy''))"

fun strcmp :: "byte list \<Rightarrow> byte list \<Rightarrow> int res" where
  "strcmp (a # p) (b # q) = (if a \<noteq> 0 \<and> a = b then strcmp p q else Inr (uint a - uint b))"
| "strcmp _ _ = Inl (Wild ''strcmp'')"

text \<open>\<open>strchr\<close> returns the index of the match, \<open>None\<close> for the null pointer.\<close>

fun strchr_from :: "byte list \<Rightarrow> byte \<Rightarrow> nat \<Rightarrow> nat option res" where
  "strchr_from [] c i = Inl (Wild ''strchr'')"
| "strchr_from (x # s) c i =
     (if x = 0 then Inr None else if x = c then Inr (Some i) else strchr_from s c (Suc i))"

definition strchr :: "byte list \<Rightarrow> byte \<Rightarrow> nat option res" where
  "strchr s c = strchr_from s c 0"

definition int_max :: int where
  "int_max = 2147483647"

definition is_digit :: "byte \<Rightarrow> bool" where
  "is_digit c \<longleftrightarrow> 48 \<le> uint c \<and> uint c \<le> 57"

text \<open>\<open>atoi\<close> on \<open>int\<close>; a step that leaves the range of \<open>int\<close> is undefined in C, here \<open>Wild\<close>.\<close>

fun atoi_from :: "byte list \<Rightarrow> int \<Rightarrow> int res" where
  "atoi_from [] n = Inl (Wild ''atoi'')"
| "atoi_from (c # s) n =
     (if is_digit c
      then (if n * 10 + uint c \<le> int_max then atoi_from s (n * 10 + uint c - 48)
            else Inl (Wild ''atoi overflow''))
      else Inr n)"

definition atoi :: "byte list \<Rightarrow> int res" where
  "atoi s = atoi_from s 0"

text \<open>\<open>gets(buf, max)\<close>: \<open>inp\<close> is what successive \<open>read(0, &c, 1)\<close> calls deliver; its end is a
  \<open>read\<close> that returns less than 1. The result is the bytes stored and the input left.\<close>

function gets_loop :: "byte list \<Rightarrow> nat \<Rightarrow> nat \<Rightarrow> byte list \<times> byte list" where
  "gets_loop inp i mx =
     (if i + 1 < mx then
        (case inp of
           [] \<Rightarrow> ([0], [])
         | c # rest \<Rightarrow>
             (if c = 10 \<or> c = 13 then ([c, 0], rest)
              else (let (bs, r) = gets_loop rest (Suc i) mx in (c # bs, r))))
      else ([0], inp))"
  by pat_completeness auto
termination
  by (relation "measure (\<lambda>(inp, i, mx). mx - i)") auto

declare gets_loop.simps [simp del]

definition gets :: "byte list \<Rightarrow> nat \<Rightarrow> byte list \<times> byte list" where
  "gets inp mx = gets_loop inp 0 mx"

section \<open>What the memory routines do\<close>

lemma stosb_eq:
  "n < 2 ^ 32 \<Longrightarrow> stosb n m d c a = (if unat (a - d) < n then c else m a)"
proof (induction n arbitrary: m d)
  case 0
  then show ?case by simp
next
  case (Suc n)
  have step: "unat (a - (d + 1)) < n \<longleftrightarrow> a \<noteq> d \<and> unat (a - d) < Suc n"
  proof (cases "a = d")
    case True
    with Suc.prems show ?thesis by (simp add: unat_minus_one_word)
  next
    case False
    then have "unat (a - d - 1) = unat (a - d) - 1" "unat (a - d) \<noteq> 0"
      by (simp_all add: unat_minus_one unat_eq_zero)
    with False show ?thesis by (auto simp: diff_diff_eq [symmetric])
  qed
  with Suc show ?case by auto
qed

lemma memset_apply: "memset m dst c n a = (if a - dst < n then ucast c else m a)"
  by (simp add: memset_def stosb_eq word_less_nat_alt)

text \<open>
  An upward copy is right when no source byte is overwritten before it is read: the distance from
  the source up to the destination is zero or at least the length. A downward copy needs the same
  of the distance from the destination up to the source.
\<close>

lemma copy_fwd_eq:
  assumes "n < 2 ^ 32" "d = s \<or> n \<le> unat (d - s)"
  shows "copy_fwd n m d s a = (if unat (a - d) < n then m (s + (a - d)) else m a)"
  using assms
proof (induction n arbitrary: m d s)
  case 0
  then show ?case by simp
next
  case (Suc n)
  have IH: "copy_fwd n (m(d := m s)) (d + 1) (s + 1) a =
      (if unat (a - (d + 1)) < n then (m(d := m s)) (s + 1 + (a - (d + 1))) else (m(d := m s)) a)"
    using Suc.prems by (intro Suc.IH) auto
  show ?case
  proof (cases "a = d")
    case True
    with Suc.prems IH show ?thesis by (simp add: unat_minus_one_word)
  next
    case False
    then have un: "unat (a - (d + 1)) = unat (a - d) - 1" "unat (a - d) \<noteq> 0"
      by (simp_all add: unat_minus_one unat_eq_zero diff_diff_eq [symmetric])
    have src: "s + 1 + (a - (d + 1)) = s + (a - d)" by simp
    have "s + (a - d) \<noteq> d" if "unat (a - d) < Suc n"
    proof
      assume "s + (a - d) = d"
      then have e: "d - s = a - d" by (simp add: algebra_simps)
      from Suc.prems(2) show False
      proof
        assume "d = s" with e False show False by simp
      next
        assume "Suc n \<le> unat (d - s)" with that show False unfolding e by simp
      qed
    qed
    with IH un src False show ?thesis by auto
  qed
qed

lemma copy_back_eq:
  assumes "n < 2 ^ 32" "d = s \<or> n \<le> unat (s - d)"
  shows "copy_back n m d s a =
    (if unat (d - 1 - a) < n then m (s - 1 - (d - 1 - a)) else m a)"
  using assms
proof (induction n arbitrary: m d s)
  case 0
  then show ?case by simp
next
  case (Suc n)
  have IH: "copy_back n (m(d - 1 := m (s - 1))) (d - 1) (s - 1) a =
      (if unat (d - 1 - 1 - a) < n
       then (m(d - 1 := m (s - 1))) (s - 1 - 1 - (d - 1 - 1 - a))
       else (m(d - 1 := m (s - 1))) a)"
    using Suc.prems by (intro Suc.IH) auto
  show ?case
  proof (cases "a = d - 1")
    case True
    with Suc.prems IH show ?thesis by (simp add: unat_minus_one_word)
  next
    case False
    then have ne: "d - 1 - a \<noteq> 0" by simp
    have un: "unat (d - 1 - 1 - a) = unat (d - 1 - a) - 1" "unat (d - 1 - a) \<noteq> 0"
      using ne unat_minus_one [OF ne] by (simp_all add: unat_eq_zero algebra_simps)
    have src: "s - 1 - 1 - (d - 1 - 1 - a) = s - 1 - (d - 1 - a)" by simp
    have "s - 1 - (d - 1 - a) \<noteq> d - 1" if "unat (d - 1 - a) < Suc n"
    proof
      assume "s - 1 - (d - 1 - a) = d - 1"
      then have e: "s - d = d - 1 - a" by (simp add: algebra_simps)
      from Suc.prems(2) show False
      proof
        assume "d = s" with e ne show False by simp
      next
        assume "Suc n \<le> unat (s - d)" with that show False unfolding e by simp
      qed
    qed
    with IH un src False show ?thesis by auto
  qed
qed

lemma word_mirror_less: "(n - 1 - x < n) = (x < (n :: uint))"
  by uint_arith

lemma distance_ok_back:
  assumes "src < (dst :: uint)" "unat dst + unat n \<le> 2 ^ 32"
  shows "unat n \<le> unat (src - dst)"
proof -
  have "unat (src - dst) = 2 ^ 32 + unat src - unat dst"
    using assms(1) by (simp add: unat_sub_if' word_less_nat_alt)
  with assms(2) show ?thesis by simp
qed

lemma distance_ok_fwd:
  assumes "unat src + unat n < 2 ^ 32" "\<not> (src < (dst :: uint) \<and> src + n > dst)"
  shows "dst = src \<or> unat n \<le> unat (dst - src)"
proof -
  have sn: "unat (src + n) = unat src + unat n"
    using assms(1) by (simp add: unat_word_ariths)
  consider "dst = src" | "dst < src" | "src < dst" by (meson linorder_cases)
  then show ?thesis
  proof cases
    case 2
    then have "unat (dst - src) = 2 ^ 32 + unat dst - unat src"
      by (simp add: unat_sub_if' word_less_nat_alt)
    with assms(1) show ?thesis by linarith
  next
    case 3
    with assms(2) sn have "unat src + unat n \<le> unat dst" by (auto simp: word_less_nat_alt)
    moreover have "unat (dst - src) = unat dst - unat src"
      using 3 by (simp add: unat_sub_if' word_less_nat_alt)
    ultimately show ?thesis by linarith
  qed simp
qed

lemma memmove_apply:
  assumes "unat src + unat n < 2 ^ 32" and "unat dst + unat n \<le> 2 ^ 32"
  shows "memmove m dst src n a = (if a - dst < n then m (src + (a - dst)) else m a)"
proof (cases "src < dst \<and> src + n > dst")
  case True
  have d: "dst + n - 1 - a = n - 1 - (a - dst)" "src + n - 1 - (n - 1 - (a - dst)) = src + (a - dst)"
    by simp_all
  have "unat n \<le> unat (src + n - (dst + n))"
    using distance_ok_back [of src dst n] True assms by simp
  with True show ?thesis
    by (simp add: memmove_def copy_back_eq d word_mirror_less flip: word_less_nat_alt)
next
  case False
  with distance_ok_fwd [OF assms(1) False] show ?thesis
    by (auto simp: memmove_def copy_fwd_eq simp flip: word_less_nat_alt)
qed

section \<open>What the string routines do\<close>

text \<open>The C string at the front of a byte array, and its reading as a fixed-width name.\<close>

definition cstr :: "byte list \<Rightarrow> byte list" where
  "cstr s = takeWhile (\<lambda>c. c \<noteq> 0) s"

definition cname :: "nat \<Rightarrow> byte list \<Rightarrow> byte list" where
  "cname n s = cstr (take n s)"

lemma cstr_Cons [simp]: "cstr (c # s) = (if c = 0 then [] else c # cstr s)"
  by (simp add: cstr_def)

lemma cstr_Nil [simp]: "cstr [] = []"
  by (simp add: cstr_def)

lemma cname_0 [simp]: "cname 0 s = []"
  by (simp add: cname_def)

lemma cname_Suc [simp]: "cname (Suc n) (c # s) = (if c = 0 then [] else c # cname n s)"
  by (simp add: cname_def)

lemma cstr_no_nul: "0 \<notin> set (cstr s)"
  unfolding cstr_def by (auto dest: set_takeWhileD)

lemma cname_no_nul: "0 \<notin> set (cname n s)"
  by (simp add: cname_def cstr_no_nul)

lemma length_cname: "length (cname n s) \<le> n"
  unfolding cname_def cstr_def by (rule order_trans [OF length_takeWhile_le]) simp

lemma strncmp_total:
  "n \<le> length p \<Longrightarrow> n \<le> length q \<Longrightarrow> \<exists>d. strncmp p q n = Inr d"
  by (induction p q n rule: strncmp.induct) auto

lemma strncmp_eq_0:
  "n \<le> length p \<Longrightarrow> n \<le> length q \<Longrightarrow> strncmp p q n = Inr 0 \<longleftrightarrow> cname n p = cname n q"
  by (induction p q n rule: strncmp.induct) (auto simp: word_uint_eq_iff)

lemma strncpy_bytes_total:
  "0 \<in> set t \<or> n \<le> length t \<Longrightarrow> \<exists>bs. strncpy_bytes t n = Inr bs"
  by (induction t n rule: strncpy_bytes.induct) auto

lemma strncpy_bytes_cname:
  "strncpy_bytes t n = Inr bs \<Longrightarrow> length bs = n \<and> cname n bs = cname n t \<and>
     bs = cname n t @ replicate (n - length (cname n t)) 0"
proof (induction t n arbitrary: bs rule: strncpy_bytes.induct)
  case (2 c t n)
  show ?case
  proof (cases "c = 0")
    case True
    with 2 show ?thesis by auto
  next
    case False
    with 2 obtain r where "strncpy_bytes t n = Inr r" "bs = c # r"
      by (auto simp: seq_simps)
    with 2 False length_cname [of n t] show ?thesis by (auto simp del: replicate_Suc)
  qed
qed auto

lemma safestrcpy_bytes_cstr:
  "safestrcpy_bytes t n = Inr bs \<Longrightarrow> 0 < n \<Longrightarrow>
     length bs \<le> n \<and> 0 \<in> set bs \<and> cstr bs = cname (n - 1) t"
proof (induction t n arbitrary: bs rule: safestrcpy_bytes.induct)
  case (3 c t n)
  show ?case
  proof (cases "c = 0")
    case True
    with 3 show ?thesis by auto
  next
    case False
    with 3 obtain r where "safestrcpy_bytes t (Suc n) = Inr r" "bs = c # r"
      by (auto simp: seq_simps)
    with 3 False show ?thesis by auto
  qed
qed auto

lemma safestrcpy_bytes_total:
  "0 \<in> set t \<Longrightarrow> \<exists>bs. safestrcpy_bytes t n = Inr bs"
  by (induction t n rule: safestrcpy_bytes.induct) auto

lemma strlen_from_eq: "0 \<in> set s \<Longrightarrow> strlen_from s n = Inr (n + length (cstr s))"
  by (induction s n rule: strlen_from.induct) auto

lemma strlen_cstr: "0 \<in> set s \<Longrightarrow> strlen s = Inr (length (cstr s))"
  by (simp add: strlen_def strlen_from_eq)

lemma cstr_append_nul [simp]: "0 \<notin> set xs \<Longrightarrow> cstr (xs @ 0 # ys) = xs"
  by (induction xs) auto

lemma cstr_append: "0 \<in> set xs \<Longrightarrow> cstr (xs @ ys) = cstr xs"
  by (induction xs) auto

text \<open>\<open>safestrcpy\<close> into an array of at least \<open>n\<close> bytes always terminates the string and
  keeps the longest prefix that fits.\<close>

theorem safestrcpy_terminated:
  assumes "0 < n" and "nat n \<le> length s" and "0 \<in> set t"
  shows "\<exists>s'. safestrcpy s t n = Inr s' \<and> length s' = length s \<and>
    0 \<in> set (take (nat n) s') \<and> cstr s' = cname (nat n - 1) t"
proof -
  obtain bs where bs: "safestrcpy_bytes t (nat n) = Inr bs"
    using safestrcpy_bytes_total [OF assms(3)] by blast
  with assms(1) have p: "length bs \<le> nat n" "0 \<in> set bs" "cstr bs = cname (nat n - 1) t"
    using safestrcpy_bytes_cstr [of t "nat n" bs] by auto
  with assms bs have "safestrcpy s t n = Inr (patch s 0 bs)" "length (patch s 0 bs) = length s"
    by (auto simp: safestrcpy_def)
  moreover have "0 \<in> set (take (nat n) (patch s 0 bs))"
    using p by (auto simp: patch_def)
  ultimately show ?thesis
    using p by (auto simp: patch_def cstr_append)
qed

theorem safestrcpy_terminated_witness:
  "\<exists>s'. safestrcpy [9, 9, 9, 9] [104, 105, 106, 107, 0] 3 = Inr s' \<and> length s' = length [9, 9, 9, 9 :: byte] \<and>
    0 \<in> set (take (nat 3) s') \<and> cstr s' = cname (nat 3 - 1) [104, 105, 106, 107, 0]"
  by (rule safestrcpy_terminated) simp_all

text \<open>C8: the kernel \<open>memmove\<close> copies as if through a separate buffer, whatever the overlap,
  and touches nothing else.\<close>

theorem memmove_correct:
  assumes "unat src + unat n < 2 ^ 32" and "unat dst + unat n \<le> 2 ^ 32"
  shows "bytes_at (memmove m dst src n) dst (unat n) = bytes_at m src (unat n) \<and>
    (\<forall>a. \<not> a - dst < n \<longrightarrow> memmove m dst src n a = m a)"
proof
  have "of_nat i < n" if "i < unat n" for i
    using that order_less_trans [OF that unat_uint_less] by (simp add: word_less_nat_alt unat_of_nat)
  then show "bytes_at (memmove m dst src n) dst (unat n) = bytes_at m src (unat n)"
    using assms by (auto simp: bytes_at_def memmove_apply)
qed (use assms in \<open>simp add: memmove_apply\<close>)

theorem memmove_correct_witness:
  "bytes_at (memmove (\<lambda>a. ucast a) 12 10 5) 12 (unat (5 :: uint)) = bytes_at (\<lambda>a. ucast a) 10 (unat (5 :: uint)) \<and>
    memmove (\<lambda>a. ucast a) 12 10 5 11 = 11"
  using memmove_correct [of 10 5 12 "\<lambda>a. ucast a"] by simp

lemma ulib_memmove_apply:
  assumes "n < 2 ^ 31" and "vdst = vsrc \<or> nat n \<le> unat (vdst - vsrc)"
  shows "ulib_memmove m vdst vsrc n a = (if unat (a - vdst) < nat n then m (vsrc + (a - vdst)) else m a)"
  using assms by (simp add: ulib_memmove_def copy_fwd_eq)

text \<open>The user library's \<open>memmove\<close> copies upwards only, so a move to a higher,
  overlapping address repeats the first bytes where the kernel's \<open>memmove\<close> preserves the region.\<close>

theorem ulib_memmove_overlap:
  "ulib_memmove (\<lambda>a. ucast a) 12 10 3 14 = (10 :: byte) \<and>
   memmove (\<lambda>a. ucast a) 12 10 3 14 = (12 :: byte)"
proof
  have "copy_fwd 3 (\<lambda>a. ucast a :: byte) 12 10 14 = 10"
    by (simp add: numeral_3_eq_3)
  then show "ulib_memmove (\<lambda>a. ucast a) 12 10 3 14 = (10 :: byte)"
    by (simp add: ulib_memmove_def)
  show "memmove (\<lambda>a. ucast a) 12 10 3 14 = (12 :: byte)"
    by (simp add: memmove_apply)
qed

end
