(* ===== verification/Mmu.thy ===== *)
theory Mmu
  imports Cstring
begin

unbundle bit_operations_syntax

text \<open>
  The memory-management macros of \<^verbatim>\<open>mmu.h\<close> and the constants of \<^verbatim>\<open>param.h\<close> they are used with:
  page rounding, the split of a linear address into directory index, table index and offset, page
  table entries, and interrupt gates. Words in memory are little-endian.
\<close>

section \<open>Macros\<close>

definition PGSIZE :: uint where "PGSIZE = 4096"
definition PHYSTOP :: uint where "PHYSTOP = 0x1000000"
definition USERTOP :: uint where "USERTOP = 0xA0000"

definition PGROUNDUP :: "uint \<Rightarrow> uint" where
  "PGROUNDUP sz = (sz + PGSIZE - 1) AND NOT (PGSIZE - 1)"

definition PGROUNDDOWN :: "uint \<Rightarrow> uint" where
  "PGROUNDDOWN a = a AND NOT (PGSIZE - 1)"

definition PDX :: "uint \<Rightarrow> uint" where
  "PDX la = drop_bit 22 la AND 0x3FF"

definition PTX :: "uint \<Rightarrow> uint" where
  "PTX la = drop_bit 12 la AND 0x3FF"

definition PGADDR :: "uint \<Rightarrow> uint \<Rightarrow> uint \<Rightarrow> uint" where
  "PGADDR d t off = push_bit 22 d OR push_bit 12 t OR off"

definition PTE_ADDR :: "uint \<Rightarrow> uint" where
  "PTE_ADDR pte = pte AND NOT 0xFFF"

definition PTE_P :: uint where "PTE_P = 1"
definition PTE_W :: uint where "PTE_W = 2"
definition PTE_U :: uint where "PTE_U = 4"

record gatedesc =
  off_15_0 :: ushort
  gate_cs :: ushort
  gate_args :: "5 word"
  gate_rsv1 :: "3 word"
  gate_type :: "4 word"
  gate_s :: "1 word"
  gate_dpl :: "2 word"
  gate_p :: "1 word"
  off_31_16 :: ushort

definition STS_IG32 :: "4 word" where "STS_IG32 = 0xE"
definition STS_TG32 :: "4 word" where "STS_TG32 = 0xF"

definition SETGATE :: "bool \<Rightarrow> ushort \<Rightarrow> uint \<Rightarrow> 2 word \<Rightarrow> gatedesc" where
  "SETGATE istrap sel off d =
     \<lparr>off_15_0 = ucast (off AND 0xffff), gate_cs = sel, gate_args = 0, gate_rsv1 = 0,
      gate_type = (if istrap then STS_TG32 else STS_IG32), gate_s = 0, gate_dpl = d, gate_p = 1,
      off_31_16 = ucast (drop_bit 16 off)\<rparr>"

record segdesc =
  lim_15_0 :: ushort
  base_15_0 :: ushort
  base_23_16 :: byte
  seg_type :: "4 word"
  seg_s :: "1 word"
  seg_dpl :: "2 word"
  seg_p :: "1 word"
  lim_19_16 :: "4 word"
  seg_avl :: "1 word"
  seg_rsv1 :: "1 word"
  seg_db :: "1 word"
  seg_g :: "1 word"
  base_31_24 :: byte

definition SEG :: "4 word \<Rightarrow> uint \<Rightarrow> uint \<Rightarrow> 2 word \<Rightarrow> segdesc" where
  "SEG t base lim d =
     \<lparr>lim_15_0 = ucast (drop_bit 12 lim AND 0xffff), base_15_0 = ucast (base AND 0xffff),
      base_23_16 = ucast (drop_bit 16 base AND 0xff), seg_type = t, seg_s = 1, seg_dpl = d, seg_p = 1,
      lim_19_16 = ucast (drop_bit 28 lim), seg_avl = 0, seg_rsv1 = 0, seg_db = 1, seg_g = 1,
      base_31_24 = ucast (drop_bit 24 base)\<rparr>"

definition SEG16 :: "4 word \<Rightarrow> uint \<Rightarrow> uint \<Rightarrow> 2 word \<Rightarrow> segdesc" where
  "SEG16 t base lim d =
     \<lparr>lim_15_0 = ucast (lim AND 0xffff), base_15_0 = ucast (base AND 0xffff),
      base_23_16 = ucast (drop_bit 16 base AND 0xff), seg_type = t, seg_s = 1, seg_dpl = d, seg_p = 1,
      lim_19_16 = ucast (drop_bit 16 lim), seg_avl = 0, seg_rsv1 = 0, seg_db = 1, seg_g = 0,
      base_31_24 = ucast (drop_bit 24 base)\<rparr>"

definition STA_X :: "4 word" where "STA_X = 0x8"
definition STA_W :: "4 word" where "STA_W = 0x2"
definition STA_R :: "4 word" where "STA_R = 0x2"
definition STS_T32A :: "4 word" where "STS_T32A = 0x9"
definition DPL_USER :: "2 word" where "DPL_USER = 3"
definition CR0_PG :: uint where "CR0_PG = 0x80000000"
definition FL_IF :: uint where "FL_IF = 0x200"

text \<open>32-bit loads and stores.\<close>

definition load32 :: "mem \<Rightarrow> uint \<Rightarrow> uint" where
  "load32 m a = get32 [m a, m (a + 1), m (a + 2), m (a + 3)] 0"

definition store32 :: "mem \<Rightarrow> uint \<Rightarrow> uint \<Rightarrow> mem" where
  "store32 m a w =
     m(a := ucast w, a + 1 := ucast (drop_bit 8 w), a + 2 := ucast (drop_bit 16 w),
       a + 3 := ucast (drop_bit 24 w))"

definition page_aligned :: "uint \<Rightarrow> bool" where
  "page_aligned p \<longleftrightarrow> p mod PGSIZE = 0"

section \<open>Properties\<close>

lemmas page_defs = PGSIZE_def PHYSTOP_def USERTOP_def

lemma load32_store32_same [simp]: "load32 (store32 m a w) a = w"
  by (simp add: load32_def store32_def get32_def join32)

lemma load32_cong:
  "(\<And>i. i < 4 \<Longrightarrow> m (a + i) = m' (a + i)) \<Longrightarrow> load32 m a = load32 m' a"
proof -
  assume h: "\<And>i. i < 4 \<Longrightarrow> m (a + i) = m' (a + i)"
  have "m a = m' a" "m (a + 1) = m' (a + 1)" "m (a + 2) = m' (a + 2)" "m (a + 3) = m' (a + 3)"
    using h [of 0] h [of 1] h [of 2] h [of 3] by simp_all
  then show ?thesis by (simp add: load32_def)
qed

lemma store32_apply_other: "\<not> b - a < 4 \<Longrightarrow> store32 m a w b = m b"
  by (auto simp: store32_def)

text \<open>A linear address is determined by its three parts.\<close>

lemma PGADDR_split: "PGADDR (PDX la) (PTX la) (la AND 0xFFF) = la"
proof (rule bit_word_eqI)
  fix n assume n: "n < LENGTH(32)"
  have 3: "(0x3FF :: uint) = mask 10" "(0xFFF :: uint) = mask 12"
    by (simp_all add: mask_eq_exp_minus_1)
  from n consider "n < 12" | "12 \<le> n" "n < 22" | "22 \<le> n" "n < 32" by fastforce
  then show "bit (PGADDR (PDX la) (PTX la) (la AND 0xFFF)) n = bit la n"
    unfolding PGADDR_def PDX_def PTX_def 3 by cases (auto simp: bit_simps)
qed

lemma PGROUNDDOWN_eq: "PGROUNDDOWN a = a - a mod PGSIZE"
proof -
  have m: "a mod PGSIZE = take_bit 12 a"
    by (simp add: PGSIZE_def take_bit_eq_mod)
  have n: "NOT (PGSIZE - 1) = NOT (mask 12)"
    by (simp add: PGSIZE_def mask_eq_exp_minus_1)
  have "PGROUNDDOWN a = push_bit 12 (drop_bit 12 a)"
    unfolding PGROUNDDOWN_def n by (rule bit_word_eqI) (auto simp: bit_simps)
  with m bits_ident [of 12 a] show ?thesis
    by (metis add_diff_cancel_right')
qed

lemma PGROUNDDOWN_aligned [simp]: "page_aligned (PGROUNDDOWN a)"
proof -
  have n: "NOT (PGSIZE - 1) = NOT (mask 12)"
    by (simp add: PGSIZE_def mask_eq_exp_minus_1)
  have "take_bit 12 (PGROUNDDOWN a) = 0"
    unfolding PGROUNDDOWN_def n by (rule bit_word_eqI) (auto simp: bit_simps)
  then show ?thesis by (simp add: page_aligned_def PGSIZE_def take_bit_eq_mod)
qed

lemma PGROUNDUP_PGROUNDDOWN: "PGROUNDUP sz = PGROUNDDOWN (sz + PGSIZE - 1)"
  by (simp add: PGROUNDUP_def PGROUNDDOWN_def)

lemma PGROUNDUP_aligned [simp]: "page_aligned (PGROUNDUP a)"
  by (simp add: PGROUNDUP_PGROUNDDOWN)

lemma SETGATE_offset:
  "ucast (off_15_0 (SETGATE t sel off d)) OR push_bit 16 (ucast (off_31_16 (SETGATE t sel off d))) = off"
proof -
  have m: "(0xffff :: uint) = mask 16" by (simp add: mask_eq_exp_minus_1)
  show ?thesis
    by (rule bit_word_eqI) (auto simp: SETGATE_def m bit_simps)
qed

text \<open>The base address and the limit, in units of the granularity, that a descriptor encodes.\<close>

definition seg_base :: "segdesc \<Rightarrow> uint" where
  "seg_base d = ucast (base_15_0 d) OR push_bit 16 (ucast (base_23_16 d)) OR push_bit 24 (ucast (base_31_24 d))"

definition seg_limit :: "segdesc \<Rightarrow> uint" where
  "seg_limit d = ucast (lim_15_0 d) OR push_bit 16 (ucast (lim_19_16 d))"

lemma seg_base_SEG: "seg_base (SEG t base lim d) = base" "seg_base (SEG16 t base lim d) = base"
proof -
  have m: "(0xffff :: uint) = mask 16" "(0xff :: uint) = mask 8" by (simp_all add: mask_eq_exp_minus_1)
  have "bit (seg_base (SEG t base lim d)) n = bit base n" if n: "n < LENGTH(32)" for n
  proof -
    from n consider "n < 16" | "16 \<le> n" "n < 24" | "24 \<le> n" "n < 32" by fastforce
    then show ?thesis
      unfolding SEG_def seg_base_def m by cases (auto simp: bit_simps)
  qed
  then show "seg_base (SEG t base lim d) = base" by (rule bit_word_eqI)
  then show "seg_base (SEG16 t base lim d) = base" by (simp add: SEG_def SEG16_def seg_base_def)
qed

lemma seg_limit_SEG: "seg_limit (SEG t base lim d) = drop_bit 12 lim"
proof (rule bit_word_eqI)
  fix n assume n: "n < LENGTH(32)"
  have m: "(0xffff :: uint) = mask 16" by (simp_all add: mask_eq_exp_minus_1)
  from n consider "n < 16" | "16 \<le> n" "n < 20" | "20 \<le> n" "n < 32" by fastforce
  then show "bit (seg_limit (SEG t base lim d)) n = bit (drop_bit 12 lim) n"
    unfolding SEG_def seg_limit_def m by cases (auto simp: bit_simps dest: bit_imp_le_length)
qed

text \<open>Pages are disjoint.\<close>

lemma page_aligned_nat: "page_aligned p \<longleftrightarrow> 4096 dvd unat p"
proof -
  have "unat (p mod PGSIZE) = unat p mod 4096" by (simp add: PGSIZE_def unat_mod)
  then show ?thesis by (simp add: page_aligned_def word_unat_eq_iff mod_eq_0_iff_dvd del: mod_0_imp_dvd)
qed

lemma unat_page_add:
  assumes "page_aligned p" and "i < PGSIZE"
  shows "unat (p + i) = unat p + unat i"
proof -
  from assms(1) obtain k where k: "unat p = 4096 * k" by (auto simp: page_aligned_nat)
  with unat_uint_less [of p] have "k < 1048576" by simp
  with k assms(2) have "unat p + unat i < 2 ^ 32"
    by (simp add: PGSIZE_def word_less_nat_alt)
  then show ?thesis by (simp add: unat_word_ariths)
qed

lemma page_disjoint:
  assumes "page_aligned v" and "page_aligned w" and "i < PGSIZE" and "w + i - v < PGSIZE"
  shows "v = w"
proof -
  have "unat w + unat i = unat v + unat (w + i - v)"
    using unat_page_add [OF assms(2,3)] unat_page_add [OF assms(1,4)] by simp
  moreover have "unat i < 4096" "unat (w + i - v) < 4096"
    using assms(3,4) by (simp_all add: PGSIZE_def word_less_nat_alt)
  moreover obtain a b where "unat v = 4096 * a" "unat w = 4096 * b"
    using assms(1,2) by (auto simp: page_aligned_nat elim!: dvdE)
  ultimately have "unat v = unat w" by (cases a b rule: linorder_cases) linarith+
  then show ?thesis by (simp add: word_unat_eq_iff)
qed

end
