(* ===== verification/Spinlock.thy ===== *)
theory Spinlock
  imports Prelude
begin

text \<open>
  Spin locks (\<^verbatim>\<open>spinlock.c\<close>).

  \<open>machine\<close> is the part of the kernel state every routine shares: the CPUs with their interrupt
  state, which of them is executing, and the locks. Later theories extend this record with the state
  of their component. The debugging array \<open>pcs\<close> of a lock is not kept in the state; the routine that
  fills it, \<open>getcallerpcs\<close>, is modelled on its own.

  The first part models the routines as one CPU executes them; a lock held by somebody else is
  \<open>Spins\<close>. The second part is the protocol several CPUs follow on one lock, one atomic memory
  access per step, with mutual exclusion. The third part is the calculus of critical sections that
  the other components use.
\<close>

section \<open>The routines\<close>

record spinlock =
  lk_locked :: uint
  lk_name :: string
  lk_cpu :: "nat option"

record cpu =
  ncli :: int      \<comment> \<open>depth of pushcli nesting\<close>
  intena :: bool   \<comment> \<open>were interrupts enabled before pushcli?\<close>
  ifl :: bool      \<comment> \<open>the flag FL\_IF of eflags\<close>

datatype lockid =
  L_kmem | L_bcache | L_icache | L_ftable | L_ide | L_ptable | L_ticks | L_cons | L_input
  | L_pipe nat

record machine =
  cpus :: "nat \<Rightarrow> cpu"
  cur :: nat
  locks :: "lockid \<Rightarrow> spinlock"

definition initlock :: "lockid \<Rightarrow> string \<Rightarrow> 'a machine_scheme \<Rightarrow> 'a machine_scheme" where
  "initlock l name m = m\<lparr>locks := (locks m)(l := \<lparr>lk_locked = 0, lk_name = name, lk_cpu = None\<rparr>)\<rparr>"

definition set_cpu :: "cpu \<Rightarrow> 'a machine_scheme \<Rightarrow> 'a machine_scheme" where
  "set_cpu c m = m\<lparr>cpus := (cpus m)(cur m := c)\<rparr>"

definition set_lock :: "lockid \<Rightarrow> spinlock \<Rightarrow> 'a machine_scheme \<Rightarrow> 'a machine_scheme" where
  "set_lock l k m = m\<lparr>locks := (locks m)(l := k)\<rparr>"

definition mycpu :: "'a machine_scheme \<Rightarrow> cpu" where
  "mycpu m = cpus m (cur m)"

definition pushcli :: "'a machine_scheme \<Rightarrow> 'a machine_scheme" where
  "pushcli m =
     (let eflags = ifl (mycpu m);
          c = (mycpu m)\<lparr>ifl := False, ncli := ncli (mycpu m) + 1\<rparr>
      in set_cpu (if ncli (mycpu m) = 0 then c\<lparr>intena := eflags\<rparr> else c) m)"

definition popcli :: "'a machine_scheme \<Rightarrow> 'a machine_scheme res" where
  "popcli m =
     (if ifl (mycpu m) then Inl (Panic ''popcli - interruptible'')
      else let c = (mycpu m)\<lparr>ncli := ncli (mycpu m) - 1\<rparr> in
        if ncli c < 0 then Inl (Panic ''popcli'')
        else Inr (set_cpu (if ncli c = 0 \<and> intena c then c\<lparr>ifl := True\<rparr> else c) m))"

definition holding :: "lockid \<Rightarrow> 'a machine_scheme \<Rightarrow> bool" where
  "holding l m \<longleftrightarrow> lk_locked (locks m l) \<noteq> 0 \<and> lk_cpu (locks m l) = Some (cur m)"

definition acquire :: "lockid \<Rightarrow> 'a machine_scheme \<Rightarrow> 'a machine_scheme res" where
  "acquire l m =
     (let m = pushcli m in
      if holding l m then Inl (Panic ''acquire'')
      else if lk_locked (locks m l) \<noteq> 0 then Inl (Spins (lk_name (locks m l)))
      else Inr (set_lock l ((locks m l)\<lparr>lk_locked := 1, lk_cpu := Some (cur m)\<rparr>) m))"

definition release :: "lockid \<Rightarrow> 'a machine_scheme \<Rightarrow> 'a machine_scheme res" where
  "release l m =
     (if \<not> holding l m then Inl (Panic ''release'')
      else popcli (set_lock l ((locks m l)\<lparr>lk_cpu := None, lk_locked := 0\<rparr>) m))"

text \<open>\<open>ld a\<close> is the word at address \<open>a\<close>; a frame holds the caller's frame pointer at offset 0 and
  the return address at offset 4.\<close>

definition bad_frame :: "uint \<Rightarrow> bool" where
  "bad_frame ebp \<longleftrightarrow> ebp = 0 \<or> ebp < 0x100000 \<or> ebp = 0xffffffff"

primrec walk_frames :: "nat \<Rightarrow> (uint \<Rightarrow> uint) \<Rightarrow> uint \<Rightarrow> uint list" where
  "walk_frames 0 ld ebp = []"
| "walk_frames (Suc n) ld ebp =
     (if bad_frame ebp then replicate (Suc n) 0
      else ld (ebp + 4) # walk_frames n ld (ld ebp))"

definition getcallerpcs :: "(uint \<Rightarrow> uint) \<Rightarrow> uint \<Rightarrow> uint list" where
  "getcallerpcs ld v = walk_frames 10 ld (v - 8)"

section \<open>The protocol of several CPUs on one lock\<close>

text \<open>
  Where a CPU is in \<open>acquire\<close>, its critical section and \<open>release\<close>: outside; spinning on the
  \<open>xchg\<close>; past the \<open>xchg\<close> but not yet recorded in \<open>lk->cpu\<close>; in the critical section; past
  the clearing of \<open>lk->cpu\<close> but not yet past the releasing \<open>xchg\<close>.
\<close>

datatype lpc = Out | Try | Got | Crit | Cleared

type_synonym lstate = "machine \<times> (nat \<Rightarrow> lpc)"

definition at_cpu :: "nat \<Rightarrow> machine \<Rightarrow> machine" where
  "at_cpu c m = m\<lparr>cur := c\<rparr>"

inductive lock_step :: "lockid \<Rightarrow> lstate \<Rightarrow> lstate \<Rightarrow> bool" for l where
  enter: "pc c = Out \<Longrightarrow> \<not> holding l (pushcli (at_cpu c m)) \<Longrightarrow>
    lock_step l (m, pc) (pushcli (at_cpu c m), pc(c := Try))"
| spin: "pc c = Try \<Longrightarrow> lk_locked (locks m l) \<noteq> 0 \<Longrightarrow>
    lock_step l (m, pc) (set_lock l ((locks m l)\<lparr>lk_locked := 1\<rparr>) (at_cpu c m), pc)"
| xchg: "pc c = Try \<Longrightarrow> lk_locked (locks m l) = 0 \<Longrightarrow>
    lock_step l (m, pc) (set_lock l ((locks m l)\<lparr>lk_locked := 1\<rparr>) (at_cpu c m), pc(c := Got))"
| note_owner: "pc c = Got \<Longrightarrow>
    lock_step l (m, pc) (set_lock l ((locks m l)\<lparr>lk_cpu := Some c\<rparr>) (at_cpu c m), pc(c := Crit))"
| clear_owner: "pc c = Crit \<Longrightarrow> holding l (at_cpu c m) \<Longrightarrow>
    lock_step l (m, pc) (set_lock l ((locks m l)\<lparr>lk_cpu := None\<rparr>) (at_cpu c m), pc(c := Cleared))"
| unlock: "pc c = Cleared \<Longrightarrow>
    popcli (set_lock l ((locks m l)\<lparr>lk_locked := 0\<rparr>) (at_cpu c m)) = Inr m' \<Longrightarrow>
    lock_step l (m, pc) (m', pc(c := Out))"

inductive lock_reach :: "lockid \<Rightarrow> lstate \<Rightarrow> bool" for l where
  boot: "lk_locked (locks m l) = 0 \<Longrightarrow> lk_cpu (locks m l) = None \<Longrightarrow>
    (\<And>c. ncli (cpus m c) = 0) \<Longrightarrow> lock_reach l (m, \<lambda>_. Out)"
| more: "lock_reach l s \<Longrightarrow> lock_step l s t \<Longrightarrow> lock_reach l t"

text \<open>A CPU's attempt to go on panics: the re-acquisition test of \<open>acquire\<close> fires, the ownership
  test of \<open>release\<close> fails, or \<open>popcli\<close> panics.\<close>

definition lock_panics :: "lockid \<Rightarrow> lstate \<Rightarrow> nat \<Rightarrow> bool" where
  "lock_panics l s c =
     (let (m, pc) = s in
      case pc c of
        Out \<Rightarrow> holding l (pushcli (at_cpu c m))
      | Crit \<Rightarrow> \<not> holding l (at_cpu c m)
      | Cleared \<Rightarrow> (\<exists>e. popcli (set_lock l ((locks m l)\<lparr>lk_locked := 0\<rparr>) (at_cpu c m)) = Inl e)
      | _ \<Rightarrow> False)"

definition owns :: "lpc \<Rightarrow> bool" where
  "owns p \<longleftrightarrow> p = Got \<or> p = Crit \<or> p = Cleared"

definition lock_inv :: "lockid \<Rightarrow> lstate \<Rightarrow> bool" where
  "lock_inv l s =
     (let (m, pc) = s in
      (lk_locked (locks m l) \<noteq> 0 \<longleftrightarrow> (\<exists>c. owns (pc c))) \<and>
      (\<forall>c d. owns (pc c) \<longrightarrow> owns (pc d) \<longrightarrow> c = d) \<and>
      (\<forall>c. lk_cpu (locks m l) = Some c \<longleftrightarrow> pc c = Crit) \<and>
      (\<forall>c. pc c = Out \<longrightarrow> ncli (cpus m c) = 0) \<and>
      (\<forall>c. pc c \<noteq> Out \<longrightarrow> ncli (cpus m c) = 1 \<and> \<not> ifl (cpus m c)))"

lemma owns_simps [simp]: "owns Got" "owns Crit" "owns Cleared" "\<not> owns Out" "\<not> owns Try"
  by (simp_all add: owns_def)

lemmas lock_defs = set_cpu_def set_lock_def mycpu_def pushcli_def popcli_def holding_def
  at_cpu_def Let_def

lemma lock_inv_owns: "lock_inv l (m, pc) \<Longrightarrow> owns (pc c) \<Longrightarrow> lk_locked (locks m l) \<noteq> 0"
  by (auto simp: lock_inv_def)

lemma lock_inv_step:
  assumes "lock_step l s t" and "lock_inv l s"
  shows "lock_inv l t"
  using assms
proof (induction rule: lock_step.induct)
  case (enter pc c m)
  then show ?case by (auto simp: lock_inv_def lock_defs owns_def split: if_splits)
next
  case (spin pc c m)
  then show ?case by (auto simp: lock_inv_def lock_defs)
next
  case (xchg pc c m)
  then have "\<forall>d. \<not> owns (pc d)" by (auto simp: lock_inv_def)
  with xchg show ?case by (auto simp: lock_inv_def lock_defs)
next
  case (note_owner pc c m)
  then have "lk_locked (locks m l) \<noteq> 0" using lock_inv_owns [of l m pc c] by simp
  with note_owner show ?case by (auto simp: lock_inv_def lock_defs split: if_splits)
next
  case (clear_owner pc c m)
  then show ?case by (auto simp: lock_inv_def lock_defs split: if_splits)
next
  case (unlock pc c m m')
  then have "\<forall>d. d \<noteq> c \<longrightarrow> \<not> owns (pc d)" by (auto simp: lock_inv_def)
  with unlock show ?case
    by (auto simp: lock_inv_def lock_defs split: if_splits)
qed

lemma lock_inv_reach: "lock_reach l s \<Longrightarrow> lock_inv l s"
proof (induction rule: lock_reach.induct)
  case (boot m)
  then show ?case by (simp add: lock_inv_def)
next
  case (more s t)
  then show ?case by (blast intro: lock_inv_step)
qed

text \<open>C7: mutual exclusion. In every reachable state at most one CPU is between the \<open>xchg\<close> that
  takes the lock and the one that frees it, and that CPU runs with interrupts off.\<close>

theorem spinlock_mutual_exclusion:
  assumes "lock_reach l (m, pc)" and "owns (pc c)" and "owns (pc d)"
  shows "c = d \<and> lk_locked (locks m l) \<noteq> 0 \<and> \<not> ifl (cpus m c) \<and> ncli (cpus m c) = 1"
proof -
  from assms(2) have "pc c \<noteq> Out" by auto
  with assms lock_inv_reach [OF assms(1)] show ?thesis
    by (auto simp: lock_inv_def)
qed

text \<open>C16: none of the panics of \<open>acquire\<close>, \<open>release\<close> and \<open>popcli\<close> fires for CPUs that follow the
  protocol, although \<open>holding\<close> reads \<open>locked\<close> and \<open>cpu\<close> without atomicity.\<close>

theorem spinlock_never_panics:
  assumes "lock_reach l s"
  shows "\<not> lock_panics l s c"
proof -
  obtain m pc where s: "s = (m, pc)" by (cases s)
  from lock_inv_reach [OF assms] have inv: "lock_inv l (m, pc)" by (simp add: s)
  show ?thesis
  proof (cases "pc c")
    case Out
    with inv have "lk_cpu (locks m l) \<noteq> Some c" by (auto simp: lock_inv_def)
    with Out show ?thesis by (simp add: s lock_panics_def lock_defs)
  next
    case Crit
    with inv have "lk_locked (locks m l) \<noteq> 0" using lock_inv_owns [of l m pc c] by simp
    with Crit inv show ?thesis by (auto simp: s lock_panics_def lock_inv_def lock_defs)
  next
    case Cleared
    with inv show ?thesis by (auto simp: s lock_panics_def lock_inv_def lock_defs)
  qed (simp_all add: s lock_panics_def)
qed

section \<open>Critical sections of one CPU\<close>

definition free_lock :: "lockid \<Rightarrow> 'a machine_scheme \<Rightarrow> bool" where
  "free_lock l m \<longleftrightarrow> lk_locked (locks m l) = 0 \<and> lk_cpu (locks m l) = None"

definition cpu_ok :: "'a machine_scheme \<Rightarrow> bool" where
  "cpu_ok m \<longleftrightarrow> 0 \<le> ncli (mycpu m) \<and> (ncli (mycpu m) = 0 \<longrightarrow> intena (mycpu m) = ifl (mycpu m)) \<and>
     (0 < ncli (mycpu m) \<longrightarrow> \<not> ifl (mycpu m))"

text \<open>The state inside the critical section of \<open>l\<close> that was entered from state \<open>m\<close>.\<close>

definition entered :: "lockid \<Rightarrow> 'a machine_scheme \<Rightarrow> 'a machine_scheme" where
  "entered l m = set_lock l ((locks m l)\<lparr>lk_locked := 1, lk_cpu := Some (cur m)\<rparr>) (pushcli m)"

lemma acquire_free [simp]: "free_lock l m \<Longrightarrow> acquire l m = Inr (entered l m)"
  by (simp add: acquire_def free_lock_def entered_def lock_defs)

lemma acquire_held: "lk_locked (locks m l) \<noteq> 0 \<Longrightarrow> \<exists>e. acquire l m = Inl e"
  by (auto simp: acquire_def lock_defs)

lemma release_entered [simp]:
  "free_lock l m \<Longrightarrow> cpu_ok m \<Longrightarrow> release l (entered l m) = Inr m"
  by (cases "ncli (mycpu m) = 0")
     (auto simp: release_def entered_def free_lock_def cpu_ok_def lock_defs fun_upd_idem_iff)

lemma free_lock_entered [simp]: "l \<noteq> l' \<Longrightarrow> free_lock l (entered l' m) = free_lock l m"
  by (simp add: free_lock_def entered_def lock_defs)

lemma cpu_ok_entered [simp]: "cpu_ok m \<Longrightarrow> cpu_ok (entered l m)"
  by (auto simp: cpu_ok_def entered_def lock_defs)

lemma cur_entered [simp]: "cur (entered l m) = cur m"
  by (simp add: entered_def lock_defs)

lemma more_entered [simp]: "machine.more (entered l m) = machine.more m"
  by (simp add: entered_def lock_defs)

lemma entered_more_update [simp]:
  "(entered l m)\<lparr>machine.more := x\<rparr> = entered l (m\<lparr>machine.more := x\<rparr>)"
  by (simp add: entered_def lock_defs)

lemma free_lock_more_update [simp]: "free_lock l (m\<lparr>machine.more := x\<rparr>) = free_lock l m"
  by (simp add: free_lock_def)

lemma cpu_ok_more_update [simp]: "cpu_ok (m\<lparr>machine.more := x\<rparr>) = cpu_ok m"
  by (simp add: cpu_ok_def mycpu_def)

text \<open>The kernel outside of all critical sections.\<close>

definition quiet :: "'a machine_scheme \<Rightarrow> bool" where
  "quiet m \<longleftrightarrow> cpu_ok m \<and> (\<forall>l. free_lock l m)"

lemma quiet_more_update [simp]: "quiet (m\<lparr>machine.more := x\<rparr>) = quiet m"
  by (simp add: quiet_def)

lemma quiet_free [simp]: "quiet m \<Longrightarrow> free_lock l m"
  by (simp add: quiet_def)

lemma quiet_cpu_ok [simp]: "quiet m \<Longrightarrow> cpu_ok m"
  by (simp add: quiet_def)

text \<open>\<open>release\<close> undoes \<open>acquire\<close>. A CPU in a consistent interrupt state that takes a free lock
  and releases it is back in the state it came from, interrupt flag and nesting depth included, at
  any nesting depth; inside, interrupts are off and a second \<open>acquire\<close> of the same lock panics.\<close>

theorem acquire_release:
  assumes "free_lock l m" and "cpu_ok m"
  shows "\<exists>m'. acquire l m = Inr m' \<and> holding l m' \<and> \<not> ifl (mycpu m') \<and>
    acquire l m' = Inl (Panic ''acquire'') \<and> release l m' = Inr m"
proof (intro exI conjI)
  show "acquire l m = Inr (entered l m)" using assms by simp
  show "release l (entered l m) = Inr m" using assms by simp
  show "holding l (entered l m)" by (simp add: entered_def lock_defs)
  show "\<not> ifl (mycpu (entered l m))" by (simp add: entered_def lock_defs)
  show "acquire l (entered l m) = Inl (Panic ''acquire'')"
    by (simp add: acquire_def entered_def lock_defs)
qed

definition boot_machine :: machine where
  "boot_machine =
     \<lparr>cpus = (\<lambda>_. \<lparr>ncli = 0, intena = True, ifl = True\<rparr>), cur = 0,
      locks = (\<lambda>_. \<lparr>lk_locked = 0, lk_name = ''lock'', lk_cpu = None\<rparr>)\<rparr>"

lemma quiet_boot_machine: "quiet boot_machine"
  by (simp add: quiet_def cpu_ok_def free_lock_def boot_machine_def mycpu_def)

theorem acquire_release_witness:
  "\<exists>m'. acquire L_kmem boot_machine = Inr m' \<and> holding L_kmem m' \<and> \<not> ifl (mycpu m') \<and>
    acquire L_kmem m' = Inl (Panic ''acquire'') \<and> release L_kmem m' = Inr boot_machine"
  by (rule acquire_release) (simp_all add: quiet_boot_machine)

lemma lock_reach_boot: "lock_reach l (boot_machine, \<lambda>_. Out)"
  by (rule lock_reach.boot) (simp_all add: boot_machine_def)

lemma lock_reach_got:
  "\<exists>m pc. lock_reach l (m, pc) \<and> owns (pc 1)"
proof -
  let ?m1 = "pushcli (at_cpu 1 boot_machine)"
  have "lock_step l (boot_machine, \<lambda>_. Out) (?m1, (\<lambda>_. Out)(1 := Try))"
    by (rule lock_step.enter) (simp_all add: boot_machine_def lock_defs)
  with lock_reach_boot have 1: "lock_reach l (?m1, (\<lambda>_. Out)(1 := Try))"
    by (rule lock_reach.more)
  have "lock_step l (?m1, (\<lambda>_. Out)(1 := Try))
    (set_lock l ((locks ?m1 l)\<lparr>lk_locked := 1\<rparr>) (at_cpu 1 ?m1), ((\<lambda>_. Out)(1 := Try))(1 := Got))"
    by (rule lock_step.xchg) (simp_all add: boot_machine_def lock_defs)
  with 1 have "lock_reach l (set_lock l ((locks ?m1 l)\<lparr>lk_locked := 1\<rparr>) (at_cpu 1 ?m1),
      ((\<lambda>_. Out)(1 := Try))(1 := Got))"
    by (rule lock_reach.more)
  then show ?thesis by (intro exI conjI) (assumption, simp)
qed

theorem spinlock_mutual_exclusion_witness:
  "\<exists>m pc. lock_reach L_kmem (m, pc) \<and> owns (pc 1) \<and>
    ((1::nat) = 1 \<and> lk_locked (locks m L_kmem) \<noteq> 0 \<and> \<not> ifl (cpus m 1) \<and> ncli (cpus m 1) = 1)"
proof -
  obtain m pc where r: "lock_reach L_kmem (m, pc)" and o: "owns (pc 1)"
    using lock_reach_got by blast
  from spinlock_mutual_exclusion [OF r o o] r o show ?thesis by blast
qed

theorem spinlock_never_panics_witness:
  "\<not> lock_panics L_kmem (boot_machine, \<lambda>_. Out) 0"
  by (rule spinlock_never_panics) (rule lock_reach_boot)

end
