(* ===== verification/Kalloc.thy ===== *)
theory Kalloc
  imports Mmu Spinlock
begin

text \<open>
  The physical page allocator (\<^verbatim>\<open>kalloc.c\<close>).

  The free list is a linked list threaded through the free pages themselves: the first word of a
  free page is the address of the next one. The state is the physical memory and the head of the
  list. \<open>kend\<close>, the linker symbol \<open>end\<close>, is a parameter.

  \<open>free_list\<close> reads the threaded list as the list of its pages. The interface \<open>page_pool\<close> states
  what a page allocator promises in these terms; its consequences are proved once and hold for
  \<open>kalloc\<close>/\<open>kfree\<close> by interpretation.
\<close>

section \<open>The allocator\<close>

record kmem = machine +
  pmem :: mem
  freelist :: uint

definition kfree :: "uint \<Rightarrow> uint \<Rightarrow> 'a kmem_scheme \<Rightarrow> 'a kmem_scheme res" where
  "kfree kend v s =
     (if v mod PGSIZE \<noteq> 0 \<or> v < kend \<or> v \<ge> PHYSTOP then Inl (Panic ''kfree'')
      else
        let s = s\<lparr>pmem := memset (pmem s) v 1 PGSIZE\<rparr> in
        andThen (acquire L_kmem s) (\<lambda>s.
        let s = s\<lparr>pmem := store32 (pmem s) v (freelist s)\<rparr>;
            s = s\<lparr>freelist := v\<rparr>
        in release L_kmem s))"

definition kalloc :: "'a kmem_scheme \<Rightarrow> (uint \<times> 'a kmem_scheme) res" where
  "kalloc s =
     andThen (acquire L_kmem s) (\<lambda>s.
     let r = freelist s;
         s = (if r \<noteq> 0 then s\<lparr>freelist := load32 (pmem s) r\<rparr> else s)
     in andThen (release L_kmem s) (\<lambda>s. Inr (r, s)))"

lemma kfree_in_range: "kfree kend v s = Inr s' \<Longrightarrow> v mod PGSIZE = 0 \<and> kend \<le> v \<and> v < PHYSTOP"
  by (auto simp: kfree_def split: if_splits)

function kinit_loop :: "uint \<Rightarrow> uint \<Rightarrow> 'a kmem_scheme \<Rightarrow> 'a kmem_scheme res" where
  "kinit_loop kend p s =
     (if p + PGSIZE \<le> PHYSTOP
      then andThen (kfree kend p s) (\<lambda>s. kinit_loop kend (p + PGSIZE) s)
      else Inr s)"
  by pat_completeness auto
termination
proof (relation "measure (\<lambda>(kend, p, s). 2 ^ 32 - unat p)")
  fix kend p :: uint and s s' :: "'a kmem_scheme"
  assume "kfree kend p s = Inr s'"
  then have p: "unat p < unat PHYSTOP"
    using kfree_in_range by (metis word_less_nat_alt)
  then have "unat (p + PGSIZE) = unat p + 4096"
    by (simp add: PGSIZE_def PHYSTOP_def unat_word_ariths)
  with p show "((kend, p + PGSIZE, s'), (kend, p, s)) \<in> measure (\<lambda>(kend, p, s). 2 ^ 32 - unat p)"
    by (simp add: PHYSTOP_def)
qed simp

declare kinit_loop.simps [simp del]

definition kinit :: "uint \<Rightarrow> 'a kmem_scheme \<Rightarrow> 'a kmem_scheme res" where
  "kinit kend s = kinit_loop kend (PGROUNDUP kend) (initlock L_kmem ''kmem'' s)"

section \<open>The free list as a list of pages\<close>

primrec page_chain :: "mem \<Rightarrow> uint \<Rightarrow> uint list \<Rightarrow> bool" where
  "page_chain m p [] \<longleftrightarrow> p = 0"
| "page_chain m p (x # xs) \<longleftrightarrow> p = x \<and> x \<noteq> 0 \<and> page_chain m (load32 m x) xs"

definition page_ok :: "uint \<Rightarrow> uint \<Rightarrow> bool" where
  "page_ok kend p \<longleftrightarrow> page_aligned p \<and> kend \<le> p \<and> p < PHYSTOP"

definition free_list :: "uint \<Rightarrow> 'a kmem_scheme \<Rightarrow> uint list \<Rightarrow> bool" where
  "free_list kend s ps \<longleftrightarrow>
     quiet s \<and> page_chain (pmem s) (freelist s) ps \<and> distinct ps \<and> (\<forall>p\<in>set ps. page_ok kend p)"

lemma kmem_entered [simp]:
  "pmem (entered l s) = pmem s" "freelist (entered l s) = freelist s"
  "(entered l s)\<lparr>pmem := m\<rparr> = entered l (s\<lparr>pmem := m\<rparr>)"
  "(entered l s)\<lparr>freelist := x\<rparr> = entered l (s\<lparr>freelist := x\<rparr>)"
  by (simp_all add: entered_def lock_defs)

lemma kmem_quiet [simp]:
  "quiet (s\<lparr>pmem := m\<rparr>) = quiet s" "quiet (s\<lparr>freelist := x\<rparr>) = quiet s"
  by (simp_all add: quiet_def cpu_ok_def free_lock_def mycpu_def)

lemma kalloc_eq:
  "quiet s \<Longrightarrow> kalloc s =
     Inr (freelist s, if freelist s \<noteq> 0 then s\<lparr>freelist := load32 (pmem s) (freelist s)\<rparr> else s)"
  by (simp add: kalloc_def Let_def)

lemma kfree_eq:
  "quiet s \<Longrightarrow> page_ok kend v \<Longrightarrow> kfree kend v s =
     Inr (s\<lparr>pmem := store32 (memset (pmem s) v 1 PGSIZE) v (freelist s), freelist := v\<rparr>)"
  by (auto simp: kfree_def page_ok_def page_aligned_def Let_def)

lemma page_chain_cong:
  "(\<And>x. x \<in> set ps \<Longrightarrow> load32 m x = load32 m' x) \<Longrightarrow> page_chain m p ps = page_chain m' p ps"
  by (induction ps arbitrary: p) auto

text \<open>Freeing a page changes memory inside that page only.\<close>

lemma kfree_memory:
  assumes "page_aligned x" and "page_aligned v" and "x \<noteq> v" and "i < PGSIZE"
  shows "store32 (memset m v 1 PGSIZE) v w (x + i) = m (x + i)"
proof -
  have far: "\<not> x + i - v < PGSIZE"
    using page_disjoint [of v x i] assms by auto
  then have "\<not> x + i - v < 4"
    by (simp add: PGSIZE_def not_less order_trans [of 4 "4096 :: uint"])
  with far show ?thesis by (simp add: store32_apply_other memset_apply)
qed

lemma load32_kfree:
  assumes "page_aligned x" and "page_aligned v" and "x \<noteq> v"
  shows "load32 (store32 (memset m v 1 PGSIZE) v w) x = load32 m x"
proof (rule load32_cong)
  fix i :: uint
  assume "i < 4"
  then have "i < PGSIZE" by (simp add: PGSIZE_def order_less_trans [of i 4])
  with assms show "store32 (memset m v 1 PGSIZE) v w (x + i) = m (x + i)"
    by (simp add: kfree_memory)
qed

lemma kfree_free_list:
  assumes "free_list kend s ps" and "page_ok kend v" and "v \<notin> set ps" and "v \<noteq> 0"
  shows "\<exists>s'. kfree kend v s = Inr s' \<and> free_list kend s' (v # ps)"
proof -
  let ?m = "store32 (memset (pmem s) v 1 PGSIZE) v (freelist s)"
  have "page_chain ?m (freelist s) ps = page_chain (pmem s) (freelist s) ps"
  proof (rule page_chain_cong)
    fix x assume "x \<in> set ps"
    with assms show "load32 ?m x = load32 (pmem s) x"
      by (intro load32_kfree) (auto simp: free_list_def page_ok_def)
  qed
  with assms show ?thesis
    by (simp add: kfree_eq free_list_def)
qed

lemma kalloc_free_list_Nil: "free_list kend s [] \<Longrightarrow> kalloc s = Inr (0, s)"
  by (simp add: free_list_def kalloc_eq)

lemma kalloc_free_list_Cons:
  "free_list kend s (p # ps) \<Longrightarrow> \<exists>s'. kalloc s = Inr (p, s') \<and> free_list kend s' ps"
  by (auto simp: free_list_def kalloc_eq)

lemma free_list_pages:
  "free_list kend s ps \<Longrightarrow> distinct ps \<and> (\<forall>p\<in>set ps. page_ok kend p \<and> p \<noteq> 0)"
proof -
  have "page_chain m q ps \<Longrightarrow> \<forall>p\<in>set ps. p \<noteq> 0" for m q
    by (induction ps arbitrary: q) auto
  then show "free_list kend s ps \<Longrightarrow> distinct ps \<and> (\<forall>p\<in>set ps. page_ok kend p \<and> p \<noteq> 0)"
    by (auto simp: free_list_def)
qed

section \<open>The contract of a page allocator\<close>

primrec alloc_n :: "('s \<Rightarrow> (uint \<times> 's) res) \<Rightarrow> nat \<Rightarrow> 's \<Rightarrow> (uint list \<times> 's) res" where
  "alloc_n alloc 0 s = Inr ([], s)"
| "alloc_n alloc (Suc n) s =
     andThen (alloc s) (\<lambda>(p, s). andThen (alloc_n alloc n s) (\<lambda>(ps, s). Inr (p # ps, s)))"

locale page_pool =
  fixes alloc :: "'s \<Rightarrow> (uint \<times> 's) res"
    and free :: "uint \<Rightarrow> 's \<Rightarrow> 's res"
    and pool :: "'s \<Rightarrow> uint list \<Rightarrow> bool"
    and valid :: "uint \<Rightarrow> bool"
  assumes alloc_empty: "pool s [] \<Longrightarrow> alloc s = Inr (0, s)"
    and alloc_page: "pool s (p # ps) \<Longrightarrow> \<exists>s'. alloc s = Inr (p, s') \<and> pool s' ps"
    and free_page: "pool s ps \<Longrightarrow> valid p \<Longrightarrow> p \<noteq> 0 \<Longrightarrow> p \<notin> set ps \<Longrightarrow>
      \<exists>s'. free p s = Inr s' \<and> pool s' (p # ps)"
    and pool_pages: "pool s ps \<Longrightarrow> distinct ps \<and> (\<forall>p\<in>set ps. valid p \<and> p \<noteq> 0)"
begin

lemma alloc_n_pages:
  "pool s ps \<Longrightarrow> n \<le> length ps \<Longrightarrow> \<exists>s'. alloc_n alloc n s = Inr (take n ps, s') \<and> pool s' (drop n ps)"
proof (induction n arbitrary: s ps)
  case 0
  then show ?case by simp
next
  case (Suc n)
  then obtain p qs where ps: "ps = p # qs" by (cases ps) auto
  with Suc.prems obtain s1 where s1: "alloc s = Inr (p, s1)" "pool s1 qs"
    using alloc_page by blast
  with Suc.IH [of s1 qs] Suc.prems ps show ?case by auto
qed

lemma alloc_distinct:
  assumes "pool s ps" and "n \<le> length ps"
  shows "\<exists>qs s'. alloc_n alloc n s = Inr (qs, s') \<and> length qs = n \<and> distinct qs \<and>
    (\<forall>q\<in>set qs. valid q \<and> q \<noteq> 0) \<and> pool s' (drop n ps) \<and> set qs \<inter> set (drop n ps) = {}"
proof -
  have d: "distinct ps" "\<forall>p\<in>set ps. valid p \<and> p \<noteq> 0"
    using pool_pages [OF assms(1)] by auto
  then have "set (take n ps) \<inter> set (drop n ps) = {}"
    by (metis append_take_drop_id distinct_append)
  moreover have "\<forall>q\<in>set (take n ps). valid q \<and> q \<noteq> 0"
    using d(2) in_set_takeD by fast
  moreover obtain s' where "alloc_n alloc n s = Inr (take n ps, s')" "pool s' (drop n ps)"
    using alloc_n_pages [OF assms] by blast
  ultimately show ?thesis using d(1) assms(2) by auto
qed

lemma free_then_alloc:
  assumes "pool s ps" and "valid p" and "p \<noteq> 0" and "p \<notin> set ps"
  shows "\<exists>s' s''. free p s = Inr s' \<and> alloc s' = Inr (p, s'') \<and> pool s'' ps"
  using free_page [OF assms] alloc_page by blast

lemma alloc_then_free:
  assumes "pool s (p # ps)"
  shows "\<exists>s' s''. alloc s = Inr (p, s') \<and> free p s' = Inr s'' \<and> pool s'' (p # ps)"
proof -
  from alloc_page [OF assms] obtain s' where s': "alloc s = Inr (p, s')" "pool s' ps" by blast
  from pool_pages [OF assms] have "valid p" "p \<noteq> 0" "p \<notin> set ps" by auto
  with free_page [OF s'(2)] s'(1) show ?thesis by blast
qed

end

interpretation kp: page_pool kalloc "kfree kend" "free_list kend" "page_ok kend" for kend
  by unfold_locales
    (auto simp: kalloc_free_list_Nil kalloc_free_list_Cons kfree_free_list dest: free_list_pages)

section \<open>Initialisation\<close>

lemma page_below_PHYSTOP:
  assumes "page_aligned p" and "p \<le> PHYSTOP"
  shows "p + PGSIZE \<le> PHYSTOP \<longleftrightarrow> p < PHYSTOP" and "p < PHYSTOP \<Longrightarrow> unat (p + PGSIZE) = unat p + 4096"
proof -
  obtain k where k: "unat p = 4096 * k"
    using assms(1) by (auto simp: page_aligned_nat elim!: dvdE)
  have le: "unat p \<le> 16777216"
    using assms(2) by (simp add: PHYSTOP_def word_le_nat_alt)
  then show u: "unat (p + PGSIZE) = unat p + 4096"
    by (simp add: PGSIZE_def unat_word_ariths)
  have "unat (p + PGSIZE) \<le> 16777216 \<longleftrightarrow> unat p < 16777216"
    unfolding u using k le by auto
  then show "p + PGSIZE \<le> PHYSTOP \<longleftrightarrow> p < PHYSTOP"
    by (simp add: PHYSTOP_def word_le_nat_alt word_less_nat_alt)
qed

definition pages_from :: "uint \<Rightarrow> uint set" where
  "pages_from p = {q. page_aligned q \<and> p \<le> q \<and> q < PHYSTOP}"

lemma pages_from_step:
  assumes "page_aligned p" and "p < PHYSTOP"
  shows "pages_from p = insert p (pages_from (p + PGSIZE))" and "page_aligned (p + PGSIZE)"
    and "p + PGSIZE \<le> PHYSTOP" and "p < p + PGSIZE"
proof -
  have u: "unat (p + PGSIZE) = unat p + 4096"
    using page_below_PHYSTOP [of p] assms by simp
  show al: "page_aligned (p + PGSIZE)"
    using assms(1) by (simp add: page_aligned_nat u)
  show "p + PGSIZE \<le> PHYSTOP" using page_below_PHYSTOP [of p] assms by simp
  show lt: "p < p + PGSIZE" by (simp add: word_less_nat_alt u)
  have "q = p \<or> p + PGSIZE \<le> q" if q: "page_aligned q" "p \<le> q" for q
  proof -
    obtain a b where "unat p = 4096 * a" "unat q = 4096 * b"
      using assms(1) q(1) by (auto simp: page_aligned_nat elim!: dvdE)
    with q(2) u show ?thesis
      by (cases "a = b") (auto simp: word_le_nat_alt word_unat_eq_iff)
  qed
  then show "pages_from p = insert p (pages_from (p + PGSIZE))"
    using assms lt by (auto simp: pages_from_def)
qed

lemma kinit_loop_pages:
  assumes "free_list kend s ps" and "page_aligned p" and "kend \<le> p" and "p \<noteq> 0"
    and "p \<le> PHYSTOP" and "\<forall>q\<in>set ps. q < p"
  shows "\<exists>s' qs. kinit_loop kend p s = Inr s' \<and> free_list kend s' qs \<and> set qs = set ps \<union> pages_from p"
  using assms
proof (induction kend p s arbitrary: ps rule: kinit_loop.induct)
  case (1 kend p s)
  show ?case
  proof (cases "p < PHYSTOP")
    case True
    note st = pages_from_step [OF 1(3) True]
    have ok: "page_ok kend p" using 1 True by (simp add: page_ok_def)
    moreover have "p \<notin> set ps" using 1(7) by auto
    ultimately obtain s1 where s1: "kfree kend p s = Inr s1" "free_list kend s1 (p # ps)"
      using kfree_free_list 1(2,5) by blast
    have "\<forall>q\<in>set (p # ps). q < p + PGSIZE"
      using 1(7) st(4) by (auto intro: less_trans)
    moreover have "p + PGSIZE \<noteq> 0"
      using st(4) by auto
    ultimately obtain s' qs where "kinit_loop kend (p + PGSIZE) s1 = Inr s'" "free_list kend s' qs"
      "set qs = set (p # ps) \<union> pages_from (p + PGSIZE)"
      using "1.IH" [OF _ s1(1), of "p # ps"] s1(2) st order_trans [OF 1(4) less_imp_le [OF st(4)]]
      by auto
    with s1 st True show ?thesis
      by (simp add: kinit_loop.simps [of kend p]) blast
  next
    case False
    then have "pages_from p = {}" by (auto simp: pages_from_def)
    moreover have "\<not> p + PGSIZE \<le> PHYSTOP"
      using page_below_PHYSTOP [of p] 1 False by simp
    ultimately show ?thesis using 1(2) by (auto simp: kinit_loop.simps [of kend p])
  qed
qed

lemma free_list_empty: "quiet s \<Longrightarrow> freelist s = 0 \<Longrightarrow> free_list kend s []"
  by (simp add: free_list_def)

lemma PGROUNDUP_bounds:
  assumes "0 < sz" and "sz \<le> PHYSTOP"
  shows "sz \<le> PGROUNDUP sz" and "PGROUNDUP sz \<le> PHYSTOP" and "PGROUNDUP sz \<noteq> 0"
    and "pages_from (PGROUNDUP sz) = pages_from sz"
proof -
  have n: "unat sz \<le> 16777216" "0 < unat sz"
    using assms by (simp_all add: PHYSTOP_def word_le_nat_alt word_less_nat_alt)
  let ?a = "sz + PGSIZE - 1"
  have a: "unat ?a = unat sz + 4095"
    using n by (simp add: PGSIZE_def unat_word_ariths)
  have r: "unat (PGROUNDUP sz) = unat ?a - unat ?a mod 4096"
  proof -
    have "?a mod PGSIZE \<le> ?a" by (simp add: word_le_nat_alt unat_mod)
    then have "unat (?a - ?a mod PGSIZE) = unat ?a - unat (?a mod PGSIZE)"
      by (simp add: unat_sub)
    then show ?thesis by (simp add: PGROUNDUP_PGROUNDDOWN PGROUNDDOWN_eq unat_mod PGSIZE_def)
  qed
  define k where "k = (unat sz + 4095) div 4096"
  have k: "unat (PGROUNDUP sz) = 4096 * k"
    unfolding r a k_def by (simp add: minus_mod_eq_mult_div)
  have k1: "unat sz \<le> 4096 * k" "4096 * k < unat sz + 4096"
    unfolding k_def by linarith+
  show "sz \<le> PGROUNDUP sz" using k k1 by (simp add: word_le_nat_alt)
  have "k \<le> 4096" using k1 n by linarith
  then show "PGROUNDUP sz \<le> PHYSTOP" using k by (simp add: word_le_nat_alt PHYSTOP_def)
  show "PGROUNDUP sz \<noteq> 0" using k k1 n by (auto simp: word_unat_eq_iff)
  have "PGROUNDUP sz \<le> q \<longleftrightarrow> sz \<le> q" if al: "page_aligned q" for q
  proof -
    obtain j where "unat q = 4096 * j" using al by (auto simp: page_aligned_nat elim!: dvdE)
    with k k1 show ?thesis by (auto simp: word_le_nat_alt)
  qed
  then show "pages_from (PGROUNDUP sz) = pages_from sz" by (auto simp: pages_from_def)
qed

lemma quiet_initlock [simp]: "quiet s \<Longrightarrow> quiet (initlock l name s)"
  by (simp add: quiet_def cpu_ok_def free_lock_def mycpu_def initlock_def)

text \<open>After \<open>kinit\<close> the free list holds exactly the page-aligned addresses between the
  end of the kernel and \<open>PHYSTOP\<close>, each of them once.\<close>

theorem kinit_free_pages:
  assumes "quiet s" and "freelist s = 0" and "0 < kend" and "kend \<le> PHYSTOP"
  shows "\<exists>s' ps. kinit kend s = Inr s' \<and> free_list kend s' ps \<and> set ps = pages_from kend"
proof -
  let ?s = "initlock L_kmem ''kmem'' s"
  note b = PGROUNDUP_bounds [OF assms(3,4)]
  have "freelist ?s = 0" using assms(2) by (simp add: initlock_def)
  then have "free_list kend ?s []" using assms(1) by (simp add: free_list_empty)
  with kinit_loop_pages [of kend ?s "[]" "PGROUNDUP kend"] b show ?thesis
    by (simp add: kinit_def)
qed

text \<open>C17: pages handed out by \<open>kalloc\<close> are distinct, valid and not among those left, so no page
  is ever allocated twice.\<close>

theorem kalloc_distinct:
  assumes "free_list kend s ps" and "n \<le> length ps"
  shows "\<exists>qs s'. alloc_n kalloc n s = Inr (qs, s') \<and> length qs = n \<and> distinct qs \<and>
    (\<forall>q\<in>set qs. page_ok kend q \<and> q \<noteq> 0) \<and> free_list kend s' (drop n ps) \<and>
    set qs \<inter> set (drop n ps) = {}"
  using assms by (rule kp.alloc_distinct)

text \<open>A page given back is the next one handed out, and the rest of the list is as before.\<close>

theorem kfree_kalloc:
  assumes "free_list kend s ps" and "page_ok kend p" and "p \<noteq> 0" and "p \<notin> set ps"
  shows "\<exists>s' s''. kfree kend p s = Inr s' \<and> kalloc s' = Inr (p, s'') \<and> free_list kend s'' ps"
  using assms by (rule kp.free_then_alloc)

text \<open>A concrete allocator with two free pages.\<close>

definition kmem0 :: kmem where
  "kmem0 = machine.extend boot_machine \<lparr>pmem = (\<lambda>_. 0), freelist = 0\<rparr>"

lemma quiet_kmem0: "quiet kmem0"
  using quiet_boot_machine
  by (simp add: kmem0_def quiet_def cpu_ok_def free_lock_def mycpu_def machine.extend_def boot_machine_def)

lemma freelist_kmem0: "freelist kmem0 = 0"
  by (simp add: kmem0_def machine.extend_def)

lemma free_list_kmem0: "free_list 0x200000 kmem0 []"
  by (simp add: free_list_empty quiet_kmem0 freelist_kmem0)

lemma page_ok_examples: "page_ok 0x200000 0x200000" "page_ok 0x200000 0x201000"
  by (simp_all add: page_ok_def page_aligned_def PGSIZE_def PHYSTOP_def)

lemma kmem_two_pages: "\<exists>s. free_list 0x200000 (s :: kmem) [0x201000, 0x200000]"
proof -
  obtain s1 :: kmem where "free_list 0x200000 s1 [0x200000]"
    using kfree_free_list [OF free_list_kmem0 page_ok_examples(1)] by auto
  then show ?thesis
    using kfree_free_list [OF _ page_ok_examples(2)] by fastforce
qed

theorem kinit_free_pages_witness:
  "\<exists>s' ps. kinit 0x200000 kmem0 = Inr s' \<and> free_list 0x200000 s' ps \<and> set ps = pages_from 0x200000"
  by (rule kinit_free_pages) (simp_all add: quiet_kmem0 freelist_kmem0 PHYSTOP_def)

theorem kalloc_distinct_witness:
  "\<exists>s :: kmem. \<exists>qs s'. alloc_n kalloc 2 s = Inr (qs, s') \<and> length qs = 2 \<and> distinct qs \<and>
    free_list 0x200000 s' (drop 2 [0x201000, 0x200000]) \<and>
    set qs \<inter> set (drop 2 [0x201000, 0x200000]) = {}"
proof -
  obtain s :: kmem where "free_list 0x200000 s [0x201000, 0x200000]"
    using kmem_two_pages by blast
  from kalloc_distinct [OF this, of 2] show ?thesis by auto
qed

theorem kfree_kalloc_witness:
  "\<exists>s' s''. kfree 0x200000 0x200000 kmem0 = Inr s' \<and> kalloc s' = Inr (0x200000, s'') \<and>
    free_list 0x200000 s'' []"
  by (rule kfree_kalloc) (simp_all add: free_list_kmem0 page_ok_examples)

end
