(* ===== verification/Proc.thy ===== *)
theory Proc
  imports Kalloc
begin

text \<open>
  The process table (\<^verbatim>\<open>proc.h\<close>, \<^verbatim>\<open>proc.c\<close>): slot allocation, sleeping and waking, killing,
  and giving up the CPU.

  A pointer to a process is its index in \<open>ptable.proc\<close>; \<open>proc\<close>, the current process of a CPU, is
  \<open>curproc\<close> at that CPU. A routine that reaches \<open>swtch\<close> is cut there: the part before the switch
  (\<open>sched\<close>, \<open>sleep_switch\<close>, \<open>yield_switch\<close>) ends holding \<open>ptable.lock\<close>, and the part after it
  (\<open>sched_resume\<close>, \<open>sleep_resume\<close>, \<open>yield_resume\<close>, \<open>forkret\<close>) starts when a scheduler has picked
  the process again. The addresses \<open>trapret\<close> and \<open>forkret\<close> that \<open>allocproc\<close> stores on the new
  kernel stack are parameters.
\<close>

section \<open>State\<close>

datatype procstate = UNUSED | EMBRYO | SLEEPING | RUNNABLE | RUNNING | ZOMBIE

record proc =
  p_sz :: uint
  p_pgdir :: uint
  p_kstack :: uint
  p_state :: procstate
  p_pid :: int
  p_parent :: "nat option"
  p_tf :: uint
  p_context :: uint
  p_chan :: "chan option"
  p_killed :: bool
  p_ofile :: "nat option list"
  p_cwd :: "nat option"
  p_name :: "byte list"

record ptab = kmem +
  procs :: "proc list"
  nextpid :: int
  curproc :: "nat \<Rightarrow> nat option"
  initproc :: "nat option"

definition NPROC :: nat where "NPROC = 64"
definition NOFILE :: nat where "NOFILE = 16"
definition KSTACKSIZE :: uint where "KSTACKSIZE = 4096"

definition myproc :: "'a ptab_scheme \<Rightarrow> nat option" where
  "myproc s = curproc s (cur s)"

definition set_myproc :: "nat option \<Rightarrow> 'a ptab_scheme \<Rightarrow> 'a ptab_scheme" where
  "set_myproc p s = s\<lparr>curproc := (curproc s)(cur s := p)\<rparr>"

definition upd_proc :: "nat \<Rightarrow> (proc \<Rightarrow> proc) \<Rightarrow> 'a ptab_scheme \<Rightarrow> 'a ptab_scheme" where
  "upd_proc i f s = s\<lparr>procs := (procs s)[i := f (procs s ! i)]\<rparr>"

text \<open>A scan of the table from slot \<open>i\<close> on: the first process with property \<open>P\<close>.\<close>

primrec scan_procs :: "(proc \<Rightarrow> bool) \<Rightarrow> nat \<Rightarrow> proc list \<Rightarrow> nat option" where
  "scan_procs P i [] = None"
| "scan_procs P i (p # ps) = (if P p then Some i else scan_procs P (Suc i) ps)"

section \<open>Routines\<close>

definition pinit :: "'a ptab_scheme \<Rightarrow> 'a ptab_scheme" where
  "pinit s = initlock L_ptable ''ptable'' s"

text \<open>\<open>sizeof *p->tf\<close> is 76 and \<open>sizeof *p->context\<close> is 20, with \<open>eip\<close> at offset 16.\<close>

definition setup_kstack :: "uint \<Rightarrow> uint \<Rightarrow> nat \<Rightarrow> uint \<Rightarrow> 'a ptab_scheme \<Rightarrow> 'a ptab_scheme" where
  "setup_kstack trapret forkret_addr i k s =
     (let sp = k + KSTACKSIZE;
          sp = sp - 76;
          s = upd_proc i (\<lambda>p. p\<lparr>p_tf := sp\<rparr>) s;
          sp = sp - 4;
          m = store32 (pmem s) sp trapret;
          sp = sp - 20;
          s = upd_proc i (\<lambda>p. p\<lparr>p_context := sp\<rparr>) s;
          m = memset m sp 0 20;
          m = store32 m (sp + 16) forkret_addr
      in s\<lparr>pmem := m\<rparr>)"

definition allocproc :: "uint \<Rightarrow> uint \<Rightarrow> 'a ptab_scheme \<Rightarrow> (nat option \<times> 'a ptab_scheme) res" where
  "allocproc trapret forkret_addr s =
     andThen (acquire L_ptable s) (\<lambda>s.
     case scan_procs (\<lambda>p. p_state p = UNUSED) 0 (procs s) of
       None \<Rightarrow> andThen (release L_ptable s) (\<lambda>s. Inr (None, s))
     | Some i \<Rightarrow>
         if nextpid s = int_max then Inl (Wild ''nextpid overflow'')
         else
           let s = upd_proc i (\<lambda>p. p\<lparr>p_state := EMBRYO\<rparr>) s;
               s = upd_proc i (\<lambda>p. p\<lparr>p_pid := nextpid s\<rparr>) s;
               s = s\<lparr>nextpid := nextpid s + 1\<rparr>
           in andThen (release L_ptable s) (\<lambda>s.
              andThen (kalloc s) (\<lambda>(k, s).
              let s = upd_proc i (\<lambda>p. p\<lparr>p_kstack := k\<rparr>) s in
              if k = 0 then Inr (None, upd_proc i (\<lambda>p. p\<lparr>p_state := UNUSED\<rparr>) s)
              else Inr (Some i, setup_kstack trapret forkret_addr i k s))))"

text \<open>\<open>sched\<close> up to \<open>swtch\<close>; the saved \<open>cpu->intena\<close> is a local of the sleeping process.\<close>

definition sched :: "'a ptab_scheme \<Rightarrow> (bool \<times> 'a ptab_scheme) res" where
  "sched s =
     (if \<not> holding L_ptable s then Inl (Panic ''sched ptable.lock'')
      else if ncli (mycpu s) \<noteq> 1 then Inl (Panic ''sched locks'')
      else case myproc s of
        None \<Rightarrow> Inl (Wild ''proc'')
      | Some i \<Rightarrow>
          if p_state (procs s ! i) = RUNNING then Inl (Panic ''sched running'')
          else if ifl (mycpu s) then Inl (Panic ''sched interruptible'')
          else Inr (intena (mycpu s), s))"

definition sched_resume :: "bool \<Rightarrow> 'a ptab_scheme \<Rightarrow> 'a ptab_scheme" where
  "sched_resume saved s = set_cpu ((mycpu s)\<lparr>intena := saved\<rparr>) s"

definition yield_switch :: "'a ptab_scheme \<Rightarrow> (bool \<times> 'a ptab_scheme) res" where
  "yield_switch s =
     andThen (acquire L_ptable s) (\<lambda>s.
     case myproc s of
       None \<Rightarrow> Inl (Wild ''proc'')
     | Some i \<Rightarrow> sched (upd_proc i (\<lambda>p. p\<lparr>p_state := RUNNABLE\<rparr>) s))"

definition yield_resume :: "bool \<Rightarrow> 'a ptab_scheme \<Rightarrow> 'a ptab_scheme res" where
  "yield_resume saved s = release L_ptable (sched_resume saved s)"

definition forkret :: "'a ptab_scheme \<Rightarrow> 'a ptab_scheme res" where
  "forkret s = release L_ptable s"

definition sleep_switch :: "chan \<Rightarrow> lockid option \<Rightarrow> 'a ptab_scheme \<Rightarrow> (bool \<times> 'a ptab_scheme) res" where
  "sleep_switch ch lk s =
     (case myproc s of
        None \<Rightarrow> Inl (Panic ''sleep'')
      | Some i \<Rightarrow>
          (case lk of
             None \<Rightarrow> Inl (Panic ''sleep without lk'')
           | Some l \<Rightarrow>
               andThen (if l \<noteq> L_ptable
                        then andThen (acquire L_ptable s) (\<lambda>s. release l s) else Inr s) (\<lambda>s.
               let s = upd_proc i (\<lambda>p. p\<lparr>p_chan := Some ch\<rparr>) s;
                   s = upd_proc i (\<lambda>p. p\<lparr>p_state := SLEEPING\<rparr>) s
               in sched s)))"

definition sleep_resume :: "lockid \<Rightarrow> bool \<Rightarrow> 'a ptab_scheme \<Rightarrow> 'a ptab_scheme res" where
  "sleep_resume l saved s =
     (let s = sched_resume saved s in
      case myproc s of
        None \<Rightarrow> Inl (Wild ''proc'')
      | Some i \<Rightarrow>
          let s = upd_proc i (\<lambda>p. p\<lparr>p_chan := None\<rparr>) s in
          if l \<noteq> L_ptable
          then andThen (release L_ptable s) (\<lambda>s. acquire l s) else Inr s)"

definition wake :: "chan \<Rightarrow> proc \<Rightarrow> proc" where
  "wake ch p = (if p_state p = SLEEPING \<and> p_chan p = Some ch then p\<lparr>p_state := RUNNABLE\<rparr> else p)"

definition wakeup1 :: "chan \<Rightarrow> 'a ptab_scheme \<Rightarrow> 'a ptab_scheme" where
  "wakeup1 ch s = s\<lparr>procs := map (wake ch) (procs s)\<rparr>"

definition wakeup :: "chan \<Rightarrow> 'a ptab_scheme \<Rightarrow> 'a ptab_scheme res" where
  "wakeup ch s = andThen (acquire L_ptable s) (\<lambda>s. release L_ptable (wakeup1 ch s))"

definition kill :: "int \<Rightarrow> 'a ptab_scheme \<Rightarrow> (int \<times> 'a ptab_scheme) res" where
  "kill pid s =
     andThen (acquire L_ptable s) (\<lambda>s.
     case scan_procs (\<lambda>p. p_pid p = pid) 0 (procs s) of
       Some i \<Rightarrow>
         let s = upd_proc i (\<lambda>p. p\<lparr>p_killed := True\<rparr>) s;
             s = (if p_state (procs s ! i) = SLEEPING
                  then upd_proc i (\<lambda>p. p\<lparr>p_state := RUNNABLE\<rparr>) s else s)
         in andThen (release L_ptable s) (\<lambda>s. Inr (0, s))
     | None \<Rightarrow> andThen (release L_ptable s) (\<lambda>s. Inr (- 1, s)))"

section \<open>Frame lemmas\<close>

lemma ptab_entered [simp]:
  "procs (entered l s) = procs s" "nextpid (entered l s) = nextpid s"
  "curproc (entered l s) = curproc s" "initproc (entered l s) = initproc s"
  "(entered l s)\<lparr>procs := a\<rparr> = entered l (s\<lparr>procs := a\<rparr>)"
  "(entered l s)\<lparr>nextpid := b\<rparr> = entered l (s\<lparr>nextpid := b\<rparr>)"
  "(entered l s)\<lparr>curproc := c\<rparr> = entered l (s\<lparr>curproc := c\<rparr>)"
  by (simp_all add: entered_def lock_defs)

lemma ptab_quiet [simp]:
  "quiet (s\<lparr>procs := a\<rparr>) = quiet s" "quiet (s\<lparr>nextpid := b\<rparr>) = quiet s"
  "quiet (s\<lparr>curproc := c\<rparr>) = quiet s"
  by (simp_all add: quiet_def cpu_ok_def free_lock_def mycpu_def)

lemma ptab_free_lock [simp]:
  "free_lock l (s\<lparr>procs := a\<rparr>) = free_lock l s" "free_lock l (s\<lparr>nextpid := b\<rparr>) = free_lock l s"
  "free_lock l (s\<lparr>curproc := c\<rparr>) = free_lock l s"
  "cpu_ok (s\<lparr>procs := a\<rparr>) = cpu_ok s" "cpu_ok (s\<lparr>nextpid := b\<rparr>) = cpu_ok s"
  "cpu_ok (s\<lparr>curproc := c\<rparr>) = cpu_ok s"
  by (simp_all add: free_lock_def cpu_ok_def mycpu_def)

lemma myproc_entered [simp]: "myproc (entered l s) = myproc s"
  by (simp add: myproc_def)

lemma upd_proc_entered [simp]: "upd_proc i f (entered l s) = entered l (upd_proc i f s)"
  by (simp add: upd_proc_def)

lemma wakeup1_entered [simp]: "wakeup1 ch (entered l s) = entered l (wakeup1 ch s)"
  by (simp add: wakeup1_def)

lemma upd_proc_frame [simp]:
  "quiet (upd_proc i f s) = quiet s" "free_lock l (upd_proc i f s) = free_lock l s"
  "cpu_ok (upd_proc i f s) = cpu_ok s"
  "nextpid (upd_proc i f s) = nextpid s" "curproc (upd_proc i f s) = curproc s"
  "initproc (upd_proc i f s) = initproc s" "pmem (upd_proc i f s) = pmem s"
  "freelist (upd_proc i f s) = freelist s" "cur (upd_proc i f s) = cur s"
  "myproc (upd_proc i f s) = myproc s" "cpus (upd_proc i f s) = cpus s"
  "locks (upd_proc i f s) = locks s" "mycpu (upd_proc i f s) = mycpu s"
  "holding l (upd_proc i f s) = holding l s"
  by (simp_all add: upd_proc_def myproc_def mycpu_def holding_def)

lemma procs_upd_proc [simp]: "procs (upd_proc i f s) = (procs s)[i := f (procs s ! i)]"
  by (simp add: upd_proc_def)

lemma wakeup1_frame [simp]:
  "quiet (wakeup1 ch s) = quiet s" "free_lock l (wakeup1 ch s) = free_lock l s"
  "cpu_ok (wakeup1 ch s) = cpu_ok s" "curproc (wakeup1 ch s) = curproc s" "cur (wakeup1 ch s) = cur s"
  "pmem (wakeup1 ch s) = pmem s" "freelist (wakeup1 ch s) = freelist s"
  by (simp_all add: wakeup1_def)

lemma wakeup_eq: "free_lock L_ptable s \<Longrightarrow> cpu_ok s \<Longrightarrow> wakeup ch s = Inr (wakeup1 ch s)"
  by (simp add: wakeup_def)

lemma scan_procs_Some:
  "scan_procs P k ps = Some i \<Longrightarrow> k \<le> i \<and> i < k + length ps \<and> P (ps ! (i - k))"
  by (induction ps arbitrary: k) (fastforce simp: nth_Cons' split: if_splits)+

lemma scan_procs_first:
  "scan_procs P k ps = Some i \<Longrightarrow> j < i - k \<Longrightarrow> \<not> P (ps ! j)"
proof (induction ps arbitrary: k j)
  case (Cons p ps)
  then show ?case by (cases j) (auto split: if_splits)
qed simp

lemma scan_procs_None: "scan_procs P k ps = None \<longleftrightarrow> (\<forall>p\<in>set ps. \<not> P p)"
  by (induction ps arbitrary: k) auto

section \<open>Allocation\<close>

lemma procs_kalloc [simp]:
  "procs (s\<lparr>freelist := x\<rparr>) = procs s" "procs (s\<lparr>pmem := y\<rparr>) = procs s"
  by simp_all

lemma setup_kstack_frame [simp]:
  "curproc (setup_kstack t f i k s) = curproc s" "nextpid (setup_kstack t f i k s) = nextpid s"
  "cpus (setup_kstack t f i k s) = cpus s" "locks (setup_kstack t f i k s) = locks s"
  "cur (setup_kstack t f i k s) = cur s"
  by (simp_all add: setup_kstack_def Let_def)

lemma procs_setup_kstack:
  assumes "i < length (procs s)"
  shows "procs (setup_kstack t f i k s) = (procs s)[i := (procs s ! i)
    \<lparr>p_tf := k + KSTACKSIZE - 76, p_context := k + KSTACKSIZE - 76 - 4 - 20\<rparr>]"
  using assms unfolding setup_kstack_def Let_def by (simp only: procs_kalloc procs_upd_proc length_list_update nth_list_update_eq list_update_overwrite)

lemma upd_proc_upd_proc: "i < length (procs s) \<Longrightarrow> upd_proc i f (upd_proc i g s) = upd_proc i (\<lambda>p. f (g p)) s"
  by (simp add: upd_proc_def)

lemma upd_proc_comm:
  "upd_proc i f (s\<lparr>nextpid := x\<rparr>) = (upd_proc i f s)\<lparr>nextpid := x\<rparr>"
  "upd_proc i f (s\<lparr>freelist := y\<rparr>) = (upd_proc i f s)\<lparr>freelist := y\<rparr>"
  by (simp_all add: upd_proc_def)

lemma allocproc_eq:
  assumes "quiet s" and "scan_procs (\<lambda>p. p_state p = UNUSED) 0 (procs s) = Some i" and "nextpid s \<noteq> int_max"
  defines "k \<equiv> freelist s"
  defines "s1 \<equiv> (upd_proc i (\<lambda>p. p\<lparr>p_state := EMBRYO, p_pid := nextpid s, p_kstack := k\<rparr>) s)\<lparr>nextpid := nextpid s + 1\<rparr>"
  shows "allocproc t f s =
    (if k = 0 then Inr (None, upd_proc i (\<lambda>p. p\<lparr>p_state := UNUSED\<rparr>) s1)
     else Inr (Some i, setup_kstack t f i k (s1\<lparr>freelist := load32 (pmem s) k\<rparr>)))"
proof -
  have lt: "i < length (procs s)" using scan_procs_Some [OF assms(2)] by simp
  let ?s0 = "(upd_proc i (\<lambda>p. p\<lparr>p_state := EMBRYO, p_pid := nextpid s\<rparr>) s)\<lparr>nextpid := nextpid s + 1\<rparr>"
  have "allocproc t f s = andThen (kalloc ?s0) (\<lambda>(k, s).
      let s = upd_proc i (\<lambda>p. p\<lparr>p_kstack := k\<rparr>) s in
      if k = 0 then Inr (None, upd_proc i (\<lambda>p. p\<lparr>p_state := UNUSED\<rparr>) s)
      else Inr (Some i, setup_kstack t f i k s))"
    using assms(1-3) lt by (simp add: allocproc_def upd_proc_upd_proc Let_def)
  also have "\<dots> = (if k = 0 then Inr (None, upd_proc i (\<lambda>p. p\<lparr>p_state := UNUSED\<rparr>) s1)
     else Inr (Some i, setup_kstack t f i k (s1\<lparr>freelist := load32 (pmem s) k\<rparr>)))"
    using assms(1) lt by (simp add: kalloc_eq k_def s1_def Let_def upd_proc_comm upd_proc_upd_proc)
  finally show ?thesis .
qed

lemma allocproc_spec:
  assumes "quiet s" and "allocproc t f s = Inr (Some j, s')"
  shows "j < length (procs s)" "p_state (procs s ! j) = UNUSED" "cpus s' = cpus s" "locks s' = locks s"
    "curproc s' = curproc s" "nextpid s' = nextpid s + 1"
    "\<exists>p. procs s' = (procs s)[j := p] \<and> p_state p = EMBRYO \<and> p_pid p = nextpid s \<and> p_kstack p \<noteq> 0 \<and>
       p_killed p = p_killed (procs s ! j) \<and> p_parent p = p_parent (procs s ! j) \<and> p_ofile p = p_ofile (procs s ! j)"
proof -
  from assms obtain i where i: "scan_procs (\<lambda>p. p_state p = UNUSED) 0 (procs s) = Some i" "nextpid s \<noteq> int_max"
    by (auto simp: allocproc_def split: option.splits if_splits)
  from scan_procs_Some [OF i(1)] have lt: "i < length (procs s)" "p_state (procs s ! i) = UNUSED" by auto
  let ?p = "(procs s ! i)\<lparr>p_state := EMBRYO, p_pid := nextpid s, p_kstack := freelist s\<rparr>"
  define s1 where "s1 = (upd_proc i (\<lambda>_. ?p) s)\<lparr>nextpid := nextpid s + 1, freelist := load32 (pmem s) (freelist s)\<rparr>"
  have u: "upd_proc i (\<lambda>p. p\<lparr>p_state := EMBRYO, p_pid := nextpid s, p_kstack := freelist s\<rparr>) s = upd_proc i (\<lambda>_. ?p) s"
    by (simp add: upd_proc_def)
  from allocproc_eq [OF assms(1) i, of t f] assms(2) have j: "j = i" "freelist s \<noteq> 0"
    and s': "s' = setup_kstack t f i (freelist s) s1"
    unfolding u by (simp_all add: s1_def split: if_splits)
  show "j < length (procs s)" "p_state (procs s ! j) = UNUSED" using lt j by simp_all
  show "cpus s' = cpus s" "locks s' = locks s" "curproc s' = curproc s" "nextpid s' = nextpid s + 1"
    by (simp_all add: s' s1_def)
  have p1: "procs s1 = (procs s)[i := ?p]" by (simp add: s1_def)
  have "procs s' = (procs s)[i := ?p\<lparr>p_tf := freelist s + KSTACKSIZE - 76,
      p_context := freelist s + KSTACKSIZE - 76 - 4 - 20\<rparr>]" (is "_ = _[i := ?q]")
    using procs_setup_kstack [of i s1 t f "freelist s"] lt(1) unfolding s' p1
    by (simp only: nth_list_update_eq list_update_overwrite length_list_update)
  then show "\<exists>p. procs s' = (procs s)[j := p] \<and> p_state p = EMBRYO \<and> p_pid p = nextpid s \<and> p_kstack p \<noteq> 0 \<and>
       p_killed p = p_killed (procs s ! j) \<and> p_parent p = p_parent (procs s ! j) \<and> p_ofile p = p_ofile (procs s ! j)"
    unfolding j(1) by (intro exI [of _ ?q] conjI) (use j(2) in simp_all)
qed

end
