(* ===== verification/Vm.thy ===== *)
theory Vm
  imports Proc
begin

unbundle bit_operations_syntax

text \<open>
  Virtual memory (\<^verbatim>\<open>vm.c\<close>): page tables in physical memory, the kernel's part of an address
  space, growing, shrinking, copying and freeing the user part, and the registers that select it.

  Page tables are read and written in \<open>pmem\<close>; kernel addresses are physical addresses. The loops
  over pages count down a bound on the number of pages they visit and are \<open>Spins\<close> if they would
  visit more. \<open>kdata\<close> is the symbol \<open>data\<close>, \<open>kend\<close> the symbol \<open>end\<close>; the addresses of a CPU's
  \<open>cpu\<close> field and task state are parameters too. \<open>loaduvm\<close>, which reads a file, is in the theory
  of \<^verbatim>\<open>exec.c\<close>.
\<close>

section \<open>Page tables\<close>

definition walkpgdir :: "uint \<Rightarrow> uint \<Rightarrow> bool \<Rightarrow> 'a kmem_scheme \<Rightarrow> (uint \<times> 'a kmem_scheme) res" where
  "walkpgdir pgdir va create s =
     (let pde = pgdir + 4 * PDX va;
          v = load32 (pmem s) pde
      in if v AND PTE_P \<noteq> 0 then Inr (PTE_ADDR v + 4 * PTX va, s)
         else if \<not> create then Inr (0, s)
         else andThen (kalloc s) (\<lambda>(pgtab, s).
              if pgtab = 0 then Inr (0, s)
              else
                let s = s\<lparr>pmem := memset (pmem s) pgtab 0 PGSIZE\<rparr>;
                    s = s\<lparr>pmem := store32 (pmem s) pde (pgtab OR PTE_P OR PTE_W OR PTE_U)\<rparr>
                in Inr (pgtab + 4 * PTX va, s)))"

primrec mappages_loop ::
  "nat \<Rightarrow> uint \<Rightarrow> uint \<Rightarrow> uint \<Rightarrow> uint \<Rightarrow> uint \<Rightarrow> 'a kmem_scheme \<Rightarrow> (int \<times> 'a kmem_scheme) res" where
  "mappages_loop 0 pgdir a lst pa perm s = Inl (Spins ''mappages'')"
| "mappages_loop (Suc n) pgdir a lst pa perm s =
     andThen (walkpgdir pgdir a True s) (\<lambda>(pte, s).
     if pte = 0 then Inr (- 1, s)
     else if load32 (pmem s) pte AND PTE_P \<noteq> 0 then Inl (Panic ''remap'')
     else
       let s = s\<lparr>pmem := store32 (pmem s) pte (pa OR perm OR PTE_P)\<rparr> in
       if a = lst then Inr (0, s)
       else mappages_loop n pgdir (a + PGSIZE) lst (pa + PGSIZE) perm s)"

definition mappages ::
  "uint \<Rightarrow> uint \<Rightarrow> uint \<Rightarrow> uint \<Rightarrow> uint \<Rightarrow> 'a kmem_scheme \<Rightarrow> (int \<times> 'a kmem_scheme) res" where
  "mappages pgdir la sz pa perm s =
     (let a = PGROUNDDOWN la;
          lst = PGROUNDDOWN (la + sz - 1)
      in mappages_loop (Suc (unat (lst - a) div 4096)) pgdir a lst pa perm s)"

definition kmap :: "uint \<Rightarrow> (uint \<times> uint \<times> uint) list" where
  "kmap kdata =
     [(USERTOP, 0x100000, PTE_W), (0x100000, kdata, 0), (kdata, PHYSTOP, PTE_W), (0xFE000000, 0, PTE_W)]"

primrec map_regions ::
  "uint \<Rightarrow> (uint \<times> uint \<times> uint) list \<Rightarrow> 'a kmem_scheme \<Rightarrow> (uint \<times> 'a kmem_scheme) res" where
  "map_regions pgdir [] s = Inr (pgdir, s)"
| "map_regions pgdir (k # ks) s =
     (let (p, e, perm) = k in
      andThen (mappages pgdir p (e - p) p perm s) (\<lambda>(r, s).
      if r < 0 then Inr (0, s) else map_regions pgdir ks s))"

definition setupkvm :: "uint \<Rightarrow> 'a kmem_scheme \<Rightarrow> (uint \<times> 'a kmem_scheme) res" where
  "setupkvm kdata s =
     andThen (kalloc s) (\<lambda>(pgdir, s).
     if pgdir = 0 then Inr (0, s)
     else
       let s = s\<lparr>pmem := memset (pmem s) pgdir 0 PGSIZE\<rparr> in
       map_regions pgdir (kmap kdata) s)"

text \<open>\<open>init\<close> is the initial program as bytes; \<open>memmove\<close> copies it from the kernel image, which does
  not overlap a freshly allocated page.\<close>

definition put_bytes :: "mem \<Rightarrow> uint \<Rightarrow> byte list \<Rightarrow> mem" where
  "put_bytes m a bs = (\<lambda>x. if unat (x - a) < length bs then bs ! unat (x - a) else m x)"

definition inituvm :: "uint \<Rightarrow> byte list \<Rightarrow> uint \<Rightarrow> 'a kmem_scheme \<Rightarrow> 'a kmem_scheme res" where
  "inituvm pgdir init sz s =
     (if sz \<ge> PGSIZE then Inl (Panic ''inituvm: more than a page'')
      else andThen (kalloc s) (\<lambda>(mem, s).
           let s = s\<lparr>pmem := memset (pmem s) mem 0 PGSIZE\<rparr> in
           andThen (mappages pgdir 0 PGSIZE mem (PTE_W OR PTE_U) s) (\<lambda>(_, s).
           Inr (s\<lparr>pmem := put_bytes (pmem s) mem (take (unat sz) init)\<rparr>))))"

section \<open>Growing and shrinking\<close>

primrec deallocuvm_loop ::
  "nat \<Rightarrow> uint \<Rightarrow> uint \<Rightarrow> uint \<Rightarrow> uint \<Rightarrow> 'a kmem_scheme \<Rightarrow> 'a kmem_scheme res" where
  "deallocuvm_loop 0 kend pgdir a oldsz s = Inl (Spins ''deallocuvm'')"
| "deallocuvm_loop (Suc n) kend pgdir a oldsz s =
     (if a < oldsz
      then andThen (walkpgdir pgdir a False s) (\<lambda>(pte, s).
           andThen
             (if pte \<noteq> 0 \<and> load32 (pmem s) pte AND PTE_P \<noteq> 0
              then
                let pa = PTE_ADDR (load32 (pmem s) pte) in
                if pa = 0 then Inl (Panic ''kfree'')
                else andThen (kfree kend pa s) (\<lambda>s. Inr (s\<lparr>pmem := store32 (pmem s) pte 0\<rparr>))
              else Inr s) (\<lambda>s.
           deallocuvm_loop n kend pgdir (a + PGSIZE) oldsz s))
      else Inr s)"

definition deallocuvm :: "uint \<Rightarrow> uint \<Rightarrow> uint \<Rightarrow> uint \<Rightarrow> 'a kmem_scheme \<Rightarrow> (uint \<times> 'a kmem_scheme) res" where
  "deallocuvm kend pgdir oldsz newsz s =
     (if newsz \<ge> oldsz then Inr (oldsz, s)
      else andThen (deallocuvm_loop (unat oldsz div 4096 + 2) kend pgdir (PGROUNDUP newsz) oldsz s) (\<lambda>s.
           Inr (newsz, s)))"

text \<open>The result of \<open>mappages\<close> is ignored, as in the source. The message on exhaustion is not
  part of the state.\<close>

primrec allocuvm_loop ::
  "nat \<Rightarrow> uint \<Rightarrow> uint \<Rightarrow> uint \<Rightarrow> uint \<Rightarrow> uint \<Rightarrow> 'a kmem_scheme \<Rightarrow> (uint \<times> 'a kmem_scheme) res" where
  "allocuvm_loop 0 kend pgdir a oldsz newsz s = Inl (Spins ''allocuvm'')"
| "allocuvm_loop (Suc n) kend pgdir a oldsz newsz s =
     (if a < newsz
      then andThen (kalloc s) (\<lambda>(mem, s).
           if mem = 0
           then andThen (deallocuvm kend pgdir newsz oldsz s) (\<lambda>(_, s). Inr (0, s))
           else
             let s = s\<lparr>pmem := memset (pmem s) mem 0 PGSIZE\<rparr> in
             andThen (mappages pgdir a PGSIZE mem (PTE_W OR PTE_U) s) (\<lambda>(_, s).
             allocuvm_loop n kend pgdir (a + PGSIZE) oldsz newsz s))
      else Inr (newsz, s))"

definition allocuvm :: "uint \<Rightarrow> uint \<Rightarrow> uint \<Rightarrow> uint \<Rightarrow> 'a kmem_scheme \<Rightarrow> (uint \<times> 'a kmem_scheme) res" where
  "allocuvm kend pgdir oldsz newsz s =
     (if newsz > USERTOP then Inr (0, s)
      else if newsz < oldsz then Inr (oldsz, s)
      else allocuvm_loop (unat newsz div 4096 + 2) kend pgdir (PGROUNDUP oldsz) oldsz newsz s)"

primrec freevm_loop :: "nat \<Rightarrow> uint \<Rightarrow> uint \<Rightarrow> uint \<Rightarrow> 'a kmem_scheme \<Rightarrow> 'a kmem_scheme res" where
  "freevm_loop 0 kend pgdir i s = Inr s"
| "freevm_loop (Suc n) kend pgdir i s =
     (let v = load32 (pmem s) (pgdir + 4 * i) in
      andThen (if v AND PTE_P \<noteq> 0 then kfree kend (PTE_ADDR v) s else Inr s) (\<lambda>s.
      freevm_loop n kend pgdir (i + 1) s))"

definition freevm :: "uint \<Rightarrow> uint \<Rightarrow> 'a kmem_scheme \<Rightarrow> 'a kmem_scheme res" where
  "freevm kend pgdir s =
     (if pgdir = 0 then Inl (Panic ''freevm: no pgdir'')
      else andThen (deallocuvm kend pgdir USERTOP 0 s) (\<lambda>(_, s).
           andThen (freevm_loop 1024 kend pgdir 0 s) (\<lambda>s.
           kfree kend pgdir s)))"

text \<open>\<open>copyuvm\<close>: \<open>False\<close> in the loop's result is the jump to \<open>bad\<close>.\<close>

primrec copyuvm_loop ::
  "nat \<Rightarrow> uint \<Rightarrow> uint \<Rightarrow> uint \<Rightarrow> uint \<Rightarrow> 'a kmem_scheme \<Rightarrow> (bool \<times> 'a kmem_scheme) res" where
  "copyuvm_loop 0 pgdir d i sz s = Inl (Spins ''copyuvm'')"
| "copyuvm_loop (Suc n) pgdir d i sz s =
     (if i < sz
      then andThen (walkpgdir pgdir i False s) (\<lambda>(pte, s).
           if pte = 0 then Inl (Panic ''copyuvm: pte should exist'')
           else if load32 (pmem s) pte AND PTE_P = 0 then Inl (Panic ''copyuvm: page not present'')
           else
             let pa = PTE_ADDR (load32 (pmem s) pte) in
             andThen (kalloc s) (\<lambda>(mem, s).
             if mem = 0 then Inr (False, s)
             else
               let s = s\<lparr>pmem := memmove (pmem s) mem pa PGSIZE\<rparr> in
               andThen (mappages d i PGSIZE mem (PTE_W OR PTE_U) s) (\<lambda>(r, s).
               if r < 0 then Inr (False, s)
               else copyuvm_loop n pgdir d (i + PGSIZE) sz s)))
      else Inr (True, s))"

definition copyuvm :: "uint \<Rightarrow> uint \<Rightarrow> uint \<Rightarrow> uint \<Rightarrow> 'a kmem_scheme \<Rightarrow> (uint \<times> 'a kmem_scheme) res" where
  "copyuvm kdata kend pgdir sz s =
     andThen (setupkvm kdata s) (\<lambda>(d, s).
     if d = 0 then Inr (0, s)
     else andThen (copyuvm_loop (unat sz div 4096 + 2) pgdir d 0 sz s) (\<lambda>(ok, s).
          if ok then Inr (d, s)
          else andThen (freevm kend d s) (\<lambda>s. Inr (0, s))))"

section \<open>Access to user memory\<close>

definition uva2ka :: "uint \<Rightarrow> uint \<Rightarrow> 'a kmem_scheme \<Rightarrow> uint res" where
  "uva2ka pgdir uva s =
     andThen (walkpgdir pgdir uva False s) (\<lambda>(pte, s).
     if pte = 0 then Inl (Wild ''uva2ka: pte'')
     else if load32 (pmem s) pte AND PTE_P = 0 then Inr 0
     else if load32 (pmem s) pte AND PTE_U = 0 then Inr 0
     else Inr (PTE_ADDR (load32 (pmem s) pte)))"

text \<open>Each round of \<open>copyout\<close> copies at least one byte.\<close>

primrec copyout_loop ::
  "nat \<Rightarrow> uint \<Rightarrow> uint \<Rightarrow> byte list \<Rightarrow> 'a kmem_scheme \<Rightarrow> (int \<times> 'a kmem_scheme) res" where
  "copyout_loop 0 pgdir va buf s = (if buf = [] then Inr (0, s) else Inl (Spins ''copyout''))"
| "copyout_loop (Suc k) pgdir va buf s =
     (if buf = [] then Inr (0, s)
      else
        let va0 = PGROUNDDOWN va in
        andThen (uva2ka pgdir va0 s) (\<lambda>pa0.
        if pa0 = 0 then Inr (- 1, s)
        else
          let n = unat (PGSIZE - (va - va0));
              n = (if n > length buf then length buf else n);
              s = s\<lparr>pmem := put_bytes (pmem s) (pa0 + (va - va0)) (take n buf)\<rparr>
          in copyout_loop k pgdir (va0 + PGSIZE) (drop n buf) s))"

definition copyout :: "uint \<Rightarrow> uint \<Rightarrow> byte list \<Rightarrow> 'a kmem_scheme \<Rightarrow> (int \<times> 'a kmem_scheme) res" where
  "copyout pgdir va buf s = copyout_loop (length buf) pgdir va buf s"

section \<open>Registers\<close>

record vmstate = ptab +
  kpgdir :: uint
  cr0 :: "nat \<Rightarrow> uint"
  cr3 :: "nat \<Rightarrow> uint"
  gdt :: "nat \<Rightarrow> nat \<Rightarrow> segdesc"
  gdtr :: "nat \<Rightarrow> bool"
  gs :: "nat \<Rightarrow> ushort"
  tr :: "nat \<Rightarrow> ushort"
  ts_ss0 :: "nat \<Rightarrow> ushort"
  ts_esp0 :: "nat \<Rightarrow> uint"

definition SEG_KCODE :: nat where "SEG_KCODE = 1"
definition SEG_KDATA :: nat where "SEG_KDATA = 2"
definition SEG_KCPU :: nat where "SEG_KCPU = 3"
definition SEG_UCODE :: nat where "SEG_UCODE = 4"
definition SEG_UDATA :: nat where "SEG_UDATA = 5"
definition SEG_TSS :: nat where "SEG_TSS = 6"

definition set_seg :: "nat \<Rightarrow> segdesc \<Rightarrow> 'a vmstate_scheme \<Rightarrow> 'a vmstate_scheme" where
  "set_seg i d s = s\<lparr>gdt := (gdt s)(cur s := (gdt s (cur s))(i := d))\<rparr>"

definition kvmalloc :: "uint \<Rightarrow> 'a vmstate_scheme \<Rightarrow> 'a vmstate_scheme res" where
  "kvmalloc kdata s = andThen (setupkvm kdata s) (\<lambda>(d, s). Inr (s\<lparr>kpgdir := d\<rparr>))"

definition seginit :: "(nat \<Rightarrow> uint) \<Rightarrow> 'a vmstate_scheme \<Rightarrow> 'a vmstate_scheme" where
  "seginit cpu_addr s =
     (let s = set_seg SEG_KCODE (SEG (STA_X OR STA_R) 0 0xffffffff 0) s;
          s = set_seg SEG_KDATA (SEG STA_W 0 0xffffffff 0) s;
          s = set_seg SEG_UCODE (SEG (STA_X OR STA_R) 0 0xffffffff DPL_USER) s;
          s = set_seg SEG_UDATA (SEG STA_W 0 0xffffffff DPL_USER) s;
          s = set_seg SEG_KCPU (SEG STA_W (cpu_addr (cur s)) 8 0) s;
          s = s\<lparr>gdtr := (gdtr s)(cur s := True)\<rparr>;
          s = s\<lparr>gs := (gs s)(cur s := push_bit 3 (of_nat SEG_KCPU))\<rparr>
      in set_myproc None s)"

definition lcr3 :: "uint \<Rightarrow> 'a vmstate_scheme \<Rightarrow> 'a vmstate_scheme" where
  "lcr3 v s = s\<lparr>cr3 := (cr3 s)(cur s := v)\<rparr>"

definition switchkvm :: "'a vmstate_scheme \<Rightarrow> 'a vmstate_scheme" where
  "switchkvm s = lcr3 (kpgdir s) s"

definition vmenable :: "'a vmstate_scheme \<Rightarrow> 'a vmstate_scheme" where
  "vmenable s =
     (let s = switchkvm s in s\<lparr>cr0 := (cr0 s)(cur s := cr0 s (cur s) OR CR0_PG)\<rparr>)"

text \<open>\<open>sizeof(cpu->ts)\<close> is 104.\<close>

definition switchuvm :: "(nat \<Rightarrow> uint) \<Rightarrow> nat \<Rightarrow> 'a vmstate_scheme \<Rightarrow> 'a vmstate_scheme res" where
  "switchuvm ts_addr p s =
     (let s = pushcli s;
          s = set_seg SEG_TSS ((SEG16 STS_T32A (ts_addr (cur s)) (104 - 1) 0)\<lparr>seg_s := 0\<rparr>) s;
          s = s\<lparr>ts_ss0 := (ts_ss0 s)(cur s := push_bit 3 (of_nat SEG_KDATA))\<rparr>
      in case myproc s of
           None \<Rightarrow> Inl (Wild ''proc'')
         | Some i \<Rightarrow>
             let s = s\<lparr>ts_esp0 := (ts_esp0 s)(cur s := p_kstack (procs s ! i) + KSTACKSIZE)\<rparr>;
                 s = s\<lparr>tr := (tr s)(cur s := push_bit 3 (of_nat SEG_TSS))\<rparr>
             in if p_pgdir (procs s ! p) = 0 then Inl (Panic ''switchuvm: no pgdir'')
                else popcli (lcr3 (p_pgdir (procs s ! p)) s))"

section \<open>Entries of a page\<close>

text \<open>Two memories agree on page \<open>q\<close>.\<close>

definition same_page :: "mem \<Rightarrow> mem \<Rightarrow> uint \<Rightarrow> bool" where
  "same_page m m' q \<longleftrightarrow> (\<forall>i < PGSIZE. m' (q + i) = m (q + i))"

lemma same_page_refl [simp]: "same_page m m q"
  by (simp add: same_page_def)

lemma same_page_trans: "same_page m m' q \<Longrightarrow> same_page m' m'' q \<Longrightarrow> same_page m m'' q"
  by (simp add: same_page_def)

lemma entry_offset:
  assumes "(i :: uint) < 1024" and "j < 4"
  shows "4 * i + j < PGSIZE" and "unat (4 * i + j) = 4 * unat i + unat j"
proof -
  have "unat i < 1024" "unat j < 4" using assms by (simp_all add: word_less_nat_alt)
  then show u: "unat (4 * i + j) = 4 * unat i + unat j"
    by (simp add: unat_word_ariths)
  show "4 * i + j < PGSIZE"
    using \<open>unat i < 1024\<close> \<open>unat j < 4\<close> u by (simp add: word_less_nat_alt PGSIZE_def)
qed

lemma entry_unat:
  assumes "page_aligned p" and "(i :: uint) < 1024"
  shows "unat (p + 4 * i) = unat p + 4 * unat i"
proof -
  have "4 * i < PGSIZE" "unat (4 * i) = 4 * unat i"
    using entry_offset [of i 0] assms(2) by simp_all
  with unat_page_add [OF assms(1), of "4 * i"] show ?thesis by simp
qed

lemma entry_inj:
  assumes "page_aligned p" and "page_aligned q" and "i < 1024" and "j < 1024"
    and "p + 4 * i = q + 4 * j"
  shows "p = q \<and> i = j"
proof -
  have "p = q"
  proof (rule page_disjoint)
    show "4 * j < PGSIZE" using entry_offset(1) [of j 0] assms(4) by simp
    have "q + 4 * j - p = 4 * i" using assms(5) [symmetric] by simp
    then show "q + 4 * j - p < PGSIZE" using entry_offset(1) [of i 0] assms(3) by simp
  qed (use assms in simp_all)
  moreover have "unat i = unat j"
    using entry_unat [OF assms(1,3)] entry_unat [OF assms(1,4)] assms(5) calculation by simp
  ultimately show ?thesis by (simp add: word_unat_eq_iff)
qed

lemma entry_nonzero: "page_aligned p \<Longrightarrow> p \<noteq> 0 \<Longrightarrow> i < 1024 \<Longrightarrow> p + 4 * i \<noteq> 0"
  using entry_unat [of p i] by (auto simp: word_unat_eq_iff)

lemma load32_store32_other:
  assumes "4 dvd unat a" and "4 dvd unat b" and "a \<noteq> b"
  shows "load32 (store32 m a w) b = load32 m b"
proof (rule load32_cong)
  fix i :: uint assume "i < 4"
  then have i: "unat i < 4" by (simp add: word_less_nat_alt)
  obtain x y where xy: "unat a = 4 * x" "unat b = 4 * y" using assms by (auto elim!: dvdE)
  have "\<not> b + i - a < 4"
  proof
    assume "b + i - a < 4"
    then have j: "unat (b + i - a) < 4" by (simp add: word_less_nat_alt)
    have bi: "unat (b + i) = 4 * y + unat i"
      using xy i unat_uint_less [of b] by (simp add: unat_word_ariths)
    have "unat (a + (b + i - a)) = 4 * x + unat (b + i - a)"
      using xy j unat_uint_less [of a] by (simp only: unat_word_ariths) simp
    then have "4 * y + unat i = 4 * x + unat (b + i - a)" using bi by simp
    with i j have "x = y" by presburger
    with xy assms(3) show False by (simp add: word_unat_eq_iff)
  qed
  then show "store32 m a w (b + i) = m (b + i)" by (rule store32_apply_other)
qed

lemma entry_dvd4: "page_aligned p \<Longrightarrow> i < 1024 \<Longrightarrow> 4 dvd unat (p + 4 * i)"
proof -
  assume a: "page_aligned p" "i < 1024"
  then have "4096 dvd unat p" by (simp add: page_aligned_nat)
  then have "4 dvd unat p" by (rule dvd_trans [rotated]) simp
  with a show ?thesis by (simp add: entry_unat)
qed

lemma load_store_entry:
  assumes "page_aligned p" and "page_aligned q" and "i < 1024" and "j < 1024"
  shows "load32 (store32 m (p + 4 * i) w) (q + 4 * j) =
    (if p = q \<and> i = j then w else load32 m (q + 4 * j))"
proof (cases "p + 4 * i = q + 4 * j")
  case True
  with entry_inj [OF assms] show ?thesis by auto
next
  case False
  with assms show ?thesis by (auto simp: load32_store32_other entry_dvd4)
qed

lemma same_page_store:
  assumes "page_aligned p" and "page_aligned q" and "i < 1024" and "p \<noteq> q"
  shows "same_page m (store32 m (p + 4 * i) w) q"
  unfolding same_page_def
proof (intro allI impI)
  fix k assume k: "k < PGSIZE"
  have "\<not> q + k - (p + 4 * i) < 4"
  proof
    assume lt: "q + k - (p + 4 * i) < 4"
    have eq: "q + k - p = 4 * i + (q + k - (p + 4 * i))" by simp
    have "q + k - p < PGSIZE" by (subst eq) (rule entry_offset(1) [OF assms(3) lt])
    with page_disjoint [OF assms(1,2) k] assms(4) show False by simp
  qed
  then show "store32 m (p + 4 * i) w (q + k) = m (q + k)" by (rule store32_apply_other)
qed

lemma same_page_memset:
  assumes "page_aligned p" and "page_aligned q" and "p \<noteq> q"
  shows "same_page m (memset m p c PGSIZE) q"
  using page_disjoint [OF assms(1,2)] assms(3) by (auto simp: same_page_def memset_apply)

lemma load_same_page:
  assumes "same_page m m' q" and "i < 1024"
  shows "load32 m' (q + 4 * i) = load32 m (q + 4 * i)"
proof (rule load32_cong)
  fix j :: uint assume "j < 4"
  then have "4 * i + j < PGSIZE" using entry_offset assms(2) by simp
  with assms(1) show "m' (q + 4 * i + j) = m (q + 4 * i + j)"
    by (simp add: same_page_def add.assoc)
qed

lemma load_zero_page:
  assumes "i < 1024"
  shows "load32 (memset m p 0 PGSIZE) (p + 4 * i) = 0"
proof -
  have "load32 (memset m p 0 PGSIZE) (p + 4 * i) = load32 (\<lambda>_. 0) (p + 4 * i)"
  proof (rule load32_cong)
    fix j :: uint assume "j < 4"
    then have "4 * i + j < PGSIZE" using entry_offset assms by simp
    then show "memset m p 0 PGSIZE (p + 4 * i + j) = 0"
      by (simp add: memset_apply add.assoc)
  qed
  then show ?thesis by (simp add: load32_def get32_def)
qed

lemma free_list_same_page:
  assumes "\<And>p. p \<in> set ps \<Longrightarrow> same_page (pmem s) m p"
  shows "free_list kend (s\<lparr>pmem := m\<rparr>) ps = free_list kend s ps"
proof -
  have "load32 m p = load32 (pmem s) p" if "p \<in> set ps" for p
    using load_same_page [OF assms [OF that], of 0] by simp
  then have "page_chain m (freelist s) ps = page_chain (pmem s) (freelist s) ps"
    by (rule page_chain_cong)
  then show ?thesis by (simp add: free_list_def)
qed

section \<open>Translation\<close>

definition present :: "uint \<Rightarrow> bool" where
  "present v \<longleftrightarrow> v AND PTE_P \<noteq> 0"

definition pde_of :: "mem \<Rightarrow> uint \<Rightarrow> uint \<Rightarrow> uint" where
  "pde_of m pgdir i = load32 m (pgdir + 4 * i)"

text \<open>The page table entry of a linear address; 0, which is not present, where there is no table.\<close>

definition pte_of :: "mem \<Rightarrow> uint \<Rightarrow> uint \<Rightarrow> uint" where
  "pte_of m pgdir va =
     (let v = pde_of m pgdir (PDX va) in
      if present v then load32 m (PTE_ADDR v + 4 * PTX va) else 0)"

definition tables :: "mem \<Rightarrow> uint \<Rightarrow> uint set" where
  "tables m pgdir = {PTE_ADDR (pde_of m pgdir i) | i. i < 1024 \<and> present (pde_of m pgdir i)}"

text \<open>The directory and its tables are pages of their own, none of them free.\<close>

definition pgdir_ok :: "uint \<Rightarrow> mem \<Rightarrow> uint \<Rightarrow> uint list \<Rightarrow> bool" where
  "pgdir_ok kend m pgdir ps \<longleftrightarrow>
     page_ok kend pgdir \<and> pgdir \<noteq> 0 \<and> pgdir \<notin> set ps \<and>
     (\<forall>i < 1024. present (pde_of m pgdir i) \<longrightarrow>
        (let t = PTE_ADDR (pde_of m pgdir i) in page_ok kend t \<and> t \<noteq> 0 \<and> t \<noteq> pgdir \<and> t \<notin> set ps)) \<and>
     (\<forall>i < 1024. \<forall>j < 1024. present (pde_of m pgdir i) \<longrightarrow> present (pde_of m pgdir j) \<longrightarrow>
        PTE_ADDR (pde_of m pgdir i) = PTE_ADDR (pde_of m pgdir j) \<longrightarrow> i = j)"

lemma mask10_less: "x AND 0x3FF < (1024 :: uint)"
proof -
  have "x AND 0x3FF = take_bit 10 x"
    by (simp add: take_bit_eq_mask mask_eq_exp_minus_1)
  also have "\<dots> = x mod 1024" by (simp add: take_bit_eq_mod)
  finally show ?thesis by (simp add: word_mod_less_divisor)
qed

lemma PDX_less [simp]: "PDX va < 1024" and PTX_less [simp]: "PTX va < 1024"
  by (simp_all add: PDX_def PTX_def mask10_less)

lemma small_word_bit:
  assumes "f < (4096 :: uint)" and "bit f n"
  shows "n < 12"
proof -
  have "unat f < 4096" using assms(1) by (simp add: word_less_nat_alt)
  then have "f mod 4096 = f" by (simp add: word_unat_eq_iff unat_mod)
  then have "f = take_bit 12 f" by (simp add: take_bit_eq_mod)
  with assms(2) show ?thesis by (metis bit_take_bit_iff)
qed

lemma aligned_bit:
  assumes "page_aligned p" and "bit p n"
  shows "12 \<le> n"
proof -
  have "take_bit 12 p = 0" using assms(1) by (simp add: page_aligned_def PGSIZE_def take_bit_eq_mod)
  then have "\<not> (n < 12 \<and> bit p n)" by (metis bit_take_bit_iff bit_0_eq bot_apply bot_bool_def)
  with assms(2) show ?thesis by simp
qed

lemma PTE_ADDR_flags:
  assumes "page_aligned p" and "f < 4096"
  shows "PTE_ADDR (p OR f) = p"
proof (rule bit_word_eqI)
  fix n assume "n < LENGTH(32)"
  have m: "(0xFFF :: uint) = mask 12" by (simp add: mask_eq_exp_minus_1)
  show "bit (PTE_ADDR (p OR f)) n = bit p n"
    unfolding PTE_ADDR_def m
    using \<open>n < LENGTH(32)\<close> small_word_bit [OF assms(2), of n] aligned_bit [OF assms(1), of n]
    by (auto simp: bit_simps)
qed

lemma PGROUNDDOWN_index:
  "PGROUNDDOWN a = PGROUNDDOWN b \<longleftrightarrow> PDX a = PDX b \<and> PTX a = PTX b"
proof -
  have eq: "PGROUNDDOWN x = PGADDR (PDX x) (PTX x) 0" for x
  proof (rule bit_word_eqI)
    fix n assume n: "n < LENGTH(32)"
    have 3: "(0x3FF :: uint) = mask 10" "NOT (PGSIZE - 1) = NOT (mask 12)"
      by (simp_all add: mask_eq_exp_minus_1 PGSIZE_def)
    from n consider "n < 12" | "12 \<le> n" "n < 22" | "22 \<le> n" "n < 32" by fastforce
    then show "bit (PGROUNDDOWN x) n = bit (PGADDR (PDX x) (PTX x) 0) n"
      unfolding PGADDR_def PDX_def PTX_def PGROUNDDOWN_def 3 by cases (auto simp: bit_simps)
  qed
  have "PDX x = PDX (PGROUNDDOWN x) \<and> PTX x = PTX (PGROUNDDOWN x)" for x
  proof -
    have 3: "(0x3FF :: uint) = mask 10" "NOT (PGSIZE - 1) = NOT (mask 12)"
      by (simp_all add: mask_eq_exp_minus_1 PGSIZE_def)
    show ?thesis unfolding PDX_def PTX_def PGROUNDDOWN_def 3
      by (auto intro!: bit_word_eqI simp: bit_simps)
  qed
  then show ?thesis using eq by metis
qed

section \<open>The tables under the routines\<close>

lemma pgdir_okD:
  assumes "pgdir_ok kend m pgdir ps" and "i < 1024" and "present (pde_of m pgdir i)"
  shows "page_aligned (PTE_ADDR (pde_of m pgdir i))" and "PTE_ADDR (pde_of m pgdir i) \<noteq> 0"
    and "PTE_ADDR (pde_of m pgdir i) \<noteq> pgdir" and "PTE_ADDR (pde_of m pgdir i) \<notin> set ps"
    and "page_ok kend (PTE_ADDR (pde_of m pgdir i))"
  using assms by (auto simp: pgdir_ok_def Let_def page_ok_def)

lemma pgdir_ok_aligned: "pgdir_ok kend m pgdir ps \<Longrightarrow> page_aligned pgdir"
  by (simp add: pgdir_ok_def page_ok_def)

lemma pgdir_ok_tables:
  assumes "pgdir_ok kend m pgdir ps" "i < 1024" "j < 1024"
    "present (pde_of m pgdir i)" "present (pde_of m pgdir j)"
    "PTE_ADDR (pde_of m pgdir i) = PTE_ADDR (pde_of m pgdir j)"
  shows "i = j"
  using assms by (simp add: pgdir_ok_def)

text \<open>Writing one entry of the table of \<open>va\<close>.\<close>

lemma store_pte:
  fixes w :: uint
  assumes ok: "pgdir_ok kend m pgdir ps" and pr: "present (pde_of m pgdir (PDX va))"
  defines "t \<equiv> PTE_ADDR (pde_of m pgdir (PDX va))"
  defines "m' \<equiv> store32 m (t + 4 * PTX va) w"
  shows "pgdir_ok kend m' pgdir ps"
    and "pte_of m' pgdir b = (if PGROUNDDOWN b = PGROUNDDOWN va then w else pte_of m pgdir b)"
    and "tables m' pgdir = tables m pgdir"
    and "\<And>q. page_aligned q \<Longrightarrow> q \<notin> tables m pgdir \<Longrightarrow> same_page m m' q"
proof -
  note t = pgdir_okD [OF ok PDX_less pr, folded t_def]
  have pde: "pde_of m' pgdir i = pde_of m pgdir i" if "i < 1024" for i
    using load_same_page [OF same_page_store [OF t(1) pgdir_ok_aligned [OF ok] PTX_less t(3)] that]
    by (simp add: m'_def pde_of_def)
  show "pgdir_ok kend m' pgdir ps"
    using ok by (simp add: pgdir_ok_def pde)
  show "tables m' pgdir = tables m pgdir"
    unfolding tables_def using pde by metis
  show "pte_of m' pgdir b = (if PGROUNDDOWN b = PGROUNDDOWN va then w else pte_of m pgdir b)"
  proof (cases "present (pde_of m pgdir (PDX b))")
    case True
    note tb = pgdir_okD [OF ok PDX_less True]
    have "PTE_ADDR (pde_of m pgdir (PDX b)) = t \<longleftrightarrow> PDX b = PDX va"
      using pgdir_ok_tables [OF ok PDX_less PDX_less True pr] by (auto simp: t_def)
    moreover have "load32 m' (PTE_ADDR (pde_of m pgdir (PDX b)) + 4 * PTX b) =
      (if t = PTE_ADDR (pde_of m pgdir (PDX b)) \<and> PTX va = PTX b then w
       else load32 m (PTE_ADDR (pde_of m pgdir (PDX b)) + 4 * PTX b))"
      unfolding m'_def by (rule load_store_entry [OF t(1) tb(1) PTX_less PTX_less])
    ultimately show ?thesis
      using True by (auto simp: pte_of_def pde PGROUNDDOWN_index Let_def)
  next
    case False
    with pr show ?thesis by (auto simp: pte_of_def pde PGROUNDDOWN_index)
  qed
  show "same_page m m' q" if q: "page_aligned q" "q \<notin> tables m pgdir" for q
  proof -
    have "t \<in> tables m pgdir" using pr by (auto simp: tables_def t_def)
    with q same_page_store [OF t(1) q(1) PTX_less] show ?thesis by (auto simp: m'_def)
  qed
qed

text \<open>Entering a fresh, zeroed table in the directory.\<close>

lemma new_table:
  assumes ok: "pgdir_ok kend m pgdir (p # ps)" and np: "\<not> present (pde_of m pgdir (PDX va))"
    and p: "page_ok kend p" "p \<noteq> 0" and d: "distinct (p # ps)"
  defines "m' \<equiv> store32 (memset m p 0 PGSIZE) (pgdir + 4 * PDX va) (p OR PTE_P OR PTE_W OR PTE_U)"
  shows "pgdir_ok kend m' pgdir ps"
    and "present (pde_of m' pgdir (PDX va))" and "PTE_ADDR (pde_of m' pgdir (PDX va)) = p"
    and "pte_of m' pgdir b = pte_of m pgdir b"
    and "tables m' pgdir = insert p (tables m pgdir)"
    and "\<And>q. page_aligned q \<Longrightarrow> q \<noteq> pgdir \<Longrightarrow> q \<noteq> p \<Longrightarrow> same_page m m' q"
proof -
  have al: "page_aligned p" "page_aligned pgdir" "p \<noteq> pgdir"
    using p ok by (auto simp: page_ok_def pgdir_ok_def)
  let ?w = "p OR PTE_P OR PTE_W OR PTE_U"
  have flags: "PTE_P OR (PTE_W OR PTE_U) = 7" by (simp add: PTE_P_def PTE_W_def PTE_U_def)
  have w: "?w = p OR 7" by (simp add: or.assoc flags)
  have addr: "PTE_ADDR ?w = p" unfolding w by (rule PTE_ADDR_flags [OF al(1)]) simp
  have pres: "present ?w"
  proof -
    have "bit (?w AND PTE_P) 0" by (simp add: bit_simps PTE_P_def)
    then show ?thesis by (auto simp: present_def)
  qed
  have z: "same_page m (memset m p 0 PGSIZE) q" if "page_aligned q" "q \<noteq> p" for q
    using same_page_memset [OF al(1) that(1)] that(2) by auto
  have pde: "pde_of m' pgdir i = (if i = PDX va then ?w else pde_of m pgdir i)" if "i < 1024" for i
    using load_store_entry [OF al(2) al(2) PDX_less that] load_same_page [OF z [OF al(2)] that] al(3)
    by (auto simp: m'_def pde_of_def)
  show same: "same_page m m' q" if "page_aligned q" "q \<noteq> pgdir" "q \<noteq> p" for q
    using same_page_trans [OF z same_page_store] that al by (auto simp: m'_def)
  show "present (pde_of m' pgdir (PDX va))" "PTE_ADDR (pde_of m' pgdir (PDX va)) = p"
    using pres addr by (simp_all add: pde)
  have "q \<in> tables m' pgdir \<longleftrightarrow> q = p \<or> q \<in> tables m pgdir" for q
  proof
    show "q = p \<or> q \<in> tables m pgdir" if "q \<in> tables m' pgdir"
      using that addr by (auto simp: tables_def pde split: if_splits)
    show "q \<in> tables m' pgdir" if h: "q = p \<or> q \<in> tables m pgdir"
    proof (cases "q = p")
      case True
      have "PDX va < 1024 \<and> present (pde_of m' pgdir (PDX va)) \<and> q = PTE_ADDR (pde_of m' pgdir (PDX va))"
        using pres addr True by (simp add: pde)
      then show ?thesis unfolding tables_def by blast
    next
      case False
      with h obtain i where i: "i < 1024" "present (pde_of m pgdir i)" "q = PTE_ADDR (pde_of m pgdir i)"
        by (auto simp: tables_def)
      with np have "i \<noteq> PDX va" by auto
      with i have "i < 1024 \<and> present (pde_of m' pgdir i) \<and> q = PTE_ADDR (pde_of m' pgdir i)"
        by (simp add: pde)
      then show ?thesis unfolding tables_def by blast
    qed
  qed
  then show "tables m' pgdir = insert p (tables m pgdir)" by auto
  show "pgdir_ok kend m' pgdir ps"
    unfolding pgdir_ok_def
  proof (intro conjI allI impI)
    fix i assume i: "i < 1024" "present (pde_of m' pgdir i)"
    show "let t = PTE_ADDR (pde_of m' pgdir i) in page_ok kend t \<and> t \<noteq> 0 \<and> t \<noteq> pgdir \<and> t \<notin> set ps"
      using i pgdir_okD [OF ok i(1)] addr p al d by (auto simp: pde Let_def)
    fix j assume j: "j < 1024" "present (pde_of m' pgdir j)"
      "PTE_ADDR (pde_of m' pgdir i) = PTE_ADDR (pde_of m' pgdir j)"
    show "i = j"
      using i j pgdir_okD(4) [OF ok i(1)] pgdir_okD(4) [OF ok j(1)] pgdir_ok_tables [OF ok i(1) j(1)] addr
      by (auto simp: pde split: if_splits)
  qed (use ok in \<open>auto simp: pgdir_ok_def\<close>)
  show "pte_of m' pgdir b = pte_of m pgdir b"
  proof (cases "PDX b = PDX va")
    case True
    have "load32 m' (p + 4 * PTX b) = 0"
      using load_same_page [OF same_page_store [OF al(2,1) PDX_less al(3) [symmetric]] PTX_less]
        load_zero_page [OF PTX_less] by (simp add: m'_def)
    with True np addr show ?thesis by (simp add: pte_of_def pde Let_def)
  next
    case False
    then show ?thesis
    proof (cases "present (pde_of m pgdir (PDX b))")
      case True
      note t = pgdir_okD [OF ok PDX_less True]
      have "load32 m' (PTE_ADDR (pde_of m pgdir (PDX b)) + 4 * PTX b) =
        load32 m (PTE_ADDR (pde_of m pgdir (PDX b)) + 4 * PTX b)"
        using t by (intro load_same_page same) auto
      with False True show ?thesis by (simp add: pte_of_def pde)
    qed (use False in \<open>simp add: pte_of_def pde\<close>)
  qed
qed


text \<open>\<open>walkpgdir\<close> with \<open>create\<close>: no entry changes its value; the entry of \<open>va\<close> has an address
  unless a table was needed and no page was free.\<close>

definition vm_inv :: "uint \<Rightarrow> 'a kmem_scheme \<Rightarrow> uint \<Rightarrow> uint list \<Rightarrow> bool" where
  "vm_inv kend s pgdir ps \<longleftrightarrow> free_list kend s ps \<and> pgdir_ok kend (pmem s) pgdir ps"

text \<open>What a routine that works on \<open>pgdir\<close> may do to memory: pages that were neither the directory,
  nor one of its tables, nor free, are as before.\<close>

definition outside_same :: "'a kmem_scheme \<Rightarrow> 'a kmem_scheme \<Rightarrow> uint \<Rightarrow> uint list \<Rightarrow> bool" where
  "outside_same s s' pgdir ps \<longleftrightarrow>
     (\<forall>q. page_aligned q \<longrightarrow> q \<noteq> pgdir \<longrightarrow> q \<notin> set ps \<longrightarrow> q \<notin> tables (pmem s) pgdir \<longrightarrow>
        same_page (pmem s) (pmem s') q)"

lemma walkpgdir_create:
  assumes inv: "vm_inv kend s pgdir ps"
  shows "(walkpgdir pgdir va True s = Inr (0, s) \<and> ps = [] \<and> \<not> present (pde_of (pmem s) pgdir (PDX va))) \<or>
    (\<exists>s' ps'. walkpgdir pgdir va True s = Inr (PTE_ADDR (pde_of (pmem s') pgdir (PDX va)) + 4 * PTX va, s') \<and>
       present (pde_of (pmem s') pgdir (PDX va)) \<and> vm_inv kend s' pgdir ps' \<and>
       (\<forall>b. pte_of (pmem s') pgdir b = pte_of (pmem s) pgdir b) \<and>
       set ps' \<union> tables (pmem s') pgdir = set ps \<union> tables (pmem s) pgdir \<and> outside_same s s' pgdir ps)"
proof (cases "present (pde_of (pmem s) pgdir (PDX va))")
  case True
  then have "walkpgdir pgdir va True s = Inr (PTE_ADDR (pde_of (pmem s) pgdir (PDX va)) + 4 * PTX va, s)"
    by (simp add: walkpgdir_def present_def pde_of_def Let_def)
  with True inv show ?thesis by (auto simp: outside_same_def)
next
  case False
  from inv have fl: "free_list kend s ps" and ok: "pgdir_ok kend (pmem s) pgdir ps"
    by (simp_all add: vm_inv_def)
  show ?thesis
  proof (cases ps)
    case Nil
    with fl False show ?thesis
      by (simp add: walkpgdir_def present_def pde_of_def Let_def kalloc_free_list_Nil)
  next
    case (Cons p qs)
    with fl obtain s1 where s1: "kalloc s = Inr (p, s1)" "free_list kend s1 qs"
      using kalloc_free_list_Cons by blast
    have q: "quiet s" using fl by (simp add: free_list_def)
    have pm: "pmem s1 = pmem s" using s1(1) by (auto simp: kalloc_eq q split: if_splits)
    have p: "page_ok kend p" "p \<noteq> 0" "distinct (p # qs)"
      using free_list_pages [OF fl] Cons by auto
    define m' where "m' = store32 (memset (pmem s) p 0 PGSIZE) (pgdir + 4 * PDX va)
      (p OR PTE_P OR PTE_W OR PTE_U)"
    note nt = new_table [OF ok [unfolded Cons] False p, folded m'_def]
    have w: "walkpgdir pgdir va True s = Inr (p + 4 * PTX va, s1\<lparr>pmem := m'\<rparr>)"
      using False s1(1) p(2)
      by (simp add: walkpgdir_def present_def pde_of_def Let_def pm m'_def)
    have "same_page (pmem s1) m' x" if "x \<in> set qs" for x
      using nt(6) [of x] that free_list_pages [OF fl] ok Cons
      by (auto simp: pm page_ok_def pgdir_ok_def)
    then have "free_list kend (s1\<lparr>pmem := m'\<rparr>) qs"
      using s1(2) by (simp add: free_list_same_page)
    moreover have "outside_same s (s1\<lparr>pmem := m'\<rparr>) pgdir ps"
      using nt(6) Cons by (simp add: outside_same_def)
    ultimately show ?thesis
      using w nt(1-5) Cons
      by (intro disjI2 exI [of _ "s1\<lparr>pmem := m'\<rparr>"] exI [of _ qs]) (auto simp: vm_inv_def)
  qed
qed


definition vm_step :: "uint \<Rightarrow> uint \<Rightarrow> 'a kmem_scheme \<Rightarrow> uint list \<Rightarrow> 'a kmem_scheme \<Rightarrow> uint list \<Rightarrow> bool" where
  "vm_step kend pgdir s ps s' ps' \<longleftrightarrow>
     vm_inv kend s' pgdir ps' \<and> outside_same s s' pgdir ps \<and>
     set ps' \<union> tables (pmem s') pgdir = set ps \<union> tables (pmem s) pgdir"

lemma vm_step_refl: "vm_inv kend s pgdir ps \<Longrightarrow> vm_step kend pgdir s ps s ps"
  by (simp add: vm_step_def outside_same_def)

lemma vm_step_trans:
  assumes "vm_step kend pgdir s ps s1 ps1" and "vm_step kend pgdir s1 ps1 s2 ps2"
  shows "vm_step kend pgdir s ps s2 ps2"
proof -
  have "same_page (pmem s) (pmem s2) q"
    if "page_aligned q" "q \<noteq> pgdir" "q \<notin> set ps" "q \<notin> tables (pmem s) pgdir" for q
  proof -
    from that assms(1) have "q \<notin> set ps1" "q \<notin> tables (pmem s1) pgdir"
      by (auto simp: vm_step_def)
    with that assms show ?thesis
      by (auto simp: vm_step_def outside_same_def intro: same_page_trans)
  qed
  with assms show ?thesis by (auto simp: vm_step_def outside_same_def)
qed

lemma map_one:
  fixes s :: "'a kmem_scheme"
  assumes inv: "vm_inv kend s pgdir ps" and np: "\<not> present (pte_of (pmem s) pgdir a)"
  shows "(walkpgdir pgdir a True s = Inr (0, s) \<and> ps = []) \<or>
    (\<exists>pte s1 s2 ps2. walkpgdir pgdir a True s = Inr (pte, s1) \<and> pte \<noteq> 0 \<and>
       \<not> present (load32 (pmem s1) pte) \<and> s2 = s1\<lparr>pmem := store32 (pmem s1) pte w\<rparr> \<and>
       vm_step kend pgdir s ps s2 ps2 \<and>
       (\<forall>b. pte_of (pmem s2) pgdir b =
          (if PGROUNDDOWN b = PGROUNDDOWN a then w else pte_of (pmem s) pgdir b)))"
  using walkpgdir_create [OF inv, of a]
proof (elim disjE exE conjE)
  fix s1 :: "'a kmem_scheme" and ps1
  let ?t = "PTE_ADDR (pde_of (pmem s1) pgdir (PDX a))"
  assume w: "walkpgdir pgdir a True s = Inr (?t + 4 * PTX a, s1)"
    and pr: "present (pde_of (pmem s1) pgdir (PDX a))" and inv1: "vm_inv kend s1 pgdir ps1"
    and same: "\<forall>b. pte_of (pmem s1) pgdir b = pte_of (pmem s) pgdir b"
    and un: "set ps1 \<union> tables (pmem s1) pgdir = set ps \<union> tables (pmem s) pgdir"
    and os: "outside_same s s1 pgdir ps"
  have ok: "pgdir_ok kend (pmem s1) pgdir ps1" and fl: "free_list kend s1 ps1"
    using inv1 by (simp_all add: vm_inv_def)
  note t = pgdir_okD [OF ok PDX_less pr]
  note st = store_pte [OF ok pr, where w = w]
  let ?m = "store32 (pmem s1) (?t + 4 * PTX a) w"
  have "same_page (pmem s1) ?m x" if x: "x \<in> set ps1" for x
  proof (rule st(4))
    show "page_aligned x" using x free_list_pages [OF fl] by (simp add: page_ok_def)
    show "x \<notin> tables (pmem s1) pgdir" using pgdir_okD(4) [OF ok] x by (auto simp: tables_def)
  qed
  then have "vm_inv kend (s1\<lparr>pmem := ?m\<rparr>) pgdir ps1"
    using fl st(1) by (simp add: vm_inv_def free_list_same_page)
  then have "vm_step kend pgdir s1 ps1 (s1\<lparr>pmem := ?m\<rparr>) ps1"
    using st(3,4) by (simp add: vm_step_def outside_same_def)
  moreover have "vm_step kend pgdir s ps s1 ps1"
    using inv1 os un by (simp add: vm_step_def)
  ultimately have "vm_step kend pgdir s ps (s1\<lparr>pmem := ?m\<rparr>) ps1"
    by (rule vm_step_trans [rotated])
  moreover have "load32 (pmem s1) (?t + 4 * PTX a) = pte_of (pmem s1) pgdir a"
    using pr by (simp add: pte_of_def Let_def)
  ultimately show ?thesis
    using w entry_nonzero [OF t(1,2) PTX_less] st(2) same np
    by (intro disjI2 exI [of _ "?t + 4 * PTX a"] exI [of _ s1] exI [of _ "s1\<lparr>pmem := ?m\<rparr>"]
        exI [of _ ps1]) auto
qed simp

text \<open>The pages of a range.\<close>

definition page_at :: "uint \<Rightarrow> nat \<Rightarrow> uint" where
  "page_at a k = a + of_nat k * PGSIZE"

lemma page_at_0 [simp]: "page_at a 0 = a"
  by (simp add: page_at_def)

lemma page_at_Suc: "page_at a (Suc k) = page_at (a + PGSIZE) k"
  by (simp add: page_at_def algebra_simps)

lemma page_at_aligned:
  assumes "page_aligned a"
  shows "page_aligned (page_at a k)" and "PGROUNDDOWN (page_at a k) = page_at a k"
proof -
  have "unat (page_at a k) = (unat a + k * 4096) mod 4294967296"
    by (simp add: page_at_def PGSIZE_def unat_word_ariths unat_of_nat mod_simps)
  moreover have "4096 dvd (unat a + k * 4096) mod 4294967296"
    using assms by (intro dvd_mod) (simp_all add: page_aligned_nat)
  ultimately show "page_aligned (page_at a k)"
    by (simp add: page_aligned_nat)
  then show "PGROUNDDOWN (page_at a k) = page_at a k"
    by (simp add: PGROUNDDOWN_eq page_aligned_def)
qed

lemma page_at_inj:
  assumes "i < 2 ^ 20" and "j < 2 ^ 20" and "page_at a i = page_at a j"
  shows "i = j"
proof -
  have u: "unat (of_nat k * PGSIZE) = k * 4096" if "k < 2 ^ 20" for k
  proof -
    have "of_nat k * PGSIZE = of_nat (k * 4096)" by (simp add: PGSIZE_def)
    moreover have "unat (of_nat (k * 4096) :: uint) = k * 4096"
      by (subst unat_of_nat) (use that in simp)
    ultimately show ?thesis by metis
  qed
  have "of_nat i * PGSIZE = of_nat j * PGSIZE"
    using assms(3) unfolding page_at_def by (rule add_left_imp_eq)
  then have "i * 4096 = j * 4096" using u [OF assms(1)] u [OF assms(2)] by metis
  then show ?thesis by simp
qed

definition in_pages :: "uint \<Rightarrow> nat \<Rightarrow> uint \<Rightarrow> bool" where
  "in_pages a n x \<longleftrightarrow> (\<exists>k\<le>n. x = page_at a k)"

lemma in_pages_0 [simp]: "in_pages a 0 x \<longleftrightarrow> x = a"
  by (simp add: in_pages_def)

lemma in_pages_Suc: "in_pages a (Suc n) x \<longleftrightarrow> x = a \<or> in_pages (a + PGSIZE) n x"
proof
  assume "in_pages a (Suc n) x"
  then obtain k where "k \<le> Suc n" "x = page_at a k" by (auto simp: in_pages_def)
  then show "x = a \<or> in_pages (a + PGSIZE) n x"
    by (cases k) (auto simp: page_at_Suc in_pages_def)
next
  assume "x = a \<or> in_pages (a + PGSIZE) n x"
  then show "in_pages a (Suc n) x"
    unfolding in_pages_def by (metis Suc_le_mono page_at_0 page_at_Suc zero_le)
qed

lemma in_pages_fresh:
  assumes "Suc n < 2 ^ 20"
  shows "\<not> in_pages (a + PGSIZE) n a"
proof
  assume "in_pages (a + PGSIZE) n a"
  then obtain k where k: "k \<le> n" "page_at a 0 = page_at a (Suc k)"
    by (auto simp: in_pages_def page_at_Suc)
  then have "0 = Suc k" by (intro page_at_inj [OF _ _ k(2)]) (use assms in auto)
  then show False by simp
qed

lemma in_pages_aligned:
  "page_aligned a \<Longrightarrow> in_pages a n x \<Longrightarrow> page_aligned x \<and> PGROUNDDOWN x = x"
  by (auto simp: in_pages_def page_at_aligned)

lemma mappages_loop_maps:
  fixes s :: "'a kmem_scheme"
  assumes "vm_inv kend s pgdir ps" and "page_aligned a" and "n < 2 ^ 20"
    and "\<And>x. in_pages a n x \<Longrightarrow> \<not> present (pte_of (pmem s) pgdir x)"
  shows "\<exists>r s' ps'. mappages_loop (Suc n) pgdir a (page_at a n) pa perm s = Inr (r, s') \<and>
    vm_step kend pgdir s ps s' ps' \<and>
    (r = - 1 \<and> ps' = [] \<or>
     r = 0 \<and> (\<forall>b. pte_of (pmem s') pgdir b =
       (if in_pages a n (PGROUNDDOWN b)
        then (pa + (PGROUNDDOWN b - a)) OR perm OR PTE_P else pte_of (pmem s) pgdir b)))"
  using assms
proof (induction n arbitrary: a pa s ps)
  case 0
  have "PGROUNDDOWN a = a" using page_at_aligned(2) [OF 0(2), of 0] by simp
  with map_one [OF 0(1), of a "pa OR perm OR PTE_P"] 0 vm_step_refl [OF 0(1)] show ?case
    by (fastforce simp: present_def)
next
  case (Suc n)
  let ?b = "a + PGSIZE"
  have al: "PGROUNDDOWN a = a" "page_aligned ?b"
    using page_at_aligned [OF Suc.prems(2), of 0] page_at_aligned [OF Suc.prems(2), of 1]
    by (simp_all add: page_at_Suc)
  note fresh = in_pages_fresh [OF Suc.prems(3), of a]
  have np: "\<not> present (pte_of (pmem s) pgdir a)" using Suc.prems(4) [of a] by (simp add: in_pages_Suc)
  from map_one [OF Suc.prems(1) np, of "pa OR perm OR PTE_P"] show ?case
  proof (elim disjE exE conjE)
    assume "walkpgdir pgdir a True s = Inr (0, s)" "ps = []"
    with vm_step_refl [OF Suc.prems(1)] show ?thesis by auto
  next
    fix pte ps2 and s1 s2 :: "'a kmem_scheme"
    assume w: "walkpgdir pgdir a True s = Inr (pte, s1)" "pte \<noteq> 0" "\<not> present (load32 (pmem s1) pte)"
      "s2 = s1\<lparr>pmem := store32 (pmem s1) pte (pa OR perm OR PTE_P)\<rparr>"
      and st: "vm_step kend pgdir s ps s2 ps2"
      and new: "\<forall>b. pte_of (pmem s2) pgdir b =
        (if PGROUNDDOWN b = PGROUNDDOWN a then pa OR perm OR PTE_P else pte_of (pmem s) pgdir b)"
    have inv2: "vm_inv kend s2 pgdir ps2" using st by (simp add: vm_step_def)
    have np2: "\<not> present (pte_of (pmem s2) pgdir x)" if "in_pages ?b n x" for x
      using new that fresh in_pages_aligned [OF al(2) that] al(1) Suc.prems(4) [of x]
      by (auto simp: in_pages_Suc)
    have "a \<noteq> page_at ?b n" using fresh by (auto simp: in_pages_def)
    then have run: "mappages_loop (Suc (Suc n)) pgdir a (page_at a (Suc n)) pa perm s =
      mappages_loop (Suc n) pgdir ?b (page_at ?b n) (pa + PGSIZE) perm s2"
      unfolding mappages_loop.simps(2) [of "Suc n"] page_at_Suc
      using w by (simp add: present_def del: mappages_loop.simps)
    have shift: "pa + PGSIZE + (x - ?b) = pa + (x - a)" for x by simp
    from Suc.IH [OF inv2 al(2) _ np2, of "pa + PGSIZE"] Suc.prems(3)
    obtain r s' ps' where ih: "mappages_loop (Suc n) pgdir ?b (page_at ?b n) (pa + PGSIZE) perm s2 = Inr (r, s')"
      "vm_step kend pgdir s2 ps2 s' ps'"
      "r = - 1 \<and> ps' = [] \<or> r = 0 \<and> (\<forall>b. pte_of (pmem s') pgdir b =
       (if in_pages ?b n (PGROUNDDOWN b)
        then (pa + (PGROUNDDOWN b - a)) OR perm OR PTE_P else pte_of (pmem s2) pgdir b))"
      unfolding shift by auto
    from ih run vm_step_trans [OF st ih(2)] new al(1) fresh show ?thesis
      by (intro exI [of _ r] exI [of _ s'] exI [of _ ps'])
        (auto simp: in_pages_Suc simp del: mappages_loop.simps)
  qed
qed


lemma page_aligned_diff:
  assumes "page_aligned x" and "page_aligned y"
  shows "page_aligned (x - y)"
proof -
  have i: "4096 dvd uint x" "4096 dvd uint y"
    using assms unfolding page_aligned_nat
    by (metis int_dvd_int_iff of_nat_numeral uint_nat)+
  have "uint (x - y) = (uint x - uint y) mod 4294967296" by (simp add: uint_word_ariths)
  moreover have "4096 dvd (uint x - uint y) mod 4294967296"
    using i by (intro dvd_mod dvd_diff) simp_all
  ultimately have "4096 dvd int (unat (x - y))" by simp
  then show ?thesis unfolding page_aligned_nat by (metis int_dvd_int_iff of_nat_numeral)
qed

lemma page_at_diff:
  assumes "page_aligned a" and "page_aligned x"
  shows "x = page_at a (unat (x - a) div 4096)"
proof -
  obtain k where k: "unat (x - a) = 4096 * k"
    using page_aligned_diff [OF assms(2,1)] by (auto simp: page_aligned_nat elim!: dvdE)
  have "of_nat k * PGSIZE = of_nat (4096 * k)" by (simp add: PGSIZE_def mult.commute)
  also have "\<dots> = x - a" by (simp flip: k)
  finally show ?thesis by (simp add: page_at_def k)
qed

lemma in_pages_range:
  assumes "page_aligned a" and "page_aligned l"
  shows "in_pages a (unat (l - a) div 4096) x \<longleftrightarrow> page_aligned x \<and> x - a \<le> l - a"
proof
  assume "in_pages a (unat (l - a) div 4096) x"
  then obtain k where k: "k \<le> unat (l - a) div 4096" "x = page_at a k" by (auto simp: in_pages_def)
  have "k * 4096 \<le> unat (l - a)" using k(1) by (simp add: less_eq_div_iff_mult_less_eq)
  moreover from this have "k * 4096 < 4294967296"
    by (rule order_le_less_trans [OF _ unat_uint_less])
  then have "unat (of_nat (k * 4096) :: uint) = k * 4096"
    by (subst unat_of_nat) simp
  moreover have "x - a = of_nat (k * 4096)" using k(2) by (simp add: page_at_def PGSIZE_def)
  ultimately show "page_aligned x \<and> x - a \<le> l - a"
    using page_at_aligned(1) [OF assms(1)] k(2) by (simp add: word_le_nat_alt del: of_nat_mult)
next
  assume x: "page_aligned x \<and> x - a \<le> l - a"
  then have "unat (x - a) div 4096 \<le> unat (l - a) div 4096"
    by (intro div_le_mono) (simp add: word_le_nat_alt)
  with page_at_diff [OF assms(1)] x show "in_pages a (unat (l - a) div 4096) x"
    unfolding in_pages_def by blast
qed



text \<open>A directory with no tables, beside two free pages.\<close>

lemma vm_example:
  "\<exists>s :: kmem. vm_inv 0x200000 s 0x203000 [0x201000, 0x200000] \<and>
     (\<forall>b. \<not> present (pte_of (pmem s) 0x203000 b))"
proof -
  obtain s :: kmem where s: "free_list 0x200000 s [0x201000, 0x200000]"
    using kmem_two_pages by blast
  let ?s = "s\<lparr>pmem := memset (pmem s) 0x203000 0 PGSIZE\<rparr>"
  have al: "page_aligned 0x203000" "page_aligned 0x201000" "page_aligned 0x200000"
    by (simp_all add: page_aligned_def PGSIZE_def)
  have "free_list 0x200000 ?s [0x201000, 0x200000]"
    using s al by (subst free_list_same_page) (auto intro!: same_page_memset)
  moreover have z: "pde_of (pmem ?s) 0x203000 i = 0" if "i < 1024" for i
    using load_zero_page [OF that] by (simp add: pde_of_def)
  have n: "\<not> present 0" by (simp add: present_def)
  have "pgdir_ok 0x200000 (pmem ?s) 0x203000 [0x201000, 0x200000]"
    unfolding pgdir_ok_def using z n al by (auto simp: page_ok_def PHYSTOP_def)
  moreover have "\<not> present (pte_of (pmem ?s) 0x203000 b)" for b
    using z [OF PDX_less] n by (simp add: pte_of_def)
  ultimately show ?thesis by (intro exI [of _ ?s]) (simp add: vm_inv_def)
qed


text \<open>\<open>allocuvm\<close> ignores a failure of \<open>mappages\<close>. With one page left and no table for the
  address, the call returns the new size as for success, although the page is not mapped and the
  page it took is lost: it is neither free nor reachable from the directory.\<close>

theorem allocuvm_ignores_failure:
  fixes s :: "'a kmem_scheme"
  assumes "vm_inv kend s pgdir [p]" and "\<not> present (pde_of (pmem s) pgdir 0)"
  shows "\<exists>s'. allocuvm kend pgdir 0 PGSIZE s = Inr (PGSIZE, s') \<and> \<not> present (pte_of (pmem s') pgdir 0) \<and>
    free_list kend s' [] \<and> p \<notin> tables (pmem s') pgdir"
proof -
  from assms(1) have fl: "free_list kend s [p]" and ok: "pgdir_ok kend (pmem s) pgdir [p]"
    by (simp_all add: vm_inv_def)
  from fl obtain s1 where s1: "kalloc s = Inr (p, s1)" "free_list kend s1 []"
    using kalloc_free_list_Cons by blast
  have q: "quiet s" using fl by (simp add: free_list_def)
  have pm: "pmem s1 = pmem s" using s1(1) by (auto simp: kalloc_eq q split: if_splits)
  let ?s2 = "s1\<lparr>pmem := memset (pmem s) p 0 PGSIZE\<rparr>"
  have p: "page_aligned p" "p \<noteq> 0" using free_list_pages [OF fl] by (auto simp: page_ok_def)
  have same: "same_page (pmem s) (memset (pmem s) p 0 PGSIZE) pgdir"
    using p ok by (intro same_page_memset) (auto simp: pgdir_ok_def page_ok_def)
  have pde: "pde_of (pmem ?s2) pgdir i = pde_of (pmem s) pgdir i" if "i < 1024" for i
    using load_same_page [OF same that] by (simp add: pde_of_def)
  have fl2: "free_list kend ?s2 []"
    using s1(2) by (simp add: free_list_def)
  have z: "PDX 0 = 0" "PGROUNDDOWN 0 = 0" "PGROUNDDOWN (PGSIZE - 1) = 0" "PGROUNDUP 0 = 0"
    by (simp_all add: PDX_def PGROUNDDOWN_def PGROUNDUP_def PGSIZE_def)
  have np: "\<not> present (pde_of (pmem ?s2) pgdir 0)" using pde [of 0] assms(2) by simp
  then have "walkpgdir pgdir 0 True ?s2 = Inr (0, ?s2)"
    using kalloc_free_list_Nil [OF fl2] by (simp add: walkpgdir_def z present_def pde_of_def Let_def)
  then have m: "mappages pgdir 0 PGSIZE p (PTE_W OR PTE_U) ?s2 = Inr (- 1, ?s2)"
    by (simp add: mappages_def z)
  have r: "allocuvm kend pgdir 0 PGSIZE s = Inr (PGSIZE, ?s2)"
  proof -
    have "unat PGSIZE div 4096 + 2 = Suc (Suc (Suc 0))" "\<not> USERTOP < PGSIZE" "0 < PGSIZE"
      by (simp_all add: PGSIZE_def USERTOP_def)
    with s1 p(2) m show ?thesis by (simp add: allocuvm_def z pm Let_def del: mult_0_right)
  qed
  have "p \<notin> tables (pmem ?s2) pgdir"
    using pgdir_okD(4) [OF ok] pde by (auto simp: tables_def)
  with r fl2 np show ?thesis by (auto simp: pte_of_def z present_def)
qed


lemma vm_example_one:
  "\<exists>s :: kmem. vm_inv 0x200000 s 0x203000 [0x200000] \<and> \<not> present (pde_of (pmem s) 0x203000 0)"
proof -
  obtain s :: kmem where s: "free_list 0x200000 s [0x200000]"
    using kfree_free_list [OF free_list_kmem0 page_ok_examples(1)] by auto
  let ?s = "s\<lparr>pmem := memset (pmem s) 0x203000 0 PGSIZE\<rparr>"
  have al: "page_aligned 0x203000" "page_aligned 0x200000"
    by (simp_all add: page_aligned_def PGSIZE_def)
  have "free_list 0x200000 ?s [0x200000]"
    using s al by (subst free_list_same_page) (auto intro!: same_page_memset)
  moreover have z: "pde_of (pmem ?s) 0x203000 i = 0" if "i < 1024" for i
    using load_zero_page [OF that] by (simp add: pde_of_def)
  have n: "\<not> present 0" by (simp add: present_def)
  have "pgdir_ok 0x200000 (pmem ?s) 0x203000 [0x200000]"
    unfolding pgdir_ok_def using z n al by (auto simp: page_ok_def PHYSTOP_def)
  ultimately show ?thesis using z [of 0] n by (intro exI [of _ ?s]) (simp add: vm_inv_def)
qed

theorem allocuvm_ignores_failure_witness:
  "\<exists>(s :: kmem) s'. allocuvm 0x200000 0x203000 0 PGSIZE s = Inr (PGSIZE, s') \<and>
    \<not> present (pte_of (pmem s') 0x203000 0) \<and> free_list 0x200000 s' [] \<and>
    0x200000 \<notin> tables (pmem s') 0x203000"
  using vm_example_one allocuvm_ignores_failure by blast

end
