(* ===== verification/Sched.thy ===== *)
theory Sched
  imports Vm
begin

text \<open>
  The scheduler (\<open>scheduler\<close> of \<^verbatim>\<open>proc.c\<close>) and the life of processes on several CPUs.

  The body of the scheduler's loop is cut at \<open>swtch\<close>: \<open>scheduler_switch\<close> leads into process \<open>i\<close>,
  \<open>scheduler_return\<close> follows when a process has switched back. A process that switched away
  continues as its \<open>resume\<close> value says. The step relation \<open>sched_step\<close> composes these parts into
  the critical sections of \<open>ptable.lock\<close>; sections are atomic by the mutual exclusion of spin locks.
  Each step is executed by some CPU \<open>c\<close> (\<open>on c\<close>).
\<close>

section \<open>Switching\<close>

definition sti :: "'a machine_scheme \<Rightarrow> 'a machine_scheme" where
  "sti s = set_cpu ((mycpu s)\<lparr>ifl := True\<rparr>) s"

definition scheduler_switch :: "(nat \<Rightarrow> uint) \<Rightarrow> nat \<Rightarrow> 'a vmstate_scheme \<Rightarrow> 'a vmstate_scheme res" where
  "scheduler_switch ts_addr i s =
     (let s = set_myproc (Some i) s in
      andThen (switchuvm ts_addr i s) (\<lambda>s.
      Inr (upd_proc i (\<lambda>p. p\<lparr>p_state := RUNNING\<rparr>) s)))"

definition scheduler_return :: "'a vmstate_scheme \<Rightarrow> 'a vmstate_scheme" where
  "scheduler_return s = set_myproc None (switchkvm s)"

text \<open>The scan of the scheduler's loop: the slots it switches to in one pass, in table order, when
  the processes it runs do not change the state of later slots.\<close>

primrec scheduler_scan :: "nat \<Rightarrow> proc list \<Rightarrow> nat list" where
  "scheduler_scan i [] = []"
| "scheduler_scan i (p # ps) =
     (if p_state p \<noteq> RUNNABLE then scheduler_scan (Suc i) ps else i # scheduler_scan (Suc i) ps)"

section \<open>Critical sections\<close>

datatype resume = R_forkret | R_yield bool | R_sleep lockid bool

definition resume_proc :: "resume \<Rightarrow> 'a vmstate_scheme \<Rightarrow> 'a vmstate_scheme res" where
  "resume_proc r s =
     (case r of
        R_forkret \<Rightarrow> forkret s
      | R_yield saved \<Rightarrow> yield_resume saved s
      | R_sleep l saved \<Rightarrow> andThen (sleep_resume l saved s) (\<lambda>s. release l s))"

definition dispatch :: "(nat \<Rightarrow> uint) \<Rightarrow> nat \<Rightarrow> resume \<Rightarrow> 'a vmstate_scheme \<Rightarrow> 'a vmstate_scheme res" where
  "dispatch ts_addr i r s =
     andThen (acquire L_ptable (sti s)) (\<lambda>s.
     andThen (scheduler_switch ts_addr i s) (\<lambda>s. resume_proc r s))"

definition back_in_scheduler :: "bool \<times> 'a vmstate_scheme \<Rightarrow> (bool \<times> 'a vmstate_scheme) res" where
  "back_in_scheduler r =
     (let (saved, s) = r in
      andThen (release L_ptable (scheduler_return s)) (\<lambda>s. Inr (saved, s)))"

definition yield_section :: "'a vmstate_scheme \<Rightarrow> (bool \<times> 'a vmstate_scheme) res" where
  "yield_section s = andThen (yield_switch s) back_in_scheduler"

definition sleep_section :: "chan \<Rightarrow> lockid \<Rightarrow> 'a vmstate_scheme \<Rightarrow> (bool \<times> 'a vmstate_scheme) res" where
  "sleep_section ch l s =
     andThen (acquire l s) (\<lambda>s. andThen (sleep_switch ch (Some l) s) back_in_scheduler)"

text \<open>The part of \<open>exit\<close> under \<open>ptable.lock\<close>: the parent is woken, the children pass to
  \<open>initproc\<close>, and the process becomes a zombie and enters the scheduler for good. The channel of a
  process is its slot; nobody sleeps on the null pointer.\<close>

definition wakeup_proc :: "nat option \<Rightarrow> 'a ptab_scheme \<Rightarrow> 'a ptab_scheme" where
  "wakeup_proc p s = (case p of None \<Rightarrow> s | Some i \<Rightarrow> wakeup1 (Chan ''proc'' i) s)"

primrec reparent :: "nat \<Rightarrow> nat \<Rightarrow> nat \<Rightarrow> 'a ptab_scheme \<Rightarrow> 'a ptab_scheme" where
  "reparent 0 me i s = s"
| "reparent (Suc k) me i s =
     (let s = (if p_parent (procs s ! i) = Some me
               then
                 let s = upd_proc i (\<lambda>p. p\<lparr>p_parent := initproc s\<rparr>) s in
                 if p_state (procs s ! i) = ZOMBIE then wakeup_proc (initproc s) s else s
               else s)
      in reparent k me (Suc i) s)"

definition exit_switch :: "'a ptab_scheme \<Rightarrow> (bool \<times> 'a ptab_scheme) res" where
  "exit_switch s =
     (case myproc s of
        None \<Rightarrow> Inl (Wild ''proc'')
      | Some i \<Rightarrow>
          let s = wakeup_proc (p_parent (procs s ! i)) s;
              s = reparent (length (procs s)) i 0 s
          in sched (upd_proc i (\<lambda>p. p\<lparr>p_state := ZOMBIE\<rparr>) s))"

definition exit_section :: "'a vmstate_scheme \<Rightarrow> (bool \<times> 'a vmstate_scheme) res" where
  "exit_section s = andThen (acquire L_ptable s) (\<lambda>s. andThen (exit_switch s) back_in_scheduler)"

section \<open>Several CPUs\<close>

definition on :: "nat \<Rightarrow> 'a machine_scheme \<Rightarrow> 'a machine_scheme" where
  "on c s = s\<lparr>cur := c\<rparr>"

inductive sched_step ::
  "(nat \<Rightarrow> uint) \<Rightarrow> uint \<Rightarrow> uint \<Rightarrow> vmstate \<times> (nat \<Rightarrow> resume) \<Rightarrow> vmstate \<times> (nat \<Rightarrow> resume) \<Rightarrow> bool"
  for ts_addr trapret forkret_addr where
  run: "curproc s c = None \<Longrightarrow> i < length (procs s) \<Longrightarrow> p_state (procs s ! i) = RUNNABLE \<Longrightarrow>
    dispatch ts_addr i (ctl i) (on c s) = Inr s' \<Longrightarrow>
    sched_step ts_addr trapret forkret_addr (s, ctl) (s', ctl)"
| yield: "curproc s c = Some i \<Longrightarrow> yield_section (on c s) = Inr (saved, s') \<Longrightarrow>
    sched_step ts_addr trapret forkret_addr (s, ctl) (s', ctl(i := R_yield saved))"
| sleep: "curproc s c = Some i \<Longrightarrow> sleep_section ch l (on c s) = Inr (saved, s') \<Longrightarrow>
    sched_step ts_addr trapret forkret_addr (s, ctl) (s', ctl(i := R_sleep l saved))"
| exit: "curproc s c = Some i \<Longrightarrow> exit_section (on c s) = Inr (saved, s') \<Longrightarrow>
    sched_step ts_addr trapret forkret_addr (s, ctl) (s', ctl)"
| wakeup: "wakeup ch (on c s) = Inr s' \<Longrightarrow>
    sched_step ts_addr trapret forkret_addr (s, ctl) (s', ctl)"
| kill: "kill pid (on c s) = Inr (r, s') \<Longrightarrow>
    sched_step ts_addr trapret forkret_addr (s, ctl) (s', ctl)"
| spawn: "allocproc trapret forkret_addr (on c s) = Inr (Some j, s1) \<Longrightarrow> d \<noteq> 0 \<Longrightarrow>
    s' = upd_proc j (\<lambda>p. p\<lparr>p_pgdir := d, p_state := RUNNABLE\<rparr>) s1 \<Longrightarrow>
    sched_step ts_addr trapret forkret_addr (s, ctl) (s', ctl(j := R_forkret))"

inductive sched_reach ::
  "(nat \<Rightarrow> uint) \<Rightarrow> uint \<Rightarrow> uint \<Rightarrow> vmstate \<times> (nat \<Rightarrow> resume) \<Rightarrow> bool"
  for ts_addr trapret forkret_addr where
  boot: "(\<And>c. curproc s c = None) \<Longrightarrow> (\<And>c. ncli (cpus s c) = 0 \<and> intena (cpus s c) = ifl (cpus s c)) \<Longrightarrow>
    (\<And>l. free_lock l s) \<Longrightarrow> (\<And>p. p \<in> set (procs s) \<Longrightarrow> p_state p = UNUSED) \<Longrightarrow>
    sched_reach ts_addr trapret forkret_addr (s, \<lambda>_. R_forkret)"
| more: "sched_reach ts_addr trapret forkret_addr x \<Longrightarrow>
    sched_step ts_addr trapret forkret_addr x y \<Longrightarrow> sched_reach ts_addr trapret forkret_addr y"

section \<open>Invariant\<close>

definition calm :: "'a machine_scheme \<Rightarrow> bool" where
  "calm s \<longleftrightarrow> (\<forall>l. free_lock l s) \<and> (\<forall>c. ncli (cpus s c) = 0 \<and> intena (cpus s c) = ifl (cpus s c))"

definition runnable_state :: "procstate \<Rightarrow> bool" where
  "runnable_state st \<longleftrightarrow> st = RUNNABLE \<or> st = SLEEPING \<or> st = RUNNING"

definition procs_inv :: "(nat \<Rightarrow> nat option) \<Rightarrow> proc list \<Rightarrow> bool" where
  "procs_inv cp ps \<longleftrightarrow>
     (\<forall>c i. cp c = Some i \<longrightarrow> i < length ps \<and> p_state (ps ! i) = RUNNING) \<and>
     (\<forall>i < length ps. p_state (ps ! i) = RUNNING \<longrightarrow> (\<exists>c. cp c = Some i)) \<and>
     (\<forall>c d i. cp c = Some i \<longrightarrow> cp d = Some i \<longrightarrow> c = d) \<and>
     (\<forall>i < length ps. runnable_state (p_state (ps ! i)) \<longrightarrow> p_pgdir (ps ! i) \<noteq> 0)"

definition sched_inv :: "vmstate \<times> (nat \<Rightarrow> resume) \<Rightarrow> bool" where
  "sched_inv x \<longleftrightarrow> calm (fst x) \<and> procs_inv (curproc (fst x)) (procs (fst x))"

section \<open>The sections from a calm state\<close>

lemma calm_on [simp]: "calm (on c s) = calm s"
  by (simp add: calm_def on_def free_lock_def)

lemma calm_quiet: "calm s \<Longrightarrow> quiet s"
  by (simp add: calm_def quiet_def cpu_ok_def mycpu_def)

lemma on_sel [simp]: "cur (on c s) = c" "cpus (on c s) = cpus s" "locks (on c s) = locks s"
  by (simp_all add: on_def)

lemma on_ptab [simp]: "procs (on c s) = procs s" "curproc (on c s) = curproc s"
  by (simp_all add: on_def)

lemma vm_entered [simp]:
  "gdt (entered l s) = gdt s" "cr3 (entered l s) = cr3 s" "kpgdir (entered l s) = kpgdir s"
  "(entered l s)\<lparr>cr3 := x\<rparr> = entered l (s\<lparr>cr3 := x\<rparr>)"
  by (simp_all add: entered_def lock_defs)

lemma scheduler_return_entered [simp]: "scheduler_return (entered l s) = entered l (scheduler_return s)"
  by (simp add: scheduler_return_def switchkvm_def lcr3_def set_myproc_def)

lemma scheduler_return_frame [simp]:
  "procs (scheduler_return s) = procs s" "curproc (scheduler_return s) = (curproc s)(cur s := None)"
  "calm (scheduler_return s) = calm s" "cur (scheduler_return s) = cur s"
  by (simp_all add: scheduler_return_def switchkvm_def lcr3_def set_myproc_def calm_def free_lock_def)

lemma calm_upd_proc [simp]: "calm (upd_proc i f s) = calm s"
  by (simp add: calm_def)

lemma calm_free [simp]: "calm s \<Longrightarrow> free_lock l s" and calm_cpu_ok [simp]: "calm s \<Longrightarrow> cpu_ok s"
  by (simp_all add: calm_def cpu_ok_def mycpu_def)

lemma sched_entered:
  assumes "calm s" and "myproc s = Some i" and "p_state (procs s ! i) \<noteq> RUNNING"
  shows "sched (entered L_ptable s) = Inr (ifl (mycpu s), entered L_ptable s)"
  using assms by (simp add: sched_def calm_def) (simp add: entered_def lock_defs)

lemma release_outer:
  assumes "calm s" and "l \<noteq> l'"
  shows "release l (entered l' (entered l s)) = Inr (entered l' s)"
  using assms
  by (auto simp: release_def entered_def calm_def free_lock_def lock_defs fun_eq_iff
      intro!: machine.equality spinlock.equality)

lemma back_entered:
  "calm s \<Longrightarrow> back_in_scheduler (saved, entered L_ptable s) = Inr (saved, scheduler_return s)"
  by (simp add: back_in_scheduler_def)

lemma yield_section_eq:
  assumes "calm s" and "myproc s = Some i" and "i < length (procs s)"
  shows "yield_section s =
    Inr (ifl (mycpu s), scheduler_return (upd_proc i (\<lambda>p. p\<lparr>p_state := RUNNABLE\<rparr>) s))"
  using assms by (simp add: yield_section_def yield_switch_def sched_entered back_entered)

text \<open>Waking and adoption change states from \<open>SLEEPING\<close> to \<open>RUNNABLE\<close> at most, and no page table.\<close>

definition revives :: "proc list \<Rightarrow> proc list \<Rightarrow> bool" where
  "revives ps qs \<longleftrightarrow>
     length qs = length ps \<and>
     (\<forall>i < length ps. p_pgdir (qs ! i) = p_pgdir (ps ! i) \<and>
        (p_state (qs ! i) = p_state (ps ! i) \<or> p_state (ps ! i) = SLEEPING \<and> p_state (qs ! i) = RUNNABLE))"

lemma revives_refl [simp]: "revives ps ps"
  by (simp add: revives_def)

lemma revives_trans: "revives ps qs \<Longrightarrow> revives qs rs \<Longrightarrow> revives ps rs"
  by (auto simp: revives_def) (metis procstate.distinct)+

lemma revives_wake: "revives ps (map (wake ch) ps)"
  by (auto simp: revives_def wake_def)

lemma wakeup_proc_eq: "\<exists>ps. wakeup_proc q s = s\<lparr>procs := ps\<rparr> \<and> revives (procs s) ps"
proof (cases q)
  case None
  then show ?thesis by (auto simp: wakeup_proc_def intro: exI [of _ "procs s"])
next
  case (Some i)
  then show ?thesis
    using revives_wake [of "procs s" "Chan ''proc'' i"] by (auto simp: wakeup_proc_def wakeup1_def)
qed

lemma reparent_eq: "\<exists>ps. reparent k me i s = s\<lparr>procs := ps\<rparr> \<and> revives (procs s) ps"
proof (induction k arbitrary: i s)
  case 0
  show ?case by (auto intro: exI [of _ "procs s"])
next
  case (Suc k)
  let ?s1 = "upd_proc i (\<lambda>p. p\<lparr>p_parent := initproc s\<rparr>) s"
  let ?s2 = "if p_parent (procs s ! i) = Some me
    then (if p_state (procs ?s1 ! i) = ZOMBIE then wakeup_proc (initproc ?s1) ?s1 else ?s1) else s"
  have 1: "revives (procs s) (procs ?s1)"
    by (cases "i < length (procs s)") (auto simp: revives_def upd_proc_def nth_list_update list_update_beyond)
  have "\<exists>ps. ?s2 = s\<lparr>procs := ps\<rparr> \<and> revives (procs s) ps"
    using wakeup_proc_eq [of "initproc ?s1" ?s1] 1 revives_trans [OF 1]
    by (auto simp: upd_proc_def intro: exI [of _ "procs s"])
  then obtain ps where ps: "?s2 = s\<lparr>procs := ps\<rparr>" "revives (procs s) ps" by blast
  have "reparent (Suc k) me i s = reparent k me (Suc i) ?s2" by (simp add: Let_def)
  with Suc.IH [of "Suc i" "s\<lparr>procs := ps\<rparr>"] ps show ?case
    by (auto intro: revives_trans)
qed

lemma calm_procs [simp]: "calm (s\<lparr>procs := ps\<rparr>) = calm s"
  by (simp add: calm_def free_lock_def)

lemma wakeup_proc_entered [simp]: "wakeup_proc q (entered l s) = entered l (wakeup_proc q s)"
  by (simp add: wakeup_proc_def wakeup1_def split: option.split)

lemma reparent_entered [simp]: "reparent k me i (entered l s) = entered l (reparent k me i s)"
  by (induction k arbitrary: i s) (simp_all add: Let_def)

lemma exit_section_eq:
  assumes "calm s" and "myproc s = Some i" and "i < length (procs s)"
  shows "\<exists>ps. exit_section s =
    Inr (ifl (mycpu s), scheduler_return (upd_proc i (\<lambda>p. p\<lparr>p_state := ZOMBIE\<rparr>) (s\<lparr>procs := ps\<rparr>))) \<and>
    revives (procs s) ps"
proof -
  obtain ps where ps: "wakeup_proc (p_parent (procs s ! i)) s = s\<lparr>procs := ps\<rparr>" "revives (procs s) ps"
    using wakeup_proc_eq by blast
  obtain qs where qs: "reparent (length ps) i 0 (s\<lparr>procs := ps\<rparr>) = s\<lparr>procs := qs\<rparr>" "revives ps qs"
    using reparent_eq [of "length ps" i 0 "s\<lparr>procs := ps\<rparr>"] by auto
  have r: "revives (procs s) qs" by (rule revives_trans [OF ps(2) qs(2)])
  then have len: "i < length qs" using assms(3) by (simp add: revives_def)
  have "exit_section s = Inr (ifl (mycpu s), scheduler_return (upd_proc i (\<lambda>p. p\<lparr>p_state := ZOMBIE\<rparr>) (s\<lparr>procs := qs\<rparr>)))"
    using assms len
    by (simp add: exit_section_def exit_switch_def ps qs Let_def back_entered)
      (subst sched_entered [where i = i], simp_all add: back_entered myproc_def mycpu_def upd_proc_def)
  with r show ?thesis by blast
qed

lemma sleep_section_eq:
  assumes "calm s" and "myproc s = Some i" and "i < length (procs s)"
  shows "sleep_section ch l s =
    Inr (ifl (mycpu s), scheduler_return (upd_proc i (\<lambda>p. p\<lparr>p_state := SLEEPING\<rparr>)
      (upd_proc i (\<lambda>p. p\<lparr>p_chan := Some ch\<rparr>) s)))"
  using assms
  by (cases "l = L_ptable")
    (simp_all add: sleep_section_def sleep_switch_def sched_entered back_entered release_outer Let_def)

text \<open>\<open>switchuvm\<close> changes registers only.\<close>

lemma switchuvm_regs:
  assumes "0 < ncli (mycpu s)" and "\<not> ifl (mycpu s)" and "myproc s = Some i"
    and "p_pgdir (procs s ! p) \<noteq> 0"
  shows "\<exists>g a b t r. switchuvm ts_addr p s = Inr (s\<lparr>gdt := g, ts_ss0 := a, ts_esp0 := b, tr := t, cr3 := r\<rparr>)"
  using assms
  by (auto simp: switchuvm_def set_seg_def lcr3_def myproc_def lock_defs
      intro!: exI machine.equality)

text \<open>A CPU that holds exactly \<open>ptable.lock\<close>, the others being outside of critical sections.\<close>

definition in_ptable :: "'a machine_scheme \<Rightarrow> bool" where
  "in_ptable s \<longleftrightarrow>
     (\<forall>l. l \<noteq> L_ptable \<longrightarrow> free_lock l s) \<and> holding L_ptable s \<and>
     ncli (mycpu s) = 1 \<and> \<not> ifl (mycpu s) \<and>
     (\<forall>c. c \<noteq> cur s \<longrightarrow> ncli (cpus s c) = 0 \<and> intena (cpus s c) = ifl (cpus s c))"

lemma release_in_ptable:
  "in_ptable s \<Longrightarrow> \<exists>x y. release L_ptable s = Inr (s\<lparr>cpus := x, locks := y\<rparr>) \<and> calm (s\<lparr>cpus := x, locks := y\<rparr>)"
  by (cases "intena (mycpu s)")
    (auto simp: in_ptable_def release_def calm_def free_lock_def lock_defs
      intro!: exI machine.equality)

lemma in_ptable_frame [simp]:
  "in_ptable (upd_proc i f s) = in_ptable s" "in_ptable (sched_resume saved s) = in_ptable s"
  by (auto simp: in_ptable_def sched_resume_def free_lock_def lock_defs)

lemma sched_resume_sel [simp]:
  "procs (sched_resume saved s) = procs s" "curproc (sched_resume saved s) = curproc s"
  "myproc (sched_resume saved s) = myproc s" "cur (sched_resume saved s) = cur s"
  by (simp_all add: sched_resume_def set_cpu_def myproc_def)

lemma resume_calm:
  assumes "in_ptable s" and "myproc s = Some i" and "i < length (procs s)"
  shows "\<exists>s' p. resume_proc r s = Inr s' \<and> calm s' \<and> curproc s' = curproc s \<and>
    procs s' = (procs s)[i := p] \<and> p_state p = p_state (procs s ! i) \<and> p_pgdir p = p_pgdir (procs s ! i)"
proof (cases r)
  case R_forkret
  with release_in_ptable [OF assms(1)] show ?thesis
    by (auto simp: resume_proc_def forkret_def intro!: exI [of _ "procs s ! i"])
next
  case (R_yield saved)
  with release_in_ptable [of "sched_resume saved s"] assms(1) show ?thesis
    by (auto simp: resume_proc_def yield_resume_def intro!: exI [of _ "procs s ! i"])
next
  case (R_sleep l saved)
  let ?p = "(procs s ! i)\<lparr>p_chan := None\<rparr>"
  let ?s1 = "upd_proc i (\<lambda>p. p\<lparr>p_chan := None\<rparr>) (sched_resume saved s)"
  from release_in_ptable [of ?s1] assms(1) obtain x y where
    rel: "release L_ptable ?s1 = Inr (?s1\<lparr>cpus := x, locks := y\<rparr>)" "calm (?s1\<lparr>cpus := x, locks := y\<rparr>)"
    by auto
  then have "resume_proc r s = Inr (?s1\<lparr>cpus := x, locks := y\<rparr>)"
    using R_sleep assms(2) by (cases "l = L_ptable") (simp_all add: resume_proc_def sleep_resume_def Let_def)
  with rel(2) show ?thesis by (auto intro!: exI [of _ ?p])
qed

lemma dispatch_calm:
  assumes "calm s" and "i < length (procs s)" and "p_pgdir (procs s ! i) \<noteq> 0"
  shows "\<exists>s' p. dispatch ts_addr i r s = Inr s' \<and> calm s' \<and> curproc s' = (curproc s)(cur s := Some i) \<and>
    procs s' = (procs s)[i := p] \<and> p_state p = RUNNING \<and> p_pgdir p = p_pgdir (procs s ! i)"
proof -
  let ?s1 = "set_myproc (Some i) (entered L_ptable (sti s))"
  have acq: "acquire L_ptable (sti s) = Inr (entered L_ptable (sti s))"
    using assms(1) by (simp add: sti_def set_cpu_def calm_def free_lock_def)
  have "0 < ncli (mycpu ?s1)" "\<not> ifl (mycpu ?s1)" "myproc ?s1 = Some i" "p_pgdir (procs ?s1 ! i) \<noteq> 0"
    using assms by (simp_all add: set_myproc_def entered_def sti_def calm_def myproc_def lock_defs)
  from switchuvm_regs [OF this, of ts_addr]
  obtain g a b t u where sw: "scheduler_switch ts_addr i (entered L_ptable (sti s)) =
    Inr (upd_proc i (\<lambda>p. p\<lparr>p_state := RUNNING\<rparr>) (?s1\<lparr>gdt := g, ts_ss0 := a, ts_esp0 := b, tr := t, cr3 := u\<rparr>))"
    (is "_ = Inr ?s2") by (auto simp: scheduler_switch_def Let_def)
  have run: "dispatch ts_addr i r s = resume_proc r ?s2"
    by (simp add: dispatch_def acq sw)
  have "in_ptable ?s2"
    using assms(1) by (auto simp: in_ptable_def calm_def free_lock_def set_myproc_def entered_def sti_def
        upd_proc_def lock_defs)
  moreover have "myproc ?s2 = Some i" "i < length (procs ?s2)"
    using assms(2) by (simp_all add: set_myproc_def sti_def set_cpu_def myproc_def)
  ultimately obtain s' p where "resume_proc r ?s2 = Inr s'" "calm s'" "curproc s' = curproc ?s2"
    "procs s' = (procs ?s2)[i := p]" "p_state p = p_state (procs ?s2 ! i)" "p_pgdir p = p_pgdir (procs ?s2 ! i)"
    using resume_calm [of ?s2 i r] by blast
  with run assms(2) show ?thesis
    by (auto simp: set_myproc_def sti_def set_cpu_def intro!: exI [of _ s'] exI [of _ p])
qed

section \<open>Preservation\<close>

lemma procs_invD:
  assumes "procs_inv cp ps"
  shows "cp c = Some i \<Longrightarrow> i < length ps" "cp c = Some i \<Longrightarrow> p_state (ps ! i) = RUNNING"
    "i < length ps \<Longrightarrow> p_state (ps ! i) = RUNNING \<Longrightarrow> \<exists>c. cp c = Some i"
    "cp c = Some i \<Longrightarrow> cp d = Some i \<Longrightarrow> c = d"
    "i < length ps \<Longrightarrow> runnable_state (p_state (ps ! i)) \<Longrightarrow> p_pgdir (ps ! i) \<noteq> 0"
  using assms by (auto simp: procs_inv_def)

lemma procs_invI:
  assumes "\<And>c i. cp c = Some i \<Longrightarrow> i < length ps \<and> p_state (ps ! i) = RUNNING"
    and "\<And>i. i < length ps \<Longrightarrow> p_state (ps ! i) = RUNNING \<Longrightarrow> \<exists>c. cp c = Some i"
    and "\<And>c d i. cp c = Some i \<Longrightarrow> cp d = Some i \<Longrightarrow> c = d"
    and "\<And>i. i < length ps \<Longrightarrow> runnable_state (p_state (ps ! i)) \<Longrightarrow> p_pgdir (ps ! i) \<noteq> 0"
  shows "procs_inv cp ps"
  using assms unfolding procs_inv_def by simp

lemma procs_inv_leave:
  assumes inv: "procs_inv cp ps" and "cp c = Some i" and "p_state p \<noteq> RUNNING"
    and "p_pgdir p = p_pgdir (ps ! i)"
  shows "procs_inv (cp(c := None)) (ps[i := p])"
proof (rule procs_invI)
  fix d j assume d: "(cp(c := None)) d = Some j"
  then have "cp d = Some j" "d \<noteq> c" by (auto split: if_splits)
  moreover from this have "j \<noteq> i" using procs_invD(4) [OF inv assms(2), of d] by auto
  ultimately show "j < length (ps[i := p]) \<and> p_state (ps[i := p] ! j) = RUNNING"
    using procs_invD(1,2) [OF inv, of d j] by simp
next
  fix j assume j: "j < length (ps[i := p])" "p_state (ps[i := p] ! j) = RUNNING"
  with assms(3) have ne: "j \<noteq> i" by auto
  with j procs_invD(3) [OF inv, of j] obtain d where d: "cp d = Some j" by auto
  with ne assms(2) have "d \<noteq> c" by auto
  with d show "\<exists>d. (cp(c := None)) d = Some j" by auto
next
  fix d e j assume "(cp(c := None)) d = Some j" "(cp(c := None)) e = Some j"
  then show "d = e" using procs_invD(4) [OF inv, of d j e] by (simp split: if_splits)
next
  fix j assume j: "j < length (ps[i := p])" "runnable_state (p_state (ps[i := p] ! j))"
  have "runnable_state (p_state (ps ! i))" "i < length ps"
    using procs_invD(1,2) [OF inv assms(2)] by (simp_all add: runnable_state_def)
  with j procs_invD(5) [OF inv] assms(4) show "p_pgdir (ps[i := p] ! j) \<noteq> 0"
    by (cases "j = i") simp_all
qed

lemma procs_inv_enter:
  assumes inv: "procs_inv cp ps" and "i < length ps" and "p_state (ps ! i) = RUNNABLE" and "cp c = None"
    and "p_state p = RUNNING" and "p_pgdir p = p_pgdir (ps ! i)"
  shows "procs_inv (cp(c := Some i)) (ps[i := p])"
proof (rule procs_invI)
  have ni: "cp d \<noteq> Some i" for d using procs_invD(2) [OF inv, of d i] assms(3) by auto
  show "j < length (ps[i := p]) \<and> p_state (ps[i := p] ! j) = RUNNING"
    if d: "(cp(c := Some i)) d = Some j" for d j
  proof (cases "d = c")
    case False
    with d procs_invD(1,2) [OF inv, of d j] ni [of d] show ?thesis by (cases "j = i") simp_all
  qed (use d assms in auto)
  show "d = e" if "(cp(c := Some i)) d = Some j" "(cp(c := Some i)) e = Some j" for d e j
    using that procs_invD(4) [OF inv, of d j e] ni by (auto split: if_splits)
next
  fix j assume j: "j < length (ps[i := p])" "p_state (ps[i := p] ! j) = RUNNING"
  show "\<exists>d. (cp(c := Some i)) d = Some j"
  proof (cases "j = i")
    case False
    with j procs_invD(3) [OF inv, of j] obtain d where "cp d = Some j" by auto
    with assms(4) show ?thesis by (intro exI [of _ d]) auto
  qed auto
next
  fix j assume "j < length (ps[i := p])" "runnable_state (p_state (ps[i := p] ! j))"
  with procs_invD(5) [OF inv, of j] assms(2,3,6) procs_invD(5) [OF inv, of i]
  show "p_pgdir (ps[i := p] ! j) \<noteq> 0"
    by (cases "j = i") (simp_all add: runnable_state_def)
qed

lemma procs_inv_same:
  assumes "procs_inv cp ps" and "length ps' = length ps"
    and "\<And>i. i < length ps \<Longrightarrow> p_state (ps' ! i) = RUNNING \<longleftrightarrow> p_state (ps ! i) = RUNNING"
    and "\<And>i. i < length ps \<Longrightarrow> runnable_state (p_state (ps' ! i)) \<Longrightarrow> p_pgdir (ps' ! i) \<noteq> 0"
  shows "procs_inv cp ps'"
  using assms unfolding procs_inv_def by auto

lemma kill_calm:
  assumes "calm s" and "kill pid s = Inr (r, s')"
  shows "calm s' \<and> curproc s' = curproc s \<and> (procs s' = procs s \<or>
    (\<exists>i p. i < length (procs s) \<and> procs s' = (procs s)[i := p] \<and> p_pgdir p = p_pgdir (procs s ! i) \<and>
      (p_state p = p_state (procs s ! i) \<or> p_state (procs s ! i) = SLEEPING \<and> p_state p = RUNNABLE)))"
proof (cases "scan_procs (\<lambda>p. p_pid p = pid) 0 (procs s)")
  case None
  with assms show ?thesis by (auto simp: kill_def)
next
  case (Some i)
  with scan_procs_Some [OF Some] have lt: "i < length (procs s)" by simp
  from Some lt assms show ?thesis
    by (auto simp: kill_def Let_def intro!: exI [of _ i] split: if_splits)
qed

lemma procs_inv_update:
  assumes inv: "procs_inv cp ps" and "i < length ps"
    and "p_state p = RUNNING \<longleftrightarrow> p_state (ps ! i) = RUNNING"
    and "runnable_state (p_state p) \<Longrightarrow> p_pgdir p \<noteq> 0"
  shows "procs_inv cp (ps[i := p])"
proof (rule procs_inv_same [OF inv])
  fix j assume j: "j < length ps"
  show "p_state (ps[i := p] ! j) = RUNNING \<longleftrightarrow> p_state (ps ! j) = RUNNING"
    using j assms(3) by (cases "i = j") simp_all
  show "p_pgdir (ps[i := p] ! j) \<noteq> 0" if "runnable_state (p_state (ps[i := p] ! j))"
    using that j assms(4) procs_invD(5) [OF inv j] by (cases "i = j") simp_all
qed simp

lemma procs_inv_revives: "procs_inv cp ps \<Longrightarrow> revives ps qs \<Longrightarrow> procs_inv cp qs"
  by (rule procs_inv_same, assumption) (auto simp: revives_def runnable_state_def, (metis procs_invD(5) runnable_state_def)+)

lemma sched_inv_step:
  assumes "sched_step ts t f x y" and "sched_inv x"
  shows "sched_inv y"
  using assms
proof (induction rule: sched_step.induct)
  case (run s c i ctl s')
  then have calm: "calm (on c s)" and inv: "procs_inv (curproc s) (procs s)" by (simp_all add: sched_inv_def)
  have "p_pgdir (procs s ! i) \<noteq> 0"
    using procs_invD(5) [OF inv run(2)] run(3) by (simp add: runnable_state_def)
  with dispatch_calm [OF calm, of i ts "ctl i"] run obtain p where
    "calm s'" "curproc s' = (curproc s)(c := Some i)" "procs s' = (procs s)[i := p]" "p_state p = RUNNING"
    "p_pgdir p = p_pgdir (procs s ! i)" by auto
  with procs_inv_enter [OF inv run(2,3,1)] show ?case by (simp add: sched_inv_def)
next
  case (yield s c i saved s' ctl)
  then have calm: "calm (on c s)" and inv: "procs_inv (curproc s) (procs s)" by (simp_all add: sched_inv_def)
  have lt: "i < length (procs s)" using procs_invD(1) [OF inv] yield(1) by blast
  have "myproc (on c s) = Some i" using yield(1) by (simp add: myproc_def)
  with yield_section_eq [OF calm] lt yield(2)
  have "s' = scheduler_return (upd_proc i (\<lambda>p. p\<lparr>p_state := RUNNABLE\<rparr>) (on c s))" by simp
  with calm procs_inv_leave [OF inv yield(1), of "(procs s ! i)\<lparr>p_state := RUNNABLE\<rparr>"] show ?case
    by (simp add: sched_inv_def)
next
  case (sleep s c i ch l saved s' ctl)
  then have calm: "calm (on c s)" and inv: "procs_inv (curproc s) (procs s)" by (simp_all add: sched_inv_def)
  have lt: "i < length (procs s)" using procs_invD(1) [OF inv] sleep(1) by blast
  have "myproc (on c s) = Some i" using sleep(1) by (simp add: myproc_def)
  with sleep_section_eq [OF calm] lt sleep(2)
  have "s' = scheduler_return (upd_proc i (\<lambda>p. p\<lparr>p_state := SLEEPING\<rparr>) (upd_proc i (\<lambda>p. p\<lparr>p_chan := Some ch\<rparr>) (on c s)))"
    by simp
  with calm lt procs_inv_leave [OF inv sleep(1), of "(procs s ! i)\<lparr>p_chan := Some ch, p_state := SLEEPING\<rparr>"]
  show ?case by (simp add: sched_inv_def)
next
  case (exit s c i saved s' ctl)
  then have calm: "calm (on c s)" and inv: "procs_inv (curproc s) (procs s)" by (simp_all add: sched_inv_def)
  have lt: "i < length (procs s)" using procs_invD(1) [OF inv] exit(1) by blast
  have "myproc (on c s) = Some i" using exit(1) by (simp add: myproc_def)
  with exit_section_eq [OF calm] lt exit(2) obtain ps where
    s': "s' = scheduler_return (upd_proc i (\<lambda>p. p\<lparr>p_state := ZOMBIE\<rparr>) ((on c s)\<lparr>procs := ps\<rparr>))"
    and r: "revives (procs s) ps" by auto
  with calm procs_inv_leave [OF procs_inv_revives [OF inv r] exit(1), of "(ps ! i)\<lparr>p_state := ZOMBIE\<rparr>"]
  show ?case by (simp add: sched_inv_def)
next
  case (wakeup ch c s s' ctl)
  then have calm: "calm (on c s)" and inv: "procs_inv (curproc s) (procs s)" by (simp_all add: sched_inv_def)
  from wakeup(1) calm have s': "s' = wakeup1 ch (on c s)" by (simp add: wakeup_eq)
  have "procs_inv (curproc s) (map (wake ch) (procs s))"
    by (rule procs_inv_same [OF inv])
      (use procs_invD(5) [OF inv] in \<open>auto simp: wake_def runnable_state_def split: if_splits\<close>)
  with calm show ?case by (simp add: sched_inv_def s' wakeup1_def calm_def free_lock_def)
next
  case (kill pid c s r s' ctl)
  then have calm: "calm (on c s)" and inv: "procs_inv (curproc s) (procs s)" by (simp_all add: sched_inv_def)
  have "procs_inv (curproc s) ((procs s)[i := p])"
    if "i < length (procs s)" "p_pgdir p = p_pgdir (procs s ! i)"
      "p_state p = p_state (procs s ! i) \<or> p_state (procs s ! i) = SLEEPING \<and> p_state p = RUNNABLE" for i p
    using that procs_invD(5) [OF inv that(1)]
    by (intro procs_inv_update [OF inv that(1)]) (auto simp: runnable_state_def)
  with kill_calm [OF calm kill(1)] inv show ?case by (auto simp: sched_inv_def)
next
  case (spawn c s j s1 d s' ctl)
  then have calm: "calm (on c s)" and inv: "procs_inv (curproc s) (procs s)" by (simp_all add: sched_inv_def)
  note a = allocproc_spec [OF calm_quiet [OF calm] spawn(1)]
  then obtain p where p: "procs s1 = (procs s)[j := p]" by auto
  have "calm s1" using calm a(3,4) by (simp add: calm_def free_lock_def)
  with a p procs_inv_update [OF inv, of j "p\<lparr>p_pgdir := d, p_state := RUNNABLE\<rparr>"] spawn(2) show ?case
    by (simp add: sched_inv_def spawn(3))
qed

lemma sched_inv_reach: "sched_reach ts t f x \<Longrightarrow> sched_inv x"
proof (induction rule: sched_reach.induct)
  case (boot s)
  then have "calm s" by (simp add: calm_def)
  moreover have "procs_inv (curproc s) (procs s)"
    by (rule procs_invI) (use boot in \<open>auto simp: runnable_state_def dest!: nth_mem\<close>)
  ultimately show ?case by (simp add: sched_inv_def)
qed (blast intro: sched_inv_step)


text \<open>C3: the scheduler runs a process on at most one CPU. In every reachable state the processes
  in state \<open>RUNNING\<close> are exactly those that are current on some CPU, and no process is current on two.\<close>

theorem scheduler_exclusive:
  assumes "sched_reach ts t f (s, ctl)"
  shows "(\<forall>c i. curproc s c = Some i \<longrightarrow> i < length (procs s) \<and> p_state (procs s ! i) = RUNNING) \<and>
    (\<forall>i < length (procs s). p_state (procs s ! i) = RUNNING \<longrightarrow> (\<exists>!c. curproc s c = Some i))"
proof -
  have inv: "procs_inv (curproc s) (procs s)"
    using sched_inv_reach [OF assms] by (simp add: sched_inv_def)
  show ?thesis
    using procs_invD(1,2) [OF inv] procs_invD(3,4) [OF inv] by blast
qed

text \<open>C18: none of the panics on the switching paths (\<open>sched\<close>, \<open>sleep\<close>, \<open>switchuvm\<close>,
  \<open>acquire\<close>, \<open>release\<close>, \<open>popcli\<close>) fires: in every reachable state, the current process of a CPU
  can yield, go to sleep under any lock and exit, and an idle CPU can run any runnable process to the
  point where it has left the kernel's scheduler lock again.\<close>

theorem switching_never_panics:
  assumes "sched_reach ts t f (s, ctl)"
  shows "(curproc s c = Some i \<longrightarrow>
      (\<exists>b s'. yield_section (on c s) = Inr (b, s')) \<and>
      (\<exists>b s'. sleep_section ch l (on c s) = Inr (b, s')) \<and>
      (\<exists>b s'. exit_section (on c s) = Inr (b, s'))) \<and>
    (curproc s c = None \<longrightarrow> i < length (procs s) \<longrightarrow> p_state (procs s ! i) = RUNNABLE \<longrightarrow>
      (\<exists>s'. dispatch ts i r (on c s) = Inr s'))"
proof -
  have calm: "calm (on c s)" and inv: "procs_inv (curproc s) (procs s)"
    using sched_inv_reach [OF assms] by (simp_all add: sched_inv_def)
  have "myproc (on c s) = curproc s c" by (simp add: myproc_def)
  moreover have "p_pgdir (procs s ! i) \<noteq> 0" if "i < length (procs s)" "p_state (procs s ! i) = RUNNABLE"
    using procs_invD(5) [OF inv that(1)] that(2) by (simp add: runnable_state_def)
  ultimately show ?thesis
    using calm procs_invD(1) [OF inv, of c i] dispatch_calm [OF calm, of i ts r] exit_section_eq [OF calm, of i]
    by (auto simp: yield_section_eq sleep_section_eq)
qed

section \<open>A process that has been started\<close>

definition unused_proc :: proc where
  "unused_proc = \<lparr>p_sz = 0, p_pgdir = 0, p_kstack = 0, p_state = UNUSED, p_pid = 0, p_parent = None, p_tf = 0,
     p_context = 0, p_chan = None, p_killed = False, p_ofile = replicate NOFILE None, p_cwd = None,
     p_name = replicate 16 0\<rparr>"

definition boot_vm :: vmstate where
  "boot_vm = \<lparr>cpus = (\<lambda>_. \<lparr>ncli = 0, intena = True, ifl = True\<rparr>), cur = 0,
     locks = (\<lambda>_. \<lparr>lk_locked = 0, lk_name = ''lock'', lk_cpu = None\<rparr>),
     pmem = (\<lambda>_. 0), freelist = 0x200000, procs = replicate NPROC unused_proc, nextpid = 1,
     curproc = (\<lambda>_. None), initproc = None, kpgdir = 0x300000, cr0 = (\<lambda>_. 0), cr3 = (\<lambda>_. 0),
     gdt = (\<lambda>_ _. SEG 0 0 0 0), gdtr = (\<lambda>_. False), gs = (\<lambda>_. 0), tr = (\<lambda>_. 0), ts_ss0 = (\<lambda>_. 0),
     ts_esp0 = (\<lambda>_. 0)\<rparr>"

lemma reach_boot_vm: "sched_reach ts t f (boot_vm, \<lambda>_. R_forkret)"
  by (rule sched_reach.boot) (auto simp: boot_vm_def free_lock_def unused_proc_def)

lemma reach_running: "\<exists>s ctl. sched_reach ts t f (s, ctl) \<and> curproc s 3 = Some 0"
proof -
  have calm: "calm boot_vm" and inv: "procs_inv (curproc boot_vm) (procs boot_vm)"
    using sched_inv_reach [OF reach_boot_vm] by (simp_all add: sched_inv_def)
  have q: "quiet (on 0 boot_vm)" using calm by (simp add: calm_quiet)
  have sc: "scan_procs (\<lambda>p. p_state p = UNUSED) 0 (procs (on 0 boot_vm)) = Some 0"
    by (simp add: boot_vm_def unused_proc_def NPROC_def numeral_eq_Suc)
  have "nextpid (on 0 boot_vm) \<noteq> int_max" "freelist (on 0 boot_vm) \<noteq> 0"
    by (simp_all add: on_def boot_vm_def int_max_def)
  with allocproc_eq [OF q sc] obtain s1 where s1: "allocproc t f (on 0 boot_vm) = Inr (Some 0, s1)"
    by auto
  let ?s2 = "upd_proc 0 (\<lambda>p. p\<lparr>p_pgdir := 0x400000, p_state := RUNNABLE\<rparr>) s1"
  have r2: "sched_reach ts t f (?s2, \<lambda>_. R_forkret)"
  proof (rule sched_reach.more [OF reach_boot_vm])
    show "sched_step ts t f (boot_vm, \<lambda>_. R_forkret) (?s2, \<lambda>_. R_forkret)"
      using sched_step.spawn [OF s1, of "0x400000" ?s2 ts "\<lambda>_. R_forkret"] by (simp add: fun_upd_idem)
  qed
  note a = allocproc_spec [OF q s1]
  from a(7) have "length (procs s1) = length (procs (on 0 boot_vm))" by (metis length_list_update)
  with a(1) have lt: "0 < length (procs s1)" by linarith
  have idle: "curproc ?s2 3 = None" using a(5) by (simp add: boot_vm_def)
  have "calm (on 3 ?s2)" using sched_inv_reach [OF r2] by (simp add: sched_inv_def)
  then obtain s3 where s3: "dispatch ts 0 R_forkret (on 3 ?s2) = Inr s3" "curproc s3 = (curproc ?s2)(3 := Some 0)"
    using dispatch_calm [of "on 3 ?s2" 0 ts R_forkret] lt by auto
  have "sched_step ts t f (?s2, \<lambda>_. R_forkret) (s3, \<lambda>_. R_forkret)"
    by (rule sched_step.run [OF idle, of 0]) (use lt s3(1) in simp_all)
  with r2 have "sched_reach ts t f (s3, \<lambda>_. R_forkret)" by (rule sched_reach.more)
  with s3(2) show ?thesis by auto
qed

theorem scheduler_exclusive_witness:
  "\<exists>s ctl. sched_reach (\<lambda>_. 0) 1 2 (s, ctl) \<and> curproc s 3 = Some 0 \<and>
    p_state (procs s ! 0) = RUNNING \<and> (\<exists>!c. curproc s c = Some 0)"
proof -
  obtain s ctl where "sched_reach (\<lambda>_. 0) 1 2 (s, ctl)" "curproc s 3 = Some 0"
    using reach_running by blast
  with scheduler_exclusive [of "\<lambda>_. 0" 1 2 s ctl] show ?thesis by blast
qed

theorem switching_never_panics_witness:
  "\<exists>s ctl b s'. sched_reach (\<lambda>_. 0) 1 2 (s, ctl) \<and>
    sleep_section (Chan ''ticks'' 0) L_ticks (on 3 s) = Inr (b, s')"
proof -
  obtain s ctl where "sched_reach (\<lambda>_. 0) 1 2 (s, ctl)" "curproc s 3 = Some 0"
    using reach_running by blast
  with switching_never_panics [of "\<lambda>_. 0" 1 2 s ctl 3 0 "Chan ''ticks'' 0" L_ticks] show ?thesis by blast
qed

text \<open>\<open>kill(0)\<close> succeeds and marks the first unused slot, whose \<open>pid\<close> is 0, as killed;
  \<open>allocproc\<close> does not clear the mark, so the next process born in that slot is already killed.\<close>

theorem kill_zero_poisons:
  "\<exists>s j s'. kill 0 boot_vm = Inr (0, s) \<and> allocproc t f s = Inr (Some j, s') \<and> p_killed (procs s' ! j)"
proof -
  have q: "quiet boot_vm"
    by (rule calm_quiet) (simp add: boot_vm_def calm_def free_lock_def)
  let ?s = "upd_proc 0 (\<lambda>p. p\<lparr>p_killed := True\<rparr>) boot_vm"
  have P: "procs boot_vm = unused_proc # replicate 63 unused_proc"
    by (simp add: boot_vm_def NPROC_def numeral_eq_Suc)
  have k: "kill 0 boot_vm = Inr (0, ?s)"
    using q by (simp add: kill_def P unused_proc_def Let_def)
  have sc: "scan_procs (\<lambda>p. p_state p = UNUSED) 0 (procs ?s) = Some 0"
    by (simp add: P unused_proc_def)
  have "nextpid ?s \<noteq> int_max" "freelist ?s \<noteq> 0" by (simp_all add: boot_vm_def int_max_def)
  with allocproc_eq [of ?s 0 t f] sc q obtain s' where s': "allocproc t f ?s = Inr (Some 0, s')" by auto
  with allocproc_spec [OF _ s'] q obtain p where "procs s' = (procs ?s)[0 := p]" "p_killed p = p_killed (procs ?s ! 0)"
    by auto
  then have "p_killed (procs s' ! 0)" by (simp add: P)
  with k s' show ?thesis by blast
qed

end
