(* ===== verification/Irq.thy ===== *)
theory Irq
  imports Sched
begin

unbundle bit_operations_syntax

text \<open>
  Port output and the interrupt controllers (\<^verbatim>\<open>picirq.c\<close>, \<^verbatim>\<open>ioapic.c\<close>, \<^verbatim>\<open>timer.c\<close>).

  \<open>pio\<close> is the trace of \<open>outb\<close> instructions, the latest first; a device is what it makes of this
  trace. The I/O APIC's indirect registers are a map. \<open>ismp\<close>, \<open>ncpu\<close> and \<open>ioapicid\<close> are the
  variables of \<^verbatim>\<open>mp.c\<close>.

  \<open>pic_step\<close> is the part of the 8259A's data sheet the driver relies on: a write to the command port
  with bit 4 set starts the initialisation sequence, the following writes to the data port are
  ICW2--ICW4, and outside of the sequence the data port is the interrupt mask.
\<close>

section \<open>State\<close>

record irqstate = vmstate +
  pio :: "(ushort \<times> byte) list"
  irqmask :: ushort
  ioapic_regs :: "nat \<Rightarrow> uint"
  ismp :: bool
  ncpu :: nat
  ioapicid :: byte

definition outb :: "ushort \<Rightarrow> byte \<Rightarrow> 'a irqstate_scheme \<Rightarrow> 'a irqstate_scheme" where
  "outb port v s = s\<lparr>pio := (port, v) # pio s\<rparr>"

definition T_IRQ0 :: nat where "T_IRQ0 = 32"
definition IRQ_TIMER :: nat where "IRQ_TIMER = 0"
definition IRQ_KBD :: nat where "IRQ_KBD = 1"
definition IRQ_COM1 :: nat where "IRQ_COM1 = 4"
definition IRQ_ETH :: nat where "IRQ_ETH = 11"
definition IRQ_IDE :: nat where "IRQ_IDE = 14"
definition IRQ_SLAVE :: nat where "IRQ_SLAVE = 2"

definition IO_PIC1 :: ushort where "IO_PIC1 = 0x20"
definition IO_PIC2 :: ushort where "IO_PIC2 = 0xA0"

section \<open>The 8259A driver\<close>

definition irqmask_init :: ushort where
  "irqmask_init = 0xFFFF AND NOT (push_bit IRQ_SLAVE 1)"

definition picsetmask :: "ushort \<Rightarrow> 'a irqstate_scheme \<Rightarrow> 'a irqstate_scheme" where
  "picsetmask msk s =
     (let s = s\<lparr>irqmask := msk\<rparr>;
          s = outb (IO_PIC1 + 1) (ucast msk) s
      in outb (IO_PIC2 + 1) (ucast (drop_bit 8 msk)) s)"

definition picenable :: "nat \<Rightarrow> 'a irqstate_scheme \<Rightarrow> 'a irqstate_scheme" where
  "picenable irq s = picsetmask (irqmask s AND NOT (push_bit irq 1)) s"

definition picinit :: "'a irqstate_scheme \<Rightarrow> 'a irqstate_scheme" where
  "picinit s =
     (let s = outb (IO_PIC1 + 1) 0xFF s;
          s = outb (IO_PIC2 + 1) 0xFF s;
          s = outb IO_PIC1 0x11 s;
          s = outb (IO_PIC1 + 1) (of_nat T_IRQ0) s;
          s = outb (IO_PIC1 + 1) (push_bit IRQ_SLAVE 1) s;
          s = outb (IO_PIC1 + 1) 0x3 s;
          s = outb IO_PIC2 0x11 s;
          s = outb (IO_PIC2 + 1) (of_nat (T_IRQ0 + 8)) s;
          s = outb (IO_PIC2 + 1) (of_nat IRQ_SLAVE) s;
          s = outb (IO_PIC2 + 1) 0x3 s;
          s = outb IO_PIC1 0x68 s;
          s = outb IO_PIC1 0x0a s;
          s = outb IO_PIC2 0x68 s;
          s = outb IO_PIC2 0x0a s
      in if irqmask s \<noteq> 0xFFFF then picsetmask (irqmask s) s else s)"

section \<open>The timer\<close>

definition TIMER_DIV :: "nat \<Rightarrow> nat" where
  "TIMER_DIV x = (1193182 + x div 2) div x"

definition timerinit :: "'a irqstate_scheme \<Rightarrow> 'a irqstate_scheme" where
  "timerinit s =
     (let s = outb (0x40 + 3) (0x00 OR 0x04 OR 0x30) s;
          s = outb 0x40 (of_nat (TIMER_DIV 100 mod 256)) s;
          s = outb 0x40 (of_nat (TIMER_DIV 100 div 256)) s
      in picenable IRQ_TIMER s)"

section \<open>The I/O APIC\<close>

definition REG_ID :: nat where "REG_ID = 0"
definition REG_VER :: nat where "REG_VER = 1"
definition REG_TABLE :: nat where "REG_TABLE = 0x10"
definition INT_DISABLED :: uint where "INT_DISABLED = 0x00010000"

definition ioapicread :: "nat \<Rightarrow> 'a irqstate_scheme \<Rightarrow> uint" where
  "ioapicread reg s = ioapic_regs s reg"

definition ioapicwrite :: "nat \<Rightarrow> uint \<Rightarrow> 'a irqstate_scheme \<Rightarrow> 'a irqstate_scheme" where
  "ioapicwrite reg d s = s\<lparr>ioapic_regs := (ioapic_regs s)(reg := d)\<rparr>"

primrec ioapicinit_loop :: "nat \<Rightarrow> nat \<Rightarrow> 'a irqstate_scheme \<Rightarrow> 'a irqstate_scheme" where
  "ioapicinit_loop 0 i s = s"
| "ioapicinit_loop (Suc n) i s =
     (let s = ioapicwrite (REG_TABLE + 2 * i) (INT_DISABLED OR of_nat (T_IRQ0 + i)) s;
          s = ioapicwrite (REG_TABLE + 2 * i + 1) 0 s
      in ioapicinit_loop n (Suc i) s)"

text \<open>The message for an unexpected identifier is not part of the state.\<close>

definition ioapicinit :: "'a irqstate_scheme \<Rightarrow> 'a irqstate_scheme" where
  "ioapicinit s =
     (if \<not> ismp s then s
      else
        let maxintr = unat (drop_bit 16 (ioapicread REG_VER s) AND 0xFF)
        in ioapicinit_loop (Suc maxintr) 0 s)"

definition ioapicenable :: "nat \<Rightarrow> nat \<Rightarrow> 'a irqstate_scheme \<Rightarrow> 'a irqstate_scheme" where
  "ioapicenable irq cpunum s =
     (if \<not> ismp s then s
      else
        let s = ioapicwrite (REG_TABLE + 2 * irq) (of_nat (T_IRQ0 + irq)) s
        in ioapicwrite (REG_TABLE + 2 * irq + 1) (push_bit 24 (of_nat cpunum)) s)"

section \<open>The 8259A\<close>

record pic =
  pic_icw :: nat
  pic_vector :: byte
  pic_icw3 :: byte
  pic_icw4 :: byte
  pic_imr :: byte

definition pic_step :: "ushort \<Rightarrow> ushort \<times> byte \<Rightarrow> pic \<Rightarrow> pic" where
  "pic_step base w p =
     (let (port, v) = w in
      if port = base then (if bit v 4 then p\<lparr>pic_icw := 2, pic_imr := 0\<rparr> else p)
      else if port = base + 1 then
        (if pic_icw p = 2 then p\<lparr>pic_vector := v, pic_icw := 3\<rparr>
         else if pic_icw p = 3 then p\<lparr>pic_icw3 := v, pic_icw := 4\<rparr>
         else if pic_icw p = 4 then p\<lparr>pic_icw4 := v, pic_icw := 0\<rparr>
         else p\<lparr>pic_imr := v\<rparr>)
      else p)"

definition pic_of :: "ushort \<Rightarrow> (ushort \<times> byte) list \<Rightarrow> pic" where
  "pic_of base out = foldr (pic_step base) out
     \<lparr>pic_icw = 0, pic_vector = 0, pic_icw3 = 0, pic_icw4 = 0, pic_imr = 0\<rparr>"

text \<open>Interrupt \<open>irq\<close> is delivered: its bit in the mask of its controller is clear.\<close>

definition irq_unmasked :: "nat \<Rightarrow> (ushort \<times> byte) list \<Rightarrow> bool" where
  "irq_unmasked irq out =
     (if irq < 8 then \<not> bit (pic_imr (pic_of IO_PIC1 out)) irq
      else \<not> bit (pic_imr (pic_of IO_PIC2 out)) (irq - 8))"

lemma outb_sel [simp]: "pio (outb port v s) = (port, v) # pio s" "irqmask (outb port v s) = irqmask s"
  by (simp_all add: outb_def)

lemma pic_of_Cons: "pic_of base (w # out) = pic_step base w (pic_of base out)"
  by (simp add: pic_of_def)

lemma pic_of_picsetmask:
  assumes "pic_icw (pic_of IO_PIC1 (pio s)) = 0" and "pic_icw (pic_of IO_PIC2 (pio s)) = 0"
  shows "pic_of IO_PIC1 (pio (picsetmask msk s)) = (pic_of IO_PIC1 (pio s))\<lparr>pic_imr := ucast msk\<rparr>"
    and "pic_of IO_PIC2 (pio (picsetmask msk s)) = (pic_of IO_PIC2 (pio s))\<lparr>pic_imr := ucast (drop_bit 8 msk)\<rparr>"
  using assms by (simp_all add: picsetmask_def outb_def pic_of_Cons pic_step_def IO_PIC1_def IO_PIC2_def)

lemma irq_unmasked_picsetmask:
  assumes "pic_icw (pic_of IO_PIC1 (pio s)) = 0" and "pic_icw (pic_of IO_PIC2 (pio s)) = 0" and "irq < 16"
  shows "irq_unmasked irq (pio (picsetmask msk s)) \<longleftrightarrow> \<not> bit msk irq"
  using assms by (auto simp: irq_unmasked_def pic_of_picsetmask bit_simps)

text \<open>After \<open>picinit\<close> both controllers are out of their initialisation sequence with
  vectors 32 and 40 in 8086 mode with automatic end of interrupt, cascaded on line 2, and exactly the
  interrupts whose bit in \<open>irqmask\<close> is clear are delivered; a later \<open>picenable\<close> adds exactly the
  interrupt it names.\<close>

theorem picinit_picenable:
  assumes "pio s = []" and "irqmask s \<noteq> 0xFFFF"
  shows "let s1 = picinit s; m = pic_of IO_PIC1 (pio s1); v = pic_of IO_PIC2 (pio s1) in
    pic_icw m = 0 \<and> pic_vector m = 32 \<and> pic_icw3 m = 4 \<and> pic_icw4 m = 3 \<and>
    pic_icw v = 0 \<and> pic_vector v = 40 \<and> pic_icw3 v = 2 \<and> pic_icw4 v = 3 \<and>
    (\<forall>irq. irq < 16 \<longrightarrow> irq_unmasked irq (pio s1) = (\<not> bit (irqmask s) irq)) \<and>
    (\<forall>n irq. n < 16 \<longrightarrow> irq < 16 \<longrightarrow>
       irq_unmasked irq (pio (picenable n s1)) = (irq = n \<or> irq_unmasked irq (pio s1)))"
proof -
  define s0 where "s0 = outb 0xA0 0x0a (outb 0xA0 0x68 (outb 0x20 0x0a (outb 0x20 0x68 (outb 0xA1 3 (outb 0xA1 2
    (outb 0xA1 40 (outb 0xA0 0x11 (outb 0x21 3 (outb 0x21 4 (outb 0x21 32 (outb 0x20 0x11 (outb 0xA1 0xFF
    (outb 0x21 0xFF s)))))))))))))"
  have k: "irqmask s0 = irqmask s" by (simp add: s0_def)
  have w: "IO_PIC1 + 1 = 0x21" "IO_PIC2 + 1 = 0xA1" "IO_PIC1 = 0x20" "IO_PIC2 = 0xA0"
    "of_nat T_IRQ0 = (32 :: byte)" "of_nat (T_IRQ0 + 8) = (40 :: byte)" "of_nat IRQ_SLAVE = (2 :: byte)"
    "push_bit IRQ_SLAVE 1 = (4 :: byte)"
    by (simp_all add: IO_PIC1_def IO_PIC2_def T_IRQ0_def IRQ_SLAVE_def)
  have s1: "picinit s = picsetmask (irqmask s0) s0"
    unfolding picinit_def Let_def w k using assms(2) by (simp add: s0_def)
  have c: "pic_of IO_PIC1 (pio s0) = \<lparr>pic_icw = 0, pic_vector = 32, pic_icw3 = 4, pic_icw4 = 3, pic_imr = 0\<rparr>"
    "pic_of IO_PIC2 (pio s0) = \<lparr>pic_icw = 0, pic_vector = 40, pic_icw3 = 2, pic_icw4 = 3, pic_imr = 0\<rparr>"
    using assms(1) by (simp_all add: s0_def pic_of_Cons pic_step_def IO_PIC1_def IO_PIC2_def bit_simps)
  have m: "irqmask (picinit s) = irqmask s" by (simp add: s1 picsetmask_def k)
  have i: "pic_icw (pic_of IO_PIC1 (pio (picinit s))) = 0" "pic_icw (pic_of IO_PIC2 (pio (picinit s))) = 0"
    by (simp_all add: s1 pic_of_picsetmask c)
  have u: "irq_unmasked irq (pio (picinit s)) = (\<not> bit (irqmask s) irq)" if "irq < 16" for irq
    unfolding s1 using irq_unmasked_picsetmask [of s0 irq] that c by (simp add: k)
  have e: "irq_unmasked irq (pio (picenable n (picinit s))) = (irq = n \<or> \<not> bit (irqmask s) irq)"
    if "n < 16" "irq < 16" for n irq
    using irq_unmasked_picsetmask [OF i that(2)] that by (auto simp: picenable_def m bit_simps)
  have p: "pic_of IO_PIC1 (pio (picinit s)) = (pic_of IO_PIC1 (pio s0))\<lparr>pic_imr := ucast (irqmask s0)\<rparr>"
    "pic_of IO_PIC2 (pio (picinit s)) = (pic_of IO_PIC2 (pio s0))\<lparr>pic_imr := ucast (drop_bit 8 (irqmask s0))\<rparr>"
    unfolding s1 by (rule pic_of_picsetmask; simp add: c)+
  show ?thesis
    unfolding Let_def p c by (intro conjI allI impI) (simp_all add: u e)
qed

theorem picinit_picenable_witness:
  "irq_unmasked 2 (pio (picinit (vmstate.extend boot_vm
     \<lparr>pio = [], irqmask = irqmask_init, ioapic_regs = (\<lambda>_. 0), ismp = False, ncpu = 1, ioapicid = 0\<rparr>)))"
  (is "irq_unmasked 2 (pio (picinit ?s))")
proof -
  have "pio ?s = []" "irqmask ?s \<noteq> 0xFFFF" "\<not> bit (irqmask ?s) 2"
    by (simp_all add: vmstate.extend_def irqmask_init_def IRQ_SLAVE_def bit_simps)
  with picinit_picenable [of ?s] show ?thesis by (simp add: Let_def)
qed

end
