(* ===== verification/Ide.thy ===== *)
theory Ide
  imports Irq
begin

unbundle bit_operations_syntax

text \<open>
  The disk driver (\<^verbatim>\<open>ide.c\<close>, \<^verbatim>\<open>buf.h\<close>).

  A buffer is named by its index in \<open>bcache.buf\<close>; index \<open>NBUF\<close> is \<open>bcache.head\<close>. The three bits of
  \<open>flags\<close> are three fields. The disk is, per drive, a map from sector numbers to contents; its
  address registers are the latest bytes written to their ports, and its status register is the
  state component \<open>ide_status\<close>, one byte per drive.

  \<open>iderw\<close> sleeps until its request is done. The model lets the disk's interrupts happen at that
  point: \<open>iderw_wait\<close> runs \<open>ideintr\<close> until the buffer is valid and clean, at most once for every
  buffer that can be queued, and is \<open>Sleeps\<close> if the request is not done then.
\<close>

section \<open>State\<close>

record buf =
  b_busy :: bool
  b_valid :: bool
  b_dirty :: bool
  b_dev :: uint
  b_sector :: uint
  b_prev :: nat
  b_next :: nat
  b_qnext :: "nat option"
  b_data :: "byte list"

record diskstate = irqstate +
  disk :: "bool \<Rightarrow> uint \<Rightarrow> byte list"
  ide_status :: "bool \<Rightarrow> byte"
  havedisk1 :: bool
  bufs :: "buf list"
  idequeue :: "nat option"

definition NBUF :: nat where "NBUF = 10"
definition BSIZE :: nat where "BSIZE = 512"

definition upd_buf :: "nat \<Rightarrow> (buf \<Rightarrow> buf) \<Rightarrow> 'a diskstate_scheme \<Rightarrow> 'a diskstate_scheme" where
  "upd_buf b f s = s\<lparr>bufs := (bufs s)[b := f (bufs s ! b)]\<rparr>"

definition IDE_BSY :: byte where "IDE_BSY = 0x80"
definition IDE_DRDY :: byte where "IDE_DRDY = 0x40"
definition IDE_DF :: byte where "IDE_DF = 0x20"
definition IDE_ERR :: byte where "IDE_ERR = 0x01"
definition IDE_CMD_READ :: byte where "IDE_CMD_READ = 0x20"
definition IDE_CMD_WRITE :: byte where "IDE_CMD_WRITE = 0x30"

section \<open>The device\<close>

definition ide_reg :: "ushort \<Rightarrow> 'a irqstate_scheme \<Rightarrow> byte" where
  "ide_reg port s = (case map_of (pio s) port of None \<Rightarrow> 0 | Some v \<Rightarrow> v)"

definition ide_drive :: "'a irqstate_scheme \<Rightarrow> bool" where
  "ide_drive s = bit (ide_reg 0x1f6 s) 4"

definition ide_lba :: "'a irqstate_scheme \<Rightarrow> uint" where
  "ide_lba s = ucast (ide_reg 0x1f3 s) OR push_bit 8 (ucast (ide_reg 0x1f4 s))
     OR push_bit 16 (ucast (ide_reg 0x1f5 s)) OR push_bit 24 (ucast (ide_reg 0x1f6 s AND 0x0f))"

definition ide_insl :: "'a diskstate_scheme \<Rightarrow> byte list" where
  "ide_insl s = disk s (ide_drive s) (ide_lba s)"

definition ide_outsl :: "byte list \<Rightarrow> 'a diskstate_scheme \<Rightarrow> 'a diskstate_scheme" where
  "ide_outsl bs s =
     s\<lparr>disk := (disk s)(ide_drive s := (disk s (ide_drive s))(ide_lba s := bs))\<rparr>"

section \<open>The driver\<close>

definition idewait :: "bool \<Rightarrow> 'a diskstate_scheme \<Rightarrow> int res" where
  "idewait checkerr s =
     (let r = ide_status s (ide_drive s) in
      if r AND (IDE_BSY OR IDE_DRDY) \<noteq> IDE_DRDY then Inl (Spins ''idewait'')
      else if checkerr \<and> r AND (IDE_DF OR IDE_ERR) \<noteq> 0 then Inr (- 1)
      else Inr 0)"

definition ideinit :: "'a diskstate_scheme \<Rightarrow> 'a diskstate_scheme res" where
  "ideinit s =
     (let s = initlock L_ide ''ide'' s;
          s = picenable IRQ_IDE s;
          s = ioapicenable IRQ_IDE (ncpu s - 1) s
      in andThen (idewait False s) (\<lambda>_.
         let s = outb 0x1f6 (0xe0 OR push_bit 4 1) s;
             s = (if ide_status s (ide_drive s) \<noteq> 0 then s\<lparr>havedisk1 := True\<rparr> else s)
         in Inr (outb 0x1f6 (0xe0 OR push_bit 4 0) s)))"

definition idestart :: "nat option \<Rightarrow> 'a diskstate_scheme \<Rightarrow> 'a diskstate_scheme res" where
  "idestart bo s =
     (case bo of
        None \<Rightarrow> Inl (Panic ''idestart'')
      | Some b \<Rightarrow>
          andThen (idewait False s) (\<lambda>_.
          let sector = b_sector (bufs s ! b);
              s = outb 0x3f6 0 s;
              s = outb 0x1f2 1 s;
              s = outb 0x1f3 (ucast (sector AND 0xff)) s;
              s = outb 0x1f4 (ucast (drop_bit 8 sector AND 0xff)) s;
              s = outb 0x1f5 (ucast (drop_bit 16 sector AND 0xff)) s;
              s = outb 0x1f6 (ucast (0xe0 OR push_bit 4 (b_dev (bufs s ! b) AND 1)
                                     OR (drop_bit 24 sector AND 0x0f))) s
          in if b_dirty (bufs s ! b)
             then Inr (ide_outsl (b_data (bufs s ! b)) (outb 0x1f7 IDE_CMD_WRITE s))
             else Inr (outb 0x1f7 IDE_CMD_READ s)))"

definition ideintr :: "'a diskstate_scheme \<Rightarrow> 'a diskstate_scheme res" where
  "ideintr s =
     andThen (acquire L_ide s) (\<lambda>s.
     case idequeue s of
       None \<Rightarrow> release L_ide s
     | Some b \<Rightarrow>
         let s = s\<lparr>idequeue := b_qnext (bufs s ! b)\<rparr> in
         andThen
           (if \<not> b_dirty (bufs s ! b)
            then andThen (idewait True s) (\<lambda>r.
                 if r \<ge> 0 then Inr (upd_buf b (\<lambda>x. x\<lparr>b_data := ide_insl s\<rparr>) s) else Inr s)
            else Inr s) (\<lambda>s.
         let s = upd_buf b (\<lambda>x. x\<lparr>b_valid := True\<rparr>) s;
             s = upd_buf b (\<lambda>x. x\<lparr>b_dirty := False\<rparr>) s
         in andThen (wakeup (Chan ''buf'' b) s) (\<lambda>s.
            andThen (if idequeue s \<noteq> None then idestart (idequeue s) s else Inr s) (\<lambda>s.
            release L_ide s))))"

text \<open>Appending to the queue: the last buffer reached from \<open>q\<close> gets \<open>b\<close> as its successor. The
  queue holds each buffer at most once, which bounds the walk.\<close>

primrec queue_append :: "nat \<Rightarrow> nat \<Rightarrow> nat \<Rightarrow> 'a diskstate_scheme \<Rightarrow> 'a diskstate_scheme res" where
  "queue_append 0 q b s = Inl (Spins ''iderw'')"
| "queue_append (Suc n) q b s =
     (case b_qnext (bufs s ! q) of
        None \<Rightarrow> Inr (upd_buf q (\<lambda>x. x\<lparr>b_qnext := Some b\<rparr>) s)
      | Some q' \<Rightarrow> queue_append n q' b s)"

definition iderw_done :: "nat \<Rightarrow> 'a diskstate_scheme \<Rightarrow> bool" where
  "iderw_done b s \<longleftrightarrow> b_valid (bufs s ! b) \<and> \<not> b_dirty (bufs s ! b)"

primrec iderw_wait :: "nat \<Rightarrow> nat \<Rightarrow> 'a diskstate_scheme \<Rightarrow> 'a diskstate_scheme res" where
  "iderw_wait 0 b s = (if iderw_done b s then Inr s else Inl (Sleeps (Chan ''buf'' b)))"
| "iderw_wait (Suc n) b s =
     (if iderw_done b s then Inr s
      else if myproc s = None then Inl (Panic ''sleep'')
      else andThen (release L_ide s) (\<lambda>s.
           andThen (ideintr s) (\<lambda>s.
           andThen (acquire L_ide s) (\<lambda>s.
           iderw_wait n b s))))"

definition iderw :: "nat \<Rightarrow> 'a diskstate_scheme \<Rightarrow> 'a diskstate_scheme res" where
  "iderw b s =
     (if \<not> b_busy (bufs s ! b) then Inl (Panic ''iderw: buf not busy'')
      else if b_valid (bufs s ! b) \<and> \<not> b_dirty (bufs s ! b) then Inl (Panic ''iderw: nothing to do'')
      else if b_dev (bufs s ! b) \<noteq> 0 \<and> \<not> havedisk1 s then Inl (Panic ''iderw: ide disk 1 not present'')
      else
        andThen (acquire L_ide s) (\<lambda>s.
        let s = upd_buf b (\<lambda>x. x\<lparr>b_qnext := None\<rparr>) s in
        andThen (case idequeue s of
                   None \<Rightarrow> Inr (s\<lparr>idequeue := Some b\<rparr>)
                 | Some q \<Rightarrow> queue_append NBUF q b s) (\<lambda>s.
        andThen (if idequeue s = Some b then idestart (Some b) s else Inr s) (\<lambda>s.
        andThen (iderw_wait NBUF b s) (\<lambda>s.
        release L_ide s)))))"

section \<open>Frame lemmas\<close>

lemma disk_entered [simp]:
  "pio (entered l s) = pio s" "disk (entered l s) = disk s" "ide_status (entered l s) = ide_status s"
  "havedisk1 (entered l s) = havedisk1 s" "bufs (entered l s) = bufs s" "idequeue (entered l s) = idequeue s"
  "(entered l s)\<lparr>pio := a\<rparr> = entered l (s\<lparr>pio := a\<rparr>)"
  "(entered l s)\<lparr>disk := b\<rparr> = entered l (s\<lparr>disk := b\<rparr>)"
  "(entered l s)\<lparr>bufs := c\<rparr> = entered l (s\<lparr>bufs := c\<rparr>)"
  "(entered l s)\<lparr>idequeue := d\<rparr> = entered l (s\<lparr>idequeue := d\<rparr>)"
  by (simp_all add: entered_def lock_defs)

lemma disk_quiet [simp]:
  "quiet (s\<lparr>pio := a\<rparr>) = quiet s" "quiet (s\<lparr>disk := b\<rparr>) = quiet s"
  "quiet (s\<lparr>bufs := c\<rparr>) = quiet s" "quiet (s\<lparr>idequeue := d\<rparr>) = quiet s"
  by (simp_all add: quiet_def cpu_ok_def free_lock_def mycpu_def)

lemma disk_free_lock [simp]:
  "free_lock l (s\<lparr>pio := a\<rparr>) = free_lock l s" "free_lock l (s\<lparr>disk := b\<rparr>) = free_lock l s"
  "free_lock l (s\<lparr>bufs := c\<rparr>) = free_lock l s" "free_lock l (s\<lparr>idequeue := d\<rparr>) = free_lock l s"
  "cpu_ok (s\<lparr>pio := a\<rparr>) = cpu_ok s" "cpu_ok (s\<lparr>disk := b\<rparr>) = cpu_ok s"
  "cpu_ok (s\<lparr>bufs := c\<rparr>) = cpu_ok s" "cpu_ok (s\<lparr>idequeue := d\<rparr>) = cpu_ok s"
  by (simp_all add: free_lock_def cpu_ok_def mycpu_def)

lemma disk_myproc [simp]:
  "myproc (s\<lparr>pio := a\<rparr>) = myproc s" "myproc (s\<lparr>disk := b\<rparr>) = myproc s"
  "myproc (s\<lparr>bufs := c\<rparr>) = myproc s" "myproc (s\<lparr>idequeue := d\<rparr>) = myproc s"
  "myproc (s\<lparr>procs := e\<rparr>) = myproc s"
  by (simp_all add: myproc_def)

section \<open>The address registers\<close>

definition ide_ready :: "'a diskstate_scheme \<Rightarrow> bool" where
  "ide_ready s \<longleftrightarrow> (\<forall>d. ide_status s d AND (IDE_BSY OR IDE_DRDY) = IDE_DRDY \<and>
     ide_status s d AND (IDE_DF OR IDE_ERR) = 0)"

lemma idewait_ready [simp]: "ide_ready s \<Longrightarrow> idewait e s = Inr 0"
  by (simp add: idewait_def ide_ready_def Let_def)

text \<open>The bytes \<open>idestart\<close> writes, the latest first.\<close>

definition ide_request :: "uint \<Rightarrow> uint \<Rightarrow> byte \<Rightarrow> (ushort \<times> byte) list" where
  "ide_request dev sector cmd =
     [(0x1f7, cmd),
      (0x1f6, ucast (0xe0 OR push_bit 4 (dev AND 1) OR (drop_bit 24 sector AND 0x0f))),
      (0x1f5, ucast (drop_bit 16 sector AND 0xff)),
      (0x1f4, ucast (drop_bit 8 sector AND 0xff)),
      (0x1f3, ucast (sector AND 0xff)), (0x1f2, 1), (0x3f6, 0)]"

lemma ide_request_drive:
  "pio s = ide_request dev sector cmd @ tr0 \<Longrightarrow> ide_drive s = odd dev"
proof -
  assume "pio s = ide_request dev sector cmd @ tr0"
  then have "ide_drive s = bit (ucast (0xe0 OR push_bit 4 (dev AND 1) OR (drop_bit 24 sector AND 0x0f)) :: byte) 4"
    by (simp add: ide_drive_def ide_reg_def ide_request_def)
  also have "\<dots> = odd dev"
  proof -
    have m: "(0x0f :: uint) = mask 4" by (simp add: mask_eq_exp_minus_1)
    show ?thesis unfolding m by (simp add: bit_simps bit_0)
  qed
  finally show ?thesis .
qed

lemma ide_drive_byte:
  "(ucast (0xe0 OR push_bit 4 (dev AND 1) OR (drop_bit 24 sector AND 0x0f) :: uint) :: byte) AND 0x0f =
   ucast (take_bit 4 (drop_bit 24 (sector :: uint)))"
proof (rule bit_word_eqI)
  fix k assume "k < LENGTH(8)"
  have m: "(0x0f :: uint) = mask 4" "(0x0f :: byte) = mask 4" "(0xe0 :: uint) = push_bit 5 (mask 3)"
    by (simp_all add: mask_eq_exp_minus_1)
  show "bit ((ucast (0xe0 OR push_bit 4 (dev AND 1) OR (drop_bit 24 sector AND 0x0f) :: uint) :: byte) AND 0x0f) k =
   bit (ucast (take_bit 4 (drop_bit 24 (sector :: uint))) :: byte) k"
    unfolding m by (cases "k < 4") (simp_all add: bit_simps)
qed

lemma ide_request_lba:
  assumes "pio s = ide_request dev sector cmd @ tr0" and "sector < 0x10000000"
  shows "ide_lba s = sector"
proof (rule bit_word_eqI)
  fix n assume n: "n < LENGTH(32)"
  have m: "(0x0f :: uint) = mask 4" "(0xff :: uint) = mask 8"
    by (simp_all add: mask_eq_exp_minus_1)
  have hi: "\<not> bit sector n" if "28 \<le> n"
  proof -
    have "unat sector < 268435456" using assms(2) by (simp add: word_less_nat_alt)
    then have "sector mod 268435456 = sector" by (simp add: word_unat_eq_iff unat_mod)
    then have "sector = take_bit 28 sector" by (simp add: take_bit_eq_mod)
    with that show ?thesis by (metis bit_take_bit_iff not_le)
  qed
  have regs: "ide_lba s = ucast (ucast (sector AND 0xff) :: byte) OR push_bit 8 (ucast (ucast (drop_bit 8 sector AND 0xff) :: byte))
     OR push_bit 16 (ucast (ucast (drop_bit 16 sector AND 0xff) :: byte))
     OR push_bit 24 (ucast (ucast (take_bit 4 (drop_bit 24 sector)) :: byte))"
  proof -
    have "ide_reg 0x1f6 s = ucast (0xe0 OR push_bit 4 (dev AND 1) OR (drop_bit 24 sector AND 0x0f) :: uint)"
      "ide_reg 0x1f5 s = ucast (drop_bit 16 sector AND 0xff)" "ide_reg 0x1f4 s = ucast (drop_bit 8 sector AND 0xff)"
      "ide_reg 0x1f3 s = ucast (sector AND 0xff)"
      using assms(1) by (simp_all add: ide_reg_def ide_request_def)
    then show ?thesis by (simp only: ide_lba_def ide_drive_byte)
  qed
  from n consider "n < 8" | "8 \<le> n" "n < 16" | "16 \<le> n" "n < 24" | "24 \<le> n" "n < 28" | "28 \<le> n" "n < 32"
    by fastforce
  then show "bit (ide_lba s) n = bit sector n"
    unfolding regs m using hi by cases (simp_all add: bit_simps, linarith+)
qed

section \<open>A request\<close>

lemma outb_chain:
  "outb p7 v7 (outb p6 v6 (outb p5 v5 (outb p4 v4 (outb p3 v3 (outb p2 v2 (outb p1 v1 s)))))) =
   s\<lparr>pio := [(p7, v7), (p6, v6), (p5, v5), (p4, v4), (p3, v3), (p2, v2), (p1, v1)] @ pio s\<rparr>"
  by (simp add: outb_def)

lemma outb_frame [simp]:
  "bufs (outb p v s) = bufs s" "disk (outb p v s) = disk s" "idequeue (outb p v s) = idequeue s"
  "ide_status (outb p v s) = ide_status s"
  by (simp_all add: outb_def)

lemma idestart_read:
  assumes "ide_ready s" and "\<not> b_dirty (bufs s ! b)"
  shows "idestart (Some b) s =
    Inr (s\<lparr>pio := ide_request (b_dev (bufs s ! b)) (b_sector (bufs s ! b)) IDE_CMD_READ @ pio s\<rparr>)"
  using assms(2) unfolding idestart_def option.case idewait_ready [OF assms(1)] andThen_Inr Let_def
  by (simp only: outb_frame outb_chain ide_request_def if_False)

lemma idestart_write:
  assumes "ide_ready s" and "b_dirty (bufs s ! b)" and "b_sector (bufs s ! b) < 0x10000000"
  shows "idestart (Some b) s =
    Inr (s\<lparr>pio := ide_request (b_dev (bufs s ! b)) (b_sector (bufs s ! b)) IDE_CMD_WRITE @ pio s,
      disk := (disk s)(odd (b_dev (bufs s ! b)) :=
        (disk s (odd (b_dev (bufs s ! b))))(b_sector (bufs s ! b) := b_data (bufs s ! b)))\<rparr>)"
proof -
  let ?s = "s\<lparr>pio := ide_request (b_dev (bufs s ! b)) (b_sector (bufs s ! b)) IDE_CMD_WRITE @ pio s\<rparr>"
  have p: "pio ?s = ide_request (b_dev (bufs s ! b)) (b_sector (bufs s ! b)) IDE_CMD_WRITE @ pio s" by simp
  have "idestart (Some b) s = Inr (ide_outsl (b_data (bufs s ! b)) ?s)"
    using assms(2) unfolding idestart_def option.case idewait_ready [OF assms(1)] andThen_Inr Let_def
    by (simp only: outb_frame outb_chain ide_request_def if_True)
  then show ?thesis
    by (simp add: ide_outsl_def ide_request_drive [OF p] ide_request_lba [OF p assms(3)])
qed

lemma upd_buf_sel [simp]:
  "procs (upd_buf b f s) = procs s" "pio (upd_buf b f s) = pio s" "disk (upd_buf b f s) = disk s"
  "idequeue (upd_buf b f s) = idequeue s" "ide_status (upd_buf b f s) = ide_status s"
  "bufs (upd_buf b f s) = (bufs s)[b := f (bufs s ! b)]" "havedisk1 (upd_buf b f s) = havedisk1 s"
  "quiet (upd_buf b f s) = quiet s" "free_lock l (upd_buf b f s) = free_lock l s"
  "cpu_ok (upd_buf b f s) = cpu_ok s" "myproc (upd_buf b f s) = myproc s"
  "upd_buf b f (entered l s) = entered l (upd_buf b f s)"
  by (simp_all add: upd_buf_def)

lemma ide_ready_frame [simp]:
  "ide_ready (upd_buf b f s) = ide_ready s" "ide_ready (entered l s) = ide_ready s"
  "ide_ready (s\<lparr>idequeue := q\<rparr>) = ide_ready s" "ide_ready (s\<lparr>pio := p\<rparr>) = ide_ready s"
  "ide_ready (s\<lparr>disk := d\<rparr>) = ide_ready s" "ide_ready (wakeup1 ch s) = ide_ready s"
  "ide_ready (s\<lparr>bufs := x\<rparr>) = ide_ready s" "ide_ready (s\<lparr>procs := y\<rparr>) = ide_ready s"
  by (simp_all add: ide_ready_def wakeup1_def)

text \<open>The interrupt for the only request in the queue.\<close>

lemma ideintr_last:
  assumes "quiet s" and "ide_ready s" and "idequeue s = Some b" and "b_qnext (bufs s ! b) = None"
    and "b < length (bufs s)"
  shows "ideintr s = Inr (s\<lparr>procs := map (wake (Chan ''buf'' b)) (procs s),
    bufs := (bufs s)[b := (bufs s ! b)
      \<lparr>b_data := if b_dirty (bufs s ! b) then b_data (bufs s ! b) else ide_insl s, b_valid := True, b_dirty := False\<rparr>],
    idequeue := None\<rparr>)"
proof -
  have 1: "ide_insl (entered l (s\<lparr>idequeue := q\<rparr>)) = ide_insl s" for l q
    by (simp add: ide_insl_def ide_drive_def ide_lba_def ide_reg_def)
  show ?thesis
  proof (cases "b_dirty (bufs s ! b)")
    case True
    with assms show ?thesis
      by (simp add: ideintr_def Let_def wakeup_eq upd_buf_def wakeup1_def)
  next
    case False
    with assms 1 show ?thesis
      by (simp add: ideintr_def Let_def wakeup_eq upd_buf_def wakeup1_def)
  qed
qed


text \<open>What the disk holds for a buffer's device and sector, and the state after a request of buffer
  \<open>b\<close> from an idle driver: processes waiting for \<open>b\<close> are woken, \<open>b\<close> is valid and clean.\<close>

definition sector_of :: "'a diskstate_scheme \<Rightarrow> uint \<Rightarrow> uint \<Rightarrow> byte list" where
  "sector_of s dev sector = disk s (odd dev) sector"

definition put_sector :: "uint \<Rightarrow> uint \<Rightarrow> byte list \<Rightarrow> (bool \<Rightarrow> uint \<Rightarrow> byte list) \<Rightarrow> bool \<Rightarrow> uint \<Rightarrow> byte list" where
  "put_sector dev sector bs d = d(odd dev := (d (odd dev))(sector := bs))"

definition ide_idle :: "'a diskstate_scheme \<Rightarrow> bool" where
  "ide_idle s \<longleftrightarrow> quiet s \<and> ide_ready s \<and> idequeue s = None \<and> myproc s \<noteq> None"

lemma iderw_read:
  assumes idle: "ide_idle s" and b: "b < length (bufs s)" "b_busy (bufs s ! b)" "\<not> b_valid (bufs s ! b)"
    "\<not> b_dirty (bufs s ! b)" "b_dev (bufs s ! b) = 0 \<or> havedisk1 s" "b_sector (bufs s ! b) < 0x10000000"
  shows "\<exists>p. iderw b s = Inr (s\<lparr>procs := map (wake (Chan ''buf'' b)) (procs s), pio := p,
    bufs := (bufs s)[b := (bufs s ! b)\<lparr>b_qnext := None,
      b_data := sector_of s (b_dev (bufs s ! b)) (b_sector (bufs s ! b)), b_valid := True, b_dirty := False\<rparr>],
    idequeue := None\<rparr>)"
proof -
  let ?r = "ide_request (b_dev (bufs s ! b)) (b_sector (bufs s ! b)) IDE_CMD_READ @ pio s"
  let ?s1 = "(upd_buf b (\<lambda>x. x\<lparr>b_qnext := None\<rparr>) s)\<lparr>idequeue := Some b, pio := ?r\<rparr>"
  have q: "quiet s" "ide_ready s" "idequeue s = None" "myproc s \<noteq> None"
    using idle by (simp_all add: ide_idle_def)
  have p: "pio ?s1 = ide_request (b_dev (bufs s ! b)) (b_sector (bufs s ! b)) IDE_CMD_READ @ pio s" by simp
  have st: "idestart (Some b) (entered L_ide ((upd_buf b (\<lambda>x. x\<lparr>b_qnext := None\<rparr>) s)\<lparr>idequeue := Some b\<rparr>)) =
    Inr (entered L_ide ?s1)"
    using q b by (subst idestart_read) simp_all
  have in1: "ide_insl ?s1 = sector_of s (b_dev (bufs s ! b)) (b_sector (bufs s ! b))"
    by (simp add: ide_insl_def sector_of_def ide_request_drive [OF p] ide_request_lba [OF p b(6)])
  let ?s2 = "s\<lparr>procs := map (wake (Chan ''buf'' b)) (procs s), pio := ?r,
    bufs := (bufs s)[b := (bufs s ! b)\<lparr>b_qnext := None,
      b_data := sector_of s (b_dev (bufs s ! b)) (b_sector (bufs s ! b)), b_valid := True, b_dirty := False\<rparr>],
    idequeue := None\<rparr>"
  have "ideintr ?s1 = Inr ?s2"
  proof (subst ideintr_last)
    show "Inr (?s1\<lparr>procs := map (wake (Chan ''buf'' b)) (procs ?s1), bufs := (bufs ?s1)[b := (bufs ?s1 ! b)
      \<lparr>b_data := if b_dirty (bufs ?s1 ! b) then b_data (bufs ?s1 ! b) else ide_insl ?s1, b_valid := True,
       b_dirty := False\<rparr>], idequeue := None\<rparr>) = Inr ?s2"
      unfolding in1 using q b by (simp add: upd_buf_def)
  qed (use q b in simp_all)
  then have "iderw_wait NBUF b (entered L_ide ?s1) = Inr (entered L_ide ?s2)"
    using q b by (simp add: NBUF_def numeral_eq_Suc iderw_done_def)
  then have "iderw b s = Inr ?s2"
    using q b st by (simp add: iderw_def Let_def)
  then show ?thesis by blast
qed


lemma iderw_write:
  assumes idle: "ide_idle s" and b: "b < length (bufs s)" "b_busy (bufs s ! b)"
    "b_dirty (bufs s ! b)" "b_dev (bufs s ! b) = 0 \<or> havedisk1 s" "b_sector (bufs s ! b) < 0x10000000"
  shows "\<exists>p. iderw b s = Inr (s\<lparr>procs := map (wake (Chan ''buf'' b)) (procs s), pio := p,
    disk := put_sector (b_dev (bufs s ! b)) (b_sector (bufs s ! b)) (b_data (bufs s ! b)) (disk s),
    bufs := (bufs s)[b := (bufs s ! b)\<lparr>b_qnext := None, b_valid := True, b_dirty := False\<rparr>],
    idequeue := None\<rparr>)"
proof -
  let ?r = "ide_request (b_dev (bufs s ! b)) (b_sector (bufs s ! b)) IDE_CMD_WRITE @ pio s"
  let ?d = "put_sector (b_dev (bufs s ! b)) (b_sector (bufs s ! b)) (b_data (bufs s ! b)) (disk s)"
  let ?s1 = "(upd_buf b (\<lambda>x. x\<lparr>b_qnext := None\<rparr>) s)\<lparr>idequeue := Some b, pio := ?r, disk := ?d\<rparr>"
  have q: "quiet s" "ide_ready s" "idequeue s = None" "myproc s \<noteq> None"
    using idle by (simp_all add: ide_idle_def)
  have st: "idestart (Some b) (entered L_ide ((upd_buf b (\<lambda>x. x\<lparr>b_qnext := None\<rparr>) s)\<lparr>idequeue := Some b\<rparr>)) =
    Inr (entered L_ide ?s1)"
    using q b by (subst idestart_write) (simp_all add: put_sector_def)
  let ?s2 = "s\<lparr>procs := map (wake (Chan ''buf'' b)) (procs s), pio := ?r, disk := ?d,
    bufs := (bufs s)[b := (bufs s ! b)\<lparr>b_qnext := None, b_valid := True, b_dirty := False\<rparr>],
    idequeue := None\<rparr>"
  have "ideintr ?s1 = Inr ?s2"
  proof (subst ideintr_last)
    show "Inr (?s1\<lparr>procs := map (wake (Chan ''buf'' b)) (procs ?s1), bufs := (bufs ?s1)[b := (bufs ?s1 ! b)
      \<lparr>b_data := if b_dirty (bufs ?s1 ! b) then b_data (bufs ?s1 ! b) else ide_insl ?s1, b_valid := True,
       b_dirty := False\<rparr>], idequeue := None\<rparr>) = Inr ?s2"
      using q b by (simp add: upd_buf_def)
  qed (use q b in simp_all)
  then have "iderw_wait NBUF b (entered L_ide ?s1) = Inr (entered L_ide ?s2)"
    using q b by (simp add: NBUF_def numeral_eq_Suc iderw_done_def)
  then have "iderw b s = Inr ?s2"
    using q b st by (simp add: iderw_def Let_def)
  then show ?thesis by blast
qed


text \<open>A read that the disk reports as failed is treated as done. \<open>ideintr\<close> skips the transfer
  when \<open>idewait(1)\<close> is negative, but still marks the buffer valid, so \<open>bread\<close> returns whatever the
  buffer held before, for any other sector, as the contents of the requested one.\<close>

theorem ideintr_failed_read_is_valid:
  assumes "quiet s" and "idequeue s = Some b" and "b_qnext (bufs s ! b) = None" and "b < length (bufs s)"
    and "\<not> b_dirty (bufs s ! b)" and "idewait True s = Inr (- 1)"
  shows "\<exists>s'. ideintr s = Inr s' \<and> b_valid (bufs s' ! b) \<and> b_data (bufs s' ! b) = b_data (bufs s ! b)"
proof -
  have "idewait True (entered L_ide (s\<lparr>idequeue := None\<rparr>)) = Inr (- 1)"
    using assms(6) by (simp add: idewait_def ide_drive_def ide_reg_def)
  with assms(1-5) show ?thesis
    by (simp add: ideintr_def Let_def wakeup_eq upd_buf_def wakeup1_def)
qed

end
