(* ===== verification/Bio.thy ===== *)
theory Bio
  imports Ide
begin

unbundle bit_operations_syntax

text \<open>
  The buffer cache (\<^verbatim>\<open>bio.c\<close>): the doubly linked list of buffers in order of use, and the
  routines that hand out, write and take back buffers.

  \<open>lru\<close> reads the list as the sequence of its buffers; \<open>brelse\<close> is move-to-front on it. \<open>held\<close> is
  the client's view: the buffers handed out, with device, sector and contents. The interface
  \<open>block_cache\<close> states what a client may rely on in terms of \<open>held\<close> and the disk, and derives the
  two ways the file system uses the cache, reading a block and updating a block.

  A buffer that is handed out is waited for with \<open>sleep\<close>, which is \<open>Sleeps\<close> here.
\<close>

section \<open>Routines\<close>

primrec binit_loop :: "nat \<Rightarrow> nat \<Rightarrow> 'a diskstate_scheme \<Rightarrow> 'a diskstate_scheme" where
  "binit_loop 0 b s = s"
| "binit_loop (Suc n) b s =
     (let s = upd_buf b (\<lambda>x. x\<lparr>b_next := b_next (bufs s ! NBUF)\<rparr>) s;
          s = upd_buf b (\<lambda>x. x\<lparr>b_prev := NBUF\<rparr>) s;
          s = upd_buf b (\<lambda>x. x\<lparr>b_dev := - 1\<rparr>) s;
          s = upd_buf (b_next (bufs s ! NBUF)) (\<lambda>x. x\<lparr>b_prev := b\<rparr>) s;
          s = upd_buf NBUF (\<lambda>x. x\<lparr>b_next := b\<rparr>) s
      in binit_loop n (Suc b) s)"

definition binit :: "'a diskstate_scheme \<Rightarrow> 'a diskstate_scheme" where
  "binit s =
     (let s = initlock L_bcache ''bcache'' s;
          s = upd_buf NBUF (\<lambda>x. x\<lparr>b_prev := NBUF\<rparr>) s;
          s = upd_buf NBUF (\<lambda>x. x\<lparr>b_next := NBUF\<rparr>) s
      in binit_loop NBUF 0 s)"

text \<open>The two walks of \<open>bget\<close>: from buffer \<open>b\<close> along \<open>next\<close> for a cached block, along \<open>prev\<close> for a
  buffer that is not busy. The list has \<open>NBUF\<close> buffers.\<close>

primrec find_cached :: "nat \<Rightarrow> nat \<Rightarrow> uint \<Rightarrow> uint \<Rightarrow> buf list \<Rightarrow> nat option res" where
  "find_cached 0 b dev sector bs = (if b = NBUF then Inr None else Inl (Spins ''bget''))"
| "find_cached (Suc n) b dev sector bs =
     (if b = NBUF then Inr None
      else if b_dev (bs ! b) = dev \<and> b_sector (bs ! b) = sector then Inr (Some b)
      else find_cached n (b_next (bs ! b)) dev sector bs)"

primrec find_idle :: "nat \<Rightarrow> nat \<Rightarrow> buf list \<Rightarrow> nat option res" where
  "find_idle 0 b bs = (if b = NBUF then Inr None else Inl (Spins ''bget''))"
| "find_idle (Suc n) b bs =
     (if b = NBUF then Inr None
      else if \<not> b_busy (bs ! b) then Inr (Some b)
      else find_idle n (b_prev (bs ! b)) bs)"

definition bget :: "uint \<Rightarrow> uint \<Rightarrow> 'a diskstate_scheme \<Rightarrow> (nat \<times> 'a diskstate_scheme) res" where
  "bget dev sector s =
     andThen (acquire L_bcache s) (\<lambda>s.
     andThen (find_cached NBUF (b_next (bufs s ! NBUF)) dev sector (bufs s)) (\<lambda>c.
     case c of
       Some b \<Rightarrow>
         if \<not> b_busy (bufs s ! b)
         then andThen (release L_bcache (upd_buf b (\<lambda>x. x\<lparr>b_busy := True\<rparr>) s)) (\<lambda>s. Inr (b, s))
         else if myproc s = None then Inl (Panic ''sleep'')
         else Inl (Sleeps (Chan ''buf'' b))
     | None \<Rightarrow>
         andThen (find_idle NBUF (b_prev (bufs s ! NBUF)) (bufs s)) (\<lambda>i.
         case i of
           None \<Rightarrow> Inl (Panic ''bget: no buffers'')
         | Some b \<Rightarrow>
             let s = upd_buf b (\<lambda>x. x\<lparr>b_dev := dev\<rparr>) s;
                 s = upd_buf b (\<lambda>x. x\<lparr>b_sector := sector\<rparr>) s;
                 s = upd_buf b (\<lambda>x. x\<lparr>b_busy := True, b_valid := False, b_dirty := False\<rparr>) s
             in andThen (release L_bcache s) (\<lambda>s. Inr (b, s)))))"

definition bread :: "uint \<Rightarrow> uint \<Rightarrow> 'a diskstate_scheme \<Rightarrow> (nat \<times> 'a diskstate_scheme) res" where
  "bread dev sector s =
     andThen (bget dev sector s) (\<lambda>(b, s).
     andThen (if \<not> b_valid (bufs s ! b) then iderw b s else Inr s) (\<lambda>s.
     Inr (b, s)))"

definition bwrite :: "nat \<Rightarrow> 'a diskstate_scheme \<Rightarrow> 'a diskstate_scheme res" where
  "bwrite b s =
     (if \<not> b_busy (bufs s ! b) then Inl (Panic ''bwrite'')
      else iderw b (upd_buf b (\<lambda>x. x\<lparr>b_dirty := True\<rparr>) s))"

text \<open>The pointer updates of \<open>brelse\<close>.\<close>

definition relink :: "nat \<Rightarrow> buf list \<Rightarrow> buf list" where
  "relink b bs =
     (let n = b_next (bs ! b);
          bs = bs[n := (bs ! n)\<lparr>b_prev := b_prev (bs ! b)\<rparr>];
          p = b_prev (bs ! b);
          bs = bs[p := (bs ! p)\<lparr>b_next := b_next (bs ! b)\<rparr>];
          bs = bs[b := (bs ! b)\<lparr>b_next := b_next (bs ! NBUF)\<rparr>];
          bs = bs[b := (bs ! b)\<lparr>b_prev := NBUF\<rparr>];
          h = b_next (bs ! NBUF);
          bs = bs[h := (bs ! h)\<lparr>b_prev := b\<rparr>]
      in bs[NBUF := (bs ! NBUF)\<lparr>b_next := b\<rparr>])"

definition brelse :: "nat \<Rightarrow> 'a diskstate_scheme \<Rightarrow> 'a diskstate_scheme res" where
  "brelse b s =
     (if \<not> b_busy (bufs s ! b) then Inl (Panic ''brelse'')
      else
        andThen (acquire L_bcache s) (\<lambda>s.
        let s = s\<lparr>bufs := relink b (bufs s)\<rparr>;
            s = upd_buf b (\<lambda>x. x\<lparr>b_busy := False\<rparr>) s
        in andThen (wakeup (Chan ''buf'' b) s) (\<lambda>s.
           release L_bcache s)))"

section \<open>The list of buffers\<close>

fun linked :: "(nat \<Rightarrow> nat) \<Rightarrow> nat \<Rightarrow> nat list \<Rightarrow> nat \<Rightarrow> bool" where
  "linked h x [] y \<longleftrightarrow> h x = y"
| "linked h x (a # as) y \<longleftrightarrow> h x = a \<and> linked h a as y"

lemma linked_append: "linked h x (as @ b # bs) y \<longleftrightarrow> linked h x as b \<and> linked h b bs y"
  by (induction as arbitrary: x) auto

lemma linked_upd [simp]: "u \<notin> insert x (set as) \<Longrightarrow> linked (h(u := v)) x as y = linked h x as y"
  by (induction as arbitrary: x) auto

lemma linked_last: "linked h x as y \<Longrightarrow> h (last (x # as)) = y"
  by (induction as arbitrary: x) auto

lemma linked_snoc_upd:
  "distinct (x # as) \<Longrightarrow> linked h x as y \<Longrightarrow> linked (h(last (x # as) := z)) x as z"
proof (induction as arbitrary: x)
  case (Cons a as)
  define k where "k = last (a # as)"
  have "linked (h(k := z)) a as z" unfolding k_def by (rule Cons.IH) (use Cons.prems in simp_all)
  moreover have "x \<noteq> k" using Cons.prems(1) last_in_set [of "a # as"] by (auto simp: k_def)
  moreover have "last (x # a # as) = k" by (simp add: k_def)
  ultimately show ?case using Cons.prems(2) by (metis fun_upd_other linked.simps(2))
qed simp

lemma linked_start:
  "linked h x as y \<Longrightarrow> h' x' = h x \<Longrightarrow> (\<And>a. a \<in> set as \<Longrightarrow> h' a = h a) \<Longrightarrow> linked h' x' as y"
  by (induction as arbitrary: x x') auto

lemma linked_skip:
  assumes "linked h x us b" and "linked h b vs y" and "distinct (x # us @ b # vs)"
  shows "linked (h(last (x # us) := h b)) x (us @ vs) y"
proof -
  let ?h = "h(last (x # us) := h b)"
  have p: "linked ?h x us (h b)" by (rule linked_snoc_upd [OF _ assms(1)]) (use assms(3) in auto)
  have l: "last (x # us) \<in> insert x (set us)" using last_in_set [of "x # us"] by auto
  show ?thesis
  proof (cases vs)
    case Nil
    with p assms(2) show ?thesis by simp
  next
    case (Cons v ws)
    have "linked ?h v ws y"
      using assms(2,3) l Cons by (subst linked_upd) auto
    with p assms(2) Cons show ?thesis by (simp add: linked_append)
  qed
qed

lemma linked_hd: "linked h x as y \<Longrightarrow> h x = hd (as @ [y])"
  by (cases as) auto

definition lru :: "buf list \<Rightarrow> nat list \<Rightarrow> bool" where
  "lru bs xs \<longleftrightarrow>
     length bs = Suc NBUF \<and> distinct xs \<and> set xs = {..<NBUF} \<and>
     linked (\<lambda>i. b_next (bs ! i)) NBUF xs NBUF \<and> linked (\<lambda>i. b_prev (bs ! i)) NBUF (rev xs) NBUF"


lemma relink_nth:
  assumes "length bs = Suc NBUF" and "b < NBUF" and "b_next (bs ! b) \<le> NBUF" and "b_prev (bs ! b) \<le> NBUF"
    and "b_next (bs ! b) \<noteq> b" and "b_prev (bs ! b) \<noteq> b"
  defines "f \<equiv> (\<lambda>i. b_next (bs ! i))(b_prev (bs ! b) := b_next (bs ! b))"
  defines "g \<equiv> (\<lambda>i. b_prev (bs ! i))(b_next (bs ! b) := b_prev (bs ! b))"
  assumes "f NBUF \<le> NBUF"
  shows "relink b bs ! i = (bs ! i)\<lparr>b_prev := (g(b := NBUF, f NBUF := b)) i, b_next := (f(b := f NBUF, NBUF := b)) i\<rparr>"
    and "length (relink b bs) = Suc NBUF"
proof -
  show "length (relink b bs) = Suc NBUF" using assms(1) by (simp add: relink_def Let_def)
  define n p where "n = b_next (bs ! b)" and "p = b_prev (bs ! b)"
  define b1 where "b1 = bs[n := (bs ! n)\<lparr>b_prev := p\<rparr>]"
  have 1: "b1 ! i = (bs ! i)\<lparr>b_prev := g i\<rparr>" for i
    using assms(1,3) by (simp add: b1_def g_def n_def p_def nth_list_update)
  have p1: "b_prev (b1 ! b) = p" "b_next (b1 ! b) = n"
    using assms(5) by (simp_all add: 1 g_def p_def n_def)
  define b2 where "b2 = b1[p := (b1 ! p)\<lparr>b_next := n\<rparr>]"
  have l: "length b1 = Suc NBUF" "length b2 = Suc NBUF" using assms(1) by (simp_all add: b1_def b2_def)
  have 2: "b2 ! i = (bs ! i)\<lparr>b_prev := g i, b_next := f i\<rparr>" for i
    using l(1) assms(4) by (simp add: b2_def 1 f_def n_def p_def nth_list_update)
  have h: "b_next (b2 ! NBUF) = f NBUF" by (simp add: 2)
  have "relink b bs = b2[b := (b2 ! b)\<lparr>b_next := f NBUF, b_prev := NBUF\<rparr>, f NBUF := (b2[b := (b2 ! b)\<lparr>b_next := f NBUF, b_prev := NBUF\<rparr>] ! f NBUF)\<lparr>b_prev := b\<rparr>,
      NBUF := (b2[b := (b2 ! b)\<lparr>b_next := f NBUF, b_prev := NBUF\<rparr>, f NBUF := (b2[b := (b2 ! b)\<lparr>b_next := f NBUF, b_prev := NBUF\<rparr>] ! f NBUF)\<lparr>b_prev := b\<rparr>] ! NBUF)\<lparr>b_next := b\<rparr>]"
    using assms(2) l by (simp add: relink_def Let_def p1 h flip: n_def p_def b1_def b2_def)
  then show "relink b bs ! i = (bs ! i)\<lparr>b_prev := (g(b := NBUF, f NBUF := b)) i, b_next := (f(b := f NBUF, NBUF := b)) i\<rparr>"
    using assms(2,9) l by (auto simp: nth_list_update 2)
qed


lemma lru_ends:
  assumes "lru bs (us @ b # vs)"
  shows "b < NBUF" "b_next (bs ! b) = hd (vs @ [NBUF])" "b_prev (bs ! b) = last (NBUF # us)"
    "linked (\<lambda>i. b_next (bs ! i)) NBUF us b" "linked (\<lambda>i. b_next (bs ! i)) b vs NBUF"
    "linked (\<lambda>i. b_prev (bs ! i)) NBUF (rev vs) b" "linked (\<lambda>i. b_prev (bs ! i)) b (rev us) NBUF"
    "distinct (NBUF # us @ b # vs)" "\<forall>x\<in>set us \<union> set vs. x < NBUF" "length bs = Suc NBUF"
proof -
  from assms have s: "set (us @ b # vs) = {..<NBUF}" and d: "distinct (us @ b # vs)"
    and p: "linked (\<lambda>i. b_next (bs ! i)) NBUF (us @ b # vs) NBUF"
      "linked (\<lambda>i. b_prev (bs ! i)) NBUF (rev vs @ b # rev us) NBUF"
    by (simp_all add: lru_def)
  from s show b: "b < NBUF" "\<forall>x\<in>set us \<union> set vs. x < NBUF" by auto
  from p show q: "linked (\<lambda>i. b_next (bs ! i)) NBUF us b" "linked (\<lambda>i. b_next (bs ! i)) b vs NBUF"
    "linked (\<lambda>i. b_prev (bs ! i)) NBUF (rev vs) b" "linked (\<lambda>i. b_prev (bs ! i)) b (rev us) NBUF"
    by (simp_all add: linked_append)
  show "b_next (bs ! b) = hd (vs @ [NBUF])" using linked_hd [OF q(2)] .
  show "b_prev (bs ! b) = last (NBUF # us)" using linked_hd [OF q(4)] by (cases us rule: rev_cases) auto
  show "distinct (NBUF # us @ b # vs)" using d b by auto
  show "length bs = Suc NBUF" using assms by (simp add: lru_def)
qed

text \<open>\<open>brelse\<close> moves the buffer to the front.\<close>

lemma lru_relink:
  assumes "lru bs (us @ b # vs)"
  shows "lru (relink b bs) (b # us @ vs)"
    and "\<exists>p n. relink b bs ! i = (bs ! i)\<lparr>b_prev := p, b_next := n\<rparr>"
proof -
  note e = lru_ends [OF assms]
  define f where "f = (\<lambda>i. b_next (bs ! i))(b_prev (bs ! b) := b_next (bs ! b))"
  define g where "g = (\<lambda>i. b_prev (bs ! i))(b_next (bs ! b) := b_prev (bs ! b))"
  have nb: "b_next (bs ! b) \<le> NBUF" "b_next (bs ! b) \<noteq> b" "b_prev (bs ! b) \<le> NBUF" "b_prev (bs ! b) \<noteq> b"
    using e(1,8,9) unfolding e(2,3) by (cases vs; cases us rule: rev_cases; auto)+
  have pf: "linked f NBUF (us @ vs) NBUF"
    using linked_skip [OF e(4,5,8)] by (simp only: f_def e(3))
  have pg: "linked g NBUF (rev vs @ rev us) NBUF"
  proof -
    have "last (NBUF # rev vs) = b_next (bs ! b)" unfolding e(2) by (cases vs) auto
    with linked_skip [OF e(6,7)] e(8) show ?thesis unfolding g_def by (metis distinct.simps(2) distinct_append distinct_rev in_set_conv_decomp rev.simps(2) rev_append set_rev append.assoc append_Cons append_Nil)
  qed
  have fN: "f NBUF = hd (us @ vs @ [NBUF])" using linked_hd [OF pf] by simp
  have fle: "f NBUF \<le> NBUF" using e(9) unfolding fN by (cases us; cases vs) auto
  have fb: "f NBUF \<noteq> b" using e(8) unfolding fN by (cases us; cases vs) auto
  note r = relink_nth [OF e(10,1) nb(1,3,2,4) fle [unfolded f_def], folded f_def g_def]
  show "\<exists>p n. relink b bs ! i = (bs ! i)\<lparr>b_prev := p, b_next := n\<rparr>" using r(1) by blast
  have nx: "(\<lambda>i. b_next (relink b bs ! i)) = f(b := f NBUF, NBUF := b)"
    and pv: "(\<lambda>i. b_prev (relink b bs ! i)) = g(b := NBUF, f NBUF := b)"
    by (simp_all only: r(1) fun_eq_iff) simp_all
  have "linked (f(b := f NBUF, NBUF := b)) b (us @ vs) NBUF"
    by (rule linked_start [OF pf]) (use e(1,8) in auto)
  then have 1: "linked (f(b := f NBUF, NBUF := b)) NBUF (b # us @ vs) NBUF" by simp
  have l: "last (NBUF # rev (us @ vs)) = f NBUF"
    unfolding fN by (cases us; cases vs) auto
  have "linked (g(f NBUF := b)) NBUF (rev (us @ vs)) b"
    using linked_snoc_upd [of NBUF "rev (us @ vs)" g NBUF b] pg e(8) unfolding l by auto
  then have "linked (g(b := NBUF, f NBUF := b)) NBUF (rev (us @ vs)) b"
    using e(1,8) fb by (subst fun_upd_twist) (simp, subst linked_upd, auto)
  then have 2: "linked (g(b := NBUF, f NBUF := b)) NBUF (rev (us @ vs) @ [b]) NBUF"
    using fb by (simp only: linked_append linked.simps fun_upd_apply) simp
  show "lru (relink b bs) (b # us @ vs)"
    unfolding lru_def nx pv using 1 2 r(2) assms by (auto simp: lru_def)
qed


lemma lru_update:
  assumes "lru bs xs" and "b_next x = b_next (bs ! b)" and "b_prev x = b_prev (bs ! b)"
  shows "lru (bs[b := x]) xs"
proof -
  have 1: "b_next (bs[b := x] ! i) = b_next (bs ! i)" for i
    using assms(2) by (cases "b < length bs") (auto simp: nth_list_update not_less list_update_beyond)
  have 2: "b_prev (bs[b := x] ! i) = b_prev (bs ! i)" for i
    using assms(3) by (cases "b < length bs") (auto simp: nth_list_update not_less list_update_beyond)
  show ?thesis using assms(1) unfolding lru_def 1 2 by simp
qed

lemma find_cached_path:
  assumes "linked (\<lambda>i. b_next (bs ! i)) x ws NBUF" and "\<forall>w\<in>set ws. w < NBUF" and "length ws \<le> n"
  shows "find_cached n (hd (ws @ [NBUF])) dev sector bs =
    Inr (find (\<lambda>i. b_dev (bs ! i) = dev \<and> b_sector (bs ! i) = sector) ws)"
  using assms
proof (induction ws arbitrary: x n)
  case Nil
  then show ?case by (cases n) simp_all
next
  case (Cons w ws)
  then obtain m where "n = Suc m" by (cases n) auto
  with Cons.IH [of w m] Cons.prems linked_hd [of _ w ws NBUF] show ?case by auto
qed

lemma find_idle_path:
  assumes "linked (\<lambda>i. b_prev (bs ! i)) x ws NBUF" and "\<forall>w\<in>set ws. w < NBUF" and "length ws \<le> n"
  shows "find_idle n (hd (ws @ [NBUF])) bs = Inr (find (\<lambda>i. \<not> b_busy (bs ! i)) ws)"
  using assms
proof (induction ws arbitrary: x n)
  case Nil
  then show ?case by (cases n) simp_all
next
  case (Cons w ws)
  then obtain m where "n = Suc m" by (cases n) auto
  with Cons.IH [of w m] Cons.prems linked_hd [of _ w ws NBUF] show ?case by auto
qed

lemma lru_find:
  assumes "lru bs xs"
  shows "find_cached NBUF (b_next (bs ! NBUF)) dev sector bs =
      Inr (find (\<lambda>i. b_dev (bs ! i) = dev \<and> b_sector (bs ! i) = sector) xs)"
    and "find_idle NBUF (b_prev (bs ! NBUF)) bs = Inr (find (\<lambda>i. \<not> b_busy (bs ! i)) (rev xs))"
proof -
  have l: "length xs = NBUF"
    using assms distinct_card [of xs] by (simp add: lru_def)
  have p: "linked (\<lambda>i. b_next (bs ! i)) NBUF xs NBUF" "linked (\<lambda>i. b_prev (bs ! i)) NBUF (rev xs) NBUF"
    "\<forall>w\<in>set xs. w < NBUF" using assms by (auto simp: lru_def)
  show "find_cached NBUF (b_next (bs ! NBUF)) dev sector bs =
      Inr (find (\<lambda>i. b_dev (bs ! i) = dev \<and> b_sector (bs ! i) = sector) xs)"
    using find_cached_path [OF p(1,3), of NBUF] l linked_hd [OF p(1)] by simp
  show "find_idle NBUF (b_prev (bs ! NBUF)) bs = Inr (find (\<lambda>i. \<not> b_busy (bs ! i)) (rev xs))"
    using find_idle_path [OF p(2), of NBUF] p(3) l linked_hd [OF p(2)] by simp
qed

section \<open>Invariant and client view\<close>

definition dev_ok :: "'a diskstate_scheme \<Rightarrow> uint \<Rightarrow> bool" where
  "dev_ok s dev \<longleftrightarrow> dev = 0 \<or> dev = 1 \<and> havedisk1 s"

definition buf_ok :: "'a diskstate_scheme \<Rightarrow> buf \<Rightarrow> bool" where
  "buf_ok s x \<longleftrightarrow>
     \<not> b_dirty x \<and> (b_busy x \<longrightarrow> b_valid x) \<and>
     (if b_dev x = - 1 then \<not> b_valid x else dev_ok s (b_dev x) \<and> b_sector x < 0x10000000) \<and>
     (b_valid x \<longrightarrow> \<not> b_busy x \<longrightarrow> b_data x = sector_of s (b_dev x) (b_sector x))"

definition bcache_ok :: "'a diskstate_scheme \<Rightarrow> bool" where
  "bcache_ok s \<longleftrightarrow>
     ide_idle s \<and> (\<exists>xs. lru (bufs s) xs) \<and> (\<forall>i < NBUF. buf_ok s (bufs s ! i)) \<and>
     (\<forall>i < NBUF. \<forall>j < NBUF. b_dev (bufs s ! i) = b_dev (bufs s ! j) \<longrightarrow>
        b_sector (bufs s ! i) = b_sector (bufs s ! j) \<longrightarrow> b_dev (bufs s ! i) \<noteq> - 1 \<longrightarrow> i = j)"

definition held :: "'a diskstate_scheme \<Rightarrow> nat \<rightharpoonup> uint \<times> uint \<times> byte list" where
  "held s b =
     (let x = bufs s ! b in
      if b < NBUF \<and> b_busy x then Some (b_dev x, b_sector x, b_data x) else None)"

text \<open>Processes are at most woken.\<close>

definition woken :: "proc list \<Rightarrow> proc list \<Rightarrow> bool" where
  "woken = list_all2 (\<lambda>p q. q = p \<or> p_state p = SLEEPING \<and> q = p\<lparr>p_state := RUNNABLE\<rparr>)"

lemma woken_refl [simp]: "woken ps ps"
  by (simp add: woken_def list_all2_refl)

lemma woken_trans:
  assumes "woken ps qs" and "woken qs rs"
  shows "woken ps rs"
  unfolding woken_def list_all2_conv_all_nth
proof (intro conjI allI impI)
  show "length ps = length rs" using assms by (simp add: woken_def list_all2_conv_all_nth)
  fix i assume i: "i < length ps"
  have "qs ! i = ps ! i \<or> p_state (ps ! i) = SLEEPING \<and> qs ! i = (ps ! i)\<lparr>p_state := RUNNABLE\<rparr>"
    "rs ! i = qs ! i \<or> p_state (qs ! i) = SLEEPING \<and> rs ! i = (qs ! i)\<lparr>p_state := RUNNABLE\<rparr>"
    using assms i by (simp_all add: woken_def list_all2_conv_all_nth)
  then show "rs ! i = ps ! i \<or> p_state (ps ! i) = SLEEPING \<and> rs ! i = (ps ! i)\<lparr>p_state := RUNNABLE\<rparr>"
    by (elim disjE) simp_all
qed

lemma woken_wake [simp]: "woken ps (map (wake ch) ps)"
  by (auto simp: woken_def wake_def list_all2_conv_all_nth)

definition bstep :: "'a diskstate_scheme \<Rightarrow> 'a diskstate_scheme \<Rightarrow> bool" where
  "bstep s s' \<longleftrightarrow> (\<exists>pr p d bf. s' = s\<lparr>procs := pr, pio := p, disk := d, bufs := bf, idequeue := None\<rparr> \<and>
     woken (procs s) pr)"

lemma bstepI:
  "woken (procs s) pr \<Longrightarrow> bstep s (s\<lparr>procs := pr, pio := p, disk := d, bufs := bf, idequeue := None\<rparr>)"
  unfolding bstep_def by blast

lemma bstep_trans:
  assumes "bstep s s'" and "bstep s' s''"
  shows "bstep s s''"
proof -
  from assms(1) obtain pr p d bf where 1: "s' = s\<lparr>procs := pr, pio := p, disk := d, bufs := bf, idequeue := None\<rparr>"
    "woken (procs s) pr" by (auto simp: bstep_def)
  from assms(2) obtain pr' p' d' bf' where 2: "s'' = s'\<lparr>procs := pr', pio := p', disk := d', bufs := bf', idequeue := None\<rparr>"
    "woken (procs s') pr'" by (auto simp: bstep_def)
  have "woken (procs s) pr'" using 1 2(2) by (auto intro: woken_trans)
  moreover have "s'' = s\<lparr>procs := pr', pio := p', disk := d', bufs := bf', idequeue := None\<rparr>"
    unfolding 2(1) 1(1) by simp
  ultimately show ?thesis by (simp add: bstepI)
qed

lemma bstep_refl:
  assumes "idequeue s = None"
  shows "bstep s s"
proof -
  have "s = s\<lparr>procs := procs s, pio := pio s, disk := disk s, bufs := bufs s, idequeue := idequeue s\<rparr>"
    by simp
  then have "s = s\<lparr>procs := procs s, pio := pio s, disk := disk s, bufs := bufs s, idequeue := None\<rparr>"
    unfolding assms .
  then show ?thesis by (metis bstepI woken_refl)
qed

lemma bcache_ok_idle: "bcache_ok s \<Longrightarrow> ide_idle s" "bcache_ok s \<Longrightarrow> idequeue s = None" "bcache_ok s \<Longrightarrow> quiet s"
  by (simp_all add: bcache_ok_def ide_idle_def)

section \<open>The routines on the client view\<close>

lemma bcache_okD:
  assumes "bcache_ok s" and "i < NBUF"
  shows "buf_ok s (bufs s ! i)" and "length (bufs s) = Suc NBUF"
  using assms by (auto simp: bcache_ok_def lru_def)

lemma bcache_ok_unique:
  assumes "bcache_ok s" and "i < NBUF" and "j < NBUF" and "b_dev (bufs s ! i) = b_dev (bufs s ! j)"
    and "b_sector (bufs s ! i) = b_sector (bufs s ! j)" and "b_dev (bufs s ! i) \<noteq> - 1"
  shows "i = j"
  using assms by (auto simp: bcache_ok_def)

text \<open>Replacing one buffer, with the list intact and the new (device, sector) not cached elsewhere.\<close>

lemma bcache_ok_update:
  assumes ok: "bcache_ok s" and b: "b < NBUF" and x: "b_next x = b_next (bufs s ! b)" "b_prev x = b_prev (bufs s ! b)"
    and s': "s' = s\<lparr>procs := pr, pio := p, disk := d, bufs := (bufs s)[b := x], idequeue := None\<rparr>"
    and xok: "buf_ok s' x"
    and uniq: "\<And>i. i < NBUF \<Longrightarrow> i \<noteq> b \<Longrightarrow> b_dev (bufs s ! i) = b_dev x \<Longrightarrow> b_sector (bufs s ! i) = b_sector x \<Longrightarrow> b_dev x \<noteq> - 1 \<Longrightarrow> False"
    and rest: "\<And>i. i < NBUF \<Longrightarrow> i \<noteq> b \<Longrightarrow> buf_ok s (bufs s ! i) \<Longrightarrow> buf_ok s' (bufs s ! i)"
  shows "bcache_ok s'"
  unfolding bcache_ok_def
proof (intro conjI allI impI)
  note l = bcache_okD(2) [OF ok b]
  show "ide_idle s'" using ok by (simp add: bcache_ok_def ide_idle_def s')
  show "\<exists>xs. lru (bufs s') xs"
    using ok lru_update [OF _ x] by (auto simp: bcache_ok_def s')
  fix i assume i: "i < NBUF"
  show "buf_ok s' (bufs s' ! i)"
    using i b l xok rest [OF i] bcache_okD(1) [OF ok i] by (cases "i = b") (simp_all add: s')
  fix j assume j: "j < NBUF" "b_dev (bufs s' ! i) = b_dev (bufs s' ! j)"
    "b_sector (bufs s' ! i) = b_sector (bufs s' ! j)" "b_dev (bufs s' ! i) \<noteq> - 1"
  show "i = j"
    using i j b l uniq [of i] uniq [of j] bcache_ok_unique [OF ok i j(1)]
    by (cases "i = b"; cases "j = b") (auto simp: s')
qed

text \<open>\<open>bget\<close>: buffer \<open>b\<close>, not busy before, is now busy for the requested sector.\<close>

lemma bget_ok:
  assumes ok: "bcache_ok s" and dev: "dev_ok s dev"
    and free: "\<exists>i < NBUF. \<not> b_busy (bufs s ! i)"
    and nheld: "\<forall>i < NBUF. b_busy (bufs s ! i) \<longrightarrow> \<not> (b_dev (bufs s ! i) = dev \<and> b_sector (bufs s ! i) = n)"
  shows "\<exists>b x. bget dev n s = Inr (b, s\<lparr>bufs := (bufs s)[b := x]\<rparr>) \<and> b < NBUF \<and> \<not> b_busy (bufs s ! b) \<and>
    b_busy x \<and> b_dev x = dev \<and> b_sector x = n \<and> \<not> b_dirty x \<and>
    b_next x = b_next (bufs s ! b) \<and> b_prev x = b_prev (bufs s ! b) \<and>
    (b_valid x \<longrightarrow> b_data x = sector_of s dev n) \<and>
    (\<forall>i < NBUF. i \<noteq> b \<longrightarrow> \<not> (b_dev (bufs s ! i) = dev \<and> b_sector (bufs s ! i) = n))"
proof -
  have q: "quiet s" using bcache_ok_idle(3) [OF ok] .
  obtain xs where xs: "lru (bufs s) xs" using ok by (auto simp: bcache_ok_def)
  then have set: "set xs = {..<NBUF}" by (simp add: lru_def)
  have d1: "dev \<noteq> - 1" using dev by (auto simp: dev_ok_def)
  let ?P = "\<lambda>i. b_dev (bufs s ! i) = dev \<and> b_sector (bufs s ! i) = n"
  note f = lru_find [OF xs]
  show ?thesis
  proof (cases "find ?P xs")
    case None
    then have nc: "\<And>i. i < NBUF \<Longrightarrow> \<not> ?P i" using set by (auto simp: find_None_iff)
    obtain b where b: "find (\<lambda>i. \<not> b_busy (bufs s ! i)) (rev xs) = Some b"
      using free set by (cases "find (\<lambda>i. \<not> b_busy (bufs s ! i)) (rev xs)") (auto simp: find_None_iff)
    then have b': "b < NBUF" "\<not> b_busy (bufs s ! b)"
      using set by (auto simp: find_Some_iff)
        (metis length_rev lessThan_iff nth_mem set_rev)
    let ?x = "(bufs s ! b)\<lparr>b_dev := dev, b_sector := n, b_busy := True, b_valid := False, b_dirty := False\<rparr>"
    have "bget dev n s = Inr (b, s\<lparr>bufs := (bufs s)[b := ?x]\<rparr>)"
      using q f None b bcache_okD(2) [OF ok b'(1)] b'(1) by (simp add: bget_def Let_def upd_buf_def)
    with b' nc show ?thesis by (intro exI [of _ b] exI [of _ ?x]) simp
  next
    case (Some b)
    then have b: "b < NBUF" "?P b"
      using set by (auto simp: find_Some_iff)
    have nb: "\<not> b_busy (bufs s ! b)" using nheld b by blast
    let ?x = "(bufs s ! b)\<lparr>b_busy := True\<rparr>"
    have "bget dev n s = Inr (b, s\<lparr>bufs := (bufs s)[b := ?x]\<rparr>)"
      using q f Some nb by (simp add: bget_def upd_buf_def)
    moreover have "\<not> ?P i" if "i < NBUF" "i \<noteq> b" for i
      using bcache_ok_unique [OF ok that(1) b(1)] that b(2) d1 by auto
    moreover have "b_valid (bufs s ! b) \<longrightarrow> b_data (bufs s ! b) = sector_of s dev n"
      using bcache_okD(1) [OF ok b(1)] nb b(2) by (auto simp: buf_ok_def)
    moreover have "\<not> b_dirty (bufs s ! b)" using bcache_okD(1) [OF ok b(1)] by (simp add: buf_ok_def)
    ultimately show ?thesis using b nb by (intro exI [of _ b] exI [of _ ?x]) simp
  qed
qed


lemma buf_ok_same_disk:
  assumes "buf_ok s x" and "havedisk1 s' = havedisk1 s" and "disk s' = disk s"
  shows "buf_ok s' x"
  using assms by (auto simp: buf_ok_def dev_ok_def sector_of_def split: if_splits)

lemma held_upd:
  assumes "length (bufs s) = Suc NBUF" and "b < NBUF" and "bufs s' = (bufs s)[b := x]" and "b_busy x"
  shows "held s' = (held s)(b \<mapsto> (b_dev x, b_sector x, b_data x))"
  using assms by (auto simp: held_def fun_eq_iff Let_def)

lemma bread_ok:
  assumes ok: "bcache_ok s" and dev: "dev_ok s dev" and n: "n < 0x10000000"
    and free: "\<exists>i < NBUF. held s i = None"
    and nheld: "\<And>i bs. held s i \<noteq> Some (dev, n, bs)"
  shows "\<exists>b s'. bread dev n s = Inr (b, s') \<and> bstep s s' \<and> bcache_ok s' \<and> disk s' = disk s \<and>
    held s b = None \<and> b < NBUF \<and> held s' = (held s)(b \<mapsto> (dev, n, sector_of s dev n))"
proof -
  have f1: "\<exists>i < NBUF. \<not> b_busy (bufs s ! i)" using free by (auto simp: held_def Let_def split: if_splits)
  have f2: "\<forall>i < NBUF. b_busy (bufs s ! i) \<longrightarrow> \<not> (b_dev (bufs s ! i) = dev \<and> b_sector (bufs s ! i) = n)"
  proof (intro allI impI)
    fix i assume "i < NBUF" "b_busy (bufs s ! i)"
    with nheld [of i "b_data (bufs s ! i)"] show "\<not> (b_dev (bufs s ! i) = dev \<and> b_sector (bufs s ! i) = n)"
      by (auto simp: held_def Let_def)
  qed
  obtain b x where g: "bget dev n s = Inr (b, s\<lparr>bufs := (bufs s)[b := x]\<rparr>)"
    and b: "b < NBUF" "\<not> b_busy (bufs s ! b)"
    and x: "b_busy x" "b_dev x = dev" "b_sector x = n" "\<not> b_dirty x" "b_next x = b_next (bufs s ! b)"
      "b_prev x = b_prev (bufs s ! b)" "b_valid x \<longrightarrow> b_data x = sector_of s dev n"
    and uniq: "\<forall>i < NBUF. i \<noteq> b \<longrightarrow> \<not> (b_dev (bufs s ! i) = dev \<and> b_sector (bufs s ! i) = n)"
    using bget_ok [OF ok dev f1 f2] by (elim exE conjE) (rule that)
  note l = bcache_okD(2) [OF ok b(1)]
  have d1: "dev \<noteq> - 1" using dev by (auto simp: dev_ok_def)
  let ?s1 = "s\<lparr>bufs := (bufs s)[b := x]\<rparr>"
  have idq: "idequeue s = None" using bcache_ok_idle(2) [OF ok] .
  obtain pr p y where r: "bread dev n s = Inr (b, s\<lparr>procs := pr, pio := p, disk := disk s, bufs := (bufs s)[b := y], idequeue := None\<rparr>)"
    and w: "woken (procs s) pr" and y: "b_busy y" "b_dev y = dev" "b_sector y = n" "b_valid y" "\<not> b_dirty y"
      "b_next y = b_next (bufs s ! b)" "b_prev y = b_prev (bufs s ! b)" "b_data y = sector_of s dev n"
  proof (cases "b_valid x")
    case True
    have "bread dev n s = Inr (b, ?s1)" using g True b l by (simp add: bread_def)
    also have "?s1 = s\<lparr>procs := procs s, pio := pio s, disk := disk s, bufs := (bufs s)[b := x], idequeue := idequeue s\<rparr>"
      by simp
    finally show ?thesis unfolding idq by (rule that) (use True x in simp_all)
  next
    case False
    have "ide_idle ?s1" using bcache_ok_idle(1) [OF ok] by (simp add: ide_idle_def)
    then obtain p where i: "iderw b ?s1 = Inr (?s1\<lparr>procs := map (wake (Chan ''buf'' b)) (procs ?s1), pio := p,
      bufs := (bufs ?s1)[b := (bufs ?s1 ! b)\<lparr>b_qnext := None,
        b_data := sector_of ?s1 (b_dev (bufs ?s1 ! b)) (b_sector (bufs ?s1 ! b)), b_valid := True, b_dirty := False\<rparr>],
      idequeue := None\<rparr>)"
      using iderw_read [of ?s1 b] x b l dev n False by (auto simp: dev_ok_def)
    let ?y = "x\<lparr>b_qnext := None, b_data := sector_of s dev n, b_valid := True, b_dirty := False\<rparr>"
    have "bread dev n s = Inr (b, s\<lparr>procs := map (wake (Chan ''buf'' b)) (procs s), pio := p, disk := disk s,
      bufs := (bufs s)[b := ?y], idequeue := None\<rparr>)"
      using g i False b l x by (simp add: bread_def sector_of_def)
    then show ?thesis by (rule that) (use x in simp_all)
  qed
  let ?s' = "s\<lparr>procs := pr, pio := p, disk := disk s, bufs := (bufs s)[b := y], idequeue := None\<rparr>"
  have "bcache_ok ?s'"
  proof (rule bcache_ok_update [OF ok b(1) y(6,7) refl])
    show "buf_ok ?s' y" using y d1 dev n by (simp add: buf_ok_def dev_ok_def)
    show "buf_ok ?s' (bufs s ! i)" if "buf_ok s (bufs s ! i)" for i
      using that by (rule buf_ok_same_disk) simp_all
    show False if "i < NBUF" "i \<noteq> b" "b_dev (bufs s ! i) = b_dev y" "b_sector (bufs s ! i) = b_sector y" for i
      using uniq that y(2,3) by simp
  qed
  moreover have "held ?s' = (held s)(b \<mapsto> (dev, n, sector_of s dev n))"
    using held_upd [OF l b(1), of ?s' y] y by simp
  moreover have "held s b = None" using b by (simp add: held_def Let_def)
  ultimately show ?thesis using r b(1) bstepI [OF w, where p = p and d = "disk s" and bf = "(bufs s)[b := y]"] by (intro exI [of _ b] exI [of _ ?s']) simp
qed


definition put_data :: "nat \<Rightarrow> byte list \<Rightarrow> 'a diskstate_scheme \<Rightarrow> 'a diskstate_scheme" where
  "put_data b bs s = upd_buf b (\<lambda>x. x\<lparr>b_data := bs\<rparr>) s"

lemma heldD:
  assumes "held s b = Some (dev, n, bs)"
  shows "b < NBUF" "b_busy (bufs s ! b)" "b_dev (bufs s ! b) = dev" "b_sector (bufs s ! b) = n" "b_data (bufs s ! b) = bs"
  using assms by (auto simp: held_def Let_def split: if_splits)

lemma held_other:
  assumes ok: "bcache_ok s" and h: "held s b = Some (dev, n, bs)" and i: "i < NBUF" "i \<noteq> b" "b_dev (bufs s ! i) \<noteq> - 1"
  shows "\<not> (odd (b_dev (bufs s ! i)) = odd dev \<and> b_sector (bufs s ! i) = n)"
proof -
  note hb = heldD [OF h]
  have "buf_ok s (bufs s ! b)" "buf_ok s (bufs s ! i)"
    using bcache_okD(1) [OF ok] hb(1) i(1) by auto
  then have "dev = 0 \<or> dev = 1" "b_dev (bufs s ! i) = 0 \<or> b_dev (bufs s ! i) = 1"
    using hb i(3) by (auto simp: buf_ok_def dev_ok_def split: if_splits)
  then have o: "odd (b_dev (bufs s ! i)) = odd dev \<Longrightarrow> b_dev (bufs s ! i) = dev" by (elim disjE) simp_all
  show ?thesis
  proof
    assume "odd (b_dev (bufs s ! i)) = odd dev \<and> b_sector (bufs s ! i) = n"
    with o hb have "b_dev (bufs s ! i) = b_dev (bufs s ! b)" "b_sector (bufs s ! i) = b_sector (bufs s ! b)" by simp_all
    from bcache_ok_unique [OF ok i(1) hb(1) this i(3)] i(2) show False by simp
  qed
qed

lemma put_data_ok:
  assumes ok: "bcache_ok s" and h: "held s b = Some (dev, n, d0)"
  shows "bcache_ok (put_data b bs s)" and "held (put_data b bs s) = (held s)(b \<mapsto> (dev, n, bs))"
    and "bstep s (put_data b bs s)" and "disk (put_data b bs s) = disk s"
proof -
  note hb = heldD [OF h]
  let ?x = "(bufs s ! b)\<lparr>b_data := bs\<rparr>"
  have eq: "put_data b bs s = s\<lparr>procs := procs s, pio := pio s, disk := disk s, bufs := (bufs s)[b := ?x], idequeue := None\<rparr>"
  proof -
    have "put_data b bs s = s\<lparr>procs := procs s, pio := pio s, disk := disk s, bufs := (bufs s)[b := ?x], idequeue := idequeue s\<rparr>"
      by (simp add: put_data_def upd_buf_def)
    then show ?thesis unfolding bcache_ok_idle(2) [OF ok] .
  qed
  show "disk (put_data b bs s) = disk s" by (simp add: put_data_def)
  show "bstep s (put_data b bs s)" unfolding eq by (rule bstepI) simp
  show "held (put_data b bs s) = (held s)(b \<mapsto> (dev, n, bs))"
    using held_upd [OF bcache_okD(2) [OF ok hb(1)] hb(1), of "put_data b bs s" ?x] hb by (simp add: put_data_def)
  show "bcache_ok (put_data b bs s)"
  proof (rule bcache_ok_update [OF ok hb(1) _ _ eq])
    have "buf_ok s (bufs s ! b)" using bcache_okD(1) [OF ok hb(1)] .
    then show "buf_ok (put_data b bs s) ?x" using hb by (auto simp: buf_ok_def dev_ok_def put_data_def split: if_splits)
    show "buf_ok (put_data b bs s) (bufs s ! i)" if "buf_ok s (bufs s ! i)" for i
      using that by (rule buf_ok_same_disk) (simp_all add: put_data_def)
    show False if "i < NBUF" "i \<noteq> b" "b_dev (bufs s ! i) = b_dev ?x" "b_sector (bufs s ! i) = b_sector ?x" "b_dev ?x \<noteq> - 1" for i
      using bcache_ok_unique [OF ok that(1) hb(1)] that by simp
  qed simp_all
qed

lemma bwrite_ok:
  assumes ok: "bcache_ok s" and h: "held s b = Some (dev, n, bs)"
  shows "\<exists>s'. bwrite b s = Inr s' \<and> bstep s s' \<and> bcache_ok s' \<and> held s' = held s \<and>
    disk s' = put_sector dev n bs (disk s)"
proof -
  note hb = heldD [OF h]
  note l = bcache_okD(2) [OF ok hb(1)]
  have bo: "buf_ok s (bufs s ! b)" using bcache_okD(1) [OF ok hb(1)] .
  have d: "dev \<noteq> - 1" "dev_ok s dev" "n < 0x10000000" "b_valid (bufs s ! b)"
    using bo hb by (auto simp: buf_ok_def split: if_splits)
  let ?s1 = "upd_buf b (\<lambda>x. x\<lparr>b_dirty := True\<rparr>) s"
  have "ide_idle ?s1" using bcache_ok_idle(1) [OF ok] by (simp add: ide_idle_def)
  then obtain p where i: "iderw b ?s1 = Inr (?s1\<lparr>procs := map (wake (Chan ''buf'' b)) (procs ?s1), pio := p,
    disk := put_sector (b_dev (bufs ?s1 ! b)) (b_sector (bufs ?s1 ! b)) (b_data (bufs ?s1 ! b)) (disk ?s1),
    bufs := (bufs ?s1)[b := (bufs ?s1 ! b)\<lparr>b_qnext := None, b_valid := True, b_dirty := False\<rparr>],
    idequeue := None\<rparr>)"
    using iderw_write [of ?s1 b] hb l d by (auto simp: dev_ok_def)
  let ?x = "(bufs s ! b)\<lparr>b_qnext := None, b_valid := True, b_dirty := False\<rparr>"
  define s' where "s' = s\<lparr>procs := map (wake (Chan ''buf'' b)) (procs s), pio := p,
    disk := put_sector dev n bs (disk s), bufs := (bufs s)[b := ?x], idequeue := None\<rparr>"
  have "bwrite b s = Inr s'"
    using i hb l by (simp add: bwrite_def upd_buf_def s'_def)
  moreover have "bstep s s'" unfolding s'_def by (rule bstepI) simp
  moreover have "bcache_ok s'"
  proof (rule bcache_ok_update [OF ok hb(1) _ _ s'_def])
    show "buf_ok s' ?x" using hb d by (auto simp: buf_ok_def dev_ok_def s'_def)
    show "buf_ok s' (bufs s ! i)" if bi: "i < NBUF" "i \<noteq> b" "buf_ok s (bufs s ! i)" for i
    proof (cases "b_dev (bufs s ! i) = - 1")
      case False
      from held_other [OF ok h bi(1,2) False] bi(3) show ?thesis
        by (auto simp: buf_ok_def dev_ok_def sector_of_def put_sector_def s'_def split: if_splits)
    qed (use bi in \<open>auto simp: buf_ok_def\<close>)
    show False if "i < NBUF" "i \<noteq> b" "b_dev (bufs s ! i) = b_dev ?x" "b_sector (bufs s ! i) = b_sector ?x" "b_dev ?x \<noteq> - 1" for i
      using bcache_ok_unique [OF ok that(1) hb(1)] that by simp
  qed simp_all
  moreover have "held s' = held s"
    using held_upd [OF l hb(1), of s' ?x] hb h by (simp add: s'_def fun_upd_idem)
  moreover have "disk s' = put_sector dev n bs (disk s)" by (simp add: s'_def)
  ultimately show ?thesis by blast
qed


lemma brelse_ok:
  assumes ok: "bcache_ok s" and h: "held s b = Some (dev, n, sector_of s dev n)"
  shows "\<exists>s'. brelse b s = Inr s' \<and> bstep s s' \<and> bcache_ok s' \<and> held s' = (held s)(b := None) \<and> disk s' = disk s"
proof -
  note hb = heldD [OF h]
  obtain xs where xs: "lru (bufs s) xs" using ok by (auto simp: bcache_ok_def)
  then have "b \<in> set xs" using hb(1) by (simp add: lru_def)
  then obtain us vs where split: "xs = us @ b # vs" by (meson split_list)
  note rl = lru_relink [OF xs [unfolded split]]
  define bs where "bs = (relink b (bufs s))[b := (relink b (bufs s) ! b)\<lparr>b_busy := False\<rparr>]"
  have len: "length (relink b (bufs s)) = Suc NBUF" using rl(1) by (simp add: lru_def)
  have lr: "lru bs (b # us @ vs)" unfolding bs_def by (rule lru_update [OF rl(1)]) simp_all
  have nth: "\<exists>p q. bs ! i = (bufs s ! i)\<lparr>b_prev := p, b_next := q, b_busy := b_busy (bufs s ! i) \<and> i \<noteq> b\<rparr>" for i
  proof -
    obtain p q where pq: "relink b (bufs s) ! i = (bufs s ! i)\<lparr>b_prev := p, b_next := q\<rparr>" using rl(2) by blast
    show ?thesis
    proof (cases "i = b")
      case True
      then show ?thesis using pq len hb(1) by (intro exI [of _ p] exI [of _ q]) (simp add: bs_def)
    next
      case False
      then show ?thesis using pq by (intro exI [of _ p] exI [of _ q]) (simp add: bs_def)
    qed
  qed
  have f: "b_busy (bs ! i) = (b_busy (bufs s ! i) \<and> i \<noteq> b)" "b_valid (bs ! i) = b_valid (bufs s ! i)"
    "b_dirty (bs ! i) = b_dirty (bufs s ! i)" "b_dev (bs ! i) = b_dev (bufs s ! i)"
    "b_sector (bs ! i) = b_sector (bufs s ! i)" "b_data (bs ! i) = b_data (bufs s ! i)" for i
    using nth [of i] by auto
  define s' where "s' = s\<lparr>procs := map (wake (Chan ''buf'' b)) (procs s), pio := pio s, disk := disk s, bufs := bs, idequeue := idequeue s\<rparr>"
  have idq: "idequeue s = None" using bcache_ok_idle(2) [OF ok] .
  have "brelse b s = Inr s'"
    using hb bcache_ok_idle(3) [OF ok]
    by (simp add: brelse_def Let_def wakeup_eq upd_buf_def wakeup1_def bs_def s'_def)
  moreover have "bstep s s'" unfolding s'_def idq by (rule bstepI) simp
  moreover have "held s' = (held s)(b := None)"
    by (auto simp: held_def fun_eq_iff s'_def f Let_def)
  moreover have "bcache_ok s'"
    unfolding bcache_ok_def
  proof (intro conjI allI impI)
    show "ide_idle s'" using bcache_ok_idle(1) [OF ok] by (simp add: ide_idle_def s'_def)
    show "\<exists>xs. lru (bufs s') xs" using lr by (auto simp: s'_def)
    fix i assume i: "i < NBUF"
    show "buf_ok s' (bufs s' ! i)"
      using bcache_okD(1) [OF ok i] hb by (cases "i = b") (auto simp: buf_ok_def dev_ok_def sector_of_def s'_def f split: if_splits)
    fix j assume j: "j < NBUF" "b_dev (bufs s' ! i) = b_dev (bufs s' ! j)"
      "b_sector (bufs s' ! i) = b_sector (bufs s' ! j)" "b_dev (bufs s' ! i) \<noteq> - 1"
    show "i = j" using bcache_ok_unique [OF ok i j(1)] j by (simp add: s'_def f)
  qed
  moreover have "disk s' = disk s" by (simp add: s'_def)
  ultimately show ?thesis by blast
qed

section \<open>The interface to the file system\<close>

locale block_cache =
  fixes ok :: "'s \<Rightarrow> bool"
    and hold :: "'s \<Rightarrow> nat \<rightharpoonup> uint \<times> uint \<times> byte list"
    and sector :: "'s \<Rightarrow> uint \<Rightarrow> uint \<Rightarrow> byte list"
    and good :: "'s \<Rightarrow> uint \<Rightarrow> uint \<Rightarrow> bool"
    and cap :: nat
    and rd_blk :: "uint \<Rightarrow> uint \<Rightarrow> 's \<Rightarrow> (nat \<times> 's) res"
    and put_blk :: "nat \<Rightarrow> byte list \<Rightarrow> 's \<Rightarrow> 's"
    and wr_blk :: "nat \<Rightarrow> 's \<Rightarrow> 's res"
    and rel_blk :: "nat \<Rightarrow> 's \<Rightarrow> 's res"
    and step :: "'s \<Rightarrow> 's \<Rightarrow> bool"
  assumes hold_range: "dom (hold s) \<subseteq> {..<cap}"
    and step_trans: "step s s' \<Longrightarrow> step s' s'' \<Longrightarrow> step s s''"
    and good_step: "step s s' \<Longrightarrow> good s' dev n = good s dev n"
    and rd_law: "ok s \<Longrightarrow> good s dev n \<Longrightarrow> \<exists>i<cap. hold s i = None \<Longrightarrow>
      (\<And>i bs. hold s i \<noteq> Some (dev, n, bs)) \<Longrightarrow>
      \<exists>b s'. rd_blk dev n s = Inr (b, s') \<and> step s s' \<and> ok s' \<and> sector s' = sector s \<and> hold s b = None \<and>
        hold s' = (hold s)(b \<mapsto> (dev, n, sector s dev n))"
    and put_law: "ok s \<Longrightarrow> hold s b = Some (dev, n, old) \<Longrightarrow>
      step s (put_blk b bs s) \<and> ok (put_blk b bs s) \<and> sector (put_blk b bs s) = sector s \<and>
      hold (put_blk b bs s) = (hold s)(b \<mapsto> (dev, n, bs))"
    and wr_law: "ok s \<Longrightarrow> hold s b = Some (dev, n, bs) \<Longrightarrow>
      \<exists>s'. wr_blk b s = Inr s' \<and> step s s' \<and> ok s' \<and> hold s' = hold s \<and> sector s' dev n = bs \<and>
        (\<forall>d m. good s d m \<longrightarrow> (d, m) \<noteq> (dev, n) \<longrightarrow> sector s' d m = sector s d m)"
    and rel_law: "ok s \<Longrightarrow> hold s b = Some (dev, n, sector s dev n) \<Longrightarrow>
      \<exists>s'. rel_blk b s = Inr s' \<and> step s s' \<and> ok s' \<and> sector s' = sector s \<and> hold s' = (hold s)(b := None)"
begin

text \<open>Reading a block: \<open>bread\<close>, use of the contents, \<open>brelse\<close>.\<close>

lemma read_block:
  assumes "ok s" and "good s dev n" and "\<exists>i<cap. hold s i = None" and "\<And>i bs. hold s i \<noteq> Some (dev, n, bs)"
  shows "\<exists>b s1 s2. rd_blk dev n s = Inr (b, s1) \<and> hold s1 b = Some (dev, n, sector s dev n) \<and>
    rel_blk b s1 = Inr s2 \<and> step s s2 \<and> ok s2 \<and> sector s2 = sector s \<and> hold s2 = hold s"
proof -
  obtain b s1 where 1: "rd_blk dev n s = Inr (b, s1)" "step s s1" "ok s1" "sector s1 = sector s" "hold s b = None"
    "hold s1 = (hold s)(b \<mapsto> (dev, n, sector s dev n))" using rd_law [OF assms] by blast
  then have h: "hold s1 b = Some (dev, n, sector s1 dev n)" by simp
  then obtain s2 where 2: "rel_blk b s1 = Inr s2" "step s1 s2" "ok s2" "sector s2 = sector s1" "hold s2 = (hold s1)(b := None)"
    using rel_law [OF 1(3) h] by blast
  have "hold s2 = hold s" using 1(5,6) 2(5) by (simp add: fun_upd_idem)
  with 1 2 h step_trans [OF 1(2) 2(2)] show ?thesis by auto
qed

text \<open>Updating a block: \<open>bread\<close>, new contents computed from the old, \<open>bwrite\<close>, \<open>brelse\<close>.\<close>

lemma update_block:
  assumes "ok s" and "good s dev n" and "\<exists>i<cap. hold s i = None" and "\<And>i bs. hold s i \<noteq> Some (dev, n, bs)"
  shows "\<exists>b s1. rd_blk dev n s = Inr (b, s1) \<and> hold s1 b = Some (dev, n, sector s dev n) \<and>
    (\<forall>bs. \<exists>s2 s3. wr_blk b (put_blk b bs s1) = Inr s2 \<and> rel_blk b s2 = Inr s3 \<and> step s s3 \<and> ok s3 \<and>
       hold s3 = hold s \<and> sector s3 dev n = bs \<and>
       (\<forall>d m. good s d m \<longrightarrow> (d, m) \<noteq> (dev, n) \<longrightarrow> sector s3 d m = sector s d m))"
proof -
  obtain b s1 where 1: "rd_blk dev n s = Inr (b, s1)" "step s s1" "ok s1" "sector s1 = sector s" "hold s b = None"
    "hold s1 = (hold s)(b \<mapsto> (dev, n, sector s dev n))" using rd_law [OF assms] by blast
  then have h: "hold s1 b = Some (dev, n, sector s dev n)" by simp
  have "\<exists>s2 s3. wr_blk b (put_blk b bs s1) = Inr s2 \<and> rel_blk b s2 = Inr s3 \<and> step s s3 \<and> ok s3 \<and>
       hold s3 = hold s \<and> sector s3 dev n = bs \<and>
       (\<forall>d m. good s d m \<longrightarrow> (d, m) \<noteq> (dev, n) \<longrightarrow> sector s3 d m = sector s d m)" for bs
  proof -
    let ?p = "put_blk b bs s1"
    note p = put_law [OF 1(3) h, of bs]
    then have hp: "hold ?p b = Some (dev, n, bs)" by simp
    obtain s2 where 2: "wr_blk b ?p = Inr s2" "step ?p s2" "ok s2" "hold s2 = hold ?p" "sector s2 dev n = bs"
      "\<forall>d m. good ?p d m \<longrightarrow> (d, m) \<noteq> (dev, n) \<longrightarrow> sector s2 d m = sector ?p d m"
      using wr_law [OF _ hp] p by blast
    then have h2: "hold s2 b = Some (dev, n, sector s2 dev n)" using hp by simp
    obtain s3 where 3: "rel_blk b s2 = Inr s3" "step s2 s3" "ok s3" "sector s3 = sector s2" "hold s3 = (hold s2)(b := None)"
      using rel_law [OF 2(3) h2] by blast
    have "hold s3 = hold s" using 1(5,6) 2(4) 3(5) p by (simp add: fun_upd_idem)
    moreover have st: "step s ?p" using step_trans [OF 1(2)] p by blast
    moreover have "step s s3" using step_trans [OF st step_trans [OF 2(2) 3(2)]] .
    moreover have "good ?p d m = good s d m" for d m using good_step [OF st] .
    ultimately show ?thesis using 1(4) 2 3 p by auto
  qed
  with 1(1) h show ?thesis by blast
qed

end

definition good_block :: "'a diskstate_scheme \<Rightarrow> uint \<Rightarrow> uint \<Rightarrow> bool" where
  "good_block s dev n \<longleftrightarrow> dev_ok s dev \<and> n < 0x10000000"

interpretation bc: block_cache bcache_ok held sector_of good_block NBUF bread put_data bwrite brelse bstep
proof unfold_locales
  fix s s' s'' :: "'a diskstate_scheme" and dev n b bs old
  show "dom (held s) \<subseteq> {..<NBUF}" by (auto simp: held_def Let_def split: if_splits)
  show "bstep s s' \<Longrightarrow> bstep s' s'' \<Longrightarrow> bstep s s''" by (rule bstep_trans)
  show "bstep s s' \<Longrightarrow> good_block s' dev n = good_block s dev n"
    by (auto simp: bstep_def good_block_def dev_ok_def)
  show "\<exists>b s'. bread dev n s = Inr (b, s') \<and> bstep s s' \<and> bcache_ok s' \<and> sector_of s' = sector_of s \<and> held s b = None \<and>
        held s' = (held s)(b \<mapsto> (dev, n, sector_of s dev n))"
    if "bcache_ok s" "good_block s dev n" "\<exists>i<NBUF. held s i = None" "\<And>i bs. held s i \<noteq> Some (dev, n, bs)"
    using bread_ok [of s dev n] that by (auto simp: good_block_def sector_of_def fun_eq_iff)
  show "bstep s (put_data b bs s) \<and> bcache_ok (put_data b bs s) \<and> sector_of (put_data b bs s) = sector_of s \<and>
      held (put_data b bs s) = (held s)(b \<mapsto> (dev, n, bs))"
    if "bcache_ok s" "held s b = Some (dev, n, old)"
    using put_data_ok [OF that] by (simp add: sector_of_def fun_eq_iff)
  show "\<exists>s'. brelse b s = Inr s' \<and> bstep s s' \<and> bcache_ok s' \<and> sector_of s' = sector_of s \<and> held s' = (held s)(b := None)"
    if "bcache_ok s" "held s b = Some (dev, n, sector_of s dev n)"
    using brelse_ok [OF that] by (auto simp: sector_of_def fun_eq_iff)
  show "\<exists>s'. bwrite b s = Inr s' \<and> bstep s s' \<and> bcache_ok s' \<and> held s' = held s \<and> sector_of s' dev n = bs \<and>
        (\<forall>d m. good_block s d m \<longrightarrow> (d, m) \<noteq> (dev, n) \<longrightarrow> sector_of s' d m = sector_of s d m)"
    if h: "bcache_ok s" "held s b = Some (dev, n, bs)"
  proof -
    have "buf_ok s (bufs s ! b)" "b_busy (bufs s ! b)" "b_dev (bufs s ! b) = dev"
      using heldD [OF h(2)] bcache_okD(1) [OF h(1)] by auto
    then have "dev_ok s dev" by (auto simp: buf_ok_def split: if_splits)
    then have dev: "dev = 0 \<or> dev = 1" by (auto simp: dev_ok_def)
    have "put_sector dev n bs dk (odd d) m = dk (odd d) m" if "good_block s d m" "(d, m) \<noteq> (dev, n)" for d m dk
      using that dev by (auto simp: put_sector_def good_block_def dev_ok_def)
    with bwrite_ok [OF h] show ?thesis by (auto simp: sector_of_def put_sector_def)
  qed
qed

section \<open>Initialisation\<close>

definition ring :: "buf list \<Rightarrow> nat list \<Rightarrow> bool" where
  "ring bs xs \<longleftrightarrow>
     length bs = Suc NBUF \<and> distinct (NBUF # xs) \<and> (\<forall>x\<in>set xs. x < NBUF) \<and>
     linked (\<lambda>i. b_next (bs ! i)) NBUF xs NBUF \<and> linked (\<lambda>i. b_prev (bs ! i)) NBUF (rev xs) NBUF"

lemma ring_lru: "ring bs xs \<Longrightarrow> set xs = {..<NBUF} \<Longrightarrow> lru bs xs"
  by (simp add: ring_def lru_def)

text \<open>One round of \<open>binit\<close> puts buffer \<open>b\<close> in front.\<close>

definition add_front :: "nat \<Rightarrow> buf list \<Rightarrow> buf list" where
  "add_front b bs =
     (let h = b_next (bs ! NBUF);
          bs = bs[b := (bs ! b)\<lparr>b_next := h, b_prev := NBUF, b_dev := - 1\<rparr>];
          bs = bs[h := (bs ! h)\<lparr>b_prev := b\<rparr>]
      in bs[NBUF := (bs ! NBUF)\<lparr>b_next := b\<rparr>])"

lemma ring_add_front:
  assumes r: "ring bs xs" and b: "b < NBUF" "b \<notin> set xs"
  shows "ring (add_front b bs) (b # xs)"
    and "\<exists>p q. add_front b bs ! i = (bs ! i)\<lparr>b_prev := p, b_next := q, b_dev := if i = b then - 1 else b_dev (bs ! i)\<rparr>"
proof -
  define h where "h = b_next (bs ! NBUF)"
  from r have l: "length bs = Suc NBUF" and d: "distinct (NBUF # xs)" "\<forall>x\<in>set xs. x < NBUF"
    and p: "linked (\<lambda>i. b_next (bs ! i)) NBUF xs NBUF" "linked (\<lambda>i. b_prev (bs ! i)) NBUF (rev xs) NBUF"
    by (simp_all add: ring_def)
  have h: "h = hd (xs @ [NBUF])" using linked_hd [OF p(1)] by (simp add: h_def)
  then have hle: "h \<le> NBUF" "h \<noteq> b" using d(2) b by (cases xs; auto)+
  have nth: "add_front b bs ! i = (bs ! i)
    \<lparr>b_prev := ((\<lambda>i. b_prev (bs ! i))(b := NBUF, h := b)) i, b_next := ((\<lambda>i. b_next (bs ! i))(b := h, NBUF := b)) i,
     b_dev := if i = b then - 1 else b_dev (bs ! i)\<rparr>" for i
    using l b(1) hle by (auto simp: add_front_def Let_def nth_list_update simp flip: h_def)
  show "\<exists>p q. add_front b bs ! i = (bs ! i)\<lparr>b_prev := p, b_next := q, b_dev := if i = b then - 1 else b_dev (bs ! i)\<rparr>"
    using nth by blast
  have nx: "(\<lambda>i. b_next (add_front b bs ! i)) = (\<lambda>i. b_next (bs ! i))(b := h, NBUF := b)"
    and pv: "(\<lambda>i. b_prev (add_front b bs ! i)) = (\<lambda>i. b_prev (bs ! i))(b := NBUF, h := b)"
    by (simp_all only: nth fun_eq_iff) simp_all
  have "linked ((\<lambda>i. b_next (bs ! i))(b := h, NBUF := b)) b xs NBUF"
    by (rule linked_start [OF p(1)]) (use b d in \<open>auto simp: h_def\<close>)
  then have 1: "linked ((\<lambda>i. b_next (bs ! i))(b := h, NBUF := b)) NBUF (b # xs) NBUF" by simp
  have la: "last (NBUF # rev xs) = h" unfolding h by (cases xs) auto
  have "linked ((\<lambda>i. b_prev (bs ! i))(h := b)) NBUF (rev xs) b"
    using linked_snoc_upd [OF _ p(2), of b] d(1) unfolding la by auto
  then have "linked ((\<lambda>i. b_prev (bs ! i))(b := NBUF, h := b)) NBUF (rev xs) b"
    using b hle by (subst fun_upd_twist) (simp, subst linked_upd, auto)
  then have 2: "linked ((\<lambda>i. b_prev (bs ! i))(b := NBUF, h := b)) NBUF (rev xs @ [b]) NBUF"
    using hle(2) by (simp only: linked_append linked.simps fun_upd_apply) simp
  show "ring (add_front b bs) (b # xs)"
    unfolding ring_def nx pv using 1 2 l d b by (simp add: add_front_def Let_def)
qed

lemma binit_loop_add_front:
  assumes "length (bufs s) = Suc NBUF" and "b < NBUF" and "b_next (bufs s ! NBUF) \<le> NBUF" "b_next (bufs s ! NBUF) \<noteq> b"
  shows "binit_loop (Suc n) b s = binit_loop n (Suc b) (s\<lparr>bufs := add_front b (bufs s)\<rparr>)"
  using assms by (simp add: Let_def upd_buf_def add_front_def)

lemma binit_loop_ring:
  assumes "ring (bufs s) (rev [0..<b])" and "b + n = NBUF"
    and "\<forall>i<NBUF. \<not> b_busy (bufs s ! i) \<and> \<not> b_valid (bufs s ! i) \<and> \<not> b_dirty (bufs s ! i)"
    and "\<forall>i<b. b_dev (bufs s ! i) = - 1"
  shows "\<exists>bs. binit_loop n b s = s\<lparr>bufs := bs\<rparr> \<and> lru bs (rev [0..<NBUF]) \<and>
    (\<forall>i<NBUF. \<not> b_busy (bs ! i) \<and> \<not> b_valid (bs ! i) \<and> \<not> b_dirty (bs ! i) \<and> b_dev (bs ! i) = - 1)"
  using assms
proof (induction n arbitrary: b s)
  case 0
  have "lru (bufs s) (rev [0..<NBUF])" using 0 by (intro ring_lru) auto
  with 0 show ?case by (intro exI [of _ "bufs s"]) simp
next
  case (Suc n)
  have b: "b < NBUF" "b \<notin> set (rev [0..<b])" using Suc.prems(2) by auto
  note f = ring_add_front [OF Suc.prems(1) b]
  have hd: "b_next (bufs s ! NBUF) = hd (rev [0..<b] @ [NBUF])"
    using Suc.prems(1) linked_hd [of "\<lambda>i. b_next (bufs s ! i)" NBUF "rev [0..<b]" NBUF] by (simp add: ring_def)
  have h2: "hd (rev [0..<b] @ [NBUF]) \<le> NBUF \<and> hd (rev [0..<b] @ [NBUF]) \<noteq> b"
    using b(1) by (cases b) auto
  let ?s = "s\<lparr>bufs := add_front b (bufs s)\<rparr>"
  have st: "binit_loop (Suc n) b s = binit_loop n (Suc b) ?s"
    by (rule binit_loop_add_front) (use Suc.prems(1) b h2 in \<open>simp_all add: ring_def hd\<close>)
  have 1: "ring (bufs ?s) (rev [0..<Suc b])" using f(1) by simp
  have 2: "\<not> b_busy (bufs ?s ! i) \<and> \<not> b_valid (bufs ?s ! i) \<and> \<not> b_dirty (bufs ?s ! i)" if "i < NBUF" for i
    using f(2) [of i] Suc.prems(3) that by auto
  have 3: "b_dev (bufs ?s ! i) = - 1" if "i < Suc b" for i
    using f(2) [of i] Suc.prems(4) that by (auto simp: less_Suc_eq)
  have "Suc b + n = NBUF" using Suc.prems(2) by simp
  from Suc.IH [OF 1 this] 2 3 obtain bs where bs: "binit_loop n (Suc b) ?s = ?s\<lparr>bufs := bs\<rparr>" "lru bs (rev [0..<NBUF])"
    "\<forall>i<NBUF. \<not> b_busy (bs ! i) \<and> \<not> b_valid (bs ! i) \<and> \<not> b_dirty (bs ! i) \<and> b_dev (bs ! i) = - 1" by blast
  have "binit_loop (Suc n) b s = s\<lparr>bufs := bs\<rparr>" unfolding st bs(1) by simp
  with bs(2,3) show ?case by blast
qed


lemma binit_ok:
  assumes "ide_idle (initlock L_bcache ''bcache'' s)" and "length (bufs s) = Suc NBUF"
    and "\<forall>i<NBUF. \<not> b_busy (bufs s ! i) \<and> \<not> b_valid (bufs s ! i) \<and> \<not> b_dirty (bufs s ! i)"
  shows "bcache_ok (binit s) \<and> lru (bufs (binit s)) (rev [0..<NBUF]) \<and> held (binit s) = Map.empty \<and>
    disk (binit s) = disk s \<and> (\<forall>i<NBUF. b_dev (bufs (binit s) ! i) = - 1)"
proof -
  let ?s0 = "initlock L_bcache ''bcache'' s"
  let ?s1 = "upd_buf NBUF (\<lambda>x. x\<lparr>b_next := NBUF\<rparr>) (upd_buf NBUF (\<lambda>x. x\<lparr>b_prev := NBUF\<rparr>) ?s0)"
  have l0: "bufs ?s0 = bufs s" by (simp add: initlock_def)
  have r: "ring (bufs ?s1) (rev [0..<0])" using assms(2) by (simp add: ring_def l0)
  have n: "\<forall>i<NBUF. \<not> b_busy (bufs ?s1 ! i) \<and> \<not> b_valid (bufs ?s1 ! i) \<and> \<not> b_dirty (bufs ?s1 ! i)"
    using assms(3) by (simp add: l0)
  from binit_loop_ring [OF r _ n] obtain bs where
    bs: "binit_loop NBUF 0 ?s1 = ?s1\<lparr>bufs := bs\<rparr>" "lru bs (rev [0..<NBUF])"
    "\<forall>i<NBUF. \<not> b_busy (bs ! i) \<and> \<not> b_valid (bs ! i) \<and> \<not> b_dirty (bs ! i) \<and> b_dev (bs ! i) = - 1" by auto
  have b: "binit s = ?s0\<lparr>bufs := bs\<rparr>" unfolding binit_def Let_def bs(1) by (simp add: upd_buf_def)
  have "ide_idle (binit s)" using assms(1) unfolding b by (simp add: ide_idle_def)
  then have "bcache_ok (binit s)" using bs(2,3) unfolding bcache_ok_def b by (auto simp: buf_ok_def)
  moreover have "held (binit s) = Map.empty" using bs(3) by (auto simp: b held_def fun_eq_iff Let_def)
  moreover have "disk (binit s) = disk s" by (simp add: b initlock_def)
  ultimately show ?thesis using bs(2,3) by (simp add: b)
qed

text \<open>\<open>binit\<close> establishes the invariant of the cache: it links all buffers into the list,
  the last one first, none of them valid.\<close>

theorem binit_establishes:
  assumes "ide_idle (initlock L_bcache ''bcache'' s)" and "length (bufs s) = Suc NBUF"
    and "\<forall>i<NBUF. \<not> b_busy (bufs s ! i) \<and> \<not> b_valid (bufs s ! i) \<and> \<not> b_dirty (bufs s ! i)"
  shows "bcache_ok (binit s) \<and> lru (bufs (binit s)) (rev [0..<NBUF]) \<and> held (binit s) = Map.empty \<and>
    disk (binit s) = disk s \<and> (\<forall>i<NBUF. b_dev (bufs (binit s) ! i) = - 1)"
  using binit_ok [OF assms] .


text \<open>C9: the replacement policy is least recently used. \<open>brelse\<close> puts the buffer at the front of
  the list; a block that is not cached gets the buffer nearest to the back that is not busy, and is
  never given a busy one.\<close>

theorem cache_is_lru:
  assumes "bcache_ok s" and "lru (bufs s) xs"
  shows "(held s b = Some (dev, n, sector_of s dev n) \<longrightarrow>
      (\<exists>s'. brelse b s = Inr s' \<and> lru (bufs s') (b # remove1 b xs))) \<and>
    ((\<forall>i<NBUF. \<not> (b_dev (bufs s ! i) = dev \<and> b_sector (bufs s ! i) = n)) \<longrightarrow>
      (case find (\<lambda>i. \<not> b_busy (bufs s ! i)) (rev xs) of
         None \<Rightarrow> bget dev n s = Inl (Panic ''bget: no buffers'')
       | Some v \<Rightarrow> \<exists>s'. bget dev n s = Inr (v, s') \<and> \<not> b_busy (bufs s ! v)))"
proof (intro conjI impI)
  note q = bcache_ok_idle(3) [OF assms(1)]
  assume h: "held s b = Some (dev, n, sector_of s dev n)"
  note hb = heldD [OF h]
  have "b \<in> set xs" using hb(1) assms(2) by (simp add: lru_def)
  then obtain us vs where split: "xs = us @ b # vs" "b \<notin> set us" by (meson split_list_first)
  have lr: "lru ((relink b (bufs s))[b := (relink b (bufs s) ! b)\<lparr>b_busy := False\<rparr>]) (b # us @ vs)"
    by (rule lru_update [OF lru_relink(1) [OF assms(2) [unfolded split(1)]]]) simp_all
  have "brelse b s = Inr (s\<lparr>bufs := (relink b (bufs s))[b := (relink b (bufs s) ! b)\<lparr>b_busy := False\<rparr>],
    procs := map (wake (Chan ''buf'' b)) (procs s)\<rparr>)"
    using hb q by (simp add: brelse_def Let_def wakeup_eq upd_buf_def wakeup1_def)
  with lr split show "\<exists>s'. brelse b s = Inr s' \<and> lru (bufs s') (b # remove1 b xs)"
    by (simp add: remove1_append)
next
  note q = bcache_ok_idle(3) [OF assms(1)]
  assume "\<forall>i<NBUF. \<not> (b_dev (bufs s ! i) = dev \<and> b_sector (bufs s ! i) = n)"
  moreover have "set xs = {..<NBUF}" using assms(2) by (simp add: lru_def)
  ultimately have "find (\<lambda>i. b_dev (bufs s ! i) = dev \<and> b_sector (bufs s ! i) = n) xs = None"
    by (auto simp: find_None_iff)
  note f = this lru_find [OF assms(2)]
  have "\<not> b_busy (bufs s ! v)" if "find (\<lambda>i. \<not> b_busy (bufs s ! i)) (rev xs) = Some v" for v
    using that by (auto simp: find_Some_iff)
  then show "case find (\<lambda>i. \<not> b_busy (bufs s ! i)) (rev xs) of
         None \<Rightarrow> bget dev n s = Inl (Panic ''bget: no buffers'')
       | Some v \<Rightarrow> \<exists>s'. bget dev n s = Inr (v, s') \<and> \<not> b_busy (bufs s ! v)"
    using f q by (cases "find (\<lambda>i. \<not> b_busy (bufs s ! i)) (rev xs)") (simp_all add: bget_def Let_def upd_buf_def)
qed

section \<open>A booted disk\<close>

definition zero_buf :: buf where
  "zero_buf = \<lparr>b_busy = False, b_valid = False, b_dirty = False, b_dev = 0, b_sector = 0, b_prev = 0, b_next = 0,
     b_qnext = None, b_data = replicate BSIZE 0\<rparr>"

definition boot_ext :: "(bool \<Rightarrow> uint \<Rightarrow> byte list) \<Rightarrow> 'a \<Rightarrow> 'a diskstate_scheme" where
  "boot_ext d m = \<lparr>cpus = (\<lambda>_. \<lparr>ncli = 0, intena = True, ifl = True\<rparr>), cur = 0,
     locks = (\<lambda>_. \<lparr>lk_locked = 0, lk_name = ''lock'', lk_cpu = None\<rparr>),
     pmem = (\<lambda>_. 0), freelist = 0x200000, procs = replicate NPROC unused_proc, nextpid = 1,
     curproc = (\<lambda>_. Some 0), initproc = None, kpgdir = 0x300000, cr0 = (\<lambda>_. 0), cr3 = (\<lambda>_. 0),
     gdt = (\<lambda>_ _. SEG 0 0 0 0), gdtr = (\<lambda>_. False), gs = (\<lambda>_. 0), tr = (\<lambda>_. 0), ts_ss0 = (\<lambda>_. 0),
     ts_esp0 = (\<lambda>_. 0), pio = [], irqmask = irqmask_init, ioapic_regs = (\<lambda>_. 0), ismp = False, ncpu = 1,
     ioapicid = 0, disk = d, ide_status = (\<lambda>_. IDE_DRDY), havedisk1 = True,
     bufs = replicate (Suc NBUF) zero_buf, idequeue = None, \<dots> = m\<rparr>"

abbreviation boot_disk :: "(bool \<Rightarrow> uint \<Rightarrow> byte list) \<Rightarrow> diskstate" where
  "boot_disk d \<equiv> boot_ext d ()"

lemma boot_disk_hyps:
  "ide_idle (initlock L_bcache ''bcache'' (boot_ext d m))" "length (bufs (boot_ext d m)) = Suc NBUF"
  "\<forall>i<NBUF. \<not> b_busy (bufs (boot_ext d m) ! i) \<and> \<not> b_valid (bufs (boot_ext d m) ! i) \<and> \<not> b_dirty (bufs (boot_ext d m) ! i)"
proof -
  show "ide_idle (initlock L_bcache ''bcache'' (boot_ext d m))"
    by (simp add: boot_ext_def ide_idle_def initlock_def quiet_def cpu_ok_def free_lock_def mycpu_def myproc_def
        ide_ready_def IDE_DRDY_def IDE_BSY_def IDE_DF_def IDE_ERR_def)
qed (simp_all add: boot_ext_def zero_buf_def nth_append del: replicate.simps)

theorem binit_establishes_witness:
  "bcache_ok (binit (boot_disk (\<lambda>_ _. []))) \<and> lru (bufs (binit (boot_disk (\<lambda>_ _. [])))) (rev [0..<NBUF]) \<and>
   held (binit (boot_disk (\<lambda>_ _. []))) = Map.empty"
  using binit_establishes [OF boot_disk_hyps, of "\<lambda>_ _. []" "()"] by blast

lemmas boot_disk_ok = binit_ok [OF boot_disk_hyps]

lemma binit_loop_havedisk1: "havedisk1 (binit_loop k b s) = havedisk1 s"
  by (induction k arbitrary: b s) (simp_all add: Let_def)

lemma boot_disk_good: "n < 0x10000000 \<Longrightarrow> good_block (binit (boot_ext d m)) 1 n"
proof -
  have "havedisk1 (binit (boot_ext d m)) = havedisk1 (boot_ext d m)"
    by (simp add: binit_def initlock_def Let_def binit_loop_havedisk1)
  then show "n < 0x10000000 \<Longrightarrow> good_block (binit (boot_ext d m)) 1 n"
    by (simp add: good_block_def dev_ok_def boot_ext_def)
qed


theorem cache_is_lru_witness:
  "\<exists>s'. bget 1 7 (binit (boot_disk (\<lambda>_ _. []))) = Inr (0, s')"
proof -
  let ?s = "binit (boot_disk (\<lambda>_ _. []))"
  note ok = boot_disk_ok [of "\<lambda>_ _. []" "()"]
  have n: "b_dev (bufs ?s ! i) \<noteq> 1 \<and> \<not> b_busy (bufs ?s ! i)" if "i < NBUF" for i
    using ok that by (auto simp: held_def fun_eq_iff Let_def split: if_splits)
  have "[0..<NBUF] = 0 # [1..<NBUF]" by (simp add: NBUF_def upt_rec)
  then have "find (\<lambda>i. \<not> b_busy (bufs ?s ! i)) (rev (rev [0..<NBUF])) = Some 0"
    using n [of 0] by (simp add: NBUF_def)
  with cache_is_lru [of ?s "rev [0..<NBUF]" 0 1 7] ok n show ?thesis by auto
qed

text \<open>A failed read of buffer 0 (see the disk driver).\<close>

theorem ideintr_failed_read_is_valid_witness:
  "\<exists>s'. ideintr ((boot_disk (\<lambda>_ _. [1]))\<lparr>idequeue := Some 0, ide_status := (\<lambda>_. IDE_DRDY OR IDE_ERR)\<rparr>) = Inr s' \<and>
    b_valid (bufs s' ! 0) \<and> b_data (bufs s' ! 0) = replicate BSIZE 0"
proof -
  let ?s = "(boot_disk (\<lambda>_ _. [1]))\<lparr>idequeue := Some 0, ide_status := (\<lambda>_. IDE_DRDY OR IDE_ERR)\<rparr>"
  have "quiet ?s" by (simp add: boot_ext_def quiet_def cpu_ok_def free_lock_def mycpu_def)
  moreover have "bufs ?s ! 0 = zero_buf" "0 < length (bufs ?s)" by (simp_all add: boot_ext_def)
  moreover have "idewait True ?s = Inr (- 1)"
    by (simp add: idewait_def IDE_DRDY_def IDE_BSY_def IDE_DF_def IDE_ERR_def)
  ultimately show ?thesis
    using ideintr_failed_read_is_valid [of ?s 0] by (simp add: zero_buf_def)
qed

end
