(* ===== verification/Fs.thy ===== *)
theory Fs
  imports Bio
begin

unbundle bit_operations_syntax

text \<open>
  The file system's blocks and inodes (\<^verbatim>\<open>fs.c\<close>, \<^verbatim>\<open>fs.h\<close>, \<^verbatim>\<open>file.h\<close>, \<^verbatim>\<open>stat.h\<close>): block
  allocation in the bitmap, allocation and caching of inodes, the map from file blocks to disk blocks,
  truncation, and reading and writing file contents.

  Structures on disk are read and written in the bytes of their block: a superblock at offset 0, a
  64-byte inode at offset \<open>64 * (inum % IPB)\<close>, block numbers of an indirect block every four bytes.
  A pointer to an inode is its index in \<open>icache.inode\<close>. The two flag bits are two fields. The device
  switch is an argument of the routines that use it: per major number, the read routine (which
  returns the bytes it stored) and the write routine, if any.
\<close>

section \<open>Layout\<close>

definition ROOTDEV :: uint where "ROOTDEV = 1"
definition ROOTINO :: uint where "ROOTINO = 1"
definition NDIRECT :: nat where "NDIRECT = 12"
definition NINDIRECT :: nat where "NINDIRECT = 128"
definition MAXFILE :: nat where "MAXFILE = NDIRECT + NINDIRECT"
definition IPB :: uint where "IPB = 8"
definition BPB :: uint where "BPB = 4096"
definition NINODE :: nat where "NINODE = 50"
definition NDEV :: int where "NDEV = 10"

definition T_DIR :: ushort where "T_DIR = 1"
definition T_FILE :: ushort where "T_FILE = 2"
definition T_DEV :: ushort where "T_DEV = 3"

definition IBLOCK :: "uint \<Rightarrow> uint" where
  "IBLOCK i = i div IPB + 2"

definition BBLOCK :: "uint \<Rightarrow> uint \<Rightarrow> uint" where
  "BBLOCK b ninodes = b div BPB + ninodes div IPB + 3"

record superblock =
  sb_size :: uint
  sb_nblocks :: uint
  sb_ninodes :: uint

record dinode =
  d_type :: ushort
  d_major :: ushort
  d_minor :: ushort
  d_nlink :: ushort
  d_size :: uint
  d_addrs :: "uint list"

definition get_sb :: "byte list \<Rightarrow> superblock" where
  "get_sb bs = \<lparr>sb_size = get32 bs 0, sb_nblocks = get32 bs 4, sb_ninodes = get32 bs 8\<rparr>"

definition get_dinode :: "byte list \<Rightarrow> nat \<Rightarrow> dinode" where
  "get_dinode bs off =
     \<lparr>d_type = get16 bs off, d_major = get16 bs (off + 2), d_minor = get16 bs (off + 4),
      d_nlink = get16 bs (off + 6), d_size = get32 bs (off + 8),
      d_addrs = map (\<lambda>i. get32 bs (off + 12 + 4 * i)) [0..<NDIRECT + 1]\<rparr>"

definition dinode_bytes :: "dinode \<Rightarrow> byte list" where
  "dinode_bytes d =
     bytes16 (d_type d) @ bytes16 (d_major d) @ bytes16 (d_minor d) @ bytes16 (d_nlink d) @
     bytes32 (d_size d) @ concat (map bytes32 (d_addrs d))"

text \<open>The offset of inode \<open>inum\<close> in its block.\<close>

definition dinode_off :: "uint \<Rightarrow> nat" where
  "dinode_off inum = 64 * unat (inum mod IPB)"

section \<open>State\<close>

record inode =
  i_dev :: uint
  i_inum :: uint
  i_ref :: int
  i_busy :: bool
  i_valid :: bool
  i_type :: ushort
  i_major :: ushort
  i_minor :: ushort
  i_nlink :: ushort
  i_size :: uint
  i_addrs :: "uint list"

record fsstate = diskstate +
  inodes :: "inode list"

definition upd_inode :: "nat \<Rightarrow> (inode \<Rightarrow> inode) \<Rightarrow> 'a fsstate_scheme \<Rightarrow> 'a fsstate_scheme" where
  "upd_inode ip f s = s\<lparr>inodes := (inodes s)[ip := f (inodes s ! ip)]\<rparr>"

record stat_t =
  st_type :: ushort
  st_dev :: uint
  st_ino :: uint
  st_nlink :: ushort
  st_size :: uint

section \<open>Blocks\<close>

definition readsb :: "uint \<Rightarrow> 'a diskstate_scheme \<Rightarrow> (superblock \<times> 'a diskstate_scheme) res" where
  "readsb dev s =
     andThen (bread dev 1 s) (\<lambda>(bp, s).
     let sb = get_sb (b_data (bufs s ! bp)) in
     andThen (brelse bp s) (\<lambda>s. Inr (sb, s)))"

definition bzero :: "uint \<Rightarrow> uint \<Rightarrow> 'a diskstate_scheme \<Rightarrow> 'a diskstate_scheme res" where
  "bzero dev bno s =
     andThen (bread dev bno s) (\<lambda>(bp, s).
     let s = put_data bp (replicate BSIZE 0) s in
     andThen (bwrite bp s) (\<lambda>s. brelse bp s))"

text \<open>The first clear bit of a bitmap block.\<close>

definition bit_clear :: "byte list \<Rightarrow> nat \<Rightarrow> bool" where
  "bit_clear bs bi \<longleftrightarrow> bs ! (bi div 8) AND push_bit (bi mod 8) 1 = 0"

definition set_bit_at :: "byte list \<Rightarrow> nat \<Rightarrow> byte list" where
  "set_bit_at bs bi = bs[bi div 8 := bs ! (bi div 8) OR push_bit (bi mod 8) 1]"

definition clear_bit_at :: "byte list \<Rightarrow> nat \<Rightarrow> byte list" where
  "clear_bit_at bs bi = bs[bi div 8 := bs ! (bi div 8) AND NOT (push_bit (bi mod 8) 1)]"

text \<open>The loop over bitmap blocks; \<open>size / BPB + 1\<close> rounds suffice.\<close>

primrec balloc_loop ::
  "nat \<Rightarrow> uint \<Rightarrow> superblock \<Rightarrow> uint \<Rightarrow> 'a diskstate_scheme \<Rightarrow> (uint \<times> 'a diskstate_scheme) res" where
  "balloc_loop 0 dev sb b s = Inl (Spins ''balloc'')"
| "balloc_loop (Suc k) dev sb b s =
     (if b < sb_size sb
      then andThen (bread dev (BBLOCK b (sb_ninodes sb)) s) (\<lambda>(bp, s).
           let d = b_data (bufs s ! bp) in
           case find (bit_clear d) [0..<4096] of
             Some bi \<Rightarrow>
               let s = put_data bp (set_bit_at d bi) s in
               andThen (bwrite bp s) (\<lambda>s.
               andThen (brelse bp s) (\<lambda>s. Inr (b + of_nat bi, s)))
           | None \<Rightarrow> andThen (brelse bp s) (\<lambda>s. balloc_loop k dev sb (b + BPB) s))
      else Inl (Panic ''balloc: out of blocks''))"

definition balloc :: "uint \<Rightarrow> 'a diskstate_scheme \<Rightarrow> (uint \<times> 'a diskstate_scheme) res" where
  "balloc dev s =
     andThen (readsb dev s) (\<lambda>(sb, s). balloc_loop (unat (sb_size sb) div 4096 + 2) dev sb 0 s)"

definition bfree :: "uint \<Rightarrow> uint \<Rightarrow> 'a diskstate_scheme \<Rightarrow> 'a diskstate_scheme res" where
  "bfree dev b s =
     andThen (bzero dev b s) (\<lambda>s.
     andThen (readsb dev s) (\<lambda>(sb, s).
     andThen (bread dev (BBLOCK b (sb_ninodes sb)) s) (\<lambda>(bp, s).
     let d = b_data (bufs s ! bp);
         bi = unat (b mod BPB)
     in if bit_clear d bi then Inl (Panic ''freeing free block'')
        else
          let s = put_data bp (clear_bit_at d bi) s in
          andThen (bwrite bp s) (\<lambda>s. brelse bp s))))"

section \<open>Inodes\<close>

definition iinit :: "'a fsstate_scheme \<Rightarrow> 'a fsstate_scheme" where
  "iinit s = initlock L_icache ''icache'' s"

text \<open>The scan of \<open>iget\<close> from slot \<open>i\<close> on: the cached inode, or else the first empty slot.\<close>

primrec iget_scan :: "uint \<Rightarrow> uint \<Rightarrow> nat \<Rightarrow> nat option \<Rightarrow> inode list \<Rightarrow> nat option \<times> nat option" where
  "iget_scan dev inum i free [] = (None, free)"
| "iget_scan dev inum i free (x # xs) =
     (if i_ref x > 0 \<and> i_dev x = dev \<and> i_inum x = inum then (Some i, free)
      else iget_scan dev inum (Suc i) (if free = None \<and> i_ref x = 0 then Some i else free) xs)"

definition iget :: "uint \<Rightarrow> uint \<Rightarrow> 'a fsstate_scheme \<Rightarrow> (nat \<times> 'a fsstate_scheme) res" where
  "iget dev inum s =
     andThen (acquire L_icache s) (\<lambda>s.
     case iget_scan dev inum 0 None (inodes s) of
       (Some ip, _) \<Rightarrow>
         let s = upd_inode ip (\<lambda>x. x\<lparr>i_ref := i_ref x + 1\<rparr>) s in
         andThen (release L_icache s) (\<lambda>s. Inr (ip, s))
     | (None, None) \<Rightarrow> Inl (Panic ''iget: no inodes'')
     | (None, Some ip) \<Rightarrow>
         let s = upd_inode ip (\<lambda>x. x\<lparr>i_dev := dev, i_inum := inum, i_ref := 1, i_busy := False, i_valid := False\<rparr>) s in
         andThen (release L_icache s) (\<lambda>s. Inr (ip, s)))"

definition idup :: "nat \<Rightarrow> 'a fsstate_scheme \<Rightarrow> (nat \<times> 'a fsstate_scheme) res" where
  "idup ip s =
     andThen (acquire L_icache s) (\<lambda>s.
     let s = upd_inode ip (\<lambda>x. x\<lparr>i_ref := i_ref x + 1\<rparr>) s in
     andThen (release L_icache s) (\<lambda>s. Inr (ip, s)))"

primrec ialloc_loop ::
  "nat \<Rightarrow> uint \<Rightarrow> superblock \<Rightarrow> ushort \<Rightarrow> uint \<Rightarrow> 'a fsstate_scheme \<Rightarrow> (nat \<times> 'a fsstate_scheme) res" where
  "ialloc_loop 0 dev sb type inum s = Inl (Spins ''ialloc'')"
| "ialloc_loop (Suc k) dev sb type inum s =
     (if inum < sb_ninodes sb
      then andThen (bread dev (IBLOCK inum) s) (\<lambda>(bp, s).
           let d = b_data (bufs s ! bp);
               off = dinode_off inum
           in if get16 d off = 0
              then
                let d = patch d off (replicate 64 0);
                    d = put16 d off type;
                    s = put_data bp d s
                in andThen (bwrite bp s) (\<lambda>s.
                   andThen (brelse bp s) (\<lambda>s. iget dev inum s))
              else andThen (brelse bp s) (\<lambda>s. ialloc_loop k dev sb type (inum + 1) s))
      else Inl (Panic ''ialloc: no inodes''))"

definition ialloc :: "uint \<Rightarrow> ushort \<Rightarrow> 'a fsstate_scheme \<Rightarrow> (nat \<times> 'a fsstate_scheme) res" where
  "ialloc dev type s =
     andThen (readsb dev s) (\<lambda>(sb, s). ialloc_loop (unat (sb_ninodes sb) + 1) dev sb type 1 s)"

text \<open>The disk image of a cached inode.\<close>

definition to_dinode :: "inode \<Rightarrow> dinode" where
  "to_dinode x =
     \<lparr>d_type = i_type x, d_major = i_major x, d_minor = i_minor x, d_nlink = i_nlink x, d_size = i_size x,
      d_addrs = i_addrs x\<rparr>"

definition iupdate :: "nat \<Rightarrow> 'a fsstate_scheme \<Rightarrow> 'a fsstate_scheme res" where
  "iupdate ip s =
     (let x = inodes s ! ip in
      andThen (bread (i_dev x) (IBLOCK (i_inum x)) s) (\<lambda>(bp, s).
      let d = b_data (bufs s ! bp);
          s = put_data bp (patch d (dinode_off (i_inum x)) (dinode_bytes (to_dinode x))) s
      in andThen (bwrite bp s) (\<lambda>s. brelse bp s)))"

definition ilock :: "nat option \<Rightarrow> 'a fsstate_scheme \<Rightarrow> 'a fsstate_scheme res" where
  "ilock ipo s =
     (case ipo of
        None \<Rightarrow> Inl (Panic ''ilock'')
      | Some ip \<Rightarrow>
          if i_ref (inodes s ! ip) < 1 then Inl (Panic ''ilock'')
          else andThen (acquire L_icache s) (\<lambda>s.
            if i_busy (inodes s ! ip)
            then (if myproc s = None then Inl (Panic ''sleep'') else Inl (Sleeps (Chan ''inode'' ip)))
            else
              let s = upd_inode ip (\<lambda>x. x\<lparr>i_busy := True\<rparr>) s in
              andThen (release L_icache s) (\<lambda>s.
              if \<not> i_valid (inodes s ! ip)
              then
                let x = inodes s ! ip in
                andThen (bread (i_dev x) (IBLOCK (i_inum x)) s) (\<lambda>(bp, s).
                let dip = get_dinode (b_data (bufs s ! bp)) (dinode_off (i_inum x));
                    s = upd_inode ip (\<lambda>x. x\<lparr>i_type := d_type dip, i_major := d_major dip, i_minor := d_minor dip,
                          i_nlink := d_nlink dip, i_size := d_size dip, i_addrs := d_addrs dip\<rparr>) s
                in andThen (brelse bp s) (\<lambda>s.
                   let s = upd_inode ip (\<lambda>x. x\<lparr>i_valid := True\<rparr>) s in
                   if i_type (inodes s ! ip) = 0 then Inl (Panic ''ilock: no type'') else Inr s))
              else Inr s)))"

definition iunlock :: "nat option \<Rightarrow> 'a fsstate_scheme \<Rightarrow> 'a fsstate_scheme res" where
  "iunlock ipo s =
     (case ipo of
        None \<Rightarrow> Inl (Panic ''iunlock'')
      | Some ip \<Rightarrow>
          if \<not> i_busy (inodes s ! ip) \<or> i_ref (inodes s ! ip) < 1 then Inl (Panic ''iunlock'')
          else andThen (acquire L_icache s) (\<lambda>s.
               let s = upd_inode ip (\<lambda>x. x\<lparr>i_busy := False\<rparr>) s in
               andThen (wakeup (Chan ''inode'' ip) s) (\<lambda>s. release L_icache s)))"

section \<open>Inode contents\<close>

definition bmap :: "nat \<Rightarrow> uint \<Rightarrow> 'a fsstate_scheme \<Rightarrow> (uint \<times> 'a fsstate_scheme) res" where
  "bmap ip bn s =
     (if bn < of_nat NDIRECT
      then
        let addr = i_addrs (inodes s ! ip) ! unat bn in
        if addr = 0
        then andThen (balloc (i_dev (inodes s ! ip)) s) (\<lambda>(addr, s).
             Inr (addr, upd_inode ip (\<lambda>x. x\<lparr>i_addrs := (i_addrs x)[unat bn := addr]\<rparr>) s))
        else Inr (addr, s)
      else
        let bn = bn - of_nat NDIRECT in
        if bn < of_nat NINDIRECT
        then
          let addr = i_addrs (inodes s ! ip) ! NDIRECT in
          andThen (if addr = 0
                   then andThen (balloc (i_dev (inodes s ! ip)) s) (\<lambda>(addr, s).
                        Inr (addr, upd_inode ip (\<lambda>x. x\<lparr>i_addrs := (i_addrs x)[NDIRECT := addr]\<rparr>) s))
                   else Inr (addr, s)) (\<lambda>(addr, s).
          andThen (bread (i_dev (inodes s ! ip)) addr s) (\<lambda>(bp, s).
          let addr = get32 (b_data (bufs s ! bp)) (4 * unat bn) in
          andThen (if addr = 0
                   then andThen (balloc (i_dev (inodes s ! ip)) s) (\<lambda>(addr, s).
                        let s = put_data bp (put32 (b_data (bufs s ! bp)) (4 * unat bn) addr) s in
                        andThen (bwrite bp s) (\<lambda>s. Inr (addr, s)))
                   else Inr (addr, s)) (\<lambda>(addr, s).
          andThen (brelse bp s) (\<lambda>s. Inr (addr, s)))))
        else Inl (Panic ''bmap: out of range''))"

primrec itrunc_direct :: "nat \<Rightarrow> nat \<Rightarrow> nat \<Rightarrow> 'a fsstate_scheme \<Rightarrow> 'a fsstate_scheme res" where
  "itrunc_direct 0 ip i s = Inr s"
| "itrunc_direct (Suc k) ip i s =
     andThen (let a = i_addrs (inodes s ! ip) ! i in
              if a \<noteq> 0
              then andThen (bfree (i_dev (inodes s ! ip)) a s) (\<lambda>s.
                   Inr (upd_inode ip (\<lambda>x. x\<lparr>i_addrs := (i_addrs x)[i := 0]\<rparr>) s))
              else Inr s) (\<lambda>s.
     itrunc_direct k ip (Suc i) s)"

primrec itrunc_indirect :: "nat \<Rightarrow> nat \<Rightarrow> nat \<Rightarrow> nat \<Rightarrow> 'a fsstate_scheme \<Rightarrow> 'a fsstate_scheme res" where
  "itrunc_indirect 0 ip bp j s = Inr s"
| "itrunc_indirect (Suc k) ip bp j s =
     andThen (let a = get32 (b_data (bufs s ! bp)) (4 * j) in
              if a \<noteq> 0 then bfree (i_dev (inodes s ! ip)) a s else Inr s) (\<lambda>s.
     itrunc_indirect k ip bp (Suc j) s)"

definition itrunc :: "nat \<Rightarrow> 'a fsstate_scheme \<Rightarrow> 'a fsstate_scheme res" where
  "itrunc ip s =
     andThen (itrunc_direct NDIRECT ip 0 s) (\<lambda>s.
     andThen (let a = i_addrs (inodes s ! ip) ! NDIRECT in
              if a \<noteq> 0
              then andThen (bread (i_dev (inodes s ! ip)) a s) (\<lambda>(bp, s).
                   andThen (itrunc_indirect NINDIRECT ip bp 0 s) (\<lambda>s.
                   andThen (brelse bp s) (\<lambda>s.
                   andThen (bfree (i_dev (inodes s ! ip)) a s) (\<lambda>s.
                   Inr (upd_inode ip (\<lambda>x. x\<lparr>i_addrs := (i_addrs x)[NDIRECT := 0]\<rparr>) s)))))
              else Inr s) (\<lambda>s.
     iupdate ip (upd_inode ip (\<lambda>x. x\<lparr>i_size := 0\<rparr>) s)))"

definition iput :: "nat \<Rightarrow> 'a fsstate_scheme \<Rightarrow> 'a fsstate_scheme res" where
  "iput ip s =
     andThen (acquire L_icache s) (\<lambda>s.
     andThen
       (if i_ref (inodes s ! ip) = 1 \<and> i_valid (inodes s ! ip) \<and> i_nlink (inodes s ! ip) = 0
        then
          if i_busy (inodes s ! ip) then Inl (Panic ''iput busy'')
          else
            let s = upd_inode ip (\<lambda>x. x\<lparr>i_busy := True\<rparr>) s in
            andThen (release L_icache s) (\<lambda>s.
            andThen (itrunc ip s) (\<lambda>s.
            let s = upd_inode ip (\<lambda>x. x\<lparr>i_type := 0\<rparr>) s in
            andThen (iupdate ip s) (\<lambda>s.
            andThen (acquire L_icache s) (\<lambda>s.
            let s = upd_inode ip (\<lambda>x. x\<lparr>i_busy := False, i_valid := False\<rparr>) s in
            wakeup (Chan ''inode'' ip) s))))
        else Inr s) (\<lambda>s.
     release L_icache (upd_inode ip (\<lambda>x. x\<lparr>i_ref := i_ref x - 1\<rparr>) s)))"

definition iunlockput :: "nat \<Rightarrow> 'a fsstate_scheme \<Rightarrow> 'a fsstate_scheme res" where
  "iunlockput ip s = andThen (iunlock (Some ip) s) (\<lambda>s. iput ip s)"

definition stati :: "nat \<Rightarrow> 'a fsstate_scheme \<Rightarrow> stat_t" where
  "stati ip s =
     (let x = inodes s ! ip in
      \<lparr>st_type = i_type x, st_dev = i_dev x, st_ino = i_inum x, st_nlink = i_nlink x, st_size = i_size x\<rparr>)"

section \<open>Reading and writing\<close>

type_synonym 's dev_read = "int \<Rightarrow> (nat \<Rightarrow> uint \<Rightarrow> 's \<Rightarrow> ((int \<times> byte list) \<times> 's) res) option"
type_synonym 's dev_write = "int \<Rightarrow> (nat \<Rightarrow> byte list \<Rightarrow> uint \<Rightarrow> 's \<Rightarrow> (int \<times> 's) res) option"

text \<open>Each round of the two loops transfers at least one byte.\<close>

primrec readi_loop ::
  "nat \<Rightarrow> nat \<Rightarrow> uint \<Rightarrow> uint \<Rightarrow> byte list \<Rightarrow> 'a fsstate_scheme \<Rightarrow> (byte list \<times> 'a fsstate_scheme) res" where
  "readi_loop 0 ip off left dst s = (if left = 0 then Inr (dst, s) else Inl (Spins ''readi''))"
| "readi_loop (Suc k) ip off left dst s =
     (if left = 0 then Inr (dst, s)
      else
        andThen (bmap ip (off div 512) s) (\<lambda>(bno, s).
        andThen (bread (i_dev (inodes s ! ip)) bno s) (\<lambda>(bp, s).
        let m = min left (512 - off mod 512);
            d = slice (b_data (bufs s ! bp)) (unat (off mod 512)) (unat m)
        in andThen (brelse bp s) (\<lambda>s.
           readi_loop k ip (off + m) (left - m) (dst @ d) s))))"

definition readi ::
  "'a fsstate_scheme dev_read \<Rightarrow> nat \<Rightarrow> uint \<Rightarrow> uint \<Rightarrow> 'a fsstate_scheme \<Rightarrow>
   ((int \<times> byte list) \<times> 'a fsstate_scheme) res" where
  "readi devsw ip off n s =
     (let x = inodes s ! ip in
      if i_type x = T_DEV
      then (if sint (i_major x) < 0 \<or> sint (i_major x) \<ge> NDEV then Inr ((- 1, []), s)
            else case devsw (sint (i_major x)) of
                   None \<Rightarrow> Inr ((- 1, []), s)
                 | Some f \<Rightarrow> f ip n s)
      else if off > i_size x \<or> off + n < off then Inr ((- 1, []), s)
      else
        let n = (if off + n > i_size x then i_size x - off else n) in
        andThen (readi_loop (unat n) ip off n [] s) (\<lambda>(dst, s). Inr ((sint n, dst), s)))"

primrec writei_loop ::
  "nat \<Rightarrow> nat \<Rightarrow> byte list \<Rightarrow> uint \<Rightarrow> uint \<Rightarrow> 'a fsstate_scheme \<Rightarrow> (uint \<times> 'a fsstate_scheme) res" where
  "writei_loop 0 ip src off left s = (if left = 0 then Inr (off, s) else Inl (Spins ''writei''))"
| "writei_loop (Suc k) ip src off left s =
     (if left = 0 then Inr (off, s)
      else
        andThen (bmap ip (off div 512) s) (\<lambda>(bno, s).
        andThen (bread (i_dev (inodes s ! ip)) bno s) (\<lambda>(bp, s).
        let m = min left (512 - off mod 512) in
        if unat m > length src then Inl (Wild ''writei'')
        else
          let s = put_data bp (patch (b_data (bufs s ! bp)) (unat (off mod 512)) (take (unat m) src)) s in
          andThen (bwrite bp s) (\<lambda>s.
          andThen (brelse bp s) (\<lambda>s.
          writei_loop k ip (drop (unat m) src) (off + m) (left - m) s)))))"

definition writei ::
  "'a fsstate_scheme dev_write \<Rightarrow> nat \<Rightarrow> byte list \<Rightarrow> uint \<Rightarrow> uint \<Rightarrow> 'a fsstate_scheme \<Rightarrow>
   (int \<times> 'a fsstate_scheme) res" where
  "writei devsw ip src off n s =
     (let x = inodes s ! ip in
      if i_type x = T_DEV
      then (if sint (i_major x) < 0 \<or> sint (i_major x) \<ge> NDEV then Inr (- 1, s)
            else case devsw (sint (i_major x)) of
                   None \<Rightarrow> Inr (- 1, s)
                 | Some f \<Rightarrow> f ip src n s)
      else if off > i_size x \<or> off + n < off then Inr (- 1, s)
      else
        let n = (if off + n > of_nat (MAXFILE * BSIZE) then of_nat (MAXFILE * BSIZE) - off else n) in
        andThen (writei_loop (unat n) ip src off n s) (\<lambda>(off, s).
        andThen (if n > 0 \<and> off > i_size (inodes s ! ip)
                 then iupdate ip (upd_inode ip (\<lambda>x. x\<lparr>i_size := off\<rparr>) s)
                 else Inr s) (\<lambda>s.
        Inr (sint n, s))))"

end
