(* ===== verification/FsBlocks.thy ===== *)
theory FsBlocks
  imports Fs
begin

unbundle bit_operations_syntax

text \<open>
  Correctness of block allocation (\<open>balloc\<close>, \<open>bfree\<close>, \<open>bzero\<close>, \<open>readsb\<close> of \<^verbatim>\<open>fs.c\<close>).

  \<open>adisk s dev\<close> is the disk as the file system sees it: a function from block numbers to bytes.
  \<open>dstep dev D s s'\<close> says that a routine took the kernel from \<open>s\<close> to \<open>s'\<close>, left the cache in order, holds
  the same buffers as before and turned the contents of device \<open>dev\<close> into \<open>D\<close>. Each routine is shown
  to compute a pure function of the disk.
\<close>

section \<open>The disk seen through the cache\<close>

definition adisk :: "'a diskstate_scheme \<Rightarrow> uint \<Rightarrow> uint \<Rightarrow> byte list" where
  "adisk s dev n = (if good_block s dev n then sector_of s dev n else [])"

definition dstep :: "uint \<Rightarrow> (uint \<Rightarrow> byte list) \<Rightarrow> 'a diskstate_scheme \<Rightarrow> 'a diskstate_scheme \<Rightarrow> bool" where
  "dstep dev D s s' \<longleftrightarrow> bstep s s' \<and> bcache_ok s' \<and> held s' = held s \<and> adisk s' = (adisk s)(dev := D)"

text \<open>The blocks \<open>N\<close> of the device can be used: a buffer is left and none of them is handed out.\<close>

definition can :: "'a diskstate_scheme \<Rightarrow> uint \<Rightarrow> uint set \<Rightarrow> bool" where
  "can s dev N \<longleftrightarrow> bcache_ok s \<and> (\<exists>i<NBUF. held s i = None) \<and>
     (\<forall>n\<in>N. good_block s dev n \<and> (\<forall>i bs. held s i \<noteq> Some (dev, n, bs)))"

lemma canD:
  assumes "can s dev N"
  shows "bcache_ok s" "\<exists>i<NBUF. held s i = None" "n \<in> N \<Longrightarrow> good_block s dev n"
    "n \<in> N \<Longrightarrow> held s i \<noteq> Some (dev, n, bs)"
  using assms by (auto simp: can_def)

lemma can_mono: "can s dev N \<Longrightarrow> M \<subseteq> N \<Longrightarrow> can s dev M"
  by (auto simp: can_def)

lemma dstepD:
  assumes "dstep dev D s s'"
  shows "bstep s s'" "bcache_ok s'" "held s' = held s" "adisk s' = (adisk s)(dev := D)" "adisk s' dev = D"
    "good_block s' = good_block s"
  using assms bc.good_step [of s s'] by (auto simp: dstep_def fun_eq_iff)

lemma can_dstep: "can s dev N \<Longrightarrow> dstep dev D s s' \<Longrightarrow> can s' dev N"
  by (auto simp: can_def dstepD)

lemma dstep_trans: "dstep dev D s s' \<Longrightarrow> dstep dev D' s' s'' \<Longrightarrow> dstep dev D' s s''"
  by (auto simp: dstep_def intro: bstep_trans)

lemma dstep_refl: "bcache_ok s \<Longrightarrow> dstep dev (adisk s dev) s s"
  by (simp add: dstep_def bstep_refl bcache_ok_idle)

text \<open>The two ways the routines use a block: read it and release it, or read it, write new contents
  and release it.\<close>

lemma use_block:
  assumes "can s dev N" and "n \<in> N"
  shows "\<exists>b s1. bread dev n s = Inr (b, s1) \<and> b_data (bufs s1 ! b) = adisk s dev n \<and>
    (\<exists>s2. brelse b s1 = Inr s2 \<and> dstep dev (adisk s dev) s s2) \<and>
    (\<forall>bs. \<exists>s2 s3. bwrite b (put_data b bs s1) = Inr s2 \<and> brelse b s2 = Inr s3 \<and>
       dstep dev ((adisk s dev)(n := bs)) s s3)"
proof -
  note c = canD [OF assms(1)]
  obtain b s1 where 1: "bread dev n s = Inr (b, s1)" "held s1 b = Some (dev, n, sector_of s dev n)"
    and w: "\<And>bs. \<exists>s2 s3. bwrite b (put_data b bs s1) = Inr s2 \<and> brelse b s2 = Inr s3 \<and> bstep s s3 \<and> bcache_ok s3 \<and>
       held s3 = held s \<and> sector_of s3 dev n = bs \<and>
       (\<forall>d m. good_block s d m \<longrightarrow> (d, m) \<noteq> (dev, n) \<longrightarrow> sector_of s3 d m = sector_of s d m)"
    using bc.update_block [OF c(1) c(3) [OF assms(2)] c(2) c(4) [OF assms(2)]] by blast
  obtain s2 where r: "brelse b s1 = Inr s2" "bstep s s2" "bcache_ok s2" "sector_of s2 = sector_of s" "held s2 = held s"
    using bc.read_block [OF c(1) c(3) [OF assms(2)] c(2) c(4) [OF assms(2)]] 1(1) by auto
  have "dstep dev (adisk s dev) s s2"
    using r bc.good_step [OF r(2)] by (simp add: dstep_def adisk_def fun_eq_iff)
  moreover have "\<exists>s2 s3. bwrite b (put_data b bs s1) = Inr s2 \<and> brelse b s2 = Inr s3 \<and>
       dstep dev ((adisk s dev)(n := bs)) s s3" for bs
  proof -
    obtain s2 s3 where 2: "bwrite b (put_data b bs s1) = Inr s2" "brelse b s2 = Inr s3" "bstep s s3" "bcache_ok s3"
      "held s3 = held s" "sector_of s3 dev n = bs"
      "\<forall>d m. good_block s d m \<longrightarrow> (d, m) \<noteq> (dev, n) \<longrightarrow> sector_of s3 d m = sector_of s d m"
      using w by blast
    have "dstep dev ((adisk s dev)(n := bs)) s s3"
      using 2 bc.good_step [OF 2(3)] c(3) [OF assms(2)] by (auto simp: dstep_def adisk_def fun_eq_iff)
    with 2 show ?thesis by blast
  qed
  moreover have "b_data (bufs s1 ! b) = adisk s dev n"
    using heldD(5) [OF 1(2)] c(3) [OF assms(2)] by (simp add: adisk_def)
  ultimately show ?thesis using 1(1) r(1) by blast
qed

section \<open>The bitmap\<close>

definition a_sb :: "(uint \<Rightarrow> byte list) \<Rightarrow> superblock" where
  "a_sb D = get_sb (D 1)"

definition bmblock :: "(uint \<Rightarrow> byte list) \<Rightarrow> uint \<Rightarrow> uint" where
  "bmblock D b = BBLOCK b (sb_ninodes (a_sb D))"

definition used :: "(uint \<Rightarrow> byte list) \<Rightarrow> uint \<Rightarrow> bool" where
  "used D b \<longleftrightarrow> \<not> bit_clear (D (bmblock D b)) (unat (b mod BPB))"

definition mark :: "(uint \<Rightarrow> byte list) \<Rightarrow> uint \<Rightarrow> uint \<Rightarrow> byte list" where
  "mark D b = D(bmblock D b := set_bit_at (D (bmblock D b)) (unat (b mod BPB)))"

definition unmark :: "(uint \<Rightarrow> byte list) \<Rightarrow> uint \<Rightarrow> uint \<Rightarrow> byte list" where
  "unmark D b = D(bmblock D b := clear_bit_at (D (bmblock D b)) (unat (b mod BPB)))"

text \<open>The number of bits the loops of \<open>balloc\<close> look at: the size rounded up to whole bitmap blocks.\<close>

definition nbits :: "(uint \<Rightarrow> byte list) \<Rightarrow> nat" where
  "nbits D = (unat (sb_size (a_sb D)) + 4095) div 4096 * 4096"

definition first_free :: "(uint \<Rightarrow> byte list) \<Rightarrow> nat option" where
  "first_free D = find (\<lambda>b. \<not> used D (of_nat b)) [0..<nbits D]"

text \<open>A file system whose superblock and bitmap blocks can be addressed.\<close>

definition meta :: "(uint \<Rightarrow> byte list) \<Rightarrow> uint set" where
  "meta D = insert 1 {bmblock D (of_nat b) | b. b < nbits D}"

definition geometry :: "(uint \<Rightarrow> byte list) \<Rightarrow> bool" where
  "geometry D \<longleftrightarrow> unat (sb_size (a_sb D)) \<le> 0xFFFF000 \<and> unat (sb_ninodes (a_sb D)) \<le> 0x10000000 \<and>
     (\<forall>n < 0x10000000. length (D n) = BSIZE)"

lemma readsb_ok:
  assumes "can s dev N" and "1 \<in> N"
  shows "\<exists>s'. readsb dev s = Inr (a_sb (adisk s dev), s') \<and> dstep dev (adisk s dev) s s'"
proof -
  obtain b s1 s2 where "bread dev 1 s = Inr (b, s1)" "b_data (bufs s1 ! b) = adisk s dev 1"
    "brelse b s1 = Inr s2" "dstep dev (adisk s dev) s s2" using use_block [OF assms] by blast
  then show ?thesis by (simp add: readsb_def a_sb_def)
qed

lemma bzero_ok:
  assumes "can s dev N" and "n \<in> N"
  shows "\<exists>s'. bzero dev n s = Inr s' \<and> dstep dev ((adisk s dev)(n := replicate BSIZE 0)) s s'"
proof -
  obtain b s1 s2 s3 where "bread dev n s = Inr (b, s1)" "bwrite b (put_data b (replicate BSIZE 0) s1) = Inr s2"
    "brelse b s2 = Inr s3" "dstep dev ((adisk s dev)(n := replicate BSIZE 0)) s s3"
    using use_block [OF assms] by meson
  then show ?thesis by (simp add: bzero_def)
qed

section \<open>Allocation\<close>

lemma find_map_comp: "find P (map f xs) = map_option f (find (\<lambda>x. P (f x)) xs)"
  by (induction xs) simp_all

lemma find_append: "find P (xs @ ys) = (case find P xs of None \<Rightarrow> find P ys | Some x \<Rightarrow> Some x)"
  by (induction xs) simp_all

lemma find_Some_mem: "find P xs = Some x \<Longrightarrow> x \<in> set xs \<and> P x"
  by (induction xs) (auto split: if_splits)

lemma unat_of_nat_uint: "n < 4294967296 \<Longrightarrow> unat (of_nat n :: uint) = n"
  by (simp add: unsigned_of_nat take_bit_nat_eq_self_iff)

lemma bit_position:
  assumes "4096 * k + i < 4294967296" and "i < 4096"
  shows "unat ((of_nat (4096 * k + i) :: uint) mod BPB) = i"
    and "(of_nat (4096 * k + i) :: uint) div BPB = of_nat (4096 * k) div BPB"
proof -
  have u: "unat (of_nat (4096 * k + i) :: uint) = 4096 * k + i" using assms unat_of_nat_uint by blast
  have v: "unat (of_nat (4096 * k) :: uint) = 4096 * k" using assms by (intro unat_of_nat_uint) simp
  show "unat ((of_nat (4096 * k + i) :: uint) mod BPB) = i"
    using assms(2) unfolding unat_mod u by (simp add: BPB_def)
  show "(of_nat (4096 * k + i) :: uint) div BPB = of_nat (4096 * k) div BPB"
    using assms(2) by (intro word_unat_eq_iff [THEN iffD2]) (simp only: unat_div u v, simp add: BPB_def)
qed

lemma used_position:
  assumes "4096 * k + i < 4294967296" and "i < 4096"
  shows "used D (of_nat (4096 * k + i)) \<longleftrightarrow> \<not> bit_clear (D (bmblock D (of_nat (4096 * k)))) i"
    and "bmblock D (of_nat (4096 * k + i)) = bmblock D (of_nat (4096 * k))"
    and "mark D (of_nat (4096 * k + i)) =
      D(bmblock D (of_nat (4096 * k)) := set_bit_at (D (bmblock D (of_nat (4096 * k)))) i)"
  using bit_position [OF assms] by (simp_all add: used_def bmblock_def mark_def BBLOCK_def)

definition nbm :: "(uint \<Rightarrow> byte list) \<Rightarrow> nat" where
  "nbm D = (unat (sb_size (a_sb D)) + 4095) div 4096"

lemma nbm_less: "unat (sb_size (a_sb D)) > 4096 * k \<longleftrightarrow> k < nbm D"
  by (auto simp: nbm_def)

lemma nbits_nbm: "nbits D = 4096 * nbm D"
  by (simp add: nbits_def nbm_def)

lemma geometry_nbits: "geometry D \<Longrightarrow> nbits D \<le> 0x10000000" "geometry D \<Longrightarrow> nbm D \<le> 0x10000"
  by (auto simp: geometry_def nbits_def nbm_def)

lemma scan_block:
  assumes "geometry D" and "k < nbm D"
  shows "find (\<lambda>b. \<not> used D (of_nat b)) [4096 * k..<nbits D] =
    (case find (bit_clear (D (bmblock D (of_nat (4096 * k))))) [0..<4096] of
       Some i \<Rightarrow> Some (4096 * k + i)
     | None \<Rightarrow> find (\<lambda>b. \<not> used D (of_nat b)) [4096 * Suc k..<nbits D])"
proof -
  have k: "4096 * Suc k \<le> nbits D" using assms(2) by (simp add: nbits_nbm)
  then have "[4096 * k..<nbits D] = [4096 * k..<4096 * Suc k] @ [4096 * Suc k..<nbits D]"
    using upt_add_eq_append [of "4096 * k" "4096 * Suc k" "nbits D - 4096 * Suc k"] by simp
  moreover have "[4096 * k..<4096 * Suc k] = map (\<lambda>i. 4096 * k + i) [0..<4096]"
    using map_add_upt [of "4096 * k" 4096] by (simp add: add.commute)
  moreover have "find (\<lambda>i. \<not> used D (of_nat (4096 * k + i))) [0..<4096] =
      find (bit_clear (D (bmblock D (of_nat (4096 * k))))) [0..<4096]"
    using geometry_nbits(1) [OF assms(1)] k
    by (intro find_cong) (auto simp: used_position(1) simp del: of_nat_add of_nat_mult)
  ultimately show ?thesis
    by (simp add: find_append find_map_comp del: of_nat_add of_nat_mult split: option.split)
qed

lemma balloc_loop_ok:
  assumes "can s dev N" and "geometry D" and "D = adisk s dev" and "meta D \<subseteq> N" and "nbm D < k + n" and "k \<le> nbm D"
  shows "case find (\<lambda>b. \<not> used D (of_nat b)) [4096 * k..<nbits D] of
      Some b \<Rightarrow> \<exists>s'. balloc_loop n dev (a_sb D) (of_nat (4096 * k)) s = Inr (of_nat b, s') \<and>
        dstep dev (mark D (of_nat b)) s s'
    | None \<Rightarrow> balloc_loop n dev (a_sb D) (of_nat (4096 * k)) s = Inl (Panic ''balloc: out of blocks'')"
  using assms
proof (induction n arbitrary: k s)
  case 0
  then show ?case by simp
next
  case (Suc n)
  note g = geometry_nbits [OF Suc.prems(2)]
  have u: "unat (of_nat (4096 * k) :: uint) = 4096 * k"
    using Suc.prems(6) g by (intro unat_of_nat_uint) simp
  have lt: "(of_nat (4096 * k) :: uint) < sb_size (a_sb D) \<longleftrightarrow> k < nbm D"
    unfolding word_less_nat_alt u nbm_less ..
  show ?case
  proof (cases "k < nbm D")
    case False
    with Suc.prems(6) lt show ?thesis by (simp add: nbits_nbm)
  next
    case True
    let ?bm = "bmblock D (of_nat (4096 * k))"
    have "?bm \<in> meta D" using True by (auto simp: meta_def nbits_nbm intro!: exI [of _ "4096 * k"])
    then obtain b s1 where b: "bread dev ?bm s = Inr (b, s1)" "b_data (bufs s1 ! b) = D ?bm"
      "\<exists>s2. brelse b s1 = Inr s2 \<and> dstep dev D s s2"
      "\<forall>bs. \<exists>s2 s3. bwrite b (put_data b bs s1) = Inr s2 \<and> brelse b s2 = Inr s3 \<and> dstep dev (D(?bm := bs)) s s3"
      using use_block [OF Suc.prems(1), of ?bm] Suc.prems(3,4) by blast
    have bb: "BBLOCK (of_nat (4096 * k)) (sb_ninodes (a_sb D)) = ?bm" by (simp add: bmblock_def)
    show ?thesis
    proof (cases "find (bit_clear (D ?bm)) [0..<4096]")
      case None
      from b(3) obtain s2 where s2: "brelse b s1 = Inr s2" "dstep dev D s s2" by blast
      have eq: "balloc_loop (Suc n) dev (a_sb D) (of_nat (4096 * k)) s =
          balloc_loop n dev (a_sb D) (of_nat (4096 * Suc k)) s2"
        using lt True b(1,2) None s2(1) bb by (simp add: BPB_def algebra_simps)
      have "case find (\<lambda>b. \<not> used D (of_nat b)) [4096 * Suc k..<nbits D] of
          Some b \<Rightarrow> \<exists>s'. balloc_loop n dev (a_sb D) (of_nat (4096 * Suc k)) s2 = Inr (of_nat b, s') \<and>
            dstep dev (mark D (of_nat b)) s2 s'
        | None \<Rightarrow> balloc_loop n dev (a_sb D) (of_nat (4096 * Suc k)) s2 = Inl (Panic ''balloc: out of blocks'')"
        using Suc.prems True s2(2) by (intro Suc.IH) (auto simp: dstepD intro: can_dstep)
      with scan_block [OF Suc.prems(2) True] None show ?thesis
        unfolding eq by (auto split: option.splits intro: dstep_trans [OF s2(2)])
    next
      case (Some i)
      then have i: "i < 4096" using find_Some_mem by fastforce
      have ki: "4096 * k + i < 4294967296" using True g i by (simp add: nbits_nbm)
      obtain s2 s3 where "bwrite b (put_data b (set_bit_at (D ?bm) i) s1) = Inr s2" "brelse b s2 = Inr s3"
        "dstep dev (mark D (of_nat (4096 * k + i))) s s3"
        using b(4) unfolding used_position(3) [OF ki i] by meson
      with scan_block [OF Suc.prems(2) True] Some lt True b(1,2) bb show ?thesis by simp
    qed
  qed
qed

lemma balloc_ok:
  assumes "can s dev N" and "geometry (adisk s dev)" and "meta (adisk s dev) \<subseteq> N"
  shows "case first_free (adisk s dev) of
      Some b \<Rightarrow> \<exists>s'. balloc dev s = Inr (of_nat b, s') \<and> dstep dev (mark (adisk s dev) (of_nat b)) s s'
    | None \<Rightarrow> balloc dev s = Inl (Panic ''balloc: out of blocks'')"
proof -
  let ?D = "adisk s dev"
  have "1 \<in> N" using assms(3) by (auto simp: meta_def)
  then obtain s1 where s1: "readsb dev s = Inr (a_sb ?D, s1)" "dstep dev ?D s s1"
    using readsb_ok [OF assms(1)] by blast
  have "case find (\<lambda>b. \<not> used ?D (of_nat b)) [4096 * 0..<nbits ?D] of
      Some b \<Rightarrow> \<exists>s'. balloc_loop (unat (sb_size (a_sb ?D)) div 4096 + 2) dev (a_sb ?D) (of_nat (4096 * 0)) s1 = Inr (of_nat b, s') \<and>
        dstep dev (mark ?D (of_nat b)) s1 s'
    | None \<Rightarrow> balloc_loop (unat (sb_size (a_sb ?D)) div 4096 + 2) dev (a_sb ?D) (of_nat (4096 * 0)) s1 = Inl (Panic ''balloc: out of blocks'')"
    using assms s1(2)
    by (intro balloc_loop_ok [of s1 dev N]) (auto simp: dstepD nbm_def intro: can_dstep)
  then show ?thesis
    using s1
    by (auto simp: balloc_def first_free_def simp del: balloc_loop.simps split: option.splits intro: dstep_trans [OF s1(2)])
qed

section \<open>Bits of the bitmap\<close>

lemma bit_clear_iff: "bit_clear bs i \<longleftrightarrow> \<not> bit (bs ! (i div 8)) (i mod 8)"
  by (simp add: bit_clear_def push_bit_eq_mult and_exp_eq_0_iff_not_bit)

lemma div_mod_eq_iff: "(i :: nat) div k = j div k \<Longrightarrow> i mod k = j mod k \<longleftrightarrow> i = j"
  by (metis div_mult_mod_eq)

lemma bit_clear_set [simp]:
  assumes "i < 8 * length bs" and "j < 8 * length bs"
  shows "bit_clear (set_bit_at bs i) j \<longleftrightarrow> bit_clear bs j \<and> j \<noteq> i"
proof (cases "i div 8 = j div 8")
  case True
  have "i div 8 < length bs" "j mod 8 < 8" using assms by auto
  with True div_mod_eq_iff [OF True] show ?thesis
    by (auto simp: bit_clear_iff set_bit_at_def bit_or_iff bit_exp_iff)
qed (auto simp: bit_clear_iff set_bit_at_def)

lemma bit_clear_clear [simp]:
  assumes "i < 8 * length bs" and "j < 8 * length bs"
  shows "bit_clear (clear_bit_at bs i) j \<longleftrightarrow> bit_clear bs j \<or> j = i"
proof (cases "i div 8 = j div 8")
  case True
  have "i div 8 < length bs" "j mod 8 < 8" using assms by auto
  with True div_mod_eq_iff [OF True] show ?thesis
    by (auto simp: bit_clear_iff clear_bit_at_def bit_and_iff bit_not_iff bit_exp_iff)
qed (auto simp: bit_clear_iff clear_bit_at_def)

lemma clear_set_bit:
  assumes "i < 8 * length bs" and "bit_clear bs i"
  shows "clear_bit_at (set_bit_at bs i) i = bs"
proof -
  have l: "i div 8 < length bs" using assms(1) by auto
  have "(bs ! (i div 8) OR push_bit (i mod 8) 1) AND NOT (push_bit (i mod 8) 1) = bs ! (i div 8)"
    using assms(2)
    by (intro bit_word_eqI) (auto simp: bit_clear_iff bit_and_iff bit_or_iff bit_not_iff bit_exp_iff)
  with l show ?thesis by (simp add: clear_bit_at_def set_bit_at_def)
qed

lemma length_set_bit [simp]: "length (set_bit_at bs i) = length bs" "length (clear_bit_at bs i) = length bs"
  by (simp_all add: set_bit_at_def clear_bit_at_def)

text \<open>Where the bitmap is.\<close>

lemma unat_BBLOCK:
  assumes "unat ni \<le> 0x10000000"
  shows "unat (BBLOCK b ni) = unat b div 4096 + unat ni div 8 + 3"
proof -
  have "unat b div 4096 < 0x100000" using unat_uint_less [of b] by (simp add: div_less_iff_less_mult)
  moreover have "unat ni div 8 \<le> 0x2000000" using div_le_mono [OF assms, of 8] by simp
  ultimately show ?thesis
    unfolding BBLOCK_def by (simp add: unat_word_ariths BPB_def IPB_def)
qed

lemma bmblock_range:
  assumes "geometry D"
  shows "unat (bmblock D b) = unat b div 4096 + unat (sb_ninodes (a_sb D)) div 8 + 3"
    and "bmblock D b < 0x10000000" and "bmblock D b \<noteq> 1"
    and "bmblock D b = bmblock D c \<longleftrightarrow> unat b div 4096 = unat c div 4096"
    and "length (D (bmblock D b)) = 512"
proof -
  have n: "unat (sb_ninodes (a_sb D)) \<le> 0x10000000" using assms by (simp add: geometry_def)
  show u: "unat (bmblock D b) = unat b div 4096 + unat (sb_ninodes (a_sb D)) div 8 + 3" for b
    by (simp add: bmblock_def unat_BBLOCK [OF n])
  have "unat b div 4096 < 0x100000" using unat_uint_less [of b] by (simp add: div_less_iff_less_mult)
  moreover have "unat (sb_ninodes (a_sb D)) div 8 \<le> 0x2000000" using div_le_mono [OF n, of 8] by simp
  ultimately show l: "bmblock D b < 0x10000000" by (simp add: word_less_nat_alt u)
  show "bmblock D b \<noteq> 1"
  proof
    assume "bmblock D b = 1"
    with u [of b] show False by simp
  qed
  show "bmblock D b = bmblock D c \<longleftrightarrow> unat b div 4096 = unat c div 4096"
    unfolding word_unat_eq_iff u by simp
  show "length (D (bmblock D b)) = 512" using assms l by (simp add: geometry_def BSIZE_def)
qed

lemma bitmap_index:
  "unat (b mod BPB :: uint) = unat b mod 4096"
  by (simp add: unat_mod BPB_def)

text \<open>Changing bits of the bitmap.\<close>

lemma a_sb_upd [simp]: "n \<noteq> 1 \<Longrightarrow> a_sb (D(n := x)) = a_sb D"
  by (simp add: a_sb_def)

lemma bm_upd:
  assumes "geometry D" and "length x = BSIZE"
  shows "geometry (D(bmblock D b := x))" "a_sb (D(bmblock D b := x)) = a_sb D"
    "bmblock (D(bmblock D b := x)) = bmblock D"
proof -
  note n = bmblock_range(3) [OF assms(1), of b]
  show a: "a_sb (D(bmblock D b := x)) = a_sb D" using n by simp
  then show "bmblock (D(bmblock D b := x)) = bmblock D" by (simp add: bmblock_def fun_eq_iff)
  show "geometry (D(bmblock D b := x))" using assms a by (auto simp: geometry_def)
qed

lemma bm_mark:
  assumes "geometry D"
  shows "geometry (mark D b)" "a_sb (mark D b) = a_sb D" "bmblock (mark D b) = bmblock D"
    "geometry (unmark D b)" "a_sb (unmark D b) = a_sb D" "bmblock (unmark D b) = bmblock D"
  using bm_upd [OF assms] bmblock_range(5) [OF assms] by (simp_all add: mark_def unmark_def BSIZE_def)

lemma used_upd:
  assumes "geometry D" and "length x = BSIZE"
  shows "used (D(bmblock D b := x)) c \<longleftrightarrow>
    (if unat c div 4096 = unat b div 4096 then \<not> bit_clear x (unat c mod 4096) else used D c)"
  using bmblock_range(4) [OF assms(1), of c b] by (simp add: used_def bm_upd [OF assms] bitmap_index)

lemma used_mark:
  assumes "geometry D"
  shows "used (mark D b) c \<longleftrightarrow> used D c \<or> c = b" and "used (unmark D b) c \<longleftrightarrow> used D c \<and> c \<noteq> b"
proof -
  have e: "unat c div 4096 = unat b div 4096 \<Longrightarrow> unat c mod 4096 = unat b mod 4096 \<longleftrightarrow> c = b"
    by (metis div_mod_eq_iff word_unat_eq_iff)
  have e': "unat c div 4096 \<noteq> unat b div 4096 \<Longrightarrow> c \<noteq> b" by auto
  let ?bs = "D (bmblock D b)"
  have l: "length (set_bit_at ?bs k) = BSIZE" "length (clear_bit_at ?bs k) = BSIZE" for k
    using bmblock_range(5) [OF assms] by (simp_all add: BSIZE_def)
  have i: "unat c mod 4096 < 8 * length ?bs" "unat b mod 4096 < 8 * length ?bs"
    using bmblock_range(5) [OF assms] by simp_all
  have u: "used D c \<longleftrightarrow> \<not> bit_clear ?bs (unat c mod 4096)" if "unat c div 4096 = unat b div 4096"
    using that bmblock_range(4) [OF assms, of c b] by (simp add: used_def bitmap_index)
  show "used (mark D b) c \<longleftrightarrow> used D c \<or> c = b"
    unfolding mark_def bitmap_index used_upd [OF assms l(1)] bit_clear_set [OF i(2,1)] using u e e' by auto
  show "used (unmark D b) c \<longleftrightarrow> used D c \<and> c \<noteq> b"
    unfolding unmark_def bitmap_index used_upd [OF assms l(2)] bit_clear_clear [OF i(2,1)] using u e e' by auto
qed

lemma unmark_mark:
  assumes "geometry D" and "\<not> used D b"
  shows "unmark (mark D b) b = D"
proof -
  have "unat b mod 4096 < 8 * length (D (bmblock D b))"
    using bmblock_range(5) [OF assms(1)] by simp
  moreover have "bit_clear (D (bmblock D b)) (unat b mod 4096)"
    using assms(2) by (simp add: used_def bitmap_index)
  ultimately have "clear_bit_at (set_bit_at (D (bmblock D b)) (unat b mod 4096)) (unat b mod 4096) = D (bmblock D b)"
    by (rule clear_set_bit)
  then show ?thesis
    unfolding unmark_def bm_mark(3) [OF assms(1)] unfolding mark_def bitmap_index by simp
qed

section \<open>Freeing\<close>

lemma bfree_ok:
  assumes "can s dev N" and "geometry (adisk s dev)" and "meta (adisk s dev) \<subseteq> N" and "b \<in> N"
    and "b \<notin> meta (adisk s dev)" and "unat b < nbits (adisk s dev)"
  shows "if used (adisk s dev) b
    then \<exists>s'. bfree dev b s = Inr s' \<and> dstep dev (unmark ((adisk s dev)(b := replicate BSIZE 0)) b) s s'
    else bfree dev b s = Inl (Panic ''freeing free block'')"
proof -
  let ?D = "adisk s dev" and ?E = "(adisk s dev)(b := replicate BSIZE 0)"
  have m: "bmblock ?D b \<in> meta ?D" using assms(6) by (auto simp: meta_def intro!: exI [of _ "unat b"])
  then have ne: "b \<noteq> 1" "b \<noteq> bmblock ?D b" using assms(5) by (auto simp: meta_def)
  have sb: "a_sb ?E = a_sb ?D" "bmblock ?E = bmblock ?D" "?E (bmblock ?D b) = ?D (bmblock ?D b)"
    using ne by (auto simp: bmblock_def fun_eq_iff)
  obtain s1 where 1: "bzero dev b s = Inr s1" "dstep dev ?E s s1" using bzero_ok [OF assms(1,4)] by blast
  note c1 = can_dstep [OF assms(1) 1(2)]
  obtain s2 where 2: "readsb dev s1 = Inr (a_sb ?E, s2)" "dstep dev ?E s1 s2"
    using readsb_ok [OF c1] assms(3) dstepD(5) [OF 1(2)] by (auto simp: meta_def)
  note s12 = dstep_trans [OF 1(2) 2(2)]
  have mN: "bmblock ?D b \<in> N" using m assms(3) by blast
  obtain p s3 where 3: "bread dev (bmblock ?D b) s2 = Inr (p, s3)" "b_data (bufs s3 ! p) = ?D (bmblock ?D b)"
    "\<forall>bs. \<exists>s4 s5. bwrite p (put_data p bs s3) = Inr s4 \<and> brelse p s4 = Inr s5 \<and>
       dstep dev (?E(bmblock ?D b := bs)) s2 s5"
    using use_block [OF can_dstep [OF assms(1) s12] mN] dstepD(5) [OF s12] sb(3) by auto
  have bb: "BBLOCK b (sb_ninodes (a_sb ?E)) = bmblock ?D b" by (simp add: sb bmblock_def)
  show ?thesis
  proof (cases "used ?D b")
    case False
    with 1(1) 2(1) 3(1,2) bb show ?thesis by (simp add: bfree_def used_def)
  next
    case True
    obtain s4 s5 where "bwrite p (put_data p (clear_bit_at (?D (bmblock ?D b)) (unat (b mod BPB))) s3) = Inr s4"
      "brelse p s4 = Inr s5" "dstep dev (?E(bmblock ?D b := clear_bit_at (?D (bmblock ?D b)) (unat (b mod BPB)))) s2 s5"
      using 3(3) by meson
    moreover have "unmark ?E b = ?E(bmblock ?D b := clear_bit_at (?D (bmblock ?D b)) (unat (b mod BPB)))"
      using sb by (simp only: unmark_def)
    ultimately show ?thesis
      using True 1(1) 2(1) 3(1,2) bb dstep_trans [OF s12] by (simp add: bfree_def used_def)
  qed
qed

section \<open>Theorems\<close>

lemma first_free_Some:
  assumes "b < nbits D" and "\<not> used D (of_nat b)"
  shows "\<exists>c. first_free D = Some c \<and> c < nbits D \<and> \<not> used D (of_nat c) \<and> (\<forall>d<c. used D (of_nat d))"
proof -
  have "first_free D \<noteq> None" using assms by (auto simp: first_free_def find_None_iff)
  then obtain c where c: "first_free D = Some c" by blast
  then obtain i where "i < nbits D" "\<not> used D (of_nat ([0..<nbits D] ! i))" "c = [0..<nbits D] ! i"
    "\<forall>j<i. used D (of_nat ([0..<nbits D] ! j))" by (auto simp: first_free_def find_Some_iff)
  with c show ?thesis by auto
qed

text \<open>C20: \<open>balloc\<close> returns the lowest block whose bit in the bitmap is clear, sets that bit and
  changes nothing else on any disk; when every bit is set it panics.\<close>

theorem balloc_correct:
  assumes "can s dev N" and "geometry (adisk s dev)" and "meta (adisk s dev) \<subseteq> N"
  shows "((\<exists>b < nbits (adisk s dev). \<not> used (adisk s dev) (of_nat b)) \<longrightarrow>
      (\<exists>b s'. balloc dev s = Inr (b, s') \<and> bcache_ok s' \<and> unat b < nbits (adisk s dev) \<and>
        \<not> used (adisk s dev) b \<and> (\<forall>c < unat b. used (adisk s dev) (of_nat c)) \<and>
        (\<forall>c. used (adisk s' dev) c \<longleftrightarrow> used (adisk s dev) c \<or> c = b) \<and>
        (\<forall>n. n \<noteq> bmblock (adisk s dev) b \<longrightarrow> adisk s' dev n = adisk s dev n) \<and>
        (\<forall>d. d \<noteq> dev \<longrightarrow> adisk s' d = adisk s d))) \<and>
    ((\<forall>b < nbits (adisk s dev). used (adisk s dev) (of_nat b)) \<longrightarrow>
      balloc dev s = Inl (Panic ''balloc: out of blocks''))"
proof (rule conjI)
  note b = balloc_ok [OF assms]
  show "(\<forall>b < nbits (adisk s dev). used (adisk s dev) (of_nat b)) \<longrightarrow>
      balloc dev s = Inl (Panic ''balloc: out of blocks'')"
    using b by (auto simp: first_free_def find_None_iff split: option.splits dest!: find_Some_mem)
  show "(\<exists>b < nbits (adisk s dev). \<not> used (adisk s dev) (of_nat b)) \<longrightarrow> (\<exists>b s'. balloc dev s = Inr (b, s') \<and>
        bcache_ok s' \<and> unat b < nbits (adisk s dev) \<and>
        \<not> used (adisk s dev) b \<and> (\<forall>c < unat b. used (adisk s dev) (of_nat c)) \<and>
        (\<forall>c. used (adisk s' dev) c \<longleftrightarrow> used (adisk s dev) c \<or> c = b) \<and>
        (\<forall>n. n \<noteq> bmblock (adisk s dev) b \<longrightarrow> adisk s' dev n = adisk s dev n) \<and>
        (\<forall>d. d \<noteq> dev \<longrightarrow> adisk s' d = adisk s d))"
  proof
    assume "\<exists>b < nbits (adisk s dev). \<not> used (adisk s dev) (of_nat b)"
    then obtain c where c: "first_free (adisk s dev) = Some c" "c < nbits (adisk s dev)"
      "\<not> used (adisk s dev) (of_nat c)" "\<forall>d<c. used (adisk s dev) (of_nat d)" using first_free_Some by blast
    then obtain s' where s': "balloc dev s = Inr (of_nat c, s')" "dstep dev (mark (adisk s dev) (of_nat c)) s s'"
      using b by auto
    have "unat (of_nat c :: uint) = c"
      using c(2) geometry_nbits(1) [OF assms(2)] by (intro unat_of_nat_uint) simp
    with s' c show "\<exists>b s'. balloc dev s = Inr (b, s') \<and> bcache_ok s' \<and> unat b < nbits (adisk s dev) \<and>
        \<not> used (adisk s dev) b \<and> (\<forall>c < unat b. used (adisk s dev) (of_nat c)) \<and>
        (\<forall>c. used (adisk s' dev) c \<longleftrightarrow> used (adisk s dev) c \<or> c = b) \<and>
        (\<forall>n. n \<noteq> bmblock (adisk s dev) b \<longrightarrow> adisk s' dev n = adisk s dev n) \<and>
        (\<forall>d. d \<noteq> dev \<longrightarrow> adisk s' d = adisk s d)"
      by (intro exI [of _ "of_nat c"] exI [of _ s']) (simp add: dstepD [OF s'(2)] used_mark [OF assms(2)], simp add: mark_def)
  qed
qed

text \<open>\<open>bfree\<close> undoes \<open>balloc\<close>. Freeing the block that was just allocated restores every
  block of the disk, the bitmap included, except that the freed block is zeroed; freeing it once more
  panics.\<close>

theorem balloc_bfree:
  assumes "can s dev N" and "geometry (adisk s dev)" and "meta (adisk s dev) \<subseteq> N"
    and "balloc dev s = Inr (b, s')" and "b \<in> N" and "b \<notin> meta (adisk s dev)"
  shows "\<exists>s''. bfree dev b s' = Inr s'' \<and> bcache_ok s'' \<and>
    adisk s'' = (adisk s)(dev := (adisk s dev)(b := replicate BSIZE 0)) \<and>
    bfree dev b s'' = Inl (Panic ''freeing free block'')"
proof -
  let ?D = "adisk s dev"
  obtain c where c: "first_free ?D = Some c" "b = of_nat c" and st: "dstep dev (mark ?D b) s s'"
    using balloc_ok [OF assms(1-3)] assms(4) by (auto split: option.splits)
  then have cc: "c < nbits ?D" "\<not> used ?D b" by (auto simp: first_free_def dest!: find_Some_mem)
  have u: "unat b = c" unfolding c(2) using cc geometry_nbits(1) [OF assms(2)] by (intro unat_of_nat_uint) simp
  note mk = bm_mark [OF assms(2), of b]
  have me: "meta (mark ?D b) = meta ?D" "nbits (mark ?D b) = nbits ?D"
    by (simp_all add: meta_def nbits_def mk)
  have "bmblock ?D b \<in> meta ?D" using cc(1) u by (auto simp: meta_def intro!: exI [of _ c] simp: c(2))
  then have ne: "b \<noteq> 1" "bmblock ?D b \<noteq> b" using assms(6) by (auto simp: meta_def)
  have "used (mark ?D b) b" by (simp add: used_mark [OF assms(2)])
  then obtain s'' where s'': "bfree dev b s' = Inr s''" "dstep dev (unmark ((mark ?D b)(b := replicate BSIZE 0)) b) s' s''"
    using bfree_ok [OF can_dstep [OF assms(1) st], of b] assms(3,5,6) cc(1) u by (auto simp: dstepD(5) [OF st] mk me)
  have bmE: "bmblock (E(b := z)) = bmblock E" for E z using ne by (auto simp: bmblock_def fun_eq_iff)
  have "unmark ((mark ?D b)(b := replicate BSIZE 0)) b = (unmark (mark ?D b) b)(b := replicate BSIZE 0)"
    unfolding unmark_def bmE mk(3) using ne by (simp add: fun_upd_twist)
  then have st2: "dstep dev (?D(b := replicate BSIZE 0)) s s''"
    using dstep_trans [OF st s''(2)] unmark_mark [OF assms(2) cc(2)] by simp
  let ?E = "?D(b := replicate BSIZE 0)"
  have "a_sb ?E = a_sb ?D" using ne by simp
  then have e: "geometry ?E" "meta ?E = meta ?D" "nbits ?E = nbits ?D" "\<not> used ?E b"
    using assms(2) cc(2) ne by (auto simp: geometry_def meta_def nbits_def bmE used_def)
  have "bfree dev b s'' = Inl (Panic ''freeing free block'')"
    using bfree_ok [OF can_dstep [OF assms(1) st2], of b] assms(3,5,6) cc(1) u e by (auto simp: dstepD(5) [OF st2])
  with s''(1) dstepD [OF st2] show ?thesis by auto
qed

text \<open>\<open>balloc\<close> does not stop at the end of the file system. When every block of it is in use
  and its size is not a multiple of 4096, so that clear bits are left in the last bitmap block, \<open>balloc\<close>
  returns a block number that is not below the size in the superblock.\<close>

theorem balloc_past_the_end:
  assumes "can s dev N" and "geometry (adisk s dev)" and "meta (adisk s dev) \<subseteq> N"
    and "\<forall>b. b < sb_size (a_sb (adisk s dev)) \<longrightarrow> used (adisk s dev) b"
    and "\<exists>b < nbits (adisk s dev). \<not> used (adisk s dev) (of_nat b)"
  shows "\<exists>b s'. balloc dev s = Inr (b, s') \<and> sb_size (a_sb (adisk s dev)) \<le> b"
proof -
  obtain c where "first_free (adisk s dev) = Some c" "\<not> used (adisk s dev) (of_nat c)"
    using first_free_Some assms(5) by blast
  with balloc_ok [OF assms(1-3)] assms(4) show ?thesis by (fastforce simp: not_less [symmetric])
qed

section \<open>A small disk\<close>

text \<open>A disk of \<open>size\<close> blocks with eight inodes: the inodes are in blocks 2 and 3, the bitmap is block
  4 and says that blocks 0 to 4 are in use.\<close>

definition img :: "uint \<Rightarrow> uint \<Rightarrow> byte list" where
  "img sz n =
     (if 0x10000000 \<le> n then []
      else if n = 1 then bytes32 sz @ bytes32 900 @ bytes32 8 @ replicate 500 0
      else if n = 4 then 0x1F # replicate 511 0
      else replicate 512 0)"

definition boot_img :: "uint \<Rightarrow> 'a \<Rightarrow> 'a diskstate_scheme" where
  "boot_img sz m = binit (boot_ext (\<lambda>_. img sz) m)"

lemma boot_img_can: "N \<subseteq> {..<0x10000000} \<Longrightarrow> can (boot_img sz m) 1 N"
  using boot_disk_ok [of "\<lambda>_. img sz" m] boot_disk_good [of _ "\<lambda>_. img sz" m]
  by (auto simp: can_def boot_img_def NBUF_def intro!: exI [of _ 0])

lemma boot_img_adisk: "adisk (boot_img sz m) 1 = img sz"
proof
  fix n
  have "good_block (boot_img sz m) 1 n \<longleftrightarrow> n < 0x10000000"
    using boot_disk_good [of n "\<lambda>_. img sz" m] by (auto simp: boot_img_def good_block_def)
  moreover have "disk (boot_img sz m) = (\<lambda>_. img sz)"
    using boot_disk_ok [of "\<lambda>_. img sz" m] by (simp add: boot_img_def boot_ext_def)
  ultimately show "adisk (boot_img sz m) 1 n = img sz n"
    by (auto simp: adisk_def sector_of_def img_def)
qed

lemma img_sb: "a_sb (img sz) = \<lparr>sb_size = sz, sb_nblocks = 900, sb_ninodes = 8\<rparr>"
  by (simp add: a_sb_def img_def get_sb_def get32_def bytes32_def join32 word_le_nat_alt)

lemma img_geometry: "unat sz \<le> 0xFFFF000 \<Longrightarrow> geometry (img sz)"
  by (auto simp: geometry_def img_sb img_def BSIZE_def not_le)

lemma img_bmblock: "n < 4096 \<Longrightarrow> bmblock (img sz) (of_nat n) = 4"
proof -
  assume n: "n < 4096"
  have u: "unat (bmblock (img sz) (of_nat n)) = 4"
    using n by (simp add: bmblock_def img_sb unat_BBLOCK unat_of_nat_uint)
  show ?thesis by (rule word_unat_eq_iff [THEN iffD2]) (simp add: u)
qed

lemma img_used: "n < 4096 \<Longrightarrow> used (img sz) (of_nat n) \<longleftrightarrow> n < 5"
proof -
  assume n: "n < 4096"
  have "bit (0x1F :: byte) k \<longleftrightarrow> k < 5" if "k < 8" for k
  proof -
    have "k \<in> {0, 1, 2, 3, 4, 5, 6, 7}" using that by auto
    then show ?thesis by (elim insertE emptyE) simp_all
  qed
  moreover have "n div 8 < 512" using n by auto
  moreover have "n div 8 = 0 \<longleftrightarrow> n < 8" by auto
  ultimately show ?thesis
    using n by (cases "n < 8") (auto simp: used_def img_bmblock bitmap_index unat_of_nat_uint bit_clear_iff img_def nth_Cons')
qed

lemma img_meta:
  assumes "0 < sz" and "unat sz \<le> 4096"
  shows "nbits (img sz) = 4096" "meta (img sz) = {1, 4}"
proof -
  have "0 < unat sz" using assms(1) by (simp add: word_less_nat_alt)
  then have "(unat sz + 4095) div 4096 = 1" using assms(2) by (intro div_nat_eqI) simp_all
  then show n: "nbits (img sz) = 4096" by (simp add: nbits_def img_sb)
  show "meta (img sz) = {1, 4}"
    unfolding meta_def n using img_bmblock [of _ sz] img_bmblock [of 0 sz] by (auto intro!: exI [of _ 0])
qed

lemma img_balloc:
  assumes "0 < sz" and "unat sz \<le> 4096"
  shows "\<exists>s'. balloc 1 (boot_img sz m) = Inr (5, s')"
proof -
  have "nbits (img sz) = 4096" using img_meta [OF assms] by simp
  then obtain c where c: "first_free (img sz) = Some c" "c < 4096" "\<not> used (img sz) (of_nat c)"
    "\<forall>d<c. used (img sz) (of_nat d)"
    using first_free_Some [of 5 "img sz"] img_used [of 5 sz] by auto
  then have "\<not> c < 5" "\<not> 5 < c" using img_used [of c sz] img_used [of 5 sz] by (simp, fastforce dest: spec [of _ "5 :: nat"])
  then have f: "first_free (img sz) = Some 5" using c(1) by simp
  show ?thesis
    using balloc_ok [OF boot_img_can [of "{1, 4}" sz m]] img_geometry [of sz] img_meta [OF assms] assms(2) f
    by (auto simp: boot_img_adisk word_less_nat_alt)
qed

theorem balloc_correct_witness:
  "\<exists>b s'. balloc 1 (boot_img 1000 ()) = Inr (b, s') \<and> \<not> used (img 1000) b \<and> used (adisk s' 1) b \<and>
    adisk s' 1 7 = replicate 512 0"
proof -
  have c: "can (boot_img 1000 ()) 1 {1, 4}" by (rule boot_img_can) simp
  have m: "meta (img 1000) = {1, 4}" "nbits (img 1000) = 4096" by (simp_all add: img_meta)
  have "\<exists>b<4096. \<not> used (img 1000) (of_nat b)" using img_used [of 5 1000] by (intro exI [of _ 5]) simp
  with balloc_correct [OF c] m img_geometry [of 1000] obtain b s' where
    1: "balloc 1 (boot_img 1000 ()) = Inr (b, s')" "unat b < 4096" "\<not> used (img 1000) b" "used (adisk s' 1) b"
    and n: "\<forall>n. n \<noteq> bmblock (img 1000) b \<longrightarrow> adisk s' 1 n = img 1000 n"
    unfolding boot_img_adisk by auto
  have "bmblock (img 1000) b = 4" using img_bmblock [OF 1(2), of 1000] by simp
  with n have "adisk s' 1 7 = img 1000 7" by simp
  with 1 show ?thesis by (auto simp: img_def)
qed

theorem balloc_bfree_witness:
  "\<exists>s' s''. balloc 1 (boot_img 1000 ()) = Inr (5, s') \<and> bfree 1 5 s' = Inr s'' \<and> adisk s'' 1 = img 1000 \<and>
    bfree 1 5 s'' = Inl (Panic ''freeing free block'')"
proof -
  obtain s' where s': "balloc 1 (boot_img 1000 ()) = Inr (5, s')" using img_balloc [of 1000 "()"] by auto
  have c: "can (boot_img 1000 ()) 1 {1, 4, 5}" by (rule boot_img_can) simp
  have m: "meta (img 1000) = {1, 4}" by (simp add: img_meta)
  from balloc_bfree [OF c _ _ s'] m img_geometry [of 1000] obtain s'' where
    "bfree 1 5 s' = Inr s''" "adisk s'' 1 = (img 1000)(5 := replicate BSIZE 0)"
    "bfree 1 5 s'' = Inl (Panic ''freeing free block'')" unfolding boot_img_adisk by auto
  moreover have "(img 1000)(5 := replicate BSIZE 0) = img 1000" by (auto simp: fun_eq_iff img_def BSIZE_def)
  ultimately show ?thesis using s' by auto
qed

theorem balloc_past_the_end_witness:
  "\<exists>b s'. balloc 1 (boot_img 5 ()) = Inr (b, s') \<and> 5 \<le> b"
proof -
  have c: "can (boot_img 5 ()) 1 {1, 4}" by (rule boot_img_can) simp
  have m: "meta (img 5) = {1, 4}" "nbits (img 5) = 4096" by (simp_all add: img_meta)
  have u: "used (img 5) b" if "b < 5" for b
    using img_used [of "unat b" 5] that by (simp add: word_less_nat_alt)
  have "\<exists>b<4096. \<not> used (img 5) (of_nat b)" using img_used [of 5 5] by (intro exI [of _ 5]) simp
  with balloc_past_the_end [OF c] m u img_geometry [of 5] show ?thesis
    unfolding boot_img_adisk img_sb by auto
qed

end
