(* ===== verification/FsFile.thy ===== *)
theory FsFile
  imports FsBlocks
begin

unbundle bit_operations_syntax

text \<open>
  Correctness of file contents (\<open>bmap\<close>, \<open>readi\<close>, \<open>writei\<close> of \<^verbatim>\<open>fs.c\<close>).

  The block map is first shown to compute the pure function \<open>a_bmap\<close> of the disk and the inode's
  addresses. The contents of a file are then the bytes of its blocks in order, and \<open>readi\<close> and
  \<open>writei\<close> refine reading and overwriting a range of a byte list.
\<close>

section \<open>Inodes and the cache\<close>

lemma inodes_frame [simp]:
  "bcache_ok (s\<lparr>inodes := I\<rparr>) = bcache_ok s" "held (s\<lparr>inodes := I\<rparr>) = held s"
  "good_block (s\<lparr>inodes := I\<rparr>) = good_block s"
  by (simp_all add: bcache_ok_def ide_idle_def quiet_def cpu_ok_def mycpu_def free_lock_def ide_ready_def myproc_def
      buf_ok_def dev_ok_def sector_of_def held_def good_block_def fun_eq_iff)

lemma adisk_inodes [simp]: "adisk (s\<lparr>inodes := I\<rparr>) = adisk s"
  by (simp add: adisk_def sector_of_def fun_eq_iff)

lemma can_inodes [simp]: "can (s\<lparr>inodes := I\<rparr>) = can s"
  by (simp add: can_def fun_eq_iff)

lemma bstep_inodes: "bstep s s' \<Longrightarrow> inodes s' = inodes s"
  by (auto simp: bstep_def)

lemma bstep_upd_inodes: "bstep s s' \<Longrightarrow> bstep (s\<lparr>inodes := I\<rparr>) (s'\<lparr>inodes := I\<rparr>)"
  unfolding bstep_def by (elim exE, intro exI conjI, rule fsstate.equality) auto

lemma dstep_inodes: "dstep dev D s s' \<Longrightarrow> inodes s' = inodes s"
  by (auto simp: dstep_def bstep_inodes)

lemma dstep_upd_inodes: "dstep dev D s s' \<Longrightarrow> dstep dev D (s\<lparr>inodes := I\<rparr>) (s'\<lparr>inodes := I\<rparr>)"
  by (simp add: dstep_def bstep_upd_inodes)

lemma dstep_then:
  assumes "dstep dev D (s\<lparr>inodes := I\<rparr>) s1" and "dstep dev D' (s1\<lparr>inodes := J\<rparr>) s2"
  shows "dstep dev D' (s\<lparr>inodes := J\<rparr>) s2"
  using dstep_trans [OF dstep_upd_inodes [OF assms(1), of J] assms(2)] by simp

text \<open>A block that is held while others are used.\<close>

lemma hold_block:
  assumes "can s dev N" and "n \<in> N"
  shows "\<exists>b s1. bread dev n s = Inr (b, s1) \<and> bstep s s1 \<and> bcache_ok s1 \<and> adisk s1 = adisk s \<and>
    held s b = None \<and> held s1 = (held s)(b \<mapsto> (dev, n, adisk s dev n))"
proof -
  note c = canD [OF assms(1)]
  obtain b s1 where 1: "bread dev n s = Inr (b, s1)" "bstep s s1" "bcache_ok s1" "sector_of s1 = sector_of s"
    "held s b = None" "held s1 = (held s)(b \<mapsto> (dev, n, sector_of s dev n))"
    using bc.rd_law [OF c(1) c(3) [OF assms(2)] c(2) c(4) [OF assms(2)]] by blast
  have "adisk s1 = adisk s" using 1(4) bc.good_step [OF 1(2)] by (simp add: adisk_def fun_eq_iff)
  moreover have "adisk s dev n = sector_of s dev n" using c(3) [OF assms(2)] by (simp add: adisk_def)
  ultimately show ?thesis using 1 by auto
qed

lemma held_good:
  assumes "bcache_ok s" and "held s b = Some (dev, n, old)"
  shows "good_block s dev n"
proof -
  have "buf_ok s (bufs s ! b)" "b_busy (bufs s ! b)" "b_dev (bufs s ! b) = dev" "b_sector (bufs s ! b) = n"
    using heldD [OF assms(2)] bcache_okD(1) [OF assms(1)] by auto
  then show ?thesis by (auto simp: buf_ok_def good_block_def split: if_splits)
qed

lemma drop_block:
  assumes "bcache_ok s" and "held s b = Some (dev, n, adisk s dev n)"
  shows "\<exists>s'. brelse b s = Inr s' \<and> bstep s s' \<and> bcache_ok s' \<and> adisk s' = adisk s \<and> held s' = (held s)(b := None)"
proof -
  have "adisk s dev n = sector_of s dev n" using held_good [OF assms] by (simp add: adisk_def)
  then obtain s' where "brelse b s = Inr s'" "bstep s s'" "bcache_ok s'" "sector_of s' = sector_of s" "held s' = (held s)(b := None)"
    using bc.rel_law [OF assms(1), of b dev n] assms(2) by auto
  moreover have "adisk s' = adisk s" if "bstep s s'" "sector_of s' = sector_of s"
    using that bc.good_step [OF that(1)] by (simp add: adisk_def fun_eq_iff)
  ultimately show ?thesis by blast
qed

lemma write_held:
  assumes "bcache_ok s" and "held s b = Some (dev, n, old)"
  shows "\<exists>s'. bwrite b (put_data b bs s) = Inr s' \<and> bstep s s' \<and> bcache_ok s' \<and> held s' = (held s)(b \<mapsto> (dev, n, bs)) \<and>
    adisk s' = (adisk s)(dev := (adisk s dev)(n := bs))"
proof -
  note p = bc.put_law [OF assms, of bs]
  let ?p = "put_data b bs s"
  have hp: "held ?p b = Some (dev, n, bs)" using p by simp
  obtain s' where 1: "bwrite b ?p = Inr s'" "bstep ?p s'" "bcache_ok s'" "held s' = held ?p" "sector_of s' dev n = bs"
    "\<forall>d m. good_block ?p d m \<longrightarrow> (d, m) \<noteq> (dev, n) \<longrightarrow> sector_of s' d m = sector_of ?p d m"
    using bc.wr_law [OF _ hp] p by blast
  have st: "bstep s s'" using bc.step_trans 1(2) p by blast
  have "good_block ?p = good_block s" "good_block s' = good_block s"
    using bc.good_step [OF st] bc.good_step [of s ?p] p by (auto simp: fun_eq_iff)
  then have "adisk s' = (adisk s)(dev := (adisk s dev)(n := bs))"
    using 1(5,6) p held_good [OF assms] by (auto simp: adisk_def fun_eq_iff)
  with 1 st p show ?thesis by auto
qed

section \<open>The block map\<close>

definition a_alloc :: "(uint \<Rightarrow> byte list) \<Rightarrow> (uint \<times> (uint \<Rightarrow> byte list)) option" where
  "a_alloc D = map_option (\<lambda>b. (of_nat b, mark D (of_nat b))) (first_free D)"

text \<open>Block \<open>i\<close> of a file with addresses \<open>a\<close>, 0 if there is none.\<close>

definition blk :: "(uint \<Rightarrow> byte list) \<Rightarrow> uint list \<Rightarrow> nat \<Rightarrow> uint" where
  "blk D a i =
     (if i < NDIRECT then a ! i
      else if a ! NDIRECT = 0 then 0
      else get32 (D (a ! NDIRECT)) (4 * (i - NDIRECT)))"

definition a_bmap ::
  "(uint \<Rightarrow> byte list) \<Rightarrow> uint list \<Rightarrow> nat \<Rightarrow> (uint \<times> (uint \<Rightarrow> byte list) \<times> uint list) option" where
  "a_bmap D a i =
     (if i < NDIRECT
      then if a ! i \<noteq> 0 then Some (a ! i, D, a) else map_option (\<lambda>(b, D). (b, D, a[i := b])) (a_alloc D)
      else
        Option.bind
          (if a ! NDIRECT \<noteq> 0 then Some (D, a) else map_option (\<lambda>(b, D). (D, a[NDIRECT := b])) (a_alloc D))
          (\<lambda>(D, a).
           let ib = a ! NDIRECT;
               b = get32 (D ib) (4 * (i - NDIRECT))
           in if b \<noteq> 0 then Some (b, D, a)
              else map_option (\<lambda>(b, D). (b, D(ib := put32 (D ib) (4 * (i - NDIRECT)) b), a)) (a_alloc D)))"

text \<open>Every block below the bitmap's range can be used and no buffer is handed out.\<close>

definition idle :: "'a diskstate_scheme \<Rightarrow> uint \<Rightarrow> bool" where
  "idle s dev \<longleftrightarrow> bcache_ok s \<and> held s = Map.empty \<and> dev_ok s dev"

lemma idle_can: "idle s dev \<Longrightarrow> N \<subseteq> {..<0x10000000} \<Longrightarrow> can s dev N"
  by (auto simp: idle_def can_def good_block_def NBUF_def intro!: exI [of _ 0])

lemma idle_dstep:
  assumes "idle s dev" and "dstep dev D s s'"
  shows "idle s' dev"
proof -
  have "dev_ok s' dev = dev_ok s dev" using dstepD(1) [OF assms(2)] by (auto simp: bstep_def dev_ok_def)
  with assms show ?thesis by (simp add: idle_def dstepD)
qed

lemma idle_inodes [simp]: "idle (s\<lparr>inodes := I\<rparr>) = idle s"
  by (simp add: idle_def fun_eq_iff dev_ok_def)

lemma meta_good:
  assumes "geometry D"
  shows "meta D \<subseteq> {..<0x10000000}"
  using bmblock_range(2) [OF assms] by (auto simp: meta_def)

lemma balloc_idle:
  assumes "idle s dev" and "geometry (adisk s dev)"
  shows "case a_alloc (adisk s dev) of
      Some (b, D) \<Rightarrow> \<exists>s'. balloc dev s = Inr (b, s') \<and> dstep dev D s s'
    | None \<Rightarrow> balloc dev s = Inl (Panic ''balloc: out of blocks'')"
  using balloc_ok [OF idle_can [OF assms(1) meta_good [OF assms(2)]] assms(2)]
  by (auto simp: a_alloc_def split: option.splits)

section \<open>A well-formed file system\<close>

definition data_start :: "(uint \<Rightarrow> byte list) \<Rightarrow> nat" where
  "data_start D = nbm D + unat (sb_ninodes (a_sb D)) div 8 + 3"

definition is_data :: "(uint \<Rightarrow> byte list) \<Rightarrow> uint \<Rightarrow> bool" where
  "is_data D b \<longleftrightarrow> data_start D \<le> unat b \<and> unat b < nbits D"

text \<open>The system area is marked in use, and free blocks are zero (as \<open>bfree\<close> leaves them; \<open>bmap\<close>
  relies on it when it makes a free block an indirect block).\<close>

definition fs_ok :: "(uint \<Rightarrow> byte list) \<Rightarrow> bool" where
  "fs_ok D \<longleftrightarrow> geometry D \<and> (\<forall>b. unat b < data_start D \<longrightarrow> used D b) \<and>
     (\<forall>b. is_data D b \<longrightarrow> \<not> used D b \<longrightarrow> D b = replicate BSIZE 0)"

definition nfree :: "(uint \<Rightarrow> byte list) \<Rightarrow> nat" where
  "nfree D = card {b. b < nbits D \<and> \<not> used D (of_nat b)}"

lemma layout_cong:
  assumes "a_sb E = a_sb D"
  shows "nbm E = nbm D" "nbits E = nbits D" "bmblock E = bmblock D" "data_start E = data_start D"
    "is_data E = is_data D" "meta E = meta D"
proof -
  show n: "nbm E = nbm D" "nbits E = nbits D" "bmblock E = bmblock D"
    using assms by (simp_all add: nbm_def nbits_def bmblock_def fun_eq_iff)
  then show "data_start E = data_start D" using assms by (simp add: data_start_def)
  with n show "is_data E = is_data D" "meta E = meta D" by (auto simp: is_data_def meta_def fun_eq_iff)
qed

lemma meta_low:
  assumes "geometry D" and "n \<in> meta D"
  shows "unat n < data_start D"
proof -
  have "unat (bmblock D (of_nat b)) < data_start D" if "b < nbits D" for b
  proof -
    have "unat (of_nat b :: uint) = b" using that geometry_nbits(1) [OF assms(1)] by (intro unat_of_nat_uint) simp
    moreover have "b div 4096 < nbm D" using that by (simp add: nbits_nbm div_less_iff_less_mult mult.commute)
    ultimately show ?thesis by (simp add: bmblock_range(1) [OF assms(1)] data_start_def)
  qed
  with assms(2) show ?thesis by (auto simp: meta_def data_start_def)
qed

lemma is_data_not_meta: "geometry D \<Longrightarrow> is_data D n \<Longrightarrow> n \<notin> meta D"
  using meta_low [of D n] by (auto simp: is_data_def)

lemma is_data_good: "geometry D \<Longrightarrow> is_data D n \<Longrightarrow> n < 0x10000000"
  using geometry_nbits(1) [of D] by (simp add: is_data_def word_less_nat_alt)

lemma bmblock_meta: "unat b < nbits D \<Longrightarrow> bmblock D b \<in> meta D"
  by (auto simp: meta_def intro!: exI [of _ "unat b"])

lemma fs_okD:
  assumes "fs_ok D"
  shows "geometry D" "unat b < data_start D \<Longrightarrow> used D b" "is_data D b \<Longrightarrow> \<not> used D b \<Longrightarrow> D b = replicate BSIZE 0"
    "is_data D b \<Longrightarrow> length (D b) = BSIZE" "b < 0x10000000 \<Longrightarrow> length (D b) = BSIZE"
proof -
  show g: "geometry D" using assms by (simp add: fs_ok_def)
  then show "b < 0x10000000 \<Longrightarrow> length (D b) = BSIZE" by (simp add: geometry_def)
  then show "is_data D b \<Longrightarrow> length (D b) = BSIZE" using is_data_good [OF g] by blast
qed (use assms in \<open>auto simp: fs_ok_def\<close>)

text \<open>Writing a data block.\<close>

lemma data_upd:
  assumes "geometry D" and "is_data D n"
  shows "a_sb (D(n := bs)) = a_sb D" and "b < nbits D \<Longrightarrow> used (D(n := bs)) (of_nat b) = used D (of_nat b)"
    and "unat c < nbits D \<Longrightarrow> used (D(n := bs)) c = used D c"
proof -
  have "n \<notin> meta D" using is_data_not_meta [OF assms] .
  then have 1: "n \<noteq> 1" "\<And>c. unat c < nbits D \<Longrightarrow> bmblock D c \<noteq> n" using bmblock_meta by (auto simp: meta_def)
  then show sb: "a_sb (D(n := bs)) = a_sb D" by simp
  show u: "unat c < nbits D \<Longrightarrow> used (D(n := bs)) c = used D c" for c
    using 1 layout_cong(3) [OF sb] by (simp add: used_def)
  show "b < nbits D \<Longrightarrow> used (D(n := bs)) (of_nat b) = used D (of_nat b)"
    using u [of "of_nat b"] geometry_nbits(1) [OF assms(1)] by (simp add: unat_of_nat_uint)
qed

lemma data_start_nbits: "fs_ok D \<Longrightarrow> is_data D n \<Longrightarrow> data_start D \<le> nbits D"
  by (simp add: is_data_def)

lemma fs_ok_data_upd:
  assumes "fs_ok D" and "is_data D n" and "used D n" and "length bs = BSIZE"
  shows "fs_ok (D(n := bs))" and "nfree (D(n := bs)) = nfree D"
proof -
  note g = fs_okD(1) [OF assms(1)]
  note u = data_upd [OF g assms(2)]
  have "data_start D \<le> nbits D" using assms(2) by (simp add: is_data_def)
  then show "fs_ok (D(n := bs))"
    using assms g u layout_cong [OF u(1), of bs] by (auto simp: fs_ok_def geometry_def is_data_def)
  show "nfree (D(n := bs)) = nfree D"
    using u layout_cong [OF u(1), of bs] by (simp add: nfree_def cong: conj_cong)
qed

text \<open>Allocation.\<close>

lemma a_alloc_None: "a_alloc D = None \<longleftrightarrow> nfree D = 0"
  by (auto simp: a_alloc_def first_free_def find_None_iff nfree_def)

lemma a_allocD:
  assumes "fs_ok D" and "a_alloc D = Some (b, E)"
  shows "is_data D b" "\<not> used D b" "b \<noteq> 0" "D b = replicate BSIZE 0" "E = mark D b" "fs_ok E" "a_sb E = a_sb D"
    "used E c \<longleftrightarrow> used D c \<or> c = b" "n \<notin> meta D \<Longrightarrow> E n = D n" "nfree D = Suc (nfree E)"
proof -
  note g = fs_okD(1) [OF assms(1)]
  obtain k where k: "first_free D = Some k" "b = of_nat k" "E = mark D b"
    using assms(2) by (auto simp: a_alloc_def)
  then have k2: "k < nbits D" "\<not> used D b" by (auto simp: first_free_def dest!: find_Some_mem)
  have u: "unat b = k" unfolding k(2) using k2 geometry_nbits(1) [OF g] by (intro unat_of_nat_uint) simp
  show "\<not> used D b" "E = mark D b" by fact+
  show data: "is_data D b" using k2 u fs_okD(2) [OF assms(1), of b] by (auto simp: is_data_def not_less [symmetric])
  then show "b \<noteq> 0" by (auto simp: is_data_def data_start_def)
  show z: "D b = replicate BSIZE 0" using fs_okD(3) [OF assms(1) data k2(2)] .
  note mk = bm_mark(1,2) [OF g, of b] used_mark(1) [OF g, of b]
  show "a_sb E = a_sb D" using mk k(3) by simp
  note ly = layout_cong [OF this]
  show us: "used E c \<longleftrightarrow> used D c \<or> c = b" for c using mk k(3) by simp
  have m: "bmblock D b \<in> meta D" using k2 u bmblock_meta by blast
  show same: "n \<notin> meta D \<Longrightarrow> E n = D n" for n using m by (auto simp: k(3) mark_def)
  show "fs_ok E"
    using mk k(3) us ly fs_okD [OF assms(1)] same is_data_not_meta [OF g] by (auto simp: fs_ok_def)
  have un: "unat (of_nat c :: uint) = c" if "c < nbits D" for c
    using that geometry_nbits(1) [OF g] by (intro unat_of_nat_uint) simp
  have "{c. c < nbits D \<and> \<not> used D (of_nat c)} = insert k {c. c < nbits E \<and> \<not> used E (of_nat c)}"
  proof (intro set_eqI iffI)
    fix c assume c: "c \<in> {c. c < nbits D \<and> \<not> used D (of_nat c)}"
    then show "c \<in> insert k {c. c < nbits E \<and> \<not> used E (of_nat c)}"
      using un [of c] u by (auto simp: us ly)
  qed (use k2 k(2) us ly in auto)
  moreover have "k \<notin> {c. c < nbits E \<and> \<not> used E (of_nat c)}" using us k(2) by auto
  ultimately show "nfree D = Suc (nfree E)" by (simp add: nfree_def)
qed

section \<open>\<open>bmap\<close> computes \<open>a_bmap\<close>\<close>

text \<open>The disk after a step, with new addresses in inode \<open>ip\<close>.\<close>

definition istep :: "nat \<Rightarrow> uint list \<Rightarrow> uint \<Rightarrow> (uint \<Rightarrow> byte list) \<Rightarrow> 'a fsstate_scheme \<Rightarrow> 'a fsstate_scheme \<Rightarrow> bool" where
  "istep ip a dev D s s' \<longleftrightarrow>
     dstep dev D (s\<lparr>inodes := (inodes s)[ip := (inodes s ! ip)\<lparr>i_addrs := a\<rparr>]\<rparr>) s'"

lemma istepD:
  assumes "istep ip a dev D s s'"
  shows "inodes s' = (inodes s)[ip := (inodes s ! ip)\<lparr>i_addrs := a\<rparr>]" "adisk s' dev = D" "bcache_ok s'" "held s' = held s"
    "idle s dev \<Longrightarrow> idle s' dev"
  using assms dstep_inodes [of dev D _ s'] idle_dstep [of "s\<lparr>inodes := (inodes s)[ip := (inodes s ! ip)\<lparr>i_addrs := a\<rparr>]\<rparr>" dev D s']
  by (auto simp: istep_def dstepD)

lemma istep_same:
  assumes "dstep dev D s s'" and "a = i_addrs (inodes s ! ip)"
  shows "istep ip a dev D s s'"
proof -
  have "(inodes s)[ip := (inodes s ! ip)\<lparr>i_addrs := a\<rparr>] = inodes s"
    using assms(2) by (cases "ip < length (inodes s)") (simp_all add: list_update_beyond)
  then show ?thesis using assms(1) by (simp add: istep_def)
qed

lemma istep_upd:
  assumes "dstep dev D s s'"
  shows "istep ip (f (i_addrs (inodes s ! ip))) dev D s (upd_inode ip (\<lambda>x. x\<lparr>i_addrs := f (i_addrs x)\<rparr>) s')"
  using dstep_upd_inodes [OF assms] dstep_inodes [OF assms] by (simp add: istep_def upd_inode_def)

lemma istep_trans:
  assumes "istep ip a dev D s s1" and "istep ip a' dev D' s1 s2"
  shows "istep ip a' dev D' s s2"
proof -
  have "inodes s1 ! ip = (inodes s ! ip)\<lparr>i_addrs := a\<rparr> \<or> length (inodes s) \<le> ip"
    using istepD(1) [OF assms(1)] by (cases "ip < length (inodes s)") auto
  then have "(inodes s1)[ip := (inodes s1 ! ip)\<lparr>i_addrs := a'\<rparr>] = (inodes s)[ip := (inodes s ! ip)\<lparr>i_addrs := a'\<rparr>]"
    using istepD(1) [OF assms(1)] by (auto simp: list_update_beyond)
  then show ?thesis using dstep_then assms unfolding istep_def by metis
qed

lemma istep_dstep:
  assumes "istep ip a dev D s s1" and "dstep dev D' s1 s2"
  shows "istep ip a dev D' s s2"
  using dstep_trans assms unfolding istep_def by blast

lemma unat_of_nat_small: "i < MAXFILE \<Longrightarrow> unat (of_nat i :: uint) = i"
  by (rule unat_of_nat_uint) (simp add: MAXFILE_def NDIRECT_def NINDIRECT_def)

lemma of_nat_NDIRECT: "i < MAXFILE \<Longrightarrow> (of_nat i :: uint) < of_nat NDIRECT \<longleftrightarrow> i < NDIRECT"
  by (simp add: word_less_nat_alt unat_of_nat_small unat_of_nat_uint NDIRECT_def)

lemma bmap_index:
  assumes "i < MAXFILE" and "\<not> i < NDIRECT"
  shows "unat (of_nat i - of_nat NDIRECT :: uint) = i - NDIRECT" "(of_nat i - of_nat NDIRECT :: uint) < of_nat NINDIRECT"
proof -
  have "(of_nat i - of_nat NDIRECT :: uint) = of_nat (i - NDIRECT)" using assms(2) by (simp add: of_nat_diff)
  then show u: "unat (of_nat i - of_nat NDIRECT :: uint) = i - NDIRECT"
    using assms(1) unat_of_nat_small [of "i - NDIRECT"] by simp
  show "(of_nat i - of_nat NDIRECT :: uint) < of_nat NINDIRECT"
    unfolding word_less_nat_alt u using assms by (simp add: unat_of_nat_uint MAXFILE_def NDIRECT_def NINDIRECT_def)
qed

text \<open>The tail of the indirect case, from the indirect block \<open>ib\<close> on.\<close>

definition bmap_tail :: "nat \<Rightarrow> nat \<Rightarrow> uint \<Rightarrow> 'a fsstate_scheme \<Rightarrow> (uint \<times> 'a fsstate_scheme) res" where
  "bmap_tail ip k ib s =
     andThen (bread (i_dev (inodes s ! ip)) ib s) (\<lambda>(bp, s).
     let addr = get32 (b_data (bufs s ! bp)) k in
     andThen (if addr = 0
              then andThen (balloc (i_dev (inodes s ! ip)) s) (\<lambda>(addr, s).
                   let s = put_data bp (put32 (b_data (bufs s ! bp)) k addr) s in
                   andThen (bwrite bp s) (\<lambda>s. Inr (addr, s)))
              else Inr (addr, s)) (\<lambda>(addr, s).
     andThen (brelse bp s) (\<lambda>s. Inr (addr, s))))"

definition a_tail :: "(uint \<Rightarrow> byte list) \<Rightarrow> nat \<Rightarrow> uint \<Rightarrow> (uint \<times> (uint \<Rightarrow> byte list)) option" where
  "a_tail D k ib =
     (let b = get32 (D ib) k
      in if b \<noteq> 0 then Some (b, D)
         else map_option (\<lambda>(b, E). (b, E(ib := put32 (E ib) k b))) (a_alloc D))"

lemma bmap_indirect_eq:
  assumes "i < MAXFILE" and "\<not> i < NDIRECT"
  shows "bmap ip (of_nat i) s =
    (let addr = i_addrs (inodes s ! ip) ! NDIRECT in
     andThen (if addr = 0
              then andThen (balloc (i_dev (inodes s ! ip)) s) (\<lambda>(addr, s).
                   Inr (addr, upd_inode ip (\<lambda>x. x\<lparr>i_addrs := (i_addrs x)[NDIRECT := addr]\<rparr>) s))
              else Inr (addr, s)) (\<lambda>(addr, s). bmap_tail ip (4 * (i - NDIRECT)) addr s))"
  unfolding bmap_def bmap_tail_def Let_def of_nat_NDIRECT [OF assms(1)] bmap_index(1) [OF assms]
  using assms(2) bmap_index(2) [OF assms] by simp

lemma a_bmap_indirect_eq:
  assumes "\<not> i < NDIRECT"
  shows "a_bmap D a i = Option.bind
    (if a ! NDIRECT \<noteq> 0 then Some (D, a) else map_option (\<lambda>(b, D). (D, a[NDIRECT := b])) (a_alloc D))
    (\<lambda>(D, a). map_option (\<lambda>(b, E). (b, E, a)) (a_tail D (4 * (i - NDIRECT)) (a ! NDIRECT)))"
  using assms
  by (auto simp: a_bmap_def a_tail_def Let_def split_def option.map_comp comp_def intro!: arg_cong [where f = "Option.bind _"])

lemma bmap_indirect:
  assumes idle: "idle s dev" and fs: "fs_ok (adisk s dev)" and ib: "is_data (adisk s dev) ib" and dev: "dev = i_dev (inodes s ! ip)"
    and a: "a = i_addrs (inodes s ! ip)"
  shows "case a_tail (adisk s dev) k ib of
    Some (b, E) \<Rightarrow> \<exists>s'. bmap_tail ip k ib s = Inr (b, s') \<and> istep ip a dev E s s'
  | None \<Rightarrow> bmap_tail ip k ib s = Inl (Panic ''balloc: out of blocks'')"
proof -
  let ?D = "adisk s dev" and ?b = "get32 (adisk s dev ib) k"
  note g = fs_okD(1) [OF fs]
  have ibg: "ib < 0x10000000" "ib \<notin> meta ?D" using is_data_good [OF g ib] is_data_not_meta [OF g ib] .
  obtain bp s1 where 1: "bread dev ib s = Inr (bp, s1)" "bstep s s1" "bcache_ok s1" "adisk s1 = adisk s"
    "held s bp = None" "held s1 = (held s)(bp \<mapsto> (dev, ib, ?D ib))"
    using hold_block [OF idle_can [OF idle, of "{ib}"]] ibg by auto
  have h1: "held s1 bp = Some (dev, ib, ?D ib)" using 1(6) by simp
  have dev1: "i_dev (inodes s1 ! ip) = dev" using bstep_inodes [OF 1(2)] dev by simp
  have none: "held s = Map.empty" using idle by (simp add: idle_def)
  show ?thesis
  proof (cases "?b = 0")
    case False
    obtain s2 where 2: "brelse bp s1 = Inr s2" "bstep s1 s2" "bcache_ok s2" "adisk s2 = adisk s1" "held s2 = (held s1)(bp := None)"
      using drop_block [OF 1(3), of bp dev ib] h1 1(4) by auto
    have "dstep dev ?D s s2"
      using 1 2 bstep_trans [OF 1(2) 2(2)] by (simp add: dstep_def none)
    then have "istep ip a dev ?D s s2" using a by (rule istep_same)
    with False 1(1) 2(1) heldD(5) [OF h1] show ?thesis by (simp add: bmap_tail_def a_tail_def dev [symmetric])
  next
    case True
    have "bp < NBUF" using heldD(1) [OF h1] .
    then have "\<exists>i<NBUF. held s1 i = None"
      using 1(6) none by (intro exI [of _ "if bp = 0 then 1 else 0"]) (auto simp: NBUF_def)
    then have c1: "can s1 dev (meta ?D)"
      using 1 idle ibg(2) meta_good [OF g] bc.good_step [OF 1(2)]
      by (auto simp: can_def idle_def none good_block_def)
    note b = balloc_ok [OF c1, unfolded 1(4), OF g order_refl]
    show ?thesis
    proof (cases "first_free ?D")
      case None
      with b True 1(1) heldD(5) [OF h1] dev1 show ?thesis by (simp add: bmap_tail_def a_tail_def a_alloc_def dev [symmetric])
    next
      case (Some n)
      then obtain s2 where 2: "balloc dev s1 = Inr (of_nat n, s2)" "dstep dev (mark ?D (of_nat n)) s1 s2" using b by auto
      have al: "a_alloc ?D = Some (of_nat n, mark ?D (of_nat n))" using Some by (simp add: a_alloc_def)
      have E: "mark ?D (of_nat n) ib = ?D ib" using a_allocD(9) [OF fs al ibg(2)] .
      have h2: "held s2 bp = Some (dev, ib, ?D ib)" using h1 dstepD(3) [OF 2(2)] by simp
      obtain s3 where 3: "bwrite bp (put_data bp (put32 (?D ib) k (of_nat n)) s2) = Inr s3" "bstep s2 s3" "bcache_ok s3"
        "held s3 = (held s2)(bp \<mapsto> (dev, ib, put32 (?D ib) k (of_nat n)))"
        "adisk s3 = (adisk s2)(dev := (adisk s2 dev)(ib := put32 (?D ib) k (of_nat n)))"
        using write_held [OF dstepD(2) [OF 2(2)] h2] by blast
      obtain s4 where 4: "brelse bp s3 = Inr s4" "bstep s3 s4" "bcache_ok s4" "adisk s4 = adisk s3" "held s4 = (held s3)(bp := None)"
        using drop_block [OF 3(3), of bp dev ib] 3(4,5) by auto
      have "held s4 = held s" using 4(5) 3(4) dstepD(3) [OF 2(2)] 1(6) none by auto
      moreover have "bstep s s4"
        using bstep_trans [OF 1(2) bstep_trans [OF dstepD(1) [OF 2(2)] bstep_trans [OF 3(2) 4(2)]]] .
      moreover have "adisk s4 = (adisk s)(dev := (mark ?D (of_nat n))(ib := put32 (?D ib) k (of_nat n)))"
        using 4(4) 3(5) dstepD(4) [OF 2(2)] 1(4) by simp
      ultimately have "dstep dev ((mark ?D (of_nat n))(ib := put32 (?D ib) k (of_nat n))) s s4"
        using 4(3) by (simp add: dstep_def)
      then have "istep ip a dev ((mark ?D (of_nat n))(ib := put32 (?D ib) k (of_nat n))) s s4" using a by (rule istep_same)
      with True 1(1) 2(1) 3(1) 4(1) heldD(5) [OF h1] heldD(5) [OF h2] dev1 al E show ?thesis
        by (simp add: bmap_tail_def a_tail_def dev [symmetric])
    qed
  qed
qed

lemma bmap_ok:
  assumes idle: "idle s dev" and fs: "fs_ok (adisk s dev)" and dev: "dev = i_dev (inodes s ! ip)" and ip: "ip < length (inodes s)"
    and a: "a = i_addrs (inodes s ! ip)" "length a = Suc NDIRECT" and i: "i < MAXFILE"
    and ib: "a ! NDIRECT \<noteq> 0 \<Longrightarrow> is_data (adisk s dev) (a ! NDIRECT)"
  shows "case a_bmap (adisk s dev) a i of
      Some (b, E, a') \<Rightarrow> \<exists>s'. bmap ip (of_nat i) s = Inr (b, s') \<and> istep ip a' dev E s s'
    | None \<Rightarrow> bmap ip (of_nat i) s = Inl (Panic ''balloc: out of blocks'')"
proof (cases "i < NDIRECT")
  case True
  have "istep ip (a[i := b]) dev E s (upd_inode ip (\<lambda>x. x\<lparr>i_addrs := (i_addrs x)[i := b]\<rparr>) s')"
    if "dstep dev E s s'" for b E s'
    using istep_upd [OF that, of ip "\<lambda>a. a[i := b]"] a by simp
  moreover have "istep ip a dev (adisk s dev) s s"
    using istep_same [OF dstep_refl a(1)] idle by (simp add: idle_def)
  moreover have "bmap ip (of_nat i) s = (if a ! i = 0
      then andThen (balloc dev s) (\<lambda>(addr, s). Inr (addr, upd_inode ip (\<lambda>x. x\<lparr>i_addrs := (i_addrs x)[i := addr]\<rparr>) s))
      else Inr (a ! i, s))"
    unfolding bmap_def of_nat_NDIRECT [OF i] unat_of_nat_small [OF i] using True by (simp add: dev a(1))
  ultimately show ?thesis
    using True balloc_idle [OF idle fs_okD(1) [OF fs]]
    by (cases "a ! i = 0"; cases "a_alloc (adisk s dev)") (auto simp: a_bmap_def)
next
  case False
  show ?thesis
  proof (cases "a ! NDIRECT = 0")
    case nz: False
    show ?thesis
      using bmap_indirect [OF idle fs ib [OF nz] dev a(1), of "4 * (i - NDIRECT)"] nz
      by (auto simp: bmap_indirect_eq [OF i False] a_bmap_indirect_eq [OF False] a(1) [symmetric] split: option.splits)
  next
    case True
    show ?thesis
    proof (cases "a_alloc (adisk s dev)")
      case None
      then show ?thesis
        using True balloc_idle [OF idle fs_okD(1) [OF fs]]
        by (simp add: bmap_indirect_eq [OF i False] a_bmap_indirect_eq [OF False] dev [symmetric] a(1) [symmetric])
    next
      case (Some r)
      then obtain nb E where al: "a_alloc (adisk s dev) = Some (nb, E)" by (cases r) auto
      then obtain s1 where s1: "balloc dev s = Inr (nb, s1)" "dstep dev E s s1"
        using balloc_idle [OF idle fs_okD(1) [OF fs]] by auto
      let ?s2 = "upd_inode ip (\<lambda>x. x\<lparr>i_addrs := (i_addrs x)[NDIRECT := nb]\<rparr>) s1"
      have st: "istep ip (a[NDIRECT := nb]) dev E s ?s2" using istep_upd [OF s1(2), of ip "\<lambda>a. a[NDIRECT := nb]"] a by simp
      note A = a_allocD [OF fs al]
      have x2: "inodes ?s2 ! ip = (inodes s ! ip)\<lparr>i_addrs := a[NDIRECT := nb]\<rparr>"
        using istepD(1) [OF st] ip by simp
      have 2: "fs_ok (adisk ?s2 dev)" "is_data (adisk ?s2 dev) nb"
        using A(1,6) layout_cong(5) [OF A(7)] unfolding istepD(2) [OF st] by simp_all
      have dev2: "dev = i_dev (inodes ?s2 ! ip)" and a2: "a[NDIRECT := nb] = i_addrs (inodes ?s2 ! ip)"
        unfolding x2 by (simp_all add: dev)
      note bmap_indirect [OF istepD(5) [OF st idle] 2 dev2 a2, of "4 * (i - NDIRECT)", unfolded istepD(2) [OF st]]
      moreover have "bmap ip (of_nat i) s = bmap_tail ip (4 * (i - NDIRECT)) nb ?s2"
        using True s1(1) by (simp add: bmap_indirect_eq [OF i False] dev [symmetric] a(1) [symmetric])
      moreover have "a_bmap (adisk s dev) a i = map_option (\<lambda>(b, E'). (b, E', a[NDIRECT := nb])) (a_tail E (4 * (i - NDIRECT)) nb)"
        using True al a(2) by (simp add: a_bmap_indirect_eq [OF False])
      ultimately show ?thesis
        using istep_trans [OF st] by (cases "a_tail E (4 * (i - NDIRECT)) nb") auto
    qed
  qed
qed

end
