(* ===== verification/FsContent.thy ===== *)
theory FsContent
  imports FsFile
begin

unbundle bit_operations_syntax

text \<open>
  Files as byte lists: \<open>readi\<close> and \<open>writei\<close> of \<^verbatim>\<open>fs.c\<close> refine reading a slice of a file's contents
  and overwriting a range of them, other files are not affected, and the invariant of the file system
  is kept.
\<close>

section \<open>Blocks and contents of a file\<close>

definition owned :: "(uint \<Rightarrow> byte list) \<Rightarrow> uint list \<Rightarrow> uint set" where
  "owned D a = {b. b \<noteq> 0 \<and> (b = a ! NDIRECT \<or> (\<exists>i<MAXFILE. b = blk D a i))}"

definition file_ok :: "(uint \<Rightarrow> byte list) \<Rightarrow> uint list \<Rightarrow> nat \<Rightarrow> bool" where
  "file_ok D a n \<longleftrightarrow> length a = Suc NDIRECT \<and> n \<le> MAXFILE * BSIZE \<and>
     (\<forall>b \<in> owned D a. is_data D b \<and> used D b) \<and>
     (\<forall>i<MAXFILE. \<forall>j<MAXFILE. blk D a i \<noteq> 0 \<longrightarrow> blk D a i = blk D a j \<longrightarrow> i = j) \<and>
     (\<forall>i<MAXFILE. blk D a i \<noteq> 0 \<longrightarrow> blk D a i \<noteq> a ! NDIRECT) \<and>
     (\<forall>i. i * BSIZE < n \<longrightarrow> blk D a i \<noteq> 0)"

definition contents :: "(uint \<Rightarrow> byte list) \<Rightarrow> uint list \<Rightarrow> nat \<Rightarrow> byte list" where
  "contents D a n = map (\<lambda>p. D (blk D a (p div BSIZE)) ! (p mod BSIZE)) [0..<n]"

lemma length_contents [simp]: "length (contents D a n) = n"
  by (simp add: contents_def)

lemma nth_contents: "p < n \<Longrightarrow> contents D a n ! p = D (blk D a (p div BSIZE)) ! (p mod BSIZE)"
  by (simp add: contents_def)

lemma ownedI [intro]: "i < MAXFILE \<Longrightarrow> blk D a i \<noteq> 0 \<Longrightarrow> blk D a i \<in> owned D a" "a ! NDIRECT \<noteq> 0 \<Longrightarrow> a ! NDIRECT \<in> owned D a"
  by (auto simp: owned_def)

lemma file_okD:
  assumes "file_ok D a n"
  shows "length a = Suc NDIRECT" "n \<le> MAXFILE * BSIZE" "b \<in> owned D a \<Longrightarrow> is_data D b" "b \<in> owned D a \<Longrightarrow> used D b"
    "i < MAXFILE \<Longrightarrow> j < MAXFILE \<Longrightarrow> blk D a i \<noteq> 0 \<Longrightarrow> blk D a i = blk D a j \<Longrightarrow> i = j"
    "i < MAXFILE \<Longrightarrow> blk D a i \<noteq> 0 \<Longrightarrow> blk D a i \<noteq> a ! NDIRECT" "i * BSIZE < n \<Longrightarrow> blk D a i \<noteq> 0"
  using assms unfolding file_ok_def by blast+

lemma file_ok_data:
  assumes "file_ok D a n"
  shows "a ! NDIRECT \<noteq> 0 \<Longrightarrow> is_data D (a ! NDIRECT)" "i < MAXFILE \<Longrightarrow> blk D a i \<noteq> 0 \<Longrightarrow> is_data D (blk D a i)"
  using file_okD(3) [OF assms ownedI(2)] file_okD(3) [OF assms ownedI(1)] by blast+

text \<open>Blocks that hold something: the system area, and the data blocks in use. \<open>keeps X\<close> is what a change
  of the disk leaves alone: the superblock, and the blocks in use outside of the bitmap and of \<open>X\<close>,
  which also stay in use.\<close>

definition live :: "(uint \<Rightarrow> byte list) \<Rightarrow> uint \<Rightarrow> bool" where
  "live D c \<longleftrightarrow> unat c < data_start D \<or> unat c < nbits D \<and> used D c"

definition keeps :: "uint set \<Rightarrow> (uint \<Rightarrow> byte list) \<Rightarrow> (uint \<Rightarrow> byte list) \<Rightarrow> bool" where
  "keeps X D E \<longleftrightarrow> a_sb E = a_sb D \<and> (\<forall>c. live D c \<longrightarrow> live E c) \<and>
     (\<forall>c. live D c \<longrightarrow> c \<notin> meta D \<longrightarrow> c \<notin> X \<longrightarrow> E c = D c)"

lemma live_data: "is_data D c \<Longrightarrow> live D c \<longleftrightarrow> used D c"
  by (auto simp: live_def is_data_def)

lemma keeps_used:
  assumes "keeps X D E" and "is_data D c" and "used D c"
  shows "used E c"
proof -
  have "is_data E c" using assms(1,2) layout_cong(5) [of E D] by (simp add: keeps_def)
  with assms live_data [of D c] live_data [of E c] show ?thesis by (auto simp: keeps_def)
qed

lemma keeps_refl [simp]: "keeps X D D"
  by (simp add: keeps_def)

lemma keeps_trans:
  assumes "keeps X D E" and "keeps Y E F" and "Y \<subseteq> X \<union> {c. \<not> live D c}"
  shows "keeps X D F"
proof -
  have "meta E = meta D" using assms(1) layout_cong(6) [of E D] by (simp add: keeps_def)
  then show ?thesis using assms by (auto simp: keeps_def)
qed

lemma keeps_mono: "keeps X D E \<Longrightarrow> X \<subseteq> Y \<Longrightarrow> keeps Y D E"
  by (auto simp: keeps_def)

lemma keeps_file:
  assumes k: "keeps X D E" and ok: "file_ok D a n" and g: "geometry D" and disj: "owned D a \<inter> X = {}"
  shows "i < MAXFILE \<Longrightarrow> blk E a i = blk D a i" "owned E a = owned D a" "file_ok E a n" "contents E a n = contents D a n"
proof -
  have same: "E b = D b" if b: "b \<in> owned D a" for b
  proof -
    have "b \<notin> meta D" using is_data_not_meta [OF g file_okD(3) [OF ok b]] .
    moreover have "b \<notin> X" using b disj by blast
    ultimately show ?thesis using k live_data [OF file_okD(3) [OF ok b]] file_okD(4) [OF ok b] by (simp add: keeps_def)
  qed
  show blk: "blk E a i = blk D a i" if "i < MAXFILE" for i
    using same [OF ownedI(2)] by (auto simp: blk_def)
  have ex: "(\<exists>i<MAXFILE. b = blk E a i) \<longleftrightarrow> (\<exists>i<MAXFILE. b = blk D a i)" for b using blk by metis
  show o: "owned E a = owned D a" unfolding owned_def ex ..
  have ly: "is_data E = is_data D" using k layout_cong(5) [of E D] by (simp add: keeps_def)
  have us: "b \<in> owned D a \<Longrightarrow> used E b" for b using keeps_used [OF k] file_okD(3,4) [OF ok] by blast
  have small: "i < MAXFILE" if "i * BSIZE < n" for i
    using less_le_trans [OF that file_okD(2) [OF ok]] by simp
  show "file_ok E a n"
    unfolding file_ok_def o ly
  proof (intro conjI ballI allI impI)
    show "i = j" if "i < MAXFILE" "j < MAXFILE" "blk E a i \<noteq> 0" "blk E a i = blk E a j" for i j
      using file_okD(5) [OF ok that(1,2)] that(3,4) unfolding blk [OF that(1)] blk [OF that(2)] by blast
    show "blk E a i \<noteq> a ! NDIRECT" if "i < MAXFILE" "blk E a i \<noteq> 0" for i
      using file_okD(6) [OF ok that(1)] that(2) unfolding blk [OF that(1)] by blast
    show "blk E a i \<noteq> 0" if "i * BSIZE < n" for i
      using file_okD(7) [OF ok that] unfolding blk [OF small [OF that]] .
  qed (use file_okD(1-3) [OF ok] us in auto)
  have "E (blk E a (p div BSIZE)) = D (blk D a (p div BSIZE))" if "p < n" for p
  proof -
    have p: "p div BSIZE * BSIZE < n" by (rule le_less_trans [OF div_times_less_eq_dividend that])
    have "blk D a (p div BSIZE) \<in> owned D a" using ownedI(1) [OF small [OF p] file_okD(7) [OF ok p]] .
    then show ?thesis using blk [OF small [OF p]] same by simp
  qed
  then show "contents E a n = contents D a n" by (simp add: contents_def)
qed

section \<open>Indirect blocks\<close>

lemma get32_put32_index:
  assumes "j < NINDIRECT" and "k < NINDIRECT" and "length bs = BSIZE"
  shows "get32 (put32 bs (4 * k) w) (4 * j) = (if j = k then w else get32 bs (4 * j))"
proof (cases "j = k")
  case True
  then show ?thesis using assms by (simp add: byte_simps NINDIRECT_def BSIZE_def)
next
  case False
  then have "4 * j + 4 \<le> 4 * k \<or> 4 * k + 4 \<le> 4 * j" by linarith
  with False assms show ?thesis by (simp add: get32_put32_other NINDIRECT_def BSIZE_def)
qed

lemma get32_zero:
  assumes "j < NINDIRECT"
  shows "get32 (replicate BSIZE 0) (4 * j) = 0"
proof -
  have "4 * j + 3 < BSIZE" using assms by (simp add: BSIZE_def NINDIRECT_def)
  then show ?thesis by (simp add: get32_def)
qed

section \<open>A file that gains a block\<close>

lemma small_block: "file_ok D a n \<Longrightarrow> i * BSIZE < n \<Longrightarrow> i < MAXFILE"
  using less_le_trans [OF _ file_okD(2), of "i * BSIZE" n D a] by simp

lemma file_ok_extend:
  assumes ok: "file_ok D a n" and k: "keeps X D E" and a': "length a' = Suc NDIRECT" "a' ! NDIRECT = a ! NDIRECT"
    and b: "is_data D b" "\<not> used D b" "b \<noteq> 0" "used E b" and i: "i < MAXFILE" "blk D a i = 0"
    and bl: "\<And>j. j < MAXFILE \<Longrightarrow> blk E a' j = (if j = i then b else blk D a j)"
  shows "file_ok E a' n" and "owned E a' = insert b (owned D a)"
proof -
  have ne: "c \<noteq> b" if "c \<in> owned D a" for c using file_okD(4) [OF ok that] b(2) by blast
  have ex: "(\<exists>j<MAXFILE. c = blk E a' j) \<longleftrightarrow> c = b \<or> (\<exists>j<MAXFILE. j \<noteq> i \<and> c = blk D a j)" for c
  proof
    show "c = b \<or> (\<exists>j<MAXFILE. j \<noteq> i \<and> c = blk D a j)" if "\<exists>j<MAXFILE. c = blk E a' j"
      using that bl by (auto split: if_splits)
    show "\<exists>j<MAXFILE. c = blk E a' j" if "c = b \<or> (\<exists>j<MAXFILE. j \<noteq> i \<and> c = blk D a j)"
      using that bl i(1) by metis
  qed
  show o: "owned E a' = insert b (owned D a)"
    unfolding owned_def ex a'(2) using b(3) i(2) by auto
  have ly: "is_data E = is_data D" using k layout_cong(5) [of E D] by (simp add: keeps_def)
  have us: "c \<in> owned D a \<Longrightarrow> used E c" for c using keeps_used [OF k] file_okD(3,4) [OF ok] by blast
  show "file_ok E a' n"
    unfolding file_ok_def o ly
  proof (intro conjI ballI allI impI)
    show "is_data D c" "used E c" if "c \<in> insert b (owned D a)" for c
      using that b file_okD(3) [OF ok] us by blast+
    show "j = l" if "j < MAXFILE" "l < MAXFILE" "blk E a' j \<noteq> 0" "blk E a' j = blk E a' l" for j l
      using that(3,4) file_okD(5) [OF ok that(1,2)] ne [OF ownedI(1), OF that(1)] ne [OF ownedI(1), OF that(2)] b(3)
      unfolding bl [OF that(1)] bl [OF that(2)] by (auto split: if_splits)
    show "blk E a' j \<noteq> a' ! NDIRECT" if "j < MAXFILE" "blk E a' j \<noteq> 0" for j
      using that(2) file_okD(6) [OF ok that(1)] ne [OF ownedI(2)] b(3)
      unfolding bl [OF that(1)] a'(2) by (auto split: if_splits)
    show "blk E a' j \<noteq> 0" if "j * BSIZE < n" for j
      using file_okD(7) [OF ok that] i(2) bl [OF small_block [OF ok that]] by auto
  qed (use a' file_okD(2) [OF ok] in auto)
qed

lemma alloc_keeps:
  assumes "fs_ok D" and "a_alloc D = Some (b, E)"
  shows "keeps X D E"
  using a_allocD(7,8,9) [OF assms] layout_cong [OF a_allocD(7) [OF assms]] by (auto simp: keeps_def live_def)

lemma alloc_same:
  assumes "fs_ok D" and "a_alloc D = Some (b, E)" and "is_data D c"
  shows "E c = D c"
  using a_allocD(9) [OF assms(1,2)] is_data_not_meta [OF fs_okD(1) [OF assms(1)] assms(3)] by blast

text \<open>A direct block.\<close>

lemma gain_direct:
  assumes fs: "fs_ok D" and ok: "file_ok D a n" and i: "i < NDIRECT" "a ! i = 0" and al: "a_alloc D = Some (b, E)"
    and j: "j < MAXFILE"
  shows "blk E (a[i := b]) j = (if j = i then b else blk D a j)"
  using i j file_okD(1) [OF ok] alloc_same [OF fs al file_ok_data(1) [OF ok]] by (auto simp: blk_def)

text \<open>An empty indirect block.\<close>

lemma gain_indirect:
  assumes fs: "fs_ok D" and ok: "file_ok D a n" and z: "a ! NDIRECT = 0" and al: "a_alloc D = Some (b, E)"
  shows "j < MAXFILE \<Longrightarrow> blk E (a[NDIRECT := b]) j = blk D a j" "file_ok E (a[NDIRECT := b]) n"
    "owned E (a[NDIRECT := b]) = insert b (owned D a)"
proof -
  note A = a_allocD [OF fs al]
  note l = file_okD(1) [OF ok]
  show bl: "blk E (a[NDIRECT := b]) j = blk D a j" if j: "j < MAXFILE" for j
  proof (cases "j < NDIRECT")
    case False
    then have "get32 (D b) (4 * (j - NDIRECT)) = 0"
      using j get32_zero [of "j - NDIRECT"] A(4) by (simp add: MAXFILE_def)
    with False z l A(3) alloc_same [OF fs al A(1)] show ?thesis by (simp add: blk_def)
  qed (simp add: blk_def)
  have ex: "(\<exists>j<MAXFILE. c = blk E (a[NDIRECT := b]) j) \<longleftrightarrow> (\<exists>j<MAXFILE. c = blk D a j)" for c using bl by auto
  show o: "owned E (a[NDIRECT := b]) = insert b (owned D a)"
    unfolding owned_def ex using l z A(3) by auto
  have ly: "is_data E = is_data D" using layout_cong(5) [OF A(7)] .
  show "file_ok E (a[NDIRECT := b]) n"
    unfolding file_ok_def o ly
  proof (intro conjI ballI allI impI)
    show "is_data D c" "used E c" if "c \<in> insert b (owned D a)" for c
      using that A(1,8) file_okD(3,4) [OF ok] by blast+
    show "j = k" if "j < MAXFILE" "k < MAXFILE" "blk E (a[NDIRECT := b]) j \<noteq> 0"
      "blk E (a[NDIRECT := b]) j = blk E (a[NDIRECT := b]) k" for j k
      using that(3,4) file_okD(5) [OF ok that(1,2)] unfolding bl [OF that(1)] bl [OF that(2)] by blast
    show "blk E (a[NDIRECT := b]) j \<noteq> a[NDIRECT := b] ! NDIRECT" if "j < MAXFILE" "blk E (a[NDIRECT := b]) j \<noteq> 0" for j
      using that(2) file_okD(4) [OF ok ownedI(1) [OF that(1)]] A(2) l unfolding bl [OF that(1)] by auto
    show "blk E (a[NDIRECT := b]) j \<noteq> 0" if "j * BSIZE < n" for j
      using file_okD(7) [OF ok that] bl [OF small_block [OF ok that]] by simp
  qed (use l file_okD(2) [OF ok] in auto)
qed

text \<open>An entry of the indirect block.\<close>

lemma gain_entry:
  assumes fs: "fs_ok D" and ok: "file_ok D a n" and i: "\<not> i < NDIRECT" "i < MAXFILE" and nz: "a ! NDIRECT \<noteq> 0"
    and al: "a_alloc D = Some (b, E)"
  defines "F \<equiv> E(a ! NDIRECT := put32 (E (a ! NDIRECT)) (4 * (i - NDIRECT)) b)"
  shows "j < MAXFILE \<Longrightarrow> blk F a j = (if j = i then b else blk D a j)" "fs_ok F" "keeps {a ! NDIRECT} D F"
    "F b = replicate BSIZE 0" "nfree F = nfree E" "used F b"
proof -
  note A = a_allocD [OF fs al]
  let ?ib = "a ! NDIRECT"
  have ib: "is_data D ?ib" "used D ?ib" "?ib \<noteq> b"
    using file_okD(3,4) [OF ok ownedI(2) [OF nz]] A(2) by auto
  have e: "E ?ib = D ?ib" "E b = D b" using alloc_same [OF fs al] ib(1) A(1) by auto
  have len: "length (D ?ib) = BSIZE" using fs_okD(4) [OF fs ib(1)] .
  have ly: "is_data E = is_data D" "meta E = meta D" using layout_cong [OF A(7)] by auto
  have ib': "is_data E ?ib" "used E ?ib" using ib(1,2) ly A(8) by auto
  have k: "i - NDIRECT < NINDIRECT" using i by (simp add: MAXFILE_def)
  then have pl: "length (put32 (E ?ib) (4 * (i - NDIRECT)) b) = BSIZE"
    using len e by (simp add: NINDIRECT_def BSIZE_def)
  show "fs_ok F" "nfree F = nfree E" unfolding F_def using fs_ok_data_upd [OF A(6) ib' pl] by auto
  show "F b = replicate BSIZE 0" using ib(3) e A(4) by (simp add: F_def)
  have ub: "unat c < nbits D \<Longrightarrow> used F c = used E c" for c
    unfolding F_def using data_upd(3) [OF fs_okD(1) [OF A(6)] ib'(1)] layout_cong(2) [OF A(7)] by simp
  then show "used F b" using A(1,8) by (simp add: is_data_def)
  have sb: "a_sb F = a_sb D" unfolding F_def using data_upd(1) [OF fs_okD(1) [OF A(6)] ib'(1)] A(7) by simp
  show "keeps {?ib} D F"
    using sb A(8,9) ub layout_cong [OF sb] by (auto simp: keeps_def live_def F_def)
  show "blk F a j = (if j = i then b else blk D a j)" if j: "j < MAXFILE" for j
  proof (cases "j < NDIRECT")
    case True
    with i(1) show ?thesis by (auto simp: blk_def)
  next
    case False
    with j have "j - NDIRECT < NINDIRECT" by (simp add: MAXFILE_def)
    then have "get32 (F ?ib) (4 * (j - NDIRECT)) = (if j - NDIRECT = i - NDIRECT then b else get32 (D ?ib) (4 * (j - NDIRECT)))"
      using get32_put32_index [OF _ k] len e by (simp add: F_def)
    with False nz i(1) show ?thesis by (auto simp: blk_def)
  qed
qed

section \<open>The block map on well-formed files\<close>

lemma a_bmap_old:
  assumes "blk D a i \<noteq> 0"
  shows "a_bmap D a i = Some (blk D a i, D, a)"
proof (cases "i < NDIRECT")
  case False
  then have "a ! NDIRECT \<noteq> 0" using assms by (auto simp: blk_def)
  with False assms show ?thesis by (simp add: a_bmap_def blk_def Let_def)
qed (use assms in \<open>simp add: a_bmap_def blk_def\<close>)

text \<open>The file \<open>(E, a')\<close> has block \<open>b\<close> where \<open>(D, a)\<close> had none; all else is as before.\<close>

definition gains :: "(uint \<Rightarrow> byte list) \<Rightarrow> uint list \<Rightarrow> nat \<Rightarrow> uint \<Rightarrow> (uint \<Rightarrow> byte list) \<Rightarrow> uint list \<Rightarrow> bool" where
  "gains D a i b E a' \<longleftrightarrow> fs_ok E \<and> keeps (owned D a) D E \<and> \<not> live D b \<and> is_data D b \<and> b \<noteq> 0 \<and> used E b \<and>
     E b = replicate BSIZE 0 \<and> (\<forall>j<MAXFILE. blk E a' j = (if j = i then b else blk D a j)) \<and>
     (\<forall>j<MAXFILE. blk D a j \<noteq> 0 \<longrightarrow> E (blk D a j) = D (blk D a j)) \<and>
     owned E a' \<subseteq> owned D a \<union> {c. \<not> live D c} \<and> nfree D \<le> nfree E + 2"

lemma keeps_block:
  assumes "file_ok D a n" and "geometry D" and "keeps {a ! NDIRECT} D E" and "j < MAXFILE" and "blk D a j \<noteq> 0"
  shows "E (blk D a j) = D (blk D a j)"
proof -
  have o: "blk D a j \<in> owned D a" using assms(4,5) by blast
  then have "blk D a j \<notin> meta D" "live D (blk D a j)"
    using file_okD(3,4) [OF assms(1) o] is_data_not_meta [OF assms(2)] live_data by auto
  then show ?thesis using assms(3) file_okD(6) [OF assms(1,4,5)] by (simp add: keeps_def)
qed

lemma gainsI:
  assumes fs: "fs_ok D" and ok: "file_ok D a n" and i: "i < MAXFILE" "blk D a i = 0"
    and a': "length a' = Suc NDIRECT" "a' ! NDIRECT = a ! NDIRECT"
    and b: "is_data D b" "\<not> used D b" "b \<noteq> 0"
    and E: "fs_ok E" "keeps ({a ! NDIRECT} - {0}) D E" "used E b" "E b = replicate BSIZE 0" "nfree D \<le> nfree E + 1"
    and bl: "\<And>j. j < MAXFILE \<Longrightarrow> blk E a' j = (if j = i then b else blk D a j)"
  shows "gains D a i b E a'" "file_ok E a' n"
proof -
  note x = file_ok_extend [OF ok E(2) a' b E(3) i bl]
  show "file_ok E a' n" by (rule x(1))
  have "keeps (owned D a) D E" using keeps_mono [OF E(2)] ownedI(2) by blast
  moreover have "keeps {a ! NDIRECT} D E" using keeps_mono [OF E(2)] by blast
  ultimately show "gains D a i b E a'"
    using assms x(2) live_data [OF b(1)] keeps_block [OF ok fs_okD(1) [OF fs]] by (auto simp: gains_def)
qed

lemma a_bmap_new:
  assumes fs: "fs_ok D" and ok: "file_ok D a n" and i: "i < MAXFILE" "blk D a i = 0" and bm: "a_bmap D a i = Some (b, E, a')"
  shows "gains D a i b E a' \<and> file_ok E a' n"
proof (cases "i < NDIRECT")
  case True
  then have z: "a ! i = 0" using i by (simp add: blk_def)
  with True bm obtain al: "a_alloc D = Some (b, E)" and a': "a' = a[i := b]" by (auto simp: a_bmap_def)
  note A = a_allocD [OF fs al]
  have n: "nfree D \<le> nfree E + 1" using A(10) by simp
  have len: "length a' = Suc NDIRECT" "a' ! NDIRECT = a ! NDIRECT" using file_okD(1) [OF ok] True a' by auto
  show ?thesis
    using gainsI [OF fs ok i len A(1,2,3,6) alloc_keeps [OF fs al] _ _ n gain_direct [OF fs ok True z al, folded a']]
      A(4,8) alloc_same [OF fs al A(1)] by auto
next
  case False
  show ?thesis
  proof (cases "a ! NDIRECT = 0")
    case nz: False
    then have "get32 (D (a ! NDIRECT)) (4 * (i - NDIRECT)) = 0" using i False by (simp add: blk_def)
    with bm nz False obtain E0 where al: "a_alloc D = Some (b, E0)" and a': "a' = a"
      and E: "E = E0(a ! NDIRECT := put32 (E0 (a ! NDIRECT)) (4 * (i - NDIRECT)) b)"
      by (auto simp: a_bmap_def Let_def)
    note A = a_allocD [OF fs al]
    note G = gain_entry [OF fs ok False i(1) nz al, folded E]
    have n: "nfree D \<le> nfree E + 1" using A(10) G(5) by simp
    have k: "keeps ({a ! NDIRECT} - {0}) D E" using G(3) nz by (auto intro: keeps_mono)
    show ?thesis unfolding a' using gainsI [OF fs ok i file_okD(1) [OF ok] refl A(1,2,3) G(2) k G(6,4) n G(1)] by auto
  next
    case True
    with False bm obtain ib D1 where al1: "a_alloc D = Some (ib, D1)"
      by (cases "a_alloc D") (auto simp: a_bmap_def)
    note A1 = a_allocD [OF fs al1]
    let ?a1 = "a[NDIRECT := ib]"
    note I = gain_indirect [OF fs ok True al1]
    have ib: "?a1 ! NDIRECT = ib" using file_okD(1) [OF ok] by simp
    have bz: "blk D1 ?a1 i = 0" using I(1) [OF i(1)] i(2) by simp
    then have g0: "get32 (D1 ib) (4 * (i - NDIRECT)) = 0" using False ib A1(3) by (simp add: blk_def)
    with bm True False al1 ib obtain E0 where al: "a_alloc D1 = Some (b, E0)" and a': "a' = ?a1"
      and E: "E = E0(?a1 ! NDIRECT := put32 (E0 (?a1 ! NDIRECT)) (4 * (i - NDIRECT)) b)"
      by (auto simp: a_bmap_def Let_def)
    note A = a_allocD [OF A1(6) al]
    have nz: "?a1 ! NDIRECT \<noteq> 0" using ib A1(3) by simp
    note G = gain_entry [OF A1(6) I(2) False i(1) nz al, folded E]
    have n: "nfree D1 \<le> nfree E + 1" using A(10) G(5) by simp
    have k: "keeps ({?a1 ! NDIRECT} - {0}) D1 E" using G(3) nz by (auto intro: keeps_mono)
    note gi = gainsI [OF A1(6) I(2) i(1) bz file_okD(1) [OF I(2)] refl A(1,2,3) G(2) k G(6,4) n G(1)]
    have nl: "\<not> live D ib" "\<not> live D b"
      using live_data A1(1,2,7,8) A(1,2) layout_cong(5) [OF A1(7)] by auto
    have K: "keeps (owned D a) D E"
      using keeps_trans [OF alloc_keeps [OF fs al1, of "owned D a"], of "{ib}" E] G(3) ib nl by auto
    have same: "E (blk D a j) = D (blk D a j)" if "j < MAXFILE" "blk D a j \<noteq> 0" for j
    proof -
      have "E (blk D1 ?a1 j) = D1 (blk D1 ?a1 j)"
        using that I(1) [OF that(1)] by (intro keeps_block [OF I(2) fs_okD(1) [OF A1(6)] G(3)]) auto
      with alloc_same [OF fs al1 file_ok_data(2) [OF ok that]] I(1) [OF that(1)] show ?thesis by simp
    qed
    have ow: "owned E a' \<subseteq> owned D a \<union> {c. \<not> live D c}"
      using gi(1) I(3) nl alloc_keeps [OF fs al1, of "{}"] unfolding a' by (auto simp: gains_def keeps_def)
    have "gains D a i b E a'"
      using gi(1) n K nl same ow I(1) A1(10) layout_cong(5) [OF A1(7)] unfolding a' by (auto simp: gains_def)
    with gi(2) show ?thesis unfolding a' by blast
  qed
qed

lemma a_bmap_exists:
  assumes "fs_ok D" and "2 \<le> nfree D"
  shows "\<exists>b E a'. a_bmap D a i = Some (b, E, a')"
proof -
  obtain b E where al: "a_alloc D = Some (b, E)" using assms(2) a_alloc_None [of D] by (cases "a_alloc D") auto
  then have "nfree E \<noteq> 0" using a_allocD(10) [OF assms(1) al] assms(2) by simp
  then obtain c F where al2: "a_alloc E = Some (c, F)" using a_alloc_None [of E] by (cases "a_alloc E") auto
  show ?thesis
    by (cases "i < NDIRECT"; cases "a ! NDIRECT = 0") (simp_all add: a_bmap_def Let_def al al2)
qed

section \<open>Writing one block\<close>

lemma bmap_props:
  assumes fs: "fs_ok D" and ok: "file_ok D a n" and i: "i < MAXFILE" and bm: "a_bmap D a i = Some (b, E, a')"
  shows "fs_ok E" "file_ok E a' n" "keeps (owned D a) D E" "b \<noteq> 0" "is_data E b" "used E b"
    "owned E a' \<subseteq> owned D a \<union> {c. \<not> live D c}" "nfree D \<le> nfree E + 2" "blk E a' i = b"
    "j < MAXFILE \<Longrightarrow> j \<noteq> i \<Longrightarrow> blk E a' j = blk D a j"
    "j < MAXFILE \<Longrightarrow> blk D a j \<noteq> 0 \<Longrightarrow> blk E a' j = blk D a j \<and> E (blk D a j) = D (blk D a j)"
proof -
  have "fs_ok E \<and> file_ok E a' n \<and> keeps (owned D a) D E \<and> b \<noteq> 0 \<and> is_data E b \<and> used E b \<and>
    owned E a' \<subseteq> owned D a \<union> {c. \<not> live D c} \<and> nfree D \<le> nfree E + 2 \<and> blk E a' i = b \<and>
    (\<forall>j<MAXFILE. j \<noteq> i \<longrightarrow> blk E a' j = blk D a j) \<and>
    (\<forall>j<MAXFILE. blk D a j \<noteq> 0 \<longrightarrow> blk E a' j = blk D a j \<and> E (blk D a j) = D (blk D a j))"
  proof (cases "blk D a i = 0")
    case False
    with bm have e: "b = blk D a i" "E = D" "a' = a" by (auto simp: a_bmap_old)
    show ?thesis unfolding e using assms False ownedI(1) [OF i False] file_okD(3,4) [OF ok ownedI(1) [OF i False]] by auto
  next
    case True
    note g = a_bmap_new [OF fs ok i True bm]
    then have "is_data E = is_data D" using layout_cong(5) [of E D] by (simp add: gains_def keeps_def)
    with g i True show ?thesis by (auto simp: gains_def)
  qed
  then show "fs_ok E" "file_ok E a' n" "keeps (owned D a) D E" "b \<noteq> 0" "is_data E b" "used E b"
    "owned E a' \<subseteq> owned D a \<union> {c. \<not> live D c}" "nfree D \<le> nfree E + 2" "blk E a' i = b"
    "j < MAXFILE \<Longrightarrow> j \<noteq> i \<Longrightarrow> blk E a' j = blk D a j"
    "j < MAXFILE \<Longrightarrow> blk D a j \<noteq> 0 \<Longrightarrow> blk E a' j = blk D a j \<and> E (blk D a j) = D (blk D a j)" by blast+
qed

lemma data_keeps:
  assumes "geometry D" and "is_data D b" and "used D b"
  shows "keeps {b} D (D(b := bs))"
  using data_upd(1,3) [OF assms(1,2)] layout_cong [OF data_upd(1) [OF assms(1,2)]] by (auto simp: keeps_def live_def)

lemma blk_cong: "D (a ! NDIRECT) = E (a ! NDIRECT) \<Longrightarrow> blk D a = blk E a"
  by (simp add: blk_def fun_eq_iff)

text \<open>Replacing the bytes of block \<open>i\<close> of a file.\<close>

lemma block_upd:
  assumes fs: "fs_ok E" and ok: "file_ok E a n" and i: "i < MAXFILE" "blk E a i \<noteq> 0" and bs: "length bs = BSIZE"
  shows "fs_ok (E(blk E a i := bs))" "file_ok (E(blk E a i := bs)) a n" "blk (E(blk E a i := bs)) a = blk E a"
    "owned (E(blk E a i := bs)) a = owned E a" "nfree (E(blk E a i := bs)) = nfree E"
    "keeps {blk E a i} E (E(blk E a i := bs))"
proof -
  let ?F = "E(blk E a i := bs)"
  note o = file_okD(3,4) [OF ok ownedI(1) [OF i]]
  show "fs_ok ?F" "nfree ?F = nfree E" using fs_ok_data_upd [OF fs o bs] by auto
  show k: "keeps {blk E a i} E ?F" by (rule data_keeps [OF fs_okD(1) [OF fs] o])
  have "?F (a ! NDIRECT) = E (a ! NDIRECT)" using file_okD(6) [OF ok i] by simp
  then show bl: "blk ?F a = blk E a" by (rule blk_cong)
  then show ow: "owned ?F a = owned E a" by (simp add: owned_def)
  have "is_data ?F = is_data E" using layout_cong(5) [OF data_upd(1) [OF fs_okD(1) [OF fs] o(1)]] .
  then show "file_ok ?F a n"
    using ok keeps_used [OF k] unfolding file_ok_def ow bl by auto
qed

lemma write_round:
  assumes fs: "fs_ok D" and ok: "file_ok D a n" and off: "off \<le> n" "off + length ys \<le> MAXFILE * BSIZE" "ys \<noteq> []"
      "off mod BSIZE + length ys \<le> BSIZE"
    and bm: "a_bmap D a (off div BSIZE) = Some (b, E, a')"
  defines "F \<equiv> E(b := patch (E b) (off mod BSIZE) ys)" and "n1 \<equiv> max n (off + length ys)"
  shows "fs_ok F" "file_ok F a' n1" "contents F a' n1 = patch (contents D a n) off ys" "keeps (owned D a) D F"
    "owned F a' \<subseteq> owned D a \<union> {c. \<not> live D c}" "nfree D \<le> nfree F + 2" "off + length ys \<le> n \<Longrightarrow> a' = a"
proof -
  let ?i = "off div BSIZE"
  have B: "0 < BSIZE" by (simp add: BSIZE_def)
  have "0 < length ys" using off(3) by simp
  then have "off < MAXFILE * BSIZE" using off(2) by linarith
  then have i: "?i < MAXFILE" using B by (simp add: div_less_iff_less_mult)
  note P = bmap_props [OF fs ok i bm]
  have bi: "blk E a' ?i \<noteq> 0" using P(4,9) by simp
  have len: "length (E b) = BSIZE" using fs_okD(4) [OF P(1,5)] .
  then have "length (patch (E b) (off mod BSIZE) ys) = BSIZE" using off(4) by simp
  from block_upd [OF P(1,2) i bi this] have F: "fs_ok F" "file_ok F a' n" "blk F a' = blk E a'" "owned F a' = owned E a'"
    "nfree F = nfree E" "keeps {b} E F" unfolding P(9) F_def by auto
  show "fs_ok F" "nfree D \<le> nfree F + 2" "owned F a' \<subseteq> owned D a \<union> {c. \<not> live D c}" using F P(7,8) by auto
  have "b \<in> owned E a'" using ownedI(1) [OF i bi] P(9) by simp
  then show "keeps (owned D a) D F" using keeps_trans [OF P(3) F(6)] P(7) by blast
  have d: "?i * BSIZE + off mod BSIZE = off" by simp
  then have range: "?i * BSIZE \<le> off" "off + length ys \<le> Suc ?i * BSIZE" using off(4) unfolding mult_Suc by linarith+
  show "off + length ys \<le> n \<Longrightarrow> a' = a"
    using a_bmap_old [OF file_okD(7) [OF ok], of ?i] range(1) bm \<open>0 < length ys\<close> by simp
  have blocks: "j = ?i" if "n \<le> j * BSIZE" "j * BSIZE < n1" for j
  proof -
    have "j * BSIZE < off + length ys" using that by (simp add: n1_def)
    then have "j * BSIZE < Suc ?i * BSIZE" "?i * BSIZE \<le> j * BSIZE" using that(1) range off(1) by linarith+
    then have "j < Suc ?i" "?i \<le> j" using B by (simp_all only: mult_less_cancel2 mult_le_cancel2)
    then show ?thesis by simp
  qed
  have "blk F a' j \<noteq> 0" if "j * BSIZE < n1" for j
    using file_okD(7) [OF F(2), of j] blocks [OF _ that] bi F(3) by (cases "j * BSIZE < n") auto
  then show ok1: "file_ok F a' n1"
    using F(2) off(2) unfolding file_ok_def by (simp add: n1_def)
  have l1: "length (patch (contents D a n) off ys) = n1" using off(1) by (simp add: patch_def n1_def)
  show "contents F a' n1 = patch (contents D a n) off ys"
  proof (rule nth_equalityI)
    fix p assume "p < length (contents F a' n1)"
    then have p: "p < n1" by simp
    let ?j = "p div BSIZE"
    have jB: "?j * BSIZE \<le> p" "p < Suc ?j * BSIZE" using B by (simp_all add: dividend_less_div_times)
    then have jn: "?j * BSIZE < n1" using p by linarith
    have j: "?j < MAXFILE" using small_block [OF ok1 jn] .
    have inb: "off \<le> p \<Longrightarrow> p < off + length ys \<Longrightarrow> ?j = ?i"
    proof -
      assume "off \<le> p" "p < off + length ys"
      then have "?i * BSIZE < Suc ?j * BSIZE" "?j * BSIZE < Suc ?i * BSIZE" using range jB by linarith+
      then show ?thesis using B by (simp only: mult_less_cancel2) simp
    qed
    have rhs: "patch (contents D a n) off ys ! p =
        (if off \<le> p \<and> p < off + length ys then ys ! (p - off) else contents D a n ! p)"
      using off(1) p by (auto simp: patch_def nth_append n1_def)
    have pm: "p mod BSIZE < BSIZE" using B by simp
    have Fb: "F b ! (p mod BSIZE) = (if off mod BSIZE \<le> p mod BSIZE \<and> p mod BSIZE < off mod BSIZE + length ys
        then ys ! (p mod BSIZE - off mod BSIZE) else E b ! (p mod BSIZE))"
      using len off(4) pm by (simp add: F_def nth_patch)
    have md: "p mod BSIZE + ?j * BSIZE = p" "off mod BSIZE + ?i * BSIZE = off" by simp_all
    have lhs: "contents F a' n1 ! p = F (blk E a' ?j) ! (p mod BSIZE)" using p F(3) by (simp add: nth_contents)
    show "contents F a' n1 ! p = patch (contents D a n) off ys ! p"
    proof (cases "off \<le> p \<and> p < off + length ys")
      case True
      then have ji: "?j = ?i" using inb by blast
      with md(1) have "p mod BSIZE + ?i * BSIZE = p" by simp
      with md(2) True have "off mod BSIZE \<le> p mod BSIZE" "p mod BSIZE < off mod BSIZE + length ys"
        "p mod BSIZE - off mod BSIZE = p - off" by linarith+
      with True lhs rhs Fb ji P(9) show ?thesis by simp
    next
      case False
      then have pn: "p < n" using p off(1) by (auto simp: n1_def)
      then have nz: "blk D a ?j \<noteq> 0" using file_okD(7) [OF ok le_less_trans [OF jB(1)]] by simp
      have "F (blk E a' ?j) ! (p mod BSIZE) = E (blk E a' ?j) ! (p mod BSIZE)"
      proof (cases "?j = ?i")
        case True
        with md(1) have "p mod BSIZE + ?i * BSIZE = p" by simp
        with md(2) False have "\<not> (off mod BSIZE \<le> p mod BSIZE \<and> p mod BSIZE < off mod BSIZE + length ys)" by linarith
        with Fb True P(9) show ?thesis by simp
      next
        case ne: False
        then have "blk E a' ?j \<noteq> b"
          using file_okD(5) [OF P(2) j i] P(9) P(11) [OF j nz] nz by auto
        then show ?thesis by (simp add: F_def)
      qed
      with lhs rhs False P(11) [OF j nz] pn show ?thesis by (simp add: nth_contents)
    qed
  qed (simp add: l1)
qed

section \<open>\<open>writei\<close>\<close>

lemma off_div: "(off div 512 :: uint) = of_nat (unat off div BSIZE)"
proof (rule word_unat_eq_iff [THEN iffD2])
  have "unat off div 512 < 4294967296" using unat_uint_less [of off] by (meson div_le_dividend le_less_trans)
  then show "unat (off div 512) = unat (of_nat (unat off div BSIZE) :: uint)"
    by (simp add: unat_div unat_of_nat_uint BSIZE_def)
qed

lemma off_mod: "unat (off mod 512 :: uint) = unat off mod BSIZE"
  by (simp add: unat_mod BSIZE_def)

definition chunk :: "nat \<Rightarrow> nat \<Rightarrow> nat" where
  "chunk off left = min left (BSIZE - off mod BSIZE)"

lemma unat_chunk: "unat (min left (512 - off mod 512) :: uint) = chunk (unat off) (unat left)"
proof -
  have "unat (512 - off mod 512) = 512 - unat off mod 512"
    by (subst unat_sub) (simp_all add: unat_mod word_le_nat_alt less_imp_le)
  then show ?thesis by (simp add: chunk_def min_def word_le_nat_alt BSIZE_def)
qed

lemma chunk_props:
  assumes "0 < left"
  shows "0 < chunk off left" "chunk off left \<le> left" "off mod BSIZE + chunk off left \<le> BSIZE"
  using assms mod_less_divisor [of BSIZE off] by (auto simp: chunk_def BSIZE_def)

text \<open>The number of blocks that a range of bytes touches.\<close>

definition nblocks :: "nat \<Rightarrow> nat \<Rightarrow> nat" where
  "nblocks off left = (if left = 0 then 0 else (off mod BSIZE + left + (BSIZE - 1)) div BSIZE)"

lemma nblocks_step:
  assumes "0 < left"
  shows "nblocks off left = Suc (nblocks (off + chunk off left) (left - chunk off left))"
proof -
  let ?m = "BSIZE - off mod BSIZE"
  have m: "off mod BSIZE < BSIZE" by (simp add: BSIZE_def)
  show ?thesis
  proof (cases "left \<le> ?m")
    case True
    with m assms have "1 * BSIZE \<le> off mod BSIZE + left + (BSIZE - 1)" "off mod BSIZE + left + (BSIZE - 1) < Suc 1 * BSIZE"
      by auto
    then have "(off mod BSIZE + left + (BSIZE - 1)) div BSIZE = 1" by (intro div_nat_eqI) (auto simp: mult.commute)
    with True assms show ?thesis by (simp add: nblocks_def chunk_def)
  next
    case False
    have "(off + ?m) mod BSIZE = (off mod BSIZE + ?m) mod BSIZE" by (simp only: mod_add_left_eq)
    then have z: "(off + ?m) mod BSIZE = 0" using m by simp
    have e: "off mod BSIZE + left + (BSIZE - 1) = BSIZE + (left - ?m + (BSIZE - 1))" using False m by linarith
    have "nblocks off left = Suc ((left - ?m + (BSIZE - 1)) div BSIZE)"
      using assms unfolding nblocks_def e by (simp add: BSIZE_def)
    moreover have "nblocks (off + ?m) (left - ?m) = (left - ?m + (BSIZE - 1)) div BSIZE"
      using False unfolding nblocks_def z by simp
    ultimately show ?thesis using False by (simp add: chunk_def)
  qed
qed

lemma patch_patch:
  assumes "off \<le> length c"
  shows "patch (patch c off ys) (off + length ys) zs = patch c off (ys @ zs)"
  using assms by (simp add: patch_def ac_simps)

text \<open>The outcome of writing \<open>ys\<close> at \<open>off\<close> to the file \<open>(D, a)\<close> of \<open>n\<close> bytes.\<close>

definition wrote ::
  "(uint \<Rightarrow> byte list) \<Rightarrow> uint list \<Rightarrow> nat \<Rightarrow> nat \<Rightarrow> byte list \<Rightarrow> (uint \<Rightarrow> byte list) \<Rightarrow> uint list \<Rightarrow> bool" where
  "wrote D a n off ys E a' \<longleftrightarrow> fs_ok E \<and> file_ok E a' (max n (off + length ys)) \<and>
     contents E a' (max n (off + length ys)) = patch (contents D a n) off ys \<and>
     keeps (owned D a) D E \<and> owned E a' \<subseteq> owned D a \<union> {c. \<not> live D c} \<and> (off + length ys \<le> n \<longrightarrow> a' = a)"

lemma wrote_trans:
  assumes "wrote D a n off ys E a1" and "wrote E a1 (max n (off + length ys)) (off + length ys) zs F a2" and "off \<le> n"
  shows "wrote D a n off (ys @ zs) F a2"
proof -
  have k: "keeps (owned D a) D F"
    using assms(1,2) keeps_trans [of "owned D a" D E "owned E a1" F] by (simp add: wrote_def)
  have "\<not> live D c" if "\<not> live E c" for c using that assms(1) by (auto simp: wrote_def keeps_def)
  with assms(1,2) have "owned F a2 \<subseteq> owned D a \<union> {c. \<not> live D c}" by (auto simp: wrote_def)
  moreover have "max (max n (off + length ys)) (off + length ys + length zs) = max n (off + length (ys @ zs))" by simp
  ultimately show ?thesis
    using assms k patch_patch [of off "contents D a n" ys zs] by (simp add: wrote_def)
qed

end
