(* ===== verification/FsReadWrite.thy ===== *)
theory FsReadWrite
  imports FsContent
begin

unbundle bit_operations_syntax

text \<open>
  \<open>readi\<close> and \<open>writei\<close> of \<^verbatim>\<open>fs.c\<close> on the whole kernel state: the loops over blocks compute the
  effect on contents shown for single blocks, \<open>writei\<close> also brings the inode on disk up to date.
\<close>

section \<open>The loop of \<open>writei\<close>\<close>

text \<open>The inode \<open>ip\<close> in memory is a file of device \<open>dev\<close> with addresses \<open>a\<close>, on a well-formed disk.\<close>

definition on_file :: "'a fsstate_scheme \<Rightarrow> nat \<Rightarrow> uint \<Rightarrow> uint list \<Rightarrow> nat \<Rightarrow> bool" where
  "on_file s ip dev a n \<longleftrightarrow> idle s dev \<and> ip < length (inodes s) \<and> i_dev (inodes s ! ip) = dev \<and>
     i_addrs (inodes s ! ip) = a \<and> fs_ok (adisk s dev) \<and> file_ok (adisk s dev) a n"

lemma on_file_istep:
  assumes "on_file s ip dev a n" and "istep ip a' dev E s s'" and "fs_ok E" and "file_ok E a' n'"
  shows "on_file s' ip dev a' n'"
  using assms istepD [OF assms(2)] by (simp add: on_file_def)

lemma bmap_on_file:
  assumes "on_file s ip dev a n" and "i < MAXFILE"
  shows "case a_bmap (adisk s dev) a i of
      Some (b, E, a') \<Rightarrow> \<exists>s'. bmap ip (of_nat i) s = Inr (b, s') \<and> istep ip a' dev E s s'
    | None \<Rightarrow> bmap ip (of_nat i) s = Inl (Panic ''balloc: out of blocks'')"
  using assms file_okD(1) [of "adisk s dev" a n] file_ok_data(1) [of "adisk s dev" a n]
  by (intro bmap_ok) (auto simp: on_file_def)

lemma bmap_mapped:
  assumes "on_file s ip dev a n" and "i * BSIZE < n"
  shows "\<exists>s'. bmap ip (of_nat i) s = Inr (blk (adisk s dev) a i, s') \<and> istep ip a dev (adisk s dev) s s'"
proof -
  have f: "file_ok (adisk s dev) a n" using assms(1) by (simp add: on_file_def)
  show ?thesis
    using bmap_on_file [OF assms(1) small_block [OF f assms(2)]] a_bmap_old [OF file_okD(7) [OF f assms(2)]] by simp
qed

lemma unat_plus_small: "unat x + unat y < 4294967296 \<Longrightarrow> unat (x + y :: uint) = unat x + unat y"
  by (simp add: unat_word_ariths)

lemma unat_minus_small: "unat y \<le> unat x \<Longrightarrow> unat (x - y :: uint) = unat x - unat y"
  by (simp add: unat_sub word_le_nat_alt)

lemma MAXFILE_bytes: "MAXFILE * BSIZE = 71680"
  by (simp add: MAXFILE_def NDIRECT_def NINDIRECT_def BSIZE_def)

text \<open>One round.\<close>

lemma writei_round:
  assumes f: "on_file s ip dev a n" and off: "unat off \<le> n" "unat off + unat left \<le> MAXFILE * BSIZE" "0 < unat left"
      "unat left \<le> length src" and free: "2 \<le> nfree (adisk s dev)"
  shows "\<exists>m s' E a'. unat m = chunk (unat off) (unat left) \<and>
    writei_loop (Suc k) ip src off left s = writei_loop k ip (drop (unat m) src) (off + m) (left - m) s' \<and>
    istep ip a' dev E s s' \<and> wrote (adisk s dev) a n (unat off) (take (unat m) src) E a' \<and> nfree (adisk s dev) \<le> nfree E + 2"
proof -
  let ?D = "adisk s dev" and ?m = "min left (512 - off mod 512)"
  have fs: "fs_ok ?D" and ok: "file_ok ?D a n" using f by (simp_all add: on_file_def)
  note m = unat_chunk [of left off] chunk_props [OF off(3), of "unat off"]
  have i: "unat off div BSIZE < MAXFILE" using off(2,3) by (simp add: div_less_iff_less_mult BSIZE_def)
  obtain b E a' where bm: "a_bmap ?D a (unat off div BSIZE) = Some (b, E, a')" using a_bmap_exists [OF fs free] by blast
  then obtain s1 where s1: "bmap ip (off div 512) s = Inr (b, s1)" "istep ip a' dev E s s1"
    using bmap_on_file [OF f i] by (auto simp: off_div)
  note P = bmap_props [OF fs ok i bm]
  have d1: "i_dev (inodes s1 ! ip) = dev" "adisk s1 dev = E" "idle s1 dev"
    using istepD [OF s1(2)] f by (auto simp: on_file_def)
  have c: "can s1 dev {b}" using idle_can [OF d1(3)] is_data_good [OF fs_okD(1) [OF P(1)] P(5)] by simp
  let ?ys = "take (unat ?m) src"
  have ly: "length ?ys = chunk (unat off) (unat left)" using m(1,3) off(4) by simp
  obtain bp s2 s3 s4 where 2: "bread dev b s1 = Inr (bp, s2)" "b_data (bufs s2 ! bp) = E b"
    "bwrite bp (put_data bp (patch (E b) (unat off mod BSIZE) ?ys) s2) = Inr s3" "brelse bp s3 = Inr s4"
    "dstep dev (E(b := patch (E b) (unat off mod BSIZE) ?ys)) s1 s4"
    using use_block [OF c, of b] d1(2) by (metis singletonI)
  have nl: "left \<noteq> 0" "\<not> length src < unat ?m" using off(3,4) m(1,3) by auto
  have eq: "writei_loop (Suc k) ip src off left s = writei_loop k ip (drop (unat ?m) src) (off + ?m) (left - ?m) s4"
    using nl s1(1) 2 d1(1) by (simp add: Let_def off_mod)
  have "wrote ?D a n (unat off) ?ys (E(b := patch (E b) (unat off mod BSIZE) ?ys)) a'"
    "nfree ?D \<le> nfree (E(b := patch (E b) (unat off mod BSIZE) ?ys)) + 2"
  proof -
    have "unat off + length ?ys \<le> MAXFILE * BSIZE" "?ys \<noteq> []" "unat off mod BSIZE + length ?ys \<le> BSIZE"
      using ly m off(2) by auto
    from write_round [OF fs ok off(1) this bm]
    show "wrote ?D a n (unat off) ?ys (E(b := patch (E b) (unat off mod BSIZE) ?ys)) a'"
      "nfree ?D \<le> nfree (E(b := patch (E b) (unat off mod BSIZE) ?ys)) + 2" by (simp_all add: wrote_def)
  qed
  with eq m(1) istep_dstep [OF s1(2) 2(5)] show ?thesis by blast
qed

lemma writei_loop_ok:
  assumes "on_file s ip dev a n" and "unat off \<le> n" and "unat off + unat left \<le> MAXFILE * BSIZE"
    and "unat left \<le> length src" and "unat left \<le> k" and "2 * nblocks (unat off) (unat left) \<le> nfree (adisk s dev)"
  shows "\<exists>s' E a'. writei_loop k ip src off left s = Inr (off + left, s') \<and> istep ip a' dev E s s' \<and>
    wrote (adisk s dev) a n (unat off) (take (unat left) src) E a'"
  using assms
proof (induction k arbitrary: s a n off left src)
  case 0
  have "istep ip a dev (adisk s dev) s s"
    using istep_same [OF dstep_refl, of s a ip dev] 0(1) by (simp add: on_file_def idle_def)
  moreover have "wrote (adisk s dev) a n (unat off) [] (adisk s dev) a"
    using 0(1,2) by (auto simp: wrote_def on_file_def max_absorb1)
  ultimately show ?case using 0 by (auto simp: unat_eq_0)
next
  case (Suc k)
  show ?case
  proof (cases "left = 0")
    case True
    have "istep ip a dev (adisk s dev) s s"
      using istep_same [OF dstep_refl, of s a ip dev] Suc.prems(1) by (simp add: on_file_def idle_def)
    moreover have "wrote (adisk s dev) a n (unat off) [] (adisk s dev) a"
      using Suc.prems(1,2) by (auto simp: wrote_def on_file_def max_absorb1)
    ultimately show ?thesis using True by auto
  next
    case False
    then have l: "0 < unat left" by (simp add: unat_gt_0)
    note nb = nblocks_step [OF l, of "unat off"] and cp = chunk_props [OF l, of "unat off"]
    have "2 \<le> nfree (adisk s dev)" using Suc.prems(6) nb by simp
    with writei_round [OF Suc.prems(1-3) l Suc.prems(4), of k] obtain m s1 E1 a1 where m: "unat m = chunk (unat off) (unat left)"
      and eq: "writei_loop (Suc k) ip src off left s = writei_loop k ip (drop (unat m) src) (off + m) (left - m) s1"
      and st: "istep ip a1 dev E1 s s1" and w: "wrote (adisk s dev) a n (unat off) (take (unat m) src) E1 a1"
      and nf: "nfree (adisk s dev) \<le> nfree E1 + 2" by blast
    have mle: "unat m \<le> unat left" using m cp(2) by simp
    have u1: "unat (off + m) = unat off + unat m"
      by (rule unat_plus_small) (use Suc.prems(3) mle in \<open>simp add: MAXFILE_bytes\<close>)
    note u = u1 unat_minus_small [OF mle]
    have ly: "length (take (unat m) src) = unat m" using mle Suc.prems(4) by simp
    have of1: "on_file s1 ip dev a1 (max n (unat off + unat m))"
      using on_file_istep [OF Suc.prems(1) st] w ly by (simp add: wrote_def)
    have nb1: "2 * nblocks (unat (off + m)) (unat (left - m)) \<le> nfree (adisk s1 dev)"
      using Suc.prems(6) nb nf istepD(2) [OF st] u m by simp
    have r1: "unat (off + m) \<le> max n (unat off + unat m)" "unat (off + m) + unat (left - m) \<le> MAXFILE * BSIZE"
      "unat (left - m) \<le> length (drop (unat m) src)" "unat (left - m) \<le> k"
      using u mle Suc.prems(3-5) m cp(1) by auto
    obtain s2 E2 a2 where 2: "writei_loop k ip (drop (unat m) src) (off + m) (left - m) s1 = Inr (off + m + (left - m), s2)"
      "istep ip a2 dev E2 s1 s2"
      "wrote E1 a1 (max n (unat off + unat m)) (unat (off + m)) (take (unat (left - m)) (drop (unat m) src)) E2 a2"
      using Suc.IH [OF of1 r1 nb1] unfolding istepD(2) [OF st] by blast
    have "wrote (adisk s dev) a n (unat off) (take (unat m) src @ take (unat left - unat m) (drop (unat m) src)) E2 a2"
      using wrote_trans [OF w] 2(3) ly Suc.prems(2) u by simp
    moreover have "take (unat m) src @ take (unat left - unat m) (drop (unat m) src) = take (unat left) src"
      using m cp(2) by (metis le_add_diff_inverse take_add)
    ultimately show ?thesis using eq 2(1) istep_trans [OF st 2(2)] by auto
  qed
qed

section \<open>The loop of \<open>readi\<close>\<close>

lemma slice_contents:
  assumes "m \<le> BSIZE - off mod BSIZE" and "off + m \<le> n" and "0 < m" and "length (D (blk D a (off div BSIZE))) = BSIZE"
  shows "slice (contents D a n) off m = slice (D (blk D a (off div BSIZE))) (off mod BSIZE) m"
proof (rule nth_equalityI)
  have o: "off mod BSIZE < BSIZE" by (simp add: BSIZE_def)
  then show "length (slice (contents D a n) off m) = length (slice (D (blk D a (off div BSIZE))) (off mod BSIZE) m)"
    using assms by simp
  fix i assume "i < length (slice (contents D a n) off m)"
  then have i: "i < m" by simp
  then have s: "off mod BSIZE + i < BSIZE" using assms(1) o by linarith
  have "off + i = off div BSIZE * BSIZE + (off mod BSIZE + i)" by simp
  then have "(off + i) div BSIZE = off div BSIZE" "(off + i) mod BSIZE = off mod BSIZE + i"
    using s by (metis add.commute div_mult_self3 div_less add_0 less_nat_zero_code, metis add.commute mod_mult_self3 mod_less)
  then show "slice (contents D a n) off m ! i = slice (D (blk D a (off div BSIZE))) (off mod BSIZE) m ! i"
    using assms i s by (simp add: nth_slice nth_contents)
qed

lemma readi_loop_ok:
  assumes "on_file s ip dev a n" and "unat off + unat left \<le> n" and "unat left \<le> k"
  shows "\<exists>s'. readi_loop k ip off left dst s = Inr (dst @ slice (contents (adisk s dev) a n) (unat off) (unat left), s') \<and>
    istep ip a dev (adisk s dev) s s'"
  using assms
proof (induction k arbitrary: s off left dst)
  case 0
  then show ?case
    using istep_same [OF dstep_refl, of s a ip dev] by (auto simp: on_file_def idle_def unat_eq_0)
next
  case (Suc k)
  let ?D = "adisk s dev"
  show ?case
  proof (cases "left = 0")
    case True
    then show ?thesis using istep_same [OF dstep_refl, of s a ip dev] Suc.prems(1) by (auto simp: on_file_def idle_def)
  next
    case False
    then have l: "0 < unat left" by (simp add: unat_gt_0)
    let ?i = "unat off div BSIZE" and ?m = "min left (512 - off mod 512)"
    note cp = unat_chunk [of left off] chunk_props [OF l, of "unat off"]
    have ok: "fs_ok ?D" "file_ok ?D a n" using Suc.prems(1) by (simp_all add: on_file_def)
    have iB: "?i * BSIZE \<le> unat off" by simp
    then have i: "?i * BSIZE < n" using l Suc.prems(2) by linarith
    note nz = file_okD(7) [OF ok(2) i] and sm = small_block [OF ok(2) i]
    have data: "is_data ?D (blk ?D a ?i)" using file_ok_data(2) [OF ok(2) sm nz] .
    obtain s1 where s1: "bmap ip (off div 512) s = Inr (blk ?D a ?i, s1)" "istep ip a dev ?D s s1"
      using bmap_mapped [OF Suc.prems(1) i] by (auto simp: off_div)
    have d1: "i_dev (inodes s1 ! ip) = dev" "adisk s1 dev = ?D" "idle s1 dev"
      using istepD [OF s1(2)] Suc.prems(1) by (auto simp: on_file_def)
    have c: "can s1 dev {blk ?D a ?i}" using idle_can [OF d1(3)] is_data_good [OF fs_okD(1) [OF ok(1)] data] by simp
    obtain bp s2 s3 where 2: "bread dev (blk ?D a ?i) s1 = Inr (bp, s2)" "b_data (bufs s2 ! bp) = ?D (blk ?D a ?i)"
      "brelse bp s2 = Inr s3" "dstep dev ?D s1 s3"
      using use_block [OF c, of "blk ?D a ?i"] d1(2) by auto
    have st: "istep ip a dev ?D s s3" using istep_dstep [OF s1(2) 2(4)] .
    let ?d = "slice (?D (blk ?D a ?i)) (unat off mod BSIZE) (chunk (unat off) (unat left))"
    have eq: "readi_loop (Suc k) ip off left dst s = readi_loop k ip (off + ?m) (left - ?m) (dst @ ?d) s3"
      using False s1(1) 2 d1(1) cp(1) by (simp add: Let_def off_mod)
    have mle: "unat ?m \<le> unat left" unfolding cp(1) by (rule cp(3))
    have "unat off + unat ?m < 4294967296"
      using mle Suc.prems(2) file_okD(2) [OF ok(2)] unfolding MAXFILE_bytes by linarith
    note u = unat_plus_small [OF this] unat_minus_small [OF mle]
    have pre: "on_file s3 ip dev a n" "unat (off + ?m) + unat (left - ?m) \<le> n" "unat (left - ?m) \<le> k"
      using on_file_istep [OF Suc.prems(1) st ok] u mle cp(1,2) Suc.prems(2,3) by auto
    have "?d = slice (contents ?D a n) (unat off) (unat ?m)"
      unfolding cp(1) using cp(2-4) Suc.prems(2) fs_okD(4) [OF ok(1) data]
      by (intro slice_contents [symmetric]) (auto simp: chunk_def)
    moreover have "slice (contents ?D a n) (unat off) (unat ?m) @ slice (contents ?D a n) (unat (off + ?m)) (unat (left - ?m)) =
        slice (contents ?D a n) (unat off) (unat left)"
      unfolding u by (rule slice_split [OF mle, symmetric])
    ultimately show ?thesis
      using Suc.IH [OF pre, of "dst @ ?d"] eq istep_trans [OF st] istepD(2) [OF st] by auto
  qed
qed

section \<open>Inodes on disk\<close>

lemma length_concat_bytes32: "length (concat (map bytes32 xs)) = 4 * length xs"
  by (induction xs) simp_all

lemma length_dinode_bytes: "length (d_addrs d) = Suc NDIRECT \<Longrightarrow> length (dinode_bytes d) = 64"
  by (simp add: dinode_bytes_def length_concat_bytes32 NDIRECT_def)

lemma get16_append:
  "off + 1 < length xs \<Longrightarrow> get16 (xs @ ys) off = get16 xs off"
  "length xs \<le> off \<Longrightarrow> get16 (xs @ ys) off = get16 ys (off - length xs)"
  by (auto simp: get16_def nth_append Suc_diff_le)

lemma get32_append:
  "off + 3 < length xs \<Longrightarrow> get32 (xs @ ys) off = get32 xs off"
  "length xs \<le> off \<Longrightarrow> get32 (xs @ ys) off = get32 ys (off - length xs)"
  by (auto simp: get32_def nth_append Suc_diff_le)

lemma get16_bytes16 [simp]: "get16 (bytes16 w) 0 = w"
  by (simp add: get16_def bytes16_def join16)

lemma get32_bytes32 [simp]: "get32 (bytes32 w) 0 = w"
  by (simp add: get32_def bytes32_def join32)

lemma get32_concat: "i < length xs \<Longrightarrow> get32 (concat (map bytes32 xs)) (4 * i) = xs ! i"
proof (induction xs arbitrary: i)
  case (Cons x xs)
  then show ?case by (cases i) (simp_all add: get32_append)
qed simp

text \<open>An inode that is written and read back.\<close>

lemma get_dinode_bytes:
  assumes "length (d_addrs d) = Suc NDIRECT"
  shows "get_dinode (dinode_bytes d) 0 = d"
proof -
  have "map (\<lambda>i. get32 (concat (map bytes32 (d_addrs d))) (4 * i)) [0..<Suc NDIRECT] = d_addrs d"
    using assms by (intro nth_equalityI) (simp_all add: get32_concat del: upt_Suc)
  moreover have "get32 (dinode_bytes d) (12 + 4 * i) = get32 (concat (map bytes32 (d_addrs d))) (4 * i)" for i
    by (simp add: dinode_bytes_def get32_append)
  ultimately show ?thesis
    by (simp add: get_dinode_def dinode_bytes_def get16_append get32_append del: upt_Suc)
qed

lemma get_shift:
  assumes "off + n \<le> length bs" and "length ys = n"
  shows "k + 2 \<le> n \<Longrightarrow> get16 (patch bs off ys) (off + k) = get16 ys k"
    "k + 4 \<le> n \<Longrightarrow> get32 (patch bs off ys) (off + k) = get32 ys k"
  using assms by (simp_all add: get16_def get32_def nth_patch add.assoc)

lemma get_dinode_patch:
  assumes "off + 64 \<le> length bs" and "length (d_addrs d) = Suc NDIRECT"
  shows "get_dinode (patch bs off (dinode_bytes d)) off = d"
proof -
  note g = get_shift [OF assms(1) length_dinode_bytes [OF assms(2)]]
  have "get32 (patch bs off (dinode_bytes d)) (off + 12 + 4 * i) = get32 (dinode_bytes d) (12 + 4 * i)" if "i < Suc NDIRECT" for i
    using g(2) [of "12 + 4 * i"] that by (simp add: NDIRECT_def add.assoc)
  then have "get_dinode (patch bs off (dinode_bytes d)) off = get_dinode (dinode_bytes d) 0"
    using g(1) [of 0] g(1) [of 2] g(1) [of 4] g(1) [of 6] g(2) [of 8] by (simp add: get_dinode_def numeral_2_eq_2 del: upt_Suc)
  then show ?thesis by (simp add: get_dinode_bytes [OF assms(2)])
qed

lemma get_dinode_other:
  assumes "off + 64 \<le> length bs" and "length ys = 64" and "off' + 64 \<le> off \<or> off + 64 \<le> off'" and "off' + 64 \<le> length bs"
  shows "get_dinode (patch bs off ys) off' = get_dinode bs off'"
proof -
  have "get32 (patch bs off ys) (off' + 12 + 4 * i) = get32 bs (off' + 12 + 4 * i)" if "i < Suc NDIRECT" for i
    using assms that by (intro get32_patch_other) (auto simp: NDIRECT_def)
  moreover have "get16 (patch bs off ys) (off' + k) = get16 bs (off' + k)" if "k + 2 \<le> 64" for k
    using assms that by (intro get16_patch_other) auto
  from this [of 0] this [of 2] this [of 4] this [of 6] have "get16 (patch bs off ys) off' = get16 bs off'"
    "get16 (patch bs off ys) (off' + 2) = get16 bs (off' + 2)" "get16 (patch bs off ys) (off' + 4) = get16 bs (off' + 4)"
    "get16 (patch bs off ys) (off' + 6) = get16 bs (off' + 6)" by simp_all
  moreover have "get32 (patch bs off ys) (off' + 8) = get32 bs (off' + 8)" using assms by (intro get32_patch_other) auto
  ultimately show ?thesis by (simp add: get_dinode_def del: upt_Suc)
qed

definition disk_inode :: "(uint \<Rightarrow> byte list) \<Rightarrow> uint \<Rightarrow> dinode" where
  "disk_inode D inum = get_dinode (D (IBLOCK inum)) (dinode_off inum)"

lemma dinode_off_bound: "dinode_off inum + 64 \<le> 512"
proof -
  have "unat (inum mod IPB) < 8" by (simp add: unat_mod IPB_def)
  then show ?thesis by (simp add: dinode_off_def)
qed

lemma inode_block:
  assumes "geometry D" and "inum \<le> sb_ninodes (a_sb D)"
  shows "unat (IBLOCK inum) = unat inum div 8 + 2" "unat (IBLOCK inum) < data_start D" "IBLOCK inum \<notin> meta D" "IBLOCK inum < 0x10000000"
    "bmblock D c \<noteq> IBLOCK inum"
proof -
  have n: "unat inum \<le> unat (sb_ninodes (a_sb D))" "unat (sb_ninodes (a_sb D)) \<le> 0x10000000"
    using assms by (auto simp: word_le_nat_alt geometry_def)
  have d: "unat inum div 8 \<le> unat (sb_ninodes (a_sb D)) div 8" by (rule div_le_mono [OF n(1)])
  have "unat inum div 8 \<le> 0x2000000" using d div_le_mono [OF n(2), of 8] by simp
  then show u: "unat (IBLOCK inum) = unat inum div 8 + 2"
    by (simp add: IBLOCK_def unat_word_ariths unat_div IPB_def)
  then show "unat (IBLOCK inum) < data_start D" using d by (simp add: data_start_def)
  show "IBLOCK inum < 0x10000000" using u \<open>unat inum div 8 \<le> 0x2000000\<close> by (simp add: word_less_nat_alt)
  show bm: "bmblock D c \<noteq> IBLOCK inum" for c
  proof
    assume "bmblock D c = IBLOCK inum"
    then have "unat (bmblock D c) = unat (IBLOCK inum)" by simp
    with u d bmblock_range(1) [OF assms(1), of c] show False by simp
  qed
  have "IBLOCK inum \<noteq> 1" using u by auto
  with bm [symmetric] show "IBLOCK inum \<notin> meta D" by (simp add: meta_def)
qed

lemma inode_block_upd:
  assumes fs: "fs_ok D" and inum: "inum \<le> sb_ninodes (a_sb D)" and bs: "length bs = BSIZE"
  shows "fs_ok (D(IBLOCK inum := bs))" "keeps {IBLOCK inum} D (D(IBLOCK inum := bs))"
proof -
  let ?E = "D(IBLOCK inum := bs)"
  note g = fs_okD(1) [OF fs]
  note ib = inode_block [OF g inum]
  have sb: "a_sb ?E = a_sb D" using ib(3) by (auto simp: meta_def)
  note ly = layout_cong [OF sb]
  have us: "used ?E c = used D c" for c using ib(5) by (simp add: used_def ly)
  have "geometry ?E" using g sb bs by (auto simp: geometry_def)
  then show "fs_ok ?E"
    using fs ly us ib(2) by (auto simp: fs_ok_def is_data_def)
  show "keeps {IBLOCK inum} D ?E" using sb ly us by (auto simp: keeps_def live_def)
qed

lemma iupdate_ok:
  assumes idle: "idle s dev" and dev: "dev = i_dev (inodes s ! ip)" and g: "geometry (adisk s dev)"
    and inum: "i_inum (inodes s ! ip) \<le> sb_ninodes (a_sb (adisk s dev))"
  defines "ib \<equiv> IBLOCK (i_inum (inodes s ! ip))"
  shows "\<exists>s'. iupdate ip s = Inr s' \<and> dstep dev ((adisk s dev)(ib :=
    patch (adisk s dev ib) (dinode_off (i_inum (inodes s ! ip))) (dinode_bytes (to_dinode (inodes s ! ip))))) s s'"
proof -
  have "can s dev {ib}" using idle_can [OF idle] inode_block(4) [OF g inum] by (simp add: ib_def)
  then obtain bp s1 s2 s3 where "bread dev ib s = Inr (bp, s1)" "b_data (bufs s1 ! bp) = adisk s dev ib"
    "bwrite bp (put_data bp (patch (adisk s dev ib) (dinode_off (i_inum (inodes s ! ip))) (dinode_bytes (to_dinode (inodes s ! ip)))) s1) = Inr s2"
    "brelse bp s2 = Inr s3" "dstep dev ((adisk s dev)(ib :=
    patch (adisk s dev ib) (dinode_off (i_inum (inodes s ! ip))) (dinode_bytes (to_dinode (inodes s ! ip))))) s s3"
    using use_block [of s dev "{ib}" ib] by (metis singletonI)
  then show ?thesis by (simp add: iupdate_def Let_def dev [symmetric] ib_def [symmetric])
qed

section \<open>\<open>writei\<close> and \<open>readi\<close>\<close>

lemma sint_of_nat: "n < 2147483648 \<Longrightarrow> sint (of_nat n :: uint) = int n"
  by (simp add: signed_of_nat signed_take_bit_int_eq_self)

lemma owned_not_inode_block:
  assumes "file_ok D a n" and "geometry D" and "inum \<le> sb_ninodes (a_sb D)"
  shows "IBLOCK inum \<notin> owned D a"
  using file_okD(3) [OF assms(1), of "IBLOCK inum"] inode_block(2) [OF assms(2,3)] by (auto simp: is_data_def)

lemma wrote_other:
  assumes "wrote D a n off ys E a'" and "file_ok D b m" and "owned D b \<inter> owned D a = {}" and "geometry D"
  shows "file_ok E b m" "contents E b m = contents D b m" "owned E b = owned D b"
  using keeps_file [of "owned D a" D E b m] assms by (simp_all add: wrote_def)

lemma on_file_size:
  assumes "on_file s ip dev a n"
  shows "n \<le> 71680" "length a = Suc NDIRECT" "fs_ok (adisk s dev)" "file_ok (adisk s dev) a n" "geometry (adisk s dev)"
  using assms file_okD(1,2) [of "adisk s dev" a n] fs_okD(1) [of "adisk s dev"] by (auto simp: on_file_def MAXFILE_bytes)

text \<open>The whole of \<open>writei\<close>, for a range that fits into the largest file and a disk with enough free
  blocks.\<close>

lemma writei_ok:
  assumes f: "on_file s ip dev a n" and n: "unat (i_size (inodes s ! ip)) \<le> n" and ty: "i_type (inodes s ! ip) \<noteq> T_DEV"
    and inum: "i_inum (inodes s ! ip) \<le> sb_ninodes (a_sb (adisk s dev))"
    and off: "unat off \<le> unat (i_size (inodes s ! ip))" "unat off + length src \<le> MAXFILE * BSIZE"
    and free: "2 * nblocks (unat off) (length src) \<le> nfree (adisk s dev)"
  defines "D \<equiv> adisk s dev" and "x \<equiv> inodes s ! ip"
  shows "\<exists>s' E a' n'. writei devsw ip src off (of_nat (length src)) s = Inr (int (length src), s') \<and>
    inodes s' = (inodes s)[ip := x\<lparr>i_addrs := a', i_size := of_nat (max (unat (i_size x)) (unat off + length src))\<rparr>] \<and>
    n' = max n (unat off + length src) \<and> adisk s' = (adisk s)(dev := E) \<and>
    on_file s' ip dev a' n' \<and> contents E a' n' = patch (contents D a n) (unat off) src \<and>
    keeps (owned D a \<union> {IBLOCK (i_inum x)}) D E \<and>
    (disk_inode D (i_inum x) = to_dinode x \<longrightarrow> disk_inode E (i_inum x) = to_dinode (inodes s' ! ip)) \<and>
    bstep (s\<lparr>inodes := inodes s'\<rparr>) s'"
proof -
  let ?n = "of_nat (length src) :: uint" and ?sz = "unat (i_size x)"
  note S = on_file_size [OF f]
  have offn: "unat off \<le> n" using off(1) n by simp
  have un: "unat ?n = length src" using off(2) by (intro unat_of_nat_uint) (simp add: MAXFILE_bytes)
  have sn: "sint ?n = int (length src)" using off(2) by (intro sint_of_nat) (simp add: MAXFILE_bytes)
  have uo: "unat (off + ?n) = unat off + length src"
    using off(2) unat_plus_small [of off ?n] un by (simp add: MAXFILE_bytes)
  have g1: "\<not> (i_size x < off \<or> off + ?n < off)" using off(1) uo by (simp add: word_less_nat_alt x_def)
  have "unat (of_nat (MAXFILE * BSIZE) :: uint) = MAXFILE * BSIZE" by (simp add: MAXFILE_bytes)
  then have g2: "\<not> of_nat (MAXFILE * BSIZE) < off + ?n" using off(2) uo by (simp add: word_less_nat_alt)
  obtain s1 E1 a1 where 1: "writei_loop (unat ?n) ip src off ?n s = Inr (off + ?n, s1)" "istep ip a1 dev E1 s s1"
    "wrote D a n (unat off) src E1 a1"
    using writei_loop_ok [OF f offn, of ?n src "unat ?n"] off(2) free un unfolding D_def x_def by auto
  have ip: "ip < length (inodes s)" and dv: "i_dev x = dev" and ax: "i_addrs x = a" and idl: "idle s dev"
    using f by (simp_all add: on_file_def x_def)
  have i1: "inodes s1 = (inodes s)[ip := x\<lparr>i_addrs := a1\<rparr>]" using istepD(1) [OF 1(2)] by (simp add: x_def)
  have ad1: "adisk s1 = (adisk s)(dev := E1)" using dstepD(4) [OF 1(2) [unfolded istep_def]] by simp
  let ?n' = "max n (unat off + length src)" and ?sz' = "max ?sz (unat off + length src)"
  have fs1: "fs_ok E1" and fo1: "file_ok E1 a1 ?n'" and c1: "contents E1 a1 ?n' = patch (contents D a n) (unat off) src"
    and k1: "keeps (owned D a) D E1" and ga: "unat off + length src \<le> n \<Longrightarrow> a1 = a"
    using 1(3) by (simp_all add: wrote_def)
  note ib = inode_block [OF S(5) inum]
  have code: "writei devsw ip src off ?n s = andThen (if ?n > 0 \<and> off + ?n > i_size x
       then iupdate ip (upd_inode ip (\<lambda>x. x\<lparr>i_size := off + ?n\<rparr>) s1) else Inr s1) (\<lambda>s. Inr (int (length src), s))"
    using ty g1 g2 1(1) sn ip unfolding writei_def Let_def i1 by (simp add: x_def i1)
  show ?thesis
  proof (cases "?n > 0 \<and> off + ?n > i_size x")
    case False
    have "length src = 0 \<or> unat off + length src \<le> ?sz"
      using False un uo by (auto simp: word_less_nat_alt)
    then have le: "unat off + length src \<le> ?sz" using off(1) by (auto simp: x_def)
    then have n': "?n' = n" "?sz' = ?sz" "a1 = a" using ga n by (simp_all add: x_def)
    have st: "istep ip a dev E1 s s1" using 1(2) n' by simp
    have "on_file s1 ip dev a n" using on_file_istep [OF f st fs1] fo1 n' by simp
    moreover have "E1 (IBLOCK (i_inum x)) = D (IBLOCK (i_inum x))"
      using k1 ib(2,3) owned_not_inode_block [OF S(4,5) inum] by (simp add: keeps_def live_def D_def x_def)
    moreover have "keeps (owned D a \<union> {IBLOCK (i_inum x)}) D E1" using keeps_mono [OF k1] by blast
    moreover have "x\<lparr>i_addrs := a, i_size := of_nat ?sz\<rparr> = x" using ax by simp
    moreover have "bstep (s\<lparr>inodes := inodes s1\<rparr>) s1" using 1(2) dstepD(1) unfolding istep_def i1 x_def by blast
    ultimately show ?thesis
      using False code i1 n' ad1 c1 ip ax
      by (intro exI [of _ s1] exI [of _ E1] exI [of _ a] exI [of _ n]) (auto simp: disk_inode_def)
  next
    case True
    then have gr: "?sz < unat off + length src" using uo by (simp add: word_less_nat_alt)
    let ?s2 = "upd_inode ip (\<lambda>x. x\<lparr>i_size := off + ?n\<rparr>) s1" and ?x = "x\<lparr>i_addrs := a1, i_size := off + ?n\<rparr>"
    have i2: "inodes ?s2 = (inodes s)[ip := ?x]" "inodes ?s2 ! ip = ?x" using i1 ip by (simp_all add: upd_inode_def)
    have d2: "adisk ?s2 = adisk s1" "idle ?s2 dev" using istepD(5) [OF 1(2) idl] by (simp_all add: upd_inode_def)
    have a2: "adisk ?s2 dev = E1" using d2 ad1 by simp
    have sb: "a_sb E1 = a_sb D" using k1 by (simp add: keeps_def)
    let ?ib = "IBLOCK (i_inum x)" and ?o = "dinode_off (i_inum x)"
    let ?E = "E1(?ib := patch (E1 ?ib) ?o (dinode_bytes (to_dinode ?x)))"
    obtain s3 where 3: "iupdate ip ?s2 = Inr s3" "dstep dev ?E ?s2 s3"
      using iupdate_ok [OF d2(2), of ip] i2(2) a2 dv fs_okD(1) [OF fs1] inum sb unfolding D_def x_def by auto
    have l: "length (E1 ?ib) = BSIZE" using fs_okD(5) [OF fs1 ib(4)] by (simp add: x_def)
    have la: "length a1 = Suc NDIRECT" using file_okD(1) [OF fo1] .
    have "length (patch (E1 ?ib) ?o (dinode_bytes (to_dinode ?x))) = BSIZE"
      using l la dinode_off_bound [of "i_inum x"] by (simp add: length_dinode_bytes to_dinode_def BSIZE_def)
    note U = inode_block_upd [OF fs1 _ this]
    have inum1: "i_inum x \<le> sb_ninodes (a_sb E1)" using inum sb by (simp add: D_def x_def)
    have fsE: "fs_ok ?E" and kE: "keeps {?ib} E1 ?E" using U inum1 by auto
    have dis: "owned E1 a1 \<inter> {?ib} = {}" using owned_not_inode_block [OF fo1 fs_okD(1) [OF fs1] inum1] by blast
    note kf = keeps_file [OF kE fo1 fs_okD(1) [OF fs1] dis]
    have i3: "inodes s3 = (inodes s)[ip := ?x]" using dstep_inodes [OF 3(2)] i2 by simp
    have ad3: "adisk s3 = (adisk s)(dev := ?E)" using dstepD(4) [OF 3(2)] d2 ad1 by simp
    have nw: "of_nat ?sz' = off + ?n" using gr by simp
    have "?s2 = s1\<lparr>inodes := inodes s3\<rparr>" unfolding i3 i2(1) [symmetric] by (simp add: upd_inode_def)
    then have bs: "bstep (s\<lparr>inodes := inodes s3\<rparr>) s3"
      using dstepD(1) [OF dstep_then [OF 1(2) [unfolded istep_def], of ?E "inodes s3" s3]] 3(2) by simp
    have "on_file s3 ip dev a1 ?n'"
      using i3 ip dv fsE kf(3) ad3 idle_dstep [OF d2(2) 3(2)] by (simp add: on_file_def)
    moreover note bs
    moreover have "keeps (owned D a \<union> {?ib}) D ?E"
      by (rule keeps_trans [OF keeps_mono [OF k1] kE]) auto
    moreover have "disk_inode ?E (i_inum x) = to_dinode ?x"
      using l la dinode_off_bound [of "i_inum x"] by (simp add: disk_inode_def get_dinode_patch to_dinode_def BSIZE_def)
    ultimately show ?thesis
      using True code 3(1) i3 nw ad3 kf(4) c1 ip
      by (intro exI [of _ s3] exI [of _ ?E] exI [of _ a1] exI [of _ ?n']) simp
  qed
qed

lemma readi_ok:
  assumes f: "on_file s ip dev a (unat (i_size (inodes s ! ip)))" and ty: "i_type (inodes s ! ip) \<noteq> T_DEV"
    and off: "unat off \<le> unat (i_size (inodes s ! ip))" "unat off + unat n < 2 ^ 32"
  defines "k \<equiv> min (unat n) (unat (i_size (inodes s ! ip)) - unat off)"
  shows "\<exists>s'. readi devsw ip off n s =
      Inr ((int k, slice (contents (adisk s dev) a (unat (i_size (inodes s ! ip)))) (unat off) k), s') \<and>
    dstep dev (adisk s dev) s s'"
proof -
  let ?x = "inodes s ! ip" and ?n = "if off + n > i_size (inodes s ! ip) then i_size (inodes s ! ip) - off else n"
  note S = on_file_size [OF f]
  have uo: "unat (off + n) = unat off + unat n" using off(2) by (intro unat_plus_small) simp
  have g: "\<not> (i_size ?x < off \<or> off + n < off)" using off(1) uo by (simp add: word_less_nat_alt)
  have un: "unat ?n = k"
    using off(1) uo by (auto simp: word_less_nat_alt k_def unat_minus_small)
  have le: "unat off + unat ?n \<le> unat (i_size ?x)" using off(1) unfolding un k_def by auto
  obtain s' where s': "readi_loop (unat ?n) ip off ?n [] s = Inr (slice (contents (adisk s dev) a (unat (i_size ?x))) (unat off) k, s')"
    "istep ip a dev (adisk s dev) s s'"
    using readi_loop_ok [OF f le order_refl, of "[]"] un by auto
  have "k < 2147483648" using S(1) by (simp add: k_def)
  then have "sint ?n = int k" using sint_of_nat [of k] un [symmetric] by simp
  moreover have "(inodes s)[ip := ?x\<lparr>i_addrs := a\<rparr>] = inodes s"
    using f by (simp add: on_file_def) (metis inode.surjective inode.update_convs(11) list_update_id)
  then have "dstep dev (adisk s dev) s s'" using s'(2) by (simp add: istep_def)
  ultimately show ?thesis using ty g s'(1) by (simp add: readi_def Let_def)
qed

text \<open>C1: \<open>writei\<close> refines overwriting a range of a byte list. On a well-formed file system with
  enough free blocks, writing \<open>src\<close> at an offset not past the end returns the number of bytes, the new
  contents of the file are the old ones with \<open>src\<close> at the offset, its size grows to the end of the range
  if that is larger, the file system and the file are well-formed again, the inode on disk stays equal
  to the one in memory, and no other file changes.\<close>

theorem writei_refines:
  assumes "on_file s ip dev a (unat (i_size (inodes s ! ip)))" and "i_type (inodes s ! ip) \<noteq> T_DEV"
    and "i_inum (inodes s ! ip) \<le> sb_ninodes (a_sb (adisk s dev))"
    and "unat off \<le> unat (i_size (inodes s ! ip))" and "unat off + length src \<le> MAXFILE * BSIZE"
    and "2 * nblocks (unat off) (length src) \<le> nfree (adisk s dev)"
  shows "\<exists>s' x'. writei devsw ip src off (of_nat (length src)) s = Inr (int (length src), s') \<and> inodes s' ! ip = x' \<and>
    unat (i_size x') = max (unat (i_size (inodes s ! ip))) (unat off + length src) \<and>
    on_file s' ip dev (i_addrs x') (unat (i_size x')) \<and>
    contents (adisk s' dev) (i_addrs x') (unat (i_size x')) =
      patch (contents (adisk s dev) a (unat (i_size (inodes s ! ip)))) (unat off) src \<and>
    (\<forall>b m. file_ok (adisk s dev) b m \<longrightarrow> owned (adisk s dev) b \<inter> owned (adisk s dev) a = {} \<longrightarrow>
       file_ok (adisk s' dev) b m \<and> contents (adisk s' dev) b m = contents (adisk s dev) b m) \<and>
    (disk_inode (adisk s dev) (i_inum (inodes s ! ip)) = to_dinode (inodes s ! ip) \<longrightarrow>
       disk_inode (adisk s' dev) (i_inum x') = to_dinode x')"
proof -
  let ?D = "adisk s dev" and ?x = "inodes s ! ip"
  obtain s' E a' n' where W: "writei devsw ip src off (of_nat (length src)) s = Inr (int (length src), s')"
    "inodes s' = (inodes s)[ip := ?x\<lparr>i_addrs := a', i_size := of_nat (max (unat (i_size ?x)) (unat off + length src))\<rparr>]"
    "n' = max (unat (i_size ?x)) (unat off + length src)"
    "adisk s' = (adisk s)(dev := E)" "on_file s' ip dev a' n'" "contents E a' n' = patch (contents ?D a (unat (i_size ?x))) (unat off) src"
    "keeps (owned ?D a \<union> {IBLOCK (i_inum ?x)}) ?D E"
    "disk_inode ?D (i_inum ?x) = to_dinode ?x \<longrightarrow> disk_inode E (i_inum ?x) = to_dinode (inodes s' ! ip)"
    using writei_ok [OF assms(1) order_refl assms(2-6)] by blast
  note S = on_file_size [OF assms(1)]
  have ip: "ip < length (inodes s)" using assms(1) by (simp add: on_file_def)
  have un: "unat (of_nat n' :: uint) = n'" using on_file_size(1) [OF W(5)] by (intro unat_of_nat_uint) simp
  have oth: "file_ok E b m \<and> contents E b m = contents ?D b m" if "file_ok ?D b m" "owned ?D b \<inter> owned ?D a = {}" for b m
    using keeps_file [OF W(7) that(1) S(5)] owned_not_inode_block [OF that(1) S(5) assms(3)] that(2) by auto
  show ?thesis
    by (intro exI [of _ s'] exI [of _ "inodes s' ! ip"] conjI allI impI)
      (use W ip un oth in \<open>simp_all\<close>)
qed

text \<open>What \<open>writei\<close> writes, \<open>readi\<close> of the same range returns.\<close>

theorem writei_readi:
  assumes "on_file s ip dev a (unat (i_size (inodes s ! ip)))" and "i_type (inodes s ! ip) \<noteq> T_DEV"
    and "i_inum (inodes s ! ip) \<le> sb_ninodes (a_sb (adisk s dev))"
    and "unat off \<le> unat (i_size (inodes s ! ip))" and "unat off + length src \<le> MAXFILE * BSIZE"
    and "2 * nblocks (unat off) (length src) \<le> nfree (adisk s dev)"
  shows "\<exists>s' s''. writei devw ip src off (of_nat (length src)) s = Inr (int (length src), s') \<and>
    readi devr ip off (of_nat (length src)) s' = Inr ((int (length src), src), s'') \<and> adisk s'' dev = adisk s' dev"
proof -
  let ?D = "adisk s dev" and ?x = "inodes s ! ip"
  obtain s' E a' n' where W: "writei devw ip src off (of_nat (length src)) s = Inr (int (length src), s')"
    "inodes s' = (inodes s)[ip := ?x\<lparr>i_addrs := a', i_size := of_nat (max (unat (i_size ?x)) (unat off + length src))\<rparr>]"
    "n' = max (unat (i_size ?x)) (unat off + length src)"
    "adisk s' = (adisk s)(dev := E)" "on_file s' ip dev a' n'" "contents E a' n' = patch (contents ?D a (unat (i_size ?x))) (unat off) src"
    using writei_ok [OF assms(1) order_refl assms(2-6)] by blast
  have ip: "ip < length (inodes s)" using assms(1) by (simp add: on_file_def)
  have un: "unat (of_nat n' :: uint) = n'" using on_file_size(1) [OF W(5)] by (intro unat_of_nat_uint) simp
  have ul: "unat (of_nat (length src) :: uint) = length src"
    using assms(5) by (intro unat_of_nat_uint) (simp add: MAXFILE_bytes)
  have x': "inodes s' ! ip = ?x\<lparr>i_addrs := a', i_size := of_nat n'\<rparr>" using W(2,3) ip by simp
  have k: "min (length src) (n' - unat off) = length src" "unat off \<le> n'" using W(3) by simp_all
  have f': "on_file s' ip dev a' (unat (i_size (inodes s' ! ip)))" using W(5) x' un by simp
  obtain s'' where R: "readi devr ip off (of_nat (length src)) s' =
      Inr ((int (length src), slice (contents E a' n') (unat off) (length src)), s'')" "dstep dev (adisk s' dev) s' s''"
    using readi_ok [OF f', of off "of_nat (length src)" devr] assms(2,5) x' un ul k W(4) by (auto simp: MAXFILE_bytes)
  have "slice (contents E a' n') (unat off) (length src) = src"
    unfolding W(6) using assms(4) by (simp add: patch_def slice_def)
  with W(1) R dstepD(5) [OF R(2)] show ?thesis by auto
qed

text \<open>C19: \<open>readi\<close> refines reading a slice of a byte list. It returns the bytes of the range that
  lie in the file, cut off at its end, and changes neither the disk nor any inode; an offset past the
  end and a range that wraps around are refused with -1.\<close>

theorem readi_refines:
  assumes "on_file s ip dev a (unat (i_size (inodes s ! ip)))" and "i_type (inodes s ! ip) \<noteq> T_DEV"
    and "k = min (unat n) (unat (i_size (inodes s ! ip)) - unat off)"
  shows "if unat off \<le> unat (i_size (inodes s ! ip)) \<and> unat off + unat n < 2 ^ 32
    then \<exists>s'. readi devsw ip off n s =
        Inr ((int k, slice (contents (adisk s dev) a (unat (i_size (inodes s ! ip)))) (unat off) k), s') \<and>
      adisk s' = adisk s \<and> inodes s' = inodes s
    else readi devsw ip off n s = Inr ((- 1, []), s)"
proof (cases "unat off \<le> unat (i_size (inodes s ! ip)) \<and> unat off + unat n < 2 ^ 32")
  case True
  then obtain s' where "readi devsw ip off n s =
      Inr ((int k, slice (contents (adisk s dev) a (unat (i_size (inodes s ! ip)))) (unat off) k), s')"
    and st: "dstep dev (adisk s dev) s s'" using readi_ok [OF assms(1,2)] assms(3) by blast
  with True dstepD(4) [OF st] dstep_inodes [OF st] show ?thesis by auto
next
  case False
  have "off + n < off \<longleftrightarrow> 2 ^ 32 \<le> unat off + unat n"
  proof (cases "unat off + unat n < 2 ^ 32")
    case True
    then show ?thesis using unat_plus_small [of off n] by (simp add: word_less_nat_alt)
  next
    case F: False
    have F': "4294967296 \<le> unat off + unat n" using F by simp
    have less: "unat off + unat n - 4294967296 < unat off" using F' unat_uint_less [of n] by linarith
    have "(unat off + unat n) mod 4294967296 = (unat off + unat n - 4294967296) mod 4294967296" using F' by (rule le_mod_geq)
    moreover have "unat off + unat n - 4294967296 < 4294967296" using less unat_uint_less [of off] by linarith
    ultimately have "unat (off + n) = unat off + unat n - 4294967296" by (simp add: unat_word_ariths)
    with F less show ?thesis by (simp add: word_less_nat_alt)
  qed
  with False assms(2) show ?thesis by (auto simp: readi_def Let_def word_less_nat_alt)
qed

section \<open>A file on the small disk\<close>

definition empty_file :: inode where
  "empty_file = \<lparr>i_dev = 1, i_inum = 2, i_ref = 1, i_busy = True, i_valid = True, i_type = T_FILE, i_major = 0, i_minor = 0,
     i_nlink = 1, i_size = 0, i_addrs = replicate 13 0\<rparr>"

definition boot_fs :: fsstate where
  "boot_fs = boot_img 1000 (fsstate.fields [empty_file])"

lemma binit_loop_inodes: "inodes (binit_loop k b s) = inodes s"
  by (induction k arbitrary: b s) (simp_all add: Let_def upd_buf_def)

lemma boot_fs_inodes: "inodes boot_fs = [empty_file]"
  by (simp add: boot_fs_def boot_img_def binit_def initlock_def Let_def binit_loop_inodes upd_buf_def boot_ext_def
      fsstate.defs)

lemma boot_fs_idle: "idle boot_fs 1"
  using boot_disk_ok [of "\<lambda>_. img 1000" "fsstate.fields [empty_file]"]
    boot_disk_good [of 0 "\<lambda>_. img 1000" "fsstate.fields [empty_file]"]
  by (auto simp: idle_def boot_fs_def boot_img_def good_block_def)

lemma img_used_uint: "unat b < 4096 \<Longrightarrow> used (img sz) b \<longleftrightarrow> unat b < 5"
  using img_used [of "unat b" sz] by simp

lemma img_fs_ok: "fs_ok (img 1000)"
proof -
  have n: "nbits (img 1000) = 4096" "nbm (img 1000) = 1" by (simp_all add: img_meta nbm_def img_sb)
  then have d: "data_start (img 1000) = 5" by (simp add: data_start_def img_sb)
  have "img 1000 b = replicate BSIZE 0" if "is_data (img 1000) b" for b
  proof -
    have "5 \<le> unat b" "unat b < 4096" using that d n by (simp_all add: is_data_def)
    then have "b \<noteq> 1" "b \<noteq> 4" "\<not> 0x10000000 \<le> b" by (auto simp: word_le_nat_alt)
    then show ?thesis by (simp add: img_def BSIZE_def)
  qed
  with d n show ?thesis by (auto simp: fs_ok_def img_geometry img_used_uint)
qed

lemma img_nfree: "2 \<le> nfree (img 1000)"
proof -
  have "{5, 6} \<subseteq> {b. b < nbits (img 1000) \<and> \<not> used (img 1000) (of_nat b)}"
    using img_used [of 5 1000] img_used [of 6 1000] by (simp add: img_meta)
  then have "card {5, 6 :: nat} \<le> nfree (img 1000)" unfolding nfree_def by (intro card_mono) auto
  then show ?thesis by simp
qed

lemma empty_file_ok: "file_ok D (replicate 13 0) 0"
proof -
  have "blk D (replicate 13 0) i = 0" if "i < MAXFILE" for i by (simp add: blk_def NDIRECT_def)
  then show ?thesis by (auto simp: file_ok_def owned_def NDIRECT_def)
qed

lemma boot_fs_file: "on_file boot_fs 0 1 (replicate 13 0) 0"
  using boot_fs_idle boot_fs_inodes img_fs_ok empty_file_ok
  by (simp add: on_file_def boot_fs_def boot_img_adisk empty_file_def)

lemma boot_fs_hyps:
  "on_file boot_fs 0 1 (replicate 13 0) (unat (i_size (inodes boot_fs ! 0)))" "i_type (inodes boot_fs ! 0) \<noteq> T_DEV"
  "i_inum (inodes boot_fs ! 0) \<le> sb_ninodes (a_sb (adisk boot_fs 1))" "unat (0 :: uint) \<le> unat (i_size (inodes boot_fs ! 0))"
  "2 * nblocks (unat (0 :: uint)) 2 \<le> nfree (adisk boot_fs 1)"
  using boot_fs_file img_nfree
  by (simp_all add: boot_fs_inodes, simp_all add: empty_file_def T_FILE_def T_DEV_def boot_fs_def boot_img_adisk img_sb nblocks_def BSIZE_def)

theorem writei_readi_witness:
  "\<exists>s' s''. writei (\<lambda>_. None) 0 [104, 105] 0 2 boot_fs = Inr (2, s') \<and>
    readi (\<lambda>_. None) 0 0 2 s' = Inr ((2, [104, 105]), s'')"
  using writei_readi [OF boot_fs_hyps(1-4), of "[104, 105]" "\<lambda>_. None" "\<lambda>_. None"] boot_fs_hyps(5)
  by (auto simp: MAXFILE_bytes numeral_2_eq_2)

theorem writei_refines_witness:
  "\<exists>s'. writei (\<lambda>_. None) 0 [104, 105] 0 2 boot_fs = Inr (2, s') \<and> unat (i_size (inodes s' ! 0)) = 2 \<and>
    contents (adisk s' 1) (i_addrs (inodes s' ! 0)) 2 = [104, 105]"
proof -
  have sz: "i_size (inodes boot_fs ! 0) = 0" by (simp add: boot_fs_inodes empty_file_def)
  have "2 * nblocks (unat (0 :: uint)) (length [104, 105 :: byte]) \<le> nfree (adisk boot_fs 1)"
    using boot_fs_hyps(5) by (simp add: numeral_2_eq_2)
  moreover have "contents D (replicate 13 0) 0 = []" for D by (simp add: contents_def)
  ultimately show ?thesis
    using writei_refines [OF boot_fs_hyps(1-4), of "[104, 105]" "\<lambda>_. None"] unfolding sz
    by (auto simp: MAXFILE_bytes patch_def numeral_2_eq_2)
qed

theorem readi_refines_witness:
  "(\<exists>s'. readi (\<lambda>_. None) 0 0 10 boot_fs = Inr ((0, []), s')) \<and> readi (\<lambda>_. None) 0 1 10 boot_fs = Inr ((- 1, []), boot_fs)"
proof -
  have sz: "i_size (inodes boot_fs ! 0) = 0" by (simp add: boot_fs_inodes empty_file_def)
  show ?thesis
    using readi_refines [OF boot_fs_hyps(1,2) refl, of 0 10 "\<lambda>_. None"]
      readi_refines [OF boot_fs_hyps(1,2) refl, of 1 10 "\<lambda>_. None"] unfolding sz by auto
qed

end
