(* ===== verification/Icache.thy ===== *)
theory Icache
  imports FsReadWrite
begin

unbundle bit_operations_syntax

text \<open>
  The inode cache (\<open>iget\<close>, \<open>idup\<close>, \<open>ilock\<close>, \<open>iunlock\<close>, \<open>iput\<close> of \<^verbatim>\<open>fs.c\<close>): one slot per inode in
  use, reference counts, and inodes that are read from disk when they are first locked.
\<close>

section \<open>The icache lock\<close>

lemma inodes_entered [simp]:
  "inodes (entered l s) = inodes s" "(entered l s)\<lparr>inodes := I\<rparr> = entered l (s\<lparr>inodes := I\<rparr>)"
  by (simp_all add: entered_def lock_defs)

lemma inodes_locks [simp]:
  "quiet (s\<lparr>inodes := I\<rparr>) = quiet s" "free_lock l (s\<lparr>inodes := I\<rparr>) = free_lock l s" "cpu_ok (s\<lparr>inodes := I\<rparr>) = cpu_ok s"
  "myproc (s\<lparr>inodes := I\<rparr>) = myproc s"
  by (simp_all add: quiet_def cpu_ok_def free_lock_def mycpu_def myproc_def)

lemma upd_inode_entered [simp]: "upd_inode ip f (entered l s) = entered l (upd_inode ip f s)"
  by (simp add: upd_inode_def)

lemma upd_inode_locks [simp]:
  "quiet (upd_inode ip f s) = quiet s" "free_lock l (upd_inode ip f s) = free_lock l s" "cpu_ok (upd_inode ip f s) = cpu_ok s"
  by (simp_all add: upd_inode_def)

lemma upd_inode_inodes [simp]: "inodes (upd_inode ip f s) = (inodes s)[ip := f (inodes s ! ip)]"
  by (simp add: upd_inode_def)

section \<open>Slots\<close>

definition caches :: "uint \<Rightarrow> uint \<Rightarrow> inode \<Rightarrow> bool" where
  "caches dev inum x \<longleftrightarrow> i_ref x > 0 \<and> i_dev x = dev \<and> i_inum x = inum"

text \<open>No inode has two slots, and no count is negative.\<close>

definition icache_inv :: "inode list \<Rightarrow> bool" where
  "icache_inv I \<longleftrightarrow> (\<forall>x\<in>set I. 0 \<le> i_ref x) \<and>
     (\<forall>i<length I. \<forall>j<length I. i_ref (I ! i) > 0 \<longrightarrow> i_ref (I ! j) > 0 \<longrightarrow> i_dev (I ! i) = i_dev (I ! j) \<longrightarrow>
        i_inum (I ! i) = i_inum (I ! j) \<longrightarrow> i = j)"

lemma iget_scan_found:
  assumes "k < length I" and "caches dev inum (I ! k)" and "\<forall>j<k. \<not> caches dev inum (I ! j)"
  shows "fst (iget_scan dev inum i free I) = Some (i + k)"
  using assms
proof (induction I arbitrary: i free k)
  case (Cons x xs)
  show ?case
  proof (cases k)
    case 0
    then show ?thesis using Cons.prems by (simp add: caches_def)
  next
    case (Suc k')
    have "\<not> caches dev inum x" using Cons.prems(3) Suc by force
    moreover have "\<forall>j<k'. \<not> caches dev inum (xs ! j)" using Cons.prems(3) Suc by force
    ultimately show ?thesis
      using Cons.IH [of k' "Suc i"] Cons.prems(1,2) Suc by (simp add: caches_def)
  qed
qed simp

lemma iget_scan_none:
  assumes "\<forall>x\<in>set I. \<not> caches dev inum x"
  shows "iget_scan dev inum i free I =
    (None, if free \<noteq> None then free else map_option (\<lambda>k. i + k) (find (\<lambda>k. i_ref (I ! k) = 0) [0..<length I]))"
  using assms
proof (induction I arbitrary: i free)
  case (Cons x xs)
  have "[0..<length (x # xs)] = 0 # map Suc [0..<length xs]" by (simp add: map_Suc_upt upt_conv_Cons del: upt_Suc)
  then have "find (\<lambda>k. i_ref ((x # xs) ! k) = 0) [0..<length (x # xs)] =
      (if i_ref x = 0 then Some 0 else map_option Suc (find (\<lambda>k. i_ref (xs ! k) = 0) [0..<length xs]))"
    by (simp add: find_map_comp)
  moreover have "(+) (Suc i) = (\<lambda>k. Suc (i + k))" by auto
  ultimately show ?case using Cons by (auto simp: caches_def option.map_comp comp_def)
qed simp

lemma find_upt_None: "find P [0..<n] = None \<longleftrightarrow> (\<forall>k<n. \<not> P k)"
  by (auto simp: find_None_iff)

lemma find_upt_Some: "find P [0..<n] = Some k \<longleftrightarrow> k < n \<and> P k \<and> (\<forall>j<k. \<not> P j)"
proof -
  have "find P [0..<n] = Some k \<longleftrightarrow> (\<exists>i<n. P i \<and> k = i \<and> (\<forall>j<i. \<not> P j))"
    by (auto simp: find_Some_iff)
  then show ?thesis by blast
qed

lemma find_upt_ex: "k < n \<Longrightarrow> P k \<Longrightarrow> \<exists>j. find P [0..<n] = Some j"
  using find_upt_None [of P n] by (cases "find P [0..<n]") auto

text \<open>A new reference to a cached inode, or a fresh slot for it.\<close>

definition reref :: "inode \<Rightarrow> inode" where
  "reref x = x\<lparr>i_ref := i_ref x + 1\<rparr>"

definition fresh :: "uint \<Rightarrow> uint \<Rightarrow> inode \<Rightarrow> inode" where
  "fresh dev inum x = x\<lparr>i_dev := dev, i_inum := inum, i_ref := 1, i_busy := False, i_valid := False\<rparr>"

lemma iget_cached:
  assumes "quiet s" and "k < length (inodes s)" and "caches dev inum (inodes s ! k)" and "\<forall>j<k. \<not> caches dev inum (inodes s ! j)"
  shows "iget dev inum s = Inr (k, upd_inode k reref s)"
  using iget_scan_found [OF assms(2-4), of 0 None] assms(1)
  by (cases "iget_scan dev inum 0 None (inodes s)") (auto simp: iget_def reref_def [abs_def] Let_def)

lemma iget_new:
  assumes "quiet s" and "\<forall>x\<in>set (inodes s). \<not> caches dev inum x"
  shows "iget dev inum s =
    (case find (\<lambda>k. i_ref (inodes s ! k) = 0) [0..<length (inodes s)] of
       None \<Rightarrow> Inl (Panic ''iget: no inodes'')
     | Some k \<Rightarrow> Inr (k, upd_inode k (fresh dev inum) s))"
  using assms by (simp add: iget_def iget_scan_none fresh_def [abs_def] Let_def split: option.split)

lemma icache_inv_reref:
  assumes "icache_inv I" and "k < length I" and "0 < i_ref (I ! k)"
  shows "icache_inv (I[k := reref (I ! k)])"
proof -
  have nn: "\<forall>x\<in>set I. 0 \<le> i_ref x" using assms(1) by (simp add: icache_inv_def)
  have "\<forall>x\<in>set (I[k := reref (I ! k)]). 0 \<le> i_ref x"
    using nn nth_mem [OF assms(2)] set_update_subset_insert [of I k "reref (I ! k)"] by (auto simp: reref_def)
  moreover have "i_ref (I[k := reref (I ! k)] ! i) > 0 \<longleftrightarrow> i_ref (I ! i) > 0"
    "i_dev (I[k := reref (I ! k)] ! i) = i_dev (I ! i)" "i_inum (I[k := reref (I ! k)] ! i) = i_inum (I ! i)" if "i < length I" for i
    using that assms(2,3) by (cases "i = k"; simp add: reref_def)+
  ultimately show ?thesis using assms(1) by (auto simp: icache_inv_def)
qed

lemma icache_inv_fresh:
  assumes "icache_inv I" and "k < length I" and "i_ref (I ! k) = 0" and "\<forall>x\<in>set I. \<not> caches dev inum x"
  shows "icache_inv (I[k := fresh dev inum (I ! k)])"
proof -
  have nn: "\<forall>x\<in>set I. 0 \<le> i_ref x" using assms(1) by (simp add: icache_inv_def)
  have "\<forall>x\<in>set (I[k := fresh dev inum (I ! k)]). 0 \<le> i_ref x"
    using nn set_update_subset_insert [of I k "fresh dev inum (I ! k)"] by (auto simp: fresh_def)
  moreover have "\<not> caches dev inum (I ! i)" if "i < length I" for i using assms(4) that by simp
  then have "i = j" if "i < length I" "j < length I" "i_ref (I[k := fresh dev inum (I ! k)] ! i) > 0"
    "i_ref (I[k := fresh dev inum (I ! k)] ! j) > 0"
    "i_dev (I[k := fresh dev inum (I ! k)] ! i) = i_dev (I[k := fresh dev inum (I ! k)] ! j)"
    "i_inum (I[k := fresh dev inum (I ! k)] ! i) = i_inum (I[k := fresh dev inum (I ! k)] ! j)" for i j
    using that assms(1,2) by (cases "i = k"; cases "j = k") (auto simp: fresh_def caches_def icache_inv_def)
  ultimately show ?thesis by (simp add: icache_inv_def)
qed


section \<open>Locking\<close>

definition load :: "dinode \<Rightarrow> inode \<Rightarrow> inode" where
  "load d x = x\<lparr>i_busy := True, i_type := d_type d, i_major := d_major d, i_minor := d_minor d, i_nlink := d_nlink d,
     i_size := d_size d, i_addrs := d_addrs d, i_valid := True\<rparr>"

lemma idle_quiet: "idle s dev \<Longrightarrow> quiet s" "idle s dev \<Longrightarrow> myproc s \<noteq> None"
  using bcache_ok_idle(1) [of s] by (auto simp: idle_def ide_idle_def)

lemma ilock_valid:
  assumes "quiet s" and "1 \<le> i_ref (inodes s ! ip)" and "\<not> i_busy (inodes s ! ip)" and "i_valid (inodes s ! ip)" and "ip < length (inodes s)"
  shows "ilock (Some ip) s = Inr (upd_inode ip (\<lambda>x. x\<lparr>i_busy := True\<rparr>) s)"
  using assms by (simp add: ilock_def Let_def)

lemma ilock_load:
  assumes idle: "idle s dev" and ip: "ip < length (inodes s)" and dev: "i_dev (inodes s ! ip) = dev"
    and r: "1 \<le> i_ref (inodes s ! ip)" "\<not> i_busy (inodes s ! ip)" "\<not> i_valid (inodes s ! ip)"
    and g: "geometry (adisk s dev)" and inum: "i_inum (inodes s ! ip) \<le> sb_ninodes (a_sb (adisk s dev))"
  defines "d \<equiv> disk_inode (adisk s dev) (i_inum (inodes s ! ip))"
  shows "if d_type d = 0 then ilock (Some ip) s = Inl (Panic ''ilock: no type'')
    else \<exists>s'. ilock (Some ip) s = Inr s' \<and>
      dstep dev (adisk s dev) (s\<lparr>inodes := (inodes s)[ip := load d (inodes s ! ip)]\<rparr>) s'"
proof -
  let ?x = "inodes s ! ip" and ?D = "adisk s dev" and ?ib = "IBLOCK (i_inum (inodes s ! ip))"
  let ?s1 = "upd_inode ip (\<lambda>x. x\<lparr>i_busy := True\<rparr>) s"
  have c: "can ?s1 dev {?ib}" using idle_can [OF idle, of "{?ib}"] inode_block(4) [OF g inum] by (simp add: upd_inode_def)
  have ad: "adisk ?s1 = adisk s" "held ?s1 = held s" by (simp_all add: upd_inode_def)
  obtain bp s2 where 2: "bread dev ?ib ?s1 = Inr (bp, s2)" "bstep ?s1 s2" "bcache_ok s2" "adisk s2 = adisk s"
    "held s bp = None" "held s2 = (held s)(bp \<mapsto> (dev, ?ib, ?D ?ib))"
    using hold_block [OF c, of ?ib] ad by auto
  have i2: "inodes s2 = (inodes s)[ip := ?x\<lparr>i_busy := True\<rparr>]" using bstep_inodes [OF 2(2)] by simp
  have bd: "b_data (bufs s2 ! bp) = ?D ?ib" using heldD(5) [of s2 bp dev ?ib] 2(6) by simp
  let ?f = "\<lambda>x. x\<lparr>i_type := d_type d, i_major := d_major d, i_minor := d_minor d,
                          i_nlink := d_nlink d, i_size := d_size d, i_addrs := d_addrs d\<rparr>"
  let ?s3 = "upd_inode ip ?f s2"
  have i3: "inodes ?s3 = (inodes s)[ip := ?f (?x\<lparr>i_busy := True\<rparr>)]" using i2 ip by simp
  obtain s4 where 4: "brelse bp ?s3 = Inr s4" "bstep ?s3 s4" "bcache_ok s4" "adisk s4 = adisk s" "held s4 = held s"
    using drop_block [of ?s3 bp dev ?ib] 2(3-6) fun_upd_idem [of "held s" bp None, OF 2(5)] by (auto simp: upd_inode_def)
  let ?I = "(inodes s)[ip := load d ?x]" and ?s5 = "upd_inode ip (\<lambda>x. x\<lparr>i_valid := True\<rparr>) s4"
  have i5: "inodes ?s5 = ?I" using bstep_inodes [OF 4(2)] i3 ip by (simp add: load_def)
  have s1: "?s1\<lparr>inodes := ?I\<rparr> = s\<lparr>inodes := ?I\<rparr>" and s3: "?s3\<lparr>inodes := ?I\<rparr> = s2\<lparr>inodes := ?I\<rparr>"
    by (simp_all add: upd_inode_def)
  have s5: "?s5 = s4\<lparr>inodes := ?I\<rparr>" unfolding i5 [symmetric] by (simp add: upd_inode_def)
  have "bstep (s\<lparr>inodes := ?I\<rparr>) ?s5"
    unfolding s5 using bstep_trans [OF bstep_upd_inodes [OF 2(2), of ?I, unfolded s1] bstep_upd_inodes [OF 4(2), of ?I, unfolded s3]] .
  then have st: "dstep dev ?D (s\<lparr>inodes := ?I\<rparr>) ?s5" using 4 by (simp add: dstep_def upd_inode_def)
  have dd: "get_dinode (?D ?ib) (dinode_off (i_inum ?x)) = d" by (simp add: d_def disk_inode_def)
  have code: "ilock (Some ip) s = (if i_type (inodes ?s5 ! ip) = 0 then Inl (Panic ''ilock: no type'') else Inr ?s5)"
    using r ip idle_quiet(1) [OF idle] dev 2(1) bd i2 4(1) dd by (simp add: ilock_def Let_def)
  have ty: "i_type (inodes ?s5 ! ip) = d_type d" unfolding i5 using ip by (simp add: load_def)
  show ?thesis using st unfolding code ty by auto
qed

text \<open>An inode survives the cache. After \<open>iupdate\<close> of a cached inode, a slot for the same inode
  that has not been read yet gets exactly its type, device numbers, link count, size and addresses
  when it is locked.\<close>

theorem iupdate_ilock:
  assumes "idle s dev" and "ip < length (inodes s)" and "i_dev (inodes s ! ip) = dev" and "fs_ok (adisk s dev)"
    and "i_inum (inodes s ! ip) \<le> sb_ninodes (a_sb (adisk s dev))" and "length (i_addrs (inodes s ! ip)) = Suc NDIRECT"
    and "i_type (inodes s ! ip) \<noteq> 0"
    and "jp < length I" and "i_dev (I ! jp) = dev" and "i_inum (I ! jp) = i_inum (inodes s ! ip)" and "1 \<le> i_ref (I ! jp)"
    and "\<not> i_busy (I ! jp)" and "\<not> i_valid (I ! jp)"
  shows "\<exists>s' s''. iupdate ip s = Inr s' \<and> ilock (Some jp) (s'\<lparr>inodes := I\<rparr>) = Inr s'' \<and>
    i_busy (inodes s'' ! jp) \<and> i_valid (inodes s'' ! jp) \<and> to_dinode (inodes s'' ! jp) = to_dinode (inodes s ! ip)"
proof -
  let ?x = "inodes s ! ip" and ?D = "adisk s dev"
  let ?ib = "IBLOCK (i_inum ?x)" and ?o = "dinode_off (i_inum ?x)"
  let ?bs = "patch (?D ?ib) ?o (dinode_bytes (to_dinode ?x))" 
  let ?E = "?D(?ib := ?bs)"
  note g = fs_okD(1) [OF assms(4)]
  obtain s' where s': "iupdate ip s = Inr s'" "dstep dev ?E s s'"
    using iupdate_ok [OF assms(1) assms(3) [symmetric] g assms(5)] by blast
  have l: "length (?D ?ib) = BSIZE" using fs_okD(5) [OF assms(4) inode_block(4) [OF g assms(5)]] .
  have da: "length (d_addrs (to_dinode ?x)) = Suc NDIRECT" using assms(6) by (simp add: to_dinode_def)
  have lb: "length ?bs = BSIZE"
    using l dinode_off_bound [of "i_inum ?x"] length_dinode_bytes [OF da] by (simp add: BSIZE_def)
  note E = inode_block_upd [OF assms(4,5) lb]
  have sb: "a_sb ?E = a_sb ?D" using E(2) by (simp add: keeps_def)
  have di: "disk_inode ?E (i_inum ?x) = to_dinode ?x"
    using l dinode_off_bound [of "i_inum ?x"] get_dinode_patch [OF _ da] by (simp add: disk_inode_def BSIZE_def)
  have ty: "d_type (to_dinode ?x) \<noteq> 0" using assms(7) by (simp add: to_dinode_def)
  let ?t = "s'\<lparr>inodes := I\<rparr>"
  have t: "idle ?t dev" "adisk ?t dev = ?E" using idle_dstep [OF assms(1) s'(2)] dstepD(5) [OF s'(2)] by simp_all
  have "\<exists>s''. ilock (Some jp) ?t = Inr s'' \<and>
      dstep dev ?E (?t\<lparr>inodes := I[jp := load (to_dinode ?x) (I ! jp)]\<rparr>) s''"
    using ilock_load [OF t(1), of jp] assms(5,8-13) t(2) di ty sb fs_okD(1) [OF E(1)] by simp
  then obtain s'' where s'': "ilock (Some jp) ?t = Inr s''"
    "dstep dev ?E (?t\<lparr>inodes := I[jp := load (to_dinode ?x) (I ! jp)]\<rparr>) s''" by blast
  have "inodes s'' ! jp = load (to_dinode ?x) (I ! jp)" using dstep_inodes [OF s''(2)] assms(8) by simp
  with s'(1) s''(1) show ?thesis by (auto simp: load_def to_dinode_def)
qed

section \<open>References\<close>

lemma idup_eq: "quiet s \<Longrightarrow> idup ip s = Inr (ip, upd_inode ip reref s)"
  by (simp add: idup_def reref_def [abs_def] Let_def)

definition unref :: "inode \<Rightarrow> inode" where
  "unref x = x\<lparr>i_ref := i_ref x - 1\<rparr>"

lemma iput_keep:
  assumes "quiet s" and "\<not> (i_ref (inodes s ! ip) = 1 \<and> i_valid (inodes s ! ip) \<and> i_nlink (inodes s ! ip) = 0)"
  shows "iput ip s = Inr (upd_inode ip unref s)"
  using assms unfolding iput_def by (auto simp: unref_def [abs_def])

lemma iunlock_ok:
  assumes "quiet s" and "i_busy (inodes s ! ip)" and "1 \<le> i_ref (inodes s ! ip)"
  shows "iunlock (Some ip) s = Inr (wakeup1 (Chan ''inode'' ip) (upd_inode ip (\<lambda>x. x\<lparr>i_busy := False\<rparr>) s))"
  using assms unfolding iunlock_def by (simp add: wakeup_eq wakeup1_def)

section \<open>On the small disk\<close>


theorem iupdate_ilock_witness:
  "\<exists>s' s''. iupdate 0 boot_fs = Inr s' \<and>
    ilock (Some 0) (s'\<lparr>inodes := [empty_file\<lparr>i_busy := False, i_valid := False, i_type := 0, i_nlink := 7\<rparr>]\<rparr>) = Inr s'' \<and>
    to_dinode (inodes s'' ! 0) = to_dinode empty_file"
proof -
  have h: "i_inum (inodes boot_fs ! 0) \<le> sb_ninodes (a_sb (adisk boot_fs 1))" by (rule boot_fs_hyps)
  have x: "inodes boot_fs ! 0 = empty_file" "length (inodes boot_fs) = 1" by (simp_all add: boot_fs_inodes)
  have fs: "fs_ok (adisk boot_fs 1)" using boot_fs_file by (simp add: on_file_def)
  have e: "i_dev empty_file = 1" "length (i_addrs empty_file) = Suc NDIRECT" "i_type empty_file \<noteq> 0" "i_ref empty_file = 1"
    by (simp_all add: empty_file_def NDIRECT_def T_FILE_def)
  show ?thesis
    using iupdate_ilock [OF boot_fs_idle, of 0 0 "[empty_file\<lparr>i_busy := False, i_valid := False, i_type := 0, i_nlink := 7\<rparr>]"] h x fs e
    by auto
qed

end
