(* ===== verification/Dir.thy ===== *)
theory Dir
  imports Icache Cstring
begin

unbundle bit_operations_syntax

text \<open>
  Directories and path names (the second half of \<^verbatim>\<open>fs.c\<close>).

  A path argument is the list of bytes from the pointer on, up to the end of its memory; running off
  that end without a NUL is \<open>Wild\<close>. \<open>name\<close> is the caller's buffer of \<open>DIRSIZ\<close> bytes. A directory
  entry is 16 bytes: the inode number and the name, NUL-padded.
\<close>

section \<open>Directory entries\<close>

definition DIRSIZ :: nat where "DIRSIZ = 14"

definition namecmp :: "byte list \<Rightarrow> byte list \<Rightarrow> int res" where
  "namecmp s t = strncmp s t DIRSIZ"

text \<open>The scan of one block from position \<open>pos\<close> on.\<close>

primrec dir_scan :: "nat \<Rightarrow> byte list \<Rightarrow> byte list \<Rightarrow> nat \<Rightarrow> nat option res" where
  "dir_scan 0 name d pos = Inr None"
| "dir_scan (Suc k) name d pos =
     (if get16 d pos = 0 then dir_scan k name d (pos + 16)
      else andThen (namecmp name (drop (pos + 2) d)) (\<lambda>r.
           if r = 0 then Inr (Some pos) else dir_scan k name d (pos + 16)))"

text \<open>The result is the inode and the offset of its entry.\<close>

primrec dirlookup_loop ::
  "nat \<Rightarrow> nat \<Rightarrow> byte list \<Rightarrow> uint \<Rightarrow> 'a fsstate_scheme \<Rightarrow> ((nat \<times> uint) option \<times> 'a fsstate_scheme) res" where
  "dirlookup_loop 0 dp name off s = Inl (Spins ''dirlookup'')"
| "dirlookup_loop (Suc k) dp name off s =
     (if off < i_size (inodes s ! dp)
      then andThen (bmap dp (off div 512) s) (\<lambda>(bno, s).
           andThen (bread (i_dev (inodes s ! dp)) bno s) (\<lambda>(bp, s).
           let d = b_data (bufs s ! bp) in
           andThen (dir_scan 32 name d 0) (\<lambda>r.
           case r of
             Some pos \<Rightarrow>
               let inum = ucast (get16 d pos) in
               andThen (brelse bp s) (\<lambda>s.
               andThen (iget (i_dev (inodes s ! dp)) inum s) (\<lambda>(ip, s).
               Inr (Some (ip, off + of_nat pos), s)))
           | None \<Rightarrow> andThen (brelse bp s) (\<lambda>s. dirlookup_loop k dp name (off + 512) s))))
      else Inr (None, s))"

definition dirlookup ::
  "nat \<Rightarrow> byte list \<Rightarrow> 'a fsstate_scheme \<Rightarrow> ((nat \<times> uint) option \<times> 'a fsstate_scheme) res" where
  "dirlookup dp name s =
     (if i_type (inodes s ! dp) \<noteq> T_DIR then Inl (Panic ''dirlookup not DIR'')
      else dirlookup_loop (unat (i_size (inodes s ! dp)) div 512 + 2) dp name 0 s)"

primrec dirlink_loop ::
  "nat \<Rightarrow> 'a fsstate_scheme dev_read \<Rightarrow> nat \<Rightarrow> uint \<Rightarrow> 'a fsstate_scheme \<Rightarrow> (uint \<times> 'a fsstate_scheme) res" where
  "dirlink_loop 0 devr dp off s = Inl (Spins ''dirlink'')"
| "dirlink_loop (Suc k) devr dp off s =
     (if off < i_size (inodes s ! dp)
      then andThen (readi devr dp off 16 s) (\<lambda>((r, de), s).
           if r \<noteq> 16 then Inl (Panic ''dirlink read'')
           else if get16 de 0 = 0 then Inr (off, s)
           else dirlink_loop k devr dp (off + 16) s)
      else Inr (off, s))"

definition dirlink ::
  "'a fsstate_scheme dev_read \<Rightarrow> 'a fsstate_scheme dev_write \<Rightarrow> nat \<Rightarrow> byte list \<Rightarrow> uint \<Rightarrow> 'a fsstate_scheme \<Rightarrow>
   (int \<times> 'a fsstate_scheme) res" where
  "dirlink devr devw dp name inum s =
     andThen (dirlookup dp name s) (\<lambda>(r, s).
     case r of
       Some (ip, _) \<Rightarrow> andThen (iput ip s) (\<lambda>s. Inr (- 1, s))
     | None \<Rightarrow>
         andThen (dirlink_loop (unat (i_size (inodes s ! dp)) div 16 + 2) devr dp 0 s) (\<lambda>(off, s).
         andThen (strncpy_bytes name DIRSIZ) (\<lambda>nm.
         let de = bytes16 (ucast inum) @ nm in
         andThen (writei devw dp de off 16 s) (\<lambda>(r, s).
         if r \<noteq> 16 then Inl (Panic ''dirlink'') else Inr (0, s)))))"

section \<open>Paths\<close>

fun skip_slashes :: "byte list \<Rightarrow> byte list res" where
  "skip_slashes [] = Inl (Wild ''skipelem'')"
| "skip_slashes (c # p) = (if c = 47 then skip_slashes p else Inr (c # p))"

fun take_elem :: "byte list \<Rightarrow> (byte list \<times> byte list) res" where
  "take_elem [] = Inl (Wild ''skipelem'')"
| "take_elem (c # p) =
     (if c \<noteq> 47 \<and> c \<noteq> 0 then andThen (take_elem p) (\<lambda>(e, p). Inr (c # e, p)) else Inr ([], c # p))"

definition skipelem :: "byte list \<Rightarrow> byte list \<Rightarrow> (byte list \<times> byte list) option res" where
  "skipelem path name =
     andThen (skip_slashes path) (\<lambda>path.
     if hd path = 0 then Inr None
     else
       andThen (take_elem path) (\<lambda>(e, path).
       let name = (if length e \<ge> DIRSIZ then patch name 0 (take DIRSIZ e)
                   else patch (patch name 0 e) (length e) [0])
       in andThen (skip_slashes path) (\<lambda>path. Inr (Some (path, name)))))"

text \<open>Each round of the loop consumes at least one byte of the path. The result is the inode, if any,
  and the name buffer.\<close>

primrec namex_loop ::
  "nat \<Rightarrow> nat \<Rightarrow> byte list \<Rightarrow> bool \<Rightarrow> byte list \<Rightarrow> 'a fsstate_scheme \<Rightarrow>
   ((nat option \<times> byte list) \<times> 'a fsstate_scheme) res" where
  "namex_loop 0 ip path nameiparent name s = Inl (Spins ''namex'')"
| "namex_loop (Suc k) ip path nameiparent name s =
     andThen (skipelem path name) (\<lambda>r.
     case r of
       None \<Rightarrow>
         if nameiparent then andThen (iput ip s) (\<lambda>s. Inr ((None, name), s))
         else Inr ((Some ip, name), s)
     | Some (path, name) \<Rightarrow>
         andThen (ilock (Some ip) s) (\<lambda>s.
         if i_type (inodes s ! ip) \<noteq> T_DIR then andThen (iunlockput ip s) (\<lambda>s. Inr ((None, name), s))
         else if nameiparent \<and> hd path = 0
         then andThen (iunlock (Some ip) s) (\<lambda>s. Inr ((Some ip, name), s))
         else
           andThen (dirlookup ip name s) (\<lambda>(next, s).
           andThen (iunlockput ip s) (\<lambda>s.
           case next of
             None \<Rightarrow> Inr ((None, name), s)
           | Some (ip, _) \<Rightarrow> namex_loop k ip path nameiparent name s))))"

definition namex ::
  "byte list \<Rightarrow> bool \<Rightarrow> byte list \<Rightarrow> 'a fsstate_scheme \<Rightarrow> ((nat option \<times> byte list) \<times> 'a fsstate_scheme) res" where
  "namex path nameiparent name s =
     (if path = [] then Inl (Wild ''namex'')
      else
        andThen (if hd path = 47 then iget ROOTDEV ROOTINO s
                 else case myproc s of
                        None \<Rightarrow> Inl (Wild ''proc'')
                      | Some p \<Rightarrow>
                          (case p_cwd (procs s ! p) of None \<Rightarrow> Inl (Wild ''cwd'') | Some ip \<Rightarrow> idup ip s)) (\<lambda>(ip, s).
        namex_loop (length path + 1) ip path nameiparent name s))"

definition namei :: "byte list \<Rightarrow> 'a fsstate_scheme \<Rightarrow> (nat option \<times> 'a fsstate_scheme) res" where
  "namei path s = andThen (namex path False (replicate DIRSIZ 0) s) (\<lambda>((ip, _), s). Inr (ip, s))"

definition nameiparent ::
  "byte list \<Rightarrow> byte list \<Rightarrow> 'a fsstate_scheme \<Rightarrow> ((nat option \<times> byte list) \<times> 'a fsstate_scheme) res" where
  "nameiparent path name s = namex path True name s"

section \<open>The elements of a path\<close>

text \<open>The specification: the maximal runs of bytes other than the slash, in order.\<close>

function elems :: "byte list \<Rightarrow> byte list list" where
  "elems [] = []"
| "elems (c # p) =
     (if c = 47 then elems p
      else (c # takeWhile (\<lambda>x. x \<noteq> 47) p) # elems (dropWhile (\<lambda>x. x \<noteq> 47) p))"
  by pat_completeness auto
termination by (relation "measure length") (auto simp: le_imp_less_Suc length_dropWhile_le)

lemma skip_slashes_ok:
  assumes "0 \<in> set p"
  shows "\<exists>q. skip_slashes p = Inr q \<and> q \<noteq> [] \<and> hd q \<noteq> 47 \<and> 0 \<in> set q \<and> length q \<le> length p \<and> elems (cstr q) = elems (cstr p)"
  using assms
proof (induction p)
  case (Cons c p)
  then show ?case by (cases "c = 47") (auto simp del: elems.simps(2), auto)
qed simp

lemma take_elem_ok:
  assumes "0 \<in> set p"
  shows "take_elem p = Inr (takeWhile (\<lambda>c. c \<noteq> 47 \<and> c \<noteq> 0) p, dropWhile (\<lambda>c. c \<noteq> 47 \<and> c \<noteq> 0) p)"
  using assms by (induction p) auto

lemma cstr_takeWhile: "takeWhile (\<lambda>c. c \<noteq> 47) (cstr p) = takeWhile (\<lambda>c. c \<noteq> 47 \<and> c \<noteq> 0) p"
  by (induction p) auto

lemma cstr_dropWhile: "dropWhile (\<lambda>c. c \<noteq> 47) (cstr p) = cstr (dropWhile (\<lambda>c. c \<noteq> 47 \<and> c \<noteq> 0) p)"
  by (induction p) auto

lemma dropWhile_nul: "0 \<in> set p \<Longrightarrow> 0 \<in> set (dropWhile (\<lambda>c. c \<noteq> 47 \<and> c \<noteq> (0 :: byte)) p)"
  by (induction p) auto

lemma cname_patch:
  assumes "length name = n" and "0 \<notin> set e"
  shows "n \<le> length e \<Longrightarrow> cname n (patch name 0 (take n e)) = take n e"
    "length e < n \<Longrightarrow> cname n (patch (patch name 0 e) (length e) [0]) = e"
proof -
  have t: "takeWhile (\<lambda>c. c \<noteq> 0) (take n e) = take n e" using assms(2) by (auto simp: takeWhile_eq_all_conv dest: in_set_takeD)
  show "n \<le> length e \<Longrightarrow> cname n (patch name 0 (take n e)) = take n e"
    using assms t by (simp add: cname_def cstr_def patch_def)
  have t': "takeWhile (\<lambda>c. c \<noteq> 0) (e @ 0 # r) = e" for r using assms(2) by (induction e) auto
  show "length e < n \<Longrightarrow> cname n (patch (patch name 0 e) (length e) [0]) = e"
    using assms t' by (simp add: cname_def cstr_def patch_def take_Cons')
qed

text \<open>C22: \<open>skipelem\<close> takes a NUL-terminated path apart element by element, whatever slashes it
  has. It returns 0 exactly when there is no element left; otherwise the name buffer holds the first
  element, cut off to \<open>DIRSIZ\<close> bytes, the remaining path has exactly the other elements and no leading
  slash, so that it is empty precisely when the element was the last one, and it is shorter.\<close>

theorem skipelem_splits:
  assumes "0 \<in> set p" and "length name = DIRSIZ"
  shows "case elems (cstr p) of
      [] \<Rightarrow> skipelem p name = Inr None
    | e # es \<Rightarrow> \<exists>p' name'. skipelem p name = Inr (Some (p', name')) \<and> length name' = DIRSIZ \<and>
        cname DIRSIZ name' = take DIRSIZ e \<and> 0 \<in> set p' \<and> elems (cstr p') = es \<and> hd p' \<noteq> 47 \<and>
        (hd p' = 0 \<longleftrightarrow> es = []) \<and> length p' < length p"
proof -
  obtain q where q: "skip_slashes p = Inr q" "q \<noteq> []" "hd q \<noteq> 47" "0 \<in> set q" "length q \<le> length p" "elems (cstr q) = elems (cstr p)"
    using skip_slashes_ok [OF assms(1)] by blast
  then obtain c r where cr: "q = c # r" by (cases q) auto
  show ?thesis
  proof (cases "c = 0")
    case True
    with q cr show ?thesis by (simp add: skipelem_def)
  next
    case False
    let ?e = "takeWhile (\<lambda>c. c \<noteq> 47 \<and> c \<noteq> 0) q" and ?r = "dropWhile (\<lambda>c. c \<noteq> 47 \<and> c \<noteq> 0) q"
    have te: "take_elem q = Inr (?e, ?r)" by (rule take_elem_ok [OF q(4)])
    obtain p' where p': "skip_slashes ?r = Inr p'" "p' \<noteq> []" "hd p' \<noteq> 47" "0 \<in> set p'" "length p' \<le> length ?r" "elems (cstr p') = elems (cstr ?r)"
      using skip_slashes_ok [OF dropWhile_nul [OF q(4)]] by blast
    have el: "elems (cstr p) = ?e # elems (cstr p')"
      using False q(3) unfolding q(6) [symmetric] p'(6) by (simp add: cr cstr_takeWhile cstr_dropWhile)
    have ne: "0 \<notin> set ?e" by (auto dest: set_takeWhileD)
    have "length ?r < length q" using False q(3) cr by (simp add: le_imp_less_Suc length_dropWhile_le)
    then have len: "length p' < length p" using p'(5) q(5) by simp
    have e0: "hd p' = 0 \<longleftrightarrow> elems (cstr p') = []" using p'(2,3) by (cases p') auto
    define nm where "nm = (if length ?e \<ge> DIRSIZ then patch name 0 (take DIRSIZ ?e) else patch (patch name 0 ?e) (length ?e) [0])"
    have nm: "length nm = DIRSIZ" "cname DIRSIZ nm = take DIRSIZ ?e"
      using cname_patch [OF assms(2) ne] assms(2) by (auto simp: nm_def)
    have "skipelem p name = Inr (Some (p', nm))"
      using q(1) False cr te p'(1) by (simp add: skipelem_def nm_def)
    with el nm p' len e0 show ?thesis by auto
  qed
qed

theorem skipelem_splits_witness:
  "\<exists>p' name'. skipelem [47, 47, 97, 47, 47, 98, 98, 0] (replicate DIRSIZ 0) = Inr (Some (p', name')) \<and>
    cname DIRSIZ name' = [97] \<and> elems (cstr p') = [[98, 98]] \<and> hd p' \<noteq> 47"
proof -
  have "elems (cstr [47, 47, 97, 47, 47, 98, 98, 0]) = [[97], [98, 98]]" by (simp add: cstr_def)
  then show ?thesis
    using skipelem_splits [of "[47, 47, 97, 47, 47, 98, 98, 0]" "replicate DIRSIZ 0"] by (auto simp: DIRSIZ_def)
qed

end
