(* ===== verification/DirLookup.thy ===== *)
theory DirLookup
  imports Dir
begin

text \<open>
  What \<open>dirlookup\<close> and \<open>dirlink\<close> do, in terms of the directory as a sequence of 16-byte entries. The scan of
  \<open>dirlookup\<close> covers whole blocks, so it also sees the entries after the end of the directory in its
  last block.
\<close>

section \<open>Entries\<close>

definition entry :: "byte list \<Rightarrow> nat \<Rightarrow> byte list" where
  "entry cs i = slice cs (16 * i) 16"

definition matches :: "byte list \<Rightarrow> byte list \<Rightarrow> bool" where
  "matches name e \<longleftrightarrow> get16 e 0 \<noteq> 0 \<and> cname DIRSIZ name = cname DIRSIZ (drop 2 e)"

text \<open>The number of the first entry with that name, among those from \<open>i\<close> up to \<open>j\<close>.\<close>

definition dir_find :: "byte list \<Rightarrow> byte list \<Rightarrow> nat \<Rightarrow> nat \<Rightarrow> nat option" where
  "dir_find name cs i j = find (\<lambda>k. matches name (entry cs k)) [i..<j]"

definition name_ok :: "byte list \<Rightarrow> bool" where
  "name_ok name \<longleftrightarrow> DIRSIZ \<le> length name \<or> 0 \<in> set name"

lemma strncmp_ok:
  assumes "n \<le> length p \<or> 0 \<in> set p" and "n \<le> length q"
  shows "\<exists>d. strncmp p q n = Inr d \<and> (d = 0 \<longleftrightarrow> cname n p = cname n q)"
  using assms
proof (induction p q n rule: strncmp.induct)
  case (2 a p b q n)
  then show ?case by (cases "a \<noteq> 0 \<and> a = b") (auto simp: word_uint_eq_iff)
qed auto

lemma find_Cons_upt: "i < j \<Longrightarrow> find P [i..<j] = (if P i then Some i else find P [Suc i..<j])"
  by (simp add: upt_conv_Cons)

lemma find_map_upt: "find P (map f xs) = map_option f (find (\<lambda>x. P (f x)) xs)"
  by (induction xs) auto

lemma slice_slice: "i + n \<le> m \<Longrightarrow> slice (slice xs off m) i n = slice xs (off + i) n"
  by (simp add: slice_def drop_take min_def add.commute)

lemma get16_slice: "2 \<le> n \<Longrightarrow> off + n \<le> length d \<Longrightarrow> get16 (slice d off n) 0 = get16 d off"
  by (simp add: get16_def slice_def)

lemma cname_take: "n \<le> m \<Longrightarrow> cname n (take m xs) = cname n xs"
  by (simp add: cname_def min_def)

lemma dir_scan_ok:
  assumes "length d = 512" and "k + i = 32" and "name_ok name"
  shows "dir_scan k name d (16 * i) = Inr (map_option (\<lambda>j. 16 * j) (dir_find name d i 32))"
  using assms(2)
proof (induction k arbitrary: i)
  case 0
  then show ?case by (simp add: dir_find_def)
next
  case (Suc k)
  then have i: "i < 32" by simp
  have g: "get16 (entry d i) 0 = get16 d (16 * i)"
    using i assms(1) get16_slice [of 16 "16 * i" d] by (simp add: entry_def)
  have nm: "cname DIRSIZ (drop 2 (entry d i)) = cname DIRSIZ (drop (16 * i + 2) d)"
    by (simp add: entry_def slice_def drop_take cname_take DIRSIZ_def add.commute)
  have len: "DIRSIZ \<le> length (drop (16 * i + 2) d)" using assms(1) i by (simp add: DIRSIZ_def)
  obtain r where r: "namecmp name (drop (16 * i + 2) d) = Inr r"
    "r = 0 \<longleftrightarrow> cname DIRSIZ name = cname DIRSIZ (drop (16 * i + 2) d)"
    using strncmp_ok [of DIRSIZ name "drop (16 * i + 2) d", OF assms(3) [unfolded name_ok_def] len] by (auto simp: namecmp_def)
  have IH: "dir_scan k name d (16 * i + 16) = Inr (map_option (\<lambda>j. 16 * j) (dir_find name d (Suc i) 32))"
    using Suc.IH [of "Suc i"] Suc.prems by (simp add: add.commute)
  show ?case using IH r i by (simp add: dir_find_def find_Cons_upt matches_def g nm)
qed

section \<open>Lookup\<close>

text \<open>A directory whose blocks, whole, hold the bytes \<open>cs\<close>.\<close>

definition dir_blocks :: "uint \<Rightarrow> nat" where
  "dir_blocks sz = (unat sz + 511) div 512"

lemma off_block: "unat (of_nat (512 * j) :: uint) = 512 * j" if "j \<le> 140"
  using that by (intro unat_of_nat_uint) simp

lemma dir_find_block:
  assumes "length (D (blk D a j)) = 512" and "512 * j + 512 \<le> n"
  shows "dir_find name (contents D a n) (32 * j) (32 * j + 32) = map_option (\<lambda>i. 32 * j + i) (dir_find name (D (blk D a j)) 0 32)"
proof -
  have e: "entry (contents D a n) (32 * j + i) = entry (D (blk D a j)) i" if "i < 32" for i
    using that assms slice_contents [of 16 "512 * j + 16 * i" n D a] by (simp add: entry_def BSIZE_def distrib_left)
  have "[32 * j..<32 * j + 32] = map (\<lambda>i. 32 * j + i) [0..<32]" by (simp add: map_add_upt add.commute)
  then have "find (\<lambda>k. matches name (entry (contents D a n) k)) [32 * j..<32 * j + 32] =
      map_option (\<lambda>i. 32 * j + i) (find (\<lambda>i. matches name (entry (contents D a n) (32 * j + i))) [0..<32])"
    by (simp add: find_map_upt)
  also have "find (\<lambda>i. matches name (entry (contents D a n) (32 * j + i))) [0..<32] = find (\<lambda>i. matches name (entry (D (blk D a j)) i)) [0..<32]"
    by (rule find_cong) (simp_all add: e)
  finally show ?thesis by (simp add: dir_find_def)
qed

lemma dirlookup_round:
  assumes f: "on_file s dp dev a (512 * m)" and j: "j < m" "512 * j < unat (i_size (inodes s ! dp))" and nm: "name_ok name"
  defines "D \<equiv> adisk s dev"
  shows "\<exists>s'. dstep dev D s s' \<and> dirlookup_loop (Suc k) dp name (of_nat (512 * j)) s =
    (case dir_find name (contents D a (512 * m)) (32 * j) (32 * j + 32) of
       Some i \<Rightarrow> andThen (iget dev (ucast (get16 (contents D a (512 * m)) (16 * i))) s') (\<lambda>(ip, s). Inr (Some (ip, of_nat (16 * i)), s))
     | None \<Rightarrow> dirlookup_loop k dp name (of_nat (512 * Suc j)) s')"
proof -
  let ?b = "blk D a j"
  note S = on_file_size [OF f]
  have ok: "fs_ok D" "file_ok D a (512 * m)" using f by (simp_all add: on_file_def D_def)
  have i: "j * BSIZE < 512 * m" using j(1) by (simp add: BSIZE_def)
  have j140: "Suc j \<le> 140" using S(1) j(1) by simp
  note nz = file_okD(7) [OF ok(2) i] and sm = small_block [OF ok(2) i]
  have data: "is_data D ?b" using file_ok_data(2) [OF ok(2) sm nz] .
  have off: "unat (of_nat (512 * j) :: uint) = 512 * j" using j140 by (intro off_block) simp
  have dv: "(of_nat (512 * j) :: uint) div 512 = of_nat j"
  proof -
    have "unat ((of_nat (512 * j) :: uint) div 512) = unat (of_nat j :: uint)"
      using off j140 by (simp add: unat_div unat_of_nat_uint)
    then show ?thesis by (simp add: word_unat_eq_iff)
  qed
  obtain s1 where s1: "bmap dp (of_nat j) s = Inr (?b, s1)" "istep dp a dev D s s1"
    using bmap_mapped [OF f i] by (auto simp: D_def)
  have d1: "i_dev (inodes s1 ! dp) = dev" "adisk s1 dev = D" "idle s1 dev"
    using istepD [OF s1(2)] f by (auto simp: on_file_def)
  have c: "can s1 dev {?b}" using idle_can [OF d1(3)] is_data_good [OF fs_okD(1) [OF ok(1)] data] by simp
  obtain bp s2 s3 where 2: "bread dev ?b s1 = Inr (bp, s2)" "b_data (bufs s2 ! bp) = D ?b" "brelse bp s2 = Inr s3" "dstep dev D s1 s3"
    using use_block [OF c, of ?b] d1(2) by auto
  have "istep dp a dev D s s3" using istep_dstep [OF s1(2) 2(4)] .
  moreover have "(inodes s)[dp := (inodes s ! dp)\<lparr>i_addrs := a\<rparr>] = inodes s"
    using f by (simp add: on_file_def) (metis inode.surjective inode.update_convs(11) list_update_id)
  ultimately have st: "dstep dev D s s3" by (simp add: istep_def)
  have dev3: "i_dev (inodes s3 ! dp) = dev" using dstep_inodes [OF st] f by (simp add: on_file_def)
  have l: "length (D ?b) = 512" using fs_okD(4) [OF ok(1) data] by (simp add: BSIZE_def)
  have lt: "of_nat (512 * j) < i_size (inodes s ! dp)" using j(2) off by (simp add: word_less_nat_alt)
  have sc: "dir_scan 32 name (D ?b) 0 = Inr (map_option (\<lambda>i. 16 * i) (dir_find name (D ?b) 0 32))"
    using dir_scan_ok [OF l, of 32 0 name] nm by simp
  have db: "dir_find name (contents D a (512 * m)) (32 * j) (32 * j + 32) = map_option (\<lambda>i. 32 * j + i) (dir_find name (D ?b) 0 32)"
    using j(1) dir_find_block [of D a j "512 * m" name] l by simp
  have g16: "get16 (D ?b) (16 * i) = get16 (contents D a (512 * m)) (16 * (32 * j + i))" if "i < 32" for i
  proof -
    have "slice (contents D a (512 * m)) (512 * j + 16 * i) 16 = slice (D ?b) (16 * i) 16"
      using that j(1) l slice_contents [of 16 "512 * j + 16 * i" "512 * m" D a] by (simp add: BSIZE_def)
    with that j(1) l get16_slice [of 16 "16 * i" "D ?b"] get16_slice [of 16 "512 * j + 16 * i" "contents D a (512 * m)"]
    show ?thesis by (simp add: distrib_left)
  qed
  have code: "dirlookup_loop (Suc k) dp name (of_nat (512 * j)) s =
    (case dir_find name (D ?b) 0 32 of
       Some i \<Rightarrow> andThen (iget dev (ucast (get16 (D ?b) (16 * i))) s3) (\<lambda>(ip, s). Inr (Some (ip, of_nat (512 * j) + of_nat (16 * i)), s))
     | None \<Rightarrow> dirlookup_loop k dp name (of_nat (512 * j) + 512) s3)"
    using lt s1(1) d1(1) 2 sc dev3 unfolding dirlookup_loop.simps dv Let_def by (simp split: option.split)
  show ?thesis
  proof (cases "dir_find name (D ?b) 0 32")
    case None
    then show ?thesis using st code db by (intro exI [of _ s3]) (simp add: algebra_simps)
  next
    case (Some i)
    then have "i < 32" by (auto simp: dir_find_def find_Some_iff)
    with Some show ?thesis using st code db g16 by (intro exI [of _ s3]) (simp add: algebra_simps)
  qed
qed

lemma dir_find_split:
  assumes "i \<le> j" and "j \<le> k"
  shows "dir_find name cs i k = (case dir_find name cs i j of Some x \<Rightarrow> Some x | None \<Rightarrow> dir_find name cs j k)"
proof -
  have "[i..<k] = [i..<j] @ [j..<k]" using upt_add_eq_append [OF assms(1), of "k - j"] assms(2) by simp
  then show ?thesis unfolding dir_find_def by (simp add: find_append)
qed

lemma dirlookup_loop_ok:
  assumes "on_file s dp dev a (512 * m)" and "m = dir_blocks (i_size (inodes s ! dp))" and "name_ok name" and "j \<le> m" and "m < k + j"
  defines "D \<equiv> adisk s dev"
  shows "\<exists>s'. dstep dev D s s' \<and> dirlookup_loop k dp name (of_nat (512 * j)) s =
    (case dir_find name (contents D a (512 * m)) (32 * j) (32 * m) of
       Some i \<Rightarrow> andThen (iget dev (ucast (get16 (contents D a (512 * m)) (16 * i))) s') (\<lambda>(ip, s). Inr (Some (ip, of_nat (16 * i)), s))
     | None \<Rightarrow> Inr (None, s'))"
  using assms(1-5) unfolding D_def
proof (induction k arbitrary: s j)
  case 0
  then show ?case by simp
next
  case (Suc k)
  let ?D = "adisk s dev" and ?sz = "unat (i_size (inodes s ! dp))"
  have b: "?sz \<le> 512 * m" "m = 0 \<or> 512 * (m - 1) < ?sz" using Suc.prems(2) by (auto simp: dir_blocks_def)
  note S = on_file_size [OF Suc.prems(1)]
  have ok: "fs_ok ?D" "file_ok ?D a (512 * m)" using Suc.prems(1) by (simp_all add: on_file_def)
  show ?case
  proof (cases "j = m")
    case True
    have "unat (of_nat (512 * m) :: uint) = 512 * m" using S(1) by (intro off_block) simp
    then have "\<not> of_nat (512 * m) < i_size (inodes s ! dp)" using b(1) by (simp add: word_less_nat_alt)
    moreover have "dstep dev ?D s s" using dstep_refl [of s dev] Suc.prems(1) by (simp add: on_file_def idle_def)
    ultimately show ?thesis using True unfolding dirlookup_loop.simps by (intro exI [of _ s]) (simp add: dir_find_def)
  next
    case False
    then have j: "j < m" "512 * j < ?sz" using Suc.prems(4) b(2) by auto
    obtain s1 where s1: "dstep dev ?D s s1" "dirlookup_loop (Suc k) dp name (of_nat (512 * j)) s =
      (case dir_find name (contents ?D a (512 * m)) (32 * j) (32 * j + 32) of
         Some i \<Rightarrow> andThen (iget dev (ucast (get16 (contents ?D a (512 * m)) (16 * i))) s1) (\<lambda>(ip, s). Inr (Some (ip, of_nat (16 * i)), s))
       | None \<Rightarrow> dirlookup_loop k dp name (of_nat (512 * Suc j)) s1)"
      using dirlookup_round [OF Suc.prems(1) j Suc.prems(3), of k] by blast
    have sp: "dir_find name (contents ?D a (512 * m)) (32 * j) (32 * m) =
        (case dir_find name (contents ?D a (512 * m)) (32 * j) (32 * j + 32) of Some x \<Rightarrow> Some x
         | None \<Rightarrow> dir_find name (contents ?D a (512 * m)) (32 * Suc j) (32 * m))"
      using dir_find_split [of "32 * j" "32 * Suc j" "32 * m" name "contents ?D a (512 * m)"] j(1) by (simp add: add.commute)
    have i1: "inodes s1 = inodes s" "adisk s1 dev = ?D" using dstep_inodes [OF s1(1)] dstepD(5) [OF s1(1)] by simp_all
    have f1: "on_file s1 dp dev a (512 * m)" using Suc.prems(1) i1 idle_dstep [OF _ s1(1)] by (simp add: on_file_def)
    have pre: "m = dir_blocks (i_size (inodes s1 ! dp))" "name_ok name" "Suc j \<le> m" "m < k + Suc j"
      using Suc.prems i1 j(1) by simp_all
    obtain s2 where s2: "dstep dev ?D s1 s2" "dirlookup_loop k dp name (of_nat (512 * Suc j)) s1 =
      (case dir_find name (contents ?D a (512 * m)) (32 * Suc j) (32 * m) of
         Some i \<Rightarrow> andThen (iget dev (ucast (get16 (contents ?D a (512 * m)) (16 * i))) s2) (\<lambda>(ip, s). Inr (Some (ip, of_nat (16 * i)), s))
       | None \<Rightarrow> Inr (None, s2))"
      using Suc.IH [OF f1 pre] unfolding i1(2) by blast
    show ?thesis
    proof (cases "dir_find name (contents ?D a (512 * m)) (32 * j) (32 * j + 32)")
      case None
      then show ?thesis using dstep_trans [OF s1(1) s2(1)] s1(2) s2(2) sp by (intro exI [of _ s2]) simp
    next
      case (Some i)
      then show ?thesis using s1 sp by (intro exI [of _ s1]) simp
    qed
  qed
qed

lemma dirlookup_ok:
  assumes "on_file s dp dev a (512 * m)" and "m = dir_blocks (i_size (inodes s ! dp))" and "name_ok name"
    and "i_type (inodes s ! dp) = T_DIR"
  shows "\<exists>s'. dstep dev (adisk s dev) s s' \<and> dirlookup dp name s =
    (case dir_find name (contents (adisk s dev) a (512 * m)) 0 (32 * m) of
       Some i \<Rightarrow> andThen (iget dev (ucast (get16 (contents (adisk s dev) a (512 * m)) (16 * i))) s')
                   (\<lambda>(ip, s). Inr (Some (ip, of_nat (16 * i)), s))
     | None \<Rightarrow> Inr (None, s'))"
proof -
  have k: "m < unat (i_size (inodes s ! dp)) div 512 + 2 + 0" unfolding assms(2) dir_blocks_def by linarith
  have "dirlookup dp name s = dirlookup_loop (unat (i_size (inodes s ! dp)) div 512 + 2) dp name (of_nat (512 * 0)) s"
    using assms(4) unfolding dirlookup_def by simp
  then show ?thesis using dirlookup_loop_ok [OF assms(1,2,3) le0 k] by (simp only: mult_0_right)
qed

text \<open>C23: \<open>dirlookup\<close> finds a name by its first \<open>DIRSIZ\<close> bytes: it returns the inode of the first entry
  of the directory's blocks that is in use and has that name, with the entry's offset, and 0 when there is
  none; the disk is not changed.\<close>

theorem dirlookup_finds:
  assumes "on_file s dp dev a (512 * m)" and "m = dir_blocks (i_size (inodes s ! dp))" and "name_ok name"
    and "i_type (inodes s ! dp) = T_DIR"
  shows "\<exists>s'. adisk s' = adisk s \<and> inodes s' = inodes s \<and> dirlookup dp name s =
    (case dir_find name (contents (adisk s dev) a (512 * m)) 0 (32 * m) of
       Some i \<Rightarrow> andThen (iget dev (ucast (get16 (contents (adisk s dev) a (512 * m)) (16 * i))) s')
                   (\<lambda>(ip, s). Inr (Some (ip, of_nat (16 * i)), s))
     | None \<Rightarrow> Inr (None, s'))"
proof -
  obtain s' where s': "dstep dev (adisk s dev) s s'" "dirlookup dp name s =
    (case dir_find name (contents (adisk s dev) a (512 * m)) 0 (32 * m) of
       Some i \<Rightarrow> andThen (iget dev (ucast (get16 (contents (adisk s dev) a (512 * m)) (16 * i))) s')
                   (\<lambda>(ip, s). Inr (Some (ip, of_nat (16 * i)), s))
     | None \<Rightarrow> Inr (None, s'))"
    using dirlookup_ok [OF assms] by blast
  have "adisk s' = adisk s" using dstepD(4) [OF s'(1)] by simp
  with s' dstep_inodes [OF s'(1)] show ?thesis by blast
qed

section \<open>Linking\<close>

lemma contents_take: "n \<le> n' \<Longrightarrow> take n (contents D a n') = contents D a n"
  by (simp add: contents_def take_map)

lemma file_ok_blocks:
  assumes "file_ok D a n" and "(n' + 511) div 512 \<le> (n + 511) div 512" and "n' \<le> MAXFILE * BSIZE"
  shows "file_ok D a n'"
proof -
  have "i * BSIZE < n" if "i * BSIZE < n'" for i
  proof -
    have "i < (n' + 511) div 512" using that unfolding BSIZE_def by linarith
    then have "i < (n + 511) div 512" using assms(2) by linarith
    then show ?thesis unfolding BSIZE_def by linarith
  qed
  then show ?thesis using assms(1,3) unfolding file_ok_def by blast
qed

lemma on_file_blocks:
  "on_file s ip dev a n \<Longrightarrow> (n' + 511) div 512 \<le> (n + 511) div 512 \<Longrightarrow> n' \<le> MAXFILE * BSIZE \<Longrightarrow> on_file s ip dev a n'"
  unfolding on_file_def using file_ok_blocks [of "adisk s dev" a n n'] by blast

text \<open>The number of the first free entry, or the number of entries.\<close>

definition free_entry :: "byte list \<Rightarrow> nat \<Rightarrow> nat \<Rightarrow> nat" where
  "free_entry cs i n = (case find (\<lambda>k. get16 (entry cs k) 0 = 0) [i..<n] of Some k \<Rightarrow> k | None \<Rightarrow> n)"

lemma free_entry_le: "i \<le> n \<Longrightarrow> free_entry cs i n \<le> n"
  by (auto simp: free_entry_def find_Some_iff split: option.split)

lemma dirlink_loop_ok:
  assumes "on_file s dp dev a (unat (i_size (inodes s ! dp)))" and "unat (i_size (inodes s ! dp)) = 16 * n"
    and "i_type (inodes s ! dp) = T_DIR" and "i \<le> n" and "n < k + i"
  shows "\<exists>s'. dstep dev (adisk s dev) s s' \<and> dirlink_loop k devr dp (of_nat (16 * i)) s =
    Inr (of_nat (16 * free_entry (contents (adisk s dev) a (16 * n)) i n), s')"
  using assms
proof (induction k arbitrary: s i)
  case 0
  then show ?case by simp
next
  case (Suc k)
  let ?D = "adisk s dev" and ?sz = "i_size (inodes s ! dp)"
  let ?cs = "contents ?D a (16 * n)"
  note S = on_file_size [OF Suc.prems(1)]
  have n: "16 * n \<le> 71680" using S(1) Suc.prems(2) by simp
  have off: "unat (of_nat (16 * i) :: uint) = 16 * i" using n Suc.prems(4) by (intro unat_of_nat_uint) simp
  show ?case
  proof (cases "i = n")
    case True
    have "\<not> of_nat (16 * i) < ?sz" using off True Suc.prems(2) by (simp add: word_less_nat_alt)
    moreover have "dstep dev ?D s s" using dstep_refl [of s dev] Suc.prems(1) by (simp add: on_file_def idle_def)
    ultimately show ?thesis using True unfolding dirlink_loop.simps by (intro exI [of _ s]) (simp add: free_entry_def)
  next
    case False
    then have i: "i < n" using Suc.prems(4) by simp
    then have lt: "of_nat (16 * i) < ?sz" using off Suc.prems(2) by (simp add: word_less_nat_alt)
    have m: "min (unat (16 :: uint)) (unat ?sz - unat (of_nat (16 * i) :: uint)) = 16" using off i Suc.prems(2) by simp
    have td: "i_type (inodes s ! dp) \<noteq> T_DEV" using Suc.prems(3) by (simp add: T_DIR_def T_DEV_def)
    obtain s1 where s1: "readi devr dp (of_nat (16 * i)) 16 s = Inr ((16, entry ?cs i), s1)" "dstep dev ?D s s1"
      using readi_ok [OF Suc.prems(1) td, of "of_nat (16 * i)" 16 devr] off i n Suc.prems(2) unfolding m by (auto simp: entry_def)
    have code: "dirlink_loop (Suc k) devr dp (of_nat (16 * i)) s =
        (if get16 (entry ?cs i) 0 = 0 then Inr (of_nat (16 * i), s1) else dirlink_loop k devr dp (of_nat (16 * Suc i)) s1)"
      using lt s1(1) by (simp add: algebra_simps)
    have fe: "free_entry ?cs i n = (if get16 (entry ?cs i) 0 = 0 then i else free_entry ?cs (Suc i) n)"
      using i by (simp add: free_entry_def find_Cons_upt)
    have i1: "inodes s1 = inodes s" "adisk s1 dev = ?D" using dstep_inodes [OF s1(2)] dstepD(5) [OF s1(2)] by simp_all
    have f1: "on_file s1 dp dev a (unat (i_size (inodes s1 ! dp)))"
      using Suc.prems(1) i1 idle_dstep [OF _ s1(2)] by (simp add: on_file_def)
    obtain s2 where s2: "dstep dev ?D s1 s2" "dirlink_loop k devr dp (of_nat (16 * Suc i)) s1 =
        Inr (of_nat (16 * free_entry ?cs (Suc i) n), s2)"
      using Suc.IH [OF f1, of "Suc i"] Suc.prems(2,3,5) i1 i by auto
    show ?thesis
    proof (cases "get16 (entry ?cs i) 0 = 0")
      case True
      then show ?thesis using code fe s1(2) by (intro exI [of _ s1]) simp
    next
      case False
      then show ?thesis using code fe s2(2) dstep_trans [OF s1(2) s2(1)] by (intro exI [of _ s2]) simp
    qed
  qed
qed

lemma get16_entry_bytes: "get16 (bytes16 w @ nm) 0 = w" "drop 2 (bytes16 w @ nm) = nm" "length (bytes16 w) = 2"
  by (simp_all add: get16_def bytes16_def) (rule bit_word_eqI, auto simp: bit_simps)

lemma slice_patch:
  assumes "off \<le> length cs"
  shows "i + n \<le> off \<Longrightarrow> slice (patch cs off de) i n = slice cs i n" "slice (patch cs off de) off (length de) = de"
    "off + length de \<le> i \<Longrightarrow> slice (patch cs off de) i n = slice cs i n"
proof -
  assume "i + n \<le> off"
  moreover from this have "i \<le> off" "n \<le> off - i" "min (length cs) off = off" using assms by simp_all
  ultimately show "slice (patch cs off de) i n = slice cs i n" by (simp add: slice_def patch_def drop_take min_absorb1)
next
  show "slice (patch cs off de) off (length de) = de" using assms by (simp add: slice_def patch_def)
next
  assume "off + length de \<le> i"
  then have "drop i (patch cs off de) = drop (i - off - length de) (drop (off + length de) cs)"
    using assms by (simp add: patch_def)
  then show "slice (patch cs off de) i n = slice cs i n" using \<open>off + length de \<le> i\<close> by (simp add: slice_def)
qed

lemma entry_patch:
  assumes "length de = 16" and "16 * i \<le> length cs"
  shows "entry (patch cs (16 * i) de) j = (if j = i then de else entry cs j)"
  using slice_patch(1,3) [OF assms(2), where i = "16 * j" and n = 16 and de = de] slice_patch(2) [OF assms(2), where de = de] assms(1)
  by (cases j i rule: linorder_cases) (simp_all add: entry_def)

text \<open>A new entry for a name that is not there: the entry replaces a free one or extends the directory.\<close>

lemma dirlink_ok:
  assumes f: "on_file s dp dev a (512 * m)" "m = dir_blocks (i_size (inodes s ! dp))" and nm: "name_ok name"
    and ty: "i_type (inodes s ! dp) = T_DIR" and inum: "i_inum (inodes s ! dp) \<le> sb_ninodes (a_sb (adisk s dev))"
    and sz: "unat (i_size (inodes s ! dp)) = 16 * n" "16 * n + 16 \<le> MAXFILE * BSIZE"
    and free: "2 \<le> nfree (adisk s dev)"
    and new: "dir_find name (contents (adisk s dev) a (512 * m)) 0 (32 * m) = None"
  defines "cs \<equiv> contents (adisk s dev) a (512 * m)"
  defines "i \<equiv> free_entry cs 0 n"
  shows "\<exists>s' a' nm. dirlink devr devw dp name v s = Inr (0, s') \<and>
    strncpy_bytes name DIRSIZ = Inr nm \<and>
    inodes s' = (inodes s)[dp := (inodes s ! dp)\<lparr>i_addrs := a', i_size := of_nat (16 * max n (i + 1))\<rparr>] \<and>
    on_file s' dp dev a' (max (512 * m) (16 * i + 16)) \<and>
    contents (adisk s' dev) a' (max (512 * m) (16 * i + 16)) = patch cs (16 * i) (bytes16 (ucast v) @ nm)"
proof -
  let ?D = "adisk s dev" and ?x = "inodes s ! dp"
  have mb: "16 * n \<le> 512 * m" "512 * m < 16 * n + 512" using f(2) sz(1) by (auto simp: dir_blocks_def)
  obtain s1 where s1: "dstep dev ?D s s1" "dirlookup dp name s = Inr (None, s1)"
    using dirlookup_ok [OF f nm ty] new by auto
  have i1: "inodes s1 = inodes s" "adisk s1 = adisk s" using dstep_inodes [OF s1(1)] dstepD(4) [OF s1(1)] by simp_all
  have f1: "on_file s1 dp dev a (512 * m)" using f(1) i1 idle_dstep [OF _ s1(1)] by (simp add: on_file_def)
  have fz: "on_file s1 dp dev a (unat (i_size (inodes s1 ! dp)))"
    using on_file_blocks [OF f1, of "16 * n"] sz mb i1(1) by (simp add: MAXFILE_bytes)
  have le: "i \<le> n" by (simp add: i_def free_entry_le)
  have "free_entry (contents ?D a (16 * n)) 0 n = i"
  proof -
    have "find (\<lambda>k. get16 (entry (contents ?D a (16 * n)) k) 0 = 0) [0..<n] = find (\<lambda>k. get16 (entry cs k) 0 = 0) [0..<n]"
    proof (rule find_cong [OF refl])
      fix k assume "k \<in> set [0..<n]"
      then have "16 * k + 16 \<le> 16 * n" by simp
      then have "entry (contents ?D a (16 * n)) k = entry cs k"
        unfolding entry_def cs_def contents_take [OF mb(1), of ?D a, symmetric] by (simp add: slice_def drop_take min_def)
      then show "(get16 (entry (contents ?D a (16 * n)) k) 0 = 0) = (get16 (entry cs k) 0 = 0)" by simp
    qed
    then show ?thesis by (simp add: i_def free_entry_def)
  qed
  then obtain s2 where s2: "dstep dev ?D s1 s2" "dirlink_loop (unat (i_size (inodes s1 ! dp)) div 16 + 2) devr dp 0 s1 = Inr (of_nat (16 * i), s2)"
    using dirlink_loop_ok [OF fz, of n 0 "unat (i_size (inodes s1 ! dp)) div 16 + 2" devr] sz(1) ty i1 by auto
  have i2: "inodes s2 = inodes s" "adisk s2 = adisk s" using dstep_inodes [OF s2(1)] dstepD(4) [OF s2(1)] i1 by simp_all
  have f2: "on_file s2 dp dev a (512 * m)" using f1 i1 i2 idle_dstep [OF _ s2(1)] by (simp add: on_file_def)
  obtain nm where nm: "strncpy_bytes name DIRSIZ = Inr nm" "length nm = DIRSIZ"
    using strncpy_bytes_total [of name DIRSIZ] strncpy_bytes_cname [of name DIRSIZ] nm by (auto simp: name_ok_def)
  define de where "de = bytes16 (ucast v) @ nm"
  have lde: "length de = 16" using nm(2) by (simp add: get16_entry_bytes DIRSIZ_def de_def)
  have off: "unat (of_nat (16 * i) :: uint) = 16 * i" using le sz(2) by (intro unat_of_nat_uint) (simp add: MAXFILE_bytes)
  have nb: "nblocks (16 * i) 16 = 1"
  proof -
    have "16 * i mod 512 = 16 * (i mod 32)" using mult_mod_right [of 16 i 32] by simp
    moreover have "i mod 32 < 32" by simp
    ultimately have "16 * i mod 512 \<le> 496" by linarith
    then show ?thesis unfolding nblocks_def BSIZE_def by simp
  qed
  have h: "unat (i_size (inodes s2 ! dp)) \<le> 512 * m" "i_type (inodes s2 ! dp) \<noteq> T_DEV" "i_inum (inodes s2 ! dp) \<le> sb_ninodes (a_sb (adisk s2 dev))"
    "unat (of_nat (16 * i) :: uint) \<le> unat (i_size (inodes s2 ! dp))" "unat (of_nat (16 * i) :: uint) + length de \<le> MAXFILE * BSIZE"
    "2 * nblocks (unat (of_nat (16 * i) :: uint)) (length de) \<le> nfree (adisk s2 dev)"
    using i2 sz mb ty inum off le lde nb free by (simp_all add: T_DIR_def T_DEV_def)
  have mx: "max (16 * n) (16 * i + 16) = 16 * max n (i + 1)" by (auto simp: max_def)
  obtain s3 E a' where W: "writei devw dp de (of_nat (16 * i)) (of_nat 16) s2 = Inr (int 16, s3)"
    "inodes s3 = (inodes s)[dp := ?x\<lparr>i_addrs := a', i_size := of_nat (16 * max n (i + 1))\<rparr>]"
    "on_file s3 dp dev a' (max (512 * m) (16 * i + 16))" "adisk s3 = (adisk s2)(dev := E)"
    "contents E a' (max (512 * m) (16 * i + 16)) = patch cs (16 * i) de"
    using writei_ok [OF f2 h, of devw] unfolding i2 off lde sz(1) mx cs_def by blast
  have "dirlink devr devw dp name v s = Inr (0, s3)"
    using s1(2) s2(2) nm(1) W(1) unfolding dirlink_def Let_def de_def by simp
  with W nm(1) show ?thesis unfolding de_def by (intro exI [of _ s3] exI [of _ a'] exI [of _ nm]) simp
qed

lemma dir_find_None: "dir_find name cs i j = None \<longleftrightarrow> (\<forall>k. i \<le> k \<and> k < j \<longrightarrow> \<not> matches name (entry cs k))"
  by (auto simp: dir_find_def find_None_iff)

lemma dir_find_first:
  assumes "\<And>k. k < i \<Longrightarrow> \<not> matches name (entry cs k)" and "matches name (entry cs i)" and "i < j"
  shows "dir_find name cs 0 j = Some i"
proof -
  have "dir_find name cs 0 i = None" using assms(1) by (simp add: dir_find_None)
  then show ?thesis using dir_find_split [of 0 i j name cs] assms(2,3) by (simp add: dir_find_def find_Cons_upt)
qed

text \<open>C24: an entry made with \<open>dirlink\<close> is found by \<open>dirlookup\<close>. Linking a name that is not in the
  directory succeeds, and afterwards looking the name up returns the inode that was linked (its low 16 bits,
  which is all an entry holds) at the offset of the first entry that was free.\<close>

theorem dirlink_dirlookup:
  assumes "on_file s dp dev a (512 * m)" and "m = dir_blocks (i_size (inodes s ! dp))" and "name_ok name"
    and "i_type (inodes s ! dp) = T_DIR" and "i_inum (inodes s ! dp) \<le> sb_ninodes (a_sb (adisk s dev))"
    and "unat (i_size (inodes s ! dp)) = 16 * n" and "16 * n + 16 \<le> MAXFILE * BSIZE" and "2 \<le> nfree (adisk s dev)"
    and "dir_find name (contents (adisk s dev) a (512 * m)) 0 (32 * m) = None" and "(ucast inum :: ushort) \<noteq> 0"
    and "i = free_entry (contents (adisk s dev) a (512 * m)) 0 n"
  shows "\<exists>s1 s2. dirlink devr devw dp name inum s = Inr (0, s1) \<and> adisk s2 = adisk s1 \<and> inodes s2 = inodes s1 \<and>
    dirlookup dp name s1 = andThen (iget dev (ucast (ucast inum :: ushort)) s2) (\<lambda>(ip, s). Inr (Some (ip, of_nat (16 * i)), s))"
proof -
  let ?cs = "contents (adisk s dev) a (512 * m)"
  obtain s1 a' nm where L: "dirlink devr devw dp name inum s = Inr (0, s1)" "strncpy_bytes name DIRSIZ = Inr nm"
    "inodes s1 = (inodes s)[dp := (inodes s ! dp)\<lparr>i_addrs := a', i_size := of_nat (16 * max n (i + 1))\<rparr>]"
    "on_file s1 dp dev a' (max (512 * m) (16 * i + 16))"
    "contents (adisk s1 dev) a' (max (512 * m) (16 * i + 16)) = patch ?cs (16 * i) (bytes16 (ucast inum) @ nm)"
    using dirlink_ok [OF assms(1-9), of devr devw inum] unfolding assms(11) by blast
  define de where "de = bytes16 (ucast inum) @ nm"
  note S = on_file_size [OF L(4)]
  have dp: "dp < length (inodes s)" using assms(1) by (simp add: on_file_def)
  have mb: "16 * n \<le> 512 * m" "512 * m < 16 * n + 512" using assms(2,6) by (auto simp: dir_blocks_def)
  have le: "i \<le> n" using assms(11) free_entry_le by simp
  let ?x = "inodes s1 ! dp"
  have x: "i_type ?x = T_DIR" "i_size ?x = of_nat (16 * max n (i + 1))" using L(3) dp assms(4) by simp_all
  have sz: "unat (i_size ?x) = 16 * max n (i + 1)"
    unfolding x(2) using assms(7) le by (intro unat_of_nat_uint) (simp add: MAXFILE_bytes)
  define m' where "m' = dir_blocks (i_size ?x)"
  have mm: "m = (16 * n + 511) div 512" "m' = (16 * max n (i + 1) + 511) div 512"
    using assms(2,6) sz by (simp_all add: dir_blocks_def m'_def)
  have "16 * max n (i + 1) \<le> 71680" using assms(7) le by (simp add: MAXFILE_bytes)
  then have "m' \<le> 140" unfolding mm(2) by linarith
  moreover have "m \<le> m'" unfolding mm by (intro div_le_mono) simp
  moreover have "16 * i + 16 \<le> 16 * max n (i + 1)" by (auto simp: max_def)
  then have "16 * i + 16 \<le> 512 * m'" unfolding mm(2) by linarith
  moreover have "16 * max n (i + 1) \<le> max (512 * m) (16 * i + 16)" using mb(1) by (simp add: max_def)
  then have "m' \<le> (max (512 * m) (16 * i + 16) + 511) div 512" unfolding mm(2) by (intro div_le_mono) simp
  ultimately have m': "512 * m \<le> 512 * m'" "16 * i + 16 \<le> 512 * m'" "512 * m' \<le> MAXFILE * BSIZE"
    "(512 * m' + 511) div 512 \<le> (max (512 * m) (16 * i + 16) + 511) div 512"
    by (simp_all add: MAXFILE_bytes)
  have f1: "on_file s1 dp dev a' (512 * m')" using on_file_blocks [OF L(4) m'(4,3)] .
  let ?new = "contents (adisk s1 dev) a' (512 * m')"
  have pre: "take (max (512 * m) (16 * i + 16)) ?new = patch ?cs (16 * i) de"
    using contents_take [of "max (512 * m) (16 * i + 16)" "512 * m'" "adisk s1 dev" a'] m'(1,2) L(5) by (simp add: de_def)
  have en: "entry ?new k = entry (patch ?cs (16 * i) de) k" if "16 * k + 16 \<le> max (512 * m) (16 * i + 16)" for k
    unfolding pre [symmetric] entry_def slice_def using that by (simp add: drop_take min_absorb1)
  have sn: "length nm = DIRSIZ" "cname DIRSIZ nm = cname DIRSIZ name" using strncpy_bytes_cname [OF L(2)] by blast+
  have lde: "length de = 16" "16 * i \<le> length ?cs"
    using sn(1) le mb by (simp_all add: get16_entry_bytes DIRSIZ_def de_def)
  note ep = entry_patch [OF lde]
  have "matches name (entry ?new i)"
    using en [of i] ep [of i] sn(2) assms(10) by (simp add: matches_def de_def get16_entry_bytes)
  moreover have "\<not> matches name (entry ?new k)" if "k < i" for k
    using en [of k] ep [of k] that assms(9) le mb by (simp add: dir_find_None)
  moreover have "i < 32 * m'" using m'(2) by simp
  ultimately have df: "dir_find name ?new 0 (32 * m') = Some i" by (intro dir_find_first)
  have "get16 ?new (16 * i) = ucast inum"
    using get16_slice [of 16 "16 * i" ?new] m'(2) en [of i] ep [of i] by (simp add: entry_def de_def get16_entry_bytes)
  with df obtain s2 where s2: "dstep dev (adisk s1 dev) s1 s2" "dirlookup dp name s1 =
      andThen (iget dev (ucast (ucast inum :: ushort)) s2) (\<lambda>(ip, s). Inr (Some (ip, of_nat (16 * i)), s))"
    using dirlookup_ok [OF f1 m'_def assms(3) x(1)] by auto
  have "adisk s2 = adisk s1" "inodes s2 = inodes s1" using dstepD(4) [OF s2(1)] dstep_inodes [OF s2(1)] by simp_all
  with L(1) s2(2) show ?thesis by blast
qed

section \<open>A directory on the small disk\<close>

definition boot_dir :: fsstate where
  "boot_dir = boot_img 1000 (fsstate.fields [empty_file\<lparr>i_type := T_DIR\<rparr>])"

lemma boot_dir_inodes: "inodes boot_dir = [empty_file\<lparr>i_type := T_DIR\<rparr>]"
  by (simp add: boot_dir_def boot_img_def binit_def initlock_def Let_def binit_loop_inodes upd_buf_def boot_ext_def
      fsstate.defs)

lemma boot_dir_idle: "idle boot_dir 1"
  using boot_disk_ok [of "\<lambda>_. img 1000" "fsstate.fields [empty_file\<lparr>i_type := T_DIR\<rparr>]"]
    boot_disk_good [of 0 "\<lambda>_. img 1000" "fsstate.fields [empty_file\<lparr>i_type := T_DIR\<rparr>]"]
  by (auto simp: idle_def boot_dir_def boot_img_def good_block_def)

lemma boot_dir_hyps:
  "on_file boot_dir 0 1 (replicate 13 0) (512 * 0)" "0 = dir_blocks (i_size (inodes boot_dir ! 0))" "name_ok [97, 0]"
  "i_type (inodes boot_dir ! 0) = T_DIR" "i_inum (inodes boot_dir ! 0) \<le> sb_ninodes (a_sb (adisk boot_dir 1))"
  "unat (i_size (inodes boot_dir ! 0)) = 16 * 0" "16 * 0 + 16 \<le> MAXFILE * BSIZE" "2 \<le> nfree (adisk boot_dir 1)"
  "dir_find [97, 0] (contents (adisk boot_dir 1) (replicate 13 0) (512 * 0)) 0 (32 * 0) = None"
  using boot_dir_idle img_fs_ok empty_file_ok img_nfree
  by (simp_all add: on_file_def boot_dir_inodes, simp_all add: empty_file_def dir_blocks_def name_ok_def MAXFILE_bytes boot_dir_def
      boot_img_adisk img_sb dir_find_def)

theorem dirlookup_finds_witness: "\<exists>s'. adisk s' = adisk boot_dir \<and> dirlookup 0 [97, 0] boot_dir = Inr (None, s')"
  using dirlookup_finds [OF boot_dir_hyps(1-4)] boot_dir_hyps(9) by auto

theorem dirlink_dirlookup_witness:
  "\<exists>s1 s2. dirlink (\<lambda>_. None) (\<lambda>_. None) 0 [97, 0] 5 boot_dir = Inr (0, s1) \<and> adisk s2 = adisk s1 \<and>
    dirlookup 0 [97, 0] s1 = andThen (iget 1 5 s2) (\<lambda>(ip, s). Inr (Some (ip, 0), s))"
proof -
  have "0 = free_entry (contents (adisk boot_dir 1) (replicate 13 0) (512 * 0)) 0 0" by (simp add: free_entry_def)
  moreover have "(ucast (5 :: uint) :: ushort) \<noteq> 0" by simp
  ultimately show ?thesis
    using dirlink_dirlookup [OF boot_dir_hyps, of 5 0 "\<lambda>_. None" "\<lambda>_. None"] by auto
qed

end
