(* ===== verification/Ring.thy ===== *)
theory Ring
  imports Prelude
begin

text \<open>
  Ring buffers with free-running 32-bit counters, as in \<^verbatim>\<open>pipe.c\<close> (\<open>nread\<close>, \<open>nwrite\<close>) and
  \<^verbatim>\<open>console.c\<close> (\<open>input.r\<close>, \<open>input.e\<close>): the byte with number \<open>k\<close> is stored at \<open>k mod N\<close>. The laws hold
  for every size \<open>N\<close> that divides \<open>2 ^ 32\<close>, also when the counters wrap around.
\<close>

text \<open>The bytes from counter \<open>r\<close> up to counter \<open>w\<close>.\<close>

definition ring_queue :: "nat \<Rightarrow> byte list \<Rightarrow> uint \<Rightarrow> uint \<Rightarrow> byte list" where
  "ring_queue N d r w = map (\<lambda>k. d ! (unat (r + of_nat k) mod N)) [0..<unat (w - r)]"

lemma length_ring_queue [simp]: "length (ring_queue N d r w) = unat (w - r)"
  by (simp add: ring_queue_def)

lemma ring_queue_empty: "ring_queue N d r w = [] \<longleftrightarrow> r = w"
proof -
  have "unat (w - r) = 0 \<longleftrightarrow> r = w" by (metis unat_0 unat_eq_zero right_minus_eq)
  then show ?thesis by (simp add: ring_queue_def)
qed

lemma ring_split:
  assumes "unat (w - r) + unat (e - w) < 2 ^ 32"
  shows "ring_queue N d r e = ring_queue N d r w @ ring_queue N d w e" "unat (e - r) = unat (w - r) + unat (e - w)"
proof -
  have s: "e - r = (w - r) + (e - w)" by simp
  show u: "unat (e - r) = unat (w - r) + unat (e - w)" unfolding s using assms by (subst unat_word_ariths) simp
  have "[0..<unat (e - r)] = [0..<unat (w - r)] @ map (\<lambda>k. unat (w - r) + k) [0..<unat (e - w)]"
    unfolding u using upt_add_eq_append [of 0 "unat (w - r)" "unat (e - w)"] map_add_upt [of "unat (w - r)" "unat (e - w)"]
    by (simp add: add.commute)
  moreover have "r + of_nat (unat (w - r) + k) = w + of_nat k" for k by simp
  ultimately show "ring_queue N d r e = ring_queue N d r w @ ring_queue N d w e"
    unfolding ring_queue_def by (simp only: map_append map_map comp_def)
qed

locale ring_size =
  fixes N :: nat
  assumes N_dvd: "N dvd 2 ^ 32" and N_pos: "0 < N" and N_less: "N < 2 ^ 32"
begin

lemma index_mod: "unat (r + of_nat k :: uint) mod N = (unat r + k) mod N"
proof -
  have "N dvd 4294967296" using N_dvd by simp
  then have c: "(a mod 4294967296) mod N = a mod N" for a by (rule mod_mod_cancel)
  have "unat (r + of_nat k :: uint) = (unat r + k) mod 4294967296"
    by (simp add: unat_word_ariths unat_of_nat mod_add_right_eq)
  then show ?thesis by (simp add: c)
qed

lemma counter_inc:
  assumes "unat (w - r :: uint) < N"
  shows "unat (w + 1 - r) = Suc (unat (w - r))"
proof -
  have "Suc (unat (w - r)) < 4294967296" using assms N_less by simp
  then have "unat ((w - r) + 1) = Suc (unat (w - r))" by (simp add: unat_word_ariths)
  then show ?thesis by (simp add: algebra_simps)
qed

lemma counter_dec:
  assumes "r \<noteq> w"
  shows "unat (w - r :: uint) = Suc (unat (w - (r + 1)))"
proof -
  have "w - r \<noteq> 0" using assms by simp
  then have "unat (w - r) = Suc (unat (w - r - 1))" by (metis Suc_pred' unat_gt_0 unat_minus_one)
  then show ?thesis by (simp add: algebra_simps)
qed

text \<open>Different bytes of the window are stored at different places.\<close>

lemma index_distinct:
  assumes "k < n" and "n < N"
  shows "(a + k) mod N \<noteq> (a + n) mod N"
proof
  assume "(a + k) mod N = (a + n) mod N"
  then have "N dvd (a + n) - (a + k)" by (metis mod_eq_dvd_iff_nat nat_add_left_cancel_le assms(1) less_imp_le)
  then have "N dvd n - k" by simp
  with assms show False by (auto dest: dvd_imp_le)
qed

lemma queue_put:
  assumes "length d = N" and "unat (w - r) < N"
  shows "ring_queue N (d[unat w mod N := c]) r (w + 1) = ring_queue N d r w @ [c]"
proof -
  let ?n = "unat (w - r)"
  have w: "w = r + of_nat ?n" by simp
  have wi: "unat w mod N = (unat r + ?n) mod N" by (subst w) (rule index_mod)
  have lt: "m mod N < length d" for m using N_pos assms(1) by simp
  have "ring_queue N (d[unat w mod N := c]) r (w + 1) ! k = (ring_queue N d r w @ [c]) ! k" if "k < Suc ?n" for k
  proof (cases "k = ?n")
    case True
    then show ?thesis using assms(2) lt by (simp add: ring_queue_def counter_inc nth_append index_mod wi del: upt_Suc)
  next
    case False
    with that have "k < ?n" by simp
    then show ?thesis using assms(2) index_distinct [of k ?n "unat r"]
      by (simp add: ring_queue_def counter_inc nth_append index_mod wi del: upt_Suc)
  qed
  then show ?thesis using assms(2) by (intro nth_equalityI) (simp_all add: counter_inc)
qed

lemma queue_get:
  assumes "r \<noteq> w"
  shows "ring_queue N d r w = d ! (unat r mod N) # ring_queue N d (r + 1) w"
proof -
  have "[0..<unat (w - r)] = 0 # map Suc [0..<unat (w - (r + 1))]"
    by (simp add: counter_dec [OF assms] upt_conv_Cons map_Suc_upt del: upt_Suc)
  then show ?thesis by (simp add: ring_queue_def algebra_simps)
qed

text \<open>Taking back the last byte put in.\<close>

lemma queue_unput:
  assumes "r \<noteq> w"
  shows "ring_queue N d r w = ring_queue N d r (w - 1) @ [d ! (unat (w - 1) mod N)]"
proof -
  let ?n = "unat (w - 1 - r)"
  have "w - r \<noteq> 0" using assms by simp
  then have "unat (w - r) = Suc (unat (w - r - 1))" by (metis Suc_pred' unat_gt_0 unat_minus_one)
  then have n: "unat (w - r) = Suc ?n" by (simp add: algebra_simps)
  have w: "r + of_nat ?n = w - 1" by simp
  show ?thesis unfolding ring_queue_def n upt_Suc_append [OF le0] map_append by (simp only: list.map w)
qed

end

end
