(* ===== verification/Pipe.thy ===== *)
theory Pipe
  imports Icache Ring
begin

text \<open>
  Pipes (\<^verbatim>\<open>pipe.c\<close>) and the file table they share with \<^verbatim>\<open>file.c\<close>.

  A pipe is a page from \<open>kalloc\<close> read as \<open>struct pipe\<close>: \<open>pipes\<close> maps the addresses of such pages to
  their contents. A pointer to a \<open>struct file\<close> is its index in \<open>ftable.file\<close>. The counters \<open>nread\<close> and
  \<open>nwrite\<close> are 32 bits wide and wrap around.

  \<open>pipewrite\<close> and \<open>piperead\<close> may sleep. They are cut at \<open>sleep\<close>, like the routines of \<open>Proc\<close>: the part
  up to \<open>swtch\<close> returns what is left to do, and \<open>pipewrite_resume\<close> and \<open>piperead_resume\<close> continue with it.
  The loops between two sleeps run under the pipe's lock and are functions of the pipe alone.
\<close>

section \<open>State\<close>

definition PIPESIZE :: nat where "PIPESIZE = 512"

record pipe =
  pi_data :: "byte list"
  pi_nread :: uint
  pi_nwrite :: uint
  pi_readopen :: bool
  pi_writeopen :: bool

datatype filetype = FD_NONE | FD_PIPE | FD_INODE

record ofile =
  f_type :: filetype
  f_ref :: int
  f_readable :: bool
  f_writable :: bool
  f_pipe :: uint
  f_ip :: "nat option"
  f_off :: uint

record filestate = fsstate +
  ftable :: "ofile list"
  pipes :: "uint \<Rightarrow> pipe option"

definition C_nread :: "uint \<Rightarrow> chan" where "C_nread p = Chan ''pipe.nread'' (unat p)"
definition C_nwrite :: "uint \<Rightarrow> chan" where "C_nwrite p = Chan ''pipe.nwrite'' (unat p)"
definition pipelock :: "uint \<Rightarrow> lockid" where "pipelock p = L_pipe (unat p)"

definition set_pipe :: "uint \<Rightarrow> pipe \<Rightarrow> 'a filestate_scheme \<Rightarrow> 'a filestate_scheme" where
  "set_pipe p x s = s\<lparr>pipes := (pipes s)(p := Some x)\<rparr>"

definition killed :: "'a ptab_scheme \<Rightarrow> bool" where
  "killed s = (case myproc s of None \<Rightarrow> False | Some i \<Rightarrow> p_killed (procs s ! i))"

section \<open>Writing\<close>

definition pipe_full :: "pipe \<Rightarrow> bool" where
  "pipe_full x \<longleftrightarrow> pi_nwrite x = pi_nread x + of_nat PIPESIZE"

definition put_byte :: "byte \<Rightarrow> pipe \<Rightarrow> pipe" where
  "put_byte c x = x\<lparr>pi_data := (pi_data x)[unat (pi_nwrite x) mod PIPESIZE := c], pi_nwrite := pi_nwrite x + 1\<rparr>"

text \<open>The outcome of the loop: all bytes stored, the error return, or a full pipe with the bytes that
  are left.\<close>

datatype wloop = WDone pipe | WFail pipe | WFull pipe "byte list"

fun pipewrite_loop :: "bool \<Rightarrow> byte list \<Rightarrow> pipe \<Rightarrow> wloop" where
  "pipewrite_loop kld [] x = WDone x"
| "pipewrite_loop kld (c # cs) x =
     (if pipe_full x
      then (if \<not> pi_readopen x \<or> kld then WFail x else WFull x (c # cs))
      else pipewrite_loop kld cs (put_byte c x))"

datatype wout = WRet int | WSleep "byte list" bool

definition pipewrite_cont :: "uint \<Rightarrow> int \<Rightarrow> byte list \<Rightarrow> 'a filestate_scheme \<Rightarrow> (wout \<times> 'a filestate_scheme) res" where
  "pipewrite_cont p n cs s =
     (case pipes s p of
        None \<Rightarrow> Inl (Wild ''pipe'')
      | Some x \<Rightarrow>
          (case pipewrite_loop (killed s) cs x of
             WDone x \<Rightarrow>
               andThen (wakeup (C_nread p) (set_pipe p x s)) (\<lambda>s.
               andThen (release (pipelock p) s) (\<lambda>s. Inr (WRet n, s)))
           | WFail x \<Rightarrow> andThen (release (pipelock p) (set_pipe p x s)) (\<lambda>s. Inr (WRet (- 1), s))
           | WFull x cs \<Rightarrow>
               andThen (wakeup (C_nread p) (set_pipe p x s)) (\<lambda>s.
               andThen (sleep_switch (C_nwrite p) (Some (pipelock p)) s) (\<lambda>(saved, s).
               Inr (WSleep cs saved, s)))))"

definition pipewrite :: "uint \<Rightarrow> byte list \<Rightarrow> int \<Rightarrow> 'a filestate_scheme \<Rightarrow> (wout \<times> 'a filestate_scheme) res" where
  "pipewrite p addr n s =
     (if length addr < nat n then Inl (Wild ''pipewrite'')
      else andThen (acquire (pipelock p) s) (\<lambda>s. pipewrite_cont p n (take (nat n) addr) s))"

definition pipewrite_resume ::
  "uint \<Rightarrow> int \<Rightarrow> byte list \<Rightarrow> bool \<Rightarrow> 'a filestate_scheme \<Rightarrow> (wout \<times> 'a filestate_scheme) res" where
  "pipewrite_resume p n cs saved s =
     andThen (sleep_resume (pipelock p) saved s) (\<lambda>s. pipewrite_cont p n cs s)"

section \<open>Reading\<close>

definition get_byte :: "pipe \<Rightarrow> byte" where
  "get_byte x = pi_data x ! (unat (pi_nread x) mod PIPESIZE)"

primrec piperead_loop :: "nat \<Rightarrow> pipe \<Rightarrow> byte list \<times> pipe" where
  "piperead_loop 0 x = ([], x)"
| "piperead_loop (Suc k) x =
     (if pi_nread x = pi_nwrite x then ([], x)
      else let (cs, x') = piperead_loop k (x\<lparr>pi_nread := pi_nread x + 1\<rparr>) in (get_byte x # cs, x'))"

datatype rout = RRet int "byte list" | RSleep bool

definition piperead_cont :: "uint \<Rightarrow> int \<Rightarrow> 'a filestate_scheme \<Rightarrow> (rout \<times> 'a filestate_scheme) res" where
  "piperead_cont p n s =
     (case pipes s p of
        None \<Rightarrow> Inl (Wild ''pipe'')
      | Some x \<Rightarrow>
          if pi_nread x = pi_nwrite x \<and> pi_writeopen x
          then
            if killed s then andThen (release (pipelock p) s) (\<lambda>s. Inr (RRet (- 1) [], s))
            else andThen (sleep_switch (C_nread p) (Some (pipelock p)) s) (\<lambda>(saved, s). Inr (RSleep saved, s))
          else
            let (cs, x) = piperead_loop (nat n) x in
            andThen (wakeup (C_nwrite p) (set_pipe p x s)) (\<lambda>s.
            andThen (release (pipelock p) s) (\<lambda>s. Inr (RRet (int (length cs)) cs, s))))"

definition piperead :: "uint \<Rightarrow> int \<Rightarrow> 'a filestate_scheme \<Rightarrow> (rout \<times> 'a filestate_scheme) res" where
  "piperead p n s = andThen (acquire (pipelock p) s) (\<lambda>s. piperead_cont p n s)"

definition piperead_resume ::
  "uint \<Rightarrow> int \<Rightarrow> bool \<Rightarrow> 'a filestate_scheme \<Rightarrow> (rout \<times> 'a filestate_scheme) res" where
  "piperead_resume p n saved s = andThen (sleep_resume (pipelock p) saved s) (\<lambda>s. piperead_cont p n s)"

section \<open>Closing\<close>

text \<open>\<open>kfree\<close> fills the page, which is then no pipe any more.\<close>

definition close_end :: "bool \<Rightarrow> pipe \<Rightarrow> pipe" where
  "close_end writable x = (if writable then x\<lparr>pi_writeopen := False\<rparr> else x\<lparr>pi_readopen := False\<rparr>)"

definition pipeclose :: "uint \<Rightarrow> uint \<Rightarrow> bool \<Rightarrow> 'a filestate_scheme \<Rightarrow> 'a filestate_scheme res" where
  "pipeclose kend p writable s =
     andThen (acquire (pipelock p) s) (\<lambda>s.
     case pipes s p of
       None \<Rightarrow> Inl (Wild ''pipe'')
     | Some x \<Rightarrow>
         let x = close_end writable x in
         andThen (wakeup (if writable then C_nread p else C_nwrite p) (set_pipe p x s)) (\<lambda>s.
         if \<not> pi_readopen x \<and> \<not> pi_writeopen x
         then andThen (release (pipelock p) s) (\<lambda>s. kfree kend p (s\<lparr>pipes := (pipes s)(p := None)\<rparr>))
         else release (pipelock p) s))"

section \<open>A pipe is a bounded queue\<close>

interpretation pr: ring_size PIPESIZE
  by unfold_locales (simp_all add: PIPESIZE_def)

definition pqueue :: "pipe \<Rightarrow> byte list" where
  "pqueue x = ring_queue PIPESIZE (pi_data x) (pi_nread x) (pi_nwrite x)"

definition pipe_ok :: "pipe \<Rightarrow> bool" where
  "pipe_ok x \<longleftrightarrow> length (pi_data x) = PIPESIZE \<and> unat (pi_nwrite x - pi_nread x) \<le> PIPESIZE"

lemma pqueue_le: "pipe_ok x \<Longrightarrow> length (pqueue x) \<le> PIPESIZE"
  by (simp add: pipe_ok_def pqueue_def)

lemma pqueue_empty: "pqueue x = [] \<longleftrightarrow> pi_nread x = pi_nwrite x"
  by (simp add: pqueue_def ring_queue_empty)

lemma pipe_full_iff: "pipe_full x \<longleftrightarrow> length (pqueue x) = PIPESIZE"
proof -
  have "pi_nwrite x = pi_nread x + of_nat PIPESIZE \<longleftrightarrow> pi_nwrite x - pi_nread x = of_nat PIPESIZE" by (auto simp: algebra_simps)
  also have "\<dots> \<longleftrightarrow> unat (pi_nwrite x - pi_nread x) = PIPESIZE"
    by (simp add: PIPESIZE_def) (simp add: word_unat_eq_iff)
  finally show ?thesis by (simp add: pipe_full_def pqueue_def)
qed

lemma put_byte_ok:
  assumes "pipe_ok x" and "\<not> pipe_full x"
  shows "pipe_ok (put_byte c x)" "pqueue (put_byte c x) = pqueue x @ [c]"
proof -
  have lt: "unat (pi_nwrite x - pi_nread x) < PIPESIZE"
    using assms by (simp add: pipe_full_iff pipe_ok_def pqueue_def)
  show "pipe_ok (put_byte c x)" using assms(1) lt by (simp add: put_byte_def pipe_ok_def pr.counter_inc)
  show "pqueue (put_byte c x) = pqueue x @ [c]"
    using assms(1) lt by (simp add: put_byte_def pqueue_def pipe_ok_def pr.queue_put)
qed

lemma put_byte_ends [simp]: "pi_readopen (put_byte c x) = pi_readopen x" "pi_writeopen (put_byte c x) = pi_writeopen x"
  by (simp_all add: put_byte_def)

text \<open>The loop of \<open>pipewrite\<close> appends a prefix of the bytes, and stops short of the last one only when the
  pipe is full.\<close>

definition same_ends :: "pipe \<Rightarrow> pipe \<Rightarrow> bool" where
  "same_ends x y \<longleftrightarrow> pi_readopen y = pi_readopen x \<and> pi_writeopen y = pi_writeopen x"

lemma pipewrite_loop_ok:
  assumes "pipe_ok x"
  shows "case pipewrite_loop kld cs x of
      WDone y \<Rightarrow> pipe_ok y \<and> pqueue y = pqueue x @ cs \<and> same_ends x y
    | WFail y \<Rightarrow> pipe_ok y \<and> pqueue y = pqueue x @ take (PIPESIZE - length (pqueue x)) cs \<and> same_ends x y \<and>
        (\<not> pi_readopen x \<or> kld)
    | WFull y rest \<Rightarrow> pipe_ok y \<and> pqueue y = pqueue x @ take (length cs - length rest) cs \<and> same_ends x y \<and>
        rest = drop (length cs - length rest) cs \<and> length rest \<le> length cs \<and> rest \<noteq> [] \<and> length (pqueue y) = PIPESIZE \<and> pi_readopen y \<and> \<not> kld"
  using assms
proof (induction kld cs x rule: pipewrite_loop.induct)
  case (2 kld c cs x)
  show ?case
  proof (cases "pipe_full x")
    case True
    then show ?thesis using 2(2) by (auto simp: same_ends_def pipe_full_iff)
  next
    case False
    note IH = 2(1) [OF False put_byte_ok(1) [OF 2(2) False]]
    have "length (pqueue x) < PIPESIZE" using False pqueue_le [OF 2(2)] by (simp add: pipe_full_iff)
    with IH False show ?thesis
      by (auto simp: put_byte_ok(2) [OF 2(2) False] same_ends_def take_Cons' drop_Cons' Suc_diff_le split: wloop.splits)
  qed
qed (simp add: same_ends_def)

lemma piperead_loop_ok:
  assumes "pipe_ok x" and "piperead_loop k x = (cs, y)"
  shows "cs = take k (pqueue x) \<and> pqueue y = drop k (pqueue x) \<and> pipe_ok y \<and> same_ends x y"
  using assms
proof (induction k arbitrary: x cs)
  case (Suc k)
  let ?x = "x\<lparr>pi_nread := pi_nread x + 1\<rparr>"
  show ?case
  proof (cases "pi_nread x = pi_nwrite x")
    case True
    then show ?thesis using Suc.prems by (simp add: pqueue_empty [THEN iffD2] same_ends_def)
  next
    case False
    then have "pipe_ok ?x" "pqueue x = get_byte x # pqueue ?x"
      using Suc.prems by (simp_all add: pipe_ok_def pr.counter_dec pr.queue_get pqueue_def get_byte_def)
    with Suc.IH [of ?x] Suc.prems(2) False show ?thesis by (auto simp: same_ends_def split: prod.splits)
  qed
qed (simp add: same_ends_def)

end
