(* ===== verification/PipeSteps.thy ===== *)
theory PipeSteps
  imports Pipe
begin

text \<open>
  Processes that share a pipe. A step is one critical section of the pipe's lock: the part of a call
  between \<open>acquire\<close>, or the return from \<open>sleep\<close>, and the next \<open>sleep\<close> or \<open>release\<close>, with the \<open>wakeup\<close> it does.
  \<open>pc_in\<close> and \<open>pc_out\<close> record the bytes that were ever put into and taken out of the pipe.

  A process that is inside \<open>pipewrite\<close> or \<open>piperead\<close> holds a reference to that end, so that the end is
  not closed under it and a call is made only on an open end.
\<close>

section \<open>The transition system\<close>

datatype thread =
  Idle
| Writing "byte list"   \<comment> \<open>about to run the loop of \<open>pipewrite\<close> with these bytes left\<close>
| WAsleep "byte list"   \<comment> \<open>asleep on \<open>nwrite\<close>\<close>
| Reading nat           \<comment> \<open>about to test the condition of \<open>piperead\<close>\<close>
| RAsleep nat           \<comment> \<open>asleep on \<open>nread\<close>\<close>

record pconf =
  pc_pipe :: pipe
  pc_thr :: "nat \<Rightarrow> thread"
  pc_killed :: "nat \<Rightarrow> bool"
  pc_in :: "byte list"
  pc_out :: "byte list"

primrec wake_nread :: "thread \<Rightarrow> thread" where
  "wake_nread Idle = Idle"
| "wake_nread (Writing cs) = Writing cs"
| "wake_nread (WAsleep cs) = WAsleep cs"
| "wake_nread (Reading n) = Reading n"
| "wake_nread (RAsleep n) = Reading n"

primrec wake_nwrite :: "thread \<Rightarrow> thread" where
  "wake_nwrite Idle = Idle"
| "wake_nwrite (Writing cs) = Writing cs"
| "wake_nwrite (WAsleep cs) = Writing cs"
| "wake_nwrite (Reading n) = Reading n"
| "wake_nwrite (RAsleep n) = RAsleep n"

primrec writer :: "thread \<Rightarrow> bool" where
  "writer Idle = False" | "writer (Writing cs) = True" | "writer (WAsleep cs) = True"
| "writer (Reading n) = False" | "writer (RAsleep n) = False"

primrec reader :: "thread \<Rightarrow> bool" where
  "reader Idle = False" | "reader (Writing cs) = False" | "reader (WAsleep cs) = False"
| "reader (Reading n) = True" | "reader (RAsleep n) = True"

inductive pipe_step :: "pconf \<Rightarrow> pconf \<Rightarrow> bool" where
  w_call: "pc_thr c t = Idle \<Longrightarrow> pi_writeopen (pc_pipe c) \<Longrightarrow> pipe_step c (c\<lparr>pc_thr := (pc_thr c)(t := Writing cs)\<rparr>)"
| w_done: "pc_thr c t = Writing cs \<Longrightarrow> pipewrite_loop (pc_killed c t) cs (pc_pipe c) = WDone y \<Longrightarrow>
    pipe_step c (c\<lparr>pc_pipe := y, pc_thr := (wake_nread \<circ> pc_thr c)(t := Idle), pc_in := pc_in c @ cs\<rparr>)"
| w_fail: "pc_thr c t = Writing cs \<Longrightarrow> pipewrite_loop (pc_killed c t) cs (pc_pipe c) = WFail y \<Longrightarrow>
    pipe_step c (c\<lparr>pc_pipe := y, pc_thr := (pc_thr c)(t := Idle),
      pc_in := pc_in c @ take (PIPESIZE - length (pqueue (pc_pipe c))) cs\<rparr>)"
| w_full: "pc_thr c t = Writing cs \<Longrightarrow> pipewrite_loop (pc_killed c t) cs (pc_pipe c) = WFull y rest \<Longrightarrow>
    pipe_step c (c\<lparr>pc_pipe := y, pc_thr := (wake_nread \<circ> pc_thr c)(t := WAsleep rest),
      pc_in := pc_in c @ take (length cs - length rest) cs\<rparr>)"
| r_call: "pc_thr c t = Idle \<Longrightarrow> pi_readopen (pc_pipe c) \<Longrightarrow> pipe_step c (c\<lparr>pc_thr := (pc_thr c)(t := Reading n)\<rparr>)"
| r_sleep: "pc_thr c t = Reading n \<Longrightarrow> pi_nread (pc_pipe c) = pi_nwrite (pc_pipe c) \<Longrightarrow> pi_writeopen (pc_pipe c) \<Longrightarrow>
    \<not> pc_killed c t \<Longrightarrow> pipe_step c (c\<lparr>pc_thr := (pc_thr c)(t := RAsleep n)\<rparr>)"
| r_fail: "pc_thr c t = Reading n \<Longrightarrow> pi_nread (pc_pipe c) = pi_nwrite (pc_pipe c) \<Longrightarrow> pi_writeopen (pc_pipe c) \<Longrightarrow>
    pc_killed c t \<Longrightarrow> pipe_step c (c\<lparr>pc_thr := (pc_thr c)(t := Idle)\<rparr>)"
| r_done: "pc_thr c t = Reading n \<Longrightarrow> \<not> (pi_nread (pc_pipe c) = pi_nwrite (pc_pipe c) \<and> pi_writeopen (pc_pipe c)) \<Longrightarrow>
    piperead_loop n (pc_pipe c) = (cs, y) \<Longrightarrow>
    pipe_step c (c\<lparr>pc_pipe := y, pc_thr := (wake_nwrite \<circ> pc_thr c)(t := Idle), pc_out := pc_out c @ cs\<rparr>)"
| w_close: "pi_writeopen (pc_pipe c) \<Longrightarrow> (\<And>t. \<not> writer (pc_thr c t)) \<Longrightarrow>
    pipe_step c (c\<lparr>pc_pipe := close_end True (pc_pipe c), pc_thr := wake_nread \<circ> pc_thr c\<rparr>)"
| r_close: "pi_readopen (pc_pipe c) \<Longrightarrow> (\<And>t. \<not> reader (pc_thr c t)) \<Longrightarrow>
    pipe_step c (c\<lparr>pc_pipe := close_end False (pc_pipe c), pc_thr := wake_nwrite \<circ> pc_thr c\<rparr>)"
| kill: "pipe_step c (c\<lparr>pc_killed := (pc_killed c)(t := True),
      pc_thr := (pc_thr c)(t := wake_nread (wake_nwrite (pc_thr c t)))\<rparr>)"

text \<open>A new pipe, as \<open>pipealloc\<close> leaves it; the data bytes are what the page held.\<close>

definition new_pipe :: "byte list \<Rightarrow> pipe" where
  "new_pipe d = \<lparr>pi_data = d, pi_nread = 0, pi_nwrite = 0, pi_readopen = True, pi_writeopen = True\<rparr>"

definition pipe_start :: "byte list \<Rightarrow> pconf" where
  "pipe_start d = \<lparr>pc_pipe = new_pipe d, pc_thr = \<lambda>_. Idle, pc_killed = \<lambda>_. False, pc_in = [], pc_out = []\<rparr>"

section \<open>Nothing is lost, duplicated or reordered\<close>

definition fifo_inv :: "pconf \<Rightarrow> bool" where
  "fifo_inv c \<longleftrightarrow> pipe_ok (pc_pipe c) \<and> pc_in c = pc_out c @ pqueue (pc_pipe c)"

lemma fifo_step: "pipe_step c c' \<Longrightarrow> fifo_inv c \<Longrightarrow> fifo_inv c'"
proof (induction rule: pipe_step.induct)
  case (w_done c t cs y)
  then show ?case using pipewrite_loop_ok [of "pc_pipe c" cs "pc_killed c t"] by (simp add: fifo_inv_def)
next
  case (w_fail c t cs y)
  then show ?case using pipewrite_loop_ok [of "pc_pipe c" cs "pc_killed c t"] by (simp add: fifo_inv_def)
next
  case (w_full c t cs y rest)
  then show ?case using pipewrite_loop_ok [of "pc_pipe c" cs "pc_killed c t"] by (simp add: fifo_inv_def)
next
  case (r_done c t n cs y)
  then show ?case using piperead_loop_ok [of "pc_pipe c" n cs y] by (simp add: fifo_inv_def)
qed (simp_all add: fifo_inv_def close_end_def pipe_ok_def pqueue_def)

lemma fifo_start: "length d = PIPESIZE \<Longrightarrow> fifo_inv (pipe_start d)"
  by (simp add: fifo_inv_def pipe_start_def new_pipe_def pipe_ok_def pqueue_def ring_queue_def)

lemma fifo_reach: "pipe_step\<^sup>*\<^sup>* (pipe_start d) c \<Longrightarrow> length d = PIPESIZE \<Longrightarrow> fifo_inv c"
  by (induction rule: rtranclp_induct) (auto intro: fifo_start fifo_step)

text \<open>C14: a pipe is a lossless first-in first-out channel for any number of readers and writers,
  however their critical sections interleave and whichever of them are killed or close their end, and
  also when the counters wrap around: the bytes ever written are the bytes ever read followed by the at
  most 512 bytes in the buffer.\<close>

theorem pipe_fifo:
  assumes "pipe_step\<^sup>*\<^sup>* (pipe_start d) c" and "length d = PIPESIZE"
  shows "pc_in c = pc_out c @ pqueue (pc_pipe c) \<and> length (pqueue (pc_pipe c)) \<le> PIPESIZE"
  using fifo_reach [OF assms] pqueue_le by (simp add: fifo_inv_def)

section \<open>No wakeup is lost, unless a writer is killed\<close>

definition wake_inv :: "pconf \<Rightarrow> bool" where
  "wake_inv c \<longleftrightarrow> fifo_inv c \<and>
     (\<forall>t n. pc_thr c t = RAsleep n \<longrightarrow> pqueue (pc_pipe c) = [] \<and> pi_writeopen (pc_pipe c)) \<and>
     (\<forall>t cs. pc_thr c t = WAsleep cs \<longrightarrow> length (pqueue (pc_pipe c)) = PIPESIZE \<and> pi_readopen (pc_pipe c)) \<and>
     (\<forall>t. reader (pc_thr c t) \<longrightarrow> pi_readopen (pc_pipe c)) \<and>
     (\<forall>t. writer (pc_thr c t) \<longrightarrow> pi_writeopen (pc_pipe c))"

lemma wake_simps [simp]:
  "wake_nread x \<noteq> RAsleep n" "wake_nwrite x \<noteq> WAsleep cs"
  "wake_nread x = WAsleep cs \<longleftrightarrow> x = WAsleep cs" "wake_nwrite x = RAsleep n \<longleftrightarrow> x = RAsleep n"
  "reader (wake_nread x) = reader x" "writer (wake_nread x) = writer x"
  "reader (wake_nwrite x) = reader x" "writer (wake_nwrite x) = writer x"
  by (cases x; simp)+

lemma killed_mono: "pipe_step c c' \<Longrightarrow> pc_killed c t \<Longrightarrow> pc_killed c' t"
  by (induction rule: pipe_step.induct) auto

lemma wake_invD:
  assumes "wake_inv c"
  shows "fifo_inv c" "pipe_ok (pc_pipe c)"
    "pc_thr c t = RAsleep n \<Longrightarrow> pqueue (pc_pipe c) = [] \<and> pi_writeopen (pc_pipe c) \<and> pi_readopen (pc_pipe c)"
    "pc_thr c t = WAsleep cs \<Longrightarrow> length (pqueue (pc_pipe c)) = PIPESIZE \<and> pi_readopen (pc_pipe c) \<and> pi_writeopen (pc_pipe c)"
    "reader (pc_thr c t) \<Longrightarrow> pi_readopen (pc_pipe c)" "writer (pc_thr c t) \<Longrightarrow> pi_writeopen (pc_pipe c)"
  using assms unfolding wake_inv_def fifo_inv_def by (metis reader.simps(5) writer.simps(3))+

lemma wake_invI:
  assumes "fifo_inv c"
    and "\<And>t n. pc_thr c t = RAsleep n \<Longrightarrow> pqueue (pc_pipe c) = [] \<and> pi_writeopen (pc_pipe c)"
    and "\<And>t cs. pc_thr c t = WAsleep cs \<Longrightarrow> length (pqueue (pc_pipe c)) = PIPESIZE \<and> pi_readopen (pc_pipe c)"
    and "\<And>t. reader (pc_thr c t) \<Longrightarrow> pi_readopen (pc_pipe c)"
    and "\<And>t. writer (pc_thr c t) \<Longrightarrow> pi_writeopen (pc_pipe c)"
  shows "wake_inv c"
  using assms by (simp add: wake_inv_def)

lemma wake_step:
  assumes "pipe_step c c'" and "wake_inv c" and "\<And>t. \<not> pc_killed c' t"
  shows "wake_inv c'"
proof -
  have f: "fifo_inv c'" using assms(1,2) fifo_step by (simp add: wake_inv_def)
  show ?thesis using assms f
  proof (induction rule: pipe_step.induct)
    case (w_done c t cs y)
    have "pipe_ok y" using w_done(5) by (simp add: fifo_inv_def)
    then have "length (pqueue y) \<le> PIPESIZE" by (rule pqueue_le)
    with w_done pipewrite_loop_ok [OF wake_invD(2) [OF w_done(3)], of cs "pc_killed c t"] show ?case
      by (intro wake_invI) (auto simp: same_ends_def split: if_splits dest: wake_invD(3-6) [OF w_done(3)])
  next
    case (w_fail c t cs y)
    then have "\<not> pc_killed c t" by simp
    with w_fail pipewrite_loop_ok [OF wake_invD(2) [OF w_fail(3)], of cs "pc_killed c t"]
    have "\<not> pi_readopen (pc_pipe c)" "same_ends (pc_pipe c) y" by auto
    with w_fail(1,5) show ?case
      by (intro wake_invI) (auto simp: same_ends_def split: if_splits dest: wake_invD(3-6) [OF w_fail(3)])
  next
    case (w_full c t cs y rest)
    with pipewrite_loop_ok [OF wake_invD(2) [OF w_full(3)], of cs "pc_killed c t"] wake_invD(6) [OF w_full(3), of t] show ?case
      by (intro wake_invI) (auto simp: same_ends_def split: if_splits dest: wake_invD(3-6) [OF w_full(3)])
  next
    case (r_done c t n cs y)
    then have "\<not> (pqueue (pc_pipe c) = [] \<and> pi_writeopen (pc_pipe c))" by (simp add: pqueue_empty)
    with r_done piperead_loop_ok [OF wake_invD(2) [OF r_done(4)], of n cs y] show ?case
      by (intro wake_invI) (auto simp: same_ends_def split: if_splits dest: wake_invD(3-6) [OF r_done(4)])
  next
    case (kill c t)
    from kill(2) [of t] show ?case by simp
  next
    case (w_close c)
    then show ?case
      by (intro wake_invI) (auto simp: close_end_def pqueue_def dest: wake_invD(3-6) [OF w_close(3)])
  next
    case (r_close c)
    then show ?case
      by (intro wake_invI) (auto simp: close_end_def pqueue_def dest: wake_invD(3-6) [OF r_close(3)])
  next
    case (r_sleep c t n)
    then show ?case using wake_invD(5) [OF r_sleep(5), of t]
      by (intro wake_invI) (auto simp: pqueue_empty split: if_splits dest: wake_invD(3-6) [OF r_sleep(5)])
  next
    case (w_call c t cs)
    then show ?case by (intro wake_invI) (auto split: if_splits dest: wake_invD(3-6) [OF w_call(3)])
  next
    case (r_call c t n)
    then show ?case by (intro wake_invI) (auto split: if_splits dest: wake_invD(3-6) [OF r_call(3)])
  next
    case (r_fail c t n)
    then show ?case by simp
  qed
qed

lemma wake_reach:
  assumes "pipe_step\<^sup>*\<^sup>* (pipe_start d) c" and "length d = PIPESIZE" and "\<And>t. \<not> pc_killed c t"
  shows "wake_inv c"
  using assms
proof (induction rule: rtranclp_induct)
  case base
  then show ?case using fifo_start by (simp add: wake_inv_def pipe_start_def new_pipe_def)
next
  case (step c c')
  then show ?case using wake_step killed_mono by blast
qed

text \<open>C15: as long as no process is killed, no wakeup is lost: a process sleeps in \<open>piperead\<close> only
  while the pipe is empty and its write end open, and in \<open>pipewrite\<close> only while the pipe is full and its
  read end open. So a reader and a writer are never both asleep on the same pipe.\<close>

theorem pipe_no_lost_wakeup:
  assumes "pipe_step\<^sup>*\<^sup>* (pipe_start d) c" and "length d = PIPESIZE" and "\<forall>t. \<not> pc_killed c t"
  shows "(pc_thr c t = RAsleep n \<longrightarrow> pqueue (pc_pipe c) = [] \<and> pi_writeopen (pc_pipe c)) \<and>
    (pc_thr c u = WAsleep cs \<longrightarrow> length (pqueue (pc_pipe c)) = PIPESIZE \<and> pi_readopen (pc_pipe c)) \<and>
    \<not> (pc_thr c t = RAsleep n \<and> pc_thr c u = WAsleep cs)"
proof -
  have "wake_inv c" using wake_reach [OF assms(1,2)] assms(3) by blast
  then show ?thesis by (auto simp: wake_inv_def PIPESIZE_def)
qed

section \<open>A killed writer does not wake the reader\<close>

primrec put_all :: "byte list \<Rightarrow> pipe \<Rightarrow> pipe" where
  "put_all [] x = x" | "put_all (c # cs) x = put_all cs (put_byte c x)"

lemma pipewrite_loop_split:
  "pipe_ok x \<Longrightarrow> length (pqueue x) + length cs \<le> PIPESIZE \<Longrightarrow>
   pipewrite_loop kld (cs @ rest) x = pipewrite_loop kld rest (put_all cs x) \<and>
   pipe_ok (put_all cs x) \<and> pqueue (put_all cs x) = pqueue x @ cs"
proof (induction cs arbitrary: x)
  case (Cons c cs)
  then have "\<not> pipe_full x" by (simp add: pipe_full_iff)
  with Cons put_byte_ok [OF Cons(2), of c] show ?case by simp
qed simp


section \<open>The steps are what the kernel routines do\<close>

lemma sleep_switch_entered:
  assumes "calm s" and "myproc s = Some i" and "i < length (procs s)" and "l \<noteq> L_ptable"
  shows "sleep_switch ch (Some l) (entered l s) =
    Inr (ifl (mycpu s), entered L_ptable (upd_proc i (\<lambda>p. p\<lparr>p_chan := Some ch, p_state := SLEEPING\<rparr>) s))"
  using assms by (simp add: sleep_switch_def sched_entered release_outer Let_def upd_proc_upd_proc)

lemma pipe_entered [simp]:
  "pipes (entered l s) = pipes s" "ftable (entered l s) = ftable s"
  "set_pipe p x (entered l s) = entered l (set_pipe p x s)"
  by (simp_all add: entered_def lock_defs set_pipe_def)

lemma killed_entered [simp]: "killed (entered l s) = killed s"
  by (simp add: killed_def split: option.split)

lemma pipe_calm [simp]:
  "calm (set_pipe p x s) = calm s" "calm (wakeup1 ch s) = calm s" "quiet (set_pipe p x s) = quiet s"
  "myproc (set_pipe p x s) = myproc s" "procs (set_pipe p x s) = procs s" "ifl (mycpu (set_pipe p x s)) = ifl (mycpu s)"
  "myproc (wakeup1 ch s) = myproc s" "procs (wakeup1 ch s) = map (wake ch) (procs s)" "ifl (mycpu (wakeup1 ch s)) = ifl (mycpu s)"
  by (simp_all add: calm_def quiet_def cpu_ok_def free_lock_def mycpu_def set_pipe_def myproc_def wakeup1_def)

definition asleep :: "nat \<Rightarrow> chan \<Rightarrow> 'a ptab_scheme \<Rightarrow> 'a ptab_scheme" where
  "asleep i ch s = entered L_ptable (upd_proc i (\<lambda>p. p\<lparr>p_chan := Some ch, p_state := SLEEPING\<rparr>) s)"

lemma pipewrite_eq:
  assumes "calm s" and "myproc s = Some i" and "i < length (procs s)" and "pipes s p = Some x"
  shows "pipewrite p cs (int (length cs)) s =
    (case pipewrite_loop (p_killed (procs s ! i)) cs x of
      WDone y \<Rightarrow> Inr (WRet (int (length cs)), wakeup1 (C_nread p) (set_pipe p y s))
    | WFail y \<Rightarrow> Inr (WRet (- 1), set_pipe p y s)
    | WFull y rest \<Rightarrow> Inr (WSleep rest (ifl (mycpu s)), asleep i (C_nwrite p) (wakeup1 (C_nread p) (set_pipe p y s))))"
  using assms by (simp add: pipewrite_def pipewrite_cont_def wakeup_eq sleep_switch_entered asleep_def pipelock_def killed_def split: wloop.splits)

lemma piperead_eq:
  assumes "calm s" and "myproc s = Some i" and "i < length (procs s)" and "pipes s p = Some x"
  shows "piperead p n s =
    (if pi_nread x = pi_nwrite x \<and> pi_writeopen x
     then if p_killed (procs s ! i) then Inr (RRet (- 1) [], s)
       else Inr (RSleep (ifl (mycpu s)), asleep i (C_nread p) s)
     else let (cs, y) = piperead_loop (nat n) x
       in Inr (RRet (int (length cs)) cs, wakeup1 (C_nwrite p) (set_pipe p y s)))"
  using assms by (simp add: piperead_def piperead_cont_def wakeup_eq sleep_switch_entered asleep_def pipelock_def killed_def
      split: prod.splits)


section \<open>On small runs\<close>

definition wr_conf :: pconf where
  "wr_conf = (pipe_start (replicate PIPESIZE 0))\<lparr>pc_pipe := put_all [1, 2, 3] (new_pipe (replicate PIPESIZE 0)), pc_in := [1, 2, 3]\<rparr>"

lemma wr_conf_reach: "pipe_step\<^sup>*\<^sup>* (pipe_start (replicate PIPESIZE 0)) wr_conf"
proof -
  let ?c = "pipe_start (replicate PIPESIZE 0)"
  let ?c1 = "?c\<lparr>pc_thr := (pc_thr ?c)(0 := Writing [1, 2, 3])\<rparr>"
  have ok: "pipe_ok (new_pipe (replicate PIPESIZE 0))" "pqueue (new_pipe (replicate PIPESIZE 0)) = []"
    by (simp_all add: new_pipe_def pipe_ok_def pqueue_def ring_queue_def)
  have s1: "pipe_step ?c ?c1" by (rule w_call) (simp_all add: pipe_start_def new_pipe_def)
  have l: "pipewrite_loop False [1, 2, 3] (new_pipe (replicate PIPESIZE 0)) = WDone (put_all [1, 2, 3] (new_pipe (replicate PIPESIZE 0)))"
    using pipewrite_loop_split [OF ok(1), of "[1, 2, 3]" False "[]"] ok(2) by (simp add: PIPESIZE_def)
  have "pipe_step ?c1 (?c1\<lparr>pc_pipe := put_all [1, 2, 3] (new_pipe (replicate PIPESIZE 0)),
      pc_thr := (wake_nread \<circ> pc_thr ?c1)(0 := Idle), pc_in := pc_in ?c1 @ [1, 2, 3]\<rparr>)" (is "pipe_step _ ?c2")
    by (rule w_done) (simp, use l in \<open>simp add: pipe_start_def\<close>)
  moreover have "?c2 = wr_conf" by (simp add: wr_conf_def pipe_start_def fun_eq_iff)
  ultimately show ?thesis using s1 by (metis rtranclp.rtrancl_into_rtrancl rtranclp.rtrancl_refl)
qed

theorem pipe_fifo_witness: "pqueue (pc_pipe wr_conf) = [1, 2, 3]"
proof -
  have "pc_in wr_conf = [1, 2, 3]" "pc_out wr_conf = []" by (simp_all add: wr_conf_def pipe_start_def)
  with pipe_fifo [OF wr_conf_reach] show ?thesis by simp
qed

theorem pipe_no_lost_wakeup_witness:
  "\<exists>c. pipe_step\<^sup>*\<^sup>* (pipe_start (replicate PIPESIZE 0)) c \<and> pc_thr c 0 = RAsleep 1 \<and> pqueue (pc_pipe c) = []"
proof -
  let ?c = "pipe_start (replicate PIPESIZE 0)"
  let ?c1 = "?c\<lparr>pc_thr := (pc_thr ?c)(0 := Reading 1)\<rparr>"
  let ?c2 = "?c1\<lparr>pc_thr := (pc_thr ?c1)(0 := RAsleep 1)\<rparr>"
  have "pipe_step ?c ?c1" by (rule r_call) (simp_all add: pipe_start_def new_pipe_def)
  moreover have "pipe_step ?c1 ?c2" by (rule r_sleep) (simp_all add: pipe_start_def new_pipe_def)
  ultimately have r: "pipe_step\<^sup>*\<^sup>* ?c ?c2" by (meson rtranclp.rtrancl_into_rtrancl rtranclp.rtrancl_refl)
  have k: "\<forall>t. \<not> pc_killed ?c2 t" "pc_thr ?c2 0 = RAsleep 1" by (simp_all add: pipe_start_def)
  have "pqueue (pc_pipe ?c2) = []" using pipe_no_lost_wakeup [OF r _ k(1), of 0 1] k(2) by simp
  with r k(2) show ?thesis by blast
qed

definition boot_pipe :: filestate where
  "boot_pipe = boot_ext (\<lambda>_ _. []) 
    \<lparr>inodes = [], ftable = [], pipes = [0x200000 \<mapsto> new_pipe (replicate PIPESIZE 0)]\<rparr>"


end
