(* ===== verification/File.thy ===== *)
theory File
  imports PipeSteps
begin

text \<open>
  Open files (\<^verbatim>\<open>file.c\<close>) and the allocation of pipes (\<^verbatim>\<open>pipe.c\<close>).

  The device switch is the three arguments \<open>devr\<close>, \<open>devw\<close> and \<open>devi\<close>. \<open>fileread\<close> and \<open>filewrite\<close> return what
  \<open>piperead\<close> and \<open>pipewrite\<close> return, which may be that the process went to sleep. The addresses \<open>addr\<close> are
  the bytes there.
\<close>

section \<open>The file table\<close>

definition NFILE :: nat where "NFILE = 100"

definition upd_file :: "nat \<Rightarrow> (ofile \<Rightarrow> ofile) \<Rightarrow> 'a filestate_scheme \<Rightarrow> 'a filestate_scheme" where
  "upd_file f g s = s\<lparr>ftable := (ftable s)[f := g (ftable s ! f)]\<rparr>"

definition fileinit :: "'a filestate_scheme \<Rightarrow> 'a filestate_scheme" where
  "fileinit s = initlock L_ftable ''ftable'' s"

primrec scan_files :: "nat \<Rightarrow> ofile list \<Rightarrow> nat option" where
  "scan_files i [] = None"
| "scan_files i (f # fs) = (if f_ref f = 0 then Some i else scan_files (Suc i) fs)"

definition filealloc :: "'a filestate_scheme \<Rightarrow> (nat option \<times> 'a filestate_scheme) res" where
  "filealloc s =
     andThen (acquire L_ftable s) (\<lambda>s.
     case scan_files 0 (ftable s) of
       Some f \<Rightarrow>
         let s = upd_file f (\<lambda>x. x\<lparr>f_ref := 1\<rparr>) s in
         andThen (release L_ftable s) (\<lambda>s. Inr (Some f, s))
     | None \<Rightarrow> andThen (release L_ftable s) (\<lambda>s. Inr (None, s)))"

definition filedup :: "nat \<Rightarrow> 'a filestate_scheme \<Rightarrow> (nat \<times> 'a filestate_scheme) res" where
  "filedup f s =
     andThen (acquire L_ftable s) (\<lambda>s.
     if f_ref (ftable s ! f) < 1 then Inl (Panic ''filedup'')
     else
       let s = upd_file f (\<lambda>x. x\<lparr>f_ref := f_ref x + 1\<rparr>) s in
       andThen (release L_ftable s) (\<lambda>s. Inr (f, s)))"

definition fileclose :: "uint \<Rightarrow> nat \<Rightarrow> 'a filestate_scheme \<Rightarrow> 'a filestate_scheme res" where
  "fileclose kend f s =
     andThen (acquire L_ftable s) (\<lambda>s.
     if f_ref (ftable s ! f) < 1 then Inl (Panic ''fileclose'')
     else
       let s = upd_file f (\<lambda>x. x\<lparr>f_ref := f_ref x - 1\<rparr>) s in
       if f_ref (ftable s ! f) > 0 then release L_ftable s
       else
         let ff = ftable s ! f;
             s = upd_file f (\<lambda>x. x\<lparr>f_ref := 0\<rparr>) s;
             s = upd_file f (\<lambda>x. x\<lparr>f_type := FD_NONE\<rparr>) s
         in andThen (release L_ftable s) (\<lambda>s.
            if f_type ff = FD_PIPE then pipeclose kend (f_pipe ff) (f_writable ff) s
            else if f_type ff = FD_INODE
            then (case f_ip ff of None \<Rightarrow> Inl (Wild ''iput'') | Some ip \<Rightarrow> iput ip s)
            else Inr s))"

section \<open>Operations on an open file\<close>

definition filestat :: "nat \<Rightarrow> 'a filestate_scheme \<Rightarrow> (stat_t option \<times> 'a filestate_scheme) res" where
  "filestat f s =
     (if f_type (ftable s ! f) = FD_INODE
      then
        let ip = f_ip (ftable s ! f) in
        andThen (ilock ip s) (\<lambda>s.
        let st = stati (the ip) s in
        andThen (iunlock ip s) (\<lambda>s. Inr (Some st, s)))
      else Inr (None, s))"

definition fileread ::
  "'a filestate_scheme dev_read \<Rightarrow> nat \<Rightarrow> int \<Rightarrow> 'a filestate_scheme \<Rightarrow> (rout \<times> 'a filestate_scheme) res" where
  "fileread devr f n s =
     (let x = ftable s ! f in
      if \<not> f_readable x then Inr (RRet (- 1) [], s)
      else if f_type x = FD_PIPE then piperead (f_pipe x) n s
      else if f_type x = FD_INODE
      then
        andThen (ilock (f_ip x) s) (\<lambda>s.
        andThen (readi devr (the (f_ip x)) (f_off (ftable s ! f)) (word_of_int n) s) (\<lambda>((r, bs), s).
        let s = (if r > 0 then upd_file f (\<lambda>x. x\<lparr>f_off := f_off x + word_of_int r\<rparr>) s else s) in
        andThen (iunlock (f_ip x) s) (\<lambda>s. Inr (RRet r bs, s))))
      else Inl (Panic ''fileread''))"

definition filewrite ::
  "'a filestate_scheme dev_write \<Rightarrow> nat \<Rightarrow> byte list \<Rightarrow> int \<Rightarrow> 'a filestate_scheme \<Rightarrow> (wout \<times> 'a filestate_scheme) res" where
  "filewrite devw f addr n s =
     (let x = ftable s ! f in
      if \<not> f_writable x then Inr (WRet (- 1), s)
      else if f_type x = FD_PIPE then pipewrite (f_pipe x) addr n s
      else if f_type x = FD_INODE
      then
        andThen (ilock (f_ip x) s) (\<lambda>s.
        andThen (writei devw (the (f_ip x)) addr (f_off (ftable s ! f)) (word_of_int n) s) (\<lambda>(r, s).
        let s = (if r > 0 then upd_file f (\<lambda>x. x\<lparr>f_off := f_off x + word_of_int r\<rparr>) s else s) in
        andThen (iunlock (f_ip x) s) (\<lambda>s. Inr (WRet r, s))))
      else Inl (Panic ''filewrite''))"

type_synonym 's dev_ioctl = "int \<Rightarrow> (nat \<Rightarrow> int \<Rightarrow> uint \<Rightarrow> 's \<Rightarrow> (int \<times> 's) res) option"

definition fileioctl ::
  "'a filestate_scheme dev_ioctl \<Rightarrow> nat \<Rightarrow> int \<Rightarrow> uint \<Rightarrow> 'a filestate_scheme \<Rightarrow> (int \<times> 'a filestate_scheme) res" where
  "fileioctl devi f request argp s =
     (if f_type (ftable s ! f) = FD_PIPE then Inr (- 1, s)
      else
        case f_ip (ftable s ! f) of
          None \<Rightarrow> Inl (Wild ''fileioctl'')
        | Some ip \<Rightarrow>
            let x = inodes s ! ip in
            if i_type x \<noteq> T_DEV then Inr (- 1, s)
            else if sint (i_major x) < 0 \<or> sint (i_major x) \<ge> NDEV then Inr (- 1, s)
            else case devi (sint (i_major x)) of
                   None \<Rightarrow> Inr (- 1, s)
                 | Some g \<Rightarrow>
                     andThen (ilock (Some ip) s) (\<lambda>s.
                     andThen (g ip request argp s) (\<lambda>(r, s).
                     andThen (iunlock (Some ip) s) (\<lambda>s. Inr (r, s)))))"

section \<open>Making a pipe\<close>

definition close_opt :: "uint \<Rightarrow> nat option \<Rightarrow> 'a filestate_scheme \<Rightarrow> 'a filestate_scheme res" where
  "close_opt kend fo s = (case fo of None \<Rightarrow> Inr s | Some f \<Rightarrow> fileclose kend f s)"

text \<open>The page from \<open>kalloc\<close> becomes a pipe, with the bytes it held as data.\<close>

definition page_bytes :: "uint \<Rightarrow> 'a kmem_scheme \<Rightarrow> byte list" where
  "page_bytes p s = map (\<lambda>i. pmem s (p + of_nat i)) [0..<PIPESIZE]"

definition pipe_end :: "uint \<Rightarrow> bool \<Rightarrow> ofile \<Rightarrow> ofile" where
  "pipe_end p w x = x\<lparr>f_type := FD_PIPE, f_readable := \<not> w, f_writable := w, f_pipe := p\<rparr>"

definition pipealloc :: "uint \<Rightarrow> 'a filestate_scheme \<Rightarrow> ((nat \<times> nat) option \<times> 'a filestate_scheme) res" where
  "pipealloc kend s =
     andThen (filealloc s) (\<lambda>(f0, s).
     andThen (if f0 = None then Inr (None, s) else filealloc s) (\<lambda>(f1, s).
     andThen (if f0 = None \<or> f1 = None then Inr (0, s) else kalloc s) (\<lambda>(p, s).
     case (f0, f1) of
       (Some r, Some w) \<Rightarrow>
         if p \<noteq> 0
         then
           let s = set_pipe p (new_pipe (page_bytes p s)) s;
               s = initlock (pipelock p) ''pipe'' s;
               s = upd_file r (pipe_end p False) s;
               s = upd_file w (pipe_end p True) s
           in Inr (Some (r, w), s)
         else andThen (close_opt kend f0 s) (\<lambda>s. andThen (close_opt kend f1 s) (\<lambda>s. Inr (None, s)))
     | _ \<Rightarrow> andThen (close_opt kend f0 s) (\<lambda>s. andThen (close_opt kend f1 s) (\<lambda>s. Inr (None, s))))))"

section \<open>Frame lemmas\<close>

lemma file_entered [simp]:
  "(entered l s)\<lparr>ftable := F\<rparr> = entered l (s\<lparr>ftable := F\<rparr>)" "upd_file f g (entered l s) = entered l (upd_file f g s)"
  by (simp_all add: upd_file_def) (simp_all add: entered_def lock_defs)

lemma file_frame [simp]:
  "quiet (s\<lparr>ftable := F\<rparr>) = quiet s" "free_lock l (s\<lparr>ftable := F\<rparr>) = free_lock l s" "cpu_ok (s\<lparr>ftable := F\<rparr>) = cpu_ok s"
  "bcache_ok (s\<lparr>ftable := F\<rparr>) = bcache_ok s" "held (s\<lparr>ftable := F\<rparr>) = held s" "good_block (s\<lparr>ftable := F\<rparr>) = good_block s"
  "dev_ok (s\<lparr>ftable := F\<rparr>) = dev_ok s"
  by (simp_all add: bcache_ok_def ide_idle_def quiet_def cpu_ok_def mycpu_def free_lock_def ide_ready_def myproc_def
      buf_ok_def dev_ok_def sector_of_def held_def good_block_def fun_eq_iff)

lemma file_adisk [simp]: "adisk (s\<lparr>ftable := F\<rparr>) = adisk s"
  by (simp add: adisk_def sector_of_def fun_eq_iff)

lemma upd_file_frame [simp]:
  "quiet (upd_file f g s) = quiet s" "inodes (upd_file f g s) = inodes s" "pipes (upd_file f g s) = pipes s"
  "ftable (upd_file f g s) = (ftable s)[f := g (ftable s ! f)]"
  "free_lock l (upd_file f g s) = free_lock l s" "cpu_ok (upd_file f g s) = cpu_ok s"
  by (simp_all add: upd_file_def)

lemma on_file_ftable [simp]: "on_file (upd_file f g s) ip dev a n = on_file s ip dev a n"
  by (simp add: on_file_def idle_def upd_file_def)

lemma bcache_ok_procs [simp]:
  "bcache_ok (wakeup1 ch s) = bcache_ok s" "held (wakeup1 ch s) = held s" "good_block (wakeup1 ch s) = good_block s"
  "dev_ok (wakeup1 ch s) = dev_ok s"
  by (simp_all add: wakeup1_def bcache_ok_def ide_idle_def quiet_def cpu_ok_def mycpu_def free_lock_def ide_ready_def
      myproc_def buf_ok_def dev_ok_def sector_of_def held_def good_block_def fun_eq_iff)

lemma wakeup1_adisk [simp]: "adisk (wakeup1 ch s) = adisk s"
  by (simp add: adisk_def fun_eq_iff) (simp add: wakeup1_def sector_of_def)

lemma upd_inode_file [simp]: "ftable (upd_inode ip g s) = ftable s" "pipes (upd_inode ip g s) = pipes s"
  by (simp_all add: upd_inode_def)

lemma wakeup1_inodes [simp]: "inodes (wakeup1 ch s) = inodes s"
  by (simp add: wakeup1_def)

lemma wakeup1_file [simp]:
  "ftable (wakeup1 ch s) = ftable s" "pipes (wakeup1 ch s) = pipes s"
  by (simp_all add: wakeup1_def)

lemma on_file_wakeup1 [simp]: "on_file (wakeup1 ch s) ip dev a n = on_file s ip dev a n"
  by (simp add: on_file_def idle_def)

lemma on_file_busy [simp]: "ip < length (inodes s) \<Longrightarrow> on_file (upd_inode ip (\<lambda>x. x\<lparr>i_busy := b\<rparr>) s) ip dev a n = on_file s ip dev a n"
  by (auto simp: on_file_def upd_inode_def)

lemma bstep_file: "bstep s s' \<Longrightarrow> ftable s' = ftable s \<and> pipes s' = pipes s"
  by (auto simp: bstep_def)

section \<open>Reading and writing through an open file\<close>

text \<open>File \<open>f\<close> is open on inode \<open>ip\<close>, which nobody holds locked and which is in the cache.\<close>

definition opened :: "'a filestate_scheme \<Rightarrow> nat \<Rightarrow> nat \<Rightarrow> bool" where
  "opened s f ip \<longleftrightarrow> f < length (ftable s) \<and> f_type (ftable s ! f) = FD_INODE \<and> f_ip (ftable s ! f) = Some ip \<and>
     1 \<le> i_ref (inodes s ! ip) \<and> \<not> i_busy (inodes s ! ip) \<and> i_valid (inodes s ! ip) \<and> i_type (inodes s ! ip) \<noteq> T_DEV"

lemma filewrite_ok:
  assumes op: "opened s f ip" "f_writable (ftable s ! f)"
    and fo: "on_file s ip dev a (unat (i_size (inodes s ! ip)))"
    and inum: "i_inum (inodes s ! ip) \<le> sb_ninodes (a_sb (adisk s dev))"
    and off: "unat (f_off (ftable s ! f)) \<le> unat (i_size (inodes s ! ip))"
      "unat (f_off (ftable s ! f)) + length src \<le> MAXFILE * BSIZE"
    and free: "2 * nblocks (unat (f_off (ftable s ! f))) (length src) \<le> nfree (adisk s dev)"
  defines "n \<equiv> unat (i_size (inodes s ! ip))" and "o0 \<equiv> unat (f_off (ftable s ! f))"
  shows "\<exists>s' a'. filewrite devw f src (int (length src)) s = Inr (WRet (int (length src)), s') \<and>
    opened s' f ip \<and> ftable s' = (ftable s)[f := (ftable s ! f)\<lparr>f_off := of_nat (o0 + length src)\<rparr>] \<and>
    unat (i_size (inodes s' ! ip)) = max n (o0 + length src) \<and>
    on_file s' ip dev a' (max n (o0 + length src)) \<and>
    contents (adisk s' dev) a' (max n (o0 + length src)) = patch (contents (adisk s dev) a n) o0 src"
proof -
  let ?x = "inodes s ! ip" and ?f = "ftable s ! f"
  have ip: "ip < length (inodes s)" and q: "quiet s"
    using fo idle_quiet(1) [of s dev] by (simp_all add: on_file_def)
  note o = op(1) [unfolded opened_def]
  let ?s1 = "upd_inode ip (\<lambda>x. x\<lparr>i_busy := True\<rparr>) s"
  have l: "ilock (Some ip) s = Inr ?s1" using ilock_valid [OF q] o ip by blast
  have x1: "inodes ?s1 ! ip = ?x\<lparr>i_busy := True\<rparr>" "adisk ?s1 = adisk s" "ftable ?s1 = ftable s"
    using ip by (simp_all add: upd_inode_def)
  have sz: "i_size (inodes ?s1 ! ip) = i_size ?x" "i_type (inodes ?s1 ! ip) = i_type ?x" "i_inum (inodes ?s1 ! ip) = i_inum ?x"
    using x1 by simp_all
  have f1: "on_file ?s1 ip dev a (unat (i_size (inodes ?s1 ! ip)))" using fo ip sz by simp
  have o1: "unat (f_off ?f) \<le> unat (i_size (inodes ?s1 ! ip))" "2 * nblocks (unat (f_off ?f)) (length src) \<le> nfree (adisk ?s1 dev)"
    "i_inum (inodes ?s1 ! ip) \<le> sb_ninodes (a_sb (adisk ?s1 dev))" "i_type (inodes ?s1 ! ip) \<noteq> T_DEV"
    using off free inum o sz x1(2) by simp_all
  let ?m = "max n (o0 + length src)"
  obtain s2 E a2 where W: "writei devw ip src (f_off ?f) (of_nat (length src)) ?s1 = Inr (int (length src), s2)"
    "inodes s2 = (inodes ?s1)[ip := (inodes ?s1 ! ip)\<lparr>i_addrs := a2, i_size := of_nat ?m\<rparr>]"
    "on_file s2 ip dev a2 ?m" "adisk s2 = (adisk ?s1)(dev := E)"
    "contents E a2 ?m = patch (contents (adisk s dev) a n) o0 src" "bstep (?s1\<lparr>inodes := inodes s2\<rparr>) s2"
    using writei_ok [OF f1 order_refl o1(4,3,1) off(2) o1(2), of devw] unfolding sz x1(2) n_def [symmetric] o0_def [symmetric]
    by blast
  have ft2: "ftable s2 = ftable s" using bstep_file [OF W(6)] x1 by simp
  have x2: "inodes s2 ! ip = ?x\<lparr>i_busy := True, i_addrs := a2, i_size := of_nat (max n (o0 + length src))\<rparr>"
    using W(2) x1(1) ip by simp
  have q2: "quiet s2" using idle_quiet(1) [of s2 dev] W(3) by (simp add: on_file_def)
  have ip2: "ip < length (inodes s2)" using W(3) by (simp add: on_file_def)
  let ?s3 = "if int (length src) > 0 then upd_file f (\<lambda>x. x\<lparr>f_off := f_off x + word_of_int (int (length src))\<rparr>) s2 else s2"
  let ?s4 = "wakeup1 (Chan ''inode'' ip) (upd_inode ip (\<lambda>x. x\<lparr>i_busy := False\<rparr>) ?s3)"
  have 3: "inodes ?s3 = inodes s2" "quiet ?s3" using q2 by simp_all
  have u: "iunlock (Some ip) ?s3 = Inr ?s4" using iunlock_ok [OF 3(2), of ip] 3(1) x2 o by simp
  have code: "filewrite devw f src (int (length src)) s = Inr (WRet (int (length src)), ?s4)"
    using o op(2) l W(1) u x1(3) unfolding filewrite_def Let_def by simp
  have un: "unat (of_nat ?m :: uint) = ?m" using on_file_size(1) [OF W(3)] by (intro unat_of_nat_uint) simp
  have ft4: "ftable ?s4 = (ftable s)[f := ?f\<lparr>f_off := of_nat (o0 + length src)\<rparr>]"
    using ft2 o by (auto simp: o0_def)
  have x4: "inodes ?s4 ! ip = ?x\<lparr>i_busy := False, i_addrs := a2, i_size := of_nat (max n (o0 + length src))\<rparr>"
    using x2 ip2 3(1) by simp
  have "on_file ?s3 ip dev a2 ?m" using W(3) by (cases "src = []") simp_all
  moreover have "adisk ?s3 dev = E" using W(4) by (simp add: upd_file_def)
  ultimately have of4: "on_file ?s4 ip dev a2 ?m" "adisk ?s4 dev = E" using ip2 3(1) by (simp_all only: on_file_wakeup1 on_file_busy wakeup1_adisk) (simp_all add: upd_inode_def)
  show ?thesis
    by (intro exI [of _ ?s4] exI [of _ a2] conjI)
      (use code ft4 x4 un of4 W(5) o in \<open>simp_all add: opened_def\<close>)
qed

lemma fileread_ok:
  assumes op: "opened s f ip" "f_readable (ftable s ! f)"
    and fo: "on_file s ip dev a (unat (i_size (inodes s ! ip)))"
    and off: "unat (f_off (ftable s ! f)) \<le> unat (i_size (inodes s ! ip))" "k < 2147483648"
  defines "m \<equiv> min k (unat (i_size (inodes s ! ip)) - unat (f_off (ftable s ! f)))"
  shows "\<exists>s'. fileread devr f (int k) s =
      Inr (RRet (int m) (slice (contents (adisk s dev) a (unat (i_size (inodes s ! ip)))) (unat (f_off (ftable s ! f))) m), s') \<and>
    ftable s' = (ftable s)[f := (ftable s ! f)\<lparr>f_off := f_off (ftable s ! f) + of_nat m\<rparr>] \<and>
    inodes s' = inodes s \<and> adisk s' = adisk s"
proof -
  let ?x = "inodes s ! ip" and ?f = "ftable s ! f"
  have ip: "ip < length (inodes s)" and q: "quiet s" using fo idle_quiet(1) [of s dev] by (simp_all add: on_file_def)
  note o = op(1) [unfolded opened_def]
  let ?s1 = "upd_inode ip (\<lambda>x. x\<lparr>i_busy := True\<rparr>) s"
  have l: "ilock (Some ip) s = Inr ?s1" using ilock_valid [OF q] o ip by blast
  have x1: "inodes ?s1 ! ip = ?x\<lparr>i_busy := True\<rparr>" "adisk ?s1 = adisk s" "ftable ?s1 = ftable s"
    using ip by (simp_all add: upd_inode_def)
  have sz: "i_size (inodes ?s1 ! ip) = i_size ?x" "i_type (inodes ?s1 ! ip) = i_type ?x" using x1 by simp_all
  have f1: "on_file ?s1 ip dev a (unat (i_size (inodes ?s1 ! ip)))" using fo ip sz by simp
  have k: "unat (of_nat k :: uint) = k" using off(2) by (intro unat_of_nat_uint) simp
  have "unat (f_off ?f) \<le> 71680" using off(1) on_file_size(1) [OF fo] by simp
  then have b: "unat (f_off ?f) + unat (of_nat k :: uint) < 2 ^ 32" using off(2) k by simp
  obtain s2 where R: "readi devr ip (f_off ?f) (of_nat k) ?s1 =
      Inr ((int m, slice (contents (adisk s dev) a (unat (i_size ?x))) (unat (f_off ?f)) m), s2)" "dstep dev (adisk s dev) ?s1 s2"
    using readi_ok [OF f1 _ _ b, of devr] o off(1) unfolding sz x1(2) k m_def by blast
  have i2: "inodes s2 = inodes ?s1" "adisk s2 = adisk s" using dstep_inodes [OF R(2)] dstepD(4) [OF R(2)] x1(2) by simp_all
  have ft2: "ftable s2 = ftable s" using bstep_file [OF dstepD(1) [OF R(2)]] x1 by simp
  have q2: "quiet s2" using idle_quiet(1) idle_dstep [OF _ R(2)] f1 by (auto simp: on_file_def)
  let ?s3 = "if int m > 0 then upd_file f (\<lambda>x. x\<lparr>f_off := f_off x + word_of_int (int m)\<rparr>) s2 else s2"
  let ?s4 = "wakeup1 (Chan ''inode'' ip) (upd_inode ip (\<lambda>x. x\<lparr>i_busy := False\<rparr>) ?s3)"
  have 3: "inodes ?s3 = inodes s2" "quiet ?s3" using q2 by simp_all
  have u: "iunlock (Some ip) ?s3 = Inr ?s4" using iunlock_ok [OF 3(2), of ip] 3(1) i2(1) x1(1) o by simp
  have "fileread devr f (int k) s =
      Inr (RRet (int m) (slice (contents (adisk s dev) a (unat (i_size ?x))) (unat (f_off ?f)) m), ?s4)"
    using o op(2) l R(1) u x1(3) unfolding fileread_def Let_def by simp
  moreover have "ftable ?s4 = (ftable s)[f := ?f\<lparr>f_off := f_off ?f + of_nat m\<rparr>]" using ft2 by simp
  moreover have "?x\<lparr>i_busy := False\<rparr> = ?x" using o by simp
  then have "inodes ?s4 = inodes s" using i2(1) 3(1) ip by (simp add: upd_inode_def)
  moreover have "adisk ?s3 = adisk s" using i2(2) by (simp add: upd_file_def)
  then have "adisk ?s4 = adisk s" by (simp only: wakeup1_adisk) (simp add: upd_inode_def)
  ultimately show ?thesis by blast
qed

text \<open>C27: data passes from one open file to another. Bytes written through file \<open>f\<close> are what a read
  of that many bytes through another file \<open>g\<close> of the same inode, positioned where \<open>f\<close> was, returns; both
  offsets advance past them, and the inode is left unlocked.\<close>

theorem filewrite_fileread:
  assumes "opened s f ip" and "f_writable (ftable s ! f)" and "opened s g ip" and "f_readable (ftable s ! g)" and "f \<noteq> g"
    and "f_off (ftable s ! g) = f_off (ftable s ! f)"
    and "on_file s ip dev a (unat (i_size (inodes s ! ip)))" and "i_inum (inodes s ! ip) \<le> sb_ninodes (a_sb (adisk s dev))"
    and "unat (f_off (ftable s ! f)) \<le> unat (i_size (inodes s ! ip))"
    and "unat (f_off (ftable s ! f)) + length src \<le> MAXFILE * BSIZE"
    and "2 * nblocks (unat (f_off (ftable s ! f))) (length src) \<le> nfree (adisk s dev)"
  shows "\<exists>s' s''. filewrite devw f src (int (length src)) s = Inr (WRet (int (length src)), s') \<and>
    fileread devr g (int (length src)) s' = Inr (RRet (int (length src)) src, s'') \<and> opened s'' f ip \<and> opened s'' g ip \<and>
    f_off (ftable s'' ! f) = f_off (ftable s ! f) + of_nat (length src) \<and> f_off (ftable s'' ! g) = f_off (ftable s'' ! f)"
proof -
  let ?o = "unat (f_off (ftable s ! f))"
  obtain s' a' where W: "filewrite devw f src (int (length src)) s = Inr (WRet (int (length src)), s')" "opened s' f ip"
    "ftable s' = (ftable s)[f := (ftable s ! f)\<lparr>f_off := of_nat (?o + length src)\<rparr>]"
    "unat (i_size (inodes s' ! ip)) = max (unat (i_size (inodes s ! ip))) (?o + length src)"
    "on_file s' ip dev a' (unat (i_size (inodes s' ! ip)))"
    "contents (adisk s' dev) a' (unat (i_size (inodes s' ! ip))) = patch (contents (adisk s dev) a (unat (i_size (inodes s ! ip)))) ?o src"
    using filewrite_ok [OF assms(1,2,7-11), of devw] by metis
  have g: "ftable s' ! g = ftable s ! g" "opened s' g ip" using W(2,3) assms(3,5) by (simp_all add: opened_def)
  have k: "length src < 2147483648" using assms(10) by (simp add: MAXFILE_bytes)
  have m: "min (length src) (unat (i_size (inodes s' ! ip)) - ?o) = length src" using W(4) by simp
  have rd: "f_readable (ftable s' ! g)" and le: "unat (f_off (ftable s' ! g)) \<le> unat (i_size (inodes s' ! ip))"
    using assms(4,6) W(4) by (simp_all add: g(1))
  obtain s'' where R: "fileread devr g (int (length src)) s' = Inr (RRet (int (length src))
        (slice (patch (contents (adisk s dev) a (unat (i_size (inodes s ! ip)))) ?o src) ?o (length src)), s'')"
    "ftable s'' = (ftable s')[g := (ftable s' ! g)\<lparr>f_off := f_off (ftable s' ! g) + of_nat (length src)\<rparr>]"
    "inodes s'' = inodes s'"
    using fileread_ok [OF g(2) rd W(5) le k, of devr] unfolding g(1) W(6) m assms(6) by blast
  have "slice (patch (contents (adisk s dev) a (unat (i_size (inodes s ! ip)))) ?o src) ?o (length src) = src"
    using assms(9) by (simp add: patch_def slice_def)
  moreover have "g < length (ftable s)" "f < length (ftable s)" using assms(1,3) by (simp_all add: opened_def)
  then have t: "ftable s'' ! f = (ftable s ! f)\<lparr>f_off := f_off (ftable s ! f) + of_nat (length src)\<rparr>"
    "ftable s'' ! g = (ftable s ! g)\<lparr>f_off := f_off (ftable s ! f) + of_nat (length src)\<rparr>" "length (ftable s'') = length (ftable s)"
    using R(2) W(3) g(1) assms(5,6) by simp_all
  moreover have "opened s'' f ip" "opened s'' g ip" using t R(3) W(2) g(2) assms(1,3) by (simp_all add: opened_def)
  ultimately show ?thesis using W(1) R(1) by auto
qed

section \<open>Pipes come and go\<close>

lemma free_list_cong:
  "free_list kend s ps \<Longrightarrow> pmem t = pmem s \<Longrightarrow> freelist t = freelist s \<Longrightarrow> quiet t \<Longrightarrow> free_list kend t ps"
  by (simp add: free_list_def)

lemma scan_files_Some: "scan_files k fs = Some i \<Longrightarrow> k \<le> i \<and> i < k + length fs \<and> f_ref (fs ! (i - k)) = 0"
  by (induction fs arbitrary: k) (fastforce simp: nth_Cons' split: if_splits)+

lemma filealloc_eq: "quiet s \<Longrightarrow> scan_files 0 (ftable s) = Some f \<Longrightarrow> filealloc s = Inr (Some f, upd_file f (\<lambda>x. x\<lparr>f_ref := 1\<rparr>) s)"
  by (simp add: filealloc_def)

lemma file_pmem [simp]:
  "pmem (upd_file f g s) = pmem s" "freelist (upd_file f g s) = freelist s" "quiet (s\<lparr>freelist := fl\<rparr>) = quiet s"
  "ftable (s\<lparr>freelist := fl\<rparr>) = ftable s" "pmem (set_pipe p x s) = pmem s" "freelist (set_pipe p x s) = freelist s"
  "ftable (set_pipe p y s) = ftable s" "pipes (set_pipe p x s) = (pipes s)(p \<mapsto> x)"
  "ftable (initlock l nm s) = ftable s" "pipes (initlock l nm s) = pipes s" "pmem (initlock l nm s) = pmem s" "freelist (initlock l nm s) = freelist s"
  "ftable (s\<lparr>pipes := P\<rparr>) = ftable s" "pmem (s\<lparr>pipes := P\<rparr>) = pmem s" "freelist (s\<lparr>pipes := P\<rparr>) = freelist s" "quiet (s\<lparr>pipes := P\<rparr>) = quiet s"
  by (simp_all add: upd_file_def set_pipe_def initlock_def quiet_def cpu_ok_def free_lock_def mycpu_def)

lemma pipeclose_first:
  assumes "quiet s" and "pipes s p = Some x" and "if w then pi_readopen x else pi_writeopen x"
  shows "pipeclose kend p w s = Inr (wakeup1 (if w then C_nread p else C_nwrite p) (set_pipe p (close_end w x) s))"
  using assms by (simp add: pipeclose_def wakeup_eq pipelock_def close_end_def Let_def split: if_splits)

lemma pipeclose_last:
  assumes "quiet s" and "pipes s p = Some x" and "\<not> (if w then pi_readopen x else pi_writeopen x)"
  shows "pipeclose kend p w s = kfree kend p
    ((wakeup1 (if w then C_nread p else C_nwrite p) (set_pipe p (close_end w x) s))\<lparr>pipes := (pipes s)(p := None)\<rparr>)"
  using assms by (simp add: pipeclose_def wakeup_eq pipelock_def close_end_def Let_def split: if_splits)

lemma fileclose_last:
  assumes "quiet s" and "f < length (ftable s)" and "f_ref (ftable s ! f) = 1" and "f_type (ftable s ! f) = FD_PIPE"
  shows "fileclose kend f s = pipeclose kend (f_pipe (ftable s ! f)) (f_writable (ftable s ! f))
    (upd_file f (\<lambda>x. x\<lparr>f_ref := 0, f_type := FD_NONE\<rparr>) s)"
  using assms by (simp add: fileclose_def Let_def upd_file_def)

text \<open>The two ends are closed one after the other.\<close>

lemma close_both:
  assumes "free_list kend s ps" and "pipes s p = Some (new_pipe d)" and "p \<noteq> 0" "page_ok kend p" "p \<notin> set ps"
    and "f < length (ftable s)" "g < length (ftable s)" "f \<noteq> g"
    and "f_ref (ftable s ! f) = 1 \<and> f_type (ftable s ! f) = FD_PIPE \<and> f_pipe (ftable s ! f) = p \<and> f_writable (ftable s ! f) = b"
    and "f_ref (ftable s ! g) = 1 \<and> f_type (ftable s ! g) = FD_PIPE \<and> f_pipe (ftable s ! g) = p \<and> f_writable (ftable s ! g) = (\<not> b)"
  shows "\<exists>s2 s3. fileclose kend f s = Inr s2 \<and> fileclose kend g s2 = Inr s3 \<and> free_list kend s3 (p # ps) \<and> pipes s3 p = None \<and>
    ftable s3 = (ftable s)[f := (ftable s ! f)\<lparr>f_ref := 0, f_type := FD_NONE\<rparr>, g := (ftable s ! g)\<lparr>f_ref := 0, f_type := FD_NONE\<rparr>]"
proof -
  let ?cl = "\<lambda>x :: ofile. x\<lparr>f_ref := 0, f_type := FD_NONE\<rparr>" and ?ch = "\<lambda>w. if w then C_nread p else C_nwrite p"
  let ?x = "new_pipe d"
  have q: "quiet s" using assms(1) by (simp add: free_list_def)
  define s1 where "s1 = upd_file f ?cl s"
  have 1: "quiet s1" "pipes s1 p = Some ?x" "free_list kend s1 ps" "ftable s1 = (ftable s)[f := ?cl (ftable s ! f)]"
    using q assms(1,2) by (simp_all add: s1_def free_list_def)
  define s2 where "s2 = wakeup1 (?ch b) (set_pipe p (close_end b ?x) s1)"
  have o1: "if b then pi_readopen ?x else pi_writeopen ?x" by (simp add: new_pipe_def)
  have c1: "fileclose kend f s = Inr s2"
    unfolding s2_def using fileclose_last [OF q assms(6), of kend, folded s1_def] assms(9) pipeclose_first [OF 1(1,2) o1, of kend] by metis
  have 2: "quiet s2" "pipes s2 p = Some (close_end b ?x)" "free_list kend s2 ps" "ftable s2 = ftable s1"
    using 1 by (simp_all add: s2_def free_list_def)
  define s3 where "s3 = upd_file g ?cl s2"
  have 3: "quiet s3" "pipes s3 p = Some (close_end b ?x)" "free_list kend s3 ps" "ftable s3 = (ftable s1)[g := ?cl (ftable s1 ! g)]"
    using 2 by (simp_all add: s3_def free_list_def)
  have o2: "\<not> (if \<not> b then pi_readopen (close_end b ?x) else pi_writeopen (close_end b ?x))" by (simp add: close_end_def)
  define s4 where "s4 = (wakeup1 (?ch (\<not> b)) (set_pipe p (close_end (\<not> b) (close_end b ?x)) s3))\<lparr>pipes := (pipes s3)(p := None)\<rparr>"
  have g2: "g < length (ftable s2)" "ftable s2 ! g = ftable s ! g" using 2(4) 1(4) assms(7,8) by simp_all
  have c2: "fileclose kend g s2 = kfree kend p s4"
    unfolding s4_def using fileclose_last [OF 2(1) g2(1), of kend, folded s3_def] assms(10) g2(2) pipeclose_last [OF 3(1,2) o2, of kend] by metis
  have 4: "free_list kend s4 ps" "quiet s4" "pipes s4 p = None" "ftable s4 = ftable s3" using 3 by (simp_all add: s4_def free_list_def)
  obtain s5 where k: "kfree kend p s4 = Inr s5" "free_list kend s5 (p # ps)"
    using kfree_free_list [OF 4(1) assms(4,5,3)] by blast
  have "pipes s5 = pipes s4 \<and> ftable s5 = ftable s4" using k(1) kfree_eq [OF 4(2) assms(4)] by auto
  with c1 c2 k 4 3(4) 1(4) assms(8) show ?thesis by (intro exI [of _ s2] exI [of _ s5]) simp
qed

text \<open>C28: pipes do not leak. With two free file slots and a free page, \<open>pipealloc\<close> makes an empty pipe
  in that page, open at both ends, with one file for each end. Closing first one file and then the other,
  in either order, gives the page back to the allocator and the slots back to the file table: the list of free pages and all reference counts are
  what they were.\<close>

theorem pipealloc_fileclose:
  assumes "free_list kend s (p # ps)" and "scan_files 0 (ftable s) = Some r"
    and "scan_files 0 ((ftable s)[r := (ftable s ! r)\<lparr>f_ref := 1\<rparr>]) = Some w"
    and "(f, g) = (if flip then (w, r) else (r, w))"
  shows "\<exists>s1 s2 s3. pipealloc kend s = Inr (Some (r, w), s1) \<and> r \<noteq> w \<and> pipes s1 p = Some (new_pipe (page_bytes p s)) \<and>
    fileclose kend f s1 = Inr s2 \<and> fileclose kend g s2 = Inr s3 \<and>
    free_list kend s3 (p # ps) \<and> pipes s3 p = None \<and> map f_ref (ftable s3) = map f_ref (ftable s)"
proof -
  have q: "quiet s" and fl: "freelist s = p" "p \<noteq> 0" "page_ok kend p" "p \<notin> set ps" using assms(1) by (auto simp: free_list_def)
  have r: "r < length (ftable s)" "f_ref (ftable s ! r) = 0" using scan_files_Some [OF assms(2)] by simp_all
  have w: "w < length (ftable s)" "w \<noteq> r" "f_ref (ftable s ! w) = 0"
    using scan_files_Some [OF assms(3)] r by (auto simp: nth_list_update split: if_splits)
  let ?one = "\<lambda>x. x\<lparr>f_ref := 1\<rparr>"
  let ?a = "(upd_file w ?one (upd_file r ?one s))\<lparr>freelist := load32 (pmem s) p\<rparr>"
  let ?s1 = "upd_file w (pipe_end p True) (upd_file r (pipe_end p False)
    (initlock (pipelock p) ''pipe'' (set_pipe p (new_pipe (page_bytes p ?a)) ?a)))"
  have pb: "page_bytes p ?a = page_bytes p s" by (simp add: page_bytes_def)
  have pa: "pipealloc kend s = Inr (Some (r, w), ?s1)"
    using q assms(2,3) fl r(1) w(1) by (simp add: pipealloc_def filealloc_eq kalloc_eq Let_def)
  define S where "S = ?s1"
  have q1: "quiet S" using q by (simp add: S_def)
  have p1: "pipes S p = Some (new_pipe (page_bytes p s))" using pb by (simp add: S_def)
  have m1: "free_list kend S ps" using assms(1) q1 by (simp add: free_list_def S_def)
  have t1: "ftable S = (ftable s)[r := pipe_end p False (?one (ftable s ! r)), w := pipe_end p True (?one (ftable s ! w))]"
    using r(1) w by (simp add: list_eq_iff_nth_eq nth_list_update S_def)
  have e: "f_ref (ftable S ! h) = 1 \<and> f_type (ftable S ! h) = FD_PIPE \<and> f_pipe (ftable S ! h) = p \<and>
      f_writable (ftable S ! h) = (h = w)" if "h \<in> {r, w}" for h
    using that r w unfolding t1 by (auto simp: pipe_end_def)
  have fg: "f < length (ftable S)" "g < length (ftable S)" "f \<noteq> g" "f \<in> {r, w}" "g \<in> {r, w}" "(g = w) = (f \<noteq> w)"
    using assms(4) r w unfolding t1 by (auto split: if_splits)
  obtain s2 s3 where c: "fileclose kend f S = Inr s2" "fileclose kend g s2 = Inr s3" "free_list kend s3 (p # ps)" "pipes s3 p = None"
    "ftable s3 = (ftable S)[f := (ftable S ! f)\<lparr>f_ref := 0, f_type := FD_NONE\<rparr>, g := (ftable S ! g)\<lparr>f_ref := 0, f_type := FD_NONE\<rparr>]"
    using close_both [OF m1 p1 fl(2-4) fg(1-3)] e [OF fg(4)] e [OF fg(5)] fg(6) by blast
  have "map f_ref (ftable s3) = map f_ref (ftable s)"
    using fg r w unfolding c(5) t1 by (auto simp: list_eq_iff_nth_eq nth_list_update)
  with pa p1 c w(2) show ?thesis unfolding S_def by (intro exI [of _ ?s1] exI [of _ s2] exI [of _ s3]) simp
qed

section \<open>On the small disk\<close>

definition open_end :: "bool \<Rightarrow> ofile" where
  "open_end w = \<lparr>f_type = FD_INODE, f_ref = 1, f_readable = \<not> w, f_writable = w, f_pipe = 0, f_ip = Some 0, f_off = 0\<rparr>"

definition boot_files :: filestate where
  "boot_files = boot_img 1000 \<lparr>inodes = [empty_file\<lparr>i_busy := False\<rparr>], ftable = [open_end True, open_end False], pipes = Map.empty\<rparr>"

lemma binit_loop_files: "inodes (binit_loop k b s) = inodes s" "ftable (binit_loop k b s) = ftable s"
  by (induction k arbitrary: b s) (simp_all add: Let_def upd_buf_def)

lemma boot_files_sel: "inodes boot_files = [empty_file\<lparr>i_busy := False\<rparr>]" "ftable boot_files = [open_end True, open_end False]"
  by (simp_all add: boot_files_def boot_img_def binit_def initlock_def Let_def binit_loop_files upd_buf_def boot_ext_def)

lemma boot_img_idle: "idle (boot_img 1000 m) 1"
  using boot_disk_ok [of "\<lambda>_. img 1000" m] boot_disk_good [of 0 "\<lambda>_. img 1000" m]
  by (auto simp: idle_def boot_img_def good_block_def)

lemma boot_files_file: "on_file boot_files 0 1 (replicate 13 0) 0"
  using boot_img_idle img_fs_ok empty_file_ok
  by (simp add: on_file_def boot_files_sel) (simp add: boot_files_def boot_img_adisk empty_file_def)

theorem filewrite_fileread_witness:
  "\<exists>s' s''. filewrite (\<lambda>_. None) 0 [104, 105] 2 boot_files = Inr (WRet 2, s') \<and>
    fileread (\<lambda>_. None) 1 2 s' = Inr (RRet 2 [104, 105], s'') \<and> f_off (ftable s'' ! 0) = 2 \<and> f_off (ftable s'' ! 1) = 2"
proof -
  have l: "length [104, 105 :: byte] = 2" by simp
  have h: "opened boot_files 0 0" "opened boot_files 1 0" "f_writable (ftable boot_files ! 0)" "f_readable (ftable boot_files ! 1)"
    "f_off (ftable boot_files ! 1) = f_off (ftable boot_files ! 0)" "f_off (ftable boot_files ! 0) = 0" "i_size (inodes boot_files ! 0) = 0"
    by (simp_all add: opened_def boot_files_sel open_end_def empty_file_def T_FILE_def T_DEV_def)
  have d: "i_inum (inodes boot_files ! 0) \<le> sb_ninodes (a_sb (adisk boot_files 1))"
    by (simp add: boot_files_sel, simp add: boot_files_def boot_img_adisk img_sb empty_file_def)
  have e: "2 * nblocks (unat (f_off (ftable boot_files ! 0))) (length [104, 105 :: byte]) \<le> nfree (adisk boot_files 1)"
    using img_nfree h(6) by (simp add: boot_files_def boot_img_adisk nblocks_def BSIZE_def)
  have f: "on_file boot_files 0 1 (replicate 13 0) (unat (i_size (inodes boot_files ! 0)))" using boot_files_file h(7) by simp
  have g: "unat (f_off (ftable boot_files ! 0)) \<le> unat (i_size (inodes boot_files ! 0))"
    "unat (f_off (ftable boot_files ! 0)) + length [104, 105 :: byte] \<le> MAXFILE * BSIZE"
    using h(6,7) by (simp_all add: MAXFILE_bytes)
  have n: "(0 :: nat) \<noteq> 1" by simp
  obtain s' s'' where "filewrite (\<lambda>_. None) 0 [104, 105] 2 boot_files = Inr (WRet 2, s')"
    "fileread (\<lambda>_. None) 1 2 s' = Inr (RRet 2 [104, 105], s'')" "f_off (ftable s'' ! 0) = 0 + 2" "f_off (ftable s'' ! 1) = f_off (ftable s'' ! 0)"
    using filewrite_fileread [OF h(1,3,2,4) n h(5) f d g e, of "\<lambda>_. None" "\<lambda>_. None"] unfolding l h(6) of_nat_numeral by blast
  then show ?thesis by auto
qed

definition boot_pages :: filestate where
  "boot_pages = boot_ext (\<lambda>_ _. []) \<lparr>inodes = [], ftable = replicate 3 ((open_end False)\<lparr>f_ref := 0\<rparr>), pipes = Map.empty\<rparr>"

theorem pipealloc_fileclose_witness:
  "\<exists>s1 s2 s3. pipealloc 0x100000 boot_pages = Inr (Some (0, 1), s1) \<and> fileclose 0x100000 0 s1 = Inr s2 \<and>
    fileclose 0x100000 1 s2 = Inr s3 \<and> freelist s3 = 0x200000"
proof -
  have fl: "free_list 0x100000 boot_pages [0x200000]"
    by (simp add: free_list_def boot_pages_def boot_ext_def quiet_def cpu_ok_def free_lock_def mycpu_def page_ok_def page_aligned_def
        PGSIZE_def PHYSTOP_def load32_def get32_def)
  have ft: "ftable boot_pages = [(open_end False)\<lparr>f_ref := 0\<rparr>, (open_end False)\<lparr>f_ref := 0\<rparr>, (open_end False)\<lparr>f_ref := 0\<rparr>]"
    by (simp add: boot_pages_def boot_ext_def numeral_3_eq_3)
  have s: "scan_files 0 (ftable boot_pages) = Some 0"
    "scan_files 0 ((ftable boot_pages)[0 := (ftable boot_pages ! 0)\<lparr>f_ref := 1\<rparr>]) = Some 1" by (simp_all add: ft)
  have "(0 :: nat, 1 :: nat) = (if False then (1, 0) else (0, 1))" by simp
  from pipealloc_fileclose [OF fl s this] show ?thesis by (auto simp: free_list_def)
qed

end
