(* ===== verification/Console.thy ===== *)
theory Console
  imports File Cstring
begin

unbundle bit_operations_syntax

text \<open>
  The console (\<^verbatim>\<open>console.c\<close>), the serial port (\<^verbatim>\<open>uart.c\<close>), the keyboard (\<^verbatim>\<open>kbd.c\<close>, \<^verbatim>\<open>kbd.h\<close>) and the process
  listing of \<^verbatim>\<open>proc.c\<close>.

  Characters are numbers: a byte, or 256 for \<open>BACKSPACE\<close>. \<open>crt\<close> is the text memory at 0xb8000 and \<open>crtreg\<close> the
  registers of the CRT controller, of which 14 and 15 hold the cursor. \<open>uart_rx\<close> and \<open>kbd_rx\<close> are the bytes
  the two devices have received and not yet delivered. The wait of \<open>uartputc\<close> for the transmitter is a bounded
  loop around \<open>microdelay\<close>, which is empty, and has no effect on the state.

  An argument of \<open>cprintf\<close> is a number or a string pointer. \<open>getc\<close> is called until it returns -1; the bound on
  the number of calls is an argument of \<open>consoleintr\<close>, and the two drivers pass one more than the number of bytes
  that are waiting.
\<close>

section \<open>State\<close>

record input_t =
  in_buf :: "byte list"
  in_r :: uint
  in_w :: uint
  in_e :: uint

record consstate = filestate +
  cons_locking :: bool
  panicked :: bool
  uart :: bool
  uart_rx :: "byte list"
  crt :: "ushort list"
  crtreg :: "nat \<Rightarrow> byte"
  input :: input_t
  kbd_rx :: "byte list"
  kbd_shift :: byte

definition BACKSPACE :: nat where "BACKSPACE = 0x100"
definition CRTPORT :: ushort where "CRTPORT = 0x3d4"
definition COM1 :: ushort where "COM1 = 0x3f8"
definition INPUT_BUF :: nat where "INPUT_BUF = 128"

section \<open>Output\<close>

definition uartputc :: "nat \<Rightarrow> 'a consstate_scheme \<Rightarrow> 'a consstate_scheme" where
  "uartputc c s = (if \<not> uart s then s else outb COM1 (of_nat c) s)"

definition crt_select :: "nat \<Rightarrow> 'a consstate_scheme \<Rightarrow> 'a consstate_scheme" where
  "crt_select r s = outb CRTPORT (of_nat r) s"

definition crt_put :: "nat \<Rightarrow> byte \<Rightarrow> 'a consstate_scheme \<Rightarrow> 'a consstate_scheme" where
  "crt_put r v s = (outb (CRTPORT + 1) v (crt_select r s))\<lparr>crtreg := (crtreg s)(r := v)\<rparr>"

definition set_cell :: "nat \<Rightarrow> ushort \<Rightarrow> 'a consstate_scheme \<Rightarrow> 'a consstate_scheme res" where
  "set_cell pos v s =
     (if pos < length (crt s) then Inr (s\<lparr>crt := (crt s)[pos := v]\<rparr>) else Inl (Wild ''crt''))"

text \<open>Scrolling moves 23 lines up by one and clears from the new position to the end of the 24th line.\<close>

definition scroll :: "nat \<Rightarrow> 'a consstate_scheme \<Rightarrow> (nat \<times> 'a consstate_scheme) res" where
  "scroll pos s =
     (if length (crt s) < 24 * 80 \<or> pos - 80 > 24 * 80 then Inl (Wild ''crt'')
      else
        let s = s\<lparr>crt := patch (crt s) 0 (slice (crt s) 80 (23 * 80))\<rparr>;
            pos = pos - 80
        in Inr (pos, s\<lparr>crt := patch (crt s) pos (replicate (24 * 80 - pos) 0)\<rparr>))"

definition cgaputc :: "nat \<Rightarrow> 'a consstate_scheme \<Rightarrow> 'a consstate_scheme res" where
  "cgaputc c s =
     (let s = crt_select 14 s;
          pos = unat (crtreg s 14) * 256;
          s = crt_select 15 s;
          pos = pos + unat (crtreg s 15)
      in andThen (if c = 10 then Inr (pos + (80 - pos mod 80), s)
                  else if c = BACKSPACE then Inr (pos - 1, s)
                  else andThen (set_cell pos (of_nat (c mod 256) OR 0x0700) s) (\<lambda>s. Inr (pos + 1, s))) (\<lambda>(pos, s).
         andThen (if pos div 80 \<ge> 24 then scroll pos s else Inr (pos, s)) (\<lambda>(pos, s).
         let s = crt_put 14 (of_nat (pos div 256)) s;
             s = crt_put 15 (of_nat pos) s
         in set_cell pos (0x20 OR 0x0700) s)))"

definition consputc :: "nat \<Rightarrow> 'a consstate_scheme \<Rightarrow> 'a consstate_scheme res" where
  "consputc c s =
     (if panicked s then Inl (Spins ''panicked'')
      else
        let s = (if c = BACKSPACE then uartputc 8 (uartputc 32 (uartputc 8 s)) else uartputc c s)
        in cgaputc c s)"

primrec consputs :: "byte list \<Rightarrow> 'a consstate_scheme \<Rightarrow> 'a consstate_scheme res" where
  "consputs [] s = Inr s"
| "consputs (c # cs) s = andThen (consputc (unat c) s) (\<lambda>s. consputs cs s)"

section \<open>Formatted output\<close>

definition digit_lower :: "uint \<Rightarrow> byte" where
  "digit_lower d = (if d < 10 then 48 + ucast d else 87 + ucast d)"

text \<open>The digits from the least significant one on; with a base below 2 the loop would not end.\<close>

function digits_rev :: "(uint \<Rightarrow> byte) \<Rightarrow> uint \<Rightarrow> uint \<Rightarrow> byte list" where
  "digits_rev digit base x =
     (if base < 2 then []
      else digit (x mod base) # (if x div base = 0 then [] else digits_rev digit base (x div base)))"
  by pat_completeness auto
termination
proof (relation "measure (\<lambda>(digit, base, x). unat x)")
  fix base x :: uint
  assume b: "\<not> base < 2" and d: "x div base \<noteq> 0"
  have "0 < unat x" using d by (metis div_0 unat_gt_0 word_neq_0_conv)
  moreover have "1 < unat base" using b by (simp add: word_less_nat_alt)
  ultimately show "((digit, base, x div base), digit, base, x) \<in> measure (\<lambda>(digit, base, x). unat x)" for digit
    by (simp add: unat_div)
qed auto

definition printint_buf :: "(uint \<Rightarrow> byte) \<Rightarrow> uint \<Rightarrow> uint \<Rightarrow> bool \<Rightarrow> byte list" where
  "printint_buf digit xx base sg =
     (let neg = (sg \<and> sint xx < 0);
          x = (if neg then - xx else xx)
      in digits_rev digit base x @ (if neg then [45] else []))"

definition printint :: "uint \<Rightarrow> uint \<Rightarrow> bool \<Rightarrow> 'a consstate_scheme \<Rightarrow> 'a consstate_scheme res" where
  "printint xx base sg s = consputs (rev (printint_buf digit_lower xx base sg)) s"

datatype carg = Num uint | Str "byte list option"

definition null_str :: "byte list" where "null_str = [40, 110, 117, 108, 108, 41, 0]"

fun cprintf_loop :: "byte list \<Rightarrow> carg list \<Rightarrow> 'a consstate_scheme \<Rightarrow> 'a consstate_scheme res" where
  "cprintf_loop [] args s = Inl (Wild ''fmt'')"
| "cprintf_loop (c # f) args s =
     (if c = 0 then Inr s
      else if c \<noteq> 37 then andThen (consputc (unat c) s) (\<lambda>s. cprintf_loop f args s)
      else case f of
        [] \<Rightarrow> Inl (Wild ''fmt'')
      | c # f \<Rightarrow>
          if c = 0 then Inr s
          else if c = 100 \<or> c = 120 \<or> c = 112
          then (case args of
                  Num x # args \<Rightarrow>
                    andThen (if c = 100 then printint x 10 True s else printint x 16 False s) (\<lambda>s. cprintf_loop f args s)
                | _ \<Rightarrow> Inl (Wild ''args''))
          else if c = 115
          then (case args of
                  Str p # args \<Rightarrow>
                    (let t = (case p of None \<Rightarrow> null_str | Some t \<Rightarrow> t) in
                     if 0 \<notin> set t then Inl (Wild ''str'')
                     else andThen (consputs (cstr t) s) (\<lambda>s. cprintf_loop f args s))
                | _ \<Rightarrow> Inl (Wild ''args''))
          else if c = 37 then andThen (consputc 37 s) (\<lambda>s. cprintf_loop f args s)
          else andThen (consputc 37 s) (\<lambda>s. andThen (consputc (unat c) s) (\<lambda>s. cprintf_loop f args s)))"

definition cprintf :: "byte list \<Rightarrow> carg list \<Rightarrow> 'a consstate_scheme \<Rightarrow> 'a consstate_scheme res" where
  "cprintf fmt args s =
     (let locking = cons_locking s in
      andThen (if locking then acquire L_cons s else Inr s) (\<lambda>s.
      andThen (cprintf_loop fmt args s) (\<lambda>s.
      if locking then release L_cons s else Inr s)))"

text \<open>A string literal of the source, with its final NUL.\<close>

definition lit :: "string \<Rightarrow> byte list" where
  "lit t = map of_char t @ [0]"

text \<open>What \<open>panic\<close> does before it loops forever; \<open>v\<close> is the address of its argument on the stack.\<close>

primrec print_pcs :: "uint list \<Rightarrow> 'a consstate_scheme \<Rightarrow> 'a consstate_scheme res" where
  "print_pcs [] s = Inr s"
| "print_pcs (x # xs) s = andThen (cprintf (lit '' %p'') [Num x] s) (\<lambda>s. print_pcs xs s)"

definition panic_report :: "byte list \<Rightarrow> uint \<Rightarrow> 'a consstate_scheme \<Rightarrow> 'a consstate_scheme res" where
  "panic_report msg v s =
     (let s = set_cpu ((mycpu s)\<lparr>ifl := False\<rparr>) s;
          s = s\<lparr>cons_locking := False\<rparr>
      in andThen (cprintf (lit ''cpu%d: panic: '') [Num (of_nat (cur s))] s) (\<lambda>s.
         andThen (cprintf msg [] s) (\<lambda>s.
         andThen (cprintf (lit ''\<newline>'') [] s) (\<lambda>s.
         andThen (print_pcs (getcallerpcs (load32 (pmem s)) v) s) (\<lambda>s.
         Inr (s\<lparr>panicked := True\<rparr>))))))"

section \<open>Process listing\<close>

definition state_name :: "procstate \<Rightarrow> byte list" where
  "state_name st = (case st of UNUSED \<Rightarrow> lit ''unused'' | EMBRYO \<Rightarrow> lit ''embryo'' | SLEEPING \<Rightarrow> lit ''sleep ''
     | RUNNABLE \<Rightarrow> lit ''runble'' | RUNNING \<Rightarrow> lit ''run   '' | ZOMBIE \<Rightarrow> lit ''zombie'')"

definition procdump_proc :: "proc \<Rightarrow> 'a consstate_scheme \<Rightarrow> 'a consstate_scheme res" where
  "procdump_proc p s =
     (if p_state p = UNUSED then Inr s
      else
        andThen (cprintf (lit ''%d %s %s'') [Num (word_of_int (p_pid p)), Str (Some (state_name (p_state p))), Str (Some (p_name p))] s) (\<lambda>s.
        andThen (if p_state p = SLEEPING
                 then print_pcs (takeWhile (\<lambda>x. x \<noteq> 0)
                        (getcallerpcs (load32 (pmem s)) (load32 (pmem s) (p_context p + 12) + 8))) s
                 else Inr s) (\<lambda>s.
        cprintf (lit ''\<newline>'') [] s)))"

primrec procdump_loop :: "proc list \<Rightarrow> 'a consstate_scheme \<Rightarrow> 'a consstate_scheme res" where
  "procdump_loop [] s = Inr s"
| "procdump_loop (p # ps) s = andThen (procdump_proc p s) (\<lambda>s. procdump_loop ps s)"

definition procdump :: "'a consstate_scheme \<Rightarrow> 'a consstate_scheme res" where
  "procdump s = procdump_loop (procs s) s"

section \<open>Input\<close>

definition upd_input :: "(input_t \<Rightarrow> input_t) \<Rightarrow> 'a consstate_scheme \<Rightarrow> 'a consstate_scheme" where
  "upd_input f s = s\<lparr>input := f (input s)\<rparr>"

definition in_at :: "uint \<Rightarrow> input_t \<Rightarrow> byte" where
  "in_at i x = in_buf x ! (unat i mod INPUT_BUF)"

definition C_input :: chan where "C_input = Chan ''input.r'' 0"

text \<open>Kill line: at most as many rounds as there are characters being edited.\<close>

primrec kill_line :: "nat \<Rightarrow> 'a consstate_scheme \<Rightarrow> 'a consstate_scheme res" where
  "kill_line 0 s = Inr s"
| "kill_line (Suc k) s =
     (if in_e (input s) \<noteq> in_w (input s) \<and> in_at (in_e (input s) - 1) (input s) \<noteq> 10
      then andThen (consputc BACKSPACE (upd_input (\<lambda>x. x\<lparr>in_e := in_e x - 1\<rparr>) s)) (\<lambda>s. kill_line k s)
      else Inr s)"

definition console_char :: "nat \<Rightarrow> 'a consstate_scheme \<Rightarrow> 'a consstate_scheme res" where
  "console_char c s =
     (if c = 0x10 then procdump s
      else if c = 0x15 then kill_line (unat (in_e (input s) - in_w (input s))) s
      else if c = 8 \<or> c = 0x7f
      then (if in_e (input s) \<noteq> in_w (input s)
            then consputc BACKSPACE (upd_input (\<lambda>x. x\<lparr>in_e := in_e x - 1\<rparr>) s) else Inr s)
      else if c \<noteq> 0 \<and> in_e (input s) - in_r (input s) < of_nat INPUT_BUF
      then
        let c = (if c = 13 then 10 else c);
            s = upd_input (\<lambda>x. x\<lparr>in_buf := (in_buf x)[unat (in_e x) mod INPUT_BUF := of_nat c], in_e := in_e x + 1\<rparr>) s
        in andThen (consputc c s) (\<lambda>s.
           if c = 10 \<or> c = 4 \<or> in_e (input s) = in_r (input s) + of_nat INPUT_BUF
           then wakeup C_input (upd_input (\<lambda>x. x\<lparr>in_w := in_e x\<rparr>) s)
           else Inr s)
      else Inr s)"

primrec consoleintr_loop ::
  "nat \<Rightarrow> ('a consstate_scheme \<Rightarrow> int \<times> 'a consstate_scheme) \<Rightarrow> 'a consstate_scheme \<Rightarrow> 'a consstate_scheme res" where
  "consoleintr_loop 0 getc s = Inl (Spins ''consoleintr'')"
| "consoleintr_loop (Suc k) getc s =
     (case getc s of (c, s) \<Rightarrow>
        if c \<ge> 0 then andThen (console_char (nat c) s) (\<lambda>s. consoleintr_loop k getc s) else Inr s)"

definition consoleintr ::
  "nat \<Rightarrow> ('a consstate_scheme \<Rightarrow> int \<times> 'a consstate_scheme) \<Rightarrow> 'a consstate_scheme \<Rightarrow> 'a consstate_scheme res" where
  "consoleintr k getc s =
     andThen (acquire L_input s) (\<lambda>s.
     andThen (consoleintr_loop k getc s) (\<lambda>s. release L_input s))"

section \<open>The console device\<close>

text \<open>The loop of \<open>consoleread\<close> up to its end or the next sleep: the bytes stored, how many are still
  wanted, the input buffer, and whether it must sleep.\<close>

primrec consoleread_loop :: "nat \<Rightarrow> nat \<Rightarrow> input_t \<Rightarrow> byte list \<times> nat \<times> input_t \<times> bool" where
  "consoleread_loop 0 target x = ([], 0, x, False)"
| "consoleread_loop (Suc n) target x =
     (if in_r x = in_w x then ([], Suc n, x, True)
      else
        let c = in_at (in_r x) x;
            y = x\<lparr>in_r := in_r x + 1\<rparr>
        in if c = 4
           then ([], Suc n, if Suc n < target then y\<lparr>in_r := in_r y - 1\<rparr> else y, False)
           else if c = 10 then ([c], n, y, False)
           else case consoleread_loop n target y of (cs, m, z, wt) \<Rightarrow> (c # cs, m, z, wt))"

datatype cout = CRet int "byte list" | CSleep "byte list" nat bool

definition consoleread_cont :: "nat \<Rightarrow> nat \<Rightarrow> nat \<Rightarrow> 'a consstate_scheme \<Rightarrow> (cout \<times> 'a consstate_scheme) res" where
  "consoleread_cont ip n target s =
     (case consoleread_loop n target (input s) of (cs, m, x, wt) \<Rightarrow>
        let s = upd_input (\<lambda>_. x) s in
        if wt
        then
          if killed s
          then andThen (release L_input s) (\<lambda>s. andThen (ilock (Some ip) s) (\<lambda>s. Inr (CRet (- 1) cs, s)))
          else andThen (sleep_switch C_input (Some L_input) s) (\<lambda>(saved, s). Inr (CSleep cs m saved, s))
        else
          andThen (release L_input s) (\<lambda>s.
          andThen (ilock (Some ip) s) (\<lambda>s. Inr (CRet (int target - int m) cs, s))))"

definition consoleread :: "nat \<Rightarrow> int \<Rightarrow> 'a consstate_scheme \<Rightarrow> (cout \<times> 'a consstate_scheme) res" where
  "consoleread ip n s =
     andThen (iunlock (Some ip) s) (\<lambda>s.
     andThen (acquire L_input s) (\<lambda>s. consoleread_cont ip (nat n) (nat n) s))"

definition consoleread_resume ::
  "nat \<Rightarrow> nat \<Rightarrow> nat \<Rightarrow> bool \<Rightarrow> 'a consstate_scheme \<Rightarrow> (cout \<times> 'a consstate_scheme) res" where
  "consoleread_resume ip n target saved s =
     andThen (sleep_resume L_input saved s) (\<lambda>s. consoleread_cont ip n target s)"

definition consolewrite :: "nat \<Rightarrow> byte list \<Rightarrow> int \<Rightarrow> 'a consstate_scheme \<Rightarrow> (int \<times> 'a consstate_scheme) res" where
  "consolewrite ip buf n s =
     (if length buf < nat n then Inl (Wild ''consolewrite'')
      else
        andThen (iunlock (Some ip) s) (\<lambda>s.
        andThen (acquire L_cons s) (\<lambda>s.
        andThen (consputs (take (nat n) buf) s) (\<lambda>s.
        andThen (release L_cons s) (\<lambda>s.
        andThen (ilock (Some ip) s) (\<lambda>s. Inr (n, s)))))))"

text \<open>The entries of the device switch. A read that has to sleep is reported as such.\<close>

definition CONSOLE :: int where "CONSOLE = 1"

definition console_read :: "nat \<Rightarrow> uint \<Rightarrow> 'a consstate_scheme \<Rightarrow> ((int \<times> byte list) \<times> 'a consstate_scheme) res" where
  "console_read ip n s =
     andThen (consoleread ip (sint n) s) (\<lambda>(r, s).
     case r of CRet k cs \<Rightarrow> Inr ((k, cs), s) | CSleep cs m saved \<Rightarrow> Inl (Sleeps C_input))"

definition console_write :: "nat \<Rightarrow> byte list \<Rightarrow> uint \<Rightarrow> 'a consstate_scheme \<Rightarrow> (int \<times> 'a consstate_scheme) res" where
  "console_write ip buf n s = consolewrite ip buf (sint n) s"

definition consoleinit ::
  "'a consstate_scheme dev_read \<times> 'a consstate_scheme dev_write \<Rightarrow> 'a consstate_scheme \<Rightarrow>
   ('a consstate_scheme dev_read \<times> 'a consstate_scheme dev_write) \<times> 'a consstate_scheme" where
  "consoleinit devsw s =
     (let s = initlock L_cons ''console'' s;
          s = initlock L_input ''input'' s;
          devw = (snd devsw)(CONSOLE := Some console_write);
          devr = (fst devsw)(CONSOLE := Some console_read);
          s = s\<lparr>cons_locking := True\<rparr>;
          s = picenable IRQ_KBD s;
          s = ioapicenable IRQ_KBD 0 s
      in ((devr, devw), s))"

section \<open>The serial port\<close>

definition uartgetc :: "'a consstate_scheme \<Rightarrow> int \<times> 'a consstate_scheme" where
  "uartgetc s =
     (if \<not> uart s then (- 1, s)
      else case uart_rx s of [] \<Rightarrow> (- 1, s) | c # cs \<Rightarrow> (uint c, s\<lparr>uart_rx := cs\<rparr>))"

definition uartintr :: "'a consstate_scheme \<Rightarrow> 'a consstate_scheme res" where
  "uartintr s = consoleintr (Suc (length (uart_rx s))) uartgetc s"

text \<open>\<open>lsr_ok\<close> is whether the line status register reads as something else than 0xFF.\<close>

definition uartinit :: "bool \<Rightarrow> 'a consstate_scheme \<Rightarrow> 'a consstate_scheme" where
  "uartinit lsr_ok s =
     (let s = outb (COM1 + 2) 0 s;
          s = outb (COM1 + 3) 0x80 s;
          s = outb (COM1 + 0) (of_nat (115200 div 9600)) s;
          s = outb (COM1 + 1) 0 s;
          s = outb (COM1 + 3) 0x03 s;
          s = outb (COM1 + 4) 0 s;
          s = outb (COM1 + 1) 0x01 s
      in if \<not> lsr_ok then s
         else
           let s = s\<lparr>uart := True\<rparr>;
               s = s\<lparr>uart_rx := drop 1 (uart_rx s)\<rparr>;
               s = picenable IRQ_COM1 s;
               s = ioapicenable IRQ_COM1 0 s
           in fold (\<lambda>c. uartputc (of_char c)) ''xv6...\<newline>'' s)"

section \<open>The keyboard\<close>

definition KEY_SHIFT :: byte where "KEY_SHIFT = 1"
definition KEY_CTL :: byte where "KEY_CTL = 2"
definition KEY_CAPSLOCK :: byte where "KEY_CAPSLOCK = 8"
definition E0ESC :: byte where "E0ESC = 0x40"

text \<open>An array of 256 bytes given by its first elements and by designated ones; the rest is 0.\<close>

definition key_table :: "byte list \<Rightarrow> (nat \<times> byte) list \<Rightarrow> byte list" where
  "key_table xs ds = fold (\<lambda>(i, v) t. t[i := v]) ds (xs @ replicate (256 - length xs) 0)"

definition shiftcode :: "byte list" where
  "shiftcode = key_table
     []
     [(0x1D, 2), (0x2A, 1), (0x36, 1), (0x38, 4), (0x9D, 2), (0xB8, 4)]"

definition togglecode :: "byte list" where
  "togglecode = key_table
     []
     [(0x3A, 8), (0x45, 16), (0x46, 32)]"

definition normalmap :: "byte list" where
  "normalmap = key_table
     [0, 27, 49, 50, 51, 52, 53, 54, 55, 56, 57, 48, 45, 61, 8, 9,
      113, 119, 101, 114, 116, 121, 117, 105, 111, 112, 91, 93, 10, 0, 97, 115,
      100, 102, 103, 104, 106, 107, 108, 59, 39, 96, 0, 92, 122, 120, 99, 118,
      98, 110, 109, 44, 46, 47, 0, 42, 0, 32, 0, 0, 0, 0, 0, 0,
      0, 0, 0, 0, 0, 0, 0, 55, 56, 57, 45, 52, 53, 54, 43, 49,
      50, 51, 48, 46, 0, 0, 0, 0]
     [(0x9C, 10), (0xB5, 47), (0xC8, 0xe2), (0xD0, 0xe3), (0xC9, 0xe6), (0xD1, 0xe7), (0xCB, 0xe4), (0xCD, 0xe5), (0x97, 0xe0), (0xCF, 0xe1), (0xD2, 0xe8), (0xD3, 0xe9)]"

definition shiftmap :: "byte list" where
  "shiftmap = key_table
     [0, 27, 33, 64, 35, 36, 37, 94, 38, 42, 40, 41, 95, 43, 8, 9,
      81, 87, 69, 82, 84, 89, 85, 73, 79, 80, 123, 125, 10, 0, 65, 83,
      68, 70, 71, 72, 74, 75, 76, 58, 34, 126, 0, 124, 90, 88, 67, 86,
      66, 78, 77, 60, 62, 63, 0, 42, 0, 32, 0, 0, 0, 0, 0, 0,
      0, 0, 0, 0, 0, 0, 0, 55, 56, 57, 45, 52, 53, 54, 43, 49,
      50, 51, 48, 46, 0, 0, 0, 0]
     [(0x9C, 10), (0xB5, 47), (0xC8, 0xe2), (0xD0, 0xe3), (0xC9, 0xe6), (0xD1, 0xe7), (0xCB, 0xe4), (0xCD, 0xe5), (0x97, 0xe0), (0xCF, 0xe1), (0xD2, 0xe8), (0xD3, 0xe9)]"

definition ctlmap :: "byte list" where
  "ctlmap = key_table
     [0, 0, 0, 0, 0, 0, 0, 0, 0, 0, 0, 0, 0, 0, 0, 0,
      17, 23, 5, 18, 20, 25, 21, 9, 15, 16, 0, 0, 13, 0, 1, 19,
      4, 6, 7, 8, 10, 11, 12, 0, 0, 0, 0, 28, 26, 24, 3, 22,
      2, 14, 13, 0, 0, 239, 0, 0]
     [(0x9C, 13), (0xB5, 0xef), (0xC8, 0xe2), (0xD0, 0xe3), (0xC9, 0xe6), (0xD1, 0xe7), (0xCB, 0xe4), (0xCD, 0xe5), (0x97, 0xe0), (0xCF, 0xe1), (0xD2, 0xe8), (0xD3, 0xe9)]"

definition charcode :: "byte \<Rightarrow> byte list" where
  "charcode i = (if i = 0 then normalmap else if i = 1 then shiftmap else ctlmap)"

definition caps :: "byte \<Rightarrow> byte" where
  "caps c = (if 97 \<le> c \<and> c \<le> 122 then c - 32 else if 65 \<le> c \<and> c \<le> 90 then c + 32 else c)"

definition kbdgetc :: "'a consstate_scheme \<Rightarrow> int \<times> 'a consstate_scheme" where
  "kbdgetc s =
     (case kbd_rx s of
        [] \<Rightarrow> (- 1, s)
      | data # rest \<Rightarrow>
          let s = s\<lparr>kbd_rx := rest\<rparr>;
              shift = kbd_shift s
          in if data = 0xE0 then (0, s\<lparr>kbd_shift := shift OR E0ESC\<rparr>)
             else if data AND 0x80 \<noteq> 0
             then
               let data = (if shift AND E0ESC \<noteq> 0 then data else data AND 0x7F)
               in (0, s\<lparr>kbd_shift := shift AND NOT (shiftcode ! unat data OR E0ESC)\<rparr>)
             else
               let (data, shift) = (if shift AND E0ESC \<noteq> 0 then (data OR 0x80, shift AND NOT E0ESC) else (data, shift));
                   shift = shift OR shiftcode ! unat data;
                   shift = shift XOR togglecode ! unat data;
                   c = charcode (shift AND (KEY_CTL OR KEY_SHIFT)) ! unat data;
                   c = (if shift AND KEY_CAPSLOCK \<noteq> 0 then caps c else c)
               in (uint c, s\<lparr>kbd_shift := shift\<rparr>))"

definition kbdintr :: "'a consstate_scheme \<Rightarrow> 'a consstate_scheme res" where
  "kbdintr s = consoleintr (Suc (length (kbd_rx s))) kbdgetc s"

end
