(* ===== verification/ConsoleOk.thy ===== *)
theory ConsoleOk
  imports Console
begin

unbundle bit_operations_syntax

text \<open>
  The console is correct: output stays on the screen, numbers are printed in full and within the buffer, and
  the input buffer is a line editor.
\<close>

section \<open>The screen\<close>

definition cursor :: "'a consstate_scheme \<Rightarrow> nat" where
  "cursor s = unat (crtreg s 14) * 256 + unat (crtreg s 15)"

text \<open>The text memory has at least 24 lines and the cursor is in them.\<close>

definition screen_ok :: "'a consstate_scheme \<Rightarrow> bool" where
  "screen_ok s \<longleftrightarrow> 24 * 80 \<le> length (crt s) \<and> cursor s < 24 * 80"

text \<open>A routine that writes to the screen and the serial line only.\<close>

definition outstep :: "'a consstate_scheme \<Rightarrow> 'a consstate_scheme \<Rightarrow> bool" where
  "outstep s s' \<longleftrightarrow> (\<exists>p c r. s' = s\<lparr>pio := p, crt := c, crtreg := r\<rparr> \<and> length c = length (crt s) \<and>
     (\<forall>i\<ge>24 * 80. i < length c \<longrightarrow> c ! i = crt s ! i)) \<and> (screen_ok s \<longrightarrow> screen_ok s')"

lemma outstep_pio [intro]: "outstep s (s\<lparr>pio := p\<rparr>)"
  unfolding outstep_def screen_ok_def cursor_def
  by (rule conjI, rule exI [of _ p], rule exI [of _ "crt s"], rule exI [of _ "crtreg s"]) simp_all

lemma outstep_trans:
  assumes "outstep s s1" and "outstep s1 s2"
  shows "outstep s s2"
proof -
  from assms obtain p c r p' c' r' where
    1: "s1 = s\<lparr>pio := p, crt := c, crtreg := r\<rparr>" "length c = length (crt s)" "\<forall>i\<ge>24 * 80. i < length c \<longrightarrow> c ! i = crt s ! i"
    and 2: "s2 = s1\<lparr>pio := p', crt := c', crtreg := r'\<rparr>" "length c' = length (crt s1)" "\<forall>i\<ge>24 * 80. i < length c' \<longrightarrow> c' ! i = crt s1 ! i"
    and ok: "screen_ok s \<longrightarrow> screen_ok s2"
    unfolding outstep_def by blast
  have "s2 = s\<lparr>pio := p', crt := c', crtreg := r'\<rparr>" "length c' = length (crt s)" "\<forall>i\<ge>24 * 80. i < length c' \<longrightarrow> c' ! i = crt s ! i"
    using 1 2 by simp_all
  with ok show ?thesis unfolding outstep_def by blast
qed

lemma unat_byte: "n < 256 \<Longrightarrow> unat (of_nat n :: byte) = n"
  by (simp add: unat_of_nat)

lemma crt_select_sel [simp]: "crtreg (crt_select r s) = crtreg s" "crt (crt_select r s) = crt s"
  by (simp_all add: crt_select_def outb_def)

lemma cursor_crt_select [simp]: "cursor (crt_select r s) = cursor s"
  by (simp add: cursor_def)

lemma next_line: "p < 1920 \<Longrightarrow> p + (80 - p mod 80) \<le> (1920 :: nat)"
proof -
  assume "p < 1920"
  then have "p div 80 < 24" by simp
  moreover have "p = 80 * (p div 80) + p mod 80" by simp
  moreover have "p mod 80 + (80 - p mod 80) = 80" by simp
  ultimately show ?thesis by linarith
qed

lemma cgaputc_ok:
  assumes "screen_ok s"
  shows "\<exists>s'. cgaputc c s = Inr s' \<and> outstep s s'"
proof -
  let ?p = "cursor s" and ?L = "length (crt s)"
  have p: "?p < 1920" "1920 \<le> ?L" using assms by (simp_all add: screen_ok_def)
  define s0 where "s0 = crt_select 15 (crt_select 14 s)"
  have s0: "crt s0 = crt s" "crtreg s0 = crtreg s" "s0\<lparr>pio := q, crt := x, crtreg := r\<rparr> = s\<lparr>pio := q, crt := x, crtreg := r\<rparr>" for q x r
    by (simp_all add: s0_def crt_select_def outb_def)
  define q c1 where "q = (if c = 10 then ?p + (80 - ?p mod 80) else if c = BACKSPACE then ?p - 1 else ?p + 1)"
    and "c1 = (if c = 10 \<or> c = BACKSPACE then crt s else (crt s)[?p := of_nat (c mod 256) OR 0x0700])"
  have c1: "length c1 = ?L" "\<And>i. 1920 \<le> i \<Longrightarrow> c1 ! i = crt s ! i" using p by (auto simp: c1_def)
  have q: "q \<le> 1920" using p next_line [OF p(1)] by (auto simp: q_def)
  have step1: "(if c = 10 then Inr (?p + (80 - ?p mod 80), s0)
      else if c = BACKSPACE then Inr (?p - 1, s0)
      else andThen (set_cell ?p (of_nat (c mod 256) OR 0x0700) s0) (\<lambda>s. Inr (?p + 1, s))) = (Inr (q, s0\<lparr>crt := c1\<rparr>) :: (nat \<times> 'a consstate_scheme) res)"
    using p by (auto simp: q_def c1_def set_cell_def s0(1) [symmetric])
  define q2 c2 where "q2 = (if 24 \<le> q div 80 then q - 80 else q)"
    and "c2 = (if 24 \<le> q div 80 then patch (patch c1 0 (slice c1 80 (23 * 80))) (q - 80) (replicate (24 * 80 - (q - 80)) 0) else c1)"
  have full: "24 \<le> q div 80 \<longleftrightarrow> q = 1920" using q by auto
  have q2: "q2 < 1920" using q full by (auto simp: q2_def)
  have lc2: "length c2 = ?L" using c1 p(2) full by (auto simp: c2_def patch_def slice_def)
  have c2: "c2 ! i = crt s ! i" if "1920 \<le> i" "i < ?L" for i
    using that c1 p(2) full by (auto simp: c2_def patch_def slice_def nth_append min_def)
  have step2: "(if 24 \<le> q div 80 then scroll q (s0\<lparr>crt := c1\<rparr>) else Inr (q, s0\<lparr>crt := c1\<rparr>)) = Inr (q2, s0\<lparr>crt := c2\<rparr>)"
    using c1(1) p(2) full by (auto simp: scroll_def q2_def c2_def Let_def)
  let ?s3 = "crt_put 15 (of_nat q2) (crt_put 14 (of_nat (q2 div 256)) (s0\<lparr>crt := c2\<rparr>))"
  let ?s4 = "?s3\<lparr>crt := c2[q2 := 0x20 OR 0x0700]\<rparr>"
  have code: "cgaputc c s = Inr ?s4"
  proof -
    have "set_cell q2 (0x20 OR 0x0700) ?s3 = Inr ?s4"
      using q2 p(2) lc2 by (simp add: set_cell_def crt_put_def crt_select_def outb_def)
    then show ?thesis
      unfolding cgaputc_def Let_def crt_select_sel cursor_def [symmetric] cursor_crt_select s0_def [symmetric] step1 andThen_Inr prod.case step2 .
  qed
  have "unat (of_nat (q2 div 256) :: byte) * 256 + unat (of_nat q2 :: byte) = q2"
    using q2 by (simp add: unat_of_nat)
  then have cur: "cursor ?s4 = q2" by (simp add: cursor_def crt_put_def crt_select_def outb_def)
  have "outstep s ?s4"
    unfolding outstep_def screen_ok_def cur
  proof (intro conjI impI)
    show "\<exists>p c r. ?s4 = s\<lparr>pio := p, crt := c, crtreg := r\<rparr> \<and> length c = length (crt s) \<and> (\<forall>i\<ge>24 * 80. i < length c \<longrightarrow> c ! i = crt s ! i)"
      using lc2 c2 q2 by (intro exI [of _ "pio ?s4"] exI [of _ "c2[q2 := 0x20 OR 0x0700]"] exI [of _ "crtreg ?s4"])
        (simp add: crt_put_def crt_select_def outb_def s0_def)
  qed (use p q2 lc2 in \<open>simp_all\<close>)
  with code show ?thesis by blast
qed

lemma outstep_uart: "outstep s (uartputc c s)"
  by (cases "uart s") (auto simp: uartputc_def outb_def intro: outstep_pio [of s "pio s", simplified])

lemma outstepD:
  assumes "outstep s s'"
  shows "screen_ok s \<Longrightarrow> screen_ok s'" "panicked s' = panicked s" "input s' = input s" "uart_rx s' = uart_rx s" "kbd_rx s' = kbd_rx s"
    "uart s' = uart s" "length (crt s') = length (crt s)" "24 * 80 \<le> i \<Longrightarrow> i < length (crt s) \<Longrightarrow> crt s' ! i = crt s ! i"
    "ftable s' = ftable s" "procs s' = procs s" "locks s' = locks s" "cpus s' = cpus s" "cur s' = cur s"
  using assms unfolding outstep_def by auto

lemma consputc_ok:
  assumes "screen_ok s" and "\<not> panicked s"
  shows "\<exists>s'. consputc c s = Inr s' \<and> outstep s s'"
proof -
  define s1 where "s1 = (if c = BACKSPACE then uartputc 8 (uartputc 32 (uartputc 8 s)) else uartputc c s)"
  have "outstep s (uartputc 8 (uartputc 32 (uartputc 8 s)))" "outstep s (uartputc c s)"
    using outstep_uart outstep_trans by blast+
  then have 1: "outstep s s1" by (simp add: s1_def)
  obtain s' where "cgaputc c s1 = Inr s'" "outstep s1 s'" using cgaputc_ok [OF outstepD(1) [OF 1 assms(1)]] by blast
  then show ?thesis using assms(2) outstep_trans [OF 1] unfolding consputc_def Let_def s1_def [symmetric] by auto
qed

lemma consputs_ok:
  "screen_ok s \<Longrightarrow> \<not> panicked s \<Longrightarrow> \<exists>s'. consputs cs s = Inr s' \<and> outstep s s'"
proof (induction cs arbitrary: s)
  case Nil
  then show ?case using outstep_pio [of s "pio s"] by auto
next
  case (Cons c cs)
  obtain s1 where 1: "consputc (unat c) s = Inr s1" "outstep s s1" using consputc_ok [OF Cons.prems] by blast
  then obtain s2 where "consputs cs s1 = Inr s2" "outstep s1 s2"
    using Cons.IH [of s1] Cons.prems outstepD(1,2) [OF 1(2)] by auto
  then show ?case using 1 outstep_trans [OF 1(2)] by auto
qed

text \<open>Whatever is written, console output stays in the 24 lines of the screen. From a cursor inside
  of them \<open>consputc\<close> returns with the cursor inside again, for every character, newline and backspace included,
  scrolling where needed, and does not touch the text memory behind the 24th line or anything else but the serial line.\<close>

theorem consputc_on_screen:
  assumes "screen_ok s" and "\<not> panicked s"
  shows "\<exists>s'. consputc c s = Inr s' \<and> cursor s' < 24 * 80 \<and> length (crt s') = length (crt s) \<and>
    (\<forall>i<length (crt s). 24 * 80 \<le> i \<longrightarrow> crt s' ! i = crt s ! i) \<and>
    s'\<lparr>pio := pio s, crt := crt s, crtreg := crtreg s\<rparr> = s"
proof -
  obtain s' where 1: "consputc c s = Inr s'" "outstep s s'" using consputc_ok [OF assms] by blast
  have "screen_ok s'" using outstepD(1) [OF 1(2) assms(1)] .
  moreover have "s'\<lparr>pio := pio s, crt := crt s, crtreg := crtreg s\<rparr> = s" using 1(2) by (auto simp: outstep_def)
  ultimately show ?thesis using 1 outstepD(7,8) [OF 1(2)] by (auto simp: screen_ok_def)
qed

section \<open>Numbers\<close>

declare digits_rev.simps [simp del]

text \<open>Reading a number back: the value of a digit character, of a sequence of them, and with the sign.\<close>

definition undigit :: "byte \<Rightarrow> nat" where
  "undigit b = (if b < 58 then unat b - 48 else unat b - (if b < 97 then 55 else 87))"

definition read_num :: "nat \<Rightarrow> byte list \<Rightarrow> nat" where
  "read_num base cs = foldl (\<lambda>a b. a * base + undigit b) 0 cs"

definition read_int :: "nat \<Rightarrow> byte list \<Rightarrow> int" where
  "read_int base cs = (case cs of c # r \<Rightarrow> if c = 45 then - int (read_num base r) else int (read_num base cs) | [] \<Rightarrow> 0)"

definition good_digits :: "(uint \<Rightarrow> byte) \<Rightarrow> bool" where
  "good_digits digit \<longleftrightarrow> (\<forall>d<16. undigit (digit d) = unat d \<and> digit d \<noteq> 45)"

lemma sint_cases: "sint (x :: uint) = (if uint x < 2147483648 then uint x else uint x - 4294967296)"
proof -
  have r: "0 \<le> uint x" "uint x < 4294967296" using uint_lt2p [of x] by simp_all
  have "signed_take_bit 31 (uint x) = signed_take_bit 31 (uint x - 4294967296)"
    by (simp add: signed_take_bit_eq_iff_take_bit_eq take_bit_eq_mod)
  moreover have "signed_take_bit 31 (uint x - 4294967296) = uint x - 4294967296" if "\<not> uint x < 2147483648"
    using that r by (intro signed_take_bit_int_eq_self) simp_all
  moreover have "signed_take_bit 31 (uint x) = uint x" if "uint x < 2147483648"
    using that order_trans [OF _ r(1), of "- 2147483648"] by (intro signed_take_bit_int_eq_self) simp_all
  ultimately show ?thesis by (auto simp: sint_uint)
qed

lemma sint_pos_unat: "\<not> sint (x :: uint) < 0 \<Longrightarrow> sint x = int (unat x)"
  using uint_lt2p [of x] by (auto simp: sint_cases split: if_splits)

lemma sint_neg_unat:
  assumes "sint (x :: uint) < 0"
  shows "- int (unat (- x)) = sint x"
proof -
  have u: "\<not> uint x < 2147483648" using assms by (simp add: sint_cases split: if_splits)
  have "uint (- x) = 4294967296 - uint x" using u uint_lt2p [of x] by (simp add: uint_word_ariths zmod_zminus1_eq_if)
  then show ?thesis using u by (simp add: sint_cases)
qed

lemma read_digits:
  assumes "good_digits digit" and "2 \<le> base" and "base \<le> 16"
  shows "read_num (unat base) (rev (digits_rev digit base x)) = unat x"
  using assms
proof (induction digit base x rule: digits_rev.induct)
  case (1 digit base x)
  have b: "\<not> base < 2" "0 < unat base" using 1(3) by (auto simp: word_less_nat_alt word_le_nat_alt)
  have "unat (x mod base) < 16" using b(2) 1(4) by (simp add: unat_mod word_le_nat_alt order_less_le_trans [OF mod_less_divisor])
  then have "x mod base < 16" by (simp add: word_less_nat_alt)
  then have d: "undigit (digit (x mod base)) = unat x mod unat base" using 1(2) by (simp add: good_digits_def unat_mod)
  show ?case
  proof (cases "x div base = 0")
    case True
    then have "unat x div unat base = 0" by (metis unat_0 unat_div)
    then have "unat x mod unat base = unat x" by (metis div_mult_mod_eq add_0 mult_0)
    then show ?thesis using True b d by (subst digits_rev.simps) (simp add: read_num_def)
  next
    case False
    then have "read_num (unat base) (rev (digits_rev digit base (x div base))) = unat (x div base)" using 1 b by blast
    then show ?thesis using False b d by (subst digits_rev.simps) (simp add: read_num_def unat_div)
  qed
qed

lemma digits_rev_digits:
  assumes "good_digits digit" and "2 \<le> base" and "base \<le> 16"
  shows "digits_rev digit base x \<noteq> [] \<and> 45 \<notin> set (digits_rev digit base x)"
  using assms
proof (induction digit base x rule: digits_rev.induct)
  case (1 digit base x)
  have b: "\<not> base < 2" "0 < unat base" using 1(3) by (auto simp: word_less_nat_alt word_le_nat_alt)
  have "unat (x mod base) < 16" using b(2) 1(4) by (simp add: unat_mod word_le_nat_alt order_less_le_trans [OF mod_less_divisor])
  then have "digit (x mod base) \<noteq> 45" using 1(2) by (simp add: good_digits_def word_less_nat_alt)
  then show ?case using 1 b by (subst (1 2) digits_rev.simps) auto
qed

lemma length_digits_rev:
  "2 \<le> base \<Longrightarrow> unat x < unat base ^ n \<Longrightarrow> 0 < n \<Longrightarrow> length (digits_rev digit base x) \<le> n"
proof (induction n arbitrary: x)
  case (Suc n)
  have b: "\<not> base < 2" "0 < unat base" using Suc.prems(1) by (auto simp: word_less_nat_alt word_le_nat_alt)
  show ?case
  proof (cases "x div base = 0")
    case True
    then show ?thesis using b by (subst digits_rev.simps) simp
  next
    case False
    have lt: "unat (x div base) < unat base ^ n"
      using Suc.prems(2) b(2) by (simp add: unat_div less_mult_imp_div_less mult.commute)
    have "n \<noteq> 0" using lt False by (metis less_one power_0 unat_eq_zero)
    then have "length (digits_rev digit base (x div base)) \<le> n" using Suc.IH [OF Suc.prems(1) lt] by simp
    then show ?thesis using b by (subst digits_rev.simps) simp
  qed
qed simp

lemma printint_buf_ok:
  assumes "good_digits digit" and "base = 10 \<or> base = 16"
  shows "read_int (unat base) (rev (printint_buf digit xx base sg)) = (if sg then sint xx else uint xx) \<and>
    length (printint_buf digit xx base sg) \<le> 11"
proof -
  have b: "2 \<le> base" "base \<le> 16" using assms(2) by auto
  have read: "read_int (unat base) (rev (digits_rev digit base x)) = int (unat x)" for x
  proof -
    have "45 \<notin> set (rev (digits_rev digit base x))" "rev (digits_rev digit base x) \<noteq> []"
      using digits_rev_digits [OF assms(1) b] by simp_all
    then show ?thesis
      using read_digits [OF assms(1) b, of x] by (auto simp: read_int_def split: list.splits)
  qed
  have "unat (x :: uint) < unat base ^ 10" for x using unat_uint_less [of x] assms(2) by (auto simp del: unat_uint_less)
  then have len: "length (digits_rev digit base x) \<le> 10" for x using length_digits_rev [OF b(1), of x 10 digit] by simp
  show ?thesis
  proof (cases "sg \<and> sint xx < 0")
    case True
    have "read_int (unat base) (rev (printint_buf digit xx base sg)) = - int (unat (- xx))"
      using True read_digits [OF assms(1) b, of "- xx"] by (simp add: printint_buf_def read_int_def)
    also have "\<dots> = sint xx" using True sint_neg_unat by simp
    finally show ?thesis using True len [of "- xx"] by (simp add: printint_buf_def)
  next
    case False
    then have "(if sg then sint xx else uint xx) = int (unat xx)" using sint_pos_unat [of xx] by auto
    then show ?thesis using False read [of xx] len [of xx] by (auto simp: printint_buf_def le_SucI)
  qed
qed

lemma good_digit_lower: "good_digits digit_lower"
  unfolding good_digits_def
proof (intro allI impI)
  fix d :: uint
  assume "d < 16"
  then have d: "unat d < 16" by (simp add: word_less_nat_alt)
  have u: "unat (ucast d :: byte) = unat d" using d by (simp add: unsigned_ucast_eq take_bit_nat_eq_self)
  show "undigit (digit_lower d) = unat d \<and> digit_lower d \<noteq> 45"
    using d u by (auto simp: digit_lower_def undigit_def word_less_nat_alt unat_word_ariths word_unat_eq_iff)
qed

text \<open>\<open>printint\<close> prints the number. Read back as a numeral, the characters it puts out are the signed value
  of its argument, or the unsigned value when \<open>sign\<close> is 0, also for the smallest integer; and there are at most 11
  of them, so the 16 bytes of its buffer suffice.\<close>

theorem printint_prints:
  assumes "base = 10 \<or> base = 16"
  shows "read_int (unat base) (rev (printint_buf digit_lower xx base sg)) = (if sg then sint xx else uint xx) \<and>
    length (printint_buf digit_lower xx base sg) \<le> 11"
  using printint_buf_ok [OF good_digit_lower assms] by blast

section \<open>The line editor\<close>

interpretation ir: ring_size INPUT_BUF
  by unfold_locales (simp_all add: INPUT_BUF_def)

text \<open>What the input buffer stands for: the characters ready to be read, and the line being edited.\<close>

definition in_abs :: "input_t \<Rightarrow> byte list \<times> byte list" where
  "in_abs x = (ring_queue INPUT_BUF (in_buf x) (in_r x) (in_w x), ring_queue INPUT_BUF (in_buf x) (in_w x) (in_e x))"

definition input_ok :: "input_t \<Rightarrow> bool" where
  "input_ok x \<longleftrightarrow> length (in_buf x) = INPUT_BUF \<and> length (fst (in_abs x)) + length (snd (in_abs x)) \<le> INPUT_BUF \<and>
     10 \<notin> set (snd (in_abs x))"

definition commits :: "nat \<Rightarrow> nat \<Rightarrow> bool" where
  "commits c n \<longleftrightarrow> c = 10 \<or> c = 4 \<or> n = INPUT_BUF"

text \<open>The specification: a character is added to the line, a backspace takes the last one away and ^U all of them;
  a newline, ^D or the 128th character makes the line ready.\<close>

definition ed_char :: "nat \<Rightarrow> byte list \<times> byte list \<Rightarrow> byte list \<times> byte list" where
  "ed_char c = (\<lambda>(q, l).
     if c = 0x15 then (q, [])
     else if c = 8 \<or> c = 0x7f then (q, butlast l)
     else if c \<noteq> 0 \<and> length q + length l < INPUT_BUF
     then
       let c = (if c = 13 then 10 else c); l = l @ [of_nat c]
       in if commits c (length q + length l) then (q @ l, []) else (q, l)
     else (q, l))"

lemma in_abs_room:
  assumes "input_ok x"
  shows "in_e x - in_r x < of_nat INPUT_BUF \<longleftrightarrow> length (fst (in_abs x)) + length (snd (in_abs x)) < INPUT_BUF"
    "unat (in_e x - in_r x) = length (fst (in_abs x)) + length (snd (in_abs x))"
    "in_e x = in_r x + of_nat INPUT_BUF \<longleftrightarrow> length (fst (in_abs x)) + length (snd (in_abs x)) = INPUT_BUF"
    "fst (in_abs x) @ snd (in_abs x) = ring_queue INPUT_BUF (in_buf x) (in_r x) (in_e x)"
proof -
  have l: "unat (in_w x - in_r x) + unat (in_e x - in_w x) \<le> 128" using assms by (simp add: input_ok_def in_abs_def INPUT_BUF_def)
  then have lt: "unat (in_w x - in_r x) + unat (in_e x - in_w x) < 2 ^ 32" by simp
  show u: "unat (in_e x - in_r x) = length (fst (in_abs x)) + length (snd (in_abs x))"
    using ring_split(2) [OF lt] by (simp add: in_abs_def)
  show "in_e x - in_r x < of_nat INPUT_BUF \<longleftrightarrow> length (fst (in_abs x)) + length (snd (in_abs x)) < INPUT_BUF"
    unfolding u [symmetric] by (simp add: word_less_nat_alt INPUT_BUF_def)
  have "in_e x = in_r x + of_nat INPUT_BUF \<longleftrightarrow> in_e x - in_r x = of_nat INPUT_BUF" by (auto simp: algebra_simps)
  then show "in_e x = in_r x + of_nat INPUT_BUF \<longleftrightarrow> length (fst (in_abs x)) + length (snd (in_abs x)) = INPUT_BUF"
    unfolding u [symmetric] by (simp add: word_unat_eq_iff INPUT_BUF_def)
  show "fst (in_abs x) @ snd (in_abs x) = ring_queue INPUT_BUF (in_buf x) (in_r x) (in_e x)"
    using ring_split(1) [OF lt] by (simp add: in_abs_def)
qed

lemma in_back:
  assumes "input_ok x" and "snd (in_abs x) \<noteq> []"
  shows "in_abs (x\<lparr>in_e := in_e x - 1\<rparr>) = (fst (in_abs x), butlast (snd (in_abs x)))" "input_ok (x\<lparr>in_e := in_e x - 1\<rparr>)"
    "in_at (in_e x - 1) x \<noteq> 10"
proof -
  have ne: "in_w x \<noteq> in_e x" using assms(2) by (simp add: in_abs_def ring_queue_empty)
  note u = ir.queue_unput [OF ne, of "in_buf x"]
  show a: "in_abs (x\<lparr>in_e := in_e x - 1\<rparr>) = (fst (in_abs x), butlast (snd (in_abs x)))" using u by (simp add: in_abs_def)
  show "input_ok (x\<lparr>in_e := in_e x - 1\<rparr>)"
    using assms unfolding input_ok_def a by (auto dest: in_set_butlastD)
  show "in_at (in_e x - 1) x \<noteq> 10" using assms(1) u by (auto simp: input_ok_def in_abs_def in_at_def)
qed

lemma in_put:
  fixes c :: byte
  assumes "input_ok x" and "length (fst (in_abs x)) + length (snd (in_abs x)) < INPUT_BUF"
  defines "y \<equiv> x\<lparr>in_buf := (in_buf x)[unat (in_e x) mod INPUT_BUF := c], in_e := in_e x + 1\<rparr>"
  shows "in_abs y = (fst (in_abs x), snd (in_abs x) @ [c])" "length (in_buf y) = INPUT_BUF"
    "in_abs (y\<lparr>in_w := in_e y\<rparr>) = (fst (in_abs x) @ snd (in_abs x) @ [c], [])"
proof -
  let ?d = "(in_buf x)[unat (in_e x) mod INPUT_BUF := c]"
  have len: "length (in_buf x) = INPUT_BUF" using assms(1) by (simp add: input_ok_def)
  have n: "unat (in_e x - in_r x) < INPUT_BUF" using in_abs_room(2) [OF assms(1)] assms(2) by simp
  have q: "ring_queue INPUT_BUF ?d (in_r x) (in_e x + 1) = fst (in_abs x) @ snd (in_abs x) @ [c]"
    using ir.queue_put [OF len n, of c] in_abs_room(4) [OF assms(1)] by simp
  have b: "unat (in_w x - in_r x) + unat (in_e x - in_w x) < 128" using assms(2) by (simp add: in_abs_def INPUT_BUF_def)
  have i: "unat (in_e x + 1 - in_w x) = Suc (unat (in_e x - in_w x))" using b by (intro ir.counter_inc) (simp add: INPUT_BUF_def)
  then have "unat (in_w x - in_r x) + unat (in_e x + 1 - in_w x) < 2 ^ 32" using b by simp
  then have s: "ring_queue INPUT_BUF ?d (in_r x) (in_w x) @ ring_queue INPUT_BUF ?d (in_w x) (in_e x + 1) = fst (in_abs x) @ snd (in_abs x) @ [c]"
    using ring_split(1) [of "in_w x" "in_r x" "in_e x + 1" INPUT_BUF ?d] q by simp
  then show "in_abs y = (fst (in_abs x), snd (in_abs x) @ [c])"
    by (simp add: in_abs_def y_def append_eq_append_conv)
  show "length (in_buf y) = INPUT_BUF" using len by (simp add: y_def)
  show "in_abs (y\<lparr>in_w := in_e y\<rparr>) = (fst (in_abs x) @ snd (in_abs x) @ [c], [])"
    using q by (simp add: in_abs_def y_def ring_queue_empty)
qed

text \<open>A state in which \<open>input.lock\<close> may be held and the console works.\<close>

definition edit_ready :: "'a consstate_scheme \<Rightarrow> bool" where
  "edit_ready s \<longleftrightarrow> screen_ok s \<and> \<not> panicked s \<and> free_lock L_ptable s \<and> cpu_ok s \<and> input_ok (input s)"

text \<open>What a step of the editor leaves alone.\<close>

definition edstep :: "'a consstate_scheme \<Rightarrow> 'a consstate_scheme \<Rightarrow> bool" where
  "edstep s s' \<longleftrightarrow> locks s' = locks s \<and> cpus s' = cpus s \<and> cur s' = cur s \<and> uart s' = uart s \<and> uart_rx s' = uart_rx s \<and>
     kbd_rx s' = kbd_rx s \<and> edit_ready s'"

lemma edstep_trans: "edstep s s1 \<Longrightarrow> edstep s1 s2 \<Longrightarrow> edstep s s2"
  by (simp add: edstep_def)

lemma same_machine:
  assumes "locks s' = locks s" and "cpus s' = cpus s" and "cur s' = cur s"
  shows "free_lock l s' = free_lock l s" "cpu_ok s' = cpu_ok s"
  using assms by (simp_all add: free_lock_def cpu_ok_def mycpu_def)

lemma input_upd [simp]:
  "input (upd_input f s) = f (input s)" "screen_ok (upd_input f s) = screen_ok s" "panicked (upd_input f s) = panicked s"
  "free_lock l (upd_input f s) = free_lock l s" "cpu_ok (upd_input f s) = cpu_ok s" "locks (upd_input f s) = locks s"
  "cpus (upd_input f s) = cpus s" "cur (upd_input f s) = cur s" "uart (upd_input f s) = uart s" "uart_rx (upd_input f s) = uart_rx s"
  "kbd_rx (upd_input f s) = kbd_rx s"
  by (simp_all add: upd_input_def screen_ok_def cursor_def free_lock_def cpu_ok_def mycpu_def)

lemma wakeup1_cons [simp]:
  "input (wakeup1 ch s) = input s" "screen_ok (wakeup1 ch s) = screen_ok s" "panicked (wakeup1 ch s) = panicked s"
  "uart (wakeup1 ch s) = uart s" "uart_rx (wakeup1 ch s) = uart_rx s" "kbd_rx (wakeup1 ch s) = kbd_rx s"
  "locks (wakeup1 ch s) = locks s" "cpus (wakeup1 ch s) = cpus s"
  by (simp_all add: wakeup1_def screen_ok_def cursor_def)

lemma echo_ok:
  assumes "screen_ok s" and "\<not> panicked s" and "free_lock L_ptable s" and "cpu_ok s"
  shows "\<exists>s'. consputc c s = Inr s' \<and> input s' = input s \<and> (input_ok (input s) \<longrightarrow> edstep s s') \<and>
    screen_ok s' \<and> \<not> panicked s' \<and> free_lock L_ptable s' \<and> cpu_ok s' \<and> locks s' = locks s \<and> cpus s' = cpus s \<and> cur s' = cur s \<and>
    uart s' = uart s \<and> uart_rx s' = uart_rx s \<and> kbd_rx s' = kbd_rx s"
proof -
  obtain s' where 1: "consputc c s = Inr s'" "outstep s s'" using consputc_ok [OF assms(1,2)] by blast
  note D = outstepD [OF 1(2)]
  note M = same_machine [OF D(11-13)]
  show ?thesis using 1(1) D(1-6,11-13) M assms by (intro exI [of _ s']) (simp add: edstep_def edit_ready_def)
qed

lemma kill_line_ok:
  assumes "edit_ready s" and "k = length (snd (in_abs (input s)))"
  shows "\<exists>s'. kill_line k s = Inr s' \<and> edstep s s' \<and> in_abs (input s') = (fst (in_abs (input s)), [])"
  using assms
proof (induction k arbitrary: s)
  case 0
  then show ?case by (cases "in_abs (input s)") (simp add: edstep_def)
next
  case (Suc k)
  let ?x = "input s" and ?s1 = "upd_input (\<lambda>x. x\<lparr>in_e := in_e x - 1\<rparr>) s"
  have ok: "input_ok ?x" using Suc.prems(1) by (simp add: edit_ready_def)
  have ne: "snd (in_abs ?x) \<noteq> []" using Suc.prems(2) by auto
  note B = in_back [OF ok ne]
  have "in_e ?x \<noteq> in_w ?x" using ne by (auto simp: in_abs_def ring_queue_empty)
  obtain s2 where 2: "consputc BACKSPACE ?s1 = Inr s2" "input s2 = input ?s1" "edstep ?s1 s2"
    using echo_ok [of ?s1 BACKSPACE] Suc.prems(1) B(2) by (auto simp: edit_ready_def)
  have e: "edstep s s2" using 2(3) by (simp add: edstep_def)
  have e2: "edit_ready s2" using e by (simp add: edstep_def)
  have k: "k = length (snd (in_abs (input s2)))" using Suc.prems(2) B(1) 2(2) by (simp flip: Suc.prems(2))
  obtain s3 where 3: "kill_line k s2 = Inr s3" "edstep s2 s3" "in_abs (input s3) = (fst (in_abs (input s2)), [])"
    using Suc.IH [OF e2 k] by blast
  show ?case using 2 3 B edstep_trans [OF e 3(2)] \<open>in_e ?x \<noteq> in_w ?x\<close> by auto
qed

lemma console_char_ok:
  assumes "edit_ready s" and "c \<noteq> 0x10" and "c < 256"
  shows "\<exists>s'. console_char c s = Inr s' \<and> edstep s s' \<and> in_abs (input s') = ed_char c (in_abs (input s))"
proof -
  let ?x = "input s"
  obtain q l where ql: "in_abs ?x = (q, l)" by fastforce
  have ok: "input_ok ?x" using assms(1) by (simp add: edit_ready_def)
  have refl: "edstep s s" using assms(1) by (simp add: edstep_def)
  have empty: "in_e ?x = in_w ?x \<longleftrightarrow> l = []" using ql by (auto simp: in_abs_def ring_queue_empty)
  consider (kill) "c = 0x15" | (erase) "c = 8 \<or> c = 0x7f" | (none) "c \<noteq> 0x15" "c \<noteq> 8" "c \<noteq> 0x7f" "c = 0 \<or> \<not> length q + length l < INPUT_BUF"
    | (put) "c \<noteq> 0x15" "c \<noteq> 8" "c \<noteq> 0x7f" "c \<noteq> 0" "length q + length l < INPUT_BUF" by blast
  then show ?thesis
  proof cases
    case kill
    have "unat (in_e ?x - in_w ?x) = length (snd (in_abs ?x))" by (simp add: in_abs_def)
    then show ?thesis using kill kill_line_ok [OF assms(1)] ql by (simp add: console_char_def ed_char_def)
  next
    case erase
    show ?thesis
    proof (cases "l = []")
      case True
      then show ?thesis using erase refl empty ql by (auto simp: console_char_def ed_char_def)
    next
      case False
      let ?s1 = "upd_input (\<lambda>x. x\<lparr>in_e := in_e x - 1\<rparr>) s"
      note B = in_back [OF ok, unfolded ql snd_conv, OF False]
      obtain s2 where "consputc BACKSPACE ?s1 = Inr s2" "input s2 = input ?s1" "edstep ?s1 s2"
        using echo_ok [of ?s1 BACKSPACE] assms(1) B(2) by (auto simp: edit_ready_def)
      moreover from this(3) have "edstep s s2" by (simp add: edstep_def)
      ultimately show ?thesis using erase empty False B(1) ql by (auto simp: console_char_def ed_char_def)
    qed
  next
    case none
    then show ?thesis using refl in_abs_room(1) [OF ok] ql assms(2) by (auto simp: console_char_def ed_char_def)
  next
    case put
    define d where "d = (if c = 13 then 10 else c)"
    have room: "in_e ?x - in_r ?x < of_nat INPUT_BUF" using in_abs_room(1) [OF ok] ql put by simp
    let ?f = "\<lambda>x. x\<lparr>in_buf := (in_buf x)[unat (in_e x) mod INPUT_BUF := of_nat d], in_e := in_e x + 1\<rparr>"
    note P = in_put [OF ok, unfolded ql fst_conv snd_conv, OF put(5), of "of_nat d"]
    obtain s1 where 1: "consputc d (upd_input ?f s) = Inr s1" "input s1 = ?f ?x" "screen_ok s1" "\<not> panicked s1" "free_lock L_ptable s1" "cpu_ok s1"
      "locks s1 = locks s" "cpus s1 = cpus s" "cur s1 = cur s" "uart s1 = uart s" "uart_rx s1 = uart_rx s" "kbd_rx s1 = kbd_rx s"
      using echo_ok [of "upd_input ?f s" d] assms(1) by (auto simp: edit_ready_def)
    have l10: "10 \<notin> set l" and len: "length (in_buf ?x) = INPUT_BUF" using ok ql by (simp_all add: input_ok_def)
    have un: "unat (in_e (?f ?x) - in_r (?f ?x)) = length q + length l + 1"
      using in_abs_room(2) [OF ok] ql put(5) ir.counter_inc [of "in_e ?x" "in_r ?x"] by simp
    have full: "in_e (?f ?x) = in_r (?f ?x) + of_nat INPUT_BUF \<longleftrightarrow> length q + length (l @ [of_nat d]) = INPUT_BUF"
    proof -
      have "in_e (?f ?x) = in_r (?f ?x) + of_nat INPUT_BUF \<longleftrightarrow> in_e (?f ?x) - in_r (?f ?x) = of_nat INPUT_BUF" by (auto simp: algebra_simps)
      then show ?thesis using un by (simp add: word_unat_eq_iff INPUT_BUF_def)
    qed
    let ?s2 = "upd_input (\<lambda>x. x\<lparr>in_w := in_e x\<rparr>) s1"
    show ?thesis
    proof (cases "commits d (length q + length (l @ [of_nat d]))")
      case True
      then have "console_char c s = Inr (wakeup1 C_input ?s2)"
        using put room 1 full assms(2) unfolding console_char_def Let_def d_def [symmetric]
        by (auto simp: wakeup_eq commits_def)
      moreover have "edstep s (wakeup1 C_input ?s2)"
        using 1 P(2,3) put(5) len by (auto simp: edstep_def edit_ready_def input_ok_def)
      moreover have "in_abs (input (wakeup1 C_input ?s2)) = ed_char c (in_abs ?x)"
        using P(3) True put ql 1(2) by (simp add: ed_char_def d_def [symmetric] Let_def)
      ultimately show ?thesis by blast
    next
      case False
      then have "console_char c s = Inr s1"
        using put room 1 full assms(2) unfolding console_char_def Let_def d_def [symmetric] by (auto simp: commits_def)
      moreover have "(of_nat d :: byte) \<noteq> 10"
        using False assms(3) by (auto simp: commits_def d_def word_unat_eq_iff unat_of_nat split: if_splits)
      then have "input_ok (input s1)" using P(1,2) l10 put(5) 1(2) by (simp add: input_ok_def)
      then have "edstep s s1" using 1 by (simp add: edstep_def edit_ready_def)
      moreover have "in_abs (input s1) = ed_char c (in_abs ?x)"
        using P(1) False put ql 1(2) by (simp add: ed_char_def d_def [symmetric] Let_def)
      ultimately show ?thesis by blast
    qed
  qed
qed

lemma consoleintr_loop_ok:
  assumes "edit_ready s" and "uart s" and "0x10 \<notin> set (uart_rx s)"
  shows "\<exists>s'. consoleintr_loop (Suc (length (uart_rx s))) uartgetc s = Inr s' \<and> edstep (s\<lparr>uart_rx := []\<rparr>) s' \<and>
    in_abs (input s') = fold ed_char (map unat (uart_rx s)) (in_abs (input s))"
  using assms
proof (induction "uart_rx s" arbitrary: s)
  case Nil
  then have e: "uart_rx s = []" by simp
  then have "s\<lparr>uart_rx := []\<rparr> = s" by simp
  then show ?case using Nil e by (simp add: uartgetc_def edstep_def)
next
  case (Cons c cs)
  let ?s1 = "s\<lparr>uart_rx := cs\<rparr>"
  have c: "unat c \<noteq> 0x10" using Cons.prems(3) by (auto simp: word_unat_eq_iff simp flip: Cons.hyps(2))
  have "edit_ready ?s1"
    using Cons.prems(1) by (simp add: edit_ready_def screen_ok_def cursor_def free_lock_def cpu_ok_def mycpu_def)
  then obtain s2 where 2: "console_char (unat c) ?s1 = Inr s2" "edstep ?s1 s2" "in_abs (input s2) = ed_char (unat c) (in_abs (input s))"
    using console_char_ok [of ?s1 "unat c"] c unsigned_less [of c, where 'a = nat] by auto
  have rx: "uart_rx s2 = cs" "uart s2" "edit_ready s2" using 2(2) Cons.prems(2) by (simp_all add: edstep_def)
  have n: "0x10 \<notin> set (uart_rx s2)" using Cons.prems(3) rx(1) Cons.hyps(2) by (metis list.set_intros(2))
  obtain s3 where 3: "consoleintr_loop (Suc (length (uart_rx s2))) uartgetc s2 = Inr s3" "edstep (s2\<lparr>uart_rx := []\<rparr>) s3"
    "in_abs (input s3) = fold ed_char (map unat (uart_rx s2)) (in_abs (input s2))"
    using Cons.hyps(1) [OF rx(1) [symmetric] rx(3,2) n] by blast
  have "consoleintr_loop (Suc (length (uart_rx s))) uartgetc s = andThen (console_char (unat c) ?s1) (consoleintr_loop (Suc (length cs)) uartgetc)"
    using Cons.prems(2) unfolding Cons.hyps(2) [symmetric] consoleintr_loop.simps(2) [of "length (c # cs)"]
    by (simp add: uartgetc_def flip: Cons.hyps(2))
  moreover have "edstep (s\<lparr>uart_rx := []\<rparr>) s3" using 2(2) 3(2) by (simp add: edstep_def)
  ultimately show ?case using 2 3 rx by (auto simp flip: Cons.hyps(2))
qed

lemma release_same:
  assumes "free_lock l s" and "cpu_ok s" and "locks s' = locks (entered l s)" and "cpus s' = cpus (entered l s)" and "cur s' = cur s"
  shows "release l s' = Inr (s'\<lparr>cpus := cpus s, locks := locks s\<rparr>)"
proof -
  let ?t = "s'\<lparr>cpus := cpus s, locks := locks s\<rparr>"
  have "s' = entered l ?t"
    using assms(3-5) by (simp add: entered_def lock_defs)
  moreover have "free_lock l ?t" "cpu_ok ?t" using assms by (simp_all add: free_lock_def cpu_ok_def mycpu_def)
  ultimately show ?thesis using release_entered [of l ?t] by simp
qed

text \<open>C29: the serial interrupt handler is a line editor. From a state whose console works, with \<open>input.lock\<close> and the lock of
  the process table free, \<open>uartintr\<close> returns, has taken every character the line had waiting, has applied the editing rules to
  them in order (append, backspace, kill line; newline, end of file and a full buffer hand the line to the readers),
  and has given back the lock and the interrupt state. The process listing on ^P is not part of this statement.\<close>

theorem uartintr_edits:
  assumes "edit_ready s" and "free_lock L_input s" and "uart s" and "0x10 \<notin> set (uart_rx s)"
  shows "\<exists>s'. uartintr s = Inr s' \<and> in_abs (input s') = fold ed_char (map unat (uart_rx s)) (in_abs (input s)) \<and>
    uart_rx s' = [] \<and> input_ok (input s') \<and> locks s' = locks s \<and> cpus s' = cpus s"
proof -
  let ?s1 = "entered L_input s"
  have same [simp]: "input ?s1 = input s" "uart_rx ?s1 = uart_rx s" "uart ?s1 = uart s" "screen_ok ?s1 = screen_ok s" "panicked ?s1 = panicked s"
    by (simp_all add: entered_def lock_defs screen_ok_def cursor_def)
  have "edit_ready ?s1" using assms(1) by (simp add: edit_ready_def)
  then obtain s2 where 2: "consoleintr_loop (Suc (length (uart_rx s))) uartgetc ?s1 = Inr s2" "edstep (?s1\<lparr>uart_rx := []\<rparr>) s2"
    "in_abs (input s2) = fold ed_char (map unat (uart_rx s)) (in_abs (input s))"
    using consoleintr_loop_ok [of ?s1] assms(3,4) by auto
  have "release L_input s2 = Inr (s2\<lparr>cpus := cpus s, locks := locks s\<rparr>)"
    using 2(2) assms(1,2) by (intro release_same) (simp_all add: edit_ready_def edstep_def)
  then have "uartintr s = Inr (s2\<lparr>cpus := cpus s, locks := locks s\<rparr>)"
    using assms(2) 2(1) by (simp add: uartintr_def consoleintr_def)
  then show ?thesis using 2(2,3) by (simp add: edstep_def edit_ready_def)
qed

section \<open>Instances\<close>

text \<open>A console with an empty screen and an empty buffer, and four characters waiting on the serial line: a, b, backspace, newline.\<close>

definition boot_cons :: "byte list \<Rightarrow> consstate" where
  "boot_cons rx = boot_ext (\<lambda>_ _. []) \<lparr>inodes = [], ftable = [], pipes = (\<lambda>_. undefined), cons_locking = False, panicked = False,
     uart = True, uart_rx = rx, crt = replicate 2000 0, crtreg = (\<lambda>_. 0),
     input = \<lparr>in_buf = replicate INPUT_BUF 0, in_r = 0, in_w = 0, in_e = 0\<rparr>, kbd_rx = [], kbd_shift = 0\<rparr>"

lemma boot_cons_ready: "edit_ready (boot_cons rx)" "free_lock L_input (boot_cons rx)" "uart (boot_cons rx)" "uart_rx (boot_cons rx) = rx"
  "in_abs (input (boot_cons rx)) = ([], [])"
  by (simp_all add: edit_ready_def boot_cons_def boot_ext_def screen_ok_def cursor_def free_lock_def cpu_ok_def mycpu_def input_ok_def
      in_abs_def ring_queue_def del: replicate.simps)

theorem consputc_on_screen_witness:
  "\<exists>s'. consputc 10 (boot_cons []) = Inr s' \<and> cursor s' < 24 * 80"
  using consputc_on_screen [of "boot_cons []" 10] boot_cons_ready(1) [of "[]"] by (auto simp: edit_ready_def)

theorem printint_prints_witness:
  "read_int 10 (rev (printint_buf digit_lower 0x80000000 10 True)) = - 2147483648 \<and>
   length (printint_buf digit_lower 0x80000000 10 True) \<le> 11"
  using printint_prints [where base = 10 and xx = "0x80000000" and sg = True] by simp

theorem uartintr_edits_witness:
  "\<exists>s'. uartintr (boot_cons [97, 98, 8, 13]) = Inr s' \<and> in_abs (input s') = ([97, 10], []) \<and> uart_rx s' = []"
  using uartintr_edits [of "boot_cons [97, 98, 8, 13]"]
  by (auto simp: boot_cons_ready ed_char_def commits_def INPUT_BUF_def)

end
