(* ===== verification/Life.thy ===== *)
theory Life
  imports ConsoleOk DirLookup
begin

unbundle bit_operations_syntax

text \<open>
  The life of a process (\<^verbatim>\<open>proc.c\<close>): the first process, growing, \<open>fork\<close>, \<open>exit\<close> and \<open>wait\<close>; and
  replacing its program (\<^verbatim>\<open>exec.c\<close>, \<^verbatim>\<open>elf.h\<close>, \<open>loaduvm\<close> of \<^verbatim>\<open>vm.c\<close>).

  \<open>kimage\<close> holds what the linker decides: the symbols \<open>data\<close> and \<open>end\<close>, the addresses of \<open>trapret\<close> and
  \<open>forkret\<close>, of each CPU's task state, and the bytes of \<^verbatim>\<open>initcode.S\<close>. The trap frame of a process is
  read and written in memory at \<open>p_tf\<close>, with the field offsets of \<open>struct trapframe\<close> (\<^verbatim>\<open>x86.h\<close>).
\<close>

record kimage =
  im_data :: uint
  im_end :: uint
  im_trapret :: uint
  im_forkret :: uint
  im_ts :: "nat \<Rightarrow> uint"
  im_initcode :: "byte list"

section \<open>Trap frames\<close>

definition TF_eax :: uint where "TF_eax = 28"
definition TF_es :: uint where "TF_es = 40"
definition TF_ds :: uint where "TF_ds = 44"
definition TF_trapno :: uint where "TF_trapno = 48"
definition TF_err :: uint where "TF_err = 52"
definition TF_eip :: uint where "TF_eip = 56"
definition TF_cs :: uint where "TF_cs = 60"
definition TF_eflags :: uint where "TF_eflags = 64"
definition TF_esp :: uint where "TF_esp = 68"
definition TF_ss :: uint where "TF_ss = 72"
definition TF_size :: uint where "TF_size = 76"

definition load16 :: "mem \<Rightarrow> uint \<Rightarrow> ushort" where
  "load16 m a = ucast (m a) OR push_bit 8 (ucast (m (a + 1)))"

definition store16 :: "mem \<Rightarrow> uint \<Rightarrow> ushort \<Rightarrow> mem" where
  "store16 m a w = m(a := ucast w, a + 1 := ucast (drop_bit 8 w))"

definition tf_get :: "nat \<Rightarrow> uint \<Rightarrow> 'a ptab_scheme \<Rightarrow> uint" where
  "tf_get p off s = load32 (pmem s) (p_tf (procs s ! p) + off)"

definition tf_put :: "nat \<Rightarrow> uint \<Rightarrow> uint \<Rightarrow> 'a ptab_scheme \<Rightarrow> 'a ptab_scheme" where
  "tf_put p off v s = s\<lparr>pmem := store32 (pmem s) (p_tf (procs s ! p) + off) v\<rparr>"

definition tf_put16 :: "nat \<Rightarrow> uint \<Rightarrow> ushort \<Rightarrow> 'a ptab_scheme \<Rightarrow> 'a ptab_scheme" where
  "tf_put16 p off v s = s\<lparr>pmem := store16 (pmem s) (p_tf (procs s ! p) + off) v\<rparr>"

section \<open>The first process\<close>

definition userinit :: "kimage \<Rightarrow> 'a fsstate_scheme \<Rightarrow> 'a fsstate_scheme res" where
  "userinit im s =
     andThen (allocproc (im_trapret im) (im_forkret im) s) (\<lambda>(po, s).
     let s = s\<lparr>initproc := po\<rparr> in
     case po of
       None \<Rightarrow> Inl (Wild ''userinit'')
     | Some p \<Rightarrow>
         andThen (setupkvm (im_data im) s) (\<lambda>(d, s).
         let s = upd_proc p (\<lambda>x. x\<lparr>p_pgdir := d\<rparr>) s in
         if d = 0 then Inl (Panic ''userinit: out of memory?'')
         else
           andThen (inituvm d (im_initcode im) (of_nat (length (im_initcode im))) s) (\<lambda>s.
           let s = upd_proc p (\<lambda>x. x\<lparr>p_sz := PGSIZE\<rparr>) s;
               s = s\<lparr>pmem := memset (pmem s) (p_tf (procs s ! p)) 0 TF_size\<rparr>;
               ucode = push_bit 3 (of_nat SEG_UCODE) OR 3;
               udata = push_bit 3 (of_nat SEG_UDATA) OR 3;
               s = tf_put16 p TF_cs ucode s;
               s = tf_put16 p TF_ds udata s;
               s = tf_put16 p TF_es udata s;
               s = tf_put16 p TF_ss udata s;
               s = tf_put p TF_eflags FL_IF s;
               s = tf_put p TF_esp PGSIZE s;
               s = tf_put p TF_eip 0 s
           in andThen (safestrcpy (p_name (procs s ! p)) (lit ''initcode'') 16) (\<lambda>nm.
              let s = upd_proc p (\<lambda>x. x\<lparr>p_name := nm\<rparr>) s in
              andThen (namei (lit ''/'') s) (\<lambda>(ip, s).
              let s = upd_proc p (\<lambda>x. x\<lparr>p_cwd := ip\<rparr>) s
              in Inr (upd_proc p (\<lambda>x. x\<lparr>p_state := RUNNABLE\<rparr>) s))))))"

section \<open>Growing\<close>

definition growproc :: "kimage \<Rightarrow> int \<Rightarrow> 'a vmstate_scheme \<Rightarrow> (int \<times> 'a vmstate_scheme) res" where
  "growproc im n s =
     (case myproc s of
        None \<Rightarrow> Inl (Wild ''proc'')
      | Some p \<Rightarrow>
          let sz = p_sz (procs s ! p); d = p_pgdir (procs s ! p) in
          andThen (if n > 0 then allocuvm (im_end im) d sz (sz + word_of_int n) s
                   else if n < 0 then deallocuvm (im_end im) d sz (sz + word_of_int n) s
                   else Inr (sz, s)) (\<lambda>(sz, s).
          if n \<noteq> 0 \<and> sz = 0 then Inr (- 1, s)
          else
            let s = upd_proc p (\<lambda>x. x\<lparr>p_sz := sz\<rparr>) s in
            andThen (switchuvm (im_ts im) p s) (\<lambda>s. Inr (0, s))))"

section \<open>Fork\<close>

primrec fork_files :: "nat \<Rightarrow> nat \<Rightarrow> nat \<Rightarrow> nat \<Rightarrow> 'a filestate_scheme \<Rightarrow> 'a filestate_scheme res" where
  "fork_files 0 me np i s = Inr s"
| "fork_files (Suc k) me np i s =
     andThen (case p_ofile (procs s ! me) ! i of
                None \<Rightarrow> Inr s
              | Some f \<Rightarrow>
                  andThen (filedup f s) (\<lambda>(g, s).
                  Inr (upd_proc np (\<lambda>x. x\<lparr>p_ofile := (p_ofile x)[i := Some g]\<rparr>) s))) (\<lambda>s.
     fork_files k me np (Suc i) s)"

definition fork :: "kimage \<Rightarrow> 'a filestate_scheme \<Rightarrow> (int \<times> 'a filestate_scheme) res" where
  "fork im s =
     (case myproc s of
        None \<Rightarrow> Inl (Wild ''proc'')
      | Some me \<Rightarrow>
          andThen (allocproc (im_trapret im) (im_forkret im) s) (\<lambda>(po, s).
          case po of
            None \<Rightarrow> Inr (- 1, s)
          | Some np \<Rightarrow>
              andThen (copyuvm (im_data im) (im_end im) (p_pgdir (procs s ! me)) (p_sz (procs s ! me)) s) (\<lambda>(d, s).
              let s = upd_proc np (\<lambda>x. x\<lparr>p_pgdir := d\<rparr>) s in
              if d = 0
              then
                andThen (kfree (im_end im) (p_kstack (procs s ! np)) s) (\<lambda>s.
                let s = upd_proc np (\<lambda>x. x\<lparr>p_kstack := 0\<rparr>) s
                in Inr (- 1, upd_proc np (\<lambda>x. x\<lparr>p_state := UNUSED\<rparr>) s))
              else
                let s = upd_proc np (\<lambda>x. x\<lparr>p_sz := p_sz (procs s ! me)\<rparr>) s;
                    s = upd_proc np (\<lambda>x. x\<lparr>p_parent := Some me\<rparr>) s;
                    s = s\<lparr>pmem := memmove (pmem s) (p_tf (procs s ! np)) (p_tf (procs s ! me)) TF_size\<rparr>;
                    s = tf_put np TF_eax 0 s
                in andThen (fork_files NOFILE me np 0 s) (\<lambda>s.
                   case p_cwd (procs s ! me) of
                     None \<Rightarrow> Inl (Wild ''idup'')
                   | Some ip \<Rightarrow>
                       andThen (idup ip s) (\<lambda>(ip, s).
                       let s = upd_proc np (\<lambda>x. x\<lparr>p_cwd := Some ip\<rparr>) s;
                           pid = p_pid (procs s ! np);
                           s = upd_proc np (\<lambda>x. x\<lparr>p_state := RUNNABLE\<rparr>) s
                       in andThen (safestrcpy (p_name (procs s ! np)) (p_name (procs s ! me)) 16) (\<lambda>nm.
                          Inr (pid, upd_proc np (\<lambda>x. x\<lparr>p_name := nm\<rparr>) s)))))))"

section \<open>Exit and wait\<close>

primrec exit_files :: "uint \<Rightarrow> nat \<Rightarrow> nat \<Rightarrow> nat \<Rightarrow> 'a filestate_scheme \<Rightarrow> 'a filestate_scheme res" where
  "exit_files kend 0 me fd s = Inr s"
| "exit_files kend (Suc k) me fd s =
     andThen (case p_ofile (procs s ! me) ! fd of
                None \<Rightarrow> Inr s
              | Some f \<Rightarrow>
                  andThen (fileclose kend f s) (\<lambda>s.
                  Inr (upd_proc me (\<lambda>x. x\<lparr>p_ofile := (p_ofile x)[fd := None]\<rparr>) s))) (\<lambda>s.
     exit_files kend k me (Suc fd) s)"

text \<open>\<open>exit\<close> ends in the scheduler, with \<open>ptable.lock\<close> held, and is never resumed.\<close>

definition exit_proc :: "kimage \<Rightarrow> 'a filestate_scheme \<Rightarrow> (bool \<times> 'a filestate_scheme) res" where
  "exit_proc im s =
     (case myproc s of
        None \<Rightarrow> Inl (Wild ''proc'')
      | Some me \<Rightarrow>
          if Some me = initproc s then Inl (Panic ''init exiting'')
          else
            andThen (exit_files (im_end im) NOFILE me 0 s) (\<lambda>s.
            case p_cwd (procs s ! me) of
              None \<Rightarrow> Inl (Wild ''iput'')
            | Some ip \<Rightarrow>
                andThen (iput ip s) (\<lambda>s.
                let s = upd_proc me (\<lambda>x. x\<lparr>p_cwd := None\<rparr>) s in
                andThen (acquire L_ptable s) (\<lambda>s. exit_switch s))))"

text \<open>The scan of \<open>wait\<close> from slot \<open>i\<close> on: the zombie child it finds, and whether it has seen a child.\<close>

primrec wait_scan :: "nat \<Rightarrow> nat \<Rightarrow> bool \<Rightarrow> proc list \<Rightarrow> nat option \<times> bool" where
  "wait_scan me i havekids [] = (None, havekids)"
| "wait_scan me i havekids (p # ps) =
     (if p_parent p \<noteq> Some me then wait_scan me (Suc i) havekids ps
      else if p_state p = ZOMBIE then (Some i, True)
      else wait_scan me (Suc i) True ps)"

definition reap :: "uint \<Rightarrow> nat \<Rightarrow> 'a ptab_scheme \<Rightarrow> (int \<times> 'a ptab_scheme) res" where
  "reap kend p s =
     (let pid = p_pid (procs s ! p) in
      andThen (kfree kend (p_kstack (procs s ! p)) s) (\<lambda>s.
      let s = upd_proc p (\<lambda>x. x\<lparr>p_kstack := 0\<rparr>) s in
      andThen (freevm kend (p_pgdir (procs s ! p)) s) (\<lambda>s.
      let s = upd_proc p (\<lambda>x. x\<lparr>p_state := UNUSED\<rparr>) s;
          s = upd_proc p (\<lambda>x. x\<lparr>p_pid := 0\<rparr>) s;
          s = upd_proc p (\<lambda>x. x\<lparr>p_parent := None\<rparr>) s;
          s = upd_proc p (\<lambda>x. x\<lparr>p_name := (p_name x)[0 := 0]\<rparr>) s;
          s = upd_proc p (\<lambda>x. x\<lparr>p_killed := False\<rparr>) s
      in Inr (pid, s))))"

text \<open>\<open>wait\<close> returns or sleeps on its own slot.\<close>

datatype waitout = WaitRet int | WaitSleep bool

definition wait_cont :: "kimage \<Rightarrow> 'a ptab_scheme \<Rightarrow> (waitout \<times> 'a ptab_scheme) res" where
  "wait_cont im s =
     (case myproc s of
        None \<Rightarrow> Inl (Wild ''proc'')
      | Some me \<Rightarrow>
          (case wait_scan me 0 False (procs s) of
             (Some p, _) \<Rightarrow>
               andThen (reap (im_end im) p s) (\<lambda>(pid, s).
               andThen (release L_ptable s) (\<lambda>s. Inr (WaitRet pid, s)))
           | (None, havekids) \<Rightarrow>
               if \<not> havekids \<or> p_killed (procs s ! me)
               then andThen (release L_ptable s) (\<lambda>s. Inr (WaitRet (- 1), s))
               else andThen (sleep_switch (Chan ''proc'' me) (Some L_ptable) s) (\<lambda>(saved, s). Inr (WaitSleep saved, s))))"

definition wait :: "kimage \<Rightarrow> 'a ptab_scheme \<Rightarrow> (waitout \<times> 'a ptab_scheme) res" where
  "wait im s = andThen (acquire L_ptable s) (\<lambda>s. wait_cont im s)"

definition wait_resume :: "kimage \<Rightarrow> bool \<Rightarrow> 'a ptab_scheme \<Rightarrow> (waitout \<times> 'a ptab_scheme) res" where
  "wait_resume im saved s = andThen (sleep_resume L_ptable saved s) (\<lambda>s. wait_cont im s)"

section \<open>Exec\<close>

text \<open>The headers of an ELF file, read from their bytes.\<close>

record elfhdr =
  e_magic :: uint
  e_entry :: uint
  e_phoff :: uint
  e_phnum :: ushort

record proghdr =
  ph_type :: uint
  ph_offset :: uint
  ph_va :: uint
  ph_filesz :: uint
  ph_memsz :: uint

definition ELF_MAGIC :: uint where "ELF_MAGIC = 0x464C457F"
definition ELF_PROG_LOAD :: uint where "ELF_PROG_LOAD = 1"
definition MAXARG :: nat where "MAXARG = 32"

definition get_elfhdr :: "byte list \<Rightarrow> elfhdr" where
  "get_elfhdr b = \<lparr>e_magic = get32 b 0, e_entry = get32 b 24, e_phoff = get32 b 28, e_phnum = get16 b 44\<rparr>"

definition get_proghdr :: "byte list \<Rightarrow> proghdr" where
  "get_proghdr b = \<lparr>ph_type = get32 b 0, ph_offset = get32 b 4, ph_va = get32 b 8, ph_filesz = get32 b 16, ph_memsz = get32 b 20\<rparr>"

text \<open>The loop of \<open>loaduvm\<close>; a short read stores what there is before it fails.\<close>

primrec loaduvm_loop ::
  "nat \<Rightarrow> 'a fsstate_scheme dev_read \<Rightarrow> uint \<Rightarrow> uint \<Rightarrow> nat \<Rightarrow> uint \<Rightarrow> uint \<Rightarrow> uint \<Rightarrow> 'a fsstate_scheme \<Rightarrow>
   (int \<times> 'a fsstate_scheme) res" where
  "loaduvm_loop 0 devr d addr ip offset sz i s = Inl (Spins ''loaduvm'')"
| "loaduvm_loop (Suc k) devr d addr ip offset sz i s =
     (if i < sz
      then
        andThen (walkpgdir d (addr + i) False s) (\<lambda>(pte, s).
        if pte = 0 then Inl (Panic ''loaduvm: address should exist'')
        else if load32 (pmem s) pte AND PTE_P = 0 then Inl (Panic ''loaduvm: page not present'')
        else
          let pa = PTE_ADDR (load32 (pmem s) pte);
              n = (if sz - i < PGSIZE then sz - i else PGSIZE)
          in andThen (readi devr ip (offset + i) n s) (\<lambda>((r, bs), s).
             let s = s\<lparr>pmem := put_bytes (pmem s) pa bs\<rparr> in
             if r \<noteq> sint n then Inr (- 1, s)
             else loaduvm_loop k devr d addr ip offset sz (i + PGSIZE) s))
      else Inr (0, s))"

definition loaduvm ::
  "'a fsstate_scheme dev_read \<Rightarrow> uint \<Rightarrow> uint \<Rightarrow> nat \<Rightarrow> uint \<Rightarrow> uint \<Rightarrow> 'a fsstate_scheme \<Rightarrow> (int \<times> 'a fsstate_scheme) res" where
  "loaduvm devr d addr ip offset sz s =
     (if addr mod PGSIZE \<noteq> 0 then Inl (Panic ''loaduvm: addr must be page aligned'')
      else loaduvm_loop (unat sz div 4096 + 2) devr d addr ip offset sz 0 s)"

text \<open>Loading the segments. \<open>None\<close> is the jump to \<open>bad\<close>.\<close>

primrec load_segments ::
  "nat \<Rightarrow> kimage \<Rightarrow> 'a fsstate_scheme dev_read \<Rightarrow> nat \<Rightarrow> uint \<Rightarrow> uint \<Rightarrow> uint \<Rightarrow> 'a fsstate_scheme \<Rightarrow>
   (uint option \<times> 'a fsstate_scheme) res" where
  "load_segments 0 im devr ip d off sz s = Inr (Some sz, s)"
| "load_segments (Suc k) im devr ip d off sz s =
     andThen (readi devr ip off 32 s) (\<lambda>((r, b), s).
     let ph = get_proghdr b in
     if r \<noteq> 32 then Inr (None, s)
     else if ph_type ph \<noteq> ELF_PROG_LOAD then load_segments k im devr ip d (off + 32) sz s
     else if ph_memsz ph < ph_filesz ph then Inr (None, s)
     else
       andThen (allocuvm (im_end im) d sz (ph_va ph + ph_memsz ph) s) (\<lambda>(sz, s).
       if sz = 0 then Inr (None, s)
       else
         andThen (loaduvm devr d (ph_va ph) ip (ph_offset ph) (ph_filesz ph) s) (\<lambda>(r, s).
         if r < 0 then Inr (None, s)
         else load_segments k im devr ip d (off + 32) sz s)))"

text \<open>Pushing the argument strings; \<open>ustack\<close> is what is collected of \<open>ustack[3..]\<close>.\<close>

fun push_args ::
  "uint \<Rightarrow> byte list list \<Rightarrow> uint \<Rightarrow> uint list \<Rightarrow> 'a kmem_scheme \<Rightarrow> ((uint \<times> uint list) option \<times> 'a kmem_scheme) res" where
  "push_args d [] sp ustack s = Inr (Some (sp, ustack), s)"
| "push_args d (a # argv) sp ustack s =
     (if length ustack \<ge> MAXARG then Inr (None, s)
      else
        andThen (strlen a) (\<lambda>n.
        let sp = (sp - (of_nat n + 1)) AND NOT 3 in
        andThen (copyout d sp (take (n + 1) a) s) (\<lambda>(r, s).
        if r < 0 then Inr (None, s) else push_args d argv sp (ustack @ [sp]) s)))"

text \<open>The name of the program: what follows the last slash of the path.\<close>

fun last_elem :: "byte list \<Rightarrow> byte list \<Rightarrow> byte list res" where
  "last_elem lst [] = Inl (Wild ''exec'')"
| "last_elem lst (c # p) = (if c = 0 then Inr lst else if c = 47 then last_elem p p else last_elem lst p)"

definition exec_bad :: "kimage \<Rightarrow> uint \<Rightarrow> nat option \<Rightarrow> 'a fsstate_scheme \<Rightarrow> (int \<times> 'a fsstate_scheme) res" where
  "exec_bad im d ipo s =
     andThen (if d \<noteq> 0 then freevm (im_end im) d s else Inr s) (\<lambda>s.
     andThen (case ipo of Some ip \<Rightarrow> iunlockput ip s | None \<Rightarrow> Inr s) (\<lambda>s. Inr (- 1, s)))"

text \<open>From the load of the program on: the stack, the arguments and the switch to the new image.\<close>

definition exec_commit ::
  "kimage \<Rightarrow> elfhdr \<Rightarrow> uint \<Rightarrow> byte list \<Rightarrow> uint \<Rightarrow> uint \<Rightarrow> nat \<Rightarrow> 'a fsstate_scheme \<Rightarrow> (int \<times> 'a fsstate_scheme) res" where
  "exec_commit im elf d path sz sp me s =
     andThen (last_elem path path) (\<lambda>lst.
     andThen (safestrcpy (p_name (procs s ! me)) lst 16) (\<lambda>nm.
     let s = upd_proc me (\<lambda>x. x\<lparr>p_name := nm\<rparr>) s;
         oldpgdir = p_pgdir (procs s ! me);
         s = upd_proc me (\<lambda>x. x\<lparr>p_pgdir := d\<rparr>) s;
         s = upd_proc me (\<lambda>x. x\<lparr>p_sz := sz\<rparr>) s;
         s = tf_put me TF_eip (e_entry elf) s;
         s = tf_put me TF_esp sp s
     in andThen (switchuvm (im_ts im) me s) (\<lambda>s.
        andThen (freevm (im_end im) oldpgdir s) (\<lambda>s. Inr (0, s)))))"

definition exec_stack ::
  "kimage \<Rightarrow> elfhdr \<Rightarrow> uint \<Rightarrow> byte list \<Rightarrow> byte list list \<Rightarrow> uint \<Rightarrow> nat \<Rightarrow> 'a fsstate_scheme \<Rightarrow> (int \<times> 'a fsstate_scheme) res" where
  "exec_stack im elf d path argv sz me s =
     (let sz = PGROUNDUP sz in
      andThen (allocuvm (im_end im) d sz (sz + PGSIZE) s) (\<lambda>(sz, s).
      if sz = 0 then exec_bad im d None s
      else
        andThen (push_args d argv sz [] s) (\<lambda>(r, s).
        case r of
          None \<Rightarrow> exec_bad im d None s
        | Some (sp, us) \<Rightarrow>
            let argc = of_nat (length us);
                ustack = [0xffffffff, argc, sp - (argc + 1) * 4] @ us @ [0];
                sp = sp - (3 + argc + 1) * 4
            in andThen (copyout d sp (concat (map bytes32 ustack)) s) (\<lambda>(r, s).
               if r < 0 then exec_bad im d None s else exec_commit im elf d path sz sp me s))))"

definition exec ::
  "kimage \<Rightarrow> 'a fsstate_scheme dev_read \<Rightarrow> byte list \<Rightarrow> byte list list \<Rightarrow> 'a fsstate_scheme \<Rightarrow> (int \<times> 'a fsstate_scheme) res" where
  "exec im devr path argv s =
     (case myproc s of
        None \<Rightarrow> Inl (Wild ''proc'')
      | Some me \<Rightarrow>
          andThen (namei path s) (\<lambda>(ipo, s).
          case ipo of
            None \<Rightarrow> Inr (- 1, s)
          | Some ip \<Rightarrow>
              andThen (ilock (Some ip) s) (\<lambda>s.
              andThen (readi devr ip 0 52 s) (\<lambda>((r, b), s).
              let elf = get_elfhdr b in
              if r < 52 then exec_bad im 0 (Some ip) s
              else if e_magic elf \<noteq> ELF_MAGIC then exec_bad im 0 (Some ip) s
              else
                andThen (setupkvm (im_data im) s) (\<lambda>(d, s).
                if d = 0 then exec_bad im 0 (Some ip) s
                else
                  andThen (load_segments (unat (e_phnum elf)) im devr ip d (e_phoff elf) 0 s) (\<lambda>(szo, s).
                  case szo of
                    None \<Rightarrow> exec_bad im d (Some ip) s
                  | Some sz \<Rightarrow> andThen (iunlockput ip s) (\<lambda>s. exec_stack im elf d path argv sz me s)))))))"

end
