(* ===== verification/Syscall.thy ===== *)
theory Syscall
  imports Life
begin

unbundle bit_operations_syntax

text \<open>
  System calls (\<^verbatim>\<open>syscall.c\<close>, \<^verbatim>\<open>sysproc.c\<close>, \<^verbatim>\<open>sysfile.c\<close>): fetching arguments from user memory, the calls
  themselves, and the table that selects them.

  The kernel reads and writes user memory through the page table in \<open>cr3\<close>; an address without a present page is
  a page fault in the kernel, which \<open>trap\<close> answers with a panic. A string argument is the bytes from its address up
  to and including the terminating zero. A call that goes to sleep says how it continues.
\<close>

section \<open>User memory\<close>

record sysstate = consstate +
  ticks :: uint

text \<open>The page table walk of the processor in kernel mode.\<close>

definition translate :: "uint \<Rightarrow> 'a vmstate_scheme \<Rightarrow> uint res" where
  "translate va s =
     (let pde = load32 (pmem s) (PTE_ADDR (cr3 s (cur s)) + 4 * PDX va) in
      if pde AND PTE_P = 0 then Inl (Panic ''trap'')
      else
        let pte = load32 (pmem s) (PTE_ADDR pde + 4 * PTX va) in
        if pte AND PTE_P = 0 then Inl (Panic ''trap'')
        else Inr (PTE_ADDR pte OR (va AND 0xFFF)))"

definition uload :: "uint \<Rightarrow> 'a vmstate_scheme \<Rightarrow> byte res" where
  "uload va s = andThen (translate va s) (\<lambda>pa. Inr (pmem s pa))"

primrec uload_bytes :: "nat \<Rightarrow> uint \<Rightarrow> 'a vmstate_scheme \<Rightarrow> byte list res" where
  "uload_bytes 0 va s = Inr []"
| "uload_bytes (Suc n) va s =
     andThen (uload va s) (\<lambda>b. andThen (uload_bytes n (va + 1) s) (\<lambda>bs. Inr (b # bs)))"

primrec ustore_bytes :: "byte list \<Rightarrow> uint \<Rightarrow> 'a vmstate_scheme \<Rightarrow> 'a vmstate_scheme res" where
  "ustore_bytes [] va s = Inr s"
| "ustore_bytes (b # bs) va s =
     andThen (translate va s) (\<lambda>pa. ustore_bytes bs (va + 1) (s\<lparr>pmem := (pmem s)(pa := b)\<rparr>))"

section \<open>Arguments\<close>

text \<open>The results are \<open>None\<close> where the source returns -1.\<close>

definition fetchint :: "nat \<Rightarrow> uint \<Rightarrow> 'a vmstate_scheme \<Rightarrow> uint option res" where
  "fetchint p addr s =
     (let sz = p_sz (procs s ! p) in
      if addr \<ge> sz \<or> addr + 4 > sz then Inr None
      else andThen (uload_bytes 4 addr s) (\<lambda>bs. Inr (Some (get32 bs 0))))"

text \<open>The loop of \<open>fetchstr\<close>, with the bytes it has passed.\<close>

primrec fetchstr_loop :: "nat \<Rightarrow> uint \<Rightarrow> uint \<Rightarrow> byte list \<Rightarrow> 'a vmstate_scheme \<Rightarrow> byte list option res" where
  "fetchstr_loop 0 a ep acc s = Inr None"
| "fetchstr_loop (Suc k) a ep acc s =
     (if a < ep
      then andThen (uload a s) (\<lambda>b.
           if b = 0 then Inr (Some (acc @ [0])) else fetchstr_loop k (a + 1) ep (acc @ [b]) s)
      else Inr None)"

definition fetchstr :: "nat \<Rightarrow> uint \<Rightarrow> 'a vmstate_scheme \<Rightarrow> byte list option res" where
  "fetchstr p addr s =
     (let sz = p_sz (procs s ! p) in
      if addr \<ge> sz then Inr None else fetchstr_loop (unat (sz - addr)) addr sz [] s)"

definition argint :: "nat \<Rightarrow> nat \<Rightarrow> 'a vmstate_scheme \<Rightarrow> uint option res" where
  "argint me n s = fetchint me (tf_get me TF_esp s + 4 + 4 * of_nat n) s"

definition argptr :: "nat \<Rightarrow> nat \<Rightarrow> int \<Rightarrow> 'a vmstate_scheme \<Rightarrow> uint option res" where
  "argptr me n len s =
     andThen (argint me n s) (\<lambda>r.
     case r of
       None \<Rightarrow> Inr None
     | Some i \<Rightarrow>
         if i \<ge> p_sz (procs s ! me) \<or> i + word_of_int len > p_sz (procs s ! me) then Inr None
         else Inr (Some i))"

definition argstr :: "nat \<Rightarrow> nat \<Rightarrow> 'a vmstate_scheme \<Rightarrow> byte list option res" where
  "argstr me n s =
     andThen (argint me n s) (\<lambda>r.
     case r of None \<Rightarrow> Inr None | Some addr \<Rightarrow> fetchstr me addr s)"

section \<open>Outcomes\<close>

text \<open>How a sleeping call continues: reading into or writing from a pipe, waiting for a child or for the clock.\<close>

datatype sleepk =
    K_read uint int uint bool
  | K_write uint int "byte list" bool
  | K_wait bool
  | K_ticks uint uint bool

datatype sysout = SRet int | SAsleep sleepk | SGone

definition ret :: "int \<Rightarrow> 's \<Rightarrow> (sysout \<times> 's) res" where
  "ret r s = Inr (SRet r, s)"

text \<open>A list of arguments that must all be there, as in \<open>if(a < 0 || b < 0) return -1\<close>.\<close>

definition need :: "'b option res \<Rightarrow> ('b \<Rightarrow> (sysout \<times> 's) res) \<Rightarrow> 's \<Rightarrow> (sysout \<times> 's) res" where
  "need r k s = andThen r (\<lambda>x. case x of None \<Rightarrow> ret (- 1) s | Some v \<Rightarrow> k v)"

definition as_int :: "uint \<Rightarrow> int" where
  "as_int w = sint w"

section \<open>sysproc.c\<close>

definition sys_fork :: "kimage \<Rightarrow> nat \<Rightarrow> 'a filestate_scheme \<Rightarrow> (sysout \<times> 'a filestate_scheme) res" where
  "sys_fork im me s = andThen (fork im s) (\<lambda>(r, s). ret r s)"

definition sys_exit :: "kimage \<Rightarrow> nat \<Rightarrow> 'a filestate_scheme \<Rightarrow> (sysout \<times> 'a filestate_scheme) res" where
  "sys_exit im me s = andThen (exit_proc im s) (\<lambda>(_, s). Inr (SGone, s))"

definition wait_out :: "waitout \<times> 's \<Rightarrow> (sysout \<times> 's) res" where
  "wait_out r = (case r of (WaitRet pid, s) \<Rightarrow> ret pid s | (WaitSleep saved, s) \<Rightarrow> Inr (SAsleep (K_wait saved), s))"

definition sys_wait :: "kimage \<Rightarrow> nat \<Rightarrow> 'a filestate_scheme \<Rightarrow> (sysout \<times> 'a filestate_scheme) res" where
  "sys_wait im me s = andThen (wait im s) wait_out"

definition sys_kill :: "nat \<Rightarrow> 'a filestate_scheme \<Rightarrow> (sysout \<times> 'a filestate_scheme) res" where
  "sys_kill me s = need (argint me 0 s) (\<lambda>pid. andThen (kill (as_int pid) s) (\<lambda>(r, s). ret r s)) s"

definition sys_getpid :: "nat \<Rightarrow> 'a filestate_scheme \<Rightarrow> (sysout \<times> 'a filestate_scheme) res" where
  "sys_getpid me s = ret (p_pid (procs s ! me)) s"

definition sys_sbrk :: "kimage \<Rightarrow> nat \<Rightarrow> 'a filestate_scheme \<Rightarrow> (sysout \<times> 'a filestate_scheme) res" where
  "sys_sbrk im me s =
     need (argint me 0 s) (\<lambda>n.
     let addr = as_int (p_sz (procs s ! me)) in
     andThen (growproc im (as_int n) s) (\<lambda>(r, s).
     if r < 0 then ret (- 1) s else ret addr s)) s"

definition C_ticks :: chan where "C_ticks = Chan ''ticks'' 0"

definition ticks_cont :: "uint \<Rightarrow> uint \<Rightarrow> nat \<Rightarrow> 'a sysstate_scheme \<Rightarrow> (sysout \<times> 'a sysstate_scheme) res" where
  "ticks_cont n ticks0 me s =
     (if ticks s - ticks0 < n
      then
        if p_killed (procs s ! me) then andThen (release L_ticks s) (\<lambda>s. ret (- 1) s)
        else andThen (sleep_switch C_ticks (Some L_ticks) s) (\<lambda>(saved, s). Inr (SAsleep (K_ticks n ticks0 saved), s))
      else andThen (release L_ticks s) (\<lambda>s. ret 0 s))"

definition sys_sleep :: "nat \<Rightarrow> 'a sysstate_scheme \<Rightarrow> (sysout \<times> 'a sysstate_scheme) res" where
  "sys_sleep me s =
     need (argint me 0 s) (\<lambda>n.
     andThen (acquire L_ticks s) (\<lambda>s. ticks_cont n (ticks s) me s)) s"

definition sys_uptime :: "nat \<Rightarrow> 'a sysstate_scheme \<Rightarrow> (sysout \<times> 'a sysstate_scheme) res" where
  "sys_uptime me s =
     andThen (acquire L_ticks s) (\<lambda>s.
     let xticks = ticks s in
     andThen (release L_ticks s) (\<lambda>s. ret (as_int xticks) s))"

section \<open>sysfile.c\<close>

definition argfd :: "nat \<Rightarrow> nat \<Rightarrow> 'a vmstate_scheme \<Rightarrow> (nat \<times> nat) option res" where
  "argfd me n s =
     andThen (argint me n s) (\<lambda>r.
     case r of
       None \<Rightarrow> Inr None
     | Some w \<Rightarrow>
         let fd = as_int w in
         if fd < 0 \<or> fd \<ge> int NOFILE then Inr None
         else case p_ofile (procs s ! me) ! nat fd of None \<Rightarrow> Inr None | Some f \<Rightarrow> Inr (Some (nat fd, f)))"

primrec free_fd :: "nat \<Rightarrow> nat option list \<Rightarrow> nat option" where
  "free_fd fd [] = None"
| "free_fd fd (f # fs) = (if f = None then Some fd else free_fd (Suc fd) fs)"

definition fdalloc :: "nat \<Rightarrow> nat \<Rightarrow> 'a ptab_scheme \<Rightarrow> nat option \<times> 'a ptab_scheme" where
  "fdalloc me f s =
     (case free_fd 0 (p_ofile (procs s ! me)) of
        None \<Rightarrow> (None, s)
      | Some fd \<Rightarrow> (Some fd, upd_proc me (\<lambda>x. x\<lparr>p_ofile := (p_ofile x)[fd := Some f]\<rparr>) s))"

definition sys_dup :: "nat \<Rightarrow> 'a filestate_scheme \<Rightarrow> (sysout \<times> 'a filestate_scheme) res" where
  "sys_dup me s =
     need (argfd me 0 s) (\<lambda>(_, f).
     case fdalloc me f s of
       (None, s) \<Rightarrow> ret (- 1) s
     | (Some fd, s) \<Rightarrow> andThen (filedup f s) (\<lambda>(_, s). ret (int fd) s)) s"

text \<open>The bytes that a write of \<open>n\<close> bytes can reach from \<open>va\<close>, up to the first page fault; with a negative count
  \<open>writei\<close> would go on to the end of the largest file.\<close>

primrec ureach :: "nat \<Rightarrow> uint \<Rightarrow> 'a vmstate_scheme \<Rightarrow> byte list" where
  "ureach 0 va s = []"
| "ureach (Suc n) va s = (case uload va s of Inl _ \<Rightarrow> [] | Inr b \<Rightarrow> b # ureach n (va + 1) s)"

definition write_reach :: "int \<Rightarrow> nat" where
  "write_reach n = (if n < 0 then MAXFILE * BSIZE else nat n)"

definition read_out :: "uint \<Rightarrow> int \<Rightarrow> uint \<Rightarrow> rout \<times> 'a filestate_scheme \<Rightarrow> (sysout \<times> 'a filestate_scheme) res" where
  "read_out pipe n p r =
     (case r of
        (RRet k bs, s) \<Rightarrow> andThen (ustore_bytes bs p s) (\<lambda>s. ret k s)
      | (RSleep saved, s) \<Rightarrow> Inr (SAsleep (K_read pipe n p saved), s))"

definition sys_read ::
  "'a filestate_scheme dev_read \<Rightarrow> nat \<Rightarrow> 'a filestate_scheme \<Rightarrow> (sysout \<times> 'a filestate_scheme) res" where
  "sys_read devr me s =
     need (argfd me 0 s) (\<lambda>(_, f).
     need (argint me 2 s) (\<lambda>w.
     need (argptr me 1 (as_int w) s) (\<lambda>p.
     andThen (fileread devr f (as_int w) s) (read_out (f_pipe (ftable s ! f)) (as_int w) p)) s) s) s"

definition write_out :: "uint \<Rightarrow> int \<Rightarrow> wout \<times> 'a filestate_scheme \<Rightarrow> (sysout \<times> 'a filestate_scheme) res" where
  "write_out pipe n r =
     (case r of
        (WRet k, s) \<Rightarrow> ret k s
      | (WSleep rest saved, s) \<Rightarrow> Inr (SAsleep (K_write pipe n rest saved), s))"

definition sys_write ::
  "'a filestate_scheme dev_write \<Rightarrow> nat \<Rightarrow> 'a filestate_scheme \<Rightarrow> (sysout \<times> 'a filestate_scheme) res" where
  "sys_write devw me s =
     need (argfd me 0 s) (\<lambda>(_, f).
     need (argint me 2 s) (\<lambda>w.
     need (argptr me 1 (as_int w) s) (\<lambda>p.
     andThen (filewrite devw f (ureach (write_reach (as_int w)) p s) (as_int w) s)
       (write_out (f_pipe (ftable s ! f)) (as_int w))) s) s) s"

definition sys_close :: "kimage \<Rightarrow> nat \<Rightarrow> 'a filestate_scheme \<Rightarrow> (sysout \<times> 'a filestate_scheme) res" where
  "sys_close im me s =
     need (argfd me 0 s) (\<lambda>(fd, f).
     let s = upd_proc me (\<lambda>x. x\<lparr>p_ofile := (p_ofile x)[fd := None]\<rparr>) s in
     andThen (fileclose (im_end im) f s) (\<lambda>s. ret 0 s)) s"

text \<open>\<open>struct stat\<close> is 20 bytes; the padding after the two short fields is left as it is.\<close>

definition put_stat :: "stat_t \<Rightarrow> uint \<Rightarrow> 'a vmstate_scheme \<Rightarrow> 'a vmstate_scheme res" where
  "put_stat st p s =
     andThen (ustore_bytes (bytes16 (st_type st)) p s) (\<lambda>s.
     andThen (ustore_bytes (bytes32 (st_dev st)) (p + 4) s) (\<lambda>s.
     andThen (ustore_bytes (bytes32 (st_ino st)) (p + 8) s) (\<lambda>s.
     andThen (ustore_bytes (bytes16 (st_nlink st)) (p + 12) s) (\<lambda>s.
     ustore_bytes (bytes32 (st_size st)) (p + 16) s))))"

definition sys_fstat :: "nat \<Rightarrow> 'a filestate_scheme \<Rightarrow> (sysout \<times> 'a filestate_scheme) res" where
  "sys_fstat me s =
     need (argfd me 0 s) (\<lambda>(_, f).
     need (argptr me 1 20 s) (\<lambda>p.
     andThen (filestat f s) (\<lambda>(r, s).
     case r of
       None \<Rightarrow> ret (- 1) s
     | Some st \<Rightarrow> andThen (put_stat st p s) (\<lambda>s. ret 0 s))) s) s"

definition link_bad :: "nat \<Rightarrow> 'a filestate_scheme \<Rightarrow> (sysout \<times> 'a filestate_scheme) res" where
  "link_bad ip s =
     andThen (ilock (Some ip) s) (\<lambda>s.
     let s = upd_inode ip (\<lambda>x. x\<lparr>i_nlink := i_nlink x - 1\<rparr>) s in
     andThen (iupdate ip s) (\<lambda>s.
     andThen (iunlockput ip s) (\<lambda>s. ret (- 1) s)))"

definition sys_link ::
  "'a filestate_scheme dev_read \<Rightarrow> 'a filestate_scheme dev_write \<Rightarrow> nat \<Rightarrow> 'a filestate_scheme \<Rightarrow>
   (sysout \<times> 'a filestate_scheme) res" where
  "sys_link devr devw me s =
     need (argstr me 0 s) (\<lambda>old.
     need (argstr me 1 s) (\<lambda>new.
     andThen (namei old s) (\<lambda>(ipo, s).
     case ipo of
       None \<Rightarrow> ret (- 1) s
     | Some ip \<Rightarrow>
         andThen (ilock (Some ip) s) (\<lambda>s.
         if i_type (inodes s ! ip) = T_DIR then andThen (iunlockput ip s) (\<lambda>s. ret (- 1) s)
         else
           let s = upd_inode ip (\<lambda>x. x\<lparr>i_nlink := i_nlink x + 1\<rparr>) s in
           andThen (iupdate ip s) (\<lambda>s.
           andThen (iunlock (Some ip) s) (\<lambda>s.
           andThen (nameiparent new (replicate DIRSIZ 0) s) (\<lambda>((dpo, name), s).
           case dpo of
             None \<Rightarrow> link_bad ip s
           | Some dp \<Rightarrow>
               andThen (ilock (Some dp) s) (\<lambda>s.
               andThen (if i_dev (inodes s ! dp) \<noteq> i_dev (inodes s ! ip) then Inr (- 1, s)
                        else dirlink devr devw dp name (i_inum (inodes s ! ip)) s) (\<lambda>(r, s).
               andThen (iunlockput dp s) (\<lambda>s.
               if r < 0 then link_bad ip s
               else andThen (iput ip s) (\<lambda>s. ret 0 s)))))))))) s) s"

primrec isdirempty_loop ::
  "nat \<Rightarrow> 'a filestate_scheme dev_read \<Rightarrow> nat \<Rightarrow> uint \<Rightarrow> 'a filestate_scheme \<Rightarrow> (bool \<times> 'a filestate_scheme) res" where
  "isdirempty_loop 0 devr dp off s = Inl (Spins ''isdirempty'')"
| "isdirempty_loop (Suc k) devr dp off s =
     (if off < i_size (inodes s ! dp)
      then andThen (readi devr dp off 16 s) (\<lambda>((r, de), s).
           if r \<noteq> 16 then Inl (Panic ''isdirempty: readi'')
           else if get16 de 0 \<noteq> 0 then Inr (False, s)
           else isdirempty_loop k devr dp (off + 16) s)
      else Inr (True, s))"

definition isdirempty ::
  "'a filestate_scheme dev_read \<Rightarrow> nat \<Rightarrow> 'a filestate_scheme \<Rightarrow> (bool \<times> 'a filestate_scheme) res" where
  "isdirempty devr dp s = isdirempty_loop (unat (i_size (inodes s ! dp)) div 16 + 2) devr dp (2 * 16) s"

definition unlink_entry ::
  "'a filestate_scheme dev_write \<Rightarrow> nat \<Rightarrow> nat \<Rightarrow> uint \<Rightarrow> 'a filestate_scheme \<Rightarrow> (sysout \<times> 'a filestate_scheme) res" where
  "unlink_entry devw dp ip off s =
     andThen (writei devw dp (replicate 16 0) off 16 s) (\<lambda>(r, s).
     if r \<noteq> 16 then Inl (Panic ''unlink: writei'')
     else
       andThen (if i_type (inodes s ! ip) = T_DIR
                then iupdate dp (upd_inode dp (\<lambda>x. x\<lparr>i_nlink := i_nlink x - 1\<rparr>) s) else Inr s) (\<lambda>s.
       andThen (iunlockput dp s) (\<lambda>s.
       andThen (iupdate ip (upd_inode ip (\<lambda>x. x\<lparr>i_nlink := i_nlink x - 1\<rparr>) s)) (\<lambda>s.
       andThen (iunlockput ip s) (\<lambda>s. ret 0 s)))))"

definition sys_unlink ::
  "'a filestate_scheme dev_read \<Rightarrow> 'a filestate_scheme dev_write \<Rightarrow> nat \<Rightarrow> 'a filestate_scheme \<Rightarrow>
   (sysout \<times> 'a filestate_scheme) res" where
  "sys_unlink devr devw me s =
     need (argstr me 0 s) (\<lambda>path.
     andThen (nameiparent path (replicate DIRSIZ 0) s) (\<lambda>((dpo, name), s).
     case dpo of
       None \<Rightarrow> ret (- 1) s
     | Some dp \<Rightarrow>
         andThen (ilock (Some dp) s) (\<lambda>s.
         andThen (namecmp name (lit ''.'')) (\<lambda>c1.
         andThen (if c1 = 0 then Inr 0 else namecmp name (lit ''..'')) (\<lambda>c2.
         if c2 = 0 then andThen (iunlockput dp s) (\<lambda>s. ret (- 1) s)
         else
           andThen (dirlookup dp name s) (\<lambda>(r, s).
           case r of
             None \<Rightarrow> andThen (iunlockput dp s) (\<lambda>s. ret (- 1) s)
           | Some (ip, off) \<Rightarrow>
               andThen (ilock (Some ip) s) (\<lambda>s.
               if sint (i_nlink (inodes s ! ip)) < 1 then Inl (Panic ''unlink: nlink < 1'')
               else
                 andThen (if i_type (inodes s ! ip) = T_DIR then isdirempty devr ip s else Inr (True, s)) (\<lambda>(ok, s).
                 if \<not> ok
                 then andThen (iunlockput ip s) (\<lambda>s. andThen (iunlockput dp s) (\<lambda>s. ret (- 1) s))
                 else unlink_entry devw dp ip off s)))))))) s"

text \<open>Where a name for it exists, \<open>create\<close> returns that inode if both are plain files.\<close>

definition create_new ::
  "'a filestate_scheme dev_read \<Rightarrow> 'a filestate_scheme dev_write \<Rightarrow> nat \<Rightarrow> byte list \<Rightarrow> ushort \<Rightarrow> ushort \<Rightarrow> ushort \<Rightarrow>
   'a filestate_scheme \<Rightarrow> (nat option \<times> 'a filestate_scheme) res" where
  "create_new devr devw dp name type major minor s =
     andThen (ialloc (i_dev (inodes s ! dp)) type s) (\<lambda>(ip, s).
     andThen (ilock (Some ip) s) (\<lambda>s.
     let s = upd_inode ip (\<lambda>x. x\<lparr>i_major := major\<rparr>) s;
         s = upd_inode ip (\<lambda>x. x\<lparr>i_minor := minor\<rparr>) s;
         s = upd_inode ip (\<lambda>x. x\<lparr>i_nlink := 1\<rparr>) s
     in andThen (iupdate ip s) (\<lambda>s.
        andThen
          (if type = T_DIR
           then
             andThen (iupdate dp (upd_inode dp (\<lambda>x. x\<lparr>i_nlink := i_nlink x + 1\<rparr>) s)) (\<lambda>s.
             andThen (dirlink devr devw ip (lit ''.'') (i_inum (inodes s ! ip)) s) (\<lambda>(r, s).
             if r < 0 then Inl (Panic ''create dots'')
             else
               andThen (dirlink devr devw ip (lit ''..'') (i_inum (inodes s ! dp)) s) (\<lambda>(r, s).
               if r < 0 then Inl (Panic ''create dots'') else Inr s)))
           else Inr s) (\<lambda>s.
        andThen (dirlink devr devw dp name (i_inum (inodes s ! ip)) s) (\<lambda>(r, s).
        if r < 0 then Inl (Panic ''create: dirlink'')
        else andThen (iunlockput dp s) (\<lambda>s. Inr (Some ip, s)))))))"

definition create ::
  "'a filestate_scheme dev_read \<Rightarrow> 'a filestate_scheme dev_write \<Rightarrow> byte list \<Rightarrow> ushort \<Rightarrow> ushort \<Rightarrow> ushort \<Rightarrow>
   'a filestate_scheme \<Rightarrow> (nat option \<times> 'a filestate_scheme) res" where
  "create devr devw path type major minor s =
     andThen (nameiparent path (replicate DIRSIZ 0) s) (\<lambda>((dpo, name), s).
     case dpo of
       None \<Rightarrow> Inr (None, s)
     | Some dp \<Rightarrow>
         andThen (ilock (Some dp) s) (\<lambda>s.
         andThen (dirlookup dp name s) (\<lambda>(r, s).
         case r of
           Some (ip, off) \<Rightarrow>
             andThen (iunlockput dp s) (\<lambda>s.
             andThen (ilock (Some ip) s) (\<lambda>s.
             if type = T_FILE \<and> i_type (inodes s ! ip) = T_FILE then Inr (Some ip, s)
             else andThen (iunlockput ip s) (\<lambda>s. Inr (None, s))))
         | None \<Rightarrow> create_new devr devw dp name type major minor s)))"

definition O_RDONLY :: uint where "O_RDONLY = 0"
definition O_WRONLY :: uint where "O_WRONLY = 1"
definition O_RDWR :: uint where "O_RDWR = 2"
definition O_CREATE :: uint where "O_CREATE = 0x200"

definition open_file :: "nat \<Rightarrow> uint \<Rightarrow> ofile \<Rightarrow> ofile" where
  "open_file ip omode x =
     x\<lparr>f_type := FD_INODE, f_ip := Some ip, f_off := 0, f_readable := (omode AND O_WRONLY = 0),
       f_writable := (omode AND O_WRONLY \<noteq> 0 \<or> omode AND O_RDWR \<noteq> 0)\<rparr>"

text \<open>The second half of \<open>sys_open\<close>, with the inode locked.\<close>

definition open_inode ::
  "kimage \<Rightarrow> nat \<Rightarrow> nat \<Rightarrow> uint \<Rightarrow> 'a filestate_scheme \<Rightarrow> (sysout \<times> 'a filestate_scheme) res" where
  "open_inode im me ip omode s =
     andThen (filealloc s) (\<lambda>(fo, s).
     case fo of
       None \<Rightarrow> andThen (iunlockput ip s) (\<lambda>s. ret (- 1) s)
     | Some f \<Rightarrow>
         (case fdalloc me f s of
            (None, s) \<Rightarrow>
              andThen (fileclose (im_end im) f s) (\<lambda>s. andThen (iunlockput ip s) (\<lambda>s. ret (- 1) s))
          | (Some fd, s) \<Rightarrow>
              andThen (iunlock (Some ip) s) (\<lambda>s. ret (int fd) (upd_file f (open_file ip omode) s))))"

definition sys_open ::
  "kimage \<Rightarrow> 'a filestate_scheme dev_read \<Rightarrow> 'a filestate_scheme dev_write \<Rightarrow> nat \<Rightarrow> 'a filestate_scheme \<Rightarrow>
   (sysout \<times> 'a filestate_scheme) res" where
  "sys_open im devr devw me s =
     need (argstr me 0 s) (\<lambda>path.
     need (argint me 1 s) (\<lambda>omode.
     if omode AND O_CREATE \<noteq> 0
     then
       andThen (create devr devw path T_FILE 0 0 s) (\<lambda>(ipo, s).
       case ipo of None \<Rightarrow> ret (- 1) s | Some ip \<Rightarrow> open_inode im me ip omode s)
     else
       andThen (namei path s) (\<lambda>(ipo, s).
       case ipo of
         None \<Rightarrow> ret (- 1) s
       | Some ip \<Rightarrow>
           andThen (ilock (Some ip) s) (\<lambda>s.
           if i_type (inodes s ! ip) = T_DIR \<and> omode \<noteq> O_RDONLY
           then andThen (iunlockput ip s) (\<lambda>s. ret (- 1) s)
           else open_inode im me ip omode s))) s) s"

definition create_out :: "nat option \<times> 'a filestate_scheme \<Rightarrow> (sysout \<times> 'a filestate_scheme) res" where
  "create_out r = (case r of (None, s) \<Rightarrow> ret (- 1) s | (Some ip, s) \<Rightarrow> andThen (iunlockput ip s) (\<lambda>s. ret 0 s))"

definition sys_mkdir ::
  "'a filestate_scheme dev_read \<Rightarrow> 'a filestate_scheme dev_write \<Rightarrow> nat \<Rightarrow> 'a filestate_scheme \<Rightarrow>
   (sysout \<times> 'a filestate_scheme) res" where
  "sys_mkdir devr devw me s =
     need (argstr me 0 s) (\<lambda>path. andThen (create devr devw path T_DIR 0 0 s) create_out) s"

definition sys_mknod ::
  "'a filestate_scheme dev_read \<Rightarrow> 'a filestate_scheme dev_write \<Rightarrow> nat \<Rightarrow> 'a filestate_scheme \<Rightarrow>
   (sysout \<times> 'a filestate_scheme) res" where
  "sys_mknod devr devw me s =
     need (argstr me 0 s) (\<lambda>path.
     need (argint me 1 s) (\<lambda>major.
     need (argint me 2 s) (\<lambda>minor.
     andThen (create devr devw path T_DEV (ucast major) (ucast minor) s) create_out) s) s) s"

definition sys_chdir :: "nat \<Rightarrow> 'a filestate_scheme \<Rightarrow> (sysout \<times> 'a filestate_scheme) res" where
  "sys_chdir me s =
     need (argstr me 0 s) (\<lambda>path.
     andThen (namei path s) (\<lambda>(ipo, s).
     case ipo of
       None \<Rightarrow> ret (- 1) s
     | Some ip \<Rightarrow>
         andThen (ilock (Some ip) s) (\<lambda>s.
         if i_type (inodes s ! ip) \<noteq> T_DIR then andThen (iunlockput ip s) (\<lambda>s. ret (- 1) s)
         else
           andThen (iunlock (Some ip) s) (\<lambda>s.
           case p_cwd (procs s ! me) of
             None \<Rightarrow> Inl (Wild ''iput'')
           | Some cwd \<Rightarrow>
               andThen (iput cwd s) (\<lambda>s. ret 0 (upd_proc me (\<lambda>x. x\<lparr>p_cwd := Some ip\<rparr>) s)))))) s"

text \<open>The argument vector, from entry \<open>i\<close> on. It has room for \<open>MAXARG\<close> entries, the final zero included.\<close>

primrec fetch_argv :: "nat \<Rightarrow> nat \<Rightarrow> uint \<Rightarrow> nat \<Rightarrow> 'a vmstate_scheme \<Rightarrow> byte list list option res" where
  "fetch_argv 0 me uargv i s = Inr None"
| "fetch_argv (Suc k) me uargv i s =
     andThen (fetchint me (uargv + 4 * of_nat i) s) (\<lambda>r.
     case r of
       None \<Rightarrow> Inr None
     | Some uarg \<Rightarrow>
         if uarg = 0 then Inr (Some [])
         else
           andThen (fetchstr me uarg s) (\<lambda>a.
           case a of
             None \<Rightarrow> Inr None
           | Some str \<Rightarrow> andThen (fetch_argv k me uargv (Suc i) s) (\<lambda>rest. Inr (map_option (Cons str) rest))))"

definition sys_exec ::
  "kimage \<Rightarrow> 'a filestate_scheme dev_read \<Rightarrow> nat \<Rightarrow> 'a filestate_scheme \<Rightarrow> (sysout \<times> 'a filestate_scheme) res" where
  "sys_exec im devr me s =
     need (argstr me 0 s) (\<lambda>path.
     need (argint me 1 s) (\<lambda>uargv.
     need (fetch_argv MAXARG me uargv 0 s) (\<lambda>argv.
     andThen (exec im devr path argv s) (\<lambda>(r, s). ret r s)) s) s) s"

definition clear_fd :: "nat \<Rightarrow> nat \<Rightarrow> 'a ptab_scheme \<Rightarrow> 'a ptab_scheme" where
  "clear_fd me fd s = upd_proc me (\<lambda>x. x\<lparr>p_ofile := (p_ofile x)[fd := None]\<rparr>) s"

definition pipe_bad ::
  "uint \<Rightarrow> nat \<Rightarrow> nat \<Rightarrow> 'a filestate_scheme \<Rightarrow> (sysout \<times> 'a filestate_scheme) res" where
  "pipe_bad kend rf wr s =
     andThen (fileclose kend rf s) (\<lambda>s. andThen (fileclose kend wr s) (\<lambda>s. ret (- 1) s))"

definition sys_pipe :: "kimage \<Rightarrow> nat \<Rightarrow> 'a filestate_scheme \<Rightarrow> (sysout \<times> 'a filestate_scheme) res" where
  "sys_pipe im me s =
     need (argptr me 0 8 s) (\<lambda>fd.
     andThen (pipealloc (im_end im) s) (\<lambda>(r, s).
     case r of
       None \<Rightarrow> ret (- 1) s
     | Some (rf, wr) \<Rightarrow>
         (case fdalloc me rf s of
            (None, s) \<Rightarrow> pipe_bad (im_end im) rf wr s
          | (Some fd0, s) \<Rightarrow>
              (case fdalloc me wr s of
                 (None, s) \<Rightarrow> pipe_bad (im_end im) rf wr (clear_fd me fd0 s)
               | (Some fd1, s) \<Rightarrow>
                   andThen (ustore_bytes (bytes32 (of_nat fd0)) fd s) (\<lambda>s.
                   andThen (ustore_bytes (bytes32 (of_nat fd1)) (fd + 4) s) (\<lambda>s. ret 0 s)))))) s"

definition sys_ioctl ::
  "'a filestate_scheme dev_ioctl \<Rightarrow> nat \<Rightarrow> 'a filestate_scheme \<Rightarrow> (sysout \<times> 'a filestate_scheme) res" where
  "sys_ioctl devi me s =
     need (argfd me 0 s) (\<lambda>(_, f).
     need (argint me 1 s) (\<lambda>req.
     need (argint me 2 s) (\<lambda>p.
     andThen (fileioctl devi f (as_int req) p s) (\<lambda>(r, s). ret r s)) s) s) s"

section \<open>The system call table\<close>

text \<open>The device switch as one record.\<close>

record 's devsw_t =
  dv_read :: "'s dev_read"
  dv_write :: "'s dev_write"
  dv_ioctl :: "'s dev_ioctl"

definition syscalls ::
  "kimage \<Rightarrow> 'a sysstate_scheme devsw_t \<Rightarrow> int \<Rightarrow> (nat \<Rightarrow> 'a sysstate_scheme \<Rightarrow> (sysout \<times> 'a sysstate_scheme) res) option" where
  "syscalls im dv num =
     (if num = 1 then Some (sys_fork im)
      else if num = 2 then Some (sys_exit im)
      else if num = 3 then Some (sys_wait im)
      else if num = 4 then Some (sys_pipe im)
      else if num = 5 then Some (sys_write (dv_write dv))
      else if num = 6 then Some (sys_read (dv_read dv))
      else if num = 7 then Some (sys_close im)
      else if num = 8 then Some sys_kill
      else if num = 9 then Some (sys_exec im (dv_read dv))
      else if num = 10 then Some (sys_open im (dv_read dv) (dv_write dv))
      else if num = 11 then Some (sys_mknod (dv_read dv) (dv_write dv))
      else if num = 12 then Some (sys_unlink (dv_read dv) (dv_write dv))
      else if num = 13 then Some sys_fstat
      else if num = 14 then Some (sys_link (dv_read dv) (dv_write dv))
      else if num = 15 then Some (sys_mkdir (dv_read dv) (dv_write dv))
      else if num = 16 then Some sys_chdir
      else if num = 17 then Some sys_dup
      else if num = 18 then Some sys_getpid
      else if num = 19 then Some (sys_sbrk im)
      else if num = 20 then Some sys_sleep
      else if num = 21 then Some sys_uptime
      else if num = 22 then Some (sys_ioctl (dv_ioctl dv))
      else None)"

text \<open>What happens to the result, now or when the call that slept comes back.\<close>

definition set_eax :: "nat \<Rightarrow> sysout \<times> 'a ptab_scheme \<Rightarrow> (sysout \<times> 'a ptab_scheme) res" where
  "set_eax me r = (case r of (SRet v, s) \<Rightarrow> Inr (SRet v, tf_put me TF_eax (word_of_int v) s) | _ \<Rightarrow> Inr r)"

definition syscall ::
  "kimage \<Rightarrow> 'a sysstate_scheme devsw_t \<Rightarrow> 'a sysstate_scheme \<Rightarrow> (sysout \<times> 'a sysstate_scheme) res" where
  "syscall im dv s =
     (case myproc s of
        None \<Rightarrow> Inl (Wild ''proc'')
      | Some me \<Rightarrow>
          let num = as_int (tf_get me TF_eax s) in
          (case (if num \<ge> 0 then syscalls im dv num else None) of
             Some f \<Rightarrow> andThen (f me s) (set_eax me)
           | None \<Rightarrow>
               andThen (cprintf (lit (''%d %s: unknown sys call %d'' @ [CHR 0x0A]))
                 [Num (word_of_int (p_pid (procs s ! me))), Str (Some (p_name (procs s ! me))), Num (word_of_int num)] s) (\<lambda>s.
               set_eax me (SRet (- 1), s))))"

definition sys_continue ::
  "kimage \<Rightarrow> sleepk \<Rightarrow> nat \<Rightarrow> 'a sysstate_scheme \<Rightarrow> (sysout \<times> 'a sysstate_scheme) res" where
  "sys_continue im k me s =
     (case k of
        K_read pipe n p saved \<Rightarrow> andThen (piperead_resume pipe n saved s) (read_out pipe n p)
      | K_write pipe n rest saved \<Rightarrow> andThen (pipewrite_resume pipe n rest saved s) (write_out pipe n)
      | K_wait saved \<Rightarrow> andThen (wait_resume im saved s) wait_out
      | K_ticks n t0 saved \<Rightarrow> andThen (sleep_resume L_ticks saved s) (\<lambda>s. ticks_cont n t0 me s))"

definition syscall_resume ::
  "kimage \<Rightarrow> sleepk \<Rightarrow> 'a sysstate_scheme \<Rightarrow> (sysout \<times> 'a sysstate_scheme) res" where
  "syscall_resume im k s =
     (case myproc s of
        None \<Rightarrow> Inl (Wild ''proc'')
      | Some me \<Rightarrow> andThen (sys_continue im k me s) (set_eax me))"

end
