(* ===== verification/Ne.thy ===== *)
theory Ne
  imports Syscall
begin

unbundle bit_operations_syntax

text \<open>
  The Ethernet device (\<^verbatim>\<open>eth/ne.c\<close>, \<^verbatim>\<open>eth/ne.h\<close>, \<^verbatim>\<open>eth/eth.c\<close>): a driver for NE1000 and NE2000 cards.

  The card itself is a parameter: \<open>nicdev\<close> says how it answers and changes when a port is read or written, by bytes or,
  at the data port, by words. Loops that poll the card take a bound \<open>k\<close> on the number of polls and are \<open>Spins\<close> when
  it is not enough. A routine that fills a buffer returns the bytes it stores there; where the buffer is a local array
  they do not fit into, the result is \<open>Wild\<close>.
\<close>

section \<open>The card and the state of the driver\<close>

record 'd nicdev =
  nd_in :: "int \<Rightarrow> 'd \<Rightarrow> byte \<times> 'd"
  nd_out :: "int \<Rightarrow> byte \<Rightarrow> 'd \<Rightarrow> 'd"
  nd_inw :: "int \<Rightarrow> 'd \<Rightarrow> ushort \<times> 'd"
  nd_outw :: "int \<Rightarrow> ushort \<Rightarrow> 'd \<Rightarrow> 'd"

record sendbuf =
  sq_filled :: bool
  sq_sendpage :: int

record ne_t =
  ne_name :: "byte list"
  ne_irq :: nat
  ne_base :: int
  ne_address :: "byte list"
  ne_is16bit :: bool
  ne_ramsize :: int
  ne_pages :: int
  ne_startaddr :: int
  ne_send_startpage :: int
  ne_send_stoppage :: int
  ne_recv_startpage :: int
  ne_recv_stoppage :: int
  ne_sendq :: "sendbuf list"
  ne_sendq_head :: int
  ne_sendq_tail :: int

record 'd nestate = sysstate +
  ne :: ne_t
  nic :: 'd

definition DP_PAGESIZE :: int where "DP_PAGESIZE = 256"
definition SENDQ_PAGES :: int where "SENDQ_PAGES = 6"
definition SENDQ_LEN :: nat where "SENDQ_LEN = 2"
definition ETH_MIN_SIZE :: nat where "ETH_MIN_SIZE = 60"
definition ETH_MAX_SIZE :: nat where "ETH_MAX_SIZE = 1514"

definition CR_STP :: byte where "CR_STP = 0x01"
definition CR_STA :: byte where "CR_STA = 0x02"
definition CR_TXP :: byte where "CR_TXP = 0x04"
definition CR_DM_RR :: byte where "CR_DM_RR = 0x08"
definition CR_DM_RW :: byte where "CR_DM_RW = 0x10"
definition CR_NO_DMA :: byte where "CR_NO_DMA = 0x20"
definition CR_PS_P0 :: byte where "CR_PS_P0 = 0x00"
definition CR_PS_P1 :: byte where "CR_PS_P1 = 0x40"
definition ISR_PRX :: byte where "ISR_PRX = 0x01"
definition ISR_PTX :: byte where "ISR_PTX = 0x02"
definition ISR_RDC :: byte where "ISR_RDC = 0x40"
definition NE_DATA :: int where "NE_DATA = 0x10"
definition NE_RESET :: int where "NE_RESET = 0x1F"

definition upd_ne :: "(ne_t \<Rightarrow> ne_t) \<Rightarrow> ('d, 'a) nestate_scheme \<Rightarrow> ('d, 'a) nestate_scheme" where
  "upd_ne f s = s\<lparr>ne := f (ne s)\<rparr>"

definition nin :: "'d nicdev \<Rightarrow> int \<Rightarrow> ('d, 'a) nestate_scheme \<Rightarrow> byte \<times> ('d, 'a) nestate_scheme" where
  "nin dev off s = (case nd_in dev (ne_base (ne s) + off) (nic s) of (b, d) \<Rightarrow> (b, s\<lparr>nic := d\<rparr>))"

definition nout :: "'d nicdev \<Rightarrow> int \<Rightarrow> byte \<Rightarrow> ('d, 'a) nestate_scheme \<Rightarrow> ('d, 'a) nestate_scheme" where
  "nout dev off b s = s\<lparr>nic := nd_out dev (ne_base (ne s) + off) b (nic s)\<rparr>"

text \<open>\<open>rep insb\<close>, \<open>rep insw\<close>, \<open>rep outsb\<close> and \<open>rep outsw\<close>; the count is the number of transfers.\<close>

primrec insb :: "'d nicdev \<Rightarrow> nat \<Rightarrow> ('d, 'a) nestate_scheme \<Rightarrow> byte list \<times> ('d, 'a) nestate_scheme" where
  "insb dev 0 s = ([], s)"
| "insb dev (Suc n) s = (case nin dev NE_DATA s of (b, s) \<Rightarrow> case insb dev n s of (bs, s) \<Rightarrow> (b # bs, s))"

primrec insw :: "'d nicdev \<Rightarrow> nat \<Rightarrow> ('d, 'a) nestate_scheme \<Rightarrow> byte list \<times> ('d, 'a) nestate_scheme" where
  "insw dev 0 s = ([], s)"
| "insw dev (Suc n) s =
     (case nd_inw dev (ne_base (ne s) + NE_DATA) (nic s) of (w, d) \<Rightarrow>
      case insw dev n (s\<lparr>nic := d\<rparr>) of (bs, s) \<Rightarrow> (bytes16 w @ bs, s))"

primrec outsb :: "'d nicdev \<Rightarrow> nat \<Rightarrow> byte list \<Rightarrow> ('d, 'a) nestate_scheme \<Rightarrow> ('d, 'a) nestate_scheme res" where
  "outsb dev 0 bs s = Inr s"
| "outsb dev (Suc n) bs s =
     andThen (rd ''outsb'' bs 0) (\<lambda>b. outsb dev n (tl bs) (nout dev NE_DATA b s))"

primrec outsw :: "'d nicdev \<Rightarrow> nat \<Rightarrow> byte list \<Rightarrow> ('d, 'a) nestate_scheme \<Rightarrow> ('d, 'a) nestate_scheme res" where
  "outsw dev 0 bs s = Inr s"
| "outsw dev (Suc n) bs s =
     (if length bs < 2 then Inl (Wild ''outsw'')
      else outsw dev n (drop 2 bs) (s\<lparr>nic := nd_outw dev (ne_base (ne s) + NE_DATA) (get16 bs 0) (nic s)\<rparr>))"

definition write_sequence :: "'d nicdev \<Rightarrow> (int \<times> byte) list \<Rightarrow> ('d, 'a) nestate_scheme \<Rightarrow> ('d, 'a) nestate_scheme" where
  "write_sequence dev sq s = fold (\<lambda>(off, v). nout dev off v) sq s"

definition ne_print :: "string \<Rightarrow> carg list \<Rightarrow> ('d, 'a) nestate_scheme \<Rightarrow> ('d, 'a) nestate_scheme res" where
  "ne_print fmt args s = cprintf (lit (fmt @ [CHR 0x0A])) args s"

section \<open>Finding the card\<close>

primrec reset_wait :: "'d nicdev \<Rightarrow> nat \<Rightarrow> ('d, 'a) nestate_scheme \<Rightarrow> bool \<times> ('d, 'a) nestate_scheme" where
  "reset_wait dev 0 s = (case nin dev 7 s of (b, s) \<Rightarrow> (b \<noteq> 0, s))"
| "reset_wait dev (Suc k) s = (case nin dev 7 s of (b, s) \<Rightarrow> if b \<noteq> 0 then (True, s) else reset_wait dev k s)"

definition prom_seq :: "(int \<times> byte) list" where
  "prom_seq =
     [(0, CR_NO_DMA OR CR_PS_P0 OR CR_STP), (0xE, 0x08 OR 0x40), (0xA, 0), (0xB, 0), (0xC, 0x20), (0xD, 0x02),
      (7, 0xFF), (0xF, 0), (0xA, 32), (0xB, 0), (8, 0), (9, 0), (0, CR_PS_P0 OR CR_DM_RR OR CR_STA)]"

text \<open>The bytes of the PROM as \<open>ne_probe\<close> leaves them in \<open>eprom\<close>, and whether the card has word-wide access.\<close>

definition prom16 :: "byte list \<Rightarrow> bool" where
  "prom16 e = list_all (\<lambda>i. e ! (2 * i) = e ! (2 * i + 1)) [0..<16]"

definition squeeze :: "byte list \<Rightarrow> byte list" where
  "squeeze e = (if prom16 e then map (\<lambda>i. e ! (2 * i)) [0..<16] @ drop 16 e else e)"

definition ne_probe :: "'d nicdev \<Rightarrow> ('d, 'a) nestate_scheme \<Rightarrow> (bool \<times> ('d, 'a) nestate_scheme) res" where
  "ne_probe dev s =
     (case nin dev 0 s of (reg0, s) \<Rightarrow>
      if reg0 = 0xFF then Inr (False, s)
      else
        let s = nout dev 0 (CR_STP OR CR_NO_DMA OR CR_PS_P1) s in
        case nin dev 0xD s of (regd, s) \<Rightarrow>
        let s = nout dev 0xD 0xFF s;
            s = nout dev 0 (CR_NO_DMA OR CR_PS_P0) s;
            s = snd (nin dev 0xD s)
        in case nin dev 0xD s of (c, s) \<Rightarrow>
        if c \<noteq> 0
        then
          let s = nout dev 0 reg0 s; s = nout dev 0xD regd s in
          andThen (ne_print ''%s: This is not NEx000.'' [Str (Some (ne_name (ne s)))] s) (\<lambda>s. Inr (False, s))
        else
          case nin dev NE_RESET s of (r, s) \<Rightarrow>
          let s = nout dev NE_RESET r s in
          case reset_wait dev 10001 s of (ok, s) \<Rightarrow>
          if \<not> ok
          then andThen (ne_print ''%s: NIC reset failure'' [Str (Some (ne_name (ne s)))] s) (\<lambda>s. Inr (False, s))
          else
            let s = nout dev 7 0xFF s;
                s = write_sequence dev prom_seq s
            in case insb dev 32 s of (e, s) \<Rightarrow>
               let s = upd_ne (\<lambda>n. n\<lparr>ne_is16bit := prom16 e\<rparr>) s;
                   e = squeeze e
               in if e ! 14 \<noteq> 0x57 \<or> e ! 15 \<noteq> 0x57 then Inr (False, s)
                  else Inr (True, upd_ne (\<lambda>n. n\<lparr>ne_address := take 6 e\<rparr>) s))"

section \<open>Setting up\<close>

definition init_fields :: "ne_t \<Rightarrow> ne_t" where
  "init_fields n =
     (let n = (if ne_is16bit n
               then n\<lparr>ne_ramsize := 0x4000, ne_startaddr := 0x4000, ne_send_startpage := 0x4000 div DP_PAGESIZE\<rparr>
               else n\<lparr>ne_ramsize := 0x2000, ne_startaddr := 0x2000, ne_send_startpage := 0x2000 div DP_PAGESIZE\<rparr>);
          n = n\<lparr>ne_pages := ne_ramsize n div DP_PAGESIZE\<rparr>;
          n = n\<lparr>ne_send_stoppage := ne_send_startpage n + SENDQ_PAGES * int SENDQ_LEN - 1\<rparr>;
          n = n\<lparr>ne_recv_startpage := ne_send_stoppage n + 1\<rparr>;
          n = n\<lparr>ne_recv_stoppage := ne_send_startpage n + ne_pages n\<rparr>;
          n = n\<lparr>ne_sendq := map (\<lambda>i. \<lparr>sq_filled = False, sq_sendpage = ne_send_startpage n + int i * SENDQ_PAGES\<rparr>) [0..<SENDQ_LEN]\<rparr>
      in n\<lparr>ne_sendq_head := 0, ne_sendq_tail := int SENDQ_LEN - 1\<rparr>)"

definition init_seq :: "ne_t \<Rightarrow> (int \<times> byte) list" where
  "init_seq n =
     [(0, CR_PS_P0 OR CR_STP OR CR_NO_DMA), (0xE, (if ne_is16bit n then 0x01 else 0x00) OR 0x00 OR 0x40 OR 0x08), (0xC, 0x20),
      (0xA, 0), (0xB, 0), (0xD, 0x02), (1, word_of_int (ne_recv_startpage n)), (2, word_of_int (ne_recv_stoppage n)),
      (3, word_of_int (ne_recv_startpage n)), (7, 0xFF), (0xF, 0x3F), (0, CR_PS_P1 OR CR_NO_DMA)] @
     map (\<lambda>i. (int i + 1, ne_address n ! i)) [0..<6] @
     map (\<lambda>i. (int i + 8, 0xFF)) [0..<8] @
     [(7, word_of_int (ne_recv_startpage n + 1)), (0, CR_STA OR CR_NO_DMA), (0xD, 0x00), (0xC, 0x10)]"

primrec print_mac :: "nat \<Rightarrow> nat \<Rightarrow> ('d, 'a) nestate_scheme \<Rightarrow> ('d, 'a) nestate_scheme res" where
  "print_mac 0 i s = Inr s"
| "print_mac (Suc k) i s =
     andThen (cprintf (lit ''%x%s'') [Num (ucast (ne_address (ne s) ! i)), Str (Some (if i < 5 then lit '':'' else lit [CHR 0x0A]))] s) (\<lambda>s.
     print_mac k (Suc i) s)"

definition ne_init :: "'d nicdev \<Rightarrow> ('d, 'a) nestate_scheme \<Rightarrow> ('d, 'a) nestate_scheme res" where
  "ne_init dev s =
     (let s = upd_ne init_fields s; n = ne s in
      andThen (cprintf (lit ''%s: NE%d000 (%dkB RAM) at 0x%x:%d - '')
        [Str (Some (ne_name n)), Num (if ne_is16bit n then 2 else 1), Num (word_of_int (ne_ramsize n div 1024)),
         Num (word_of_int (ne_base n)), Num (of_nat (ne_irq n))] s) (\<lambda>s.
      andThen (print_mac 6 0 s) (\<lambda>s.
      Inr (write_sequence dev (init_seq n) s))))"

section \<open>Remote DMA\<close>

text \<open>\<open>ne_rdma_setup\<close> for reading, and the end of it for writing.\<close>

definition rdma_regs :: "'d nicdev \<Rightarrow> byte \<Rightarrow> ushort \<Rightarrow> int \<Rightarrow> ('d, 'a) nestate_scheme \<Rightarrow> ('d, 'a) nestate_scheme" where
  "rdma_regs dev mode addr len s =
     (let s = nout dev 8 (ucast addr) s;
          s = nout dev 9 (ucast (drop_bit 8 addr)) s;
          s = nout dev 0xA (word_of_int len) s;
          s = nout dev 0xB (word_of_int (len div 256)) s
      in nout dev 0 (mode OR CR_PS_P0 OR CR_STA) s)"

definition ne_getblock ::
  "'d nicdev \<Rightarrow> ushort \<Rightarrow> int \<Rightarrow> ('d, 'a) nestate_scheme \<Rightarrow> byte list \<times> ('d, 'a) nestate_scheme" where
  "ne_getblock dev addr len s =
     (let s = rdma_regs dev CR_DM_RR addr len s in
      if ne_is16bit (ne s) then insw dev (nat len) s else insb dev (nat len) s)"

definition read_crda :: "'d nicdev \<Rightarrow> ('d, 'a) nestate_scheme \<Rightarrow> ushort \<times> ('d, 'a) nestate_scheme" where
  "read_crda dev s =
     (case nin dev 8 s of (lo, s) \<Rightarrow> case nin dev 9 s of (hi, s) \<Rightarrow> (ucast lo OR push_bit 8 (ucast hi), s))"

primrec crda_wait :: "'d nicdev \<Rightarrow> nat \<Rightarrow> ushort \<Rightarrow> ('d, 'a) nestate_scheme \<Rightarrow> ('d, 'a) nestate_scheme res" where
  "crda_wait dev 0 old s = Inl (Spins ''ne_rdma_setup'')"
| "crda_wait dev (Suc k) old s = (case read_crda dev s of (new, s) \<Rightarrow> if old = new then crda_wait dev k old s else Inr s)"

definition ne_rdma_setup ::
  "'d nicdev \<Rightarrow> nat \<Rightarrow> byte \<Rightarrow> ushort \<Rightarrow> int \<Rightarrow> ('d, 'a) nestate_scheme \<Rightarrow> ('d, 'a) nestate_scheme res" where
  "ne_rdma_setup dev k mode addr len s =
     andThen
       (if mode = CR_DM_RW
        then
          let safeloc = word_of_int (ne_startaddr (ne s) - 4) in
          case read_crda dev s of (oldcrda, s) \<Rightarrow>
          case ne_getblock dev safeloc 4 s of (dummy, s) \<Rightarrow>
          if length dummy > 4 then Inl (Wild ''ne_rdma_setup: dummy'') else crda_wait dev k oldcrda s
        else Inr s) (\<lambda>s.
     Inr (rdma_regs dev mode addr len s))"

section \<open>Sending and receiving\<close>

definition ne_start_xmit :: "'d nicdev \<Rightarrow> int \<Rightarrow> int \<Rightarrow> ('d, 'a) nestate_scheme \<Rightarrow> ('d, 'a) nestate_scheme" where
  "ne_start_xmit dev page len s =
     (let s = nout dev 4 (word_of_int page) s;
          s = nout dev 5 (word_of_int len) s;
          s = nout dev 6 (word_of_int (len div 256)) s
      in nout dev 0 (CR_PS_P0 OR CR_NO_DMA OR CR_STA OR CR_TXP) s)"

primrec rdc_wait :: "'d nicdev \<Rightarrow> nat \<Rightarrow> ('d, 'a) nestate_scheme \<Rightarrow> ('d, 'a) nestate_scheme res" where
  "rdc_wait dev 0 s = Inl (Spins ''ne_pio_write'')"
| "rdc_wait dev (Suc k) s = (case nin dev 7 s of (isr, s) \<Rightarrow> if isr AND ISR_RDC = 0 then rdc_wait dev k s else Inr s)"

text \<open>The counters of the send queue are never negative, so \<open>%\<close> is \<open>mod\<close>. A negative length is a
  count of almost 4 GB to \<open>rep outs\<close>.\<close>

definition ne_pio_write ::
  "'d nicdev \<Rightarrow> nat \<Rightarrow> byte list \<Rightarrow> int \<Rightarrow> ('d, 'a) nestate_scheme \<Rightarrow> (int \<times> ('d, 'a) nestate_scheme) res" where
  "ne_pio_write dev k packet len s =
     (let q = nat (ne_sendq_head (ne s) mod int SENDQ_LEN) in
      if sq_filled (ne_sendq (ne s) ! q) \<or> ne_sendq_head (ne s) > ne_sendq_tail (ne s)
      then
        andThen (ne_print ''%s: all transmitting buffers in NIC are busy.'' [Str (Some (ne_name (ne s)))] s) (\<lambda>s. Inr (0, s))
      else
        andThen (ne_rdma_setup dev k CR_DM_RW (word_of_int (sq_sendpage (ne_sendq (ne s) ! q) * DP_PAGESIZE)) len s) (\<lambda>s.
        andThen (if len < 0 then Inl (Wild ''ne_pio_write'')
                 else if ne_is16bit (ne s) then outsw dev (nat len) packet s else outsb dev (nat len) packet s) (\<lambda>s.
        andThen (rdc_wait dev k s) (\<lambda>s.
        let s = upd_ne (\<lambda>n. n\<lparr>ne_sendq := (ne_sendq n)[q := (ne_sendq n ! q)\<lparr>sq_filled := True\<rparr>]\<rparr>) s;
            s = ne_start_xmit dev (sq_sendpage (ne_sendq (ne s) ! q)) len s;
            s = upd_ne (\<lambda>n. n\<lparr>ne_sendq_head := ne_sendq_head n + 1\<rparr>) s
        in Inr (len, s)))))"

text \<open>\<open>buf\<close> is whether the buffer is not the null pointer; the device switch passes a buffer. The page registers are bytes, so the page numbers stay small.\<close>

definition ne_pio_read ::
  "'d nicdev \<Rightarrow> bool \<Rightarrow> int \<Rightarrow> ('d, 'a) nestate_scheme \<Rightarrow> ((int \<times> byte list) \<times> ('d, 'a) nestate_scheme) res" where
  "ne_pio_read dev buf bufsize s =
     (let s = nout dev 0 CR_PS_P1 s in
      case nin dev 7 s of (cpage, s) \<Rightarrow>
      let s = nout dev 0 (CR_PS_P0 OR CR_NO_DMA OR CR_STA) s in
      case nin dev 3 s of (bnry, s) \<Rightarrow>
      let page = uint bnry + 1;
          page = (if page = ne_recv_stoppage (ne s) then ne_recv_startpage (ne s) else page)
      in if page = uint cpage
         then andThen (ne_print ''%s: no packet to read'' [Str (Some (ne_name (ne s)))] s) (\<lambda>s. Inr ((0, []), s))
         else
           case ne_getblock dev (word_of_int (page * DP_PAGESIZE)) 4 s of (h, s) \<Rightarrow>
           if length h > 4 then Inl (Wild ''ne_pio_read: header'')
           else
             let pktsize = (ucast (get16 h 2) :: uint) - 4;
                 status = h ! 0; nxt = h ! 1
             in if unat pktsize < ETH_MIN_SIZE \<or> unat pktsize > ETH_MAX_SIZE \<or> status AND 1 = 0
                then
                  andThen (ne_print ''%s: Bad packet (size: %d, status: 0x%x)''
                    [Str (Some (ne_name (ne s))), Num pktsize, Num (ucast status)] s) (\<lambda>s. Inr ((- 1, []), s))
                else if \<not> buf \<or> pktsize > word_of_int bufsize then Inr ((uint pktsize, []), s)
                else
                  let remain = word_of_int (ne_recv_stoppage (ne s) - page) * 256 :: uint in
                  case (if remain < pktsize
                        then
                          case ne_getblock dev (word_of_int (page * DP_PAGESIZE) + 4) (sint remain) s of (b1, s) \<Rightarrow>
                          case ne_getblock dev (word_of_int (ne_recv_startpage (ne s) * DP_PAGESIZE)) (sint (pktsize - remain)) s of (b2, s) \<Rightarrow>
                          (patch b1 (unat remain) b2, s)
                        else ne_getblock dev (word_of_int (page * DP_PAGESIZE) + 4) (uint pktsize) s) of (b, s) \<Rightarrow>
                  let bnry = (ucast nxt :: uint) - 1;
                      v = (if bnry < word_of_int (ne_recv_startpage (ne s)) then word_of_int (ne_recv_stoppage (ne s) - 1) else ucast bnry)
                  in Inr ((uint pktsize, b), nout dev 3 v s))"

primrec ne_interrupt :: "'d nicdev \<Rightarrow> nat \<Rightarrow> ('d, 'a) nestate_scheme \<Rightarrow> ('d, 'a) nestate_scheme res" where
  "ne_interrupt dev 0 s = Inl (Spins ''ne_interrupt'')"
| "ne_interrupt dev (Suc k) s =
     (case nin dev 7 s of (isr, s) \<Rightarrow>
      if isr = 0 then Inr s
      else
        let s = nout dev 7 isr s in
        andThen
          (if isr AND ISR_PTX \<noteq> 0
           then
             let s = upd_ne (\<lambda>n. n\<lparr>ne_sendq_tail := ne_sendq_tail n + 1\<rparr>) s;
                 q = nat (ne_sendq_tail (ne s) mod int SENDQ_LEN);
                 s = upd_ne (\<lambda>n. n\<lparr>ne_sendq := (ne_sendq n)[q := (ne_sendq n ! q)\<lparr>sq_filled := False\<rparr>]\<rparr>) s
             in ne_print ''%s: packet transmitted with no error.'' [Str (Some (ne_name (ne s)))] s
           else Inr s) (\<lambda>s.
        andThen
          (if isr AND ISR_PRX \<noteq> 0
           then ne_print ''%s: packet received with no error.'' [Str (Some (ne_name (ne s)))] s
           else Inr s) (\<lambda>s.
        ne_interrupt dev k s)))"

section \<open>eth.c\<close>

definition ethintr :: "'d nicdev \<Rightarrow> nat \<Rightarrow> ('d, 'a) nestate_scheme \<Rightarrow> ('d, 'a) nestate_scheme res" where
  "ethintr dev k s = ne_interrupt dev k s"

definition ETH_IPC_SETUP :: int where "ETH_IPC_SETUP = 1"

definition ethioctl :: "nat \<Rightarrow> int \<Rightarrow> uint \<Rightarrow> ('d, 'a) nestate_scheme \<Rightarrow> (int \<times> ('d, 'a) nestate_scheme) res" where
  "ethioctl ip request p s =
     (if request = ETH_IPC_SETUP
      then
        if ne_base (ne s) = 0
        then andThen (ne_print ''eth: Network interface not initialized'' [] s) (\<lambda>s. Inr (- 1, s))
        else if ne_pages (ne s) = 0 \<or> ne_recv_startpage (ne s) = 0
        then andThen (ne_print ''eth: Network interface configuration invalid'' [] s) (\<lambda>s. Inr (- 1, s))
        else
          andThen (ne_print ''eth: Network interface ready (base=0x%x, irq=%d)''
            [Num (word_of_int (ne_base (ne s))), Num (of_nat (ne_irq (ne s)))] s) (\<lambda>s. Inr (0, s))
      else
        andThen (ne_print ''%s: Received unrecognized ioctl request %d.''
          [Str (Some (ne_name (ne s))), Num (word_of_int request)] s) (\<lambda>s. Inr (- 1, s)))"

definition ethread ::
  "'d nicdev \<Rightarrow> bool \<Rightarrow> nat \<Rightarrow> uint \<Rightarrow> ('d, 'a) nestate_scheme \<Rightarrow> ((int \<times> byte list) \<times> ('d, 'a) nestate_scheme) res" where
  "ethread dev buf ip n s = ne_pio_read dev buf (sint n) s"

definition ethwrite ::
  "'d nicdev \<Rightarrow> nat \<Rightarrow> nat \<Rightarrow> byte list \<Rightarrow> uint \<Rightarrow> ('d, 'a) nestate_scheme \<Rightarrow> (int \<times> ('d, 'a) nestate_scheme) res" where
  "ethwrite dev k ip p n s = ne_pio_write dev k p (sint n) s"

definition ETHERNET :: int where "ETHERNET = 2"

definition ne_zero :: ne_t where
  "ne_zero = \<lparr>ne_name = replicate 8 0, ne_irq = 0, ne_base = 0, ne_address = replicate 6 0, ne_is16bit = False, ne_ramsize = 0,
     ne_pages = 0, ne_startaddr = 0, ne_send_startpage = 0, ne_send_stoppage = 0, ne_recv_startpage = 0, ne_recv_stoppage = 0,
     ne_sendq = replicate SENDQ_LEN \<lparr>sq_filled = False, sq_sendpage = 0\<rparr>, ne_sendq_head = 0, ne_sendq_tail = 0\<rparr>"

definition eth_ports :: "int list" where
  "eth_ports = [0x300, 0xC100, 0x240, 0x280, 0x320, 0x340, 0x360]"

primrec eth_probe_ports :: "'d nicdev \<Rightarrow> nat \<Rightarrow> int list \<Rightarrow> ('d, 'a) nestate_scheme \<Rightarrow> ('d, 'a) nestate_scheme res" where
  "eth_probe_ports dev i [] s = Inr s"
| "eth_probe_ports dev i (port # ps) s =
     andThen (ne_print ''Ethernet: Probing port 0x%x.'' [Num (word_of_int port)] s) (\<lambda>s.
     andThen (strncpy (replicate 8 0) (map of_char ''eth'' @ [48 + of_nat i, 0]) 7) (\<lambda>nm.
     let s = s\<lparr>ne := ne_zero\<lparr>ne_name := nm, ne_irq := IRQ_ETH, ne_base := port\<rparr>\<rparr> in
     andThen (ne_probe dev s) (\<lambda>(found, s).
     if found
     then
       andThen (ne_print ''Ethernet: Found card at port 0x%x, initializing...'' [Num (word_of_int port)] s) (\<lambda>s.
       andThen (ne_init dev s) (\<lambda>s.
       Inr (ioapicenable (ne_irq (ne s)) 0 (picenable (ne_irq (ne s)) s))))
     else eth_probe_ports dev (Suc i) ps s)))"

definition ethinit ::
  "'d nicdev \<Rightarrow> nat \<Rightarrow> ('d, 'a) nestate_scheme devsw_t \<Rightarrow> ('d, 'a) nestate_scheme \<Rightarrow>
   (('d, 'a) nestate_scheme devsw_t \<times> ('d, 'a) nestate_scheme) res" where
  "ethinit dev k dv s =
     (let dv = dv\<lparr>dv_write := (dv_write dv)(ETHERNET := Some (ethwrite dev k))\<rparr>;
          dv = dv\<lparr>dv_read := (dv_read dv)(ETHERNET := Some (ethread dev True))\<rparr>;
          dv = dv\<lparr>dv_ioctl := (dv_ioctl dv)(ETHERNET := Some ethioctl)\<rparr>
      in andThen (eth_probe_ports dev 0 eth_ports s) (\<lambda>s. Inr (dv, s)))"

end
