(* ===== verification/Lapic.thy ===== *)
theory Lapic
  imports Ne
begin

unbundle bit_operations_syntax

text \<open>
  The local interrupt controller (\<^verbatim>\<open>lapic.c\<close>) and the search for the multiprocessor tables (\<^verbatim>\<open>mp.c\<close>, \<^verbatim>\<open>mp.h\<close>).

  \<open>lapic\<close> is the address of the controller's registers, 0 if there is none; writes to them are logged in \<open>lapic_w\<close>.
  What the hardware answers is the argument \<open>lr\<close>: the value of a register at the \<open>n\<close>-th time it is polled. The tables
  of the BIOS are bytes of memory. \<open>cpus[i].id\<close> is \<open>i\<close>.
\<close>

record 'd apicstate = "'d nestate" +
  lapic :: uint
  lapic_w :: "(nat \<times> uint) list"
  bcpu :: nat
  cpunum_n :: nat

section \<open>lapic.c\<close>

definition LAPIC_ID :: nat where "LAPIC_ID = 0x20 div 4"
definition LAPIC_VER :: nat where "LAPIC_VER = 0x30 div 4"
definition LAPIC_TPR :: nat where "LAPIC_TPR = 0x80 div 4"
definition LAPIC_EOI :: nat where "LAPIC_EOI = 0xB0 div 4"
definition LAPIC_SVR :: nat where "LAPIC_SVR = 0xF0 div 4"
definition LAPIC_ESR :: nat where "LAPIC_ESR = 0x280 div 4"
definition LAPIC_ICRLO :: nat where "LAPIC_ICRLO = 0x300 div 4"
definition LAPIC_ICRHI :: nat where "LAPIC_ICRHI = 0x310 div 4"
definition LAPIC_TIMER :: nat where "LAPIC_TIMER = 0x320 div 4"
definition LAPIC_PCINT :: nat where "LAPIC_PCINT = 0x340 div 4"
definition LAPIC_LINT0 :: nat where "LAPIC_LINT0 = 0x350 div 4"
definition LAPIC_LINT1 :: nat where "LAPIC_LINT1 = 0x360 div 4"
definition LAPIC_ERROR :: nat where "LAPIC_ERROR = 0x370 div 4"
definition LAPIC_TICR :: nat where "LAPIC_TICR = 0x380 div 4"
definition LAPIC_TDCR :: nat where "LAPIC_TDCR = 0x3E0 div 4"
definition LAPIC_MASKED :: uint where "LAPIC_MASKED = 0x00010000"
definition IRQ_ERROR :: nat where "IRQ_ERROR = 19"
definition IRQ_SPURIOUS :: nat where "IRQ_SPURIOUS = 31"

definition lapicw :: "nat \<Rightarrow> uint \<Rightarrow> ('d, 'a) apicstate_scheme \<Rightarrow> ('d, 'a) apicstate_scheme" where
  "lapicw i v s = s\<lparr>lapic_w := lapic_w s @ [(i, v)]\<rparr>"

primrec icr_wait :: "nat \<Rightarrow> nat \<Rightarrow> (nat \<Rightarrow> nat \<Rightarrow> uint) \<Rightarrow> ('d, 'a) apicstate_scheme \<Rightarrow> ('d, 'a) apicstate_scheme res" where
  "icr_wait 0 n lr s = Inl (Spins ''lapicinit'')"
| "icr_wait (Suc k) n lr s = (if lr LAPIC_ICRLO n AND 0x1000 \<noteq> 0 then icr_wait k (Suc n) lr s else Inr s)"

definition lapicinit ::
  "nat \<Rightarrow> (nat \<Rightarrow> nat \<Rightarrow> uint) \<Rightarrow> nat \<Rightarrow> ('d, 'a) apicstate_scheme \<Rightarrow> ('d, 'a) apicstate_scheme res" where
  "lapicinit k lr c s =
     andThen (cprintf (lit (''lapicinit: %d 0x%x'' @ [CHR 0x0A])) [Num (of_nat c), Num (lapic s)] s) (\<lambda>s.
     if lapic s = 0 then Inr s
     else
       let s = lapicw LAPIC_SVR (0x100 OR of_nat (T_IRQ0 + IRQ_SPURIOUS)) s;
           s = lapicw LAPIC_TDCR 0xB s;
           s = lapicw LAPIC_TIMER (0x20000 OR of_nat (T_IRQ0 + IRQ_TIMER)) s;
           s = lapicw LAPIC_TICR 10000000 s;
           s = lapicw LAPIC_LINT0 LAPIC_MASKED s;
           s = lapicw LAPIC_LINT1 LAPIC_MASKED s;
           s = (if drop_bit 16 (lr LAPIC_VER 0) AND 0xFF \<ge> 4 then lapicw LAPIC_PCINT LAPIC_MASKED s else s);
           s = lapicw LAPIC_ERROR (of_nat (T_IRQ0 + IRQ_ERROR)) s;
           s = lapicw LAPIC_ESR 0 s;
           s = lapicw LAPIC_ESR 0 s;
           s = lapicw LAPIC_EOI 0 s;
           s = lapicw LAPIC_ICRHI 0 s;
           s = lapicw LAPIC_ICRLO (0x80000 OR 0x500 OR 0x8000) s
       in andThen (icr_wait k 0 lr s) (\<lambda>s. Inr (lapicw LAPIC_TPR 0 s)))"

text \<open>\<open>ra\<close> is the return address that the message shows.\<close>

definition cpunum ::
  "(nat \<Rightarrow> nat \<Rightarrow> uint) \<Rightarrow> uint \<Rightarrow> ('d, 'a) apicstate_scheme \<Rightarrow> (uint \<times> ('d, 'a) apicstate_scheme) res" where
  "cpunum lr ra s =
     andThen
       (if ifl (mycpu s)
        then
          let n = cpunum_n s; s = s\<lparr>cpunum_n := Suc n\<rparr> in
          if n = 0 then cprintf (lit (''cpu called from %x with interrupts enabled'' @ [CHR 0x0A])) [Num ra] s else Inr s
        else Inr s) (\<lambda>s.
     Inr (if lapic s \<noteq> 0 then drop_bit 24 (lr LAPIC_ID 0) else 0, s))"

definition lapiceoi :: "('d, 'a) apicstate_scheme \<Rightarrow> ('d, 'a) apicstate_scheme" where
  "lapiceoi s = (if lapic s \<noteq> 0 then lapicw LAPIC_EOI 0 s else s)"

definition microdelay :: "int \<Rightarrow> 's \<Rightarrow> 's" where
  "microdelay us s = s"

definition lapicstartap :: "byte \<Rightarrow> uint \<Rightarrow> ('d, 'a) apicstate_scheme \<Rightarrow> ('d, 'a) apicstate_scheme" where
  "lapicstartap apicid addr s =
     (let s = outb 0x70 0xF s;
          s = outb 0x71 0x0A s;
          s = s\<lparr>pmem := store16 (pmem s) 0x467 0\<rparr>;
          s = s\<lparr>pmem := store16 (pmem s) 0x469 (ucast (drop_bit 4 addr))\<rparr>;
          s = lapicw LAPIC_ICRHI (push_bit 24 (ucast apicid)) s;
          s = lapicw LAPIC_ICRLO (0x500 OR 0x8000 OR 0x4000) s;
          s = microdelay 200 s;
          s = lapicw LAPIC_ICRLO (0x500 OR 0x8000) s;
          s = microdelay 100 s;
          ipi = (\<lambda>s. microdelay 200 (lapicw LAPIC_ICRLO (0x600 OR drop_bit 12 addr)
                      (lapicw LAPIC_ICRHI (push_bit 24 (ucast apicid)) s)))
      in ipi (ipi s))"

section \<open>mp.c\<close>

definition mpbcpu :: "('d, 'a) apicstate_scheme \<Rightarrow> nat" where
  "mpbcpu s = bcpu s"

definition sum_bytes :: "mem \<Rightarrow> uint \<Rightarrow> nat \<Rightarrow> byte" where
  "sum_bytes m addr len = sum_list (bytes_at m addr len)"

text \<open>\<open>struct mp\<close> is 16 bytes.\<close>

primrec mpsearch1_loop :: "nat \<Rightarrow> mem \<Rightarrow> uint \<Rightarrow> uint option" where
  "mpsearch1_loop 0 m p = None"
| "mpsearch1_loop (Suc k) m p =
     (if bytes_at m p 4 = map of_char ''_MP_'' \<and> sum_bytes m p 16 = 0 then Some p else mpsearch1_loop k m (p + 16))"

definition mpsearch1 :: "mem \<Rightarrow> uint \<Rightarrow> nat \<Rightarrow> uint option" where
  "mpsearch1 m addr len = mpsearch1_loop ((len + 15) div 16) m addr"

definition mpsearch :: "mem \<Rightarrow> uint option" where
  "mpsearch m =
     (let p = push_bit 4 (push_bit 8 (ucast (m 0x40F)) OR ucast (m 0x40E));
          r = (if p \<noteq> 0 then mpsearch1 m p 1024
               else mpsearch1 m ((push_bit 8 (ucast (m 0x414)) OR ucast (m 0x413)) * 1024 - 1024) 1024)
      in case r of Some q \<Rightarrow> Some q | None \<Rightarrow> mpsearch1 m 0xF0000 0x10000)"

text \<open>The configuration table and the floating pointer.\<close>

definition mpconfig :: "mem \<Rightarrow> (uint \<times> uint) option" where
  "mpconfig m =
     (case mpsearch m of
        None \<Rightarrow> None
      | Some mp \<Rightarrow>
          let conf = load32 m (mp + 4) in
          if conf = 0 then None
          else if bytes_at m conf 4 \<noteq> map of_char ''PCMP'' then None
          else if m (conf + 6) \<noteq> 1 \<and> m (conf + 6) \<noteq> 4 then None
          else if sum_bytes m conf (unat (load16 m (conf + 4))) \<noteq> 0 then None
          else Some (conf, mp))"

text \<open>The entries from \<open>p\<close> to \<open>e\<close>; an entry of unknown type does not move \<open>p\<close>. \<open>cpus\<close> has room for \<open>NCPU\<close>.\<close>

primrec mpinit_loop :: "nat \<Rightarrow> uint \<Rightarrow> uint \<Rightarrow> ('d, 'a) apicstate_scheme \<Rightarrow> ('d, 'a) apicstate_scheme res" where
  "mpinit_loop 0 p e s = Inl (Spins ''mpinit'')"
| "mpinit_loop (Suc k) p e s =
     (if \<not> p < e then Inr s
      else if pmem s p = 0
      then
        let apicid = pmem s (p + 1) in
        andThen
          (if int (ncpu s) \<noteq> uint apicid
           then andThen (cprintf (lit (''mpinit: ncpu=%d apicid=%d'' @ [CHR 0x0A])) [Num (of_nat (ncpu s)), Num (ucast apicid)] s) (\<lambda>s.
                Inr (s\<lparr>ismp := False\<rparr>))
           else Inr s) (\<lambda>s.
        let s = (if pmem s (p + 3) AND 2 \<noteq> 0 then s\<lparr>bcpu := ncpu s\<rparr> else s) in
        if ncpu s \<ge> 8 then Inl (Wild ''mpinit: cpus'')
        else mpinit_loop k (p + 20) e (s\<lparr>ncpu := ncpu s + 1\<rparr>))
      else if pmem s p = 2 then mpinit_loop k (p + 8) e (s\<lparr>ioapicid := pmem s (p + 1)\<rparr>)
      else if pmem s p = 1 \<or> pmem s p = 3 \<or> pmem s p = 4 then mpinit_loop k (p + 8) e s
      else
        andThen (cprintf (lit (''mpinit: unknown config type %x'' @ [CHR 0x0A])) [Num (ucast (pmem s p))] s) (\<lambda>s.
        mpinit_loop k p e (s\<lparr>ismp := False\<rparr>)))"

text \<open>\<open>imcr\<close> is what port 0x23 answers. Every known entry takes at least 8 bytes.\<close>

definition mpinit :: "nat \<Rightarrow> byte \<Rightarrow> ('d, 'a) apicstate_scheme \<Rightarrow> ('d, 'a) apicstate_scheme res" where
  "mpinit k imcr s =
     (let s = s\<lparr>bcpu := 0\<rparr> in
      case mpconfig (pmem s) of
        None \<Rightarrow> Inr s
      | Some (conf, mp) \<Rightarrow>
          let s = s\<lparr>ismp := True, lapic := load32 (pmem s) (conf + 36)\<rparr> in
          andThen (mpinit_loop k (conf + 44) (conf + ucast (load16 (pmem s) (conf + 4))) s) (\<lambda>s.
          if \<not> ismp s then Inr (s\<lparr>ncpu := 1, lapic := 0, ioapicid := 0\<rparr>)
          else if pmem s (mp + 12) \<noteq> 0 then Inr (outb 0x23 (imcr OR 1) (outb 0x22 0x70 s))
          else Inr s))"

end
