(* ===== verification/Trap.thy ===== *)
theory Trap
  imports Lapic
begin

unbundle bit_operations_syntax

text \<open>
  Traps (\<^verbatim>\<open>trap.c\<close>, \<^verbatim>\<open>traps.h\<close>) and the start of the kernel (\<^verbatim>\<open>main.c\<close>).

  A trap frame is its address. \<open>trap\<close> is cut where the process leaves the CPU: \<open>trapout\<close> says whether it returned,
  sleeps in a system call, has yielded, or is gone, and \<open>trap_resume\<close> continues it. The start of the kernel is cut where it jumps
  to a new stack, to the scheduler, and where it waits for another CPU.
\<close>

record 'd trapstate = "'d apicstate" +
  idt :: "gatedesc list"
  idtr :: "nat \<Rightarrow> bool"
  booted :: "nat \<Rightarrow> bool"

definition T_SYSCALL :: nat where "T_SYSCALL = 64"

section \<open>The interrupt table\<close>

text \<open>\<open>vectors\<close> are the entry points of \<^verbatim>\<open>vectors.S\<close>.\<close>

definition tvinit :: "(nat \<Rightarrow> uint) \<Rightarrow> ('d, 'a) trapstate_scheme \<Rightarrow> ('d, 'a) trapstate_scheme" where
  "tvinit vectors s =
     (let kcode = push_bit 3 (of_nat SEG_KCODE);
          s = s\<lparr>idt := map (\<lambda>i. SETGATE False kcode (vectors i) 0) [0..<256]\<rparr>;
          s = s\<lparr>idt := (idt s)[T_SYSCALL := SETGATE True kcode (vectors T_SYSCALL) DPL_USER]\<rparr>
      in initlock L_ticks ''time'' s)"

definition idtinit :: "('d, 'a) trapstate_scheme \<Rightarrow> ('d, 'a) trapstate_scheme" where
  "idtinit s = s\<lparr>idtr := (idtr s)(cur s := True)\<rparr>"

section \<open>Handlers\<close>

datatype trapout = T_ret | T_sleep sleepk | T_yield bool | T_gone

definition exit_trap :: "kimage \<Rightarrow> ('d, 'a) trapstate_scheme \<Rightarrow> (trapout \<times> ('d, 'a) trapstate_scheme) res" where
  "exit_trap im s = andThen (exit_proc im s) (\<lambda>(_, s). Inr (T_gone, s))"

text \<open>What \<open>handle_syscall\<close> does with the outcome of the call.\<close>

definition after_syscall ::
  "kimage \<Rightarrow> nat \<Rightarrow> sysout \<times> ('d, 'a) trapstate_scheme \<Rightarrow> (trapout \<times> ('d, 'a) trapstate_scheme) res" where
  "after_syscall im me r =
     (case r of
        (SRet v, s) \<Rightarrow> if p_killed (procs s ! me) then exit_trap im s else Inr (T_ret, s)
      | (SAsleep k, s) \<Rightarrow> Inr (T_sleep k, s)
      | (SGone, s) \<Rightarrow> Inr (T_gone, s))"

definition handle_syscall ::
  "kimage \<Rightarrow> ('d, 'a) trapstate_scheme devsw_t \<Rightarrow> uint \<Rightarrow> ('d, 'a) trapstate_scheme \<Rightarrow> (trapout \<times> ('d, 'a) trapstate_scheme) res" where
  "handle_syscall im dv tf s =
     (case myproc s of
        None \<Rightarrow> Inl (Wild ''proc'')
      | Some me \<Rightarrow>
          if p_killed (procs s ! me) then exit_trap im s
          else
            let s = upd_proc me (\<lambda>p. p\<lparr>p_tf := tf\<rparr>) s in
            andThen (syscall im dv s) (after_syscall im me))"

definition tfield :: "uint \<Rightarrow> uint \<Rightarrow> 'a kmem_scheme \<Rightarrow> uint" where
  "tfield tf off s = load32 (pmem s) (tf + off)"

definition tf_cs :: "uint \<Rightarrow> 'a kmem_scheme \<Rightarrow> ushort" where
  "tf_cs tf s = load16 (pmem s) (tf + TF_cs)"

definition trapno :: "uint \<Rightarrow> 'a kmem_scheme \<Rightarrow> nat" where
  "trapno tf s = unat (tfield tf TF_trapno s)"

definition timer_tick :: "('d, 'a) trapstate_scheme \<Rightarrow> ('d, 'a) trapstate_scheme res" where
  "timer_tick s =
     andThen (acquire L_ticks s) (\<lambda>s.
     let s = s\<lparr>ticks := ticks s + 1\<rparr> in
     andThen (wakeup C_ticks s) (\<lambda>s. release L_ticks s))"

definition handle_device_interrupt ::
  "'d nicdev \<Rightarrow> nat \<Rightarrow> uint \<Rightarrow> ('d, 'a) trapstate_scheme \<Rightarrow> (bool \<times> ('d, 'a) trapstate_scheme) res" where
  "handle_device_interrupt dev k tf s =
     (let n = trapno tf s in
      if n = T_IRQ0 + IRQ_TIMER
      then andThen (if cur s = 0 then timer_tick s else Inr s) (\<lambda>s. Inr (True, lapiceoi s))
      else if n = T_IRQ0 + IRQ_IDE then andThen (ideintr s) (\<lambda>s. Inr (True, lapiceoi s))
      else if n = T_IRQ0 + IRQ_IDE + 1 then Inr (True, s)
      else if n = T_IRQ0 + IRQ_KBD then andThen (kbdintr s) (\<lambda>s. Inr (True, lapiceoi s))
      else if n = T_IRQ0 + IRQ_COM1 then andThen (uartintr s) (\<lambda>s. Inr (True, lapiceoi s))
      else if n = T_IRQ0 + IRQ_ETH then andThen (ethintr dev k s) (\<lambda>s. Inr (True, lapiceoi s))
      else if n = T_IRQ0 + 7 \<or> n = T_IRQ0 + IRQ_SPURIOUS
      then
        andThen (cprintf (lit (''cpu%d: spurious interrupt at %x:%x'' @ [CHR 0x0A]))
          [Num (of_nat (cur s)), Num (ucast (tf_cs tf s)), Num (tfield tf TF_eip s)] s) (\<lambda>s. Inr (True, lapiceoi s))
      else Inr (False, s))"

text \<open>\<open>cr2\<close> is the faulting address.\<close>

definition handle_unexpected_trap ::
  "uint \<Rightarrow> uint \<Rightarrow> ('d, 'a) trapstate_scheme \<Rightarrow> ('d, 'a) trapstate_scheme res" where
  "handle_unexpected_trap cr2 tf s =
     (case (if tf_cs tf s AND 3 = 0 then None else myproc s) of
        None \<Rightarrow>
          andThen (cprintf (lit (''unexpected trap %d from cpu %d eip %x (cr2=0x%x)'' @ [CHR 0x0A]))
            [Num (tfield tf TF_trapno s), Num (of_nat (cur s)), Num (tfield tf TF_eip s), Num cr2] s) (\<lambda>s.
          Inl (Panic ''trap''))
      | Some me \<Rightarrow>
          andThen (cprintf (lit (''pid %d %s: trap %d err %d on cpu %d eip 0x%x addr 0x%x--kill proc'' @ [CHR 0x0A]))
            [Num (word_of_int (p_pid (procs s ! me))), Str (Some (p_name (procs s ! me))), Num (tfield tf TF_trapno s),
             Num (tfield tf TF_err s), Num (of_nat (cur s)), Num (tfield tf TF_eip s), Num cr2] s) (\<lambda>s.
          Inr (upd_proc me (\<lambda>p. p\<lparr>p_killed := True\<rparr>) s)))"

definition from_user :: "uint \<Rightarrow> 'a kmem_scheme \<Rightarrow> bool" where
  "from_user tf s \<longleftrightarrow> tf_cs tf s AND 3 = 3"

definition must_exit :: "uint \<Rightarrow> 'a ptab_scheme \<Rightarrow> bool" where
  "must_exit tf s \<longleftrightarrow> (case myproc s of None \<Rightarrow> False | Some me \<Rightarrow> p_killed (procs s ! me)) \<and> from_user tf s"

definition last_check :: "kimage \<Rightarrow> uint \<Rightarrow> ('d, 'a) trapstate_scheme \<Rightarrow> (trapout \<times> ('d, 'a) trapstate_scheme) res" where
  "last_check im tf s = (if must_exit tf s then exit_trap im s else Inr (T_ret, s))"

definition trap ::
  "kimage \<Rightarrow> ('d, 'a) trapstate_scheme devsw_t \<Rightarrow> 'd nicdev \<Rightarrow> nat \<Rightarrow> uint \<Rightarrow> uint \<Rightarrow> ('d, 'a) trapstate_scheme \<Rightarrow>
   (trapout \<times> ('d, 'a) trapstate_scheme) res" where
  "trap im dv dev k cr2 tf s =
     (if trapno tf s = T_SYSCALL then handle_syscall im dv tf s
      else
        andThen (handle_device_interrupt dev k tf s) (\<lambda>(ok, s).
        andThen (if ok then Inr s else handle_unexpected_trap cr2 tf s) (\<lambda>s.
        if must_exit tf s then exit_trap im s
        else
          case myproc s of
            Some me \<Rightarrow>
              if p_state (procs s ! me) = RUNNING \<and> trapno tf s = T_IRQ0 + IRQ_TIMER
              then andThen (yield_switch s) (\<lambda>(saved, s). Inr (T_yield saved, s))
              else last_check im tf s
          | None \<Rightarrow> last_check im tf s)))"

definition trap_resume ::
  "kimage \<Rightarrow> uint \<Rightarrow> trapout \<Rightarrow> ('d, 'a) trapstate_scheme \<Rightarrow> (trapout \<times> ('d, 'a) trapstate_scheme) res" where
  "trap_resume im tf r s =
     (case r of
        T_sleep k \<Rightarrow>
          (case myproc s of
             None \<Rightarrow> Inl (Wild ''proc'')
           | Some me \<Rightarrow> andThen (syscall_resume im k s) (after_syscall im me))
      | T_yield saved \<Rightarrow> andThen (yield_resume saved s) (\<lambda>s. last_check im tf s)
      | T_ret \<Rightarrow> Inr (T_ret, s)
      | T_gone \<Rightarrow> Inl (Panic ''zombie exit''))"

section \<open>Starting the kernel\<close>

text \<open>What the machine and the linker provide: the image, the entry points of the traps, the card, what the
  local interrupt controller and port 0x23 answer, whether the serial port answers, the addresses of the CPUs' \<open>cpu\<close> fields, the code of
  \<^verbatim>\<open>bootother.S\<close>, the address of \<open>mpmain\<close>, and how long to wait.\<close>

record 'd board =
  bd_image :: kimage
  bd_vectors :: "nat \<Rightarrow> uint"
  bd_nic :: "'d nicdev"
  bd_lapic :: "nat \<Rightarrow> nat \<Rightarrow> uint"
  bd_imcr :: byte
  bd_uart :: bool
  bd_cpu :: "nat \<Rightarrow> uint"
  bd_other :: "byte list"
  bd_mpmain :: uint
  bd_polls :: nat

definition jmpkstack :: "('d, 'a) trapstate_scheme \<Rightarrow> (uint \<times> ('d, 'a) trapstate_scheme) res" where
  "jmpkstack s =
     andThen (kalloc s) (\<lambda>(kstack, s).
     if kstack = 0 then Inl (Panic ''jmpkstack kalloc'') else Inr (kstack + PGSIZE, s))"

definition main :: "'d board \<Rightarrow> ('d, 'a) trapstate_scheme \<Rightarrow> (uint \<times> ('d, 'a) trapstate_scheme) res" where
  "main bd s =
     andThen (mpinit (bd_polls bd) (bd_imcr bd) s) (\<lambda>s.
     andThen (lapicinit (bd_polls bd) (bd_lapic bd) (mpbcpu s) s) (\<lambda>s.
     let s = seginit (bd_cpu bd) s in
     andThen (kinit (im_end (bd_image bd)) s) (\<lambda>s. jmpkstack s)))"

text \<open>Starting one more CPU, up to the wait for its \<open>booted\<close>.\<close>

definition boot_cpu :: "'d board \<Rightarrow> nat \<Rightarrow> ('d, 'a) trapstate_scheme \<Rightarrow> ('d, 'a) trapstate_scheme res" where
  "boot_cpu bd c s =
     andThen (kalloc s) (\<lambda>(stack, s).
     let s = s\<lparr>pmem := store32 (pmem s) (0x7000 - 4) (stack + KSTACKSIZE)\<rparr>;
         s = s\<lparr>pmem := store32 (pmem s) (0x7000 - 8) (bd_mpmain bd)\<rparr>
     in Inr (lapicstartap (of_nat c) 0x7000 s))"

text \<open>\<open>bootothers\<close> waits for every CPU it starts, so the other CPU is \<open>booted\<close> when the loop goes on.\<close>

primrec bootothers_loop :: "'d board \<Rightarrow> nat \<Rightarrow> nat \<Rightarrow> ('d, 'a) trapstate_scheme \<Rightarrow> ('d, 'a) trapstate_scheme res" where
  "bootothers_loop bd 0 c s = Inr s"
| "bootothers_loop bd (Suc k) c s =
     andThen (cpunum (bd_lapic bd) 0 s) (\<lambda>(me, s).
     if c = unat me then bootothers_loop bd k (Suc c) s
     else
       andThen (boot_cpu bd c s) (\<lambda>s.
       if booted s c then bootothers_loop bd k (Suc c) s else Inl (Spins ''bootothers'')))"

definition bootothers :: "'d board \<Rightarrow> ('d, 'a) trapstate_scheme \<Rightarrow> ('d, 'a) trapstate_scheme res" where
  "bootothers bd s =
     (let s = s\<lparr>pmem := put_bytes (pmem s) 0x7000 (bd_other bd)\<rparr> in
      bootothers_loop bd (ncpu s) 0 s)"

definition mpmain :: "'d board \<Rightarrow> ('d, 'a) trapstate_scheme \<Rightarrow> ('d, 'a) trapstate_scheme res" where
  "mpmain bd s =
     andThen (cpunum (bd_lapic bd) 0 s) (\<lambda>(c, s).
     andThen
       (if unat c \<noteq> mpbcpu s
        then
          let s = seginit (bd_cpu bd) s in
          andThen (cpunum (bd_lapic bd) 0 s) (\<lambda>(c, s). lapicinit (bd_polls bd) (bd_lapic bd) (unat c) s)
        else Inr s) (\<lambda>s.
     let s = vmenable s in
     andThen (cprintf (lit (''cpu%d: starting'' @ [CHR 0x0A])) [Num (of_nat (cur s))] s) (\<lambda>s.
     let s = idtinit s in
     Inr (s\<lparr>booted := (booted s)(cur s := True)\<rparr>))))"

definition mainc ::
  "'d board \<Rightarrow> ('d, 'a) trapstate_scheme devsw_t \<Rightarrow> ('d, 'a) trapstate_scheme \<Rightarrow>
   (('d, 'a) trapstate_scheme devsw_t \<times> ('d, 'a) trapstate_scheme) res" where
  "mainc bd dv s =
     (let im = bd_image bd in
      andThen (cprintf (lit ([CHR 0x0A] @ ''cpu%d: starting xv6'' @ [CHR 0x0A, CHR 0x0A])) [Num (of_nat (cur s))] s) (\<lambda>s.
      let s = picinit s;
          s = ioapicinit s
      in case consoleinit (dv_read dv, dv_write dv) s of ((devr, devw), s) \<Rightarrow>
         let dv = dv\<lparr>dv_read := devr, dv_write := devw\<rparr>;
             s = uartinit (bd_uart bd) s
         in andThen (kvmalloc (im_data im) s) (\<lambda>s.
            let s = pinit s;
                s = tvinit (bd_vectors bd) s;
                s = binit s;
                s = fileinit s;
                s = iinit s
            in andThen (ideinit s) (\<lambda>s.
               andThen (ethinit (bd_nic bd) (bd_polls bd) dv s) (\<lambda>(dv, s).
               let s = (if \<not> ismp s then timerinit s else s) in
               andThen (userinit im s) (\<lambda>s.
               andThen (bootothers bd s) (\<lambda>s.
               andThen (mpmain bd s) (\<lambda>s. Inr (dv, s)))))))))"

end
