(* ===== verification/SyscallOk.thy ===== *)
theory SyscallOk
  imports Trap
begin

unbundle bit_operations_syntax

text \<open>
  The arguments of system calls: pointers and strings that pass the checks lie in the memory of the process, unless the
  length is negative.
\<close>

section \<open>Arguments\<close>

lemma fetchstr_loop_ok:
  "fetchstr_loop k a ep acc s = Inr (Some str) \<Longrightarrow>
   \<exists>bs. str = acc @ bs @ [0] \<and> 0 \<notin> set bs \<and> length bs < k \<and>
     (\<forall>i\<le>length bs. a + of_nat i < ep \<and> uload (a + of_nat i) s = Inr ((bs @ [0]) ! i))"
proof (induction k arbitrary: a acc)
  case (Suc k)
  then obtain b where b: "a < ep" "uload a s = Inr b" by (auto simp: seq_simps split: if_splits)
  show ?case
  proof (cases "b = 0")
    case True
    then have "str = acc @ [] @ [0]" using Suc.prems b by simp
    then show ?thesis using b True by (intro exI [of _ "[]"]) simp
  next
    case False
    then have "fetchstr_loop k (a + 1) ep (acc @ [b]) s = Inr (Some str)" using Suc.prems b by simp
    from Suc.IH [OF this] obtain bs where bs: "str = (acc @ [b]) @ bs @ [0]" "0 \<notin> set bs" "length bs < k"
      "\<forall>i\<le>length bs. a + 1 + of_nat i < ep \<and> uload (a + 1 + of_nat i) s = Inr ((bs @ [0]) ! i)" by blast
    have "a + of_nat i < ep \<and> uload (a + of_nat i) s = Inr (((b # bs) @ [0]) ! i)" if "i \<le> length (b # bs)" for i
      using that b bs(4) by (cases i) (auto simp: add.assoc)
    then show ?thesis using bs False by (intro exI [of _ "b # bs"]) simp
  qed
qed simp

lemma add_below:
  fixes p sz :: uint
  assumes "p < sz" and "p + word_of_int len \<le> sz" and "0 \<le> len" and "len < 2147483648" and "sz \<le> USERTOP"
  shows "uint p + len \<le> uint sz"
proof -
  have "uint p < 655360" "uint sz \<le> 655360" using assms(1,5) by (simp_all add: word_less_def word_le_def USERTOP_def)
  moreover have "uint (word_of_int len :: uint) = len" using assms(3,4) by (simp add: uint_word_of_int)
  ultimately have "uint (p + word_of_int len) = uint p + len" using assms(3,4) by (simp add: uint_word_ariths mod_pos_pos_trivial)
  then show ?thesis using assms(2) by (simp add: word_le_def)
qed

lemma argptr_Some:
  "argptr me n len s = Inr (Some p) \<longleftrightarrow> argint me n s = Inr (Some p) \<and>
     \<not> (p_sz (procs s ! me) \<le> p \<or> p_sz (procs s ! me) < p + word_of_int len)"
proof (cases "argint me n s")
  case (Inr r)
  then show ?thesis by (cases r) (auto simp add: argptr_def)
qed (simp add: argptr_def)

lemma argstr_Some:
  "argstr me n s = Inr (Some str) \<longleftrightarrow> (\<exists>addr. argint me n s = Inr (Some addr) \<and> fetchstr me addr s = Inr (Some str))"
proof (cases "argint me n s")
  case (Inr r)
  then show ?thesis by (cases r) (simp_all add: argstr_def)
qed (simp add: argstr_def)


text \<open>A negative length passes the check. \<open>argptr\<close> accepts every pointer of the process with a negative length of at most the
  pointer's value, and \<open>readi\<close>, which takes the length as unsigned, then returns the whole file for a read at offset 0: the bytes
  that \<open>sys_read\<close> stores from the pointer on are bounded by the size of the file and not by that of the process.\<close>

theorem argptr_negative_length:
  assumes "argint me k s = Inr (Some p)" and "p < p_sz (procs s ! me)" and "0 < n" and "n \<le> uint p" and "n \<le> 2147483648"
    and "on_file s ip dev a (unat (i_size (inodes s ! ip)))" and "i_type (inodes s ! ip) \<noteq> T_DEV"
  shows "argptr me k (- n) s = Inr (Some p) \<and>
    (\<exists>s'. readi devr ip 0 (word_of_int (- n)) s =
       Inr ((uint (i_size (inodes s ! ip)), contents (adisk s dev) a (unat (i_size (inodes s ! ip)))), s'))"
proof
  have "p + word_of_int (- n) \<le> p"
  proof -
    have "uint (p + word_of_int (- n)) = (uint p - n) mod 2 ^ 32" by (simp add: uint_word_ariths uint_word_of_int mod_diff_right_eq)
    also have "\<dots> = uint p - n" using assms(3,4) uint_lt2p [of p] by simp
    finally show ?thesis using assms(3) by (simp add: word_le_def)
  qed
  then have "\<not> p_sz (procs s ! me) \<le> p" "\<not> p_sz (procs s ! me) < p + word_of_int (- n)" using assms(2) by (simp_all add: not_less)
  then show "argptr me k (- n) s = Inr (Some p)" using assms(1) unfolding argptr_Some by blast
next
  let ?z = "unat (i_size (inodes s ! ip))" and ?w = "word_of_int (- n) :: uint"
  have "(- n) mod 4294967296 = (- n + 4294967296) mod 4294967296" by simp
  also have "\<dots> = 4294967296 - n" using assms(3,5) by (intro mod_pos_pos_trivial [THEN trans]) simp_all
  finally have "uint ?w = 4294967296 - n" by (simp only: uint_word_of_int) simp
  then have w: "unat ?w = nat (4294967296 - n)" by (simp only: unat_eq_nat_uint)
  have z: "?z \<le> 71680" by (rule on_file_size(1) [OF assms(6)])
  have "71680 \<le> nat (4294967296 - n)" using assms(5) by linarith
  then have m: "min (unat ?w) (?z - unat (0 :: uint)) = ?z" using z unfolding w by simp
  have lt: "unat (0 :: uint) + unat ?w < 2 ^ 32" "unat (0 :: uint) \<le> ?z" using unsigned_less [of ?w, where 'a = nat] by simp_all
  obtain s' where r: "readi devr ip 0 ?w s = Inr ((int ?z, slice (contents (adisk s dev) a ?z) (unat (0 :: uint)) ?z), s')"
    using readi_ok [OF assms(6,7) lt(2,1), of devr] unfolding m by blast
  have iz: "int ?z = uint (i_size (inodes s ! ip))" by simp
  have "slice (contents (adisk s dev) a ?z) (unat (0 :: uint)) ?z = contents (adisk s dev) a ?z" by (simp add: slice_def)
  then show "\<exists>s'. readi devr ip 0 ?w s = Inr ((uint (i_size (inodes s ! ip)), contents (adisk s dev) a ?z), s')"
    using r iz by (intro exI [of _ s']) (simp only:)
qed

section \<open>Instances\<close>

text \<open>One process whose only page is at 0x3000, with its trap frame at 0x5000 and one argument, the pointer 0x800, on its stack.
  At address 0x800 there is the string \<open>hi\<close>.\<close>

definition user_mem :: mem where
  "user_mem = (store32 (store32 (store32 (store32 (\<lambda>_. 0) 0x1000 0x2007) 0x2000 0x3007) 0x5044 0x100) 0x3104 0x800)
     (0x3800 := 104, 0x3801 := 105)"

definition boot_args :: filestate where
  "boot_args = boot_files\<lparr>pmem := user_mem, cr3 := (\<lambda>_. 0x1000), procs := [unused_proc\<lparr>p_sz := 0x1000, p_tf := 0x5000\<rparr>]\<rparr>"

lemma on_file_user: "on_file (s\<lparr>pmem := m, cr3 := c, procs := P\<rparr>) ip dev a n = on_file s ip dev a n"
proof -
  have h: "held (s\<lparr>pmem := m, cr3 := c, procs := P\<rparr>) = held s" "good_block (s\<lparr>pmem := m, cr3 := c, procs := P\<rparr>) = good_block s"
    by (simp_all add: held_def good_block_def dev_ok_def fun_eq_iff)
  then have "idle (s\<lparr>pmem := m, cr3 := c, procs := P\<rparr>) dev = idle s dev"
    by (simp add: idle_def bcache_ok_def ide_idle_def quiet_def cpu_ok_def mycpu_def free_lock_def ide_ready_def myproc_def
      buf_ok_def dev_ok_def sector_of_def)
  moreover have "adisk (s\<lparr>pmem := m, cr3 := c, procs := P\<rparr>) = adisk s" using h by (simp add: adisk_def sector_of_def fun_eq_iff)
  ultimately show ?thesis by (simp add: on_file_def)
qed

lemma boot_args_sel:
  "pmem boot_args = user_mem" "cr3 boot_args c = 0x1000" "procs boot_args = [unused_proc\<lparr>p_sz := 0x1000, p_tf := 0x5000\<rparr>]"
  "inodes boot_args = inodes boot_files"
  by (simp_all add: boot_args_def)

lemma user_tables:
  "load32 user_mem 0x1000 = 0x2007" "load32 user_mem 0x2000 = 0x3007" "load32 user_mem 0x5044 = 0x100"
  "user_mem 0x3104 = 0" "user_mem 0x3105 = 8" "user_mem 0x3106 = 0" "user_mem 0x3107 = 0"
  "user_mem 0x3800 = 104" "user_mem 0x3801 = 105" "user_mem 0x3802 = 0"
  by (code_simp)+

lemma boot_args_uload:
  "uload 0x104 boot_args = Inr 0" "uload 0x105 boot_args = Inr 8" "uload 0x106 boot_args = Inr 0" "uload 0x107 boot_args = Inr 0"
  "uload 0x800 boot_args = Inr 104" "uload 0x801 boot_args = Inr 105" "uload 0x802 boot_args = Inr 0"
  by (simp_all add: uload_def translate_def boot_args_sel PDX_def PTX_def PTE_ADDR_def PTE_P_def user_tables)

lemma boot_args_arg: "argint 0 0 boot_args = Inr (Some 0x800)"
proof -
  have "uload_bytes (Suc (Suc (Suc (Suc 0)))) 0x104 boot_args = Inr [0, 8, 0, 0]" by (simp add: boot_args_uload)
  then have b: "uload_bytes 4 0x104 boot_args = Inr [0, 8, 0, 0]" by (simp only: eval_nat_numeral BitM.simps)
  have e: "tf_get 0 TF_esp boot_args = 0x100" "p_sz (procs boot_args ! 0) = 0x1000"
    by (simp_all add: tf_get_def TF_esp_def boot_args_sel user_tables)
  have g: "get32 [0, 8, 0, 0] 0 = 0x800" by (simp add: get32_def)
  show ?thesis using b e g by (simp add: argint_def fetchint_def)
qed


theorem argptr_negative_length_witness:
  "argptr 0 0 (- 3) boot_args = Inr (Some 0x800) \<and>
   (\<exists>s'. readi (\<lambda>_. None) 0 0 (word_of_int (- 3)) boot_args = Inr ((0, []), s'))"
proof -
  have f: "on_file boot_args 0 1 (replicate 13 0) (unat (i_size (inodes boot_args ! 0)))"
    using boot_files_file by (simp add: boot_args_def on_file_user boot_files_sel empty_file_def)
  have z: "i_size (inodes boot_args ! 0) = 0" "i_type (inodes boot_args ! 0) \<noteq> T_DEV"
    by (simp_all add: boot_args_sel boot_files_sel empty_file_def T_FILE_def T_DEV_def)
  have "contents D (replicate 13 0) 0 = []" for D by (simp add: contents_def)
  then show ?thesis
    using argptr_negative_length [OF boot_args_arg _ _ _ _ f z(2), of 3 "\<lambda>_. None"] unfolding z(1) by (simp add: boot_args_sel)
qed

end
