(* ===== verification/Grep.thy ===== *)
theory Grep
  imports Cstring
begin

text \<open>
  The user program \<^verbatim>\<open>grep.c\<close>: the matcher for patterns with \<open>^ . * $\<close>, and the loop that takes its input apart
  into lines.

  A pointer into a string is the rest of the string from there on, with its terminating zero; reading past the end of
  the list is \<open>Wild\<close>.
\<close>

section \<open>The matcher\<close>

function matchhere :: "byte list \<Rightarrow> byte list \<Rightarrow> bool res"
  and matchstar :: "byte \<Rightarrow> byte list \<Rightarrow> byte list \<Rightarrow> bool res" where
  "matchhere re text =
     andThen (rd ''re'' re 0) (\<lambda>r0.
     if r0 = 0 then Inr True
     else andThen (rd ''re'' re 1) (\<lambda>r1.
     if r1 = 42 then matchstar r0 (drop 2 re) text
     else andThen (rd ''text'' text 0) (\<lambda>t.
     if r0 = 36 \<and> r1 = 0 then Inr (t = 0)
     else if t \<noteq> 0 \<and> (r0 = 46 \<or> r0 = t) then matchhere (drop 1 re) (drop 1 text)
     else Inr False)))"
| "matchstar c re text =
     andThen (matchhere re text) (\<lambda>m.
     if m then Inr True
     else andThen (rd ''text'' text 0) (\<lambda>t.
     if t \<noteq> 0 \<and> (t = c \<or> c = 46) then matchstar c re (drop 1 text) else Inr False))"
  by pat_completeness auto

termination
proof (relation "measures [\<lambda>x. case x of Inl (re, text) \<Rightarrow> length re | Inr (c, re, text) \<Rightarrow> length re,
    \<lambda>x. case x of Inl (re, text) \<Rightarrow> length text | Inr (c, re, text) \<Rightarrow> length text,
    \<lambda>x. case x of Inl _ \<Rightarrow> 0 | Inr _ \<Rightarrow> 1]")
qed (auto simp: rd_def split: if_splits)

declare matchhere.simps [simp del] matchstar.simps [simp del]

fun match_loop :: "byte list \<Rightarrow> byte list \<Rightarrow> bool res" where
  "match_loop re text =
     andThen (matchhere re text) (\<lambda>m.
     if m then Inr True
     else case text of [] \<Rightarrow> Inl (Wild ''text'') | t # ts \<Rightarrow> if t \<noteq> 0 then match_loop re ts else Inr False)"

declare match_loop.simps [simp del]

definition match :: "byte list \<Rightarrow> byte list \<Rightarrow> bool res" where
  "match re text = andThen (rd ''re'' re 0) (\<lambda>c. if c = 94 then matchhere (drop 1 re) text else match_loop re text)"

section \<open>What a pattern means\<close>

datatype item = One byte | Many byte

text \<open>The items of a pattern, and whether it is anchored at the end.\<close>

fun items :: "byte list \<Rightarrow> item list \<times> bool" where
  "items [] = ([], False)"
| "items [c] = (if c = 36 then ([], True) else ([One c], False))"
| "items (c # d # r) =
     (if d = 42 then (case items r of (is, a) \<Rightarrow> (Many c # is, a))
      else case items (d # r) of (is, a) \<Rightarrow> (One c # is, a))"

definition fits :: "byte \<Rightarrow> byte \<Rightarrow> bool" where
  "fits c x \<longleftrightarrow> c = 46 \<or> c = x"

primrec lang :: "item list \<Rightarrow> byte list set" where
  "lang [] = {[]}"
| "lang (i # is) =
     (case i of
        One c \<Rightarrow> {x # w | x w. fits c x \<and> w \<in> lang is}
      | Many c \<Rightarrow> {u @ w | u w. (\<forall>x\<in>set u. fits c x) \<and> w \<in> lang is})"

text \<open>The pattern \<open>re\<close> describes a beginning of the text \<open>t\<close>, or all of it.\<close>

definition begins :: "byte list \<Rightarrow> byte list \<Rightarrow> bool" where
  "begins re t \<longleftrightarrow> (\<exists>v w. t = v @ w \<and> v \<in> lang (fst (items re)) \<and> (snd (items re) \<longrightarrow> w = []))"

definition occurs :: "byte list \<Rightarrow> byte list \<Rightarrow> bool" where
  "occurs re t \<longleftrightarrow> (if re \<noteq> [] \<and> hd re = 94 then begins (tl re) t else (\<exists>u v. t = u @ v \<and> begins re v))"

section \<open>The matcher is right\<close>

lemma begins_Nil: "begins [] t"
  by (simp add: begins_def)

lemma begins_end: "begins [36] t \<longleftrightarrow> t = []"
  by (simp add: begins_def)

lemma begins_one:
  assumes "c \<noteq> 36 \<or> r \<noteq> []" and "r = [] \<or> hd r \<noteq> 42"
  shows "begins (c # r) t \<longleftrightarrow> t \<noteq> [] \<and> fits c (hd t) \<and> begins r (tl t)"
proof -
  have i: "items (c # r) = (One c # fst (items r), snd (items r))"
    using assms by (cases r) (auto split: prod.split)
  show ?thesis unfolding begins_def i by (cases t) (auto simp: Cons_eq_append_conv)
qed

lemma begins_many_iff: "begins (c # 42 # r) t \<longleftrightarrow> (\<exists>u v. t = u @ v \<and> (\<forall>x\<in>set u. fits c x) \<and> begins r v)"
proof -
  have i: "items (c # 42 # r) = (Many c # fst (items r), snd (items r))" by (auto split: prod.split)
  show ?thesis
  proof
    assume "begins (c # 42 # r) t"
    then obtain v w where 1: "t = v @ w" "v \<in> lang (Many c # fst (items r))" "snd (items r) \<longrightarrow> w = []"
      unfolding begins_def i by auto
    from 1(2) obtain a b where 2: "v = a @ b" "\<forall>x\<in>set a. fits c x" "b \<in> lang (fst (items r))" by auto
    have "begins r (b @ w)" unfolding begins_def using 1(3) 2(3) by blast
    then show "\<exists>u v. t = u @ v \<and> (\<forall>x\<in>set u. fits c x) \<and> begins r v" using 1(1) 2(1,2) by auto
  next
    assume "\<exists>u v. t = u @ v \<and> (\<forall>x\<in>set u. fits c x) \<and> begins r v"
    then obtain u v b w where 1: "t = u @ v" "\<forall>x\<in>set u. fits c x" "v = b @ w" "b \<in> lang (fst (items r))" "snd (items r) \<longrightarrow> w = []"
      unfolding begins_def by blast
    then have "t = (u @ b) @ w" "u @ b \<in> lang (Many c # fst (items r))" by auto
    then show "begins (c # 42 # r) t" unfolding begins_def i fst_conv snd_conv using 1(5) by blast
  qed
qed

lemma begins_many:
  "begins (c # 42 # r) t \<longleftrightarrow> begins r t \<or> (t \<noteq> [] \<and> fits c (hd t) \<and> begins (c # 42 # r) (tl t))"
proof
  assume "begins (c # 42 # r) t"
  then obtain u v where 1: "t = u @ v" "\<forall>x\<in>set u. fits c x" "begins r v" unfolding begins_many_iff by blast
  show "begins r t \<or> (t \<noteq> [] \<and> fits c (hd t) \<and> begins (c # 42 # r) (tl t))"
  proof (cases u)
    case (Cons x u')
    then have "begins (c # 42 # r) (tl t)" unfolding begins_many_iff using 1 by auto
    then show ?thesis using 1 Cons by simp
  qed (use 1 in simp)
next
  assume "begins r t \<or> (t \<noteq> [] \<and> fits c (hd t) \<and> begins (c # 42 # r) (tl t))"
  then show "begins (c # 42 # r) t"
  proof
    assume "begins r t"
    then have "t = [] @ t \<and> (\<forall>x\<in>set []. fits c x) \<and> begins r t" by simp
    then show ?thesis unfolding begins_many_iff by blast
  next
    assume a: "t \<noteq> [] \<and> fits c (hd t) \<and> begins (c # 42 # r) (tl t)"
    then obtain u v where "tl t = u @ v" "\<forall>x\<in>set u. fits c x" "begins r v" unfolding begins_many_iff by blast
    moreover from a this(1) have "t = (hd t # u) @ v" by (metis append_Cons list.collapse)
    ultimately show ?thesis unfolding begins_many_iff using a by (metis set_ConsD)
  qed
qed

text \<open>The strings: a pattern or a text without zeros, a zero, and whatever follows.\<close>

definition is_str :: "byte list \<Rightarrow> byte list \<Rightarrow> bool" where
  "is_str p s \<longleftrightarrow> 0 \<notin> set s \<and> (\<exists>junk. p = s @ 0 # junk)"

lemma is_str_Nil: "is_str p [] \<Longrightarrow> rd w p 0 = Inr 0"
  by (auto simp: is_str_def rd_def)

lemma is_str_Cons: "is_str p (c # s) \<Longrightarrow> rd w p 0 = Inr c \<and> c \<noteq> 0 \<and> is_str (drop 1 p) s"
  by (auto simp: is_str_def rd_def)

lemma is_str_second: "is_str p (c # s) \<Longrightarrow> rd w p 1 = Inr (if s = [] then 0 else hd s)"
  by (cases s) (auto simp: is_str_def rd_def)

lemma matchhere_ok:
  "is_str rp r \<Longrightarrow> is_str tp t \<Longrightarrow> matchhere rp tp = Inr (begins r t)"
  "is_str rp r \<Longrightarrow> is_str tp t \<Longrightarrow> matchstar c rp tp = Inr (begins (c # 42 # r) t)"
proof (induction rp tp and c rp tp arbitrary: r t and r t rule: matchhere_matchstar.induct)
  case (1 rp tp)
  show ?case
  proof (cases r)
    case Nil
    then show ?thesis using 1(3) by (subst matchhere.simps) (simp add: is_str_Nil begins_Nil)
  next
    case r: (Cons c s)
    note c = is_str_Cons [OF 1(3) [unfolded r]] is_str_second [OF 1(3) [unfolded r]]
    define d where "d = (if s = [] then 0 else hd s)"
    have rd1: "rd w rp 0 = Inr c" "rd w rp 1 = Inr d" for w using c is_str_second [OF 1(3) [unfolded r]] is_str_Cons [OF 1(3) [unfolded r]] by (simp_all add: d_def)
    have t0: "rd w tp 0 = Inr (if t = [] then 0 else hd t)" for w
      using 1(4) by (cases t) (simp_all add: is_str_Nil is_str_Cons)
    have hdt: "t \<noteq> [] \<Longrightarrow> hd t \<noteq> 0" using 1(4) by (cases t) (auto simp: is_str_def)
    show ?thesis
    proof (cases "d = 42")
      case True
      then obtain s' where s: "s = 42 # s'" by (cases s) (auto simp: d_def)
      have "is_str (drop 2 rp) s'" using 1(3) r s by (auto simp: is_str_def)
      from 1(1) [OF rd1(1) _ rd1(2) True this 1(4)] c show ?thesis
        using True rd1 by (subst matchhere.simps) (simp add: r s)
    next
      case False
      then have s: "s = [] \<or> hd s \<noteq> 42" by (auto simp: d_def)
      show ?thesis
      proof (cases "c = 36 \<and> s = []")
        case eol: True
        then show ?thesis using False rd1 t0 hdt by (subst matchhere.simps) (auto simp: r begins_end d_def)
      next
        case more: False
        have d0: "d = 0 \<longleftrightarrow> s = []" using 1(3) r by (cases s) (auto simp: d_def is_str_def)
        have b: "begins r t \<longleftrightarrow> t \<noteq> [] \<and> fits c (hd t) \<and> begins s (tl t)"
          unfolding r using more s by (intro begins_one) auto
        show ?thesis
        proof (cases "t \<noteq> [] \<and> fits c (hd t)")
          case True
          then obtain x t' where t: "t = x # t'" by (cases t) auto
          have it: "is_str (drop 1 tp) t'" using is_str_Cons [OF 1(4) [unfolded t]] by simp
          have ih: "matchhere (drop 1 rp) (drop 1 tp) = Inr (begins s t')"
            using 1(2) [OF rd1(1) _ rd1(2) False t0, of s t'] c it True more hdt t d0 by (simp add: fits_def)
          show ?thesis using False True more rd1 t0 hdt b ih t d0 c
            by (subst matchhere.simps) (auto simp: fits_def)
        next
          case no: False
          then show ?thesis using False more rd1 t0 b d0 c by (subst matchhere.simps) (auto simp: fits_def)
        qed
      qed
    qed
  qed
next
  case (2 c rp tp)
  note m = 2(1) [OF 2(3,4)]
  show ?case
  proof (cases "begins r t")
    case True
    then show ?thesis using m begins_many [of c r t] by (subst matchstar.simps) simp
  next
    case False
    show ?thesis
    proof (cases t)
      case Nil
      then show ?thesis using m False begins_many [of c r t] 2(4) by (subst matchstar.simps) (simp add: is_str_Nil)
    next
      case (Cons x t')
      note x = is_str_Cons [OF 2(4) [unfolded Cons]]
      show ?thesis
      proof (cases "fits c x")
        case True
        have "matchstar c rp (drop 1 tp) = Inr (begins (c # 42 # r) t')"
          using 2(2) [OF m, of x r t'] x True False 2(3) by (auto simp: fits_def)
        then show ?thesis using m False x True Cons begins_many [of c r t]
          by (subst matchstar.simps) (auto simp: fits_def)
      next
        case no: False
        then show ?thesis using m False x Cons begins_many [of c r t] by (subst matchstar.simps) (auto simp: fits_def)
      qed
    qed
  qed
qed

lemma match_loop_ok:
  "is_str rp r \<Longrightarrow> is_str tp t \<Longrightarrow> match_loop rp tp = Inr (\<exists>u v. t = u @ v \<and> begins r v)"
proof (induction t arbitrary: tp)
  case Nil
  then have "tp \<noteq> []" "hd tp = 0" by (auto simp: is_str_def)
  then show ?case using matchhere_ok(1) [OF Nil] by (subst match_loop.simps) (auto split: list.split)
next
  case (Cons x t)
  note x = is_str_Cons [OF Cons.prems(2)]
  from Cons.prems(2) obtain tp' where tp: "tp = x # tp'" by (auto simp: is_str_def)
  have ih: "match_loop rp tp' = Inr (\<exists>u v. t = u @ v \<and> begins r v)" using Cons.IH [of tp'] Cons.prems(1) x tp by simp
  have "(\<exists>u v. x # t = u @ v \<and> begins r v) \<longleftrightarrow> begins r (x # t) \<or> (\<exists>u v. t = u @ v \<and> begins r v)"
    by (auto simp: Cons_eq_append_conv)
  then show ?case using matchhere_ok(1) [OF Cons.prems] ih x tp by (subst match_loop.simps) simp
qed

text \<open>C13: the matcher of \<open>grep\<close> is right and always returns. For a pattern and a text stored as strings, \<open>match\<close>
  returns whether some part of the text is in the language that the pattern describes, where \<open>^\<close> and \<open>$\<close> require the
  part to be at the beginning or the end of the text, \<open>.\<close> stands for any character and \<open>c*\<close> for any number of \<open>c\<close>;
  it never reads past either string.\<close>

theorem match_equiv:
  assumes "is_str rp re" and "is_str tp t"
  shows "match rp tp = Inr (occurs re t)"
proof (cases re)
  case Nil
  then show ?thesis using match_loop_ok [OF assms] is_str_Nil [of rp] assms(1) by (auto simp: match_def occurs_def)
next
  case (Cons c r)
  note c = is_str_Cons [OF assms(1) [unfolded Cons]]
  show ?thesis using c matchhere_ok(1) [of "drop 1 rp" r tp t] match_loop_ok [OF assms] assms(2) Cons
    by (auto simp: match_def occurs_def)
qed

theorem match_equiv_witness:
  "match [97, 42, 98, 36, 0] [99, 97, 97, 98, 0, 55] = Inr (occurs [97, 42, 98, 36] [99, 97, 97, 98])"
  using match_equiv [of "[97, 42, 98, 36, 0]" "[97, 42, 98, 36]" "[99, 97, 97, 98, 0, 55]" "[99, 97, 97, 98]"]
  by (simp add: is_str_def)

section \<open>Lines\<close>

text \<open>The lines that end in the buffer from position \<open>p\<close> on. What is written is collected in \<open>out\<close>. Every round ends one line, so the
  length of the buffer bounds the number of rounds.\<close>

primrec grep_lines :: "nat \<Rightarrow> byte list \<Rightarrow> byte list \<Rightarrow> nat \<Rightarrow> byte list \<Rightarrow> (byte list \<times> nat \<times> byte list) res" where
  "grep_lines 0 pat buf p out = Inl (Spins ''grep'')"
| "grep_lines (Suc k) pat buf p out =
     andThen (strchr (drop p buf) 10) (\<lambda>r.
     case r of
       None \<Rightarrow> Inr (buf, p, out)
     | Some i \<Rightarrow>
         let q = p + i; buf = buf[q := 0] in
         andThen (match pat (drop p buf)) (\<lambda>m.
         let buf = (if m then buf[q := 10] else buf);
             out = (if m then out @ slice buf p (q + 1 - p) else out)
         in grep_lines k pat buf (q + 1) out))"

text \<open>The main loop. The reads of \<open>fd\<close> return the elements of \<open>chunks\<close>, cut off to what was asked for, and then 0.
  \<open>m\<close> can become negative; a read then starts before the buffer.\<close>

primrec grep_loop :: "byte list \<Rightarrow> byte list list \<Rightarrow> byte list \<Rightarrow> int \<Rightarrow> byte list \<Rightarrow> byte list res" where
  "grep_loop pat [] buf m out = Inr out"
| "grep_loop pat (c # chunks) buf m out =
     (if m < 0 then Inl (Wild ''grep: read before buf'')
      else
        let c = take (length buf - nat m) c in
        if c = [] then Inr out
        else
          let buf = patch buf (nat m) c; m = m + int (length c) in
          andThen (grep_lines (Suc (length buf)) pat buf 0 out) (\<lambda>(buf, p, out).
          let m = (if p = 0 then 0 else m);
              m' = (if m > 0 then m - int p else m);
              buf = (if m > 0 then patch buf 0 (slice buf p (nat m')) else buf)
          in grep_loop pat chunks buf m' out))"

definition grep :: "byte list \<Rightarrow> byte list list \<Rightarrow> byte list res" where
  "grep pat chunks = grep_loop pat chunks (replicate 1024 0) 0 []"

lemma match_letter: "match [98, 0] (98 # 99 # 0 # z) = Inr True" "match [98, 0] (120 # 98 # 0 # z) = Inr True"
proof -
  have r: "is_str [98, 0] [98]" by (simp add: is_str_def)
  have b: "begins [98] (98 # v)" for v using begins_one [of 98 "[]" "98 # v"] by (simp add: fits_def begins_Nil)
  have exI2: "t = u @ v \<Longrightarrow> begins [98] v \<Longrightarrow> (\<exists>u v. t = u @ v \<and> begins [98] v) = True" for t u v by blast
  have "match_loop [98, 0] (98 # 99 # 0 # z) = Inr True"
    using match_loop_ok [OF r, of "98 # 99 # 0 # z" "[98, 99]"] exI2 [of "[98, 99]" "[]" "[98, 99]"] b [of "[99]"]
    by (simp add: is_str_def)
  moreover have "match_loop [98, 0] (120 # 98 # 0 # z) = Inr True"
    using match_loop_ok [OF r, of "120 # 98 # 0 # z" "[120, 98]"] exI2 [of "[120, 98]" "[120]" "[98]"] b [of "[]"]
    by (simp add: is_str_def)
  ultimately show "match [98, 0] (98 # 99 # 0 # z) = Inr True" "match [98, 0] (120 # 98 # 0 # z) = Inr True"
    by (simp_all add: match_def)
qed

lemma grep_line:
  assumes "strchr (drop p buf) 10 = Inr (Some i)" and "match pat (drop p (buf[p + i := 0])) = Inr True" and "buf ! (p + i) = 10"
  shows "grep_lines (Suc k) pat buf p out = grep_lines k pat buf (p + i + 1) (out @ slice buf p (i + 1))"
proof -
  have "buf[p + i := 10] = buf" using assms(3) by (metis list_update_id)
  then show ?thesis using assms(1,2) by (simp add: Let_def)
qed

lemma grep_no_line: "strchr (drop p buf) 10 = Inr None \<Longrightarrow> grep_lines (Suc k) pat buf p out = Inr (buf, p, out)"
  by simp

lemma grep_round:
  assumes "match [98, 0] (a # b # 0 # 98 # 0 # 0 # z) = Inr True" and "{a, b} \<inter> {0, 10} = {}"
  shows "grep_lines (Suc (Suc k)) [98, 0] (a # b # 10 # 98 # 0 # 0 # z) 0 out =
    Inr (a # b # 10 # 98 # 0 # 0 # z, 3, out @ [a, b, 10])"
proof -
  let ?B = "a # b # 10 # 98 # 0 # 0 # z"
  have 1: "strchr (drop 0 ?B) 10 = Inr (Some 2)" using assms(2) by (simp add: strchr_def)
  have 2: "strchr (drop 3 ?B) 10 = Inr None" by (simp add: strchr_def)
  have "grep_lines (Suc (Suc k)) [98, 0] ?B 0 out = grep_lines (Suc k) [98, 0] ?B (0 + 2 + 1) (out @ slice ?B 0 (2 + 1))"
    using assms(1) by (intro grep_line [OF 1]) simp_all
  also have "slice ?B 0 (2 + 1) = [a, b, 10]" by (simp add: slice_def)
  also have "(0 :: nat) + 2 + 1 = 3" by simp
  finally show ?thesis using grep_no_line [OF 2] by simp
qed

lemma grep_rounds:
  assumes "length z = Suc (Suc (Suc k))"
  shows "grep_loop [98, 0] ([120, 98, 10, 98] # cs) (0 # 0 # 0 # 0 # 0 # 0 # z) 0 [] =
      grep_loop [98, 0] cs (98 # 98 # 10 # 98 # 0 # 0 # z) 1 [120, 98, 10]" (is ?A)
    and "grep_loop [98, 0] ([99] # cs) (98 # 98 # 10 # 98 # 0 # 0 # z) 1 out =
      grep_loop [98, 0] cs (98 # 99 # 10 # 98 # 0 # 0 # z) (- 1) (out @ [98, 99, 10])" (is ?B)
proof -
  have l: "Suc (length (a # b # 10 # 98 # 0 # 0 # z)) = Suc (Suc (length z + 5))" for a b by simp
  note r = grep_round [of 120 98 z, OF match_letter(2)] grep_round [of 98 99 z, OF match_letter(1)]
  have p: "patch (0 # 0 # 0 # 0 # 0 # 0 # z) 0 [120, 98, 10, 98] = 120 # 98 # 10 # 98 # 0 # 0 # z"
    "patch (98 # 98 # 10 # 98 # 0 # 0 # z) 1 [99] = 98 # 99 # 10 # 98 # 0 # 0 # z" by (simp_all add: patch_def)
  show ?A using assms r(1) p(1) unfolding grep_loop.simps Let_def
    by (simp del: grep_lines.simps add: patch_def slice_def)
  show ?B using assms r(2) p(2) unfolding grep_loop.simps Let_def
    by (simp del: grep_lines.simps add: patch_def slice_def)
qed

text \<open>C30: \<open>grep\<close> takes stale bytes for input. The buffer is not terminated after the bytes that were read, so a newline left
  over from an earlier line ends a line that has not been read to its end: with the input \<open>xb\<close>, newline, \<open>bc\<close>, delivered
  as four bytes and one byte, it prints a line \<open>bc\<close> that the input does not contain as a line, and when one more byte
  follows it reads it to an address before its buffer.\<close>

theorem grep_stale_line:
  "grep [98, 0] [[120, 98, 10, 98], [99]] = Inr [120, 98, 10, 98, 99, 10] \<and>
   grep [98, 0] [[120, 98, 10, 98], [99], [100]] = Inl (Wild ''grep: read before buf'')"
proof -
  have z: "replicate 1024 (0 :: byte) = 0 # 0 # 0 # 0 # 0 # 0 # replicate 1018 0" by (simp add: numeral_eq_Suc)
  have len: "length (replicate 1018 (0 :: byte)) = Suc (Suc (Suc 1015))" by simp
  show ?thesis unfolding grep_def z grep_rounds [OF len] by simp
qed

end
