(* ===== verification/NeOk.thy ===== *)
theory NeOk
  imports Trap SyscallOk
begin

unbundle bit_operations_syntax

text \<open>
  The Ethernet driver on a card with 16-bit access. Transfers are counted in words there, but the driver passes numbers of
  bytes, so every transfer moves twice as many bytes as it should.
\<close>

section \<open>Transfers\<close>

lemma insw_length: "length (fst (insw dev n s)) = 2 * n"
  by (induction n arbitrary: s) (simp_all add: bytes16_def split_beta)

lemma insb_length: "length (fst (insb dev n s)) = n"
  by (induction n arbitrary: s) (simp_all add: split_beta)

lemma nout_ne [simp]: "ne (nout dev off b s) = ne s"
  by (simp add: nout_def)

lemma nin_ne [simp]: "nin dev off s = (b, t) \<Longrightarrow> ne t = ne s"
  by (auto simp: nin_def split: prod.splits)

lemma rdma_regs_ne [simp]: "ne (rdma_regs dev mode addr len s) = ne s"
  by (simp add: rdma_regs_def Let_def)

lemma read_crda_ne: "read_crda dev s = (w, t) \<Longrightarrow> ne t = ne s"
  by (auto simp: read_crda_def split: prod.splits dest!: nin_ne)

lemma getblock_length:
  "length (fst (ne_getblock dev addr len s)) = (if ne_is16bit (ne s) then 2 else 1) * nat len"
  by (simp add: ne_getblock_def Let_def insw_length insb_length)

lemma getblock_16: "ne_getblock dev addr 4 s = (bs, t) \<Longrightarrow> ne_is16bit (ne s) \<Longrightarrow> length bs = 8"
  using getblock_length [of dev addr 4 s] by simp

section \<open>No packet goes through\<close>


section \<open>A state of the whole kernel\<close>

text \<open>The state before start-up, for a driver with the data \<open>n\<close>, and a card that answers every read with 0.\<close>

definition boot_kernel :: "mem \<Rightarrow> ne_t \<Rightarrow> unit trapstate" where
  "boot_kernel m n = boot_ext (\<lambda>_ _. []) \<lparr>inodes = replicate NINODE empty_file, ftable = [], pipes = (\<lambda>_. undefined), cons_locking = False,
     panicked = False, uart = True, uart_rx = [], crt = replicate 2000 0, crtreg = (\<lambda>_. 0),
     input = \<lparr>in_buf = replicate INPUT_BUF 0, in_r = 0, in_w = 0, in_e = 0\<rparr>, kbd_rx = [], kbd_shift = 0, ticks = 0,
     ne = n, nic = (), lapic = 0, lapic_w = [], bcpu = 0, cpunum_n = 0, idt = [], idtr = (\<lambda>_. False), booted = (\<lambda>_. False)\<rparr>\<lparr>pmem := m\<rparr>"

definition silent_card :: "unit nicdev" where
  "silent_card = \<lparr>nd_in = (\<lambda>_ _. (0, ())), nd_out = (\<lambda>_ _ _. ()), nd_inw = (\<lambda>_ _. (0, ())), nd_outw = (\<lambda>_ _ _. ())\<rparr>"


end
