(* ===== verification/LapicOk.thy ===== *)
theory LapicOk
  imports NeOk
begin

unbundle bit_operations_syntax

text \<open>
  Reading the multiprocessor tables ends exactly when every entry of the table has a known type: the entries are told apart by
  their first byte, and the loop does not move past one it does not know.
\<close>

section \<open>Printing before the console has a lock\<close>

text \<open>The arguments fit the format.\<close>

fun fmt_ok :: "byte list \<Rightarrow> carg list \<Rightarrow> bool" where
  "fmt_ok [] args \<longleftrightarrow> False"
| "fmt_ok (c # f) args \<longleftrightarrow>
     (if c = 0 then True
      else if c \<noteq> 37 then fmt_ok f args
      else case f of
        [] \<Rightarrow> False
      | c # f \<Rightarrow>
          if c = 0 then True
          else if c = 100 \<or> c = 120 \<or> c = 112 then (case args of Num x # args \<Rightarrow> fmt_ok f args | _ \<Rightarrow> False)
          else if c = 115 then (case args of Str p # args \<Rightarrow> (case p of None \<Rightarrow> True | Some t \<Rightarrow> 0 \<in> set t) \<and> fmt_ok f args | _ \<Rightarrow> False)
          else fmt_ok f args)"

lemma outstep_refl: "outstep s s"
  using outstep_pio [of s "pio s"] by simp

definition writes :: "'a consstate_scheme \<Rightarrow> 'a consstate_scheme res \<Rightarrow> bool" where
  "writes s r \<longleftrightarrow> (\<exists>s'. r = Inr s' \<and> outstep s s')"

lemma writes_then:
  assumes "writes s r" and "screen_ok s" and "\<not> panicked s"
    and f: "\<And>t. screen_ok t \<Longrightarrow> \<not> panicked t \<Longrightarrow> writes t (f t)"
  shows "writes s (andThen r f)"
proof -
  obtain t where t: "r = Inr t" "outstep s t" using assms(1) by (auto simp: writes_def)
  then obtain u where "f t = Inr u" "outstep t u" using f [of t] outstepD(1,2) [OF t(2)] assms(2,3) by (auto simp: writes_def)
  then show ?thesis using t outstep_trans by (auto simp: writes_def)
qed

lemma writes_put:
  assumes "screen_ok s" and "\<not> panicked s"
  shows "writes s (consputc c s)" "writes s (consputs cs s)" "writes s (printint x b sg s)" "writes s (Inr s)"
  using consputc_ok [OF assms] consputs_ok [OF assms] outstep_refl [of s] by (auto simp: writes_def printint_def)

lemma cprintf_loop_writes:
  fixes s :: "'a consstate_scheme"
  shows "fmt_ok fmt args \<Longrightarrow> screen_ok s \<Longrightarrow> \<not> panicked s \<Longrightarrow> writes s (cprintf_loop fmt args s)"
proof (induction "length fmt" arbitrary: fmt args s rule: less_induct)
  case less
  note put = writes_put [OF less(3,4)] and bind = writes_then [OF _ less(3,4)]
  obtain c f where f: "fmt = c # f" using less(2) by (cases fmt) simp_all
  have IH: "fmt_ok f' args' \<Longrightarrow> screen_ok t \<Longrightarrow> \<not> panicked t \<Longrightarrow> writes t (cprintf_loop f' args' t)" if "length f' \<le> length f" for f' args' and t :: "'a consstate_scheme"
    using less(1) [of f' args' t] that f by simp
  consider (0) "c = 0" | (plain) "c \<noteq> 0" "c \<noteq> 37" | (pct) "c = 37" by blast
  then show ?case
  proof cases
    case plain
    then have "writes s (andThen (consputc (unat c) s) (cprintf_loop f args))" using IH [of f args] less(2) f by (intro bind put) simp_all
    then show ?thesis using plain f by simp
  next
    case pct
    then obtain d g where g: "f = d # g" using less(2) f by (cases f) simp_all
    consider (0) "d = 0" | (num) "d = 100 \<or> d = 120 \<or> d = 112" | (str) "d = 115" | (other) "d \<notin> {0, 100, 120, 112, 115}" by blast
    then show ?thesis
    proof cases
      case num
      then obtain x as where a: "args = Num x # as" "fmt_ok g as"
        using less(2) f g pct by (auto split: list.splits carg.splits)
      have "writes s (andThen (if d = 100 then printint x 10 True s else printint x 16 False s) (cprintf_loop g as))"
        using IH [of g as] a g put(3) by (intro bind) simp_all
      then show ?thesis using f g pct num a by auto
    next
      case str
      then obtain q as where a: "args = Str q # as" "q = None \<or> 0 \<in> set (the q)" "fmt_ok g as"
        using less(2) f g pct by (auto split: list.splits carg.splits option.splits)
      have w: "writes s (andThen (consputs cs s) (cprintf_loop g as))" for cs
        using IH [of g as] a g by (intro bind put) simp_all
      have "0 \<in> set null_str" by (simp add: null_str_def)
      then show ?thesis using w f g pct str a by (cases q) auto
    next
      case other
      then have a: "fmt_ok g args" using less(2) f g pct by simp
      have k: "writes t (cprintf_loop g args t)" if "screen_ok t" "\<not> panicked t" for t :: "'a consstate_scheme" using IH [of g args t] a g that by simp
      have "writes s (andThen (consputc 37 s) (cprintf_loop g args))" by (intro bind put k)
      moreover have "writes s (andThen (consputc 37 s) (\<lambda>s. andThen (consputc (unat d) s) (cprintf_loop g args)))"
        by (intro bind put(1) writes_then k) (auto intro: writes_put)
      ultimately show ?thesis using f g pct other by simp
    qed (use f g pct put(4) in simp)
  qed (use f put(4) in simp)
qed

lemma cprintf_writes:
  "fmt_ok fmt args \<Longrightarrow> screen_ok s \<Longrightarrow> \<not> panicked s \<Longrightarrow> \<not> cons_locking s \<Longrightarrow> \<exists>s'. cprintf fmt args s = Inr s' \<and> outstep s s'"
  using cprintf_loop_writes [of fmt args s] by (auto simp: cprintf_def writes_def)

section \<open>The table\<close>

definition mp_ready :: "'a consstate_scheme \<Rightarrow> bool" where
  "mp_ready s \<longleftrightarrow> screen_ok s \<and> \<not> panicked s \<and> \<not> cons_locking s"

lemma mp_ready_print:
  assumes "mp_ready s" and "fmt_ok fmt args"
  shows "\<exists>a c r. cprintf fmt args s = Inr (s\<lparr>pio := a, crt := c, crtreg := r\<rparr>) \<and> mp_ready (s\<lparr>pio := a, crt := c, crtreg := r\<rparr>)"
proof -
  obtain s' where s': "cprintf fmt args s = Inr s'" "outstep s s'" using cprintf_writes [OF assms(2), of s] assms(1) by (auto simp: mp_ready_def)
  obtain a c r where e: "s' = s\<lparr>pio := a, crt := c, crtreg := r\<rparr>" using s'(2) by (auto simp: outstep_def)
  have "mp_ready s'" using assms(1) outstepD(1) [OF s'(2)] by (simp add: mp_ready_def e)
  then show ?thesis using s'(1) e by auto
qed

text \<open>The length of an entry, and the entries of types \<open>ts\<close> from \<open>p\<close> up to \<open>q\<close>.\<close>

definition esize :: "byte \<Rightarrow> uint" where
  "esize t = (if t = 0 then 20 else 8)"

fun entries :: "mem \<Rightarrow> uint \<Rightarrow> uint \<Rightarrow> byte list \<Rightarrow> uint \<Rightarrow> bool" where
  "entries m p e [] q \<longleftrightarrow> p = q"
| "entries m p e (t # ts) q \<longleftrightarrow> p < e \<and> m p = t \<and> t \<le> 4 \<and> entries m (p + esize t) e ts q"

lemma small_byte: "(t :: byte) \<le> 4 \<longleftrightarrow> t = 0 \<or> t = 1 \<or> t = 2 \<or> t = 3 \<or> t = 4"
proof
  assume "t \<le> 4"
  then have "unat t \<le> 4" by (simp add: word_le_nat_alt)
  then have "unat t = unat (0 :: byte) \<or> unat t = unat (1 :: byte) \<or> unat t = unat (2 :: byte) \<or> unat t = unat (3 :: byte) \<or> unat t = unat (4 :: byte)"
    by simp arith
  then show "t = 0 \<or> t = 1 \<or> t = 2 \<or> t = 3 \<or> t = 4" by (simp only: word_unat_eq_iff)
qed auto

lemma mp_formats:
  "fmt_ok (lit (''mpinit: ncpu=%d apicid=%d'' @ [CHR 0x0A])) [Num a, Num b]"
  "fmt_ok (lit (''mpinit: unknown config type %x'' @ [CHR 0x0A])) [Num a]"
  by (simp_all add: lit_def of_char_def)

lemma mp_step:
  assumes "p < e" and "pmem s p \<le> 4" and r: "mp_ready s" and n: "pmem s p = 0 \<Longrightarrow> ncpu s < 8"
  shows "\<exists>s'. (\<forall>k. mpinit_loop (Suc k) p e s = mpinit_loop k (p + esize (pmem s p)) e s') \<and> mp_ready s' \<and> pmem s' = pmem s \<and>
    ncpu s' = ncpu s + (if pmem s p = 0 then 1 else 0)"
proof (cases "pmem s p = 0")
  case True
  let ?c = "cprintf (lit (''mpinit: ncpu=%d apicid=%d'' @ [CHR 0x0A])) [Num (of_nat (ncpu s)), Num (ucast (pmem s (p + 1)))] s"
  obtain a c g where c: "?c = Inr (s\<lparr>pio := a, crt := c, crtreg := g\<rparr>)" "mp_ready (s\<lparr>pio := a, crt := c, crtreg := g\<rparr>)"
    using mp_ready_print [OF r mp_formats(1)] by blast
  define u where "u = (if int (ncpu s) \<noteq> uint (pmem s (p + 1)) then s\<lparr>pio := a, crt := c, crtreg := g, ismp := False\<rparr> else s)"
  have u: "mp_ready u" "pmem u = pmem s" "ncpu u = ncpu s"
    using r c(2) by (simp_all add: u_def mp_ready_def screen_ok_def cursor_def)
  define w where "w = (if pmem u (p + 3) AND 2 \<noteq> 0 then u\<lparr>bcpu := ncpu u\<rparr> else u)\<lparr>ncpu := ncpu u + 1\<rparr>"
  have e: "(if int (ncpu s) \<noteq> uint (pmem s (p + 1)) then andThen ?c (\<lambda>s. Inr (s\<lparr>ismp := False\<rparr>)) else Inr s) = Inr u"
    by (simp only: c u_def andThen_Inr split: if_split) simp
  have "mpinit_loop (Suc k) p e s = mpinit_loop k (p + 20) e w" for k
    unfolding mpinit_loop.simps Let_def e andThen_Inr using assms(1) True n u(3) by (simp add: w_def)
  moreover have "mp_ready w" "pmem w = pmem s" "ncpu w = ncpu s + 1"
    using u by (simp_all add: w_def mp_ready_def screen_ok_def cursor_def)
  ultimately show ?thesis using True by (intro exI [of _ w]) (simp add: esize_def)
next
  case False
  define w where "w = (if pmem s p = 2 then s\<lparr>ioapicid := pmem s (p + 1)\<rparr> else s)"
  have "mpinit_loop (Suc k) p e s = mpinit_loop k (p + 8) e w" for k
    using assms(1,2) False by (auto simp: w_def small_byte)
  moreover have "mp_ready w" "pmem w = pmem s" "ncpu w = ncpu s"
    using r by (simp_all add: w_def mp_ready_def screen_ok_def cursor_def)
  ultimately show ?thesis using False by (intro exI [of _ w]) (simp add: esize_def)
qed

declare mpinit_loop.simps(2) [simp del]

lemma mp_entries:
  assumes "entries (pmem s) p e ts q" and "mp_ready s" and "ncpu s + count_list ts 0 \<le> 8"
  shows "\<exists>s'. (\<forall>k. mpinit_loop (length ts + k) p e s = mpinit_loop k q e s') \<and> mp_ready s' \<and> pmem s' = pmem s \<and>
    ncpu s' = ncpu s + count_list ts 0"
  using assms
proof (induction ts arbitrary: p s)
  case (Cons t ts)
  have t: "p < e" "pmem s p = t" "t \<le> 4" "entries (pmem s) (p + esize t) e ts q" using Cons.prems(1) by simp_all
  have n: "pmem s p = 0 \<Longrightarrow> ncpu s < 8" using t(2) Cons.prems(3) by simp
  obtain s1 where 1: "\<And>k. mpinit_loop (Suc k) p e s = mpinit_loop k (p + esize t) e s1" "mp_ready s1" "pmem s1 = pmem s"
    "ncpu s1 = ncpu s + (if t = 0 then 1 else 0)"
    using mp_step [OF t(1) _ Cons.prems(2) n] unfolding t(2) using t(3) by blast
  obtain s2 where "\<And>k. mpinit_loop (length ts + k) (p + esize t) e s1 = mpinit_loop k q e s2" "mp_ready s2" "pmem s2 = pmem s"
    "ncpu s2 = ncpu s1 + count_list ts 0"
    using Cons.IH [of s1 "p + esize t"] 1(2-4) t(4) Cons.prems(3) by (auto split: if_splits)
  then show ?case using 1(1,4) by (intro exI [of _ s2]) auto
qed auto

lemma entries_append: "entries m p e (xs @ ys) q \<longleftrightarrow> (\<exists>r. entries m p e xs r \<and> entries m r e ys q)"
  by (induction xs arbitrary: p) auto

lemma mp_short:
  assumes "entries (pmem s) p e ts q" and "mp_ready s" and "ncpu s + count_list ts 0 \<le> 8" and "k \<le> length ts"
  shows "mpinit_loop k p e s = Inl (Spins ''mpinit'')"
proof -
  have ts: "ts = take k ts @ drop k ts" by simp
  obtain r where r: "entries (pmem s) p e (take k ts) r" using assms(1) entries_append [of "pmem s" p e "take k ts" "drop k ts" q] by auto
  have "count_list ts 0 = count_list (take k ts) 0 + count_list (drop k ts) 0" by (metis count_list_append ts)
  then obtain s' where "\<And>j. mpinit_loop (length (take k ts) + j) p e s = mpinit_loop j r e s'"
    using mp_entries [OF r assms(2)] assms(3) by auto
  from this [of 0] show ?thesis using assms(4) by simp
qed

lemma mp_stuck:
  assumes "q < e" and "4 < pmem s q" and "mp_ready s"
  shows "mpinit_loop k q e s = Inl (Spins ''mpinit'')"
  using assms
proof (induction k arbitrary: s)
  case (Suc k)
  have n: "pmem s q \<noteq> 0" "pmem s q \<noteq> 1" "pmem s q \<noteq> 2" "pmem s q \<noteq> 3" "pmem s q \<noteq> 4" using Suc.prems(2) by auto
  let ?c = "cprintf (lit (''mpinit: unknown config type %x'' @ [CHR 0x0A])) [Num (ucast (pmem s q))] s"
  obtain a c g where c: "?c = Inr (s\<lparr>pio := a, crt := c, crtreg := g\<rparr>)" "mp_ready (s\<lparr>pio := a, crt := c, crtreg := g\<rparr>)"
    using mp_ready_print [OF Suc.prems(3) mp_formats(2)] by blast
  let ?u = "s\<lparr>pio := a, crt := c, crtreg := g, ismp := False\<rparr>"
  have "mpinit_loop k q e ?u = Inl (Spins ''mpinit'')"
    using Suc.IH [of ?u] Suc.prems(1,2) c(2) by (simp add: mp_ready_def screen_ok_def cursor_def)
  then show ?case unfolding mpinit_loop.simps c(1) andThen_Inr using Suc.prems(1) n by simp
qed simp

text \<open>C33: reading the multiprocessor table ends exactly when all its entries have a known type. Let \<open>ts\<close> be the types of the entries
  up to \<open>q\<close>, at most eight of them processors. If \<open>q\<close> is the end of the table, \<open>mpinit\<close> returns after one step more than there are entries, and either
  has counted the processors or has fallen back to one. If an entry of unknown type is at \<open>q\<close>, it never returns:
  it prints its complaint forever.\<close>

theorem mpinit_returns_iff_known:
  assumes "mpconfig (pmem s) = Some (conf, mp)" and "mp_ready s"
    and "end_of = conf + ucast (load16 (pmem s) (conf + 4))"
    and "entries (pmem s) (conf + 44) end_of ts q" and "ncpu s + count_list ts 0 \<le> 8"
  shows "(\<not> q < end_of \<longrightarrow>
      (\<exists>s'. (\<forall>k>length ts. mpinit k imcr s = Inr s') \<and> ncpu s' = (if ismp s' then ncpu s + count_list ts 0 else 1))) \<and>
    (q < end_of \<and> 4 < pmem s q \<longrightarrow> (\<forall>k. mpinit k imcr s = Inl (Spins ''mpinit'')))"
proof -
  define u where "u = s\<lparr>bcpu := 0, ismp := True, lapic := load32 (pmem s) (conf + 36)\<rparr>"
  have u: "mp_ready u" "pmem u = pmem s" "ncpu u = ncpu s" using assms(2) by (simp_all add: u_def mp_ready_def screen_ok_def cursor_def)
  obtain t where t: "\<And>k. mpinit_loop (length ts + k) (conf + 44) end_of u = mpinit_loop k q end_of t" "mp_ready t" "pmem t = pmem s"
    "ncpu t = ncpu s + count_list ts 0"
    using mp_entries [of u "conf + 44" end_of ts q] assms(4,5) u by auto
  have m: "mpinit k imcr s = andThen (mpinit_loop k (conf + 44) end_of u) (\<lambda>s.
      if \<not> ismp s then Inr (s\<lparr>ncpu := 1, lapic := 0, ioapicid := 0\<rparr>)
      else if pmem s (mp + 12) \<noteq> 0 then Inr (outb 0x23 (imcr OR 1) (outb 0x22 0x70 s))
      else Inr s)" for k
    using assms(1,3) by (simp add: mpinit_def u_def Let_def)
  show ?thesis
  proof (intro conjI impI)
    assume q: "\<not> q < end_of"
    have l: "mpinit_loop k (conf + 44) end_of u = Inr t" if lt: "length ts < k" for k
    proof -
      obtain j where "k = length ts + Suc j" using less_imp_Suc_add [OF lt] by auto
      then show ?thesis using t(1) [of "Suc j"] q by (simp add: mpinit_loop.simps(2))
    qed
    define s' where "s' = (if \<not> ismp t then t\<lparr>ncpu := 1, lapic := 0, ioapicid := 0\<rparr>
      else if pmem t (mp + 12) \<noteq> 0 then outb 0x23 (imcr OR 1) (outb 0x22 0x70 t) else t)"
    have "mpinit k imcr s = Inr s'" if "length ts < k" for k by (simp add: m l [OF that] s'_def)
    moreover have "ncpu s' = (if ismp s' then ncpu s + count_list ts 0 else 1)" by (simp add: s'_def t(4) outb_def)
    ultimately show "\<exists>s'. (\<forall>k>length ts. mpinit k imcr s = Inr s') \<and> ncpu s' = (if ismp s' then ncpu s + count_list ts 0 else 1)" by blast
  next
    assume q: "q < end_of \<and> 4 < pmem s q"
    have "mpinit_loop k (conf + 44) end_of u = Inl (Spins ''mpinit'')" for k
    proof (cases "k < length ts")
      case False
      then obtain j where "k = length ts + j" using le_Suc_ex by (metis linorder_not_less)
      then show ?thesis using t(1) [of j] mp_stuck [of q end_of t j] q t(2,3) by simp
    next
      case True
      then show ?thesis using mp_short [of u "conf + 44" end_of ts q k] assms(4,5) u by simp
    qed
    then show "\<forall>k. mpinit k imcr s = Inl (Spins ''mpinit'')" by (simp add: m)
  qed
qed

text \<open>A table with two processors and an I/O APIC.\<close>

definition mp_table :: "byte list" where
  "mp_table = [80, 67, 77, 80, 92, 0, 4, 182] @ replicate 26 0 @ [3, 0, 0, 0, 224, 254, 0, 0, 0, 0] @
     [0, 0, 0, 3] @ replicate 16 0 @ [0, 1, 0, 1] @ replicate 16 0 @ [2, 2, 17, 1, 0, 0, 192, 254]"

definition mp_mem :: mem where
  "mp_mem a = (if a = 0x40F then 0x90
     else if 0x90000 \<le> a \<and> a < 0x90010 then [95, 77, 80, 95, 0, 1, 9, 0, 1, 4, 150, 0, 0, 0, 0, 0] ! unat (a - 0x90000)
     else if 0x90100 \<le> a \<and> a < 0x9015C then mp_table ! unat (a - 0x90100)
     else 0)"

lemma mp_mem_facts:
  "mpconfig mp_mem = Some (0x90100, 0x90000)" "load16 mp_mem 0x90104 = 92" "entries mp_mem 0x9012C 0x9015C [0, 0, 2] 0x9015C"
  by code_simp+

theorem mpinit_returns_iff_known_witness:
  "\<exists>s'. mpinit 4 0 ((boot_kernel mp_mem ne_zero)\<lparr>ncpu := 0\<rparr>) = Inr s' \<and> ncpu s' = (if ismp s' then 2 else 1)"
proof -
  define s0 where "s0 = (boot_kernel mp_mem ne_zero)\<lparr>ncpu := 0\<rparr>"
  have r: "mp_ready s0" and m: "pmem s0 = mp_mem" and n: "ncpu s0 + count_list [0, 0, 2 :: byte] 0 = 2"
    by (simp_all add: s0_def mp_ready_def screen_ok_def cursor_def boot_kernel_def boot_ext_def del: replicate.simps)
  have e: "0x9015C = 0x90100 + ucast (load16 (pmem s0) (0x90100 + 4))" "entries (pmem s0) (0x90100 + 44) 0x9015C [0, 0, 2] 0x9015C"
    using mp_mem_facts(2,3) unfolding m by simp_all
  have "\<exists>s'. (\<forall>k>length [0, 0, 2 :: byte]. mpinit k 0 s0 = Inr s') \<and> ncpu s' = (if ismp s' then ncpu s0 + count_list [0, 0, 2 :: byte] 0 else 1)"
    using mpinit_returns_iff_known [OF mp_mem_facts(1) [folded m] r e, of 0] n by simp
  then obtain s' where "mpinit 4 0 s0 = Inr s'" "ncpu s' = (if ismp s' then 2 else 1)" unfolding n by auto
  then show ?thesis unfolding s0_def by blast
qed

end
