(* ===== verification/Frame.thy ===== *)
theory Frame
  imports Trap
begin

unbundle bit_operations_syntax

text \<open>
  What every operation of the kernel preserves. Each locale says which updates preserve a predicate \<open>P\<close> on the state, and
  its lemmas that the operations made of these updates preserve it too. A later locale adds the updates of the next layer.

  \<open>safe P r\<close> says that a routine with the result \<open>r\<close> ends in a state with \<open>P\<close> if it returns. Its rules follow the syntax of the routines.
\<close>

section \<open>Rules\<close>

definition safe :: "('s \<Rightarrow> bool) \<Rightarrow> ('x \<times> 's) res \<Rightarrow> bool" where
  "safe P r \<longleftrightarrow> (\<forall>x s. r = Inr (x, s) \<longrightarrow> P s)"

definition safe1 :: "('s \<Rightarrow> bool) \<Rightarrow> 's res \<Rightarrow> bool" where
  "safe1 P r \<longleftrightarrow> (\<forall>s. r = Inr s \<longrightarrow> P s)"

named_theorems safe_rules \<open>rules of \<open>safe\<close> and \<open>safe1\<close> by the form of the routine\<close>

lemma safe_Inl [safe_rules]: "safe P (Inl e)" "safe1 P (Inl e)"
  by (simp_all add: safe_def safe1_def)

lemma safe_Inr [safe_rules]: "P t \<Longrightarrow> safe P (Inr (x, t))" "P t \<Longrightarrow> safe1 P (Inr t)"
  by (simp_all add: safe_def safe1_def)

lemma safeD: "safe P r \<Longrightarrow> r = Inr (x, s) \<Longrightarrow> P s" "safe1 P q \<Longrightarrow> q = Inr s \<Longrightarrow> P s"
  by (simp_all add: safe_def safe1_def)

lemma safe_bind [safe_rules]:
  "safe P r \<Longrightarrow> (\<And>x t. P t \<Longrightarrow> safe P (f x t)) \<Longrightarrow> safe P (andThen r (\<lambda>(x, t). f x t))"
  "safe P r \<Longrightarrow> (\<And>x t. P t \<Longrightarrow> safe1 P (f' x t)) \<Longrightarrow> safe1 P (andThen r (\<lambda>(x, t). f' x t))"
  "safe1 P q \<Longrightarrow> (\<And>t. P t \<Longrightarrow> safe P (g t)) \<Longrightarrow> safe P (andThen q g)"
  "safe1 P q \<Longrightarrow> (\<And>t. P t \<Longrightarrow> safe1 P (g' t)) \<Longrightarrow> safe1 P (andThen q g')"
proof -
  assume r: "safe P r"
  {
    assume "\<And>x t. P t \<Longrightarrow> safe P (f x t)"
    with safeD(1) [OF r] show "safe P (andThen r (\<lambda>(x, t). f x t))"
      by (cases r) (auto simp: safe_Inl)
  }
  {
    assume "\<And>x t. P t \<Longrightarrow> safe1 P (f' x t)"
    with safeD(1) [OF r] show "safe1 P (andThen r (\<lambda>(x, t). f' x t))"
      by (cases r) (auto simp: safe_Inl)
  }
next
  assume q: "safe1 P q"
  {
    assume "\<And>t. P t \<Longrightarrow> safe P (g t)"
    with safeD(2) [OF q] show "safe P (andThen q g)" by (cases q) (auto simp: safe_Inl)
  }
  {
    assume "\<And>t. P t \<Longrightarrow> safe1 P (g' t)"
    with safeD(2) [OF q] show "safe1 P (andThen q g')" by (cases q) (auto simp: safe_Inl)
  }
qed

text \<open>A step that only computes a value.\<close>

lemma safe_value:
  "(\<And>x. safe P (f x)) \<Longrightarrow> safe P (andThen r f)" "(\<And>x. safe1 P (f' x)) \<Longrightarrow> safe1 P (andThen r f')"
  by (cases r; simp add: safe_Inl)+

text \<open>A step whose result satisfies \<open>Q\<close>.\<close>

definition gives :: "('x \<Rightarrow> bool) \<Rightarrow> ('x \<times> 's) res \<Rightarrow> bool" where
  "gives Q r \<longleftrightarrow> (\<forall>x s. r = Inr (x, s) \<longrightarrow> Q x)"

lemma safe_bind_gives:
  assumes "safe P r" and "gives Q r"
  shows "(\<And>x t. P t \<Longrightarrow> Q x \<Longrightarrow> safe P (f x t)) \<Longrightarrow> safe P (andThen r (\<lambda>(x, t). f x t))"
    "(\<And>x t. P t \<Longrightarrow> Q x \<Longrightarrow> safe1 P (g x t)) \<Longrightarrow> safe1 P (andThen r (\<lambda>(x, t). g x t))"
  using assms by (cases r; force simp: safe_def safe1_def gives_def)+

lemma safe_if [safe_rules]:
  "(b \<Longrightarrow> safe P r) \<Longrightarrow> (\<not> b \<Longrightarrow> safe P r') \<Longrightarrow> safe P (if b then r else r')"
  "(b \<Longrightarrow> safe1 P q) \<Longrightarrow> (\<not> b \<Longrightarrow> safe1 P q') \<Longrightarrow> safe1 P (if b then q else q')"
  by simp_all

lemma safe_let [safe_rules]: "safe P (f x) \<Longrightarrow> safe P (Let x f)" "safe1 P (g x) \<Longrightarrow> safe1 P (Let x g)"
  by simp_all

lemma safe_option [safe_rules]:
  "(y = None \<Longrightarrow> safe P r) \<Longrightarrow> (\<And>x. y = Some x \<Longrightarrow> safe P (f x)) \<Longrightarrow> safe P (case y of None \<Rightarrow> r | Some x \<Rightarrow> f x)"
  "(y = None \<Longrightarrow> safe1 P q) \<Longrightarrow> (\<And>x. y = Some x \<Longrightarrow> safe1 P (g x)) \<Longrightarrow> safe1 P (case y of None \<Rightarrow> q | Some x \<Rightarrow> g x)"
  by (simp_all split: option.split)

lemma safe_prod [safe_rules]:
  "(\<And>a b. p = (a, b) \<Longrightarrow> safe P (f a b)) \<Longrightarrow> safe P (case p of (a, b) \<Rightarrow> f a b)"
  "(\<And>a b. p = (a, b) \<Longrightarrow> safe1 P (g a b)) \<Longrightarrow> safe1 P (case p of (a, b) \<Rightarrow> g a b)"
  "(\<And>a b. p = (a, b) \<Longrightarrow> safe P (h a b t)) \<Longrightarrow> safe P ((case p of (a, b) \<Rightarrow> h a b) t)"
  "(\<And>a b. p = (a, b) \<Longrightarrow> safe1 P (k a b t)) \<Longrightarrow> safe1 P ((case p of (a, b) \<Rightarrow> k a b) t)"
  by (simp_all split: prod.split)

section \<open>Locks\<close>

locale lsafe =
  fixes P :: "'a machine_scheme \<Rightarrow> bool"
  assumes P_cpus: "P s \<Longrightarrow> P (s\<lparr>cpus := a\<rparr>)"
    and P_locks: "P s \<Longrightarrow> P (s\<lparr>locks := b\<rparr>)"
begin

lemma pushcli: "P s \<Longrightarrow> P (pushcli s)"
  by (simp add: lock_defs P_cpus P_locks)

lemma initlock: "P s \<Longrightarrow> P (initlock l n s)"
  by (simp add: initlock_def P_locks)

lemma acquire: "P t \<Longrightarrow> safe1 P (acquire l t)"
  by (auto simp: safe1_def acquire_def lock_defs P_cpus P_locks split: if_splits)

lemma release: "P t \<Longrightarrow> safe1 P (release l t)"
  by (auto simp: safe1_def release_def lock_defs P_cpus P_locks split: if_splits)

lemma popcli: "P t \<Longrightarrow> safe1 P (popcli t)"
  by (auto simp: safe1_def lock_defs P_cpus P_locks split: if_splits)

end

section \<open>Memory\<close>

locale ksafe = lsafe P for P :: "'a kmem_scheme \<Rightarrow> bool" +
  assumes P_pmem: "P s \<Longrightarrow> P (s\<lparr>pmem := c\<rparr>)"
    and P_freelist: "P s \<Longrightarrow> P (s\<lparr>freelist := d\<rparr>)"
begin

lemmas k_simps = P_cpus P_locks P_pmem P_freelist

lemma kalloc: "P t \<Longrightarrow> safe P (kalloc t)"
  unfolding kalloc_def by (intro safe_rules acquire release) (simp_all add: k_simps)

lemma kfree: "P t \<Longrightarrow> safe1 P (kfree kend p t)"
  unfolding kfree_def by (intro safe_rules acquire release) (simp_all add: k_simps)

lemma walkpgdir: "P t \<Longrightarrow> safe P (walkpgdir d va c t)"
  unfolding walkpgdir_def by (intro safe_rules kalloc) (simp_all add: k_simps)

lemma mappages_loop: "P t \<Longrightarrow> safe P (mappages_loop n d a lst pa perm t)"
proof (induction n arbitrary: a pa t)
  case (Suc n)
  then show ?case unfolding mappages_loop.simps by (intro safe_rules walkpgdir Suc.IH) (simp_all add: k_simps)
qed (simp add: safe_def safe1_def)

lemma mappages: "P t \<Longrightarrow> safe P (mappages d la sz pa perm t)"
  unfolding mappages_def Let_def by (rule mappages_loop)

lemma map_regions: "P t \<Longrightarrow> safe P (map_regions d ks t)"
proof (induction ks arbitrary: t)
  case (Cons k ks)
  then show ?case unfolding map_regions.simps by (intro safe_rules mappages Cons.IH) simp_all
qed (simp add: safe_def safe1_def)

lemma setupkvm: "P t \<Longrightarrow> safe P (setupkvm kdata t)"
  unfolding setupkvm_def by (intro safe_rules kalloc map_regions) (simp_all add: k_simps)

lemma inituvm: "P t \<Longrightarrow> safe1 P (inituvm d init sz t)"
  unfolding inituvm_def by (intro safe_rules kalloc mappages) (simp_all add: k_simps)

lemma deallocuvm_loop: "P t \<Longrightarrow> safe1 P (deallocuvm_loop n kend d a oldsz t)"
proof (induction n arbitrary: a t)
  case (Suc n)
  then show ?case unfolding deallocuvm_loop.simps by (intro safe_rules walkpgdir kfree Suc.IH) (simp_all add: k_simps)
qed (simp add: safe_def safe1_def)

lemma deallocuvm: "P t \<Longrightarrow> safe P (deallocuvm kend d oldsz newsz t)"
  unfolding deallocuvm_def by (intro safe_rules deallocuvm_loop) simp_all

lemma allocuvm_loop: "P t \<Longrightarrow> safe P (allocuvm_loop n kend d a oldsz newsz t)"
proof (induction n arbitrary: a t)
  case (Suc n)
  then show ?case unfolding allocuvm_loop.simps by (intro safe_rules kalloc mappages deallocuvm Suc.IH) (simp_all add: k_simps)
qed (simp add: safe_def safe1_def)

lemma allocuvm: "P t \<Longrightarrow> safe P (allocuvm kend d oldsz newsz t)"
  unfolding allocuvm_def by (intro safe_rules allocuvm_loop) simp_all

lemma freevm_loop: "P t \<Longrightarrow> safe1 P (freevm_loop n kend d i t)"
proof (induction n arbitrary: i t)
  case (Suc n)
  then show ?case unfolding freevm_loop.simps by (intro safe_rules kfree Suc.IH) simp_all
qed (simp add: safe_def safe1_def)

lemma freevm: "P t \<Longrightarrow> safe1 P (freevm kend d t)"
  unfolding freevm_def by (intro safe_rules deallocuvm kfree freevm_loop) simp_all

lemma copyuvm_loop: "P t \<Longrightarrow> safe P (copyuvm_loop n d d' i sz t)"
proof (induction n arbitrary: i t)
  case (Suc n)
  then show ?case unfolding copyuvm_loop.simps by (intro safe_rules walkpgdir kalloc mappages Suc.IH) (simp_all add: k_simps)
qed (simp add: safe_def safe1_def)

lemma copyuvm: "P t \<Longrightarrow> safe P (copyuvm kdata kend d sz t)"
  unfolding copyuvm_def by (intro safe_rules setupkvm freevm copyuvm_loop) simp_all

lemma copyout_loop: "P t \<Longrightarrow> safe P (copyout_loop n d va buf t)"
proof (induction n arbitrary: va buf t)
  case (Suc n)
  then show ?case unfolding copyout_loop.simps 
    by (intro safe_rules safe_value [where r = "uva2ka x y z" for x y z] Suc.IH) (simp_all add: k_simps)
qed (simp add: safe_def safe1_def)

lemma copyout: "P t \<Longrightarrow> safe P (copyout d va buf t)"
  unfolding copyout_def by (rule copyout_loop)

lemma push_args: "P t \<Longrightarrow> safe P (push_args d argv sp us t)"
proof (induction argv arbitrary: sp us t)
  case (Cons a argv)
  then show ?case unfolding push_args.simps 
    by (intro safe_rules safe_value [where r = "strlen x" for x] copyout Cons.IH) simp_all
qed (simp add: safe_def safe1_def)

end

section \<open>The disk\<close>

locale dsafe = lsafe P for P :: "'a diskstate_scheme \<Rightarrow> bool" +
  assumes P_buf: "P s \<Longrightarrow> P (upd_buf i f s)"
    and P_relink: "P s \<Longrightarrow> P (s\<lparr>bufs := relink i (bufs s)\<rparr>)"
    and P_disk: "P s \<Longrightarrow> P (s\<lparr>disk := d\<rparr>)"
    and P_pio: "P s \<Longrightarrow> P (s\<lparr>pio := p\<rparr>)"
    and P_queue: "P s \<Longrightarrow> P (s\<lparr>idequeue := q\<rparr>)"
    and P_wake: "P s \<Longrightarrow> P (wakeup1 ch s)"
begin

lemmas d_simps = P_cpus P_locks P_buf P_relink P_disk P_pio P_queue P_wake

lemma outb: "P s \<Longrightarrow> P (outb port b s)"
  by (simp add: outb_def P_pio)

lemma ide_outsl: "P s \<Longrightarrow> P (ide_outsl bs s)"
  by (simp add: ide_outsl_def P_disk)

lemma put_data: "P s \<Longrightarrow> P (put_data i bs s)"
  by (simp add: put_data_def P_buf)

lemma wakeup: "P t \<Longrightarrow> safe1 P (wakeup ch t)"
  unfolding wakeup_def by (intro safe_rules acquire release) (simp_all add: P_wake)

lemma idestart: "P t \<Longrightarrow> safe1 P (idestart b t)"
  unfolding idestart_def
  by (intro safe_rules safe_value [where r = "idewait x y" for x y]) (simp_all add: outb ide_outsl)

lemma ideintr: "P t \<Longrightarrow> safe1 P (ideintr t)"
  unfolding ideintr_def
  by (intro safe_rules acquire release wakeup idestart safe_value [where r = "idewait x y" for x y]) (simp_all add: d_simps)

lemma queue_append: "P t \<Longrightarrow> safe1 P (queue_append n q b t)"
proof (induction n arbitrary: q t)
  case (Suc n)
  then show ?case unfolding queue_append.simps by (intro safe_rules Suc.IH) (simp_all add: d_simps)
qed (simp add: safe1_def)

lemma iderw_wait: "P t \<Longrightarrow> safe1 P (iderw_wait n b t)"
proof (induction n arbitrary: t)
  case (Suc n)
  then show ?case unfolding iderw_wait.simps by (intro safe_rules acquire release ideintr Suc.IH) simp_all
qed (simp add: safe1_def)

lemma iderw: "P t \<Longrightarrow> safe1 P (iderw b t)"
  unfolding iderw_def
  by (intro safe_rules acquire release idestart queue_append iderw_wait) (simp_all add: d_simps)

lemma bget: "P t \<Longrightarrow> safe P (bget dev sec t)"
  unfolding bget_def
  by (intro safe_rules acquire release safe_value [where r = "find_cached a b c d e" for a b c d e]
      safe_value [where r = "find_idle a b c" for a b c]) (simp_all add: d_simps)

lemma bread: "P t \<Longrightarrow> safe P (bread dev sec t)"
  unfolding bread_def by (intro safe_rules bget iderw) simp_all

lemma bwrite: "P t \<Longrightarrow> safe1 P (bwrite b t)"
  unfolding bwrite_def by (intro safe_rules iderw) (simp_all add: d_simps)

lemma brelse: "P t \<Longrightarrow> safe1 P (brelse b t)"
  unfolding brelse_def by (intro safe_rules acquire release wakeup) (simp_all add: d_simps)

lemma readsb: "P t \<Longrightarrow> safe P (readsb dev t)"
  unfolding readsb_def by (intro safe_rules bread brelse) simp_all

lemma bzero: "P t \<Longrightarrow> safe1 P (bzero dev b t)"
  unfolding bzero_def by (intro safe_rules bread bwrite brelse) (simp_all add: put_data)

lemma balloc_loop: "P t \<Longrightarrow> safe P (balloc_loop k dev sb b t)"
proof (induction k arbitrary: b t)
  case (Suc k)
  then show ?case unfolding balloc_loop.simps by (intro safe_rules bread bwrite brelse Suc.IH) (simp_all add: put_data)
qed (simp add: safe_def)

lemma balloc: "P t \<Longrightarrow> safe P (balloc dev t)"
  unfolding balloc_def by (intro safe_rules readsb balloc_loop) simp_all

lemma bfree: "P t \<Longrightarrow> safe1 P (bfree dev b t)"
  unfolding bfree_def by (intro safe_rules readsb bread bwrite brelse bzero) (simp_all add: put_data)

end

section \<open>Inodes and directories\<close>

text \<open>A device switch whose routines preserve \<open>P\<close>.\<close>

definition devr_safe :: "('s \<Rightarrow> bool) \<Rightarrow> 's dev_read \<Rightarrow> bool" where
  "devr_safe P d \<longleftrightarrow> (\<forall>m f ip n s. d m = Some f \<longrightarrow> P s \<longrightarrow> safe P (f ip n s))"

definition devw_safe :: "('s \<Rightarrow> bool) \<Rightarrow> 's dev_write \<Rightarrow> bool" where
  "devw_safe P d \<longleftrightarrow> (\<forall>m f ip bs n s. d m = Some f \<longrightarrow> P s \<longrightarrow> safe P (f ip bs n s))"

lemma dev_safeD:
  "devr_safe P d \<Longrightarrow> d m = Some f \<Longrightarrow> P t \<Longrightarrow> safe P (f ip n t)"
  "devw_safe P e \<Longrightarrow> e m = Some g \<Longrightarrow> P t \<Longrightarrow> safe P (g ip bs n t)"
  by (simp_all add: devr_safe_def devw_safe_def)

locale isafe = dsafe P for P :: "'a fsstate_scheme \<Rightarrow> bool" +
  assumes P_inode: "P s \<Longrightarrow> P (upd_inode i f s)"
begin

lemma iget: "P t \<Longrightarrow> safe P (iget dev inum t)"
  unfolding iget_def by (intro safe_rules acquire release) (simp_all add: P_inode)

lemma idup: "P t \<Longrightarrow> safe P (idup ip t)"
  unfolding idup_def by (intro safe_rules acquire release) (simp_all add: P_inode)

lemma ialloc_loop: "P t \<Longrightarrow> safe P (ialloc_loop k dev sb ty inum t)"
proof (induction k arbitrary: inum t)
  case (Suc k)
  then show ?case unfolding ialloc_loop.simps by (intro safe_rules bread bwrite brelse iget Suc.IH) (simp_all add: put_data)
qed (simp add: safe_def)

lemma ialloc: "P t \<Longrightarrow> safe P (ialloc dev ty t)"
  unfolding ialloc_def by (intro safe_rules readsb ialloc_loop) simp_all

lemma iupdate: "P t \<Longrightarrow> safe1 P (iupdate ip t)"
  unfolding iupdate_def by (intro safe_rules bread bwrite brelse) (simp_all add: put_data)

lemma ilock: "P t \<Longrightarrow> safe1 P (ilock ip t)"
  unfolding ilock_def by (intro safe_rules acquire release bread brelse) (simp_all add: P_inode)

lemma iunlock: "P t \<Longrightarrow> safe1 P (iunlock ip t)"
  unfolding iunlock_def by (intro safe_rules acquire release wakeup) (simp_all add: P_inode)

lemma bmap: "P t \<Longrightarrow> safe P (bmap ip bn t)"
  unfolding bmap_def by (intro safe_rules balloc bread bwrite brelse) (simp_all add: P_inode put_data)

lemma itrunc_direct: "P t \<Longrightarrow> safe1 P (itrunc_direct k ip i t)"
proof (induction k arbitrary: i t)
  case (Suc k)
  then show ?case unfolding itrunc_direct.simps by (intro safe_rules bfree Suc.IH) (simp_all add: P_inode)
qed (simp add: safe1_def)

lemma itrunc_indirect: "P t \<Longrightarrow> safe1 P (itrunc_indirect k ip bp j t)"
proof (induction k arbitrary: j t)
  case (Suc k)
  then show ?case unfolding itrunc_indirect.simps by (intro safe_rules bfree Suc.IH) simp_all
qed (simp add: safe1_def)

lemma itrunc: "P t \<Longrightarrow> safe1 P (itrunc ip t)"
  unfolding itrunc_def
  by (intro safe_rules itrunc_direct itrunc_indirect bread brelse bfree iupdate) (simp_all add: P_inode)

lemma iput: "P t \<Longrightarrow> safe1 P (iput ip t)"
  unfolding iput_def by (intro safe_rules acquire release wakeup itrunc iupdate) (simp_all add: P_inode)

lemma iunlockput: "P t \<Longrightarrow> safe1 P (iunlockput ip t)"
  unfolding iunlockput_def by (intro safe_rules iunlock iput) simp_all

lemma readi_loop: "P t \<Longrightarrow> safe P (readi_loop k ip off n dst t)"
proof (induction k arbitrary: off n dst t)
  case (Suc k)
  then show ?case unfolding readi_loop.simps by (intro safe_rules bmap bread brelse Suc.IH) simp_all
qed (simp add: safe_def)

lemma readi: "devr_safe P devr \<Longrightarrow> P t \<Longrightarrow> safe P (readi devr ip off n t)"
  unfolding readi_def by (intro safe_rules readi_loop) (simp_all add: dev_safeD)

lemma writei_loop: "P t \<Longrightarrow> safe P (writei_loop k ip src off n t)"
proof (induction k arbitrary: src off n t)
  case (Suc k)
  then show ?case unfolding writei_loop.simps by (intro safe_rules bmap bread bwrite brelse Suc.IH) (simp_all add: put_data)
qed (simp add: safe_def)

lemma writei: "devw_safe P devw \<Longrightarrow> P t \<Longrightarrow> safe P (writei devw ip src off n t)"
  unfolding writei_def by (intro safe_rules writei_loop iupdate) (simp_all add: dev_safeD P_inode)

lemma dirlookup_loop: "P t \<Longrightarrow> safe P (dirlookup_loop k dp name off t)"
proof (induction k arbitrary: off t)
  case (Suc k)
  then show ?case unfolding dirlookup_loop.simps
    by (intro safe_rules safe_value [where r = "dir_scan a b c d" for a b c d] bmap bread brelse iget Suc.IH) simp_all
qed (simp add: safe_def)

lemma dirlookup: "P t \<Longrightarrow> safe P (dirlookup dp name t)"
  unfolding dirlookup_def by (intro safe_rules dirlookup_loop) simp_all

lemma dirlink_loop: "devr_safe P devr \<Longrightarrow> P t \<Longrightarrow> safe P (dirlink_loop k devr dp off t)"
proof (induction k arbitrary: off t)
  case (Suc k)
  then show ?case unfolding dirlink_loop.simps by (intro safe_rules readi Suc.IH) simp_all
qed (simp add: safe_def)

lemma dirlink:
  "devr_safe P devr \<Longrightarrow> devw_safe P devw \<Longrightarrow> P t \<Longrightarrow> safe P (dirlink devr devw dp name inum t)"
  unfolding dirlink_def
  by (intro safe_rules safe_value [where r = "strncpy_bytes a b" for a b] dirlookup dirlink_loop writei iput) simp_all

lemma namex_loop: "P t \<Longrightarrow> safe P (namex_loop k ip path np name t)"
proof (induction k arbitrary: ip path name t)
  case (Suc k)
  then show ?case unfolding namex_loop.simps
    by (intro safe_rules safe_value [where r = "skipelem a b" for a b] iput ilock iunlock iunlockput dirlookup Suc.IH) simp_all
qed (simp add: safe_def)

lemma namex: "P t \<Longrightarrow> safe P (namex path np name t)"
  unfolding namex_def by (intro safe_rules iget idup namex_loop) simp_all

lemma namei: "P t \<Longrightarrow> safe P (namei path t)"
  unfolding namei_def by (intro safe_rules namex) simp_all

lemma nameiparent: "P t \<Longrightarrow> safe P (nameiparent path name t)"
  unfolding nameiparent_def by (rule namex)

end

section \<open>Open files and pipes\<close>

definition devi_safe :: "('s \<Rightarrow> bool) \<Rightarrow> 's dev_ioctl \<Rightarrow> bool" where
  "devi_safe P d \<longleftrightarrow> (\<forall>m f ip rq a s. d m = Some f \<longrightarrow> P s \<longrightarrow> safe P (f ip rq a s))"

lemma devi_safeD: "devi_safe P d \<Longrightarrow> d m = Some f \<Longrightarrow> P t \<Longrightarrow> safe P (f ip rq a t)"
  by (simp add: devi_safe_def)

text \<open>A channel on which no process waits for its children.\<close>

definition plain_chan :: "chan \<Rightarrow> bool" where
  "plain_chan ch \<longleftrightarrow> (\<forall>i. ch \<noteq> Chan ''proc'' i)"

lemma plain_chans: "plain_chan (C_nread p)" "plain_chan (C_nwrite p)" "plain_chan C_input" "plain_chan C_ticks"
  by (simp_all add: plain_chan_def C_nread_def C_nwrite_def C_input_def C_ticks_def)

locale fsafe = ksafe P + isafe P for P :: "'a filestate_scheme \<Rightarrow> bool" +
  assumes P_pipes: "P s \<Longrightarrow> P (s\<lparr>pipes := q\<rparr>)"
    and P_file: "P s \<Longrightarrow> (\<And>x. f_ip (g x) = f_ip x) \<Longrightarrow> P (upd_file f g s)"
    and P_sleep: "P s \<Longrightarrow> plain_chan ch \<Longrightarrow> safe P (sleep_switch ch l s)"
    and P_unsleep: "P s \<Longrightarrow> safe1 P (sleep_resume l' saved s)"
begin

lemma set_pipe: "P s \<Longrightarrow> P (set_pipe p x s)"
  by (simp add: set_pipe_def P_pipes)

lemma pipewrite_cont: "P t \<Longrightarrow> safe P (pipewrite_cont p n cs t)"
  unfolding pipewrite_cont_def
  by (auto split: wloop.split intro!: safe_rules wakeup release P_sleep simp: set_pipe plain_chans)

lemma pipewrite: "P t \<Longrightarrow> safe P (pipewrite p addr n t)"
  unfolding pipewrite_def by (intro safe_rules acquire pipewrite_cont) simp_all

lemma pipewrite_resume: "P t \<Longrightarrow> safe P (pipewrite_resume p n cs saved t)"
  unfolding pipewrite_resume_def by (intro safe_rules P_unsleep pipewrite_cont) simp_all

lemma piperead_cont: "P t \<Longrightarrow> safe P (piperead_cont p n t)"
  unfolding piperead_cont_def by (intro safe_rules wakeup release P_sleep) (simp_all add: set_pipe plain_chans)

lemma piperead: "P t \<Longrightarrow> safe P (piperead p n t)"
  unfolding piperead_def by (intro safe_rules acquire piperead_cont) simp_all

lemma piperead_resume: "P t \<Longrightarrow> safe P (piperead_resume p n saved t)"
  unfolding piperead_resume_def by (intro safe_rules P_unsleep piperead_cont) simp_all

lemma pipeclose: "P t \<Longrightarrow> safe1 P (pipeclose kend p w t)"
  unfolding pipeclose_def by (intro safe_rules acquire wakeup release kfree) (simp_all add: set_pipe P_pipes)

lemma filealloc: "P t \<Longrightarrow> safe P (filealloc t)"
  unfolding filealloc_def by (intro safe_rules acquire release P_file) simp_all

lemma filedup: "P t \<Longrightarrow> safe P (filedup f t)"
  unfolding filedup_def by (intro safe_rules acquire release P_file) simp_all

lemma fileclose: "P t \<Longrightarrow> safe1 P (fileclose kend f t)"
  unfolding fileclose_def Let_def by (intro safe_rules acquire release pipeclose iput P_file) simp_all

lemma filestat: "P t \<Longrightarrow> safe P (filestat f t)"
  unfolding filestat_def by (intro safe_rules ilock iunlock) simp_all

lemma fileread: "devr_safe P devr \<Longrightarrow> P t \<Longrightarrow> safe P (fileread devr f n t)"
  unfolding fileread_def by (intro safe_rules piperead ilock readi iunlock) (simp_all add: P_file)

lemma filewrite: "devw_safe P devw \<Longrightarrow> P t \<Longrightarrow> safe P (filewrite devw f addr n t)"
  unfolding filewrite_def by (intro safe_rules pipewrite ilock writei iunlock) (simp_all add: P_file)

lemma fileioctl: "devi_safe P devi \<Longrightarrow> P t \<Longrightarrow> safe P (fileioctl devi f rq a t)"
  unfolding fileioctl_def Let_def by (intro safe_rules ilock iunlock) (simp_all add: devi_safeD)

lemma close_opt: "P t \<Longrightarrow> safe1 P (close_opt kend fo t)"
  unfolding close_opt_def by (intro safe_rules fileclose) simp_all

lemma pipe_end: "P s \<Longrightarrow> P (upd_file f (pipe_end p w) s)"
  by (intro P_file) (simp_all add: pipe_end_def)

lemma pipealloc: "P t \<Longrightarrow> safe P (pipealloc kend t)"
  unfolding pipealloc_def
  by (auto split: option.split intro!: safe_rules filealloc kalloc close_opt simp: pipe_end initlock set_pipe)

end

section \<open>The console\<close>

locale csafe = fsafe P for P :: "'a consstate_scheme \<Rightarrow> bool" +
  assumes P_crt: "P s \<Longrightarrow> P (s\<lparr>crt := a\<rparr>)"
    and P_crtreg: "P s \<Longrightarrow> P (s\<lparr>crtreg := b\<rparr>)"
    and P_input: "P s \<Longrightarrow> P (s\<lparr>input := c\<rparr>)"
    and P_uart_rx: "P s \<Longrightarrow> P (s\<lparr>uart_rx := d\<rparr>)"
    and P_kbd_rx: "P s \<Longrightarrow> P (s\<lparr>kbd_rx := e\<rparr>)"
    and P_kbd_shift: "P s \<Longrightarrow> P (s\<lparr>kbd_shift := g\<rparr>)"
begin

lemma crt_put: "P s \<Longrightarrow> P (crt_select r s)" "P s \<Longrightarrow> P (crt_put r v s)" "P s \<Longrightarrow> P (uartputc ch s)" "P s \<Longrightarrow> P (upd_input f s)"
  by (simp_all add: crt_select_def crt_put_def uartputc_def upd_input_def outb P_crtreg P_input)

lemma set_cell: "P t \<Longrightarrow> safe1 P (set_cell pos v t)"
  unfolding set_cell_def by (intro safe_rules) (simp_all add: P_crt)

lemma scroll: "P t \<Longrightarrow> safe P (scroll pos t)"
  unfolding scroll_def Let_def by (intro safe_rules P_crt) simp_all

lemma cgaputc: "P t \<Longrightarrow> safe1 P (cgaputc ch t)"
  unfolding cgaputc_def Let_def by (intro safe_rules set_cell scroll) (simp_all add: crt_put)

lemma consputc: "P t \<Longrightarrow> safe1 P (consputc ch t)"
  unfolding consputc_def by (intro safe_rules cgaputc) (simp_all add: crt_put)

lemma consputs: "P t \<Longrightarrow> safe1 P (consputs cs t)"
proof (induction cs arbitrary: t)
  case (Cons ch cs)
  then show ?case unfolding consputs.simps by (intro safe_rules consputc Cons.IH) simp_all
qed (simp add: safe1_def)

lemma cprintf_loop: "P t \<Longrightarrow> safe1 P (cprintf_loop fmt args t)"
proof (induction "length fmt" arbitrary: fmt args t rule: less_induct)
  case less
  have IH: "P u \<Longrightarrow> safe1 P (cprintf_loop f as u)" if "length f < length fmt" for f as u
    using less(1) that by blast
  show ?case
  proof (cases fmt)
    case (Cons ch f)
    show ?thesis
    proof (cases f)
      case Nil
      then show ?thesis using Cons less(2) IH [of f] by (auto intro!: safe_rules consputc)
    next
      case f: (Cons d g)
      have a: "P u \<Longrightarrow> safe1 P (cprintf_loop f as u)" "P u \<Longrightarrow> safe1 P (cprintf_loop g as u)" for as u
        using IH [of f] IH [of g] Cons f by simp_all
      have num: "P u \<Longrightarrow> safe1 P (printint x b sg u)" for x b sg u
        unfolding printint_def by (rule consputs)
      show ?thesis unfolding Cons
      proof (cases "ch = 37")
        case True
        have "safe1 P (case args of
            Num x # as \<Rightarrow> andThen (if d = 100 then printint x 10 True t else printint x 16 False t) (cprintf_loop g as)
          | _ \<Rightarrow> Inl (Wild ''args''))"
          by (auto split: list.split carg.split intro!: safe_rules num a less(2))
        moreover have "safe1 P (case args of
            Str p # as \<Rightarrow> (let x = (case p of None \<Rightarrow> null_str | Some x \<Rightarrow> x) in
              if 0 \<notin> set x then Inl (Wild ''str'') else andThen (consputs (cstr x) t) (cprintf_loop g as))
          | _ \<Rightarrow> Inl (Wild ''args''))"
          unfolding Let_def by (split list.split, split carg.split) (auto intro!: safe_rules consputs a less(2))
        moreover have "safe1 P (andThen (consputc 37 t) (\<lambda>s. cprintf_loop g args s))"
          "safe1 P (andThen (consputc 37 t) (\<lambda>s. andThen (consputc (unat d) s) (cprintf_loop g args)))"
          by (intro safe_rules consputc a less(2); assumption)+
        ultimately show "safe1 P (cprintf_loop (ch # f) args t)" using True f less(2) by (simp add: safe_Inr del: consputs.simps)
      next
        case False
        then show "safe1 P (cprintf_loop (ch # f) args t)" using less(2) by (auto intro!: safe_rules consputc a(1))
      qed
    qed
  qed (simp add: safe1_def)
qed

lemma cprintf: "P t \<Longrightarrow> safe1 P (cprintf fmt args t)"
  unfolding cprintf_def by (intro safe_rules acquire release cprintf_loop) simp_all

lemma print_pcs: "P t \<Longrightarrow> safe1 P (print_pcs xs t)"
proof (induction xs arbitrary: t)
  case (Cons x xs)
  then show ?case unfolding print_pcs.simps by (intro safe_rules cprintf Cons.IH) simp_all
qed (simp add: safe1_def)

lemma procdump_loop: "P t \<Longrightarrow> safe1 P (procdump_loop ps t)"
proof (induction ps arbitrary: t)
  case (Cons x xs)
  then show ?case unfolding procdump_loop.simps procdump_proc_def by (intro safe_rules cprintf print_pcs Cons.IH) simp_all
qed (simp add: safe1_def)

lemma kill_line: "P t \<Longrightarrow> safe1 P (kill_line k t)"
proof (induction k arbitrary: t)
  case (Suc k)
  then show ?case unfolding kill_line.simps by (intro safe_rules consputc Suc.IH) (simp_all add: crt_put)
qed (simp add: safe1_def)

lemma console_char: "P t \<Longrightarrow> safe1 P (console_char ch t)"
  unfolding console_char_def procdump_def
  by (intro safe_rules consputc kill_line procdump_loop wakeup) (simp_all add: crt_put)

lemma consoleintr:
  assumes "\<And>u. P u \<Longrightarrow> P (snd (getc u))"
  shows "P t \<Longrightarrow> safe1 P (consoleintr k getc t)"
proof -
  have loop: "P t \<Longrightarrow> safe1 P (consoleintr_loop k getc t)" for t
  proof (induction k arbitrary: t)
    case (Suc k)
    have "P (snd (getc t))" using assms Suc.prems .
    then show ?case unfolding consoleintr_loop.simps by (intro safe_rules console_char Suc.IH) simp_all
  qed (simp add: safe1_def)
  show "P t \<Longrightarrow> safe1 P (consoleintr k getc t)"
    unfolding consoleintr_def by (intro safe_rules acquire release loop) simp_all
qed

lemma uartintr: "P t \<Longrightarrow> safe1 P (uartintr t)"
  unfolding uartintr_def by (rule consoleintr) (auto simp: uartgetc_def P_uart_rx split: list.split)

lemma kbdintr: "P t \<Longrightarrow> safe1 P (kbdintr t)"
  unfolding kbdintr_def
  by (rule consoleintr) (auto simp: kbdgetc_def Let_def P_kbd_rx P_kbd_shift split: list.split prod.split)

lemma consoleread_cont: "P t \<Longrightarrow> safe P (consoleread_cont ip n target t)"
  unfolding consoleread_cont_def Let_def by (intro safe_rules release ilock P_sleep) (simp_all add: crt_put plain_chans)

lemma console_read: "P t \<Longrightarrow> safe P (console_read ip n t)"
  unfolding console_read_def consoleread_def
  by (intro safe_rules iunlock acquire consoleread_cont) (auto split: cout.split intro: safe_rules)

lemma console_write: "P t \<Longrightarrow> safe P (console_write ip buf n t)"
  unfolding console_write_def consolewrite_def by (intro safe_rules iunlock acquire consputs release ilock) simp_all

end

end
