(* ===== verification/KernelOk.thy ===== *)
theory KernelOk
  imports Frame
begin

unbundle bit_operations_syntax

text \<open>
  The invariant of the kernel's tables. Every index that stands for a pointer is in range: open files, current directories and
  parents of processes, the inodes of open files, the current processes. And no wakeup is lost between \<open>exit\<close> and \<open>wait\<close>: a
  process that sleeps in \<open>wait\<close> has no child that is a zombie. All system calls and all interrupts preserve it.
\<close>

section \<open>The invariant\<close>

definition proc_ok :: "proc \<Rightarrow> bool" where
  "proc_ok x \<longleftrightarrow> length (p_ofile x) = NOFILE \<and> (\<forall>f. Some f \<in> set (p_ofile x) \<longrightarrow> f < NFILE) \<and>
     (\<forall>i. p_cwd x = Some i \<longrightarrow> i < NINODE) \<and> (\<forall>q. p_parent x = Some q \<longrightarrow> q < NPROC)"

text \<open>The process in slot \<open>i\<close> sleeps in \<open>wait\<close>.\<close>

definition waits :: "nat \<Rightarrow> proc \<Rightarrow> bool" where
  "waits i x \<longleftrightarrow> p_state x = SLEEPING \<and> p_chan x = Some (Chan ''proc'' i)"

definition alive :: "proc \<Rightarrow> bool" where
  "alive x \<longleftrightarrow> p_state x \<noteq> UNUSED \<and> p_state x \<noteq> ZOMBIE"

text \<open>Nobody is its own parent, the first process has no parent and never ends, and a zombie has no waiting parent.\<close>

definition family_ok :: "nat option \<Rightarrow> proc list \<Rightarrow> bool" where
  "family_ok ini ps \<longleftrightarrow> (\<forall>i<length ps. p_parent (ps ! i) \<noteq> Some i) \<and>
     (\<forall>p<length ps. ini = Some p \<longrightarrow> p_parent (ps ! p) = None \<and> alive (ps ! p)) \<and>
     (\<forall>i<length ps. \<forall>j<length ps. p_state (ps ! j) = ZOMBIE \<and> p_parent (ps ! j) = Some i \<longrightarrow> \<not> waits i (ps ! i))"

definition kernel_ok :: "'a filestate_scheme \<Rightarrow> bool" where
  "kernel_ok s \<longleftrightarrow> length (procs s) = NPROC \<and> list_all proc_ok (procs s) \<and> family_ok (initproc s) (procs s) \<and>
     (\<forall>c p. curproc s c = Some p \<longrightarrow> p < NPROC) \<and> (\<forall>p. initproc s = Some p \<longrightarrow> p < NPROC) \<and>
     length (ftable s) = NFILE \<and> list_all (\<lambda>x. \<forall>i. f_ip x = Some i \<longrightarrow> i < NINODE) (ftable s) \<and>
     length (inodes s) = NINODE \<and> length (bufs s) = Suc NBUF"

section \<open>Updates of a process\<close>

lemma family_upd:
  assumes f: "family_ok ini ps" and "p_parent y \<noteq> Some j"
    and "ini = Some j \<Longrightarrow> p_parent y = None \<and> alive y"
    and z: "\<And>i. p_state y = ZOMBIE \<Longrightarrow> p_parent y = Some i \<Longrightarrow> i < length ps \<Longrightarrow> \<not> waits i (ps ! i)"
    and w: "\<And>i. waits j y \<Longrightarrow> i < length ps \<Longrightarrow> p_state (ps ! i) = ZOMBIE \<Longrightarrow> p_parent (ps ! i) \<noteq> Some j"
  shows "family_ok ini (ps[j := y])"
proof (cases "j < length ps")
  case True
  show ?thesis unfolding family_ok_def
  proof (intro conjI allI impI)
    fix i k assume i: "i < length (ps[j := y])" and k: "k < length (ps[j := y])"
      and h: "p_state (ps[j := y] ! k) = ZOMBIE \<and> p_parent (ps[j := y] ! k) = Some i"
    show "\<not> waits i (ps[j := y] ! i)"
    proof (cases "k = j")
      case True
      then show ?thesis using h k i z [of i] assms(2) by (auto simp: nth_list_update)
    next
      case False
      then have "p_state (ps ! k) = ZOMBIE" "p_parent (ps ! k) = Some i" using h by (simp_all add: nth_list_update)
      then show ?thesis using f i k w [of k] by (cases "i = j") (auto simp: family_ok_def)
    qed
  qed (use assms True in \<open>auto simp: family_ok_def nth_list_update\<close>)
qed (use f in \<open>simp add: list_update_beyond\<close>)

lemma kernel_ok_upd:
  assumes "kernel_ok s" and "proc_ok (procs s ! j) \<Longrightarrow> proc_ok (f (procs s ! j))" and "p_parent (f (procs s ! j)) \<noteq> Some j"
    and "initproc s = Some j \<Longrightarrow> p_parent (f (procs s ! j)) = None \<and> alive (f (procs s ! j))"
    and "\<And>i. p_state (f (procs s ! j)) = ZOMBIE \<Longrightarrow> p_parent (f (procs s ! j)) = Some i \<Longrightarrow> i < NPROC \<Longrightarrow> \<not> waits i (procs s ! i)"
    and "\<And>i. waits j (f (procs s ! j)) \<Longrightarrow> i < NPROC \<Longrightarrow> p_state (procs s ! i) = ZOMBIE \<Longrightarrow> p_parent (procs s ! i) \<noteq> Some j"
  shows "kernel_ok (upd_proc j f s)"
proof (cases "j < NPROC")
  case True
  have "family_ok (initproc s) ((procs s)[j := f (procs s ! j)])"
    using assms by (intro family_upd) (simp_all add: kernel_ok_def)
  moreover have "list_all proc_ok ((procs s)[j := f (procs s ! j)])"
    using assms(1,2) True by (auto simp: kernel_ok_def list_all_length nth_list_update)
  ultimately show ?thesis using assms(1) by (simp add: kernel_ok_def upd_proc_def)
next
  case False
  then have "upd_proc j f s = s" using assms(1) by (simp add: kernel_ok_def upd_proc_def list_update_beyond)
  then show ?thesis using assms(1) by simp
qed

lemma kernel_okD:
  assumes "kernel_ok s"
  shows "length (procs s) = NPROC" "length (ftable s) = NFILE" "length (inodes s) = NINODE"
    "j < NPROC \<Longrightarrow> proc_ok (procs s ! j)" "j < NPROC \<Longrightarrow> p_parent (procs s ! j) \<noteq> Some j"
    "initproc s = Some j \<Longrightarrow> p_parent (procs s ! j) = None \<and> alive (procs s ! j)"
    "initproc s = Some j \<Longrightarrow> j < NPROC" "myproc s = Some j \<Longrightarrow> j < NPROC"
    "k < NPROC \<Longrightarrow> p_state (procs s ! k) = ZOMBIE \<Longrightarrow> p_parent (procs s ! k) = Some j \<Longrightarrow> j < NPROC \<Longrightarrow> \<not> waits j (procs s ! j)"
  using assms by (auto simp: kernel_ok_def family_ok_def list_all_length myproc_def)

text \<open>The three kinds of updates the code makes: of other fields, to a state in which the process is alive, and of its files.\<close>

lemma kernel_ok_alive:
  assumes "kernel_ok s" and "\<And>x. p_ofile (f x) = p_ofile x \<and> p_cwd (f x) = p_cwd x \<and> p_parent (f x) = p_parent x"
    and "\<And>x. alive (f x)" and "\<And>x. \<not> waits j (f x)"
  shows "kernel_ok (upd_proc j f s)"
proof (cases "j < NPROC")
  case True
  show ?thesis
    using kernel_okD(4,5) [OF assms(1) True] kernel_okD(6) [OF assms(1)] assms(2) [of "procs s ! j"] assms(3) [of "procs s ! j"] assms(4)
    by (intro kernel_ok_upd [OF assms(1)]) (simp_all add: proc_ok_def alive_def)
next
  case False
  then show ?thesis using assms(1) by (simp add: kernel_ok_def upd_proc_def list_update_beyond)
qed

lemma kernel_ok_quiet:
  assumes "kernel_ok s" and "\<And>x. p_ofile (f x) = p_ofile x \<and> p_cwd (f x) = p_cwd x \<and> p_parent (f x) = p_parent x"
    and "\<And>x. p_state (f x) = p_state x \<and> (p_chan (f x) = p_chan x \<or> p_chan (f x) = None)"
  shows "kernel_ok (upd_proc j f s)"
proof (cases "j < NPROC")
  case True
  have w: "waits j (f (procs s ! j)) \<Longrightarrow> waits j (procs s ! j)" using assms(3) [of "procs s ! j"] by (auto simp: waits_def)
  have z: "p_parent (procs s ! i) \<noteq> Some j" if "waits j (procs s ! j)" "i < NPROC" "p_state (procs s ! i) = ZOMBIE" for i
    using kernel_okD(9) [OF assms(1) that(2,3) _ True] that(1) by blast
  show ?thesis
  proof (rule kernel_ok_upd [OF assms(1)])
    fix i assume "p_state (f (procs s ! j)) = ZOMBIE" "p_parent (f (procs s ! j)) = Some i" "i < NPROC"
    then show "\<not> waits i (procs s ! i)" using kernel_okD(9) [OF assms(1) True, of i] assms(2,3) [of "procs s ! j"] by simp
  qed (use kernel_okD(4,5) [OF assms(1) True] kernel_okD(6) [OF assms(1)] assms(2,3) [of "procs s ! j"] w z in \<open>simp_all add: proc_ok_def alive_def\<close>)
next
  case False
  then show ?thesis using assms(1) by (simp add: kernel_ok_def upd_proc_def list_update_beyond)
qed

lemma kernel_ok_files:
  assumes "kernel_ok s" and "j < NPROC \<Longrightarrow> proc_ok (procs s ! j) \<Longrightarrow> proc_ok (f (procs s ! j))"
    and "\<And>x. p_parent (f x) = p_parent x \<and> p_state (f x) = p_state x \<and> p_chan (f x) = p_chan x"
  shows "kernel_ok (upd_proc j f s)"
proof (cases "j < NPROC")
  case True
  have w: "waits j (f (procs s ! j)) = waits j (procs s ! j)" using assms(3) [of "procs s ! j"] by (simp add: waits_def)
  have z: "p_parent (procs s ! i) \<noteq> Some j" if "waits j (procs s ! j)" "i < NPROC" "p_state (procs s ! i) = ZOMBIE" for i
    using kernel_okD(9) [OF assms(1) that(2,3) _ True] that(1) by blast
  show ?thesis
  proof (rule kernel_ok_upd [OF assms(1)])
    fix i assume "p_state (f (procs s ! j)) = ZOMBIE" "p_parent (f (procs s ! j)) = Some i" "i < NPROC"
    then show "\<not> waits i (procs s ! i)" using kernel_okD(9) [OF assms(1) True, of i] assms(3) [of "procs s ! j"] by simp
  qed (use kernel_okD(5) [OF assms(1) True] kernel_okD(6) [OF assms(1)] assms(2) assms(3) [of "procs s ! j"] w z True in \<open>simp_all add: alive_def\<close>)
next
  case False
  then show ?thesis using assms(1) by (simp add: kernel_ok_def upd_proc_def list_update_beyond)
qed

section \<open>Sleep and wakeup\<close>

lemma kernel_ok_wakeup1:
  assumes "kernel_ok s"
  shows "kernel_ok (wakeup1 ch s)"
proof -
  have w: "p_parent (wake ch x) = p_parent x" "p_ofile (wake ch x) = p_ofile x" "p_cwd (wake ch x) = p_cwd x" "alive (wake ch x) = alive x"
    "p_state (wake ch x) = ZOMBIE \<longleftrightarrow> p_state x = ZOMBIE" "waits i (wake ch x) \<Longrightarrow> waits i x" for x i
    by (auto simp: wake_def alive_def waits_def split: if_splits)
  have "family_ok (initproc s) (map (wake ch) (procs s))"
    using assms unfolding kernel_ok_def family_ok_def by (auto simp: w(1-5) dest: w(6))
  moreover have "list_all proc_ok (map (wake ch) (procs s))"
    using assms by (auto simp: kernel_ok_def list_all_iff proc_ok_def w)
  ultimately show ?thesis using assms by (simp add: kernel_ok_def wakeup1_def)
qed

lemma kernel_ok_fields:
  assumes "kernel_ok s"
  shows "kernel_ok (s\<lparr>cpus := a\<rparr>)" "kernel_ok (s\<lparr>locks := b\<rparr>)" "kernel_ok (s\<lparr>pmem := c\<rparr>)" "kernel_ok (s\<lparr>freelist := d\<rparr>)"
    "kernel_ok (s\<lparr>disk := dd\<rparr>)" "kernel_ok (s\<lparr>pio := e\<rparr>)" "kernel_ok (s\<lparr>idequeue := g\<rparr>)" "kernel_ok (s\<lparr>pipes := h\<rparr>)"
    "kernel_ok (upd_buf i f s)" "kernel_ok (s\<lparr>bufs := relink i (bufs s)\<rparr>)" "kernel_ok (upd_inode i k s)"
  using assms by (simp_all add: kernel_ok_def upd_buf_def upd_inode_def relink_def Let_def)

lemma kernel_ok_file:
  assumes "kernel_ok s" and "\<And>i. f_ip (g (ftable s ! f)) = Some i \<Longrightarrow> f_ip (ftable s ! f) = Some i \<or> i < NINODE"
  shows "kernel_ok (upd_file f g s)"
proof (cases "f < NFILE")
  case True
  have "\<forall>i. f_ip (ftable s ! f) = Some i \<longrightarrow> i < NINODE" using assms(1) True by (simp add: kernel_ok_def list_all_length)
  then have "list_all (\<lambda>x. \<forall>i. f_ip x = Some i \<longrightarrow> i < NINODE) ((ftable s)[f := g (ftable s ! f)])"
    using assms True by (auto simp: kernel_ok_def list_all_length nth_list_update split: if_splits)
  then show ?thesis using assms(1) by (simp add: kernel_ok_def upd_file_def)
next
  case False
  then show ?thesis using assms(1) by (simp add: kernel_ok_def upd_file_def list_update_beyond)
qed

interpretation kl: lsafe kernel_ok
  by unfold_locales (simp_all add: kernel_ok_fields)

text \<open>Memory allocation and locking do not touch the process table at all.\<close>

definition fixed :: "proc list \<Rightarrow> nat option \<Rightarrow> nat option \<Rightarrow> 'a filestate_scheme \<Rightarrow> bool" where
  "fixed ps m ini t \<longleftrightarrow> kernel_ok t \<and> procs t = ps \<and> myproc t = m \<and> initproc t = ini"

interpretation kx: ksafe "fixed ps m ini" for ps m ini
  by unfold_locales (simp_all add: fixed_def kernel_ok_fields myproc_def)

lemma fixedI: "kernel_ok s \<Longrightarrow> fixed (procs s) (myproc s) (initproc s) s"
  by (simp add: fixed_def)

lemma safe_imp: "safe P r \<Longrightarrow> (\<And>s. P s \<Longrightarrow> Q s) \<Longrightarrow> safe Q r" "safe1 P q \<Longrightarrow> (\<And>s. P s \<Longrightarrow> Q s) \<Longrightarrow> safe1 Q q"
  by (auto simp: safe_def safe1_def)

text \<open>Binding with a stronger predicate than the one at the end.\<close>

lemma safe_via:
  "safe P r \<Longrightarrow> (\<And>x t. P t \<Longrightarrow> safe Q (f x t)) \<Longrightarrow> safe Q (andThen r (\<lambda>(x, t). f x t))"
  "safe P r \<Longrightarrow> (\<And>x t. P t \<Longrightarrow> safe1 Q (f' x t)) \<Longrightarrow> safe1 Q (andThen r (\<lambda>(x, t). f' x t))"
  "safe1 P q \<Longrightarrow> (\<And>t. P t \<Longrightarrow> safe Q (g t)) \<Longrightarrow> safe Q (andThen q g)"
  "safe1 P q \<Longrightarrow> (\<And>t. P t \<Longrightarrow> safe1 Q (g' t)) \<Longrightarrow> safe1 Q (andThen q g')"
  by (cases r; force simp: safe_def safe1_def)+ (cases q; force simp: safe_def safe1_def)+

lemma kernel_ok_sched: "kernel_ok s \<Longrightarrow> safe kernel_ok (sched s)"
  unfolding sched_def by (intro safe_rules) simp_all

text \<open>Going to sleep on a channel on which no process waits for its children, or with no zombie child.\<close>

lemma kernel_ok_sleep:
  assumes "kernel_ok s"
    and "\<And>i j. ch = Chan ''proc'' i \<Longrightarrow> myproc s = Some i \<Longrightarrow> j < NPROC \<Longrightarrow> p_state (procs s ! j) = ZOMBIE \<Longrightarrow> p_parent (procs s ! j) \<noteq> Some i"
  shows "safe kernel_ok (sleep_switch ch l s)"
proof -
  have body: "kernel_ok (upd_proc i (\<lambda>p. p\<lparr>p_state := SLEEPING\<rparr>) (upd_proc i (\<lambda>p. p\<lparr>p_chan := Some ch\<rparr>) t))"
    if t: "kernel_ok t" "procs t = procs s" and i: "myproc s = Some i" for i t
  proof -
    have lt: "i < NPROC" using kernel_okD(8) [OF assms(1) i] .
    have e: "upd_proc i (\<lambda>p. p\<lparr>p_state := SLEEPING\<rparr>) (upd_proc i (\<lambda>p. p\<lparr>p_chan := Some ch\<rparr>) t) =
      upd_proc i (\<lambda>p. p\<lparr>p_chan := Some ch, p_state := SLEEPING\<rparr>) t"
      using lt kernel_okD(1) [OF t(1)] by (simp add: upd_proc_def)
    show ?thesis unfolding e
      using kernel_okD(4,5) [OF t(1) lt] kernel_okD(6) [OF t(1)] assms(2) i t(2)
      by (intro kernel_ok_upd [OF t(1)]) (auto simp: proc_ok_def alive_def waits_def)
  qed
  show ?thesis
  proof (cases "myproc s")
    case (Some i)
    show ?thesis
    proof (cases l)
      case l: (Some k)
      have "safe1 (fixed (procs s) (myproc s) (initproc s)) (if k \<noteq> L_ptable then andThen (acquire L_ptable s) (release k) else Inr s)"
        by (intro safe_rules kx.acquire kx.release fixedI assms(1)) (simp_all add: fixedI assms(1))
      then have "safe kernel_ok (andThen (if k \<noteq> L_ptable then andThen (acquire L_ptable s) (release k) else Inr s) (\<lambda>s.
          let s = upd_proc i (\<lambda>p. p\<lparr>p_chan := Some ch\<rparr>) s; s = upd_proc i (\<lambda>p. p\<lparr>p_state := SLEEPING\<rparr>) s in sched s))"
        unfolding Let_def by (rule safe_via(3)) (rule kernel_ok_sched, rule body, simp_all add: fixed_def Some)
      then show ?thesis by (simp add: sleep_switch_def Some l)
    qed (simp add: sleep_switch_def Some safe_Inl)
  qed (simp add: sleep_switch_def safe_Inl)
qed

lemma kernel_ok_unsleep:
  assumes "kernel_ok s"
  shows "safe1 kernel_ok (sleep_resume l saved s)"
proof -
  have s: "kernel_ok (sched_resume saved s)" using assms by (simp add: sched_resume_def set_cpu_def kernel_ok_fields)
  show ?thesis unfolding sleep_resume_def Let_def
    by (intro safe_rules kl.acquire kl.release kernel_ok_quiet s) simp_all
qed

interpretation kf: csafe kernel_ok
proof unfold_locales
  fix s :: "'a consstate_scheme" and ch l
  assume "kernel_ok s" "plain_chan ch"
  then show "safe kernel_ok (sleep_switch ch l s)" by (intro kernel_ok_sleep) (simp_all add: plain_chan_def)
next
  fix s :: "'a consstate_scheme" and g :: "ofile \<Rightarrow> ofile" and f
  assume "kernel_ok s" "\<And>x. f_ip (g x) = f_ip x"
  then show "kernel_ok (upd_file f g s)" by (intro kernel_ok_file) simp_all
qed (simp_all add: kernel_ok_fields kernel_ok_wakeup1 kernel_ok_unsleep, simp_all add: kernel_ok_def)

section \<open>Indices of inodes\<close>

lemma safe_gives: "safe P r \<Longrightarrow> gives Q r \<Longrightarrow> r = Inr (x, s) \<Longrightarrow> P s \<and> Q x"
  by (simp add: safe_def gives_def)

lemma gives_rules:
  "gives Q (Inl e)" "Q x \<Longrightarrow> gives Q (Inr (x, t))"
  "(b \<Longrightarrow> gives Q r) \<Longrightarrow> (\<not> b \<Longrightarrow> gives Q r') \<Longrightarrow> gives Q (if b then r else r')"
  "gives Q (f y) \<Longrightarrow> gives Q (Let y f)"
  by (simp_all add: gives_def)

lemma gives_bind:
  "safe P r \<Longrightarrow> (\<And>x t. P t \<Longrightarrow> gives Q (f x t)) \<Longrightarrow> gives Q (andThen r (\<lambda>(x, t). f x t))"
  "safe1 P q \<Longrightarrow> (\<And>t. P t \<Longrightarrow> gives Q (g t)) \<Longrightarrow> gives Q (andThen q g)"
  "safe P r \<Longrightarrow> gives R r \<Longrightarrow> (\<And>x t. P t \<Longrightarrow> R x \<Longrightarrow> gives Q (f x t)) \<Longrightarrow> gives Q (andThen r (\<lambda>(x, t). f x t))"
proof -
  show "safe1 P q \<Longrightarrow> (\<And>t. P t \<Longrightarrow> gives Q (g t)) \<Longrightarrow> gives Q (andThen q g)"
    by (cases q) (auto simp: safe1_def gives_def)
qed (cases r; force simp: safe_def gives_def)+

lemma gives_value: "(\<And>x. gives Q (f x)) \<Longrightarrow> gives Q (andThen r f)"
  by (cases r) (auto simp: gives_def)

lemma iget_scan_bound:
  assumes "iget_scan dev inum i free xs = (a, b)" and "\<And>k. free = Some k \<Longrightarrow> k < i + length xs"
  shows "(\<forall>k. a = Some k \<longrightarrow> k < i + length xs) \<and> (\<forall>k. b = Some k \<longrightarrow> k < i + length xs)"
  using assms
proof (induction xs arbitrary: i free)
  case (Cons x xs)
  show ?case
  proof (cases "i_ref x > 0 \<and> i_dev x = dev \<and> i_inum x = inum")
    case False
    have "(\<forall>k. a = Some k \<longrightarrow> k < Suc i + length xs) \<and> (\<forall>k. b = Some k \<longrightarrow> k < Suc i + length xs)"
      by (rule Cons.IH [of "Suc i" "if free = None \<and> i_ref x = 0 then Some i else free"])
        (use Cons.prems False in \<open>auto split: if_splits\<close>)
    then show ?thesis by simp
  qed (use Cons.prems in auto)
qed auto

lemmas gives_ok = gives_bind [where P = kernel_ok]

definition in_icache :: "nat \<Rightarrow> bool" where
  "in_icache ip \<longleftrightarrow> ip < NINODE"

definition opt_in :: "nat option \<Rightarrow> bool" where
  "opt_in ipo \<longleftrightarrow> (\<forall>ip. ipo = Some ip \<longrightarrow> ip < NINODE)"

definition ent_in :: "(nat \<times> uint) option \<Rightarrow> bool" where
  "ent_in r \<longleftrightarrow> (\<forall>ip off. r = Some (ip, off) \<longrightarrow> ip < NINODE)"

lemma index_simps [simp]:
  "opt_in None" "opt_in (Some ip) \<longleftrightarrow> ip < NINODE" "ent_in None" "ent_in (Some (ip, off)) \<longleftrightarrow> ip < NINODE"
  by (simp_all add: opt_in_def ent_in_def)

lemma iget_index: "kernel_ok (s :: 'a consstate_scheme) \<Longrightarrow> gives in_icache (iget dev inum s)"
  unfolding iget_def
proof (rule gives_bind(2) [OF kl.acquire])
  fix t :: "'a consstate_scheme"
  assume t: "kernel_ok t"
  obtain a b where ab: "iget_scan dev inum 0 None (inodes t) = (a, b)" by fastforce
  have "(\<forall>k. a = Some k \<longrightarrow> k < NINODE) \<and> (\<forall>k. b = Some k \<longrightarrow> k < NINODE)"
    using iget_scan_bound [OF ab] kernel_okD(3) [OF t] by simp
  then show "gives in_icache (case iget_scan dev inum 0 None (inodes t) of
       (Some ip, _) \<Rightarrow>
         let s = upd_inode ip (\<lambda>x. x\<lparr>i_ref := i_ref x + 1\<rparr>) t in
         andThen (release L_icache s) (\<lambda>s. Inr (ip, s))
     | (None, None) \<Rightarrow> Inl (Panic ''iget: no inodes'')
     | (None, Some ip) \<Rightarrow>
         let s = upd_inode ip (\<lambda>x. x\<lparr>i_dev := dev, i_inum := inum, i_ref := 1, i_busy := False, i_valid := False\<rparr>) t in
         andThen (release L_icache s) (\<lambda>s. Inr (ip, s)))"
    unfolding ab Let_def by (cases a; cases b) (auto simp: in_icache_def intro!: gives_rules gives_value)
qed

lemma idup_index: "ip < NINODE \<Longrightarrow> gives in_icache (idup ip s)"
  unfolding idup_def Let_def by (intro gives_value gives_rules) (simp add: in_icache_def)

lemma ialloc_index:
  assumes "kernel_ok (s :: 'a consstate_scheme)"
  shows "gives in_icache (ialloc dev ty s)"
proof -
  have loop: "gives in_icache (ialloc_loop k dev sb ty inum t)" if "kernel_ok (t :: 'a consstate_scheme)" for k sb inum t
    using that
  proof (induction k arbitrary: inum t)
    case (Suc k)
    show ?case unfolding ialloc_loop.simps Let_def
      by (intro gives_rules gives_ok(1,2) kf.bread kf.bwrite kf.brelse kf.put_data iget_index Suc)
  qed (simp add: gives_def)
  show ?thesis unfolding ialloc_def by (intro gives_ok(1) kf.readsb loop assms)
qed

lemma dirlookup_index:
  assumes "kernel_ok (s :: 'a consstate_scheme)"
  shows "gives ent_in (dirlookup dp name s)"
proof -
  have loop: "gives ent_in (dirlookup_loop k dp name off t)"
    if "kernel_ok (t :: 'a consstate_scheme)" for k off t
    using that
  proof (induction k arbitrary: off t)
    case (Suc k)
    have found: "gives ent_in
        (andThen (iget dev inum u) (\<lambda>(ip, s). Inr (Some (ip, off'), s)))" if "kernel_ok (u :: 'a consstate_scheme)" for dev inum off' u
      by (rule gives_bind(3) [OF kf.iget [OF that] iget_index [OF that]]) (simp add: gives_def in_icache_def)
    show ?case unfolding dirlookup_loop.simps Let_def
      by (intro gives_rules gives_ok(1) kf.bmap kf.bread gives_value [where r = "dir_scan a b c d" for a b c d] Suc.prems)
        (auto split: option.split intro!: gives_ok(2) kf.brelse found Suc.IH)
  qed (simp add: gives_def)
  show ?thesis unfolding dirlookup_def by (intro gives_rules loop assms)
qed

text \<open>What \<open>namex\<close> finds, from the root or from the current directory.\<close>

lemma namex_loop_index:
  "kernel_ok (s :: 'a consstate_scheme) \<Longrightarrow> ip < NINODE \<Longrightarrow> gives (\<lambda>r. opt_in (fst r)) (namex_loop k ip path np name s)"
proof (induction k arbitrary: ip path name s)
  case (Suc k)
  have next_elem: "gives (\<lambda>r. opt_in (fst r)) (andThen (dirlookup ip nm u) (\<lambda>(next, s). andThen (iunlockput ip s) (\<lambda>s.
      case next of None \<Rightarrow> Inr ((None, nm), s) | Some (ip, _) \<Rightarrow> namex_loop k ip pth np nm s)))"
    if u: "kernel_ok (u :: 'a consstate_scheme)" for u nm pth
  proof (rule gives_ok(3) [OF kf.dirlookup [OF u] dirlookup_index [OF u]])
    fix r and w :: "'a consstate_scheme"
    assume "kernel_ok w" "ent_in r"
    then show "gives (\<lambda>r. opt_in (fst r)) (andThen (iunlockput ip w) (\<lambda>s.
        case r of None \<Rightarrow> Inr ((None, nm), s) | Some (ip, _) \<Rightarrow> namex_loop k ip pth np nm s))"
      by (intro gives_ok(2) kf.iunlockput)
        (auto split: option.split intro!: gives_rules Suc.IH)
  qed
  show ?case unfolding namex_loop.simps
    by (intro gives_value [where r = "skipelem a b" for a b])
      (auto split: option.split intro!: gives_rules gives_ok(2) kf.iput kf.ilock kf.iunlock kf.iunlockput next_elem Suc.prems simp: Suc.prems)
qed (simp add: gives_def)

lemma namex_index:
  assumes "kernel_ok (s :: 'a consstate_scheme)"
  shows "gives (\<lambda>r. opt_in (fst r)) (namex path np name s)"
proof -
  define start where "start = (if hd path = 47 then iget ROOTDEV ROOTINO s
    else case myproc s of None \<Rightarrow> Inl (Wild ''proc'') | Some p \<Rightarrow>
      (case p_cwd (procs s ! p) of None \<Rightarrow> Inl (Wild ''cwd'') | Some ip \<Rightarrow> idup ip s))"
  have g: "gives in_icache start"
    using kernel_okD(4) [OF assms] kernel_okD(8) [OF assms] unfolding start_def
    by (auto simp: proc_ok_def split: option.split intro!: gives_rules iget_index assms idup_index)
  have s: "safe kernel_ok start"
    unfolding start_def by (intro safe_rules kf.iget kf.idup assms)
  show ?thesis unfolding namex_def start_def [symmetric]
    by (intro gives_rules gives_ok(3) [OF s g] namex_loop_index) (simp_all add: in_icache_def)
qed

lemma namei_index: "kernel_ok (s :: 'a consstate_scheme) \<Longrightarrow> gives opt_in (namei path s)"
  unfolding namei_def by (rule gives_ok(3) [OF kf.namex namex_index]) (auto intro: gives_rules)

lemma nameiparent_index: "kernel_ok (s :: 'a consstate_scheme) \<Longrightarrow> gives (\<lambda>r. opt_in (fst r)) (nameiparent path name s)"
  unfolding nameiparent_def by (rule namex_index)

section \<open>New processes\<close>

text \<open>A routine whose result and final state satisfy \<open>Q\<close>.\<close>

definition post :: "('x \<Rightarrow> 's \<Rightarrow> bool) \<Rightarrow> ('x \<times> 's) res \<Rightarrow> bool" where
  "post Q r \<longleftrightarrow> (\<forall>x s. r = Inr (x, s) \<longrightarrow> Q x s)"

lemma post_rules:
  "post Q (Inl e)" "Q x t \<Longrightarrow> post Q (Inr (x, t))"
  "(b \<Longrightarrow> post Q r) \<Longrightarrow> (\<not> b \<Longrightarrow> post Q r') \<Longrightarrow> post Q (if b then r else r')"
  by (simp_all add: post_def)

lemma post_bind:
  "safe P r \<Longrightarrow> (\<And>x t. P t \<Longrightarrow> post Q (f x t)) \<Longrightarrow> post Q (andThen r (\<lambda>(x, t). f x t))"
  "safe1 P q \<Longrightarrow> (\<And>t. P t \<Longrightarrow> post Q (g t)) \<Longrightarrow> post Q (andThen q g)"
proof -
  show "safe1 P q \<Longrightarrow> (\<And>t. P t \<Longrightarrow> post Q (g t)) \<Longrightarrow> post Q (andThen q g)"
    by (cases q) (auto simp: safe1_def post_def)
qed (cases r; force simp: safe_def post_def)

lemma safe_post: "post R r \<Longrightarrow> (\<And>x t. R x t \<Longrightarrow> safe P (f x t)) \<Longrightarrow> safe P (andThen r (\<lambda>(x, t). f x t))"
  by (cases r) (auto simp: safe_def post_def)

text \<open>The slot of a new process, of which only \<open>fork\<close> knows.\<close>

definition young :: "nat \<Rightarrow> nat \<Rightarrow> 'a ptab_scheme \<Rightarrow> bool" where
  "young np me t \<longleftrightarrow> myproc t = Some me \<and> np \<noteq> me \<and> np < length (procs t) \<and> initproc t \<noteq> Some np \<and> p_state (procs t ! np) = EMBRYO"

lemma young_upd: "young np me t \<Longrightarrow> (j = np \<Longrightarrow> p_state (f (procs t ! j)) = EMBRYO) \<Longrightarrow> young np me (upd_proc j f t)"
  by (cases "j < length (procs t)")
    (auto simp: young_def upd_proc_def myproc_def nth_list_update list_update_beyond)

interpretation yl: lsafe "young np me" for np me
  by unfold_locales (simp_all add: young_def myproc_def)

lemma young_sleep:
  assumes "young np me s"
  shows "safe (young np me) (sleep_switch ch l s)" "safe1 (young np me) (sleep_resume l' saved s)"
proof -
  have me: "young np me t \<Longrightarrow> young np me (upd_proc i f t)" if "myproc s = Some i" for t :: "'a ptab_scheme" and i f
    using assms that by (intro young_upd) (auto simp: young_def)
  have r: "young np me (sched_resume saved s)" "myproc (sched_resume saved s) = myproc s"
    using assms by (simp_all add: sched_resume_def set_cpu_def yl.P_cpus myproc_def)
  show "safe (young np me) (sleep_switch ch l s)" unfolding sleep_switch_def sched_def Let_def
    by (intro safe_rules yl.acquire yl.release me assms; assumption)
  show "safe1 (young np me) (sleep_resume l' saved s)" unfolding sleep_resume_def Let_def
    by (intro safe_rules yl.acquire yl.release me r(1)) (simp_all add: r(2))
qed

definition embryo :: "nat \<Rightarrow> nat \<Rightarrow> 'a filestate_scheme \<Rightarrow> bool" where
  "embryo np me t \<longleftrightarrow> kernel_ok t \<and> young np me t"

lemma young_fields:
  assumes "young np me s"
  shows "young np me (s\<lparr>pmem := c\<rparr>)" "young np me (s\<lparr>freelist := d\<rparr>)" "young np me (s\<lparr>disk := dd\<rparr>)" "young np me (s\<lparr>pio := e\<rparr>)"
    "young np me (s\<lparr>idequeue := g\<rparr>)" "young np me (s\<lparr>pipes := h\<rparr>)" "young np me (upd_buf i f s)" "young np me (s\<lparr>bufs := b\<rparr>)"
    "young np me (upd_inode i k s)" "young np me (upd_file i l s)" "young np me (wakeup1 ch s)"
  using assms by (simp_all add: young_def myproc_def upd_buf_def upd_inode_def upd_file_def wakeup1_def wake_def)

interpretation em: fsafe "embryo np me" for np me
proof unfold_locales
  fix s :: "'a filestate_scheme" and ch l
  assume "embryo np me s" "plain_chan ch"
  then have "safe kernel_ok (sleep_switch ch l s)" "safe (young np me) (sleep_switch ch l s)"
    by (auto intro!: kernel_ok_sleep young_sleep simp: plain_chan_def embryo_def)
  then show "safe (embryo np me) (sleep_switch ch l s)" by (auto simp: safe_def embryo_def)
next
  fix s :: "'a filestate_scheme" and l saved
  assume "embryo np me s"
  then have "safe1 kernel_ok (sleep_resume l saved s)" "safe1 (young np me) (sleep_resume l saved s)"
    by (auto intro!: kernel_ok_unsleep young_sleep simp: embryo_def)
  then show "safe1 (embryo np me) (sleep_resume l saved s)" by (auto simp: safe1_def embryo_def)
next
  fix s :: "'a filestate_scheme" and g :: "ofile \<Rightarrow> ofile" and f
  assume "embryo np me s" "\<And>x. f_ip (g x) = f_ip x"
  then show "embryo np me (upd_file f g s)" using kernel_ok_file [of s g f] by (simp add: embryo_def young_fields)
qed (simp_all add: embryo_def kernel_ok_fields kernel_ok_wakeup1 young_fields yl.P_cpus yl.P_locks)

lemma embryo_upd:
  assumes "embryo np me t" and "\<And>x. p_parent (f x) = p_parent x \<and> p_state (f x) = p_state x \<and> p_chan (f x) = p_chan x"
    and "j < NPROC \<Longrightarrow> proc_ok (procs t ! j) \<Longrightarrow> proc_ok (f (procs t ! j))"
  shows "embryo np me (upd_proc j f t)"
  using assms kernel_ok_files [of t j f] young_upd [of np me t j f] by (auto simp: embryo_def young_def)

lemma embryo_parent: "embryo np me t \<Longrightarrow> embryo np me (upd_proc np (\<lambda>x. x\<lparr>p_parent := Some me\<rparr>) t)"
proof -
  assume e: "embryo np me t"
  then have k: "kernel_ok t" and y: "young np me t" by (simp_all add: embryo_def)
  have me: "me < NPROC" using kernel_okD(8) [OF k] y by (simp add: young_def)
  have "kernel_ok (upd_proc np (\<lambda>x. x\<lparr>p_parent := Some me\<rparr>) t)"
    using k y me by (intro kernel_ok_upd) (auto simp: young_def proc_ok_def alive_def waits_def)
  then show ?thesis using young_upd [OF y, of np] y by (simp add: embryo_def young_def)
qed

lemma allocproc_ok:
  assumes s: "kernel_ok s" and me: "myproc s = Some me" "p_state (procs s ! me) \<noteq> UNUSED"
  shows "post (\<lambda>po t. kernel_ok t \<and> (\<forall>np. po = Some np \<longrightarrow> embryo np me t)) (allocproc trapret forkret_addr s)"
  unfolding allocproc_def
proof (rule post_bind(2) [OF kx.acquire [OF fixedI [OF s]]])
  fix t :: "'a filestate_scheme"
  assume f: "fixed (procs s) (myproc s) (initproc s) t"
  then have t: "kernel_ok t" "procs t = procs s" "myproc t = Some me" "initproc t = initproc s" by (simp_all add: fixed_def me)
  let ?Q = "\<lambda>po t. kernel_ok t \<and> (\<forall>np. po = Some np \<longrightarrow> embryo np me t)"
  show "post ?Q (case scan_procs (\<lambda>p. p_state p = UNUSED) 0 (procs t) of
       None \<Rightarrow> andThen (release L_ptable t) (\<lambda>s. Inr (None, s))
     | Some i \<Rightarrow>
         if nextpid t = int_max then Inl (Wild ''nextpid overflow'')
         else
           let s = upd_proc i (\<lambda>p. p\<lparr>p_state := EMBRYO\<rparr>) t;
               s = upd_proc i (\<lambda>p. p\<lparr>p_pid := nextpid s\<rparr>) s;
               s = s\<lparr>nextpid := nextpid s + 1\<rparr>
           in andThen (release L_ptable s) (\<lambda>s.
              andThen (kalloc s) (\<lambda>(k, s).
              let s = upd_proc i (\<lambda>p. p\<lparr>p_kstack := k\<rparr>) s in
              if k = 0 then Inr (None, upd_proc i (\<lambda>p. p\<lparr>p_state := UNUSED\<rparr>) s)
              else Inr (Some i, setup_kstack trapret forkret_addr i k s))))"
  proof (cases "scan_procs (\<lambda>p. p_state p = UNUSED) 0 (procs t)")
    case None
    then show ?thesis by (auto intro!: post_bind(2) [OF kl.release [OF t(1)]] post_rules)
  next
    case (Some i)
    have i: "i < NPROC" "p_state (procs t ! i) = UNUSED" using scan_procs_Some [OF Some] kernel_okD(1) [OF t(1)] by simp_all
    have ne: "i \<noteq> me" "initproc t \<noteq> Some i" using i me t kernel_okD(6) [OF t(1), of i] by (auto simp: alive_def)
    define u where "u = (upd_proc i (\<lambda>p. p\<lparr>p_pid := nextpid t\<rparr>) (upd_proc i (\<lambda>p. p\<lparr>p_state := EMBRYO\<rparr>) t))\<lparr>nextpid := nextpid t + 1\<rparr>"
    have "kernel_ok (upd_proc i (\<lambda>p. p\<lparr>p_state := EMBRYO\<rparr>) t)" by (intro kernel_ok_alive t(1)) (simp_all add: alive_def waits_def)
    then have "kernel_ok (upd_proc i (\<lambda>p. p\<lparr>p_pid := nextpid t\<rparr>) (upd_proc i (\<lambda>p. p\<lparr>p_state := EMBRYO\<rparr>) t))"
      by (rule kernel_ok_quiet) simp_all
    then have u: "embryo i me u"
      using i ne t(3) kernel_okD(1) [OF t(1)] by (simp add: u_def embryo_def young_def kernel_ok_def myproc_def upd_proc_def)
    have last: "?Q None (upd_proc i (\<lambda>p. p\<lparr>p_state := UNUSED\<rparr>) w)" "?Q (Some i) (setup_kstack trapret forkret_addr i k w)"
      if w: "embryo i me w" for w :: "'a filestate_scheme" and k
    proof -
      show "?Q None (upd_proc i (\<lambda>p. p\<lparr>p_state := UNUSED\<rparr>) w)"
        using w kernel_okD(4,5) [of w i] i(1) by (auto intro!: kernel_ok_upd simp: embryo_def young_def proc_ok_def waits_def)
      have "embryo i me (setup_kstack trapret forkret_addr i k w)"
        unfolding setup_kstack_def Let_def by (intro em.P_pmem embryo_upd w) (simp_all add: proc_ok_def)
      then show "?Q (Some i) (setup_kstack trapret forkret_addr i k w)" by (simp add: embryo_def)
    qed
    have "post ?Q (andThen (release L_ptable u) (\<lambda>s. andThen (kalloc s) (\<lambda>(k, s).
        let s = upd_proc i (\<lambda>p. p\<lparr>p_kstack := k\<rparr>) s in
        if k = 0 then Inr (None, upd_proc i (\<lambda>p. p\<lparr>p_state := UNUSED\<rparr>) s)
        else Inr (Some i, setup_kstack trapret forkret_addr i k s))))"
      unfolding Let_def
      by (intro post_bind(1,2) [where P = "embryo i me"] em.release em.kalloc u post_rules last embryo_upd) (simp_all add: proc_ok_def)
    then show ?thesis using Some by (simp add: post_rules u_def upd_proc_def)
  qed
qed

lemma proc_ok_ofile: "proc_ok x \<Longrightarrow> (\<And>f. fo = Some f \<Longrightarrow> f < NFILE) \<Longrightarrow> proc_ok (x\<lparr>p_ofile := (p_ofile x)[fd := fo]\<rparr>)"
  using set_update_subset_insert [of "p_ofile x" fd fo] by (auto simp: proc_ok_def)

lemma filedup_index: "f < NFILE \<Longrightarrow> gives (\<lambda>g. g < NFILE) (filedup f s)"
  unfolding filedup_def Let_def by (intro gives_value gives_rules)

lemma fork_files_ok: "embryo np me t \<Longrightarrow> i + k \<le> NOFILE \<Longrightarrow> safe1 (embryo np me) (fork_files k me np i t)"
proof (induction k arbitrary: i t)
  case (Suc k)
  have "safe1 (embryo np me) (case p_ofile (procs t ! me) ! i of None \<Rightarrow> Inr t
      | Some f \<Rightarrow> andThen (filedup f t) (\<lambda>(g, s). Inr (upd_proc np (\<lambda>x. x\<lparr>p_ofile := (p_ofile x)[i := Some g]\<rparr>) s)))"
  proof (cases "p_ofile (procs t ! me) ! i")
    case (Some f)
    have "me < NPROC" "proc_ok (procs t ! me)" using Suc.prems(1) kernel_okD(4,8) [of t] by (auto simp: embryo_def young_def)
    then have "f < NFILE" using Some Suc.prems(2) nth_mem [of i "p_ofile (procs t ! me)"] by (auto simp: proc_ok_def)
    then have "safe1 (embryo np me) (andThen (filedup f t) (\<lambda>(g, s). Inr (upd_proc np (\<lambda>x. x\<lparr>p_ofile := (p_ofile x)[i := Some g]\<rparr>) s)))"
      by (intro safe_bind_gives(2) [OF em.filedup [OF Suc.prems(1)] filedup_index] safe_rules embryo_upd proc_ok_ofile) simp_all
    then show ?thesis using Some by simp
  qed (simp add: safe_Inr Suc.prems)
  then show ?case unfolding fork_files.simps by (rule safe_bind(4)) (use Suc in simp)
qed (simp add: safe_Inr)

lemma embryo_ends:
  assumes "embryo np me t"
  shows "kernel_ok (upd_proc np (\<lambda>x. x\<lparr>p_state := UNUSED\<rparr>) t)" "kernel_ok (upd_proc np (\<lambda>x. x\<lparr>p_state := RUNNABLE\<rparr>) t)"
proof -
  have t: "kernel_ok t" "young np me t" using assms by (simp_all add: embryo_def)
  have np: "np < NPROC" using t kernel_okD(1) [OF t(1)] by (simp add: young_def)
  show "kernel_ok (upd_proc np (\<lambda>x. x\<lparr>p_state := UNUSED\<rparr>) t)"
    using kernel_okD(4,5) [OF t(1) np] t by (intro kernel_ok_upd) (auto simp: young_def proc_ok_def waits_def)
  show "kernel_ok (upd_proc np (\<lambda>x. x\<lparr>p_state := RUNNABLE\<rparr>) t)"
    by (intro kernel_ok_alive t(1)) (simp_all add: alive_def waits_def)
qed

lemma embryo_tf: "embryo np me t \<Longrightarrow> embryo np me (tf_put i a v t)"
  unfolding tf_put_def by (rule em.P_pmem)

lemma embryo_cwd:
  assumes "embryo np me t" and "p_cwd (procs t ! me) = Some ip"
  shows "safe kernel_ok (andThen (idup ip t) (\<lambda>(ip, s).
    let s = upd_proc np (\<lambda>x. x\<lparr>p_cwd := Some ip\<rparr>) s;
        pid = p_pid (procs s ! np);
        s = upd_proc np (\<lambda>x. x\<lparr>p_state := RUNNABLE\<rparr>) s
    in andThen (safestrcpy (p_name (procs s ! np)) (p_name (procs s ! me)) 16) (\<lambda>nm.
       Inr (pid, upd_proc np (\<lambda>x. x\<lparr>p_name := nm\<rparr>) s))))"
proof -
  have "ip < NINODE" using assms kernel_okD(4,8) [of t] by (auto simp: embryo_def young_def proc_ok_def)
  then have g: "gives in_icache (idup ip t)" by (rule idup_index)
  have "post (\<lambda>i. embryo np me) (idup ip t) \<and> post (\<lambda>i s. in_icache i) (idup ip t)"
    using em.idup [OF assms(1)] g by (auto simp: post_def safe_def gives_def)
  then have p: "post (\<lambda>i s. embryo np me s \<and> in_icache i) (idup ip t)" by (simp add: post_def)
  have u: "embryo np me (upd_proc np (\<lambda>x. x\<lparr>p_cwd := Some i\<rparr>) s)" if "embryo np me s \<and> in_icache i" for s :: "'a filestate_scheme" and i
    using that by (intro embryo_upd) (auto simp: proc_ok_def in_icache_def)
  show ?thesis unfolding Let_def
    by (rule safe_post [OF p], rule safe_value, rule safe_Inr, rule kernel_ok_quiet)
      (auto intro!: embryo_ends u)
qed

lemma fork_ok:
  assumes s: "kernel_ok s" and me: "\<And>me. myproc s = Some me \<Longrightarrow> p_state (procs s ! me) \<noteq> UNUSED"
  shows "safe kernel_ok (fork im s)"
proof (cases "myproc s")
  case (Some me)
  show ?thesis unfolding fork_def Some option.case
  proof (rule safe_post [OF allocproc_ok [OF s Some me [OF Some]]], goal_cases)
    case (1 po t)
    show ?case
    proof (cases po)
      case None
      then show ?thesis using 1 by (simp add: safe_Inr)
    next
      case (Some np)
      then have e: "embryo np me t" using 1 by simp
      note via = safe_via [where P = "embryo np me" and Q = kernel_ok]
      show ?thesis unfolding Some option.case Let_def
        by (intro via em.copyuvm em.kfree fork_files_ok e safe_if safe_Inr embryo_ends embryo_upd
            em.P_pmem embryo_parent embryo_tf safe_option safe_Inl embryo_cwd [unfolded Let_def]) (simp_all add: proc_ok_def)
    qed
  qed
qed (simp add: fork_def safe_Inl)

section \<open>Exit\<close>

definition leaving :: "nat \<Rightarrow> 'a filestate_scheme \<Rightarrow> bool" where
  "leaving me t \<longleftrightarrow> kernel_ok t \<and> myproc t = Some me \<and> initproc t \<noteq> Some me"

text \<open>Who runs and who is the first process does not change in any system call.\<close>

definition stays :: "nat option \<Rightarrow> nat option \<Rightarrow> 'a ptab_scheme \<Rightarrow> bool" where
  "stays m ini t \<longleftrightarrow> myproc t = m \<and> initproc t = ini"

interpretation st: lsafe "stays m ini" for m ini
  by unfold_locales (simp_all add: stays_def myproc_def)

lemma stays_fields:
  assumes "stays m ini s"
  shows "stays m ini (s\<lparr>pmem := c\<rparr>)" "stays m ini (s\<lparr>freelist := d\<rparr>)" "stays m ini (s\<lparr>disk := dd\<rparr>)" "stays m ini (s\<lparr>pio := e\<rparr>)"
    "stays m ini (s\<lparr>idequeue := g\<rparr>)" "stays m ini (s\<lparr>pipes := h\<rparr>)" "stays m ini (upd_buf i f s)" "stays m ini (s\<lparr>bufs := b\<rparr>)"
    "stays m ini (upd_inode i k s)" "stays m ini (upd_file i l s)" "stays m ini (wakeup1 ch s)"
  using assms by (simp_all add: stays_def myproc_def upd_buf_def upd_inode_def upd_file_def wakeup1_def)

lemma stays_upd: "stays m ini s \<Longrightarrow> stays m ini (upd_proc i f s)"
  by (simp add: stays_def myproc_def upd_proc_def)

lemma stays_sleep:
  assumes "stays m ini s"
  shows "safe (stays m ini) (sleep_switch ch l s)" "safe1 (stays m ini) (sleep_resume l' saved s)"
proof -
  have r: "stays m ini (sched_resume saved s)"
    using assms by (simp add: sched_resume_def set_cpu_def st.P_cpus)
  show "safe (stays m ini) (sleep_switch ch l s)" unfolding sleep_switch_def sched_def Let_def
    by (intro safe_rules st.acquire st.release stays_upd assms; assumption)
  show "safe1 (stays m ini) (sleep_resume l' saved s)" unfolding sleep_resume_def Let_def
    by (intro safe_rules st.acquire st.release stays_upd r)
qed

lemma leaving_iff: "leaving me t \<longleftrightarrow> kernel_ok t \<and> initproc t \<noteq> Some me \<and> stays (Some me) (initproc t) t"
  by (auto simp: leaving_def stays_def)

interpretation lv: fsafe "leaving me" for me
proof unfold_locales
  fix s :: "'a filestate_scheme" and ch l
  assume "leaving me s" "plain_chan ch"
  then have "safe kernel_ok (sleep_switch ch l s)" "safe (stays (Some me) (initproc s)) (sleep_switch ch l s)" "initproc s \<noteq> Some me"
    by (auto intro!: kernel_ok_sleep stays_sleep simp: plain_chan_def leaving_iff)
  then show "safe (leaving me) (sleep_switch ch l s)" by (auto simp: safe_def leaving_def stays_def)
next
  fix s :: "'a filestate_scheme" and l saved
  assume "leaving me s"
  then have "safe1 kernel_ok (sleep_resume l saved s)" "safe1 (stays (Some me) (initproc s)) (sleep_resume l saved s)" "initproc s \<noteq> Some me"
    by (auto intro!: kernel_ok_unsleep stays_sleep simp: leaving_iff)
  then show "safe1 (leaving me) (sleep_resume l saved s)" by (auto simp: safe1_def leaving_def stays_def)
next
  fix s :: "'a filestate_scheme" and g :: "ofile \<Rightarrow> ofile" and f
  assume "leaving me s" "\<And>x. f_ip (g x) = f_ip x"
  then show "leaving me (upd_file f g s)" using kernel_ok_file [of s g f] by (simp add: leaving_def myproc_def upd_file_def)
qed (simp_all add: leaving_def kernel_ok_fields kernel_ok_wakeup1 myproc_def, simp_all add: upd_buf_def upd_inode_def wakeup1_def)

lemma leaving_upd:
  assumes "leaving me t" and "\<And>x. p_parent (f x) = p_parent x \<and> p_state (f x) = p_state x \<and> p_chan (f x) = p_chan x"
    and "j < NPROC \<Longrightarrow> proc_ok (procs t ! j) \<Longrightarrow> proc_ok (f (procs t ! j))"
  shows "leaving me (upd_proc j f t)"
  using assms kernel_ok_files [of t j f] by (simp add: leaving_def myproc_def upd_proc_def)

lemma exit_files_ok: "leaving me t \<Longrightarrow> safe1 (leaving me) (exit_files kend k me i t)"
proof (induction k arbitrary: i t)
  case (Suc k)
  show ?case unfolding exit_files.simps
    by (intro safe_rules lv.fileclose leaving_upd proc_ok_ofile Suc) simp_all
qed (simp add: safe_Inr)

text \<open>The process that exits: its parent is awake.\<close>

definition orphan :: "nat \<Rightarrow> 'a filestate_scheme \<Rightarrow> bool" where
  "orphan me t \<longleftrightarrow> leaving me t \<and> (\<forall>q. p_parent (procs t ! me) = Some q \<longrightarrow> \<not> waits q (procs t ! q))"

lemma not_waits_wake: "\<not> waits q (wake (Chan ''proc'' q) x)" "\<not> waits q x \<Longrightarrow> \<not> waits q (wake ch x)" "p_parent (wake ch x) = p_parent x"
  by (auto simp: waits_def wake_def)

lemma wakeup_proc_ok: "leaving me t \<Longrightarrow> leaving me (wakeup_proc p t)"
  by (cases p) (simp_all add: wakeup_proc_def lv.P_wake)

lemma leavingD:
  assumes "leaving me t"
  shows "me < NPROC" "length (procs t) = NPROC" "p_parent (procs t ! me) = Some q \<Longrightarrow> q < NPROC"
proof -
  show me: "me < NPROC" "length (procs t) = NPROC" using assms kernel_okD(1,8) [of t] by (auto simp: leaving_def)
  show "p_parent (procs t ! me) = Some q \<Longrightarrow> q < NPROC" using assms kernel_okD(4) [OF _ me(1), of t] by (simp add: leaving_def proc_ok_def)
qed

lemma orphan_wake: "leaving me t \<Longrightarrow> orphan me (wakeup_proc (p_parent (procs t ! me)) t)"
proof -
  assume l: "leaving me t"
  show ?thesis using wakeup_proc_ok [OF l, of "p_parent (procs t ! me)"] leavingD [OF l]
    by (cases "p_parent (procs t ! me)") (simp_all add: orphan_def wakeup_proc_def wakeup1_def not_waits_wake)
qed

lemma orphan_wakeup: "orphan me t \<Longrightarrow> orphan me (wakeup_proc p t)"
proof -
  assume a: "orphan me t"
  then have l: "leaving me t" by (simp add: orphan_def)
  show ?thesis using a wakeup_proc_ok [OF l, of p] leavingD [OF l]
    by (cases p) (simp_all add: orphan_def wakeup_proc_def wakeup1_def not_waits_wake)
qed

lemma wakeup_upd_parent: "wakeup1 ch (upd_proc i (\<lambda>p. p\<lparr>p_parent := q\<rparr>) s) = upd_proc i (\<lambda>p. p\<lparr>p_parent := q\<rparr>) (wakeup1 ch s)"
proof (cases "i < length (procs s)")
  case True
  have "wake ch ((procs s ! i)\<lparr>p_parent := q\<rparr>) = (wake ch (procs s ! i))\<lparr>p_parent := q\<rparr>" by (simp add: wake_def)
  then show ?thesis using True by (simp add: wakeup1_def upd_proc_def map_update)
qed (simp add: wakeup1_def upd_proc_def list_update_beyond)

text \<open>A child passes to the first process, which is awake when the child is a zombie.\<close>

lemma orphan_adopt:
  assumes a: "orphan me t" and i: "i < NPROC" "p_parent (procs t ! i) = Some me"
    and z: "\<And>q. p_state (procs t ! i) = ZOMBIE \<Longrightarrow> initproc t = Some q \<Longrightarrow> \<not> waits q (procs t ! q)"
  shows "orphan me (upd_proc i (\<lambda>p. p\<lparr>p_parent := initproc t\<rparr>) t)"
proof -
  have l: "leaving me t" and k: "kernel_ok t" using a by (simp_all add: orphan_def leaving_def)
  have ini: "initproc t \<noteq> Some i" using kernel_okD(6) [OF k, of i] i(2) by auto
  have "me \<noteq> i" using kernel_okD(5) [OF k i(1)] i(2) by auto
  moreover have w: "p_parent (procs t ! j) \<noteq> Some i" if "waits i (procs t ! i)" "j < NPROC" "p_state (procs t ! j) = ZOMBIE" for j
    using kernel_okD(9) [OF k that(2,3) _ i(1)] that(1) by blast
  have "kernel_ok (upd_proc i (\<lambda>p. p\<lparr>p_parent := initproc t\<rparr>) t)"
    using kernel_okD(4) [OF k i(1)] kernel_okD(7) [OF k] ini z w
    by (intro kernel_ok_upd [OF k]) (auto simp: proc_ok_def waits_def)
  moreover have "waits q ((procs t)[i := (procs t ! i)\<lparr>p_parent := r\<rparr>] ! q) = waits q (procs t ! q)" for q r
    using i(1) leavingD(2) [OF l] by (cases "q = i") (simp_all add: waits_def)
  ultimately show ?thesis using a by (simp add: orphan_def leaving_def myproc_def upd_proc_def)
qed

lemma reparent_ok: "orphan me t \<Longrightarrow> i + k \<le> NPROC \<Longrightarrow> orphan me (reparent k me i t)"
proof (induction k arbitrary: i t)
  case (Suc k)
  have len: "length (procs t) = NPROC" using Suc.prems(1) leavingD(2) by (auto simp: orphan_def)
  define u where "u = (if p_parent (procs t ! i) = Some me
    then let s = upd_proc i (\<lambda>p. p\<lparr>p_parent := initproc t\<rparr>) t in
         if p_state (procs s ! i) = ZOMBIE then wakeup_proc (initproc s) s else s
    else t)"
  have "orphan me u"
  proof (cases "p_parent (procs t ! i) = Some me \<and> p_state (procs t ! i) = ZOMBIE \<and> initproc t \<noteq> None")
    case True
    then obtain q where q: "initproc t = Some q" by auto
    let ?w = "wakeup1 (Chan ''proc'' q) t"
    have "q < NPROC" using q Suc.prems(1) kernel_okD(7) [of t q] by (simp add: orphan_def leaving_def)
    then have "orphan me (upd_proc i (\<lambda>p. p\<lparr>p_parent := initproc ?w\<rparr>) ?w)"
      using orphan_wakeup [OF Suc.prems(1), of "Some q"] True Suc.prems(2) len q
      by (intro orphan_adopt) (simp_all add: wakeup_proc_def wakeup1_def not_waits_wake)
    then show ?thesis using True q Suc.prems(2) len
      by (simp add: u_def wakeup_proc_def upd_proc_frame procs_upd_proc flip: wakeup_upd_parent) (simp add: wakeup1_def upd_proc_def)
  next
    case False
    then have "p_parent (procs t ! i) = Some me \<Longrightarrow> orphan me (upd_proc i (\<lambda>p. p\<lparr>p_parent := initproc t\<rparr>) t)"
      using Suc.prems by (intro orphan_adopt) auto
    then show ?thesis using False Suc.prems len by (auto simp: u_def wakeup_proc_def upd_proc_def Let_def)
  qed
  then show ?case using Suc by (simp add: u_def)
qed simp

lemma exit_switch_ok: "leaving me t \<Longrightarrow> safe kernel_ok (exit_switch t)"
proof -
  assume l: "leaving me t"
  define u where "u = reparent NPROC me 0 (wakeup_proc (p_parent (procs t ! me)) t)"
  have r: "orphan me u" unfolding u_def by (intro reparent_ok orphan_wake l) simp
  then have k: "kernel_ok u" and me: "me < NPROC" using leavingD(1) by (auto simp: orphan_def leaving_def)
  have "kernel_ok (upd_proc me (\<lambda>p. p\<lparr>p_state := ZOMBIE\<rparr>) u)"
    using kernel_okD(4,5) [OF k me] r by (intro kernel_ok_upd [OF k]) (auto simp: orphan_def leaving_def proc_ok_def waits_def)
  moreover have "length (procs (wakeup_proc p t)) = NPROC" for p using leavingD(2) [OF wakeup_proc_ok [OF l]] .
  ultimately show ?thesis using l by (simp add: exit_switch_def leaving_def u_def kernel_ok_sched)
qed

lemma exit_proc_ok: "kernel_ok s \<Longrightarrow> safe kernel_ok (exit_proc im s)"
proof (cases "myproc s")
  case (Some me)
  assume s: "kernel_ok s"
  have l: "leaving me s" if "Some me \<noteq> initproc s" using that s Some by (auto simp: leaving_def)
  note via = safe_via [where P = "leaving me" and Q = kernel_ok]
  show ?thesis unfolding exit_proc_def Some option.case Let_def
    by (intro safe_if safe_Inl via exit_files_ok l safe_option lv.iput lv.acquire leaving_upd exit_switch_ok [of me]) (simp_all add: proc_ok_def)
qed (simp add: exit_proc_def safe_Inl)

section \<open>Wait\<close>

lemma wait_scan_None:
  "wait_scan me i hk ps = (None, b) \<Longrightarrow> j < length ps \<Longrightarrow> p_state (ps ! j) = ZOMBIE \<Longrightarrow> p_parent (ps ! j) \<noteq> Some me"
  by (induction ps arbitrary: i hk j) (auto simp: nth_Cons split: if_splits nat.splits)

lemma wait_scan_Some:
  "wait_scan me i hk ps = (Some p, b) \<Longrightarrow> i \<le> p \<and> p < i + length ps \<and> p_state (ps ! (p - i)) = ZOMBIE"
  by (induction ps arbitrary: i hk) (fastforce simp: nth_Cons' split: if_splits)+

definition grave :: "nat \<Rightarrow> 'a filestate_scheme \<Rightarrow> bool" where
  "grave p t \<longleftrightarrow> kernel_ok t \<and> initproc t \<noteq> Some p"

interpretation gr: ksafe "grave p" for p
  by unfold_locales (simp_all add: grave_def kernel_ok_fields)

lemma grave_quiet:
  assumes "grave p s" and "\<And>x. p_ofile (f x) = p_ofile x \<and> p_cwd (f x) = p_cwd x \<and> p_parent (f x) = p_parent x"
    and "\<And>x. p_state (f x) = p_state x \<and> (p_chan (f x) = p_chan x \<or> p_chan (f x) = None)"
  shows "grave p (upd_proc j f s)"
  using assms kernel_ok_quiet [of s f j] by (simp add: grave_def upd_proc_frame)

lemma grave_unused:
  assumes "grave p s" and "p < NPROC"
  shows "grave p (upd_proc p (\<lambda>x. x\<lparr>p_state := UNUSED\<rparr>) s)" "grave p (upd_proc p (\<lambda>x. x\<lparr>p_parent := None\<rparr>) s)"
proof -
  have k: "kernel_ok s" using assms(1) by (simp add: grave_def)
  have w: "p_parent (procs s ! j) \<noteq> Some p" if "waits p (procs s ! p)" "j < NPROC" "p_state (procs s ! j) = ZOMBIE" for j
    using kernel_okD(9) [OF k that(2,3) _ assms(2)] that(1) by blast
  show "grave p (upd_proc p (\<lambda>x. x\<lparr>p_state := UNUSED\<rparr>) s)" "grave p (upd_proc p (\<lambda>x. x\<lparr>p_parent := None\<rparr>) s)"
    using kernel_ok_upd [OF k, of p "\<lambda>x. x\<lparr>p_state := UNUSED\<rparr>"] kernel_ok_upd [OF k, of p "\<lambda>x. x\<lparr>p_parent := None\<rparr>"]
      kernel_okD(4,5) [OF k assms(2)] assms(1) w
    by (auto simp: grave_def upd_proc_frame proc_ok_def waits_def)
qed

lemma reap_ok: "grave p s \<Longrightarrow> p < NPROC \<Longrightarrow> safe kernel_ok (reap kend p s)"
proof -
  assume g: "grave p s" and p: "p < NPROC"
  have "safe (grave p) (reap kend p s)"
    unfolding reap_def Let_def by (intro safe_rules gr.kfree gr.freevm grave_quiet grave_unused g p) simp_all
  then show ?thesis by (rule safe_imp) (simp add: grave_def)
qed

lemma wait_cont_ok: "kernel_ok s \<Longrightarrow> safe kernel_ok (wait_cont im s)"
proof (cases "myproc s")
  case (Some me)
  assume s: "kernel_ok s"
  obtain po b where w: "wait_scan me 0 False (procs s) = (po, b)" by (cases "wait_scan me 0 False (procs s)")
  show ?thesis
  proof (cases po)
    case None
    have sl: "safe kernel_ok (sleep_switch (Chan ''proc'' me) (Some L_ptable) s)"
      using wait_scan_None [of me 0 False "procs s" b] w None kernel_okD(1) [OF s] by (intro kernel_ok_sleep s) auto
    show ?thesis unfolding wait_cont_def Some option.case w None prod.case
      by (intro safe_rules kl.release s sl) simp_all
  next
    case (Some p)
    have p: "p < NPROC" "p_state (procs s ! p) = ZOMBIE" using wait_scan_Some [of me 0 False "procs s" p b] w Some kernel_okD(1) [OF s] by simp_all
    then have "grave p s" using s kernel_okD(6) [OF s, of p] by (auto simp: grave_def alive_def)
    then show ?thesis using \<open>myproc s = Some me\<close> w Some p
      by (auto simp: wait_cont_def intro!: safe_rules reap_ok kl.release)
  qed
qed (simp add: wait_cont_def safe_Inl)

lemma wait_ok: "kernel_ok s \<Longrightarrow> safe kernel_ok (wait im s)" "kernel_ok s \<Longrightarrow> safe kernel_ok (wait_resume im saved s)"
  unfolding wait_def wait_resume_def by (intro safe_rules kl.acquire kernel_ok_unsleep wait_cont_ok; assumption)+

end
