(* ===== verification/CallsOk.thy ===== *)
theory CallsOk
  imports KernelOk
begin

unbundle bit_operations_syntax

text \<open>
  Every system call and every trap preserves \<open>kernel_ok\<close>, with the console and the Ethernet card in the device switch.
\<close>

section \<open>Arguments and results\<close>

lemma safe_ret: "P s \<Longrightarrow> safe P (ret r s)"
  by (simp add: ret_def safe_Inr)

lemma safe_need: "P s \<Longrightarrow> (\<And>v. r = Inr (Some v) \<Longrightarrow> safe P (k v)) \<Longrightarrow> safe P (need r k s)"
  by (cases r) (auto simp: need_def safe_Inl safe_ret split: option.split)

lemma safe_then:
  "safe P r \<Longrightarrow> (\<And>x t. P t \<Longrightarrow> safe P (g (x, t))) \<Longrightarrow> safe P (andThen r g)"
  by (cases r) (auto simp: safe_def)

lemma ustore_bytes_ok: "kernel_ok s \<Longrightarrow> safe1 kernel_ok (ustore_bytes bs va s)"
  by (induction bs arbitrary: va s) (auto intro!: safe_rules safe_value simp: kernel_ok_fields)

lemma tf_put_ok: "kernel_ok s \<Longrightarrow> kernel_ok (tf_put i a v s)"
  by (simp add: tf_put_def kernel_ok_fields)

lemma argfd_index:
  assumes s: "kernel_ok s" and me: "me < NPROC" and a: "argfd me n s = Inr (Some (fd, f))"
  shows "f < NFILE"
proof -
  obtain r where r: "argint me n s = Inr r" using a by (cases "argint me n s") (simp_all add: argfd_def)
  obtain w where "r = Some w" "nat (as_int w) < NOFILE" "p_ofile (procs s ! me) ! nat (as_int w) = Some f"
    using a r by (cases r) (auto simp: argfd_def Let_def split: option.splits if_splits)
  then show ?thesis using kernel_okD(4) [OF s me] nth_mem [of "nat (as_int w)" "p_ofile (procs s ! me)"] by (auto simp: proc_ok_def)
qed

lemma kernel_ok_fd:
  assumes "kernel_ok s" and "\<And>f. fo = Some f \<Longrightarrow> f < NFILE"
  shows "kernel_ok (upd_proc me (\<lambda>x. x\<lparr>p_ofile := (p_ofile x)[fd := fo]\<rparr>) s)"
  by (intro kernel_ok_files assms(1) proc_ok_ofile assms(2)) simp_all

lemma fdalloc_ok: "kernel_ok s \<Longrightarrow> f < NFILE \<Longrightarrow> fdalloc me f s = (fo, t) \<Longrightarrow> kernel_ok t"
  by (auto simp: fdalloc_def intro!: kernel_ok_fd split: option.splits)

section \<open>Processes\<close>

lemma kill_ok: "kernel_ok s \<Longrightarrow> safe kernel_ok (kill pid s)"
proof -
  have *: "kernel_ok (upd_proc i (\<lambda>p. p\<lparr>p_killed := True\<rparr>) t)" "kernel_ok (upd_proc i (\<lambda>p. p\<lparr>p_state := RUNNABLE\<rparr>) t)"
    if "kernel_ok t" for t :: "'a filestate_scheme" and i
    by (rule kernel_ok_quiet [OF that]; simp) (rule kernel_ok_alive [OF that]; simp add: alive_def waits_def)
  assume "kernel_ok s"
  then show ?thesis unfolding kill_def Let_def
    by (intro safe_rules kl.acquire kl.release) (simp_all add: *)
qed

lemma kernel_ok_vm:
  assumes "kernel_ok s"
  shows "kernel_ok (s\<lparr>gdt := a\<rparr>)" "kernel_ok (s\<lparr>ts_ss0 := b\<rparr>)" "kernel_ok (s\<lparr>ts_esp0 := c\<rparr>)" "kernel_ok (s\<lparr>tr := d\<rparr>)" "kernel_ok (s\<lparr>cr3 := e\<rparr>)"
  using assms by (simp_all add: kernel_ok_def)

lemma switchuvm_ok: "kernel_ok s \<Longrightarrow> safe1 kernel_ok (switchuvm ts p s)"
  unfolding switchuvm_def Let_def set_seg_def lcr3_def
  by (intro safe_rules kl.popcli kernel_ok_vm kl.pushcli)

lemma growproc_ok: "kernel_ok s \<Longrightarrow> safe kernel_ok (growproc im n s)" for s :: "'a consstate_scheme"
  unfolding growproc_def Let_def
  by (intro safe_rules kf.allocuvm kf.deallocuvm switchuvm_ok kernel_ok_quiet) simp_all

section \<open>Exec\<close>

lemma loaduvm_ok: "devr_safe kernel_ok devr \<Longrightarrow> kernel_ok s \<Longrightarrow> safe kernel_ok (loaduvm_loop k devr d addr ip off sz i s)"
  for s :: "'a consstate_scheme"
proof (induction k arbitrary: i s)
  case (Suc k)
  then show ?case unfolding loaduvm_loop.simps Let_def
    by (intro safe_rules kf.walkpgdir kf.readi Suc.IH kernel_ok_fields; assumption?)
qed (simp add: safe_Inl)

lemma load_segments_ok: "devr_safe kernel_ok devr \<Longrightarrow> kernel_ok s \<Longrightarrow> safe kernel_ok (load_segments k im devr ip d off sz s)"
  for s :: "'a consstate_scheme"
proof (induction k arbitrary: off sz s)
  case (Suc k)
  then show ?case unfolding load_segments.simps loaduvm_def Let_def
    by (intro safe_rules kf.readi kf.allocuvm loaduvm_ok Suc.IH; assumption?)
qed (simp add: safe_Inr)

lemma exec_bad_ok: "kernel_ok s \<Longrightarrow> safe kernel_ok (exec_bad im d ipo s)" for s :: "'a consstate_scheme"
  unfolding exec_bad_def by (intro safe_rules kf.freevm kf.iunlockput; assumption)

lemma exec_commit_ok: "kernel_ok s \<Longrightarrow> safe kernel_ok (exec_commit im elf d path sz sp me s)" for s :: "'a consstate_scheme"
  unfolding exec_commit_def Let_def
  by (intro safe_rules safe_value switchuvm_ok kf.freevm tf_put_ok kernel_ok_quiet) simp_all

lemma exec_stack_ok: "kernel_ok s \<Longrightarrow> safe kernel_ok (exec_stack im elf d path argv sz me s)" for s :: "'a consstate_scheme"
  unfolding exec_stack_def Let_def
  by (intro safe_rules kf.allocuvm kf.push_args kf.copyout exec_bad_ok exec_commit_ok; assumption?)

lemma exec_ok: "devr_safe kernel_ok devr \<Longrightarrow> kernel_ok s \<Longrightarrow> safe kernel_ok (exec im devr path argv s)" for s :: "'a consstate_scheme"
  unfolding exec_def Let_def
  by (intro safe_rules kf.namei kf.ilock kf.readi kf.setupkvm kf.iunlockput load_segments_ok exec_bad_ok exec_stack_ok; assumption?)

section \<open>System calls on processes\<close>

lemmas call_rules = safe_rules safe_need safe_ret

lemma wait_out_ok: "kernel_ok t \<Longrightarrow> safe kernel_ok (wait_out (x, t))"
  by (cases x) (simp_all add: wait_out_def safe_ret safe_Inr)

lemma sys_proc_ok:
  fixes s :: "'a sysstate_scheme"
  assumes "kernel_ok s"
  shows "safe kernel_ok (sys_exit im me s)" "safe kernel_ok (sys_wait im me s)" "safe kernel_ok (sys_kill me s)"
    "safe kernel_ok (sys_getpid me s)" "safe kernel_ok (sys_sbrk im me s)"
  unfolding sys_exit_def sys_wait_def sys_kill_def sys_getpid_def sys_sbrk_def Let_def
  by (intro call_rules exit_proc_ok kill_ok growproc_ok safe_then [OF wait_ok(1)] wait_out_ok assms; assumption)+

lemma sys_fork_ok:
  assumes "kernel_ok s" and "\<And>me. myproc s = Some me \<Longrightarrow> p_state (procs s ! me) \<noteq> UNUSED"
  shows "safe kernel_ok (sys_fork im me s)"
  unfolding sys_fork_def by (intro call_rules fork_ok assms; assumption)

lemma ticks_cont_ok: "kernel_ok s \<Longrightarrow> safe kernel_ok (ticks_cont n t0 me s)" for s :: "'a sysstate_scheme"
  unfolding ticks_cont_def by (intro call_rules kl.release kf.P_sleep plain_chans; assumption)

lemma sys_ticks_ok:
  fixes s :: "'a sysstate_scheme"
  assumes "kernel_ok s"
  shows "safe kernel_ok (sys_sleep me s)" "safe kernel_ok (sys_uptime me s)"
  unfolding sys_sleep_def sys_uptime_def Let_def
  by (intro call_rules kl.acquire kl.release ticks_cont_ok assms; assumption)+

section \<open>System calls on files\<close>

lemma read_out_ok: "kernel_ok t \<Longrightarrow> safe kernel_ok (read_out pipe n p (x, t))"
  by (cases x) (auto simp: read_out_def intro!: call_rules ustore_bytes_ok)

lemma write_out_ok: "kernel_ok t \<Longrightarrow> safe kernel_ok (write_out pipe n (x, t))"
  by (cases x) (auto simp: write_out_def intro!: call_rules)

lemma put_stat_ok: "kernel_ok s \<Longrightarrow> safe1 kernel_ok (put_stat st p s)"
  unfolding put_stat_def by (intro safe_rules ustore_bytes_ok; assumption)

definition devs_ok :: "'a sysstate_scheme devsw_t \<Rightarrow> bool" where
  "devs_ok dv \<longleftrightarrow> devr_safe kernel_ok (dv_read dv) \<and> devw_safe kernel_ok (dv_write dv) \<and> devi_safe kernel_ok (dv_ioctl dv)"

lemma safe_case_pair: "(\<And>a b. x = (a, b) \<Longrightarrow> safe P (f a b)) \<Longrightarrow> safe P (case x of (a, b) \<Rightarrow> f a b)"
  by (cases x) simp

lemma sys_dup_ok:
  fixes s :: "'a sysstate_scheme"
  assumes s: "kernel_ok s" and me: "me < NPROC"
  shows "safe kernel_ok (sys_dup me s)"
proof -
  have "safe kernel_ok (case fdalloc me f s of (None, s) \<Rightarrow> ret (- 1) s | (Some fd, s) \<Rightarrow> andThen (filedup f s) (\<lambda>(_, s). ret (int fd) s))"
    if "f < NFILE" for f
  proof -
    obtain fo t where f: "fdalloc me f s = (fo, t)" by (cases "fdalloc me f s")
    have t: "kernel_ok t" using fdalloc_ok [OF s that f] .
    show ?thesis unfolding f by (cases fo) (auto intro!: call_rules kf.filedup t)
  qed
  then show ?thesis unfolding sys_dup_def using argfd_index [OF s me] by (auto intro!: safe_need s)
qed

lemma sys_files_ok:
  fixes s :: "'a sysstate_scheme"
  assumes s: "kernel_ok s" and "devs_ok dv"
  shows "safe kernel_ok (sys_read (dv_read dv) me s)" "safe kernel_ok (sys_write (dv_write dv) me s)" "safe kernel_ok (sys_close im me s)"
    "safe kernel_ok (sys_fstat me s)" "safe kernel_ok (sys_ioctl (dv_ioctl dv) me s)"
proof -
  have d: "devr_safe kernel_ok (dv_read dv)" "devw_safe kernel_ok (dv_write dv)" "devi_safe kernel_ok (dv_ioctl dv)"
    using assms(2) by (simp_all add: devs_ok_def)
  show "safe kernel_ok (sys_read (dv_read dv) me s)" unfolding sys_read_def
    by (intro call_rules safe_then [OF kf.fileread] read_out_ok s d; assumption)
  show "safe kernel_ok (sys_write (dv_write dv) me s)" unfolding sys_write_def
    by (intro call_rules safe_then [OF kf.filewrite] write_out_ok s d; assumption)
  show "safe kernel_ok (sys_close im me s)" unfolding sys_close_def Let_def
    by (intro call_rules kf.fileclose kernel_ok_fd s) simp_all
  show "safe kernel_ok (sys_fstat me s)" unfolding sys_fstat_def
    by (intro call_rules kf.filestat put_stat_ok s; assumption)
  show "safe kernel_ok (sys_ioctl (dv_ioctl dv) me s)" unfolding sys_ioctl_def
    by (intro call_rules kf.fileioctl s d; assumption)
qed

lemma link_bad_ok: "kernel_ok s \<Longrightarrow> safe kernel_ok (link_bad ip s)" for s :: "'a sysstate_scheme"
  unfolding link_bad_def Let_def by (intro call_rules kf.ilock kf.iupdate kf.iunlockput kernel_ok_fields; assumption)

lemma isdirempty_ok: "devr_safe kernel_ok devr \<Longrightarrow> kernel_ok s \<Longrightarrow> safe kernel_ok (isdirempty_loop k devr dp off s)" for s :: "'a sysstate_scheme"
proof (induction k arbitrary: off s)
  case (Suc k)
  then show ?case unfolding isdirempty_loop.simps by (intro safe_rules kf.readi Suc.IH; assumption?)
qed (simp add: safe_Inl)

lemma sys_names_ok:
  fixes s :: "'a sysstate_scheme"
  assumes s: "kernel_ok s" and d: "devr_safe kernel_ok devr" "devw_safe kernel_ok devw"
  shows "safe kernel_ok (sys_link devr devw me s)" "safe kernel_ok (sys_unlink devr devw me s)" "safe kernel_ok (sys_exec im devr me s)"
proof -
  show "safe kernel_ok (sys_link devr devw me s)" unfolding sys_link_def Let_def
    by (intro call_rules kf.namei kf.ilock kf.iunlockput kf.iupdate kf.iunlock kf.nameiparent kf.dirlink kf.iput link_bad_ok kernel_ok_fields s d; assumption?)
  show "safe kernel_ok (sys_unlink devr devw me s)" unfolding sys_unlink_def unlink_entry_def isdirempty_def Let_def
    by (intro call_rules safe_value [where r = "namecmp a b" for a b] safe_value [where r = "if c then Inr k else namecmp a b" for a b c k]
        kf.nameiparent kf.ilock kf.dirlookup kf.iunlockput kf.iupdate kf.writei isdirempty_ok kernel_ok_fields s d; assumption?)
  show "safe kernel_ok (sys_exec im devr me s)" unfolding sys_exec_def by (intro call_rules exec_ok s d; assumption)
qed

section \<open>Creating and opening files\<close>

lemma dots_ok:
  fixes s :: "'a sysstate_scheme"
  assumes s: "kernel_ok s" and d: "devr_safe kernel_ok devr" "devw_safe kernel_ok devw"
  shows "safe1 kernel_ok (if ty = T_DIR then
      andThen (iupdate dp (upd_inode dp (\<lambda>x. x\<lparr>i_nlink := i_nlink x + 1\<rparr>) s)) (\<lambda>s.
      andThen (dirlink devr devw ip (lit ''.'') (i_inum (inodes s ! ip)) s) (\<lambda>(r, s).
      if r < 0 then Inl (Panic ''create dots'')
      else
        andThen (dirlink devr devw ip (lit ''..'') (i_inum (inodes s ! dp)) s) (\<lambda>(r, s).
        if r < 0 then Inl (Panic ''create dots'') else Inr s)))
    else Inr s)"
  by (intro safe_rules kf.iupdate kf.dirlink kernel_ok_fields s d; assumption?)

lemma create_new_ok:
  fixes s :: "'a sysstate_scheme"
  assumes s: "kernel_ok s" and d: "devr_safe kernel_ok devr" "devw_safe kernel_ok devw"
  shows "safe kernel_ok (create_new devr devw dp name ty mj mn s)" "gives opt_in (create_new devr devw dp name ty mj mn s)"
proof -
  show "safe kernel_ok (create_new devr devw dp name ty mj mn s)" unfolding create_new_def Let_def
    by (intro safe_rules kf.ialloc kf.ilock kf.iupdate dots_ok kf.dirlink kf.iunlockput kernel_ok_fields s d; assumption?)
  show "gives opt_in (create_new devr devw dp name ty mj mn s)" unfolding create_new_def Let_def
    by (rule gives_ok(3) [OF kf.ialloc [OF s] ialloc_index [OF s]])
      (intro gives_ok(1,2) gives_rules kf.ilock kf.iupdate dots_ok kf.dirlink kf.iunlockput kernel_ok_fields d;
       (assumption | simp add: index_simps in_icache_def)?)
qed

lemma create_ok:
  fixes s :: "'a sysstate_scheme"
  assumes s: "kernel_ok s" and d: "devr_safe kernel_ok devr" "devw_safe kernel_ok devw"
  shows "safe kernel_ok (create devr devw path ty mj mn s)" "gives opt_in (create devr devw path ty mj mn s)"
proof -
  show "safe kernel_ok (create devr devw path ty mj mn s)" unfolding create_def
    by (intro safe_rules kf.nameiparent kf.ilock kf.dirlookup kf.iunlockput create_new_ok s d; assumption?)
  have found: "gives opt_in (andThen (dirlookup dp name t) (\<lambda>(r, s). case r of
      Some (ip, off) \<Rightarrow>
        andThen (iunlockput dp s) (\<lambda>s.
        andThen (ilock (Some ip) s) (\<lambda>s.
        if ty = T_FILE \<and> i_type (inodes s ! ip) = T_FILE then Inr (Some ip, s)
        else andThen (iunlockput ip s) (\<lambda>s. Inr (None, s))))
    | None \<Rightarrow> create_new devr devw dp name ty mj mn s))" if t: "kernel_ok t" for t :: "'a sysstate_scheme" and dp name
  proof (rule gives_ok(3) [OF kf.dirlookup [OF t] dirlookup_index [OF t]])
    fix r and u :: "'a sysstate_scheme"
    assume "kernel_ok u" "ent_in r"
    then show "gives opt_in (case r of
      Some (ip, off) \<Rightarrow>
        andThen (iunlockput dp u) (\<lambda>s.
        andThen (ilock (Some ip) s) (\<lambda>s.
        if ty = T_FILE \<and> i_type (inodes s ! ip) = T_FILE then Inr (Some ip, s)
        else andThen (iunlockput ip s) (\<lambda>s. Inr (None, s))))
    | None \<Rightarrow> create_new devr devw dp name ty mj mn u)"
      by (auto split: option.split simp: index_simps intro!: create_new_ok d gives_ok(2) gives_rules kf.iunlockput kf.ilock)
  qed
  show "gives opt_in (create devr devw path ty mj mn s)" unfolding create_def
    by (rule gives_ok(1) [OF kf.nameiparent [OF s]])
      (auto split: option.split simp: index_simps intro!: gives_rules gives_ok(2) kf.ilock found)
qed

definition file_in :: "nat option \<Rightarrow> bool" where
  "file_in fo \<longleftrightarrow> (\<forall>f. fo = Some f \<longrightarrow> f < NFILE)"

lemma filealloc_index: "kernel_ok s \<Longrightarrow> gives file_in (filealloc s)" for s :: "'a sysstate_scheme"
proof -
  have "gives file_in (case scan_files 0 (ftable t) of
      None \<Rightarrow> andThen (release L_ftable t) (\<lambda>s. Inr (None, s))
    | Some f \<Rightarrow>
        let s = upd_file f (\<lambda>x. x\<lparr>f_ref := 1\<rparr>) t in andThen (release L_ftable s) (\<lambda>s. Inr (Some f, s)))"
    if "kernel_ok t" for t :: "'a sysstate_scheme"
    using scan_files_Some [of 0 "ftable t"] kernel_okD(2) [OF that]
    by (auto split: option.split simp: file_in_def Let_def intro!: gives_value gives_rules)
  then show "kernel_ok s \<Longrightarrow> ?thesis" unfolding filealloc_def by (intro gives_ok(2) kl.acquire; assumption?)
qed

lemma open_inode_ok:
  fixes s :: "'a sysstate_scheme"
  assumes s: "kernel_ok s" and ip: "ip < NINODE"
  shows "safe kernel_ok (open_inode im me ip omode s)"
proof -
  have "safe kernel_ok (case fdalloc me f t of
            (None, s) \<Rightarrow>
              andThen (fileclose (im_end im) f s) (\<lambda>s. andThen (iunlockput ip s) (\<lambda>s. ret (- 1) s))
          | (Some fd, s) \<Rightarrow>
              andThen (iunlock (Some ip) s) (\<lambda>s. ret (int fd) (upd_file f (open_file ip omode) s)))"
    if t: "kernel_ok t" and f: "f < NFILE" for f and t :: "'a sysstate_scheme"
  proof -
    obtain fo u where fu: "fdalloc me f t = (fo, u)" by (cases "fdalloc me f t")
    have u: "kernel_ok u" using fdalloc_ok [OF t f fu] .
    have o: "kernel_ok (upd_file f (open_file ip omode) w)" if "kernel_ok w" for w :: "'a sysstate_scheme"
      by (rule kernel_ok_file [OF that]) (simp add: open_file_def ip)
    show ?thesis unfolding fu by (cases fo) (auto intro!: call_rules kf.fileclose kf.iunlockput kf.iunlock u o)
  qed
  then show ?thesis unfolding open_inode_def
    by (intro safe_bind_gives(1) [OF kf.filealloc [OF s] filealloc_index [OF s]])
      (auto split: option.split simp: file_in_def intro!: call_rules kf.iunlockput)
qed

lemma create_out_ok: "kernel_ok t \<Longrightarrow> safe kernel_ok (create_out (x, t))" for t :: "'a sysstate_scheme"
  by (cases x) (auto simp: create_out_def intro!: call_rules kf.iunlockput)

lemma sys_create_ok:
  fixes s :: "'a sysstate_scheme"
  assumes s: "kernel_ok s" and d: "devr_safe kernel_ok devr" "devw_safe kernel_ok devw"
  shows "safe kernel_ok (sys_mkdir devr devw me s)" "safe kernel_ok (sys_mknod devr devw me s)"
  unfolding sys_mkdir_def sys_mknod_def by (intro call_rules safe_then [OF create_ok(1)] create_out_ok s d; assumption)+

lemma sys_open_ok:
  fixes s :: "'a sysstate_scheme"
  assumes s: "kernel_ok s" and d: "devr_safe kernel_ok devr" "devw_safe kernel_ok devw"
  shows "safe kernel_ok (sys_open im devr devw me s)"
proof -
  have new: "safe kernel_ok (andThen (create devr devw path T_FILE 0 0 s) (\<lambda>(ipo, s).
       case ipo of None \<Rightarrow> ret (- 1) s | Some ip \<Rightarrow> open_inode im me ip omode s))" for path omode
    by (rule safe_bind_gives(1) [OF create_ok(1) [OF s d] create_ok(2) [OF s d]])
      (auto split: option.split simp: opt_in_def intro!: safe_ret open_inode_ok)
  have old: "safe kernel_ok (andThen (namei path s) (\<lambda>(ipo, s).
       case ipo of
         None \<Rightarrow> ret (- 1) s
       | Some ip \<Rightarrow>
           andThen (ilock (Some ip) s) (\<lambda>s.
           if i_type (inodes s ! ip) = T_DIR \<and> omode \<noteq> O_RDONLY
           then andThen (iunlockput ip s) (\<lambda>s. ret (- 1) s)
           else open_inode im me ip omode s)))" for path omode
    by (rule safe_bind_gives(1) [OF kf.namei [OF s] namei_index [OF s]])
      (auto split: option.split simp: opt_in_def intro!: safe_rules safe_ret kf.ilock kf.iunlockput open_inode_ok)
  show ?thesis unfolding sys_open_def by (intro safe_need safe_if new old s)
qed

lemma sys_chdir_ok:
  fixes s :: "'a sysstate_scheme"
  assumes s: "kernel_ok s"
  shows "safe kernel_ok (sys_chdir me s)"
proof -
  have c: "kernel_ok (upd_proc me (\<lambda>x. x\<lparr>p_cwd := Some ip\<rparr>) t)" if "kernel_ok t" "ip < NINODE" for t :: "'a sysstate_scheme" and ip
    using that(2) by (intro kernel_ok_files [OF that(1)]) (simp_all add: proc_ok_def)
  show ?thesis unfolding sys_chdir_def
    by (intro safe_need s, rule safe_bind_gives(1) [OF kf.namei [OF s] namei_index [OF s]])
      (auto split: option.split simp: opt_in_def intro!: safe_rules safe_ret kf.ilock kf.iunlockput kf.iunlock kf.iput c)
qed

definition ends_in :: "(nat \<times> nat) option \<Rightarrow> bool" where
  "ends_in r \<longleftrightarrow> (\<forall>f g. r = Some (f, g) \<longrightarrow> f < NFILE \<and> g < NFILE)"

lemma pipealloc_index:
  fixes s :: "'a sysstate_scheme"
  assumes s: "kernel_ok s"
  shows "gives ends_in (pipealloc kend s)"
proof -
  have none: "gives ends_in (andThen (close_opt kend f0 t) (\<lambda>s. andThen (close_opt kend f1 s) (\<lambda>s. Inr (None, s))))"
    for t :: "'a sysstate_scheme" and f0 f1
    by (intro gives_value gives_rules) (simp add: ends_in_def)
  show ?thesis unfolding pipealloc_def Let_def
  proof (rule gives_ok(3) [OF kf.filealloc [OF s] filealloc_index [OF s]])
    fix f0 and t :: "'a sysstate_scheme"
    assume t: "kernel_ok t" and f0: "file_in f0"
    have a: "safe kernel_ok (if f0 = None then Inr (None, t) else filealloc t)" "gives file_in (if f0 = None then Inr (None, t) else filealloc t)"
      using t filealloc_index [OF t] kf.filealloc [OF t] by (auto intro: safe_rules gives_rules simp: file_in_def)
    show "gives ends_in (andThen (if f0 = None then Inr (None, t) else filealloc t) (\<lambda>(f1, s).
       andThen (if f0 = None \<or> f1 = None then Inr (0, s) else kalloc s) (\<lambda>(p, s).
       case (f0, f1) of
         (Some r, Some w) \<Rightarrow>
           if p \<noteq> 0
           then Inr (Some (r, w), upd_file w (pipe_end p True) (upd_file r (pipe_end p False)
             (initlock (pipelock p) ''pipe'' (set_pipe p (new_pipe (page_bytes p s)) s))))
           else andThen (close_opt kend f0 s) (\<lambda>s. andThen (close_opt kend f1 s) (\<lambda>s. Inr (None, s)))
       | _ \<Rightarrow> andThen (close_opt kend f0 s) (\<lambda>s. andThen (close_opt kend f1 s) (\<lambda>s. Inr (None, s))))))"
      using f0 by (intro gives_ok(3) [OF a] gives_value)
        (auto split: option.split simp: ends_in_def file_in_def intro!: gives_rules none)
  qed
qed

lemma sys_pipe_ok:
  fixes s :: "'a sysstate_scheme"
  assumes s: "kernel_ok s"
  shows "safe kernel_ok (sys_pipe im me s)"
proof -
  have bad: "safe kernel_ok (pipe_bad kend rf wr t)" if "kernel_ok t" for t :: "'a sysstate_scheme" and kend rf wr
    using that unfolding pipe_bad_def by (intro safe_rules safe_ret kf.fileclose)
  have two: "safe kernel_ok (case fdalloc me wr t of
                 (None, s) \<Rightarrow> pipe_bad (im_end im) rf wr (clear_fd me fd0 s)
               | (Some fd1, s) \<Rightarrow>
                   andThen (ustore_bytes (bytes32 (of_nat fd0)) fd s) (\<lambda>s.
                   andThen (ustore_bytes (bytes32 (of_nat fd1)) (fd + 4) s) (\<lambda>s. ret 0 s)))"
    if t: "kernel_ok t" and f: "wr < NFILE" for t :: "'a sysstate_scheme" and rf wr fd0 fd
  proof -
    obtain fo u where fu: "fdalloc me wr t = (fo, u)" by (cases "fdalloc me wr t")
    have u: "kernel_ok u" using fdalloc_ok [OF t f fu] .
    show ?thesis unfolding fu by (cases fo) (auto simp: clear_fd_def intro!: safe_rules safe_ret ustore_bytes_ok bad kernel_ok_fd u)
  qed
  have one: "safe kernel_ok (case fdalloc me rf t of
            (None, s) \<Rightarrow> pipe_bad (im_end im) rf wr s
          | (Some fd0, s) \<Rightarrow>
              (case fdalloc me wr s of
                 (None, s) \<Rightarrow> pipe_bad (im_end im) rf wr (clear_fd me fd0 s)
               | (Some fd1, s) \<Rightarrow>
                   andThen (ustore_bytes (bytes32 (of_nat fd0)) fd s) (\<lambda>s.
                   andThen (ustore_bytes (bytes32 (of_nat fd1)) (fd + 4) s) (\<lambda>s. ret 0 s))))"
    if t: "kernel_ok t" and f: "rf < NFILE" "wr < NFILE" for t :: "'a sysstate_scheme" and rf wr fd
  proof -
    obtain fo u where fu: "fdalloc me rf t = (fo, u)" by (cases "fdalloc me rf t")
    have u: "kernel_ok u" using fdalloc_ok [OF t f(1) fu] .
    show ?thesis unfolding fu by (cases fo) (auto intro: bad u two [OF u f(2)])
  qed
  show ?thesis unfolding sys_pipe_def
    by (intro safe_need s, rule safe_bind_gives(1) [OF kf.pipealloc [OF s] pipealloc_index [OF s]])
      (auto split: option.split simp: ends_in_def intro!: safe_ret one)
qed

section \<open>The table of system calls\<close>

lemma set_eax_ok: "kernel_ok t \<Longrightarrow> safe kernel_ok (set_eax me (x, t))"
  by (cases x) (auto simp: set_eax_def intro!: safe_rules tf_put_ok)

lemma syscalls_ok:
  fixes s :: "'a sysstate_scheme"
  assumes "syscalls im dv num = Some f" and s: "kernel_ok s" and d: "devs_ok dv" and me: "myproc s = Some me" "p_state (procs s ! me) \<noteq> UNUSED"
  shows "safe kernel_ok (f me s)"
proof -
  have dd: "devr_safe kernel_ok (dv_read dv)" "devw_safe kernel_ok (dv_write dv)" "devi_safe kernel_ok (dv_ioctl dv)"
    using d by (simp_all add: devs_ok_def)
  have lt: "me < NPROC" using kernel_okD(8) [OF s me(1)] .
  show ?thesis using assms(1) me sys_fork_ok [of s]
    by (auto simp: syscalls_def split: if_splits
        intro!: sys_proc_ok sys_ticks_ok sys_files_ok sys_names_ok sys_create_ok sys_open_ok sys_chdir_ok sys_pipe_ok sys_dup_ok s d dd lt)
qed

lemma syscall_ok:
  fixes s :: "'a sysstate_scheme"
  assumes s: "kernel_ok s" and d: "devs_ok dv" and me: "\<And>me. myproc s = Some me \<Longrightarrow> p_state (procs s ! me) \<noteq> UNUSED"
  shows "safe kernel_ok (syscall im dv s)"
proof (cases "myproc s")
  case (Some m)
  show ?thesis unfolding syscall_def Some option.case Let_def
    by (intro safe_option safe_then [OF syscalls_ok [OF _ s d Some me [OF Some]]] set_eax_ok safe_rules kf.cprintf s)
      (auto split: if_splits)
qed (simp add: syscall_def safe_Inl)

lemma syscall_resume_ok:
  fixes s :: "'a sysstate_scheme"
  assumes s: "kernel_ok s"
  shows "safe kernel_ok (syscall_resume im k s)"
proof -
  have "safe kernel_ok (sys_continue im k me s)" for me
    unfolding sys_continue_def
    by (cases k) (auto intro!: safe_then [OF kf.piperead_resume] safe_then [OF kf.pipewrite_resume] safe_then [OF wait_ok(2)]
      read_out_ok write_out_ok wait_out_ok safe_rules kf.P_unsleep ticks_cont_ok s)
  then show ?thesis unfolding syscall_resume_def
    by (auto split: option.split intro!: safe_rules(1) safe_then set_eax_ok)
qed

section \<open>The Ethernet card\<close>

lemma safe1_case_pair: "(\<And>a b. x = (a, b) \<Longrightarrow> safe1 P (f a b)) \<Longrightarrow> safe1 P (case x of (a, b) \<Rightarrow> f a b)"
  by (cases x) simp

lemmas ne_cases = safe_case_pair safe1_case_pair

locale nsafe = csafe P for P :: "('d, 'a) nestate_scheme \<Rightarrow> bool" +
  assumes P_ne: "P s \<Longrightarrow> P (s\<lparr>ne := ne_a\<rparr>)"
    and P_nic: "P s \<Longrightarrow> P (s\<lparr>nic := nic_a\<rparr>)"
begin

lemma ne_fields:
  assumes "P s"
  shows "P (s\<lparr>ne := a\<rparr>)" "P (s\<lparr>nic := b\<rparr>)" "P (upd_ne f s)" "P (nout dev off c s)"
  using assms by (simp_all add: upd_ne_def nout_def P_ne P_nic)

lemma nin_P: "P s \<Longrightarrow> nin dev off s = (b, t) \<Longrightarrow> P t"
  by (auto simp: nin_def ne_fields split: prod.splits)

lemma insb_P: "P s \<Longrightarrow> insb dev n s = (bs, t) \<Longrightarrow> P t"
  by (induction n arbitrary: s bs) (fastforce split: prod.splits dest: nin_P)+

lemma insw_P: "P s \<Longrightarrow> insw dev n s = (bs, t) \<Longrightarrow> P t"
proof (induction n arbitrary: s bs)
  case (Suc n)
  obtain w d where d: "nd_inw dev (ne_base (ne s) + NE_DATA) (nic s) = (w, d)" by fastforce
  show ?case using Suc.IH [OF ne_fields(2) [OF Suc.prems(1)], of d] Suc.prems(2) by (auto simp: d split: prod.splits)
qed simp

lemma rdma_regs_P: "P s \<Longrightarrow> P (rdma_regs dev mode a n s)"
  by (simp add: rdma_regs_def Let_def ne_fields)

lemma ne_getblock_P: "P s \<Longrightarrow> ne_getblock dev a n s = (bs, t) \<Longrightarrow> P t"
  using insb_P insw_P rdma_regs_P unfolding ne_getblock_def Let_def by (metis (no_types))

lemma read_crda_P: "P s \<Longrightarrow> read_crda dev s = (w, t) \<Longrightarrow> P t"
  by (auto simp: read_crda_def split: prod.splits dest: nin_P)

lemma ne_print_P: "P s \<Longrightarrow> safe1 P (ne_print fmt args s)"
  unfolding ne_print_def by (rule cprintf)

lemma ne_steps:
  "P s \<Longrightarrow> (\<And>b t. P t \<Longrightarrow> safe P (f b t)) \<Longrightarrow> safe P (case nin dev off s of (b, t) \<Rightarrow> f b t)"
  "P s \<Longrightarrow> (\<And>b t. P t \<Longrightarrow> safe1 P (h b t)) \<Longrightarrow> safe1 P (case nin dev off s of (b, t) \<Rightarrow> h b t)"
  "P s \<Longrightarrow> (\<And>b t. P t \<Longrightarrow> safe P (g b t)) \<Longrightarrow> safe P (case ne_getblock dev a n s of (b, t) \<Rightarrow> g b t)"
  "P s \<Longrightarrow> (\<And>b t. P t \<Longrightarrow> safe1 P (k b t)) \<Longrightarrow> safe1 P (case ne_getblock dev a n s of (b, t) \<Rightarrow> k b t)"
  "P s \<Longrightarrow> (\<And>b t. P t \<Longrightarrow> safe1 P (r b t)) \<Longrightarrow> safe1 P (case read_crda dev s of (b, t) \<Rightarrow> r b t)"
  by ((rule ne_cases, drule (1) nin_P, blast)+, (rule ne_cases, drule (1) ne_getblock_P, blast)+, rule ne_cases, drule (1) read_crda_P, blast)

lemma outs_P: "P s \<Longrightarrow> safe1 P (outsb dev n bs s)" "P s \<Longrightarrow> safe1 P (outsw dev n bs s)"
proof (induction n arbitrary: bs s)
  case (Suc n)
  { case 1 then show ?case using Suc.IH(1) by (auto intro!: safe_value ne_fields) }
  { case 2 then show ?case using Suc.IH(2) by (auto intro!: safe_rules ne_fields) }
qed (auto intro!: safe_rules)

lemma crda_wait_P: "P s \<Longrightarrow> safe1 P (crda_wait dev k old s)"
proof (induction k arbitrary: s)
  case (Suc k)
  then show ?case unfolding crda_wait.simps by (intro ne_steps safe_if safe_Inr Suc.IH) simp_all
qed (simp add: safe_Inl)

lemma rdc_wait_P: "P s \<Longrightarrow> safe1 P (rdc_wait dev k s)"
proof (induction k arbitrary: s)
  case (Suc k)
  then show ?case unfolding rdc_wait.simps by (intro ne_steps safe_if safe_Inr Suc.IH) simp_all
qed (simp add: safe_Inl)

lemma ne_rdma_setup_P: "P s \<Longrightarrow> safe1 P (ne_rdma_setup dev k mode a n s)"
  unfolding ne_rdma_setup_def Let_def
  by (intro safe_bind safe_if safe_Inl safe_Inr ne_steps crda_wait_P rdma_regs_P; assumption)

lemma ethwrite_P: "P s \<Longrightarrow> safe P (ethwrite dev k ip p n s)"
  unfolding ethwrite_def ne_pio_write_def ne_start_xmit_def Let_def
  by (intro safe_rules ne_print_P ne_rdma_setup_P outs_P rdc_wait_P ne_fields; assumption)

lemma ethread_P: "P s \<Longrightarrow> safe P (ethread dev buf ip n s)"
proof -
  have get: "P u" if "P t"
    "(if remain < pktsize
      then case ne_getblock dev a1 n1 t of (b1, s) \<Rightarrow>
           case ne_getblock dev (word_of_int (ne_recv_startpage (ne s) * DP_PAGESIZE)) n2 s of (b2, s) \<Rightarrow> (patch b1 m b2, s)
      else ne_getblock dev a1 n3 t) = (b, u)" for t u :: "('d, 'a) nestate_scheme" and remain pktsize :: uint and a1 n1 n2 n3 m b
    using that by (auto split: if_splits prod.splits dest: ne_getblock_P)
  have gets: "safe P (case (if remain < pktsize
      then case ne_getblock dev a1 n1 t of (b1, s) \<Rightarrow>
           case ne_getblock dev (word_of_int (ne_recv_startpage (ne s) * DP_PAGESIZE)) n2 s of (b2, s) \<Rightarrow> (patch b1 m b2, s)
      else ne_getblock dev a1 n3 t) of (b, u) \<Rightarrow> f b u)" if "P t" "\<And>b u. P u \<Longrightarrow> safe P (f b u)"
    for t :: "('d, 'a) nestate_scheme" and remain pktsize :: uint and a1 n1 n2 n3 m f
    by (rule safe_case_pair, rule that(2), erule get [OF that(1)])
  show "P s \<Longrightarrow> ?thesis" unfolding ethread_def ne_pio_read_def Let_def
    by (intro safe_bind safe_if safe_Inl safe_Inr gets ne_steps ne_print_P ne_fields; assumption)
qed

lemma ethioctl_P: "P s \<Longrightarrow> safe P (ethioctl ip rq p s)"
  unfolding ethioctl_def by (intro safe_rules ne_print_P; assumption)

lemma ethintr_P: "P s \<Longrightarrow> safe1 P (ethintr dev k s)"
  unfolding ethintr_def
proof (induction k arbitrary: s)
  case (Suc k)
  then show ?case unfolding ne_interrupt.simps Let_def
    by (intro safe_bind safe_if safe_Inr ne_steps ne_print_P ne_fields Suc.IH) simp_all
qed (simp add: safe_Inl)

end

interpretation kn: nsafe kernel_ok
  by unfold_locales (simp_all add: kernel_ok_def)

section \<open>Traps\<close>

text \<open>The device switch as the kernel fills it: the console and the Ethernet card.\<close>

definition boot_devs :: "'d nicdev \<Rightarrow> nat \<Rightarrow> ('d, 'a) trapstate_scheme devsw_t" where
  "boot_devs dev k =
     \<lparr>dv_read = [CONSOLE \<mapsto> console_read, ETHERNET \<mapsto> ethread dev True],
      dv_write = [CONSOLE \<mapsto> console_write, ETHERNET \<mapsto> ethwrite dev k],
      dv_ioctl = [ETHERNET \<mapsto> ethioctl]\<rparr>"

lemma boot_devs_ok: "devs_ok (boot_devs dev k)"
  by (auto simp: devs_ok_def boot_devs_def devr_safe_def devw_safe_def devi_safe_def
      intro: kf.console_read kf.console_write kn.ethread_P kn.ethwrite_P kn.ethioctl_P split: if_splits)

lemma lapiceoi_ok: "kernel_ok s \<Longrightarrow> kernel_ok (lapiceoi s)"
  by (simp add: lapiceoi_def lapicw_def kernel_ok_def)

lemma timer_tick_ok: "kernel_ok s \<Longrightarrow> safe1 kernel_ok (timer_tick s)" for s :: "('d, 'a) trapstate_scheme"
proof -
  have "kernel_ok t \<Longrightarrow> kernel_ok (t\<lparr>ticks := x\<rparr>)" for t :: "('d, 'a) trapstate_scheme" and x by (simp add: kernel_ok_def)
  then show "kernel_ok s \<Longrightarrow> ?thesis" unfolding timer_tick_def Let_def
    by (intro safe_rules kl.acquire kl.release kf.wakeup; assumption?)
qed

lemma exit_trap_ok: "kernel_ok s \<Longrightarrow> safe kernel_ok (exit_trap im s)"
  unfolding exit_trap_def by (intro safe_rules exit_proc_ok; assumption)

lemma after_syscall_ok: "kernel_ok t \<Longrightarrow> safe kernel_ok (after_syscall im me (x, t))"
  by (cases x) (auto simp: after_syscall_def intro!: safe_rules exit_trap_ok)

lemma handle_syscall_ok:
  fixes s :: "('d, 'a) trapstate_scheme"
  assumes s: "kernel_ok s" and d: "devs_ok dv" and me: "\<And>me. myproc s = Some me \<Longrightarrow> p_state (procs s ! me) \<noteq> UNUSED"
  shows "safe kernel_ok (handle_syscall im dv tf s)"
proof (cases "myproc s")
  case (Some m)
  let ?t = "upd_proc m (\<lambda>p. p\<lparr>p_tf := tf\<rparr>) s"
  have t: "kernel_ok ?t" using s by (rule kernel_ok_quiet) simp_all
  have "p_state (procs ?t ! m) \<noteq> UNUSED" using me [OF Some] kernel_okD(1,8) [OF s] Some by (simp add: upd_proc_def)
  then have "safe kernel_ok (syscall im dv ?t)" using Some by (intro syscall_ok t d) (auto simp: myproc_def upd_proc_def)
  then show ?thesis unfolding handle_syscall_def Some option.case Let_def
    by (intro safe_if exit_trap_ok s safe_then after_syscall_ok)
qed (simp add: handle_syscall_def safe_Inl)

lemma handle_device_interrupt_ok: "kernel_ok s \<Longrightarrow> safe kernel_ok (handle_device_interrupt dev k tf s)" for s :: "('d, 'a) trapstate_scheme"
  unfolding handle_device_interrupt_def Let_def
  by (intro safe_rules timer_tick_ok kf.ideintr kf.kbdintr kf.uartintr kn.ethintr_P kf.cprintf lapiceoi_ok; assumption?)

lemma handle_unexpected_trap_ok: "kernel_ok s \<Longrightarrow> safe1 kernel_ok (handle_unexpected_trap cr2 tf s)" for s :: "('d, 'a) trapstate_scheme"
  unfolding handle_unexpected_trap_def by (intro safe_rules kf.cprintf kernel_ok_quiet) simp_all

lemma yield_ok:
  fixes s :: "'a filestate_scheme"
  assumes s: "kernel_ok s"
  shows "safe kernel_ok (yield_switch s)" "safe1 kernel_ok (yield_resume saved s)"
proof -
  have y: "kernel_ok (upd_proc i (\<lambda>p. p\<lparr>p_state := RUNNABLE\<rparr>) t)" if "kernel_ok t" for t :: "'a filestate_scheme" and i
    using that by (rule kernel_ok_alive) (simp_all add: alive_def waits_def)
  have r: "kernel_ok (sched_resume saved s)" using s by (simp add: sched_resume_def set_cpu_def kernel_ok_fields)
  show "safe kernel_ok (yield_switch s)" unfolding yield_switch_def
    by (intro safe_rules kl.acquire kernel_ok_sched y s; assumption)
  show "safe1 kernel_ok (yield_resume saved s)" unfolding yield_resume_def Let_def by (intro safe_rules kl.release r)
qed

lemma last_check_ok: "kernel_ok s \<Longrightarrow> safe kernel_ok (last_check im tf s)"
  unfolding last_check_def by (intro safe_rules exit_trap_ok)

lemma trap_ok:
  fixes s :: "('d, 'a) trapstate_scheme"
  assumes s: "kernel_ok s" and d: "devs_ok dv" and me: "\<And>me. myproc s = Some me \<Longrightarrow> p_state (procs s ! me) \<noteq> UNUSED"
  shows "safe kernel_ok (trap im dv dev k cr2 tf s)"
  unfolding trap_def
  by (intro safe_rules handle_syscall_ok handle_device_interrupt_ok handle_unexpected_trap_ok exit_trap_ok yield_ok last_check_ok s d me; assumption?)

lemma trap_resume_ok:
  fixes s :: "('d, 'a) trapstate_scheme"
  assumes s: "kernel_ok s"
  shows "safe kernel_ok (trap_resume im tf r s)"
  unfolding trap_resume_def
  by (cases r) (auto split: option.split intro!: safe_rules safe_then [OF syscall_resume_ok] after_syscall_ok yield_ok last_check_ok s)

section \<open>All runs of the kernel\<close>

text \<open>
  One step of the kernel: a process that runs takes a trap; a process continues after \<open>sched\<close>; the scheduler of the CPU takes or
  releases \<open>ptable.lock\<close>, switches to a process that can run, or is back from one; another CPU goes on.
\<close>

inductive kernel_step :: "kimage \<Rightarrow> 'd nicdev \<Rightarrow> nat \<Rightarrow> ('d, 'a) trapstate_scheme \<Rightarrow> ('d, 'a) trapstate_scheme \<Rightarrow> bool"
  for im dev k where
  k_trap: "myproc s = Some me \<Longrightarrow> p_state (procs s ! me) = RUNNING \<Longrightarrow> trap im (boot_devs dev k) dev k cr2 tf s = Inr (r, t) \<Longrightarrow> kernel_step im dev k s t"
| k_idle_trap: "myproc s = None \<Longrightarrow> trap im (boot_devs dev k) dev k cr2 tf s = Inr (r, t) \<Longrightarrow> kernel_step im dev k s t"
| k_resume: "trap_resume im tf r s = Inr (r', t) \<Longrightarrow> kernel_step im dev k s t"
| k_forkret: "forkret s = Inr t \<Longrightarrow> kernel_step im dev k s t"
| k_lock: "acquire L_ptable (sti s) = Inr t \<Longrightarrow> kernel_step im dev k s t"
| k_switch: "i < length (procs s) \<Longrightarrow> p_state (procs s ! i) = RUNNABLE \<Longrightarrow> scheduler_switch (im_ts im) i s = Inr t \<Longrightarrow> kernel_step im dev k s t"
| k_back: "kernel_step im dev k s (scheduler_return s)"
| k_unlock: "release L_ptable s = Inr t \<Longrightarrow> kernel_step im dev k s t"
| k_cpu: "kernel_step im dev k s (on c s)"

lemma kernel_ok_myproc: "kernel_ok s \<Longrightarrow> (\<And>i. p = Some i \<Longrightarrow> i < NPROC) \<Longrightarrow> kernel_ok (set_myproc p s)"
  by (auto simp: kernel_ok_def set_myproc_def)

lemma kernel_step_ok: "kernel_step im dev k s t \<Longrightarrow> kernel_ok s \<Longrightarrow> kernel_ok t"
proof (induction rule: kernel_step.induct)
  case (k_trap s me cr2 tf r t)
  show ?case by (rule safeD(1) [OF trap_ok [OF k_trap(4) boot_devs_ok] k_trap(3)]) (use k_trap(1,2) in simp)
next
  case (k_idle_trap s cr2 tf r t)
  show ?case by (rule safeD(1) [OF trap_ok [OF k_idle_trap(3) boot_devs_ok] k_idle_trap(2)]) (use k_idle_trap(1) in simp)
next
  case (k_resume tf r s r' t)
  show ?case by (rule safeD(1) [OF trap_resume_ok [OF k_resume(2)] k_resume(1)])
next
  case (k_forkret s t)
  have "safe1 kernel_ok (forkret s)" unfolding forkret_def by (intro safe_rules kl.release k_forkret)
  then show ?case using k_forkret(1) by (rule safeD(2))
next
  case (k_lock s t)
  have "kernel_ok (sti s)" using k_lock(2) by (simp add: sti_def set_cpu_def kernel_ok_fields)
  then show ?case by (rule safeD(2) [OF kl.acquire k_lock(1)])
next
  case (k_switch i s t)
  have "kernel_ok (set_myproc (Some i) s)" using k_switch kernel_okD(1) [of s] by (intro kernel_ok_myproc) auto
  then have "safe1 kernel_ok (scheduler_switch (im_ts im) i s)" unfolding scheduler_switch_def Let_def
    by (intro safe_rules switchuvm_ok kernel_ok_alive) (simp_all add: alive_def waits_def)
  then show ?case using k_switch(3) by (rule safeD(2))
next
  case (k_back s)
  then show ?case unfolding scheduler_return_def switchkvm_def lcr3_def by (intro kernel_ok_myproc kernel_ok_vm) simp_all
next
  case (k_unlock s t)
  show ?case by (rule safeD(2) [OF kl.release [OF k_unlock(2)] k_unlock(1)])
next
  case (k_cpu s c)
  then show ?case by (simp add: kernel_ok_def on_def)
qed

lemma kernel_run_ok: "(kernel_step im dev k)\<^sup>*\<^sup>* s t \<Longrightarrow> kernel_ok s \<Longrightarrow> kernel_ok t"
  by (induction rule: rtranclp_induct) (simp_all add: kernel_step_ok)

end
