(* ===== verification/KernelRun.thy ===== *)
theory KernelRun
  imports CallsOk NeOk
begin

text \<open>
  What the invariant of the tables says about all runs of the kernel, on all CPUs.
\<close>



section \<open>Examples\<close>

text \<open>The first process waits for its child, which calls \<open>getpid\<close>, with a trap frame at 0x1000.\<close>

definition family_kernel :: "unit trapstate" where
  "family_kernel = (boot_kernel ((\<lambda>_. 0)(0x1000 + TF_trapno := 64, 0x1000 + TF_eax := 18)) ne_zero)
     \<lparr>procs := unused_proc\<lparr>p_state := SLEEPING, p_chan := Some (Chan ''proc'' 0), p_pid := 1\<rparr> #
        unused_proc\<lparr>p_state := RUNNING, p_parent := Some 0, p_pid := 2\<rparr> # replicate 62 unused_proc,
      curproc := [0 \<mapsto> 1], initproc := Some 0,
      ftable := replicate NFILE \<lparr>f_type = FD_NONE, f_ref = 0, f_readable = False, f_writable = False, f_pipe = 0, f_ip = None, f_off = 0\<rparr>\<rparr>"

definition some_image :: kimage where
  "some_image = \<lparr>im_data = 0, im_end = 0, im_trapret = 0, im_forkret = 0, im_ts = (\<lambda>_. 0), im_initcode = []\<rparr>"

lemma family_kernel_procs:
  "procs family_kernel ! 0 = unused_proc\<lparr>p_state := SLEEPING, p_chan := Some (Chan ''proc'' 0), p_pid := 1\<rparr>"
  "procs family_kernel ! Suc 0 = unused_proc\<lparr>p_state := RUNNING, p_parent := Some 0, p_pid := 2\<rparr>"
  "length (procs family_kernel) = NPROC" "i < NPROC \<Longrightarrow> i \<noteq> 0 \<Longrightarrow> i \<noteq> 1 \<Longrightarrow> procs family_kernel ! i = unused_proc"
  by (simp_all add: family_kernel_def NPROC_def nth_Cons')

lemma family_kernel_ok: "kernel_ok family_kernel"
proof -
  note p = family_kernel_procs
  have c: "procs family_kernel ! i = unused_proc \<or> i = 0 \<or> i = 1" if "i < NPROC" for i using p(4) that by blast
  have u: "p_state unused_proc = UNUSED" "p_parent unused_proc = None" "length (p_ofile unused_proc) = NOFILE"
    "Some f \<notin> set (p_ofile unused_proc)" "p_cwd unused_proc = None" for f
    by (simp_all add: unused_proc_def)
  have "family_ok (Some 0) (procs family_kernel)" unfolding family_ok_def p(3)
  proof (intro conjI allI impI)
    fix i assume "i < NPROC" then show "p_parent (procs family_kernel ! i) \<noteq> Some i" using c [of i] by (auto simp: p(1,2) u)
  next
    fix i j assume "i < NPROC" "j < NPROC" "p_state (procs family_kernel ! j) = ZOMBIE \<and> p_parent (procs family_kernel ! j) = Some i"
    then show "\<not> waits i (procs family_kernel ! i)" using c [of j] by (auto simp: p(1,2) u)
  qed (use p(1) u in \<open>simp_all add: alive_def\<close>)
  moreover have "proc_ok (procs family_kernel ! i)" if "i < NPROC" for i
    using c [OF that] by (auto simp: proc_ok_def p(1,2) u NPROC_def)
  ultimately show ?thesis
    by (auto simp: kernel_ok_def list_all_length p(3))
      (auto simp: family_kernel_def boot_kernel_def boot_ext_def NPROC_def split: if_splits)
qed

lemma family_kernel_mem: "load32 (pmem family_kernel) (0x1000 + TF_trapno) = 64" "load32 (pmem family_kernel) (0x1000 + TF_eax) = 18"
  by (simp_all add: family_kernel_def boot_kernel_def boot_ext_def TF_trapno_def TF_eax_def load32_def get32_def)

lemma family_kernel_trap:
  "trap some_image (boot_devs silent_card 1) silent_card 1 0 0x1000 family_kernel =
    Inr (T_ret, tf_put 1 TF_eax 2 (upd_proc 1 (\<lambda>p. p\<lparr>p_tf := 0x1000\<rparr>) family_kernel))"
proof -
  let ?t = "upd_proc 1 (\<lambda>p. p\<lparr>p_tf := 0x1000\<rparr>) family_kernel"
  have m: "myproc family_kernel = Some 1" by (simp add: family_kernel_def boot_kernel_def boot_ext_def myproc_def)
  have p: "procs ?t ! 1 = unused_proc\<lparr>p_state := RUNNING, p_parent := Some 0, p_pid := 2, p_tf := 0x1000\<rparr>"
    using family_kernel_procs(2,3) by (simp add: upd_proc_def NPROC_def)
  have "tf_get 1 TF_eax ?t = 18" using p family_kernel_mem(2) by (simp add: tf_get_def upd_proc_def)
  then have "syscall some_image dv ?t = Inr (SRet 2, tf_put 1 TF_eax 2 ?t)" for dv
    using m p by (simp add: syscall_def syscalls_def as_int_def sys_getpid_def ret_def set_eax_def upd_proc_frame myproc_def)
  then show ?thesis using m p family_kernel_mem(1) family_kernel_procs(2)
    by (simp add: trap_def trapno_def tfield_def T_SYSCALL_def handle_syscall_def after_syscall_def tf_put_def unused_proc_def)
qed

lemma family_kernel_step:
  "kernel_step some_image silent_card 1 family_kernel (tf_put 1 TF_eax 2 (upd_proc 1 (\<lambda>p. p\<lparr>p_tf := 0x1000\<rparr>) family_kernel))"
  by (rule k_trap [OF _ _ family_kernel_trap, where me = 1])
    (simp_all add: family_kernel_procs, simp add: family_kernel_def boot_kernel_def boot_ext_def myproc_def)



end
