(* ===== verification/BootOk.thy ===== *)
theory BootOk
  imports KernelRun
begin

unbundle bit_operations_syntax

text \<open>
  The start of the kernel establishes the invariant of its tables: \<open>main\<close> and \<open>mainc\<close> take the zeroed tables of the loaded
  image to a state with \<open>kernel_ok\<close> and the device switch with console and Ethernet card.
\<close>

section \<open>Routines that leave the tables alone\<close>

definition tables :: "'a filestate_scheme \<Rightarrow> proc list \<times> nat option \<times> (nat \<Rightarrow> nat option) \<times> ofile list \<times> nat \<times> nat" where
  "tables s = (procs s, initproc s, curproc s, ftable s, length (inodes s), length (bufs s))"

lemma tables_fields [simp]:
  "tables (s\<lparr>cpus := a\<rparr>) = tables s" "tables (s\<lparr>locks := b\<rparr>) = tables s" "tables (s\<lparr>pmem := c\<rparr>) = tables s"
  "tables (outb p v s) = tables s" "tables (uartputc k u) = tables u" "tables (initlock l nm s) = tables s" "tables (upd_buf i f s) = tables s"
  by (simp_all add: tables_def outb_def uartputc_def initlock_def upd_buf_def)

lemma tables_irq [simp]:
  "tables (picsetmask m s) = tables s" "tables (picenable irq s) = tables s" "tables (ioapicwrite r v s) = tables s"
  "tables (ioapicenable irq c s) = tables s"
  by (simp_all add: picenable_def picsetmask_def ioapicenable_def Let_def) (simp_all add: tables_def ioapicwrite_def outb_def)

lemma tables_ioapic [simp]: "tables (ioapicinit_loop n i s) = tables s"
  by (induction n arbitrary: i s) (simp_all add: Let_def)

lemma tables_binit [simp]: "tables (binit_loop n b s) = tables s"
  by (induction n arbitrary: b s) (simp_all add: Let_def)

lemma tables_devices [simp]:
  "tables (picinit s) = tables s" "tables (ioapicinit s) = tables s" "tables (timerinit s) = tables s"
  "tables (pinit s) = tables s" "tables (binit s) = tables s" "tables (fileinit s) = tables s" "tables (iinit s) = tables s"
  by (simp_all add: picinit_def ioapicinit_def timerinit_def pinit_def binit_def fileinit_def iinit_def Let_def)

lemma tables_console [simp]:
  "tables (snd (consoleinit d s)) = tables s" "tables (uartinit b s) = tables s" "tables (tvinit v t) = tables t" "tables (idtinit t) = tables t"
proof -
  have f: "tables (u\<lparr>cons_locking := x\<rparr>) = tables u" "tables (u\<lparr>uart := x\<rparr>) = tables u" "tables (u\<lparr>uart_rx := y\<rparr>) = tables u"
    for u :: "'a consstate_scheme" and x y by (simp_all add: tables_def)
  show "tables (snd (consoleinit d s)) = tables s" by (simp add: consoleinit_def Let_def f)
  show "tables (uartinit b s) = tables s" by (simp add: uartinit_def Let_def f)
  have "tables (u\<lparr>idt := x\<rparr>) = tables u" "tables (u\<lparr>idtr := y\<rparr>) = tables u" for u :: "('b, 'c) trapstate_scheme" and x y by (simp_all add: tables_def)
  then show "tables (tvinit v t) = tables t" "tables (idtinit t) = tables t" by (simp_all add: tvinit_def idtinit_def Let_def)
qed

section \<open>Predicates on the tables\<close>

text \<open>\<open>fresh\<close> is the state before \<open>userinit\<close>: there is no first process and nobody has a parent.\<close>

definition lone :: "'a ptab_scheme \<Rightarrow> bool" where
  "lone s \<longleftrightarrow> initproc s = None \<and> list_all (\<lambda>x. p_parent x = None) (procs s)"

definition fresh :: "'a filestate_scheme \<Rightarrow> bool" where
  "fresh s \<longleftrightarrow> kernel_ok s \<and> lone s"

lemma kernel_ok_tables: "kernel_ok s \<Longrightarrow> tables t = tables s \<Longrightarrow> kernel_ok t"
  by (simp add: kernel_ok_def tables_def)

lemma fresh_tables: "fresh s \<Longrightarrow> tables t = tables s \<Longrightarrow> fresh t"
  using kernel_ok_tables [of s t] by (simp add: fresh_def lone_def tables_def)

lemma lone_upd: "lone s \<Longrightarrow> (\<And>x. p_parent (f x) = p_parent x) \<Longrightarrow> lone (upd_proc i f s)"
  by (cases "i < length (procs s)") (auto simp: lone_def upd_proc_def list_all_length nth_list_update list_update_beyond)

interpretation lo: lsafe lone
  by unfold_locales (simp_all add: lone_def)

lemma lone_sleep:
  assumes "lone s"
  shows "safe lone (sleep_switch ch l s)" "safe1 lone (sleep_resume l' saved s)"
proof -
  have r: "lone (sched_resume saved s)" using assms by (simp add: sched_resume_def set_cpu_def lo.P_cpus)
  show "safe lone (sleep_switch ch l s)" unfolding sleep_switch_def sched_def Let_def
    by (intro safe_rules lo.acquire lo.release lone_upd assms) simp_all
  show "safe1 lone (sleep_resume l' saved s)" unfolding sleep_resume_def Let_def
    by (intro safe_rules lo.acquire lo.release lone_upd r) simp_all
qed

lemma lone_wakeup1: "lone s \<Longrightarrow> lone (wakeup1 ch s)"
  by (auto simp: lone_def wakeup1_def list_all_iff wake_def)

lemma safe_both: "safe P r \<Longrightarrow> safe Q r \<Longrightarrow> safe (\<lambda>s. P s \<and> Q s) r" "safe1 P q \<Longrightarrow> safe1 Q q \<Longrightarrow> safe1 (\<lambda>s. P s \<and> Q s) q"
  by (simp_all add: safe_def safe1_def)

lemma fresh_eq: "fresh = (\<lambda>s. kernel_ok s \<and> lone s)"
  by (auto simp: fresh_def)

lemma fresh_rules:
  fixes s :: "'a consstate_scheme"
  assumes "fresh s"
  shows "plain_chan ch \<Longrightarrow> safe fresh (sleep_switch ch l s)" "safe1 fresh (sleep_resume l' saved s)"
    "(\<And>x. f_ip (g x) = f_ip x) \<Longrightarrow> fresh (upd_file f g s)" "fresh (wakeup1 ch s)"
proof -
  have k: "kernel_ok s" and l: "lone s" using assms by (simp_all add: fresh_def)
  show "plain_chan ch \<Longrightarrow> safe fresh (sleep_switch ch l s)"
    unfolding fresh_eq by (intro safe_both kf.P_sleep lone_sleep k l)
  show "safe1 fresh (sleep_resume l' saved s)"
    unfolding fresh_eq by (intro safe_both kernel_ok_unsleep lone_sleep k l)
  show "(\<And>x. f_ip (g x) = f_ip x) \<Longrightarrow> fresh (upd_file f g s)"
    using l kernel_ok_file [OF k, of g f] by (simp add: fresh_def lone_def upd_file_def)
  show "fresh (wakeup1 ch s)" by (simp add: fresh_def kernel_ok_wakeup1 lone_wakeup1 k l)
qed

interpretation fr: nsafe fresh
  by (unfold_locales; (simp add: fresh_rules; fail | rule fresh_tables, assumption, simp add: tables_def upd_buf_def upd_inode_def relink_def Let_def))

section \<open>Finding the card\<close>

context nsafe
begin

lemma reset_wait_P: "P s \<Longrightarrow> reset_wait dev k s = (b, t) \<Longrightarrow> P t"
  by (induction k arbitrary: s) (auto split: prod.splits if_splits dest: nin_P)

lemma write_sequence_P: "P s \<Longrightarrow> P (write_sequence dev sq s)"
  unfolding write_sequence_def by (induction sq arbitrary: s) (auto simp: ne_fields)

lemma print_mac_P: "P s \<Longrightarrow> safe1 P (print_mac k i s)"
proof (induction k arbitrary: i s)
  case (Suc k)
  show ?case unfolding print_mac.simps by (intro safe_rules cprintf Suc)
qed (simp add: safe_Inr)

lemma init_steps:
  "P s \<Longrightarrow> (\<And>b t. P t \<Longrightarrow> safe P (f b t)) \<Longrightarrow> safe P (case reset_wait dev k s of (b, t) \<Rightarrow> f b t)"
  "P s \<Longrightarrow> (\<And>b t. P t \<Longrightarrow> safe P (g b t)) \<Longrightarrow> safe P (case insb dev n s of (b, t) \<Rightarrow> g b t)"
  by (rule ne_cases, drule (1) reset_wait_P, blast) (rule ne_cases, drule (1) insb_P, blast)

lemma snd_nin_P: "P s \<Longrightarrow> P (snd (nin dev off s))"
  using nin_P by (metis prod.collapse)

lemma ne_probe_P: "P s \<Longrightarrow> safe P (ne_probe dev s)"
  unfolding ne_probe_def Let_def
  by (intro safe_bind safe_if safe_Inl safe_Inr init_steps ne_steps ne_print_P ne_fields write_sequence_P snd_nin_P; assumption)

lemma ne_init_P: "P s \<Longrightarrow> safe1 P (ne_init dev s)"
  unfolding ne_init_def Let_def by (intro safe_rules cprintf print_mac_P write_sequence_P ne_fields; assumption?)

end

lemma eth_probe_ports_fresh: "fresh s \<Longrightarrow> safe1 fresh (eth_probe_ports dev i ps s)"
proof (induction ps arbitrary: i s)
  case (Cons p ps)
  have e: "fresh (ioapicenable a b (picenable c t))" if "fresh t" for a b c and t :: "('a, 'b) nestate_scheme"
    by (rule fresh_tables [OF that]) simp
  show ?case unfolding eth_probe_ports.simps Let_def
    by (intro safe_rules safe_value [where r = "strncpy a b c" for a b c] fr.ne_print_P fr.ne_probe_P fr.ne_init_P fr.ne_fields e Cons)
qed (simp add: safe_Inr)

section \<open>The first process\<close>

text \<open>The slot that \<open>userinit\<close> fills.\<close>

definition infant :: "nat \<Rightarrow> 'a filestate_scheme \<Rightarrow> bool" where
  "infant p t \<longleftrightarrow> fresh t \<and> p < NPROC \<and> p_state (procs t ! p) = EMBRYO"

interpretation inf: ksafe "infant p" for p
  by unfold_locales (auto simp: infant_def intro: fresh_tables simp: tables_def)

lemma infant_quiet:
  assumes "infant p s" and "\<And>x. p_ofile (f x) = p_ofile x \<and> p_cwd (f x) = p_cwd x \<and> p_parent (f x) = p_parent x"
    and "\<And>x. p_state (f x) = p_state x \<and> p_chan (f x) = p_chan x"
  shows "infant p (upd_proc j f s)"
proof -
  have "kernel_ok (upd_proc j f s)" using assms by (intro kernel_ok_quiet) (auto simp: infant_def fresh_def)
  moreover have "lone (upd_proc j f s)" using assms by (intro lone_upd) (auto simp: infant_def fresh_def)
  moreover have "p_state (procs (upd_proc j f s) ! p) = p_state (procs s ! p)"
    using assms(3) by (cases "j < length (procs s)") (auto simp: upd_proc_def nth_list_update list_update_beyond)
  ultimately show ?thesis using assms(1) by (simp add: infant_def fresh_def)
qed

lemma allocproc_fresh:
  assumes s: "fresh s"
  shows "post (\<lambda>po t. \<forall>p. po = Some p \<longrightarrow> infant p t) (allocproc trapret fk s)"
  unfolding allocproc_def
proof (rule post_bind(2) [where P = fresh])
  show "safe1 fresh (acquire L_ptable s)"
    using kl.acquire lo.acquire s unfolding fresh_eq by (blast intro: safe_both)
  fix t :: "'a filestate_scheme"
  assume t: "fresh t"
  let ?Q = "\<lambda>po t. \<forall>p. po = Some p \<longrightarrow> infant p t"
  show "post ?Q (case scan_procs (\<lambda>p. p_state p = UNUSED) 0 (procs t) of
       None \<Rightarrow> andThen (release L_ptable t) (\<lambda>s. Inr (None, s))
     | Some i \<Rightarrow>
         if nextpid t = int_max then Inl (Wild ''nextpid overflow'')
         else
           let s = upd_proc i (\<lambda>p. p\<lparr>p_state := EMBRYO\<rparr>) t;
               s = upd_proc i (\<lambda>p. p\<lparr>p_pid := nextpid s\<rparr>) s;
               s = s\<lparr>nextpid := nextpid s + 1\<rparr>
           in andThen (release L_ptable s) (\<lambda>s.
              andThen (kalloc s) (\<lambda>(k, s).
              let s = upd_proc i (\<lambda>p. p\<lparr>p_kstack := k\<rparr>) s in
              if k = 0 then Inr (None, upd_proc i (\<lambda>p. p\<lparr>p_state := UNUSED\<rparr>) s)
              else Inr (Some i, setup_kstack trapret fk i k s))))"
  proof (cases "scan_procs (\<lambda>p. p_state p = UNUSED) 0 (procs t)")
    case None
    have "post ?Q (andThen (release L_ptable t) (\<lambda>s. Inr (None, s)))" by (cases "release L_ptable t") (simp_all add: post_def)
    then show ?thesis using None by simp
  next
    case (Some i)
    have k: "kernel_ok t" "lone t" using t by (simp_all add: fresh_def)
    have i: "i < NPROC" using scan_procs_Some [OF Some] kernel_okD(1) [OF k(1)] by simp
    define u where "u = upd_proc i (\<lambda>p. p\<lparr>p_state := EMBRYO\<rparr>) t"
    have "kernel_ok u" unfolding u_def by (intro kernel_ok_alive k) (simp_all add: alive_def waits_def)
    moreover have "lone u" unfolding u_def by (intro lone_upd k) simp
    ultimately have u: "infant i u" using i kernel_okD(1) [OF k(1)] by (simp add: infant_def fresh_def u_def upd_proc_def)
    have pid: "infant i (w\<lparr>nextpid := n\<rparr>)" if "infant i w" for w :: "'a filestate_scheme" and n
      using that fresh_tables [of w "w\<lparr>nextpid := n\<rparr>"] by (simp add: infant_def tables_def)
    have st: "infant i (setup_kstack trapret fk i k w)" if "infant i w" for w :: "'a filestate_scheme" and k
      unfolding setup_kstack_def Let_def by (intro inf.P_pmem infant_quiet that) simp_all
    have "post ?Q (andThen (release L_ptable ((upd_proc i (\<lambda>p. p\<lparr>p_pid := nextpid u\<rparr>) u)\<lparr>nextpid := nextpid t + 1\<rparr>)) (\<lambda>s.
        andThen (kalloc s) (\<lambda>(k, s).
        let s = upd_proc i (\<lambda>p. p\<lparr>p_kstack := k\<rparr>) s in
        if k = 0 then Inr (None, upd_proc i (\<lambda>p. p\<lparr>p_state := UNUSED\<rparr>) s)
        else Inr (Some i, setup_kstack trapret fk i k s))))"
      unfolding Let_def
      by (intro post_bind [where P = "infant i"] inf.release inf.kalloc pid infant_quiet u post_rules) (simp_all add: st infant_quiet)
    then show ?thesis using Some by (simp add: post_rules u_def Let_def upd_proc_def)
  qed
qed

lemma infant_first: "infant p t \<Longrightarrow> kernel_ok (t\<lparr>initproc := Some p\<rparr>)"
proof -
  assume a: "infant p t"
  then have k: "kernel_ok t" and l: "lone t" and p: "p < NPROC" and e: "p_state (procs t ! p) = EMBRYO" by (simp_all add: infant_def fresh_def)
  have "p_parent (procs t ! p) = None" using l p kernel_okD(1) [OF k] by (simp add: lone_def list_all_length)
  then show ?thesis using k p e by (simp add: kernel_ok_def family_ok_def alive_def)
qed

lemma safe1_post: "post R r \<Longrightarrow> (\<And>x t. R x t \<Longrightarrow> safe1 P (f x t)) \<Longrightarrow> safe1 P (andThen r (\<lambda>(x, t). f x t))"
  by (cases r) (auto simp: safe1_def post_def)

lemma userinit_ok:
  fixes s :: "'a consstate_scheme"
  assumes "fresh s"
  shows "safe1 kernel_ok (userinit im s)"
proof -
  have t16: "kernel_ok u \<Longrightarrow> kernel_ok (tf_put16 i a v u)" for u :: "'a consstate_scheme" and i a v by (simp add: tf_put16_def kernel_ok_fields)
  have cwd: "safe1 kernel_ok (andThen (namei path u) (\<lambda>(ip, s).
      Inr (upd_proc p (\<lambda>x. x\<lparr>p_state := RUNNABLE\<rparr>) (upd_proc p (\<lambda>x. x\<lparr>p_cwd := ip\<rparr>) s))))" if "kernel_ok u" for u :: "'a consstate_scheme" and p path
    by (rule safe_bind_gives(2) [OF kf.namei [OF that] namei_index [OF that]])
      (intro safe_Inr kernel_ok_alive kernel_ok_files; auto simp: proc_ok_def opt_in_def alive_def waits_def)
  note steps = safe_bind safe_if safe_Inl safe_value [where r = "safestrcpy a b c" for a b c] kf.setupkvm kf.inituvm cwd
    kernel_ok_quiet kernel_ok_fields(3) tf_put_ok t16 infant_first
  have rest: "safe1 kernel_ok (case po of None \<Rightarrow> Inl (Wild ''userinit'')
     | Some p \<Rightarrow>
         andThen (setupkvm (im_data im) (t\<lparr>initproc := po\<rparr>)) (\<lambda>(d, s).
         let s = upd_proc p (\<lambda>x. x\<lparr>p_pgdir := d\<rparr>) s in
         if d = 0 then Inl (Panic ''userinit: out of memory?'')
         else
           andThen (inituvm d (im_initcode im) (of_nat (length (im_initcode im))) s) (\<lambda>s.
           let s = upd_proc p (\<lambda>x. x\<lparr>p_sz := PGSIZE\<rparr>) s;
               s = s\<lparr>pmem := memset (pmem s) (p_tf (procs s ! p)) 0 TF_size\<rparr>;
               ucode = push_bit 3 (of_nat SEG_UCODE) OR 3;
               udata = push_bit 3 (of_nat SEG_UDATA) OR 3;
               s = tf_put16 p TF_cs ucode s;
               s = tf_put16 p TF_ds udata s;
               s = tf_put16 p TF_es udata s;
               s = tf_put16 p TF_ss udata s;
               s = tf_put p TF_eflags FL_IF s;
               s = tf_put p TF_esp PGSIZE s;
               s = tf_put p TF_eip 0 s
           in andThen (safestrcpy (p_name (procs s ! p)) (lit ''initcode'') 16) (\<lambda>nm.
              let s = upd_proc p (\<lambda>x. x\<lparr>p_name := nm\<rparr>) s in
              andThen (namei (lit ''/'') s) (\<lambda>(ip, s).
              let s = upd_proc p (\<lambda>x. x\<lparr>p_cwd := ip\<rparr>) s
              in Inr (upd_proc p (\<lambda>x. x\<lparr>p_state := RUNNABLE\<rparr>) s))))))"
    if "\<forall>p. po = Some p \<longrightarrow> infant p t" for po and t :: "'a consstate_scheme"
  proof (cases po)
    case (Some p)
    then have "infant p t" using that by simp
    then show ?thesis unfolding Some option.case Let_def by (intro steps) simp_all
  qed (simp add: safe_Inl)
  show ?thesis unfolding userinit_def
    by (rule safe1_post [OF allocproc_fresh [OF assms]]) (unfold Let_def, rule rest [unfolded Let_def])
qed

section \<open>Starting the CPUs\<close>

text \<open>A property of the tables that also holds when the CPU has no process.\<close>

locale bsafe = nsafe P for P :: "('d, 'a) trapstate_scheme \<Rightarrow> bool" +
  assumes P_tables: "P s \<Longrightarrow> tables t = tables s \<Longrightarrow> P t"
    and P_idle: "P s \<Longrightarrow> P (set_myproc None s)"
begin

lemma apic_P:
  assumes "P s"
  shows "P (lapicw i v s)" "P (lapicstartap a b s)" "P (s\<lparr>cpunum_n := n\<rparr>)" "P (vmenable s)" "P (seginit f s)"
proof -
  show "P (seginit f s)" unfolding seginit_def Let_def by (intro P_idle P_tables [OF assms]) (simp add: tables_def set_seg_def)
qed (rule P_tables [OF assms], simp add: tables_def lapicw_def lapicstartap_def microdelay_def outb_def vmenable_def switchkvm_def lcr3_def Let_def)+

lemma lapicinit_P: "P s \<Longrightarrow> safe1 P (lapicinit k lr c s)"
proof -
  have w: "P t \<Longrightarrow> safe1 P (icr_wait k n lr t)" for t k n
    by (induction k arbitrary: n) (auto intro: safe_rules)
  show "P s \<Longrightarrow> ?thesis" unfolding lapicinit_def Let_def
    by (intro safe_rules cprintf w apic_P) (simp_all add: apic_P)
qed

lemma cpunum_P: "P s \<Longrightarrow> safe P (cpunum lr ra s)"
  unfolding cpunum_def Let_def by (intro safe_rules cprintf apic_P; assumption?)

lemma bootothers_P: "P s \<Longrightarrow> safe1 P (bootothers bd s)"
proof -
  have "P t \<Longrightarrow> safe1 P (bootothers_loop bd k c t)" for t k c
  proof (induction k arbitrary: c t)
    case (Suc k)
    show ?case unfolding bootothers_loop.simps boot_cpu_def Let_def
      by (intro safe_rules cpunum_P kalloc apic_P P_pmem Suc)
  qed (simp add: safe_Inr)
  then show "P s \<Longrightarrow> ?thesis" by (simp add: bootothers_def P_pmem)
qed

lemma mpmain_P: "P s \<Longrightarrow> safe1 P (mpmain bd s)"
proof -
  have b: "P t \<Longrightarrow> P ((idtinit t)\<lparr>booted := x\<rparr>)" for t x by (erule P_tables) (simp add: tables_def idtinit_def)
  show "P s \<Longrightarrow> ?thesis" unfolding mpmain_def Let_def
    by (intro safe_rules cpunum_P lapicinit_P cprintf apic_P b; assumption?)
qed

lemma mpinit_P: "P s \<Longrightarrow> safe1 P (mpinit k imcr s)"
proof -
  have f: "P (t\<lparr>ismp := a\<rparr>)" "P (t\<lparr>ncpu := b\<rparr>)" "P (t\<lparr>bcpu := c\<rparr>)" "P (t\<lparr>ioapicid := d\<rparr>)" "P (t\<lparr>lapic := e\<rparr>)" if "P t" for t a b c d e
    by (rule P_tables [OF that], simp add: tables_def)+
  have "P t \<Longrightarrow> safe1 P (mpinit_loop k p e t)" for t k p e
  proof (induction k arbitrary: p t)
    case (Suc k)
    show ?case unfolding mpinit_loop.simps Let_def by (intro safe_rules cprintf Suc f) (simp_all add: f Suc.prems)
  qed (simp add: safe_Inl)
  then show "P s \<Longrightarrow> ?thesis" unfolding mpinit_def Let_def by (intro safe_rules outb f) (simp_all add: f)
qed

lemma main_P: "P s \<Longrightarrow> safe P (main bd s)"
proof -
  have k: "P t \<Longrightarrow> safe1 P (kinit_loop kend p t)" for kend p t
  proof (induction kend p t rule: kinit_loop.induct)
    case (1 kend p s)
    then show ?case using kfree [OF 1(2), of kend p] by (subst kinit_loop.simps) (cases "kfree kend p s"; auto simp: safe1_def)
  qed
  show "P s \<Longrightarrow> ?thesis" unfolding main_def kinit_def jmpkstack_def Let_def
    by (intro safe_rules mpinit_P lapicinit_P kalloc k initlock apic_P; assumption?)
qed

end

interpretation kb: bsafe kernel_ok
  by unfold_locales (auto intro: kernel_ok_tables kernel_ok_myproc)

interpretation fb: bsafe fresh
proof unfold_locales
  show "fresh s \<Longrightarrow> fresh (set_myproc None s)" for s :: "('a, 'b) trapstate_scheme"
    using kernel_ok_myproc [of s None] by (simp add: fresh_def lone_def set_myproc_def)
qed (rule fresh_tables)

section \<open>main and mainc\<close>

lemma ideinit_fresh: "fresh s \<Longrightarrow> safe1 fresh (ideinit s)"
proof -
  have t: "tables (u\<lparr>havedisk1 := x\<rparr>) = tables u" for u :: "'a filestate_scheme" and x by (simp add: tables_def)
  show "fresh s \<Longrightarrow> ?thesis" unfolding ideinit_def Let_def
    by (intro safe_value safe_Inr, erule fresh_tables) (simp add: t)
qed

lemma consoleinit_devs:
  "consoleinit d s = (((fst d)(CONSOLE := Some console_read), (snd d)(CONSOLE := Some console_write)), snd (consoleinit d s))"
  by (simp add: consoleinit_def Let_def)

lemma post_then: "post R r \<Longrightarrow> (\<And>x t. R x t \<Longrightarrow> post Q (f x t)) \<Longrightarrow> post Q (andThen r (\<lambda>(x, t). f x t))"
  by (cases r) (auto simp: post_def)

lemma ethinit_post:
  assumes "fresh s"
  shows "post (\<lambda>dv t. fresh t \<and> dv = \<lparr>dv_read = (dv_read d)(ETHERNET := Some (ethread dev True)),
     dv_write = (dv_write d)(ETHERNET := Some (ethwrite dev k)), dv_ioctl = (dv_ioctl d)(ETHERNET := Some ethioctl)\<rparr>) (ethinit dev k d s)"
  unfolding ethinit_def Let_def by (rule post_bind(2) [OF eth_probe_ports_fresh [OF assms]]) (simp add: post_rules)

lemma kvmalloc_fresh: "fresh s \<Longrightarrow> safe1 fresh (kvmalloc kdata s)" for s :: "('d, 'a) nestate_scheme"
proof -
  have k: "fresh t \<Longrightarrow> fresh (t\<lparr>kpgdir := d\<rparr>)" for t :: "('d, 'a) nestate_scheme" and d by (erule fresh_tables) (simp add: tables_def)
  show "fresh s \<Longrightarrow> ?thesis" unfolding kvmalloc_def by (intro safe_rules fr.setupkvm k)
qed

lemma mainc_post:
  assumes s: "fresh s"
  shows "post (\<lambda>dv t. kernel_ok t \<and> dv = boot_devs (bd_nic bd) (bd_polls bd))
    (mainc bd \<lparr>dv_read = Map.empty, dv_write = Map.empty, dv_ioctl = Map.empty\<rparr> s)"
proof -
  have same: "fresh (uartinit b (snd (consoleinit d (ioapicinit (picinit t)))))" if "fresh t" for t :: "('a, 'b) trapstate_scheme" and b d
    by (rule fresh_tables [OF that]) simp
  have tabs: "fresh (iinit (fileinit (binit (tvinit v (pinit t)))))" "fresh (if c then timerinit t else t)"
    if "fresh t" for t :: "('a, 'b) trapstate_scheme" and v c
    using fresh_tables [OF that, of "iinit (fileinit (binit (tvinit v (pinit t))))"] fresh_tables [OF that, of "timerinit t"] that by simp_all
  have eth: "post (\<lambda>dv t. kernel_ok t \<and> dv = boot_devs (bd_nic bd) (bd_polls bd))
      (andThen (ethinit (bd_nic bd) (bd_polls bd) \<lparr>dv_read = [CONSOLE \<mapsto> console_read], dv_write = [CONSOLE \<mapsto> console_write], dv_ioctl = Map.empty\<rparr> t)
        (\<lambda>(dv, s). andThen (userinit (bd_image bd) (if \<not> ismp s then timerinit s else s)) (\<lambda>s.
          andThen (bootothers bd s) (\<lambda>s. andThen (mpmain bd s) (\<lambda>s. Inr (dv, s))))))"
    if "fresh t" for t :: "('a, 'b) trapstate_scheme"
    by (rule post_then [OF ethinit_post [OF that]])
      (intro post_bind(2) [where P = kernel_ok] userinit_ok kb.bootothers_P kb.mpmain_P tabs post_rules; auto simp: boot_devs_def)
  show ?thesis unfolding mainc_def Let_def
  proof (rule post_bind(2) [OF fr.cprintf [OF s]])
    fix t :: "('a, 'b) trapstate_scheme"
    assume t: "fresh t"
    show "post (\<lambda>dv t. kernel_ok t \<and> dv = boot_devs (bd_nic bd) (bd_polls bd))
      (case consoleinit (dv_read \<lparr>dv_read = Map.empty, dv_write = Map.empty, dv_ioctl = Map.empty\<rparr>,
          dv_write \<lparr>dv_read = Map.empty, dv_write = Map.empty, dv_ioctl = Map.empty\<rparr>) (ioapicinit (picinit t)) of
       ((devr, devw), s) \<Rightarrow>
         andThen (kvmalloc (im_data (bd_image bd)) (uartinit (bd_uart bd) s)) (\<lambda>s.
         andThen (ideinit (iinit (fileinit (binit (tvinit (bd_vectors bd) (pinit s)))))) (\<lambda>s.
         andThen (ethinit (bd_nic bd) (bd_polls bd)
           (\<lparr>dv_read = Map.empty, dv_write = Map.empty, dv_ioctl = Map.empty\<rparr>\<lparr>dv_read := devr, dv_write := devw\<rparr>) s) (\<lambda>(dv, s).
         andThen (userinit (bd_image bd) (if \<not> ismp s then timerinit s else s)) (\<lambda>s.
         andThen (bootothers bd s) (\<lambda>s. andThen (mpmain bd s) (\<lambda>s. Inr (dv, s))))))))"
      by (subst consoleinit_devs)
        (simp, intro post_bind(2) [where P = fresh] kvmalloc_fresh same t ideinit_fresh tabs eth; assumption)
  qed
qed

text \<open>The tables as the loader leaves them: all of \<open>bss\<close> is zero.\<close>

definition loaded :: "'a filestate_scheme \<Rightarrow> bool" where
  "loaded s \<longleftrightarrow> procs s = replicate NPROC unused_proc \<and> initproc s = None \<and> curproc s = (\<lambda>_. None) \<and>
     length (ftable s) = NFILE \<and> list_all (\<lambda>x. f_ip x = None) (ftable s) \<and> length (inodes s) = NINODE \<and> length (bufs s) = Suc NBUF"

lemma loaded_fresh: "loaded s \<Longrightarrow> fresh s"
proof -
  have "proc_ok unused_proc" by (simp add: proc_ok_def unused_proc_def)
  moreover have "family_ok None (replicate NPROC unused_proc)" by (simp add: family_ok_def unused_proc_def)
  ultimately show "loaded s \<Longrightarrow> fresh s"
    by (auto simp: loaded_def fresh_def lone_def kernel_ok_def list_all_iff) (simp_all add: unused_proc_def)
qed


definition bare_kernel :: "unit trapstate" where
  "bare_kernel = family_kernel\<lparr>procs := replicate NPROC unused_proc, initproc := None, curproc := (\<lambda>_. None)\<rparr>"

definition bare_board :: "unit board" where
  "bare_board = \<lparr>bd_image = some_image, bd_vectors = (\<lambda>_. 0), bd_nic = silent_card, bd_lapic = (\<lambda>_ _. 0), bd_imcr = 0, bd_uart = True,
     bd_cpu = (\<lambda>_. 0), bd_other = [], bd_mpmain = 0, bd_polls = 10\<rparr>"

lemma bare_kernel_loaded: "loaded bare_kernel"
  by (simp add: bare_kernel_def loaded_def family_kernel_def boot_kernel_def boot_ext_def list_all_iff)


end
