(* ===== verification/Uprog.thy ===== *)
theory Uprog
  imports Syscall
begin

text \<open>
  User programs. A program is the tree of its system calls: each node is a call with its arguments, and goes on with every answer the
  kernel may give. \<open>exec\<close> goes on only when it fails, \<open>fork\<close> goes on with 0 in the child, \<open>Trap\<close> is an access that the hardware would not
  allow or a bound of the model that was too small. The library that all programs share is here as well: \<open>printf\<close> (\<^verbatim>\<open>printf.c\<close>), \<open>stat\<close> and \<open>gets\<close> (\<^verbatim>\<open>ulib.c\<close>).
\<close>

section \<open>Trees of system calls\<close>

datatype prog =
    Exit
  | Exec "byte list" "byte list list" prog
  | Open "byte list" uint "int \<Rightarrow> prog"
  | Close nat prog
  | Dup nat prog
  | Pipe "int \<Rightarrow> nat \<Rightarrow> nat \<Rightarrow> prog"
  | Fork "int \<Rightarrow> prog"
  | Wait "int \<Rightarrow> prog"
  | Kill uint prog
  | Sleep nat prog
  | Chdir "byte list" "int \<Rightarrow> prog"
  | Mkdir "byte list" "int \<Rightarrow> prog"
  | Unlink "byte list" "int \<Rightarrow> prog"
  | Link "byte list" "byte list" "int \<Rightarrow> prog"
  | Mknod "byte list" nat nat prog
  | Read nat nat "byte list option \<Rightarrow> prog"
  | Write nat "byte list" "int \<Rightarrow> prog"
  | Fstat nat "stat_t option \<Rightarrow> prog"
  | Ioctl nat uint uint prog
  | Trap string

text \<open>A call with the answer of the kernel, and the part of the tree that a sequence of them leads to.\<close>

datatype event =
    EOpen "byte list" uint int
  | EClose nat
  | EWait int
  | ERead nat nat "byte list option"
  | EWrite nat "byte list" int
  | EFstat nat "stat_t option"
  | EFork int

definition answer :: "prog \<Rightarrow> event \<Rightarrow> prog option" where
  "answer p e =
     (case p of
        Open f m k \<Rightarrow> (case e of EOpen f' m' r \<Rightarrow> if f = f' \<and> m = m' then Some (k r) else None | _ \<Rightarrow> None)
      | Close fd k \<Rightarrow> (case e of EClose fd' \<Rightarrow> if fd = fd' then Some k else None | _ \<Rightarrow> None)
      | Wait k \<Rightarrow> (case e of EWait r \<Rightarrow> Some (k r) | _ \<Rightarrow> None)
      | Read fd n k \<Rightarrow> (case e of ERead fd' n' r \<Rightarrow> if fd = fd' \<and> n = n' then Some (k r) else None | _ \<Rightarrow> None)
      | Write fd bs k \<Rightarrow> (case e of EWrite fd' bs' r \<Rightarrow> if fd = fd' \<and> bs = bs' then Some (k r) else None | _ \<Rightarrow> None)
      | Fstat fd k \<Rightarrow> (case e of EFstat fd' r \<Rightarrow> if fd = fd' then Some (k r) else None | _ \<Rightarrow> None)
      | Fork k \<Rightarrow> (case e of EFork r \<Rightarrow> Some (k r) | _ \<Rightarrow> None)
      | _ \<Rightarrow> None)"

primrec replay :: "prog \<Rightarrow> event list \<Rightarrow> prog option" where
  "replay p [] = Some p"
| "replay p (e # es) = (case answer p e of None \<Rightarrow> None | Some q \<Rightarrow> replay q es)"

lemma replay_append: "replay p (es @ fs) = (case replay p es of None \<Rightarrow> None | Some q \<Rightarrow> replay q fs)"
  by (induction es arbitrary: p) (auto split: option.splits)

lemma replay_then: "replay p es = Some q \<Longrightarrow> replay p (es @ fs) = replay q fs"
  by (simp add: replay_append)

lemma replay_simps [simp]:
  "replay (Open f m k) (EOpen f m r # es) = replay (k r) es"
  "replay (Close fd p) (EClose fd # es) = replay p es"
  "replay (Wait k) (EWait r # es) = replay (k r) es"
  "replay (Read fd n kb) (ERead fd n a # es) = replay (kb a) es"
  "replay (Write fd bs k) (EWrite fd bs r # es) = replay (k r) es"
  "replay (Fstat fd ks) (EFstat fd st # es) = replay (ks st) es"
  "replay (Fork k) (EFork r # es) = replay (k r) es"
  by (simp_all add: answer_def)

declare replay.simps(2) [simp del]

section \<open>printf\<close>

definition putc :: "nat \<Rightarrow> byte \<Rightarrow> prog \<Rightarrow> prog" where
  "putc fd c k = Write fd [c] (\<lambda>_. k)"

text \<open>Characters one after the other.\<close>

primrec putcs :: "nat \<Rightarrow> byte list \<Rightarrow> prog \<Rightarrow> prog" where
  "putcs fd [] k = k"
| "putcs fd (c # cs) k = putc fd c (putcs fd cs k)"

definition digit_upper :: "uint \<Rightarrow> byte" where
  "digit_upper d = (if d < 10 then 48 + ucast d else 55 + ucast d)"

definition uprintint :: "nat \<Rightarrow> uint \<Rightarrow> uint \<Rightarrow> bool \<Rightarrow> prog \<Rightarrow> prog" where
  "uprintint fd xx base sg k = putcs fd (rev (printint_buf digit_upper xx base sg)) k"

text \<open>\<open>state\<close> says that the last character was the one that starts a conversion. A string argument is the bytes from its pointer on.\<close>

fun printf_loop :: "nat \<Rightarrow> byte list \<Rightarrow> carg list \<Rightarrow> bool \<Rightarrow> prog \<Rightarrow> prog" where
  "printf_loop fd [] args state k = Trap ''fmt''"
| "printf_loop fd (c # f) args state k =
     (if c = 0 then k
      else if \<not> state
      then if c = 37 then printf_loop fd f args True k else putc fd c (printf_loop fd f args False k)
      else if c = 100 \<or> c = 120 \<or> c = 112
      then (case args of
              Num x # args \<Rightarrow>
                (if c = 100 then uprintint fd x 10 True (printf_loop fd f args False k)
                 else uprintint fd x 16 False (printf_loop fd f args False k))
            | _ \<Rightarrow> Trap ''args'')
      else if c = 115
      then (case args of
              Str p # args \<Rightarrow>
                (let t = (case p of None \<Rightarrow> null_str | Some t \<Rightarrow> t) in
                 if 0 \<notin> set t then Trap ''str'' else putcs fd (cstr t) (printf_loop fd f args False k))
            | _ \<Rightarrow> Trap ''args'')
      else if c = 99
      then (case args of Num x # args \<Rightarrow> putc fd (ucast x) (printf_loop fd f args False k) | _ \<Rightarrow> Trap ''args'')
      else if c = 37 then putc fd c (printf_loop fd f args False k)
      else putc fd 37 (putc fd c (printf_loop fd f args False k)))"

definition printf :: "nat \<Rightarrow> byte list \<Rightarrow> carg list \<Rightarrow> prog \<Rightarrow> prog" where
  "printf fd fmt args k = printf_loop fd fmt args False k"

text \<open>A literal that ends its line, and a string argument.\<close>

definition line :: "string \<Rightarrow> byte list" where
  "line t = map of_char t @ [10, 0]"

definition word :: "byte list \<Rightarrow> carg" where
  "word w = Str (Some (w @ [0]))"

section \<open>stat and gets\<close>

definition ulib_stat :: "byte list \<Rightarrow> (stat_t option \<Rightarrow> prog) \<Rightarrow> prog" where
  "ulib_stat n k = Open n O_RDONLY (\<lambda>fd. if fd < 0 then k None else Fstat (nat fd) (\<lambda>r. Close (nat fd) (k r)))"

text \<open>\<open>gets\<close> with room for \<open>n\<close> more characters, after \<open>acc\<close>; it goes on with the bytes it has stored.\<close>

primrec ugets_loop :: "nat \<Rightarrow> byte list \<Rightarrow> (byte list \<Rightarrow> prog) \<Rightarrow> prog" where
  "ugets_loop 0 acc k = k (acc @ [0])"
| "ugets_loop (Suc n) acc k =
     Read 0 1 (\<lambda>r.
       case r of
         Some (c # _) \<Rightarrow> if c = 10 \<or> c = 13 then k (acc @ [c, 0]) else ugets_loop n (acc @ [c]) k
       | _ \<Rightarrow> k (acc @ [0]))"

definition ugets :: "nat \<Rightarrow> (byte list \<Rightarrow> prog) \<Rightarrow> prog" where
  "ugets mx k = ugets_loop (mx - 1) [] k"

end
