(* ===== verification/Shell.thy ===== *)
theory Shell
  imports Uprog
begin

unbundle bit_operations_syntax

text \<open>
  The shell (\<^verbatim>\<open>sh.c\<close>): the parser of command lines, and what a process does to run a command.

  A pointer into the line is its index there. A command is a tree over its words; the parser makes them of tokens, the
  pairs of \<open>argv\<close> and \<open>eargv\<close> or of \<open>file\<close> and \<open>efile\<close>, and \<open>nulterminate\<close> makes strings of them. \<open>malloc\<close> always gives memory here.
  \<open>panic\<close> of the shell is \<open>Panic\<close>, without what is printed. The mutually recursive parser takes a bound on the depth of its calls.
\<close>

section \<open>Commands\<close>

datatype 'w cmd =
    EXEC "'w list"
  | REDIR "'w cmd" 'w uint nat
  | PIPE "'w cmd" "'w cmd"
  | LIST "'w cmd" "'w cmd"
  | BACK "'w cmd"

text \<open>The functions that make commands; \<open>malloc\<close> is taken to succeed.\<close>

definition execcmd :: "'w cmd" where
  [simp]: "execcmd = EXEC []"

definition redircmd :: "'w cmd \<Rightarrow> 'w \<Rightarrow> uint \<Rightarrow> nat \<Rightarrow> 'w cmd" where
  [simp]: "redircmd subcmd file mode fd = REDIR subcmd file mode fd"

definition pipecmd :: "'w cmd \<Rightarrow> 'w cmd \<Rightarrow> 'w cmd" where
  [simp]: "pipecmd left right = PIPE left right"

definition listcmd :: "'w cmd \<Rightarrow> 'w cmd \<Rightarrow> 'w cmd" where
  [simp]: "listcmd left right = LIST left right"

definition backcmd :: "'w cmd \<Rightarrow> 'w cmd" where
  [simp]: "backcmd subcmd = BACK subcmd"

type_synonym token = "nat \<times> nat"

definition MAXARGS :: nat where "MAXARGS = 10"

definition whitespace :: "byte list" where
  "whitespace = [32, 9, 13, 10, 11]"

definition symbols :: "byte list" where
  "symbols = map of_char ''<|>&;()''"

section \<open>Tokens\<close>

text \<open>\<open>strchr\<close> in a constant string.\<close>

definition among :: "byte \<Rightarrow> byte list \<Rightarrow> bool" where
  "among c cs \<longleftrightarrow> c \<in> set cs"

function skip_white :: "byte list \<Rightarrow> nat \<Rightarrow> nat \<Rightarrow> nat res" where
  "skip_white buf es s =
     (if s < es
      then andThen (rd ''line'' buf s) (\<lambda>c. if among c whitespace then skip_white buf es (Suc s) else Inr s)
      else Inr s)"
  by pat_completeness auto
termination
  by (relation "measure (\<lambda>(buf, es, s). es - s)") auto

function skip_word :: "byte list \<Rightarrow> nat \<Rightarrow> nat \<Rightarrow> nat res" where
  "skip_word buf es s =
     (if s < es
      then andThen (rd ''line'' buf s) (\<lambda>c.
           if \<not> among c whitespace \<and> \<not> among c symbols then skip_word buf es (Suc s) else Inr s)
      else Inr s)"
  by pat_completeness auto
termination
  by (relation "measure (\<lambda>(buf, es, s). es - s)") auto

declare skip_white.simps [simp del] skip_word.simps [simp del]

text \<open>The kind of a token, where it begins and ends, and where the next one begins.\<close>

definition gettoken :: "byte list \<Rightarrow> nat \<Rightarrow> nat \<Rightarrow> ((byte \<times> token) \<times> nat) res" where
  "gettoken buf es s =
     andThen (skip_white buf es s) (\<lambda>q.
     andThen (rd ''line'' buf q) (\<lambda>c.
     andThen
       (if c = 0 then Inr (c, q)
        else if among c (map of_char ''|();&<'') then Inr (c, Suc q)
        else if c = of_char (CHR ''>'')
        then andThen (rd ''line'' buf (Suc q)) (\<lambda>d.
             if d = of_char (CHR ''>'') then Inr (of_char (CHR ''+''), Suc (Suc q)) else Inr (c, Suc q))
        else andThen (skip_word buf es q) (\<lambda>s. Inr (of_char (CHR ''a''), s))) (\<lambda>(tok, eq).
     andThen (skip_white buf es eq) (\<lambda>s. Inr ((tok, (q, eq)), s)))))"

definition peek :: "byte list \<Rightarrow> nat \<Rightarrow> byte list \<Rightarrow> nat \<Rightarrow> (bool \<times> nat) res" where
  "peek buf es toks s =
     andThen (skip_white buf es s) (\<lambda>s. andThen (rd ''line'' buf s) (\<lambda>c. Inr (c \<noteq> 0 \<and> among c toks, s)))"

section \<open>The parser\<close>

primrec parseredirs_loop :: "nat \<Rightarrow> byte list \<Rightarrow> nat \<Rightarrow> token cmd \<Rightarrow> nat \<Rightarrow> (token cmd \<times> nat) res" where
  "parseredirs_loop 0 buf es cmd s = Inl (Spins ''parseredirs'')"
| "parseredirs_loop (Suc k) buf es cmd s =
     andThen (peek buf es (map of_char ''<>'') s) (\<lambda>(b, s).
     if b
     then
       andThen (gettoken buf es s) (\<lambda>((tok, _), s).
       andThen (gettoken buf es s) (\<lambda>((a, q), s).
       if a \<noteq> of_char (CHR ''a'') then Inl (Panic ''missing file for redirection'')
       else
         let cmd = (if tok = of_char (CHR ''<'') then redircmd cmd q O_RDONLY 0
                    else if tok = of_char (CHR ''>'') then redircmd cmd q (O_WRONLY OR O_CREATE) 1
                    else if tok = of_char (CHR ''+'') then redircmd cmd q (O_WRONLY OR O_CREATE) 1
                    else cmd)
         in parseredirs_loop k buf es cmd s))
     else Inr (cmd, s))"

definition parseredirs :: "byte list \<Rightarrow> nat \<Rightarrow> token cmd \<Rightarrow> nat \<Rightarrow> (token cmd \<times> nat) res" where
  "parseredirs buf es cmd s = parseredirs_loop (Suc es) buf es cmd s"

text \<open>\<open>parseexec\<close> stores arguments into the command that it has already put inside of redirections.\<close>

primrec set_args :: "'w list \<Rightarrow> 'w cmd \<Rightarrow> 'w cmd" where
  "set_args args (EXEC _) = EXEC args"
| "set_args args (REDIR c f m fd) = REDIR (set_args args c) f m fd"
| "set_args args (PIPE a b) = PIPE a b"
| "set_args args (LIST a b) = LIST a b"
| "set_args args (BACK a) = BACK a"

primrec parseexec_loop :: "nat \<Rightarrow> byte list \<Rightarrow> nat \<Rightarrow> token cmd \<Rightarrow> token list \<Rightarrow> nat \<Rightarrow> (token cmd \<times> nat) res" where
  "parseexec_loop 0 buf es cm args s = Inl (Spins ''parseexec'')"
| "parseexec_loop (Suc k) buf es cm args s =
     andThen (peek buf es (map of_char ''|)&;'') s) (\<lambda>(b, s).
     if b then Inr (set_args args cm, s)
     else
       andThen (gettoken buf es s) (\<lambda>((tok, q), s).
       if tok = 0 then Inr (set_args args cm, s)
       else if tok \<noteq> of_char (CHR ''a'') then Inl (Panic ''syntax'')
       else
         let args = args @ [q] in
         if length args \<ge> MAXARGS then Inl (Panic ''too many args'')
         else andThen (parseredirs buf es cm s) (\<lambda>(cm, s). parseexec_loop k buf es cm args s)))"

primrec back_loop :: "nat \<Rightarrow> byte list \<Rightarrow> nat \<Rightarrow> token cmd \<Rightarrow> nat \<Rightarrow> (token cmd \<times> nat) res" where
  "back_loop 0 buf es cmd s = Inl (Spins ''parseline'')"
| "back_loop (Suc k) buf es cmd s =
     andThen (peek buf es (map of_char ''&'') s) (\<lambda>(b, s).
     if b then andThen (gettoken buf es s) (\<lambda>(_, s). back_loop k buf es (backcmd cmd) s)
     else Inr (cmd, s))"

function parseline :: "nat \<Rightarrow> byte list \<Rightarrow> nat \<Rightarrow> nat \<Rightarrow> (token cmd \<times> nat) res"
  and parsepipe :: "nat \<Rightarrow> byte list \<Rightarrow> nat \<Rightarrow> nat \<Rightarrow> (token cmd \<times> nat) res"
  and parseblock :: "nat \<Rightarrow> byte list \<Rightarrow> nat \<Rightarrow> nat \<Rightarrow> (token cmd \<times> nat) res"
  and parseexec :: "nat \<Rightarrow> byte list \<Rightarrow> nat \<Rightarrow> nat \<Rightarrow> (token cmd \<times> nat) res" where
  "parseline 0 buf es s = Inl (Spins ''parseline'')"
| "parseline (Suc k) buf es s =
     andThen (parsepipe k buf es s) (\<lambda>(cmd, s).
     andThen (back_loop (Suc es) buf es cmd s) (\<lambda>(cmd, s).
     andThen (peek buf es (map of_char '';'') s) (\<lambda>(b, s).
     if b
     then
       andThen (gettoken buf es s) (\<lambda>(_, s).
       andThen (parseline k buf es s) (\<lambda>(right, s). Inr (listcmd cmd right, s)))
     else Inr (cmd, s))))"
| "parsepipe 0 buf es s = Inl (Spins ''parsepipe'')"
| "parsepipe (Suc k) buf es s =
     andThen (parseexec k buf es s) (\<lambda>(cmd, s).
     andThen (peek buf es (map of_char ''|'') s) (\<lambda>(b, s).
     if b
     then
       andThen (gettoken buf es s) (\<lambda>(_, s).
       andThen (parsepipe k buf es s) (\<lambda>(right, s). Inr (pipecmd cmd right, s)))
     else Inr (cmd, s)))"
| "parseblock 0 buf es s = Inl (Spins ''parseblock'')"
| "parseblock (Suc k) buf es s =
     andThen (peek buf es (map of_char ''('') s) (\<lambda>(b, s).
     if \<not> b then Inl (Panic ''parseblock'')
     else
       andThen (gettoken buf es s) (\<lambda>(_, s).
       andThen (parseline k buf es s) (\<lambda>(cmd, s).
       andThen (peek buf es (map of_char '')'') s) (\<lambda>(b, s).
       if \<not> b then Inl (Panic ''syntax - missing )'')
       else andThen (gettoken buf es s) (\<lambda>(_, s). parseredirs buf es cmd s)))))"
| "parseexec 0 buf es s = Inl (Spins ''parseexec'')"
| "parseexec (Suc k) buf es s =
     andThen (peek buf es (map of_char ''('') s) (\<lambda>(b, s).
     if b then parseblock k buf es s
     else andThen (parseredirs buf es execcmd s) (\<lambda>(cm, s). parseexec_loop (Suc es) buf es cm [] s))"
  by pat_completeness auto
termination
  by (relation "measure (\<lambda>x. case x of Inl (Inl (k, _)) \<Rightarrow> k | Inl (Inr (k, _)) \<Rightarrow> k | Inr (Inl (k, _)) \<Rightarrow> k | Inr (Inr (k, _)) \<Rightarrow> k)") simp_all

declare parseline.simps [simp del] parsepipe.simps [simp del] parseblock.simps [simp del] parseexec.simps [simp del]

section \<open>Terminating the words\<close>

definition poke :: "nat \<Rightarrow> byte list \<Rightarrow> byte list res" where
  "poke i buf = (if i < length buf then Inr (buf[i := 0]) else Inl (Wild ''nulterminate''))"

primrec poke_args :: "token list \<Rightarrow> byte list \<Rightarrow> byte list res" where
  "poke_args [] buf = Inr buf"
| "poke_args (q # args) buf = andThen (poke (snd q) buf) (\<lambda>buf. poke_args args buf)"

primrec nulterminate :: "token cmd \<Rightarrow> byte list \<Rightarrow> byte list res" where
  "nulterminate (EXEC args) buf = poke_args args buf"
| "nulterminate (REDIR c f m fd) buf = andThen (nulterminate c buf) (\<lambda>buf. poke (snd f) buf)"
| "nulterminate (PIPE a b) buf = andThen (nulterminate a buf) (\<lambda>buf. nulterminate b buf)"
| "nulterminate (LIST a b) buf = andThen (nulterminate a buf) (\<lambda>buf. nulterminate b buf)"
| "nulterminate (BACK a) buf = nulterminate a buf"

definition parsecmd :: "byte list \<Rightarrow> (token cmd \<times> byte list) res" where
  "parsecmd buf =
     andThen (strlen buf) (\<lambda>es.
     andThen (parseline (4 * es + 5) buf es 0) (\<lambda>(cmd, s).
     andThen (peek buf es [] s) (\<lambda>(_, s).
     if s \<noteq> es then Inl (Panic ''syntax'')
     else andThen (nulterminate cmd buf) (\<lambda>buf. Inr (cmd, buf)))))"

text \<open>The string at a token.\<close>

definition word_at :: "byte list \<Rightarrow> token \<Rightarrow> byte list" where
  "word_at buf q = cstr (drop (fst q) buf)"

section \<open>Running a command\<close>

definition panic :: "string \<Rightarrow> prog" where
  "panic m = printf 2 (line ''%s'') [word (map of_char m)] Exit"

definition fork1 :: "(int \<Rightarrow> prog) \<Rightarrow> prog" where
  "fork1 k = Fork (\<lambda>pid. if pid = - 1 then panic ''fork'' else k pid)"

primrec runcmd :: "byte list cmd \<Rightarrow> prog" where
  "runcmd (EXEC argv) =
     (case argv of
        [] \<Rightarrow> Exit
      | a # _ \<Rightarrow> Exec a argv (printf 2 (line ''exec %s failed'') [word a] Exit))"
| "runcmd (REDIR c f m fd) =
     Close fd (Open f m (\<lambda>r. if r < 0 then printf 2 (line ''open %s failed'') [word f] Exit else runcmd c))"
| "runcmd (LIST a b) = fork1 (\<lambda>pid. if pid = 0 then runcmd a else Wait (\<lambda>_. runcmd b))"
| "runcmd (PIPE a b) =
     Pipe (\<lambda>r p0 p1.
       if r < 0 then panic ''pipe''
       else
         fork1 (\<lambda>pid.
         if pid = 0 then Close 1 (Dup p1 (Close p0 (Close p1 (runcmd a))))
         else
           fork1 (\<lambda>pid.
           if pid = 0 then Close 0 (Dup p0 (Close p0 (Close p1 (runcmd b))))
           else Close p0 (Close p1 (Wait (\<lambda>_. Wait (\<lambda>_. Exit)))))))"
| "runcmd (BACK a) = fork1 (\<lambda>pid. if pid = 0 then runcmd a else Exit)"

text \<open>What \<open>parsecmd\<close> prints before it stops because the line goes on after the command.\<close>

definition leftovers :: "byte list \<Rightarrow> byte list option" where
  "leftovers buf =
     (case andThen (strlen buf) (\<lambda>es.
           andThen (parseline (4 * es + 5) buf es 0) (\<lambda>(cmd, s).
           andThen (peek buf es [] s) (\<lambda>(_, s). Inr (s, es)))) of
        Inr (s, es) \<Rightarrow> if s \<noteq> es then Some (cstr (drop s buf)) else None
      | Inl _ \<Rightarrow> None)"

text \<open>The child that runs a line.\<close>

definition runline :: "byte list \<Rightarrow> prog" where
  "runline buf =
     (case parsecmd buf of
        Inl (Panic m) \<Rightarrow>
          (case leftovers buf of
             Some t \<Rightarrow> printf 2 (line ''leftovers: %s'') [word t] (panic m)
           | None \<Rightarrow> panic m)
      | Inl _ \<Rightarrow> Trap ''parsecmd''
      | Inr (cmd, buf) \<Rightarrow> runcmd (map_cmd (word_at buf) cmd))"

text \<open>\<open>getcmd\<close> goes on with the whole buffer.\<close>

definition getcmd :: "nat \<Rightarrow> (byte list \<Rightarrow> prog) \<Rightarrow> prog" where
  "getcmd nbuf k = printf 2 (lit ''$ '') [] (ugets nbuf (\<lambda>bs. k (patch (replicate nbuf 0) 0 bs)))"

definition is_cd :: "byte list \<Rightarrow> bool" where
  "is_cd buf \<longleftrightarrow> buf ! 0 = of_char (CHR ''c'') \<and> buf ! 1 = of_char (CHR ''d'') \<and> buf ! 2 = 32"

text \<open>The loop of \<open>main\<close>, for at most \<open>n\<close> lines.\<close>

primrec main_loop :: "nat \<Rightarrow> prog" where
  "main_loop 0 = Trap ''lines''"
| "main_loop (Suc n) =
     getcmd 100 (\<lambda>buf.
       if buf ! 0 = 0 then Exit
       else if is_cd buf
       then
         let dir = cstr (drop 3 (buf[length (cstr buf) - 1 := 0])) in
         Chdir dir (\<lambda>r. if r < 0 then printf 2 (line ''cannot cd %s'') [word dir] (main_loop n) else main_loop n)
       else fork1 (\<lambda>pid. if pid = 0 then runline buf else Wait (\<lambda>_. main_loop n)))"

primrec open_console :: "nat \<Rightarrow> prog \<Rightarrow> prog" where
  "open_console 0 p = Trap ''console''"
| "open_console (Suc k) p =
     Open (map of_char ''console'') O_RDWR (\<lambda>fd. if fd \<ge> 0 then if fd \<ge> 3 then Close (nat fd) p else open_console k p else p)"

text \<open>Each \<open>open\<close> that returns less than 3 takes one more of the low descriptors, so the fourth ends the first loop.\<close>

definition sh_main :: "nat \<Rightarrow> prog" where
  "sh_main n = open_console 4 (main_loop n)"

end
