(* ===== verification/ShellOk.thy ===== *)
theory ShellOk
  imports Shell
begin

unbundle bit_operations_syntax

text \<open>
  The parser of the shell always ends, with a command or a message, and never leaves its line; and the words of the command are
  the words of the line.
\<close>

section \<open>Positions in the line\<close>

abbreviation is_white :: "byte \<Rightarrow> bool" where
  "is_white c \<equiv> among c whitespace"

definition is_wordc :: "byte \<Rightarrow> bool" where
  "is_wordc c \<longleftrightarrow> \<not> among c whitespace \<and> \<not> among c symbols"

text \<open>The rest of the line at position \<open>s\<close>.\<close>

definition at :: "byte list \<Rightarrow> nat \<Rightarrow> nat \<Rightarrow> byte list \<Rightarrow> bool" where
  "at buf es s rest \<longleftrightarrow> es < length buf \<and> buf ! es = 0 \<and> 0 \<notin> set (take es buf) \<and> s \<le> es \<and> rest = drop s (take es buf)"

lemma at_length: "at buf es s rest \<Longrightarrow> length rest = es - s \<and> s + length rest = es \<and> s \<le> es"
  by (auto simp: at_def)

lemma at_Cons:
  assumes "at buf es s (c # r)"
  shows "s < es" "rd x buf s = Inr c" "buf ! s = c" "c \<noteq> 0" "at buf es (Suc s) r"
proof -
  have s: "s < es" using at_length [OF assms] by simp
  have d: "drop s (take es buf) = buf ! s # drop (Suc s) (take es buf)"
    using s assms by (subst Cons_nth_drop_Suc [symmetric]) (auto simp: at_def)
  then have e: "buf ! s = c" "drop (Suc s) (take es buf) = r" using assms by (simp_all add: at_def)
  have "c \<in> set (take es buf)" using assms in_set_dropD [of c s "take es buf"] by (metis at_def list.set_intros(1))
  then show "c \<noteq> 0" using assms by (auto simp: at_def)
  show "s < es" "rd x buf s = Inr c" "buf ! s = c" "at buf es (Suc s) r" using s e assms by (auto simp: at_def)
qed

lemma at_Nil: "at buf es s [] \<Longrightarrow> s = es \<and> rd x buf s = Inr 0"
  using at_length [of buf es s "[]"] by (auto simp: at_def)

lemma skip_white_at:
  "at buf es s rest \<Longrightarrow> \<exists>t. skip_white buf es s = Inr t \<and> t = s + length (takeWhile is_white rest) \<and> at buf es t (dropWhile is_white rest)"
proof (induction rest arbitrary: s)
  case Nil
  then show ?case using at_Nil [OF Nil] by (simp add: skip_white.simps)
next
  case (Cons c r)
  note c = at_Cons [OF Cons.prems]
  show ?case using Cons.IH [OF c(5)] c(1,2) Cons.prems by (subst skip_white.simps) auto
qed

lemma skip_word_at:
  "at buf es s rest \<Longrightarrow> \<exists>t. skip_word buf es s = Inr t \<and> t = s + length (takeWhile is_wordc rest) \<and> at buf es t (dropWhile is_wordc rest)"
proof (induction rest arbitrary: s)
  case Nil
  then show ?case using at_Nil [OF Nil] by (simp add: skip_word.simps)
next
  case (Cons c r)
  note c = at_Cons [OF Cons.prems]
  show ?case using Cons.IH [OF c(5)] c(1,2) Cons.prems by (subst skip_word.simps) (auto simp: is_wordc_def [of c])
qed

text \<open>What \<open>peek\<close> and \<open>gettoken\<close> do with the rest of the line.\<close>

definition trim :: "byte list \<Rightarrow> byte list" where
  "trim r = dropWhile is_white r"

lemmas skip_white_trim = skip_white_at [folded trim_def]

lemma peek_at:
  assumes "at buf es s rest"
  shows "\<exists>t. peek buf es toks s = Inr (trim rest \<noteq> [] \<and> among (hd (trim rest)) toks, t) \<and> at buf es t (trim rest)"
proof -
  define r where "r = trim rest"
  obtain t where t: "skip_white buf es s = Inr t" "at buf es t r" using skip_white_trim [OF assms] by (auto simp: r_def)
  show ?thesis unfolding r_def [symmetric]
  proof (cases r)
    case Nil
    then show "\<exists>t. peek buf es toks s = Inr (r \<noteq> [] \<and> among (hd r) toks, t) \<and> at buf es t r"
      using t at_Nil [of buf es t "''line''"] by (auto simp: peek_def)
  next
    case (Cons c r')
    then show "\<exists>t. peek buf es toks s = Inr (r \<noteq> [] \<and> among (hd r) toks, t) \<and> at buf es t r"
      using t at_Cons [of buf es t c r'] by (auto simp: peek_def)
  qed
qed

text \<open>The kind of a token at the front and its length.\<close>

definition token_of :: "byte list \<Rightarrow> byte \<times> nat" where
  "token_of r =
     (case r of
        [] \<Rightarrow> (0, 0)
      | c # r' \<Rightarrow>
          if among c (map of_char ''|();&<'') then (c, 1)
          else if c = of_char (CHR ''>'') then (if r' \<noteq> [] \<and> hd r' = of_char (CHR ''>'') then (of_char (CHR ''+''), 2) else (c, 1))
          else (of_char (CHR ''a''), length (takeWhile is_wordc r)))"

lemma at_drop: "at buf es s rest \<Longrightarrow> n \<le> length rest \<Longrightarrow> at buf es (s + n) (drop n rest)"
  using at_length [of buf es s rest] by (auto simp: at_def add.commute)

lemma token_of_le: "snd (token_of r) \<le> length r"
  using length_takeWhile_le [of is_wordc r] by (auto simp: token_of_def neq_Nil_conv simp del: takeWhile.simps split: list.splits)

lemma gettoken_at:
  assumes "at buf es s rest"
  shows "\<exists>q t. gettoken buf es s = Inr ((fst (token_of (trim rest)), (q, q + snd (token_of (trim rest)))), t) \<and>
    at buf es q (trim rest) \<and> at buf es t (trim (drop (snd (token_of (trim rest))) (trim rest)))"
proof -
  define r where "r = trim rest"
  obtain q where q: "skip_white buf es s = Inr q" "at buf es q r" using skip_white_trim [OF assms] by (auto simp: r_def)
  let ?n = "snd (token_of r)"
  obtain t where t: "skip_white buf es (q + ?n) = Inr t" "at buf es t (trim (drop ?n r))"
    using skip_white_trim [OF at_drop [OF q(2) token_of_le]] by auto
  have "andThen (rd ''line'' buf q) (\<lambda>c.
     andThen
       (if c = 0 then Inr (c, q)
        else if among c (map of_char ''|();&<'') then Inr (c, Suc q)
        else if c = of_char (CHR ''>'')
        then andThen (rd ''line'' buf (Suc q)) (\<lambda>d.
             if d = of_char (CHR ''>'') then Inr (of_char (CHR ''+''), Suc (Suc q)) else Inr (c, Suc q))
        else andThen (skip_word buf es q) (\<lambda>s. Inr (of_char (CHR ''a''), s))) h) = h (fst (token_of r), q + ?n)" for h :: "byte \<times> nat \<Rightarrow> 'b res"
  proof (cases r)
    case Nil
    then show ?thesis using q at_Nil [of buf es q "''line''"] by (auto simp: token_of_def)
  next
    case (Cons c r')
    note c = at_Cons [OF q(2) [unfolded Cons]]
    have nx: "\<exists>d. rd x buf (Suc q) = Inr d \<and> (d = of_char (CHR ''>'') \<longleftrightarrow> r' \<noteq> [] \<and> hd r' = of_char (CHR ''>''))" for x
      using c(5) at_Nil [of buf es "Suc q" x] at_Cons(2) [of buf es "Suc q" _ _ x] by (cases r') auto
    obtain w where w: "skip_word buf es q = Inr w" "w = q + length (takeWhile is_wordc (c # r'))"
      using skip_word_at [OF q(2) [unfolded Cons]] by auto
    show ?thesis using c(2,4) nx [of "''line''"] w unfolding Cons token_of_def list.case
      by (auto simp del: takeWhile.simps)
  qed
  note tok = this
  have "gettoken buf es s = Inr ((fst (token_of r), (q, q + ?n)), t)"
    unfolding gettoken_def q(1) andThen_Inr tok prod.case t(1) ..
  then show ?thesis unfolding r_def [symmetric] using q t by blast
qed

section \<open>The parser always ends\<close>

text \<open>A routine returns or stops with a message.\<close>

definition clean :: "('a \<Rightarrow> bool) \<Rightarrow> 'a res \<Rightarrow> bool" where
  "clean Q r \<longleftrightarrow> (case r of Inl e \<Rightarrow> (\<exists>m. e = Panic m) | Inr x \<Rightarrow> Q x)"

lemma clean_simps [simp]: "clean Q (Inl (Panic m))" "clean Q (Inr x) \<longleftrightarrow> Q x"
  by (simp_all add: clean_def)

lemma clean_mono: "clean Q r \<Longrightarrow> (\<And>x. Q x \<Longrightarrow> R x) \<Longrightarrow> clean R r"
  by (cases r) (auto simp: clean_def)

lemma clean_bind: "clean R r \<Longrightarrow> (\<And>x. R x \<Longrightarrow> clean Q (k x)) \<Longrightarrow> clean Q (andThen r k)"
  by (cases r) (auto simp: clean_def)

text \<open>A token of a word: it has only characters of words and ends where they end.\<close>

definition good_tok :: "byte list \<Rightarrow> nat \<Rightarrow> token \<Rightarrow> bool" where
  "good_tok buf es q \<longleftrightarrow> fst q < snd q \<and> snd q \<le> es \<and> (\<forall>i. fst q \<le> i \<and> i < snd q \<longrightarrow> is_wordc (buf ! i)) \<and>
     (snd q = es \<or> \<not> is_wordc (buf ! snd q))"

text \<open>The result of a parser at \<open>s\<close> with \<open>n\<close> characters left: a good command, further on in the line.\<close>

definition parsed :: "byte list \<Rightarrow> nat \<Rightarrow> nat \<Rightarrow> token cmd \<times> nat \<Rightarrow> bool" where
  "parsed buf es n r \<longleftrightarrow> (\<exists>rest. at buf es (snd r) rest \<and> length rest \<le> n) \<and> (\<forall>q\<in>set_cmd (fst r). good_tok buf es q)"

lemma length_trim: "length (trim r) \<le> length r"
  by (simp add: trim_def length_dropWhile_le)

lemma peek_clean:
  assumes "at buf es s rest"
  shows "clean (\<lambda>(b, t). at buf es t (trim rest) \<and> b = (trim rest \<noteq> [] \<and> among (hd (trim rest)) toks)) (peek buf es toks s)"
  using peek_at [OF assms, of toks] by auto

lemma wordc_symbols: "among c (map of_char ''|();&<'') \<Longrightarrow> \<not> is_wordc c" "\<not> is_wordc (of_char (CHR ''>''))"
  by (auto simp: is_wordc_def among_def symbols_def)

lemma trim_trim: "trim (trim r) = trim r"
  unfolding trim_def by (rule dropWhile_idem)

lemma trim_hd: "trim rest = c # r \<Longrightarrow> \<not> is_white c"
  using hd_dropWhile [of is_white rest] by (auto simp: trim_def)

lemma token_of_pos:
  assumes "trim rest = c # r"
  shows "1 \<le> snd (token_of (trim rest))"
  using trim_hd [OF assms] assms unfolding assms by (auto simp: token_of_def is_wordc_def among_def symbols_def)

lemma word_token_pos: "fst (token_of (trim rest)) = of_char (CHR ''a'') \<Longrightarrow> 0 < snd (token_of (trim rest))"
  using token_of_pos [of rest] by (cases "trim rest") (auto simp: token_of_def)

lemma at_nth: "at buf es s rest \<Longrightarrow> i < length rest \<Longrightarrow> buf ! (s + i) = rest ! i"
  by (auto simp: at_def)

lemma word_token:
  assumes "fst (token_of r) = of_char (CHR ''a'')"
  shows "snd (token_of r) = length (takeWhile is_wordc r)"
  using assms by (auto simp: token_of_def among_def split: list.splits if_splits)

lemma word_good:
  assumes "at buf es q r" and "0 < length (takeWhile is_wordc r)"
  shows "good_tok buf es (q, q + length (takeWhile is_wordc r))"
proof -
  let ?n = "length (takeWhile is_wordc r)"
  have n: "?n \<le> length r" "q + length r = es" using length_takeWhile_le [of is_wordc r] at_length [OF assms(1)] by auto
  have "is_wordc (buf ! i)" if "q \<le> i" "i < q + ?n" for i
  proof -
    have "buf ! i = r ! (i - q)" using at_nth [OF assms(1), of "i - q"] that n(1) by simp
    also have "\<dots> = takeWhile is_wordc r ! (i - q)" using that by (subst takeWhile_nth) auto
    finally show ?thesis using nth_mem [of "i - q" "takeWhile is_wordc r"] that set_takeWhileD [of _ is_wordc r] by auto
  qed
  moreover have "\<not> is_wordc (buf ! (q + ?n))" if "q + ?n \<noteq> es"
  proof -
    have lt: "?n < length r" using that n by simp
    show ?thesis using nth_length_takeWhile [OF lt] at_nth [OF assms(1) lt] by simp
  qed
  ultimately show ?thesis using n assms(2) by (auto simp: good_tok_def)
qed

lemma gettoken_clean:
  assumes "at buf es s rest"
  shows "clean (\<lambda>((tok, q), t). (\<exists>r. at buf es t r \<and> length r \<le> length (trim rest) - snd (token_of (trim rest))) \<and>
     tok = fst (token_of (trim rest)) \<and> (tok = of_char (CHR ''a'') \<longrightarrow> good_tok buf es q)) (gettoken buf es s)"
proof -
  obtain q t where g: "gettoken buf es s = Inr ((fst (token_of (trim rest)), (q, q + snd (token_of (trim rest)))), t)"
    "at buf es q (trim rest)" "at buf es t (trim (drop (snd (token_of (trim rest))) (trim rest)))"
    using gettoken_at [OF assms] by blast
  have "good_tok buf es (q, q + snd (token_of (trim rest)))" if "fst (token_of (trim rest)) = of_char (CHR ''a'')"
    using word_good [OF g(2)] word_token [OF that] word_token_pos [OF that] by simp
  then show ?thesis using g(3) length_trim [of "drop (snd (token_of (trim rest))) (trim rest)"]
    unfolding g(1) clean_simps by auto
qed

text \<open>The steps of the parser: a look at the next character, and a token, which moves on unless the line has ended.\<close>

lemma peek_step:
  assumes "at buf es s rest"
    and "\<And>t r. at buf es t r \<Longrightarrow> length r \<le> length rest \<Longrightarrow> r \<noteq> [] \<Longrightarrow> trim r = r \<Longrightarrow> clean Q (f True t)"
    and "\<And>t r. at buf es t r \<Longrightarrow> length r \<le> length rest \<Longrightarrow> clean Q (f False t)"
  shows "clean Q (andThen (peek buf es toks s) (\<lambda>(b, s). f b s))"
proof (rule clean_bind [OF peek_clean [OF assms(1)]])
  fix x :: "bool \<times> nat"
  assume "case x of (b, t) \<Rightarrow> at buf es t (trim rest) \<and> b = (trim rest \<noteq> [] \<and> among (hd (trim rest)) toks)"
  then show "clean Q (case x of (b, s) \<Rightarrow> f b s)"
    using assms(2,3) [of "snd x" "trim rest"] length_trim [of rest] trim_trim [of rest] by (cases "fst x") (auto split: prod.splits)
qed

lemma token_move:
  assumes "at buf es s rest"
  shows "clean (\<lambda>((tok, q), t). \<exists>r. at buf es t r \<and> length r \<le> length rest \<and> (rest = trim rest \<and> rest \<noteq> [] \<or> tok \<noteq> 0 \<longrightarrow> length r < length rest) \<and>
    (tok = of_char (CHR ''a'') \<longrightarrow> good_tok buf es q)) (gettoken buf es s)"
proof -
  let ?n = "snd (token_of (trim rest))"
  obtain q t where g: "gettoken buf es s = Inr ((fst (token_of (trim rest)), (q, q + ?n)), t)"
    "at buf es q (trim rest)" "at buf es t (trim (drop ?n (trim rest)))"
    using gettoken_at [OF assms] by blast
  let ?r = "trim (drop ?n (trim rest))"
  have le: "length ?r \<le> length (trim rest) - ?n" "length (trim rest) \<le> length rest"
    using length_trim [of "drop ?n (trim rest)"] length_trim by simp_all
  have lt: "length ?r < length rest" if ne: "trim rest \<noteq> []"
  proof -
    obtain c r' where c: "trim rest = c # r'" using ne by (cases "trim rest") auto
    have "0 < length (trim rest)" using ne by simp
    then show ?thesis using token_of_pos [OF c] le by linarith
  qed
  have "trim rest \<noteq> []" if "fst (token_of (trim rest)) \<noteq> 0" using that by (auto simp: token_of_def)
  moreover have "good_tok buf es (q, q + ?n)" if "fst (token_of (trim rest)) = of_char (CHR ''a'')"
    using word_good [OF g(2)] word_token [OF that] word_token_pos [OF that] by simp
  ultimately show ?thesis using g(3) lt le unfolding g(1) clean_simps prod.case by (intro exI [of _ ?r]) auto
qed

lemma token_step:
  assumes "at buf es s rest"
    and "\<And>tok q t r. at buf es t r \<Longrightarrow> length r \<le> length rest \<Longrightarrow> (tok \<noteq> 0 \<Longrightarrow> length r < length rest) \<Longrightarrow>
       (tok = of_char (CHR ''a'') \<Longrightarrow> good_tok buf es q) \<Longrightarrow> clean Q (f tok q t)"
  shows "clean Q (andThen (gettoken buf es s) (\<lambda>((tok, q), t). f tok q t))"
  by (rule clean_bind [OF token_move [OF assms(1)]]) (use assms(2) in \<open>force split: prod.splits\<close>)

text \<open>The token at a character that is not white.\<close>

lemma symbol_step:
  assumes "at buf es s rest" and "rest \<noteq> []" and "trim rest = rest"
    and "\<And>tok q t r. at buf es t r \<Longrightarrow> length r < length rest \<Longrightarrow> clean Q (f (tok, q) t)"
  shows "clean Q (andThen (gettoken buf es s) (\<lambda>(x, t). f x t))"
  by (rule clean_bind [OF token_move [OF assms(1)]]) (use assms(2-4) in \<open>force split: prod.splits\<close>)

lemma parsed_mono: "parsed buf es n r \<Longrightarrow> n \<le> n' \<Longrightarrow> parsed buf es n' r"
  by (auto simp: parsed_def)

lemma clean_parsed_mono: "clean (parsed buf es n) r \<Longrightarrow> n \<le> n' \<Longrightarrow> clean (parsed buf es n') r"
  by (erule clean_mono) (rule parsed_mono)

lemma parsed_step:
  assumes "clean (parsed buf es n) r"
    and "\<And>c t rest. at buf es t rest \<Longrightarrow> length rest \<le> n \<Longrightarrow> \<forall>q\<in>set_cmd c. good_tok buf es q \<Longrightarrow> clean Q (f c t)"
  shows "clean Q (andThen r (\<lambda>(c, t). f c t))"
  by (rule clean_bind [OF assms(1)]) (use assms(2) in \<open>force simp: parsed_def split: prod.splits\<close>)

lemma parseredirs_loop_clean:
  "at buf es s rest \<Longrightarrow> length rest < k \<Longrightarrow> \<forall>q\<in>set_cmd cm. good_tok buf es q \<Longrightarrow>
    clean (parsed buf es (length rest)) (parseredirs_loop k buf es cm s)"
proof (induction k arbitrary: cm s rest)
  case (Suc k)
  show ?case unfolding parseredirs_loop.simps
  proof (rule peek_step [OF Suc.prems(1)], simp_all only: if_True if_False)
    fix t r assume t: "at buf es t r" "length r \<le> length rest" "r \<noteq> []" "trim r = r"
    show "clean (parsed buf es (length rest)) (andThen (gettoken buf es t) (\<lambda>((tok, _), s).
       andThen (gettoken buf es s) (\<lambda>((a, q), s).
       if a \<noteq> of_char (CHR ''a'') then Inl (Panic ''missing file for redirection'')
       else
         let cmd = (if tok = of_char (CHR ''<'') then redircmd cm q O_RDONLY 0
                    else if tok = of_char (CHR ''>'') then redircmd cm q (O_WRONLY OR O_CREATE) 1
                    else if tok = of_char (CHR ''+'') then redircmd cm q (O_WRONLY OR O_CREATE) 1
                    else cm)
         in parseredirs_loop k buf es cmd s)))"
    proof (rule symbol_step [OF t(1,3,4)], unfold prod.case, rule token_step, assumption)
      fix tok tok2 q2 u v and q :: token and r2 r3
      assume a: "at buf es u r2" "length r2 < length r" "at buf es v r3" "length r3 \<le> length r2"
        "tok2 = of_char (CHR ''a'') \<Longrightarrow> good_tok buf es q2"
      have lt: "length r3 < k" "length r3 \<le> length rest" using a(2,4) t(2) Suc.prems(2) by linarith+
      have "clean (parsed buf es (length rest)) (parseredirs_loop k buf es c v)" if "\<forall>q\<in>set_cmd c. good_tok buf es q" for c
        by (rule clean_parsed_mono [OF Suc.IH [OF a(3) lt(1) that] lt(2)])
      then show "clean (parsed buf es (length rest))
        (if tok2 \<noteq> of_char (CHR ''a'') then Inl (Panic ''missing file for redirection'')
         else
           let cmd = (if tok = of_char (CHR ''<'') then redircmd cm q2 O_RDONLY 0
                      else if tok = of_char (CHR ''>'') then redircmd cm q2 (O_WRONLY OR O_CREATE) 1
                      else if tok = of_char (CHR ''+'') then redircmd cm q2 (O_WRONLY OR O_CREATE) 1
                      else cm)
           in parseredirs_loop k buf es cmd v)"
        using a(5) Suc.prems(3) by (simp add: Let_def)
    qed
  qed (use Suc.prems in \<open>auto simp: parsed_def\<close>)
qed simp

lemma parseredirs_clean:
  "at buf es s rest \<Longrightarrow> \<forall>q\<in>set_cmd cm. good_tok buf es q \<Longrightarrow> clean (parsed buf es (length rest)) (parseredirs buf es cm s)"
  unfolding parseredirs_def by (rule parseredirs_loop_clean) (auto dest: at_length)

lemma set_args_toks: "set_cmd (set_args args c) \<subseteq> set args \<union> set_cmd c"
  by (induction c) auto

lemma parseexec_loop_clean:
  "at buf es s rest \<Longrightarrow> length rest < k \<Longrightarrow> \<forall>q\<in>set_cmd cm \<union> set args. good_tok buf es q \<Longrightarrow>
    clean (parsed buf es (length rest)) (parseexec_loop k buf es cm args s)"
proof (induction k arbitrary: cm args s rest)
  case (Suc k)
  have fin: "parsed buf es (length rest) (set_args args cm, t)" if "at buf es t r" "length r \<le> length rest" for t r
    using that Suc.prems(3) set_args_toks [of args cm] by (auto simp: parsed_def)
  show ?case unfolding parseexec_loop.simps
  proof (rule peek_step [OF Suc.prems(1)], simp_all only: if_True if_False clean_simps fin)
    fix t r assume t: "at buf es t r" "length r \<le> length rest"
    show "clean (parsed buf es (length rest)) (andThen (gettoken buf es t) (\<lambda>((tok, q), s).
       if tok = 0 then Inr (set_args args cm, s)
       else if tok \<noteq> of_char (CHR ''a'') then Inl (Panic ''syntax'')
       else
         let args = args @ [q] in
         if length args \<ge> MAXARGS then Inl (Panic ''too many args'')
         else andThen (parseredirs buf es cm s) (\<lambda>(cm, s). parseexec_loop k buf es cm args s)))"
    proof (rule token_step [OF t(1)])
      fix tok :: byte and q u r2
      assume a: "at buf es u r2" "length r2 \<le> length r" "tok \<noteq> 0 \<Longrightarrow> length r2 < length r" "tok = of_char (CHR ''a'') \<Longrightarrow> good_tok buf es q"
      have le: "length r2 \<le> length rest" using a(2) t(2) by linarith
      have "clean (parsed buf es (length rest)) (andThen (parseredirs buf es cm u) (\<lambda>(cm, s). parseexec_loop k buf es cm (args @ [q]) s))"
        if w: "tok = of_char (CHR ''a'')"
      proof (rule parsed_step [OF parseredirs_clean [OF a(1)]])
        show "\<forall>q\<in>set_cmd cm. good_tok buf es q" using Suc.prems(3) by simp
        fix c v r3 assume c: "at buf es v r3" "length r3 \<le> length r2" "\<forall>q\<in>set_cmd c. good_tok buf es q"
        have "tok \<noteq> 0" using w by simp
        then have lt: "length r3 < k" "length r3 \<le> length rest" using a(3) c(2) t(2) Suc.prems(2) le by linarith+
        have "\<forall>q\<in>set_cmd c \<union> set (args @ [q]). good_tok buf es q" using c(3) a(4) [OF w] Suc.prems(3) by auto
        then show "clean (parsed buf es (length rest)) (parseexec_loop k buf es c (args @ [q]) v)"
          by (rule clean_parsed_mono [OF Suc.IH [OF c(1) lt(1)] lt(2)])
      qed
      then show "clean (parsed buf es (length rest)) (if tok = 0 then Inr (set_args args cm, u)
         else if tok \<noteq> of_char (CHR ''a'') then Inl (Panic ''syntax'')
         else
           let args = args @ [q] in
           if length args \<ge> MAXARGS then Inl (Panic ''too many args'')
           else andThen (parseredirs buf es cm u) (\<lambda>(cm, s). parseexec_loop k buf es cm args s))"
        using fin [OF a(1) le] by (simp add: Let_def)
    qed
  qed
qed simp

lemma back_loop_clean:
  "at buf es s rest \<Longrightarrow> length rest < k \<Longrightarrow> \<forall>q\<in>set_cmd cm. good_tok buf es q \<Longrightarrow>
    clean (parsed buf es (length rest)) (back_loop k buf es cm s)"
proof (induction k arbitrary: cm s rest)
  case (Suc k)
  show ?case unfolding back_loop.simps
  proof (rule peek_step [OF Suc.prems(1)], simp_all only: if_True if_False)
    fix t r assume t: "at buf es t r" "length r \<le> length rest" "r \<noteq> []" "trim r = r"
    show "clean (parsed buf es (length rest)) (andThen (gettoken buf es t) (\<lambda>(_, s). back_loop k buf es (backcmd cm) s))"
    proof (rule symbol_step [OF t(1,3,4)])
      fix u r2 assume "at buf es u r2" "length r2 < length r"
      then show "clean (parsed buf es (length rest)) (back_loop k buf es (backcmd cm) u)"
        using t(2) Suc.prems by (intro clean_parsed_mono [OF Suc.IH [of u r2]]) auto
    qed
  qed (use Suc.prems in \<open>auto simp: parsed_def\<close>)
qed simp

text \<open>The four levels of the grammar. At each level the bound is four times the characters that are left, and a little more.\<close>

definition ends :: "byte list \<Rightarrow> nat \<Rightarrow> nat \<Rightarrow> nat \<Rightarrow> (nat \<Rightarrow> (token cmd \<times> nat) res) \<Rightarrow> bool" where
  "ends buf es c k parser \<longleftrightarrow> (\<forall>s rest. at buf es s rest \<and> 4 * length rest + c \<le> k \<longrightarrow> clean (parsed buf es (length rest)) (parser s))"

lemma endsD: "ends buf es c k f \<Longrightarrow> at buf es s rest \<Longrightarrow> 4 * length rest + c \<le> k \<Longrightarrow> clean (parsed buf es (length rest)) (f s)"
  by (simp add: ends_def)

text \<open>What follows a separator: a token and the right side.\<close>

lemma right_side:
  assumes "ends buf es c k f" and "at buf es t r" and "r \<noteq> []" and "trim r = r" and "4 * length r + c \<le> k + 4" and "length r \<le> n"
    and "\<And>right. set_cmd (g right) = A \<union> set_cmd right" and "\<forall>q\<in>A. good_tok buf es q"
  shows "clean (parsed buf es n) (andThen (gettoken buf es t) (\<lambda>(_, s). andThen (f s) (\<lambda>(right, s). Inr (g right, s))))"
proof (rule symbol_step [OF assms(2-4)])
  fix w r4 assume w: "at buf es w r4" "length r4 < length r"
  have le: "4 * length r4 + c \<le> k" "length r4 \<le> n" using w(2) assms(5,6) by linarith+
  show "clean (parsed buf es n) (andThen (f w) (\<lambda>(right, s). Inr (g right, s)))"
    by (rule parsed_step [OF endsD [OF assms(1) w(1) le(1)]]) (use assms(7,8) le(2) in \<open>auto simp: parsed_def\<close>)
qed

lemma parseline_ends:
  assumes "ends buf es 3 k (parsepipe k buf es)" and "ends buf es 4 k (parseline k buf es)"
  shows "ends buf es 4 (Suc k) (parseline (Suc k) buf es)"
  unfolding ends_def
proof (intro allI impI, elim conjE)
  fix s rest assume s: "at buf es s rest" "4 * length rest + 4 \<le> Suc k"
  have le: "4 * length rest + 3 \<le> k" using s(2) by linarith
  show "clean (parsed buf es (length rest)) (parseline (Suc k) buf es s)" unfolding parseline.simps
  proof (rule parsed_step [OF endsD [OF assms(1) s(1) le]], rule parsed_step [OF back_loop_clean])
    fix c t r d u r2
    assume c: "at buf es t r" "length r \<le> length rest" "\<forall>q\<in>set_cmd c. good_tok buf es q"
      and d: "at buf es u r2" "length r2 \<le> length r" "\<forall>q\<in>set_cmd d. good_tok buf es q"
    show "clean (parsed buf es (length rest)) (andThen (peek buf es (map of_char '';'') u) (\<lambda>(b, s).
       if b then andThen (gettoken buf es s) (\<lambda>(_, s). andThen (parseline k buf es s) (\<lambda>(right, s). Inr (listcmd d right, s)))
       else Inr (d, s)))"
      by (rule peek_step [OF d(1)], simp_all only: if_True if_False clean_simps, rule right_side [OF assms(2)], assumption+)
        (use c(2) d(2,3) s(2) in \<open>auto simp: parsed_def\<close>)
  qed (auto dest: at_length)
qed

lemma parsepipe_ends:
  assumes "ends buf es 2 k (parseexec k buf es)" and "ends buf es 3 k (parsepipe k buf es)"
  shows "ends buf es 3 (Suc k) (parsepipe (Suc k) buf es)"
  unfolding ends_def
proof (intro allI impI, elim conjE)
  fix s rest assume s: "at buf es s rest" "4 * length rest + 3 \<le> Suc k"
  have le: "4 * length rest + 2 \<le> k" using s(2) by linarith
  show "clean (parsed buf es (length rest)) (parsepipe (Suc k) buf es s)" unfolding parsepipe.simps
  proof (rule parsed_step [OF endsD [OF assms(1) s(1) le]])
    fix d u r2 assume d: "at buf es u r2" "length r2 \<le> length rest" "\<forall>q\<in>set_cmd d. good_tok buf es q"
    show "clean (parsed buf es (length rest)) (andThen (peek buf es (map of_char ''|'') u) (\<lambda>(b, s).
       if b then andThen (gettoken buf es s) (\<lambda>(_, s). andThen (parsepipe k buf es s) (\<lambda>(right, s). Inr (pipecmd d right, s)))
       else Inr (d, s)))"
      by (rule peek_step [OF d(1)], simp_all only: if_True if_False clean_simps, rule right_side [OF assms(2)], assumption+)
        (use d(2,3) s(2) in \<open>auto simp: parsed_def\<close>)
  qed
qed

text \<open>A block is only parsed at its bracket.\<close>

definition block_ends :: "byte list \<Rightarrow> nat \<Rightarrow> nat \<Rightarrow> bool" where
  "block_ends buf es k \<longleftrightarrow> (\<forall>s rest. at buf es s rest \<and> rest \<noteq> [] \<and> trim rest = rest \<and> 4 * length rest + 1 \<le> k \<longrightarrow>
      clean (parsed buf es (length rest)) (parseblock k buf es s))"

lemma parseblock_ends:
  assumes "ends buf es 4 k (parseline k buf es)"
  shows "block_ends buf es (Suc k)"
  unfolding block_ends_def
proof (intro allI impI, elim conjE)
  fix s rest assume s: "at buf es s rest" "rest \<noteq> []" "trim rest = rest" "4 * length rest + 1 \<le> Suc k"
  show "clean (parsed buf es (length rest)) (parseblock (Suc k) buf es s)" unfolding parseblock.simps
  proof (rule peek_step [OF s(1)], simp_all only: not_True_eq_False not_False_eq_True if_True if_False clean_simps)
    fix t r assume t: "at buf es t r" "length r \<le> length rest" "r \<noteq> []" "trim r = r"
    show "clean (parsed buf es (length rest)) (andThen (gettoken buf es t) (\<lambda>(_, s).
       andThen (parseline k buf es s) (\<lambda>(cmd, s).
       andThen (peek buf es (map of_char '')'') s) (\<lambda>(b, s).
       if \<not> b then Inl (Panic ''syntax - missing )'')
       else andThen (gettoken buf es s) (\<lambda>(_, s). parseredirs buf es cmd s)))))"
    proof (rule symbol_step [OF t(1,3,4)])
      fix u r2 assume u: "at buf es u r2" "length r2 < length r"
      have le: "4 * length r2 + 4 \<le> k" using u(2) t(2) s(4) by linarith
      show "clean (parsed buf es (length rest)) (andThen (parseline k buf es u) (\<lambda>(cmd, s).
         andThen (peek buf es (map of_char '')'') s) (\<lambda>(b, s).
         if \<not> b then Inl (Panic ''syntax - missing )'')
         else andThen (gettoken buf es s) (\<lambda>(_, s). parseredirs buf es cmd s))))"
      proof (rule parsed_step [OF endsD [OF assms u(1) le]])
        fix c v r3 assume c: "at buf es v r3" "length r3 \<le> length r2" "\<forall>q\<in>set_cmd c. good_tok buf es q"
        show "clean (parsed buf es (length rest)) (andThen (peek buf es (map of_char '')'') v) (\<lambda>(b, s).
           if \<not> b then Inl (Panic ''syntax - missing )'')
           else andThen (gettoken buf es s) (\<lambda>(_, s). parseredirs buf es c s)))"
        proof (rule peek_step [OF c(1)], simp_all only: not_True_eq_False not_False_eq_True if_True if_False clean_simps)
          fix w r4 assume w: "at buf es w r4" "length r4 \<le> length r3" "r4 \<noteq> []" "trim r4 = r4"
          show "clean (parsed buf es (length rest)) (andThen (gettoken buf es w) (\<lambda>(_, s). parseredirs buf es c s))"
            by (rule symbol_step [OF w(1,3,4)], rule clean_parsed_mono [OF parseredirs_clean], assumption)
              (use w(2) c(2,3) u(2) t(2) in auto)
        qed
      qed
    qed
  qed
qed

lemma parseexec_ends:
  assumes "block_ends buf es k"
  shows "ends buf es 2 (Suc k) (parseexec (Suc k) buf es)"
  unfolding ends_def
proof (intro allI impI, elim conjE)
  fix s rest assume s: "at buf es s rest" "4 * length rest + 2 \<le> Suc k"
  show "clean (parsed buf es (length rest)) (parseexec (Suc k) buf es s)" unfolding parseexec.simps
  proof (rule peek_step [OF s(1)], simp_all only: if_True if_False)
    fix t r assume t: "at buf es t r" "length r \<le> length rest" "r \<noteq> []" "trim r = r"
    then show "clean (parsed buf es (length rest)) (parseblock k buf es t)"
      using assms s(2) by (intro clean_parsed_mono [OF assms [unfolded block_ends_def, rule_format, of t r]]) auto
  next
    fix t r assume t: "at buf es t r" "length r \<le> length rest"
    show "clean (parsed buf es (length rest)) (andThen (parseredirs buf es execcmd t) (\<lambda>(cm, s). parseexec_loop (Suc es) buf es cm [] s))"
      by (rule parsed_step [OF parseredirs_clean [OF t(1)]], simp, rule clean_parsed_mono [OF parseexec_loop_clean], assumption)
        (use t(2) in \<open>auto dest: at_length\<close>)
  qed
qed

lemma parse_ends:
  "ends buf es 4 k (parseline k buf es) \<and> ends buf es 3 k (parsepipe k buf es) \<and> block_ends buf es k \<and> ends buf es 2 k (parseexec k buf es)"
  by (induction k) (simp_all add: parseline_ends parsepipe_ends parseblock_ends parseexec_ends, simp_all add: ends_def block_ends_def)

section \<open>The words of a command\<close>

definition text_of :: "byte list \<Rightarrow> token \<Rightarrow> byte list" where
  "text_of buf q = take (snd q - fst q) (drop (fst q) buf)"

text \<open>\<open>b\<close> is \<open>buf\<close> with zeros at the ends of some tokens.\<close>

definition zeroed :: "token set \<Rightarrow> byte list \<Rightarrow> byte list \<Rightarrow> bool" where
  "zeroed A buf b \<longleftrightarrow> length b = length buf \<and> (\<forall>i<length buf. b ! i = (if i \<in> snd ` A then 0 else buf ! i))"

lemma zeroed_trans: "zeroed A x y \<Longrightarrow> zeroed B y z \<Longrightarrow> zeroed (A \<union> B) x z"
  by (auto simp: zeroed_def)

lemma zeroed_poke: "snd q < length buf \<Longrightarrow> \<exists>b. poke (snd q) buf = Inr b \<and> zeroed {q} buf b"
  by (simp add: poke_def zeroed_def nth_list_update)

lemma poke_args_ok: "\<forall>q\<in>set args. snd q < length buf \<Longrightarrow> \<exists>b. poke_args args buf = Inr b \<and> zeroed (set args) buf b"
proof (induction args arbitrary: buf)
  case (Cons q args)
  obtain b where b: "poke (snd q) buf = Inr b" "zeroed {q} buf b" using zeroed_poke [of q buf] Cons.prems by auto
  then obtain c where "poke_args args b = Inr c" "zeroed (set args) b c" using Cons.IH [of b] Cons.prems by (auto simp: zeroed_def)
  then show ?case using b zeroed_trans [of "{q}" buf b "set args" c] by simp
qed (simp add: zeroed_def)

lemma nulterminate_ok: "\<forall>q\<in>set_cmd c. snd q < length buf \<Longrightarrow> \<exists>b. nulterminate c buf = Inr b \<and> zeroed (set_cmd c) buf b"
proof (induction c arbitrary: buf)
  case (EXEC args)
  then show ?case using poke_args_ok [of args buf] by simp
next
  case (REDIR c f m fd)
  have "\<forall>q\<in>set_cmd c. snd q < length buf" using REDIR.prems by simp
  then obtain b where b: "nulterminate c buf = Inr b" "zeroed (set_cmd c) buf b" using REDIR.IH by blast
  then obtain d where "poke (snd f) b = Inr d" "zeroed {f} b d" using zeroed_poke [of f b] REDIR.prems by (auto simp: zeroed_def)
  then show ?case using b zeroed_trans [of "set_cmd c" buf b "{f}" d] by (simp add: insert_commute)
next
  case (PIPE a b)
  have "\<forall>q\<in>set_cmd a. snd q < length buf" using PIPE.prems by simp
  then obtain b1 where 1: "nulterminate a buf = Inr b1" "zeroed (set_cmd a) buf b1" using PIPE.IH(1) by blast
  have "\<forall>q\<in>set_cmd b. snd q < length b1" using PIPE.prems 1(2) by (simp add: zeroed_def)
  then obtain b2 where "nulterminate b b1 = Inr b2" "zeroed (set_cmd b) b1 b2" using PIPE.IH(2) by blast
  then show ?case using 1 zeroed_trans [of "set_cmd a" buf b1 "set_cmd b" b2] by simp
next
  case (LIST a b)
  have "\<forall>q\<in>set_cmd a. snd q < length buf" using LIST.prems by simp
  then obtain b1 where 1: "nulterminate a buf = Inr b1" "zeroed (set_cmd a) buf b1" using LIST.IH(1) by blast
  have "\<forall>q\<in>set_cmd b. snd q < length b1" using LIST.prems 1(2) by (simp add: zeroed_def)
  then obtain b2 where "nulterminate b b1 = Inr b2" "zeroed (set_cmd b) b1 b2" using LIST.IH(2) by blast
  then show ?case using 1 zeroed_trans [of "set_cmd a" buf b1 "set_cmd b" b2] by simp
qed simp

lemma word_at_text:
  assumes l: "es < length buf" "0 \<notin> set (take es buf)" and good: "\<forall>p\<in>A. good_tok buf es p" and q: "q \<in> A"
    and z: "zeroed A buf b"
  shows "word_at b q = text_of buf q"
proof -
  have b: "length b = length buf" "\<forall>i<length buf. b ! i = (if i \<in> snd ` A then 0 else buf ! i)" using z by (auto simp: zeroed_def)
  have g: "fst q < snd q" "snd q \<le> es" "\<forall>i. fst q \<le> i \<and> i < snd q \<longrightarrow> is_wordc (buf ! i)" using good q by (auto simp: good_tok_def)
  have same: "b ! i = buf ! i \<and> buf ! i \<noteq> 0" if "fst q \<le> i" "i < snd q" for i
  proof -
    have "i \<notin> snd ` A"
    proof
      assume "i \<in> snd ` A"
      then obtain p where "p \<in> A" "i = snd p" by auto
      then have "i = es \<or> \<not> is_wordc (buf ! i)" using good by (auto simp: good_tok_def)
      then show False using g that by auto
    qed
    moreover have "buf ! i \<in> set (take es buf)" using that g l(1) by (auto simp: in_set_conv_nth intro!: exI [of _ i])
    ultimately show ?thesis using b(2) l that g(2) by auto
  qed
  have z: "b ! snd q = 0" using b(2) q g(2) l(1) by auto
  have "drop (fst q) b = text_of buf q @ 0 # drop (Suc (snd q)) b"
  proof (rule nth_equalityI)
    show "length (drop (fst q) b) = length (text_of buf q @ 0 # drop (Suc (snd q)) b)" using b(1) g l(1) by (simp add: text_of_def)
    fix i assume i: "i < length (drop (fst q) b)"
    consider "i < snd q - fst q" | "i = snd q - fst q" | "i > snd q - fst q" by linarith
    then show "drop (fst q) b ! i = (text_of buf q @ 0 # drop (Suc (snd q)) b) ! i"
      by cases (use i g l b(1) same [of "fst q + i"] z in \<open>auto simp: text_of_def nth_append nth_Cons' less_diff_conv add.commute\<close>)
  qed
  moreover have "0 \<notin> set (text_of buf q)" using same b(1) g l(1) by (force simp: text_of_def in_set_conv_nth less_diff_conv add.commute)
  ultimately show ?thesis by (simp add: word_at_def cstr_append_nul)
qed

lemma line_at:
  assumes "0 \<in> set buf"
  shows "strlen buf = Inr (length (cstr buf))" "length (cstr buf) < length buf" "buf ! length (cstr buf) = 0"
    "0 \<notin> set (take (length (cstr buf)) buf)" "at buf (length (cstr buf)) 0 (take (length (cstr buf)) buf)"
proof -
  show "strlen buf = Inr (length (cstr buf))" using strlen_cstr [OF assms] .
  have "cstr buf \<noteq> buf" using assms cstr_no_nul [of buf] by metis
  then show lt: "length (cstr buf) < length buf" unfolding cstr_def
    using length_takeWhile_le [of "\<lambda>c. c \<noteq> 0" buf] by (metis le_neq_implies_less takeWhile_eq_take take_all order_refl)
  have z: "buf ! length (cstr buf) = 0" using nth_length_takeWhile [of "\<lambda>c. c \<noteq> 0" buf] lt by (simp add: cstr_def)
  have n: "0 \<notin> set (take (length (cstr buf)) buf)" using cstr_no_nul [of buf] by (simp add: cstr_def flip: takeWhile_eq_take)
  show "buf ! length (cstr buf) = 0" "0 \<notin> set (take (length (cstr buf)) buf)" by (fact z n)+
  show "at buf (length (cstr buf)) 0 (take (length (cstr buf)) buf)" using lt z n by (simp add: at_def)
qed

lemma parsecmd_words:
  assumes "0 \<in> set buf"
  shows "clean (\<lambda>(c, b). length b = length buf \<and> (\<forall>q\<in>set_cmd c. good_tok buf (length (cstr buf)) q \<and> word_at b q = text_of buf q)) (parsecmd buf)"
proof -
  define es where "es = length (cstr buf)"
  have es: "strlen buf = Inr es" "es < length buf" "buf ! es = 0" "0 \<notin> set (take es buf)" "at buf es 0 (take es buf)"
    unfolding es_def by (rule line_at [OF assms])+
  have "clean (\<lambda>(c, b). length b = length buf \<and> (\<forall>q\<in>set_cmd c. good_tok buf es q \<and> word_at b q = text_of buf q)) (parsecmd buf)"
    unfolding parsecmd_def es(1) andThen_Inr
  proof (rule parsed_step [OF endsD [OF conjunct1 [OF parse_ends] es(5)]])
    fix c t r assume c: "at buf es t r" "\<forall>q\<in>set_cmd c. good_tok buf es q"
    obtain b where "nulterminate c buf = Inr b" "zeroed (set_cmd c) buf b"
      using nulterminate_ok [of c buf] c(2) es(2) by (force simp: good_tok_def)
    then have fin: "clean (\<lambda>(c, b). length b = length buf \<and> (\<forall>q\<in>set_cmd c. good_tok buf es q \<and> word_at b q = text_of buf q))
      (if u \<noteq> es then Inl (Panic ''syntax'') else andThen (nulterminate c buf) (\<lambda>buf. Inr (c, buf)))" for u
      using word_at_text [OF es(2,4) c(2)] c(2) by (auto simp: zeroed_def)
    show "clean (\<lambda>(c, b). length b = length buf \<and> (\<forall>q\<in>set_cmd c. good_tok buf es q \<and> word_at b q = text_of buf q))
      (andThen (peek buf es [] t) (\<lambda>(_, s). if s \<noteq> es then Inl (Panic ''syntax'') else andThen (nulterminate c buf) (\<lambda>buf. Inr (c, buf))))"
      by (rule peek_step [OF c(1)]) (rule fin)+
  qed (simp add: es(2))
  then show ?thesis unfolding es_def .
qed

text \<open>C35: \<open>parsecmd\<close> is total and stays in its line. On every line that ends with a zero it returns or stops with one of its messages, never
  reading or writing outside the line and never looping; when it returns, every word of the command is a maximal run of the characters
  of words in the line, and \<open>nulterminate\<close> has made exactly that text the string at the word, in spite of the zeros it stored for other words.
\<close>

theorem parsecmd_total:
  assumes "0 \<in> set buf"
  shows "case parsecmd buf of
      Inl e \<Rightarrow> \<exists>m. e = Panic m
    | Inr (c, b) \<Rightarrow> length b = length buf \<and> (\<forall>q\<in>set_cmd c. good_tok buf (length (cstr buf)) q \<and> word_at b q = text_of buf q)"
  using parsecmd_words [OF assms] unfolding clean_def .

theorem parsecmd_total_witness:
  "parsecmd (map of_char ''a|b'' @ [0]) = Inr (PIPE (EXEC [(0, 1)]) (EXEC [(2, 3)]), map of_char ''a'' @ [0] @ map of_char ''b'' @ [0]) \<and>
   word_at (map of_char ''a'' @ [0] @ map of_char ''b'' @ [0]) (2, 3) = map of_char ''b''"
proof -
  have r: "parsecmd (map of_char ''a|b'' @ [0]) = Inr (PIPE (EXEC [(0, 1)]) (EXEC [(2, 3)]), map of_char ''a'' @ [0] @ map of_char ''b'' @ [0])"
    by code_simp
  show ?thesis using parsecmd_total [of "map of_char ''a|b'' @ [0]"] r by (simp add: text_of_def)
qed

section \<open>Tokens of a printed command\<close>

text \<open>Up to white space, the rest of the line at \<open>s\<close>.\<close>

definition near :: "byte list \<Rightarrow> nat \<Rightarrow> nat \<Rightarrow> byte list \<Rightarrow> bool" where
  "near buf es s rest \<longleftrightarrow> (\<exists>r. at buf es s r \<and> trim r = trim rest)"

definition front :: "byte list \<Rightarrow> string \<Rightarrow> bool" where
  "front rest toks \<longleftrightarrow> trim rest \<noteq> [] \<and> among (hd (trim rest)) (map of_char toks)"

lemma near_at: "at buf es s rest \<Longrightarrow> near buf es s rest" "at buf es s (trim rest) \<Longrightarrow> near buf es s rest"
  by (auto simp: near_def trim_trim)

lemma peek_near:
  assumes "near buf es s rest"
  shows "\<exists>t. peek buf es (map of_char toks) s = Inr (front rest toks, t) \<and> near buf es t rest"
proof -
  obtain r where r: "at buf es s r" "trim r = trim rest" using assms by (auto simp: near_def)
  show ?thesis using peek_at [OF r(1), of "map of_char toks"] near_at(2) unfolding r(2) front_def by blast
qed

lemma gettoken_near:
  assumes "near buf es s rest"
  shows "\<exists>q t. gettoken buf es s = Inr ((fst (token_of (trim rest)), (q, q + snd (token_of (trim rest)))), t) \<and>
    at buf es q (trim rest) \<and> near buf es t (drop (snd (token_of (trim rest))) (trim rest))"
proof -
  obtain r where r: "at buf es s r" "trim r = trim rest" using assms by (auto simp: near_def)
  show ?thesis using gettoken_at [OF r(1)] near_at(2) unfolding r(2) by blast
qed

lemma symbol_near:
  assumes "near buf es s rest" and "trim rest = c # r" and "among c (map of_char ''|();&<'') \<or> c = of_char (CHR ''>'') \<and> (r = [] \<or> hd r \<noteq> of_char (CHR ''>''))"
  shows "\<exists>q t. gettoken buf es s = Inr ((c, q), t) \<and> near buf es t r"
proof -
  have "token_of (trim rest) = (c, 1)" unfolding assms(2) using assms(3) by (auto simp: token_of_def)
  then show ?thesis using gettoken_near [OF assms(1)] by (auto simp: assms(2))
qed

definition is_word :: "byte list \<Rightarrow> bool" where
  "is_word w \<longleftrightarrow> w \<noteq> [] \<and> list_all is_wordc w \<and> 0 \<notin> set w"

definition word_ends :: "byte list \<Rightarrow> bool" where
  "word_ends r \<longleftrightarrow> r = [] \<or> \<not> is_wordc (hd r)"

lemma word_near:
  assumes "near buf es s rest" and "trim rest = w @ r" and "is_word w" and "word_ends r"
  shows "\<exists>q t. gettoken buf es s = Inr ((of_char (CHR ''a''), q), t) \<and> text_of buf q = w \<and> near buf es t r"
proof -
  obtain c w' where w: "w = c # w'" using assms(3) by (cases w) (auto simp: is_word_def)
  have c: "is_wordc c" using assms(3) by (simp add: is_word_def w)
  have "takeWhile is_wordc (w @ r) = w"
    using assms(3,4) by (subst takeWhile_append2) (auto simp: is_word_def list_all_iff word_ends_def takeWhile_eq_Nil_iff)
  moreover have "\<not> among c (map of_char ''|();&<'')" "c \<noteq> of_char (CHR ''>'')" using c wordc_symbols by auto
  ultimately have "token_of (trim rest) = (of_char (CHR ''a''), length w)" unfolding assms(2) by (simp add: token_of_def w)
  then obtain q t where g: "gettoken buf es s = Inr ((of_char (CHR ''a''), (q, q + length w)), t)" "at buf es q (w @ r)" "near buf es t r"
    using gettoken_near [OF assms(1)] by (auto simp: assms(2))
  have "text_of buf (q, q + length w) = w"
  proof -
    have "w @ r = drop q (take es buf)" "q \<le> es" using g(2) by (simp_all add: at_def)
    then have "take (length w) (drop q (take es buf)) = w" by (metis append_eq_conv_conj)
    moreover have "length w \<le> es - q" using at_length [OF g(2)] by simp
    ultimately show ?thesis by (simp add: text_of_def drop_take min_absorb1)
  qed
  then show ?thesis using g by blast
qed

lemma end_near:
  assumes "near buf es s rest" and "trim rest = []"
  shows "\<exists>q t. gettoken buf es s = Inr ((0, q), t) \<and> near buf es t rest"
proof -
  have "token_of (trim rest) = (0, 0)" unfolding assms(2) by (simp add: token_of_def)
  then show ?thesis using gettoken_near [OF assms(1)] assms(2) by (auto simp: near_def trim_def)
qed

end
