(* ===== verification/ShellPrint.thy ===== *)
theory ShellPrint
  imports ShellOk
begin

unbundle bit_operations_syntax

text \<open>
  Commands printed as lines, with brackets only where the grammar needs them, and the proof that the parser reads every printed
  command back.
\<close>

section \<open>Printing\<close>

definition ch :: "char \<Rightarrow> byte" where
  "ch c = of_char c"

definition pr_redir :: "byte list \<times> uint \<times> nat \<Rightarrow> byte list" where
  "pr_redir r = (case r of (f, m, fd) \<Rightarrow> (if fd = 0 then ch (CHR ''<'') else ch (CHR ''>'')) # f)"

definition bracket :: "bool \<Rightarrow> byte list \<Rightarrow> byte list" where
  "bracket b t = (if b then ch (CHR ''('') # t @ [ch (CHR '')'')] else t)"

text \<open>The level says where the command stands: 0 a line, 1 before \<open>&\<close> or \<open>;\<close>, 2 in a pipeline, 3 a simple command.\<close>

primrec pr :: "nat \<Rightarrow> byte list cmd \<Rightarrow> byte list" where
  "pr p (EXEC args) = concat (map (\<lambda>w. 32 # w) args)"
| "pr p (REDIR c f m fd) = pr 3 c @ pr_redir (f, m, fd)"
| "pr p (PIPE a b) = bracket (2 < p) (pr 3 a @ ch (CHR ''|'') # pr 2 b)"
| "pr p (LIST a b) = bracket (0 < p) (pr 1 a @ ch (CHR '';'') # pr 0 b)"
| "pr p (BACK a) = bracket (1 < p) (pr 1 a @ [ch (CHR ''&'')])"

definition print_cmd :: "byte list cmd \<Rightarrow> byte list" where
  "print_cmd c = pr 0 c"

text \<open>The commands the shell can express.\<close>

definition wf_redir :: "byte list \<times> uint \<times> nat \<Rightarrow> bool" where
  "wf_redir r = (case r of (f, m, fd) \<Rightarrow> is_word f \<and> (m = O_RDONLY \<and> fd = 0 \<or> m = (O_WRONLY OR O_CREATE) \<and> fd = 1))"

primrec wf_cmd :: "byte list cmd \<Rightarrow> bool" where
  "wf_cmd (EXEC args) \<longleftrightarrow> list_all is_word args \<and> length args < MAXARGS"
| "wf_cmd (REDIR c f m fd) \<longleftrightarrow> wf_cmd c \<and> wf_redir (f, m, fd)"
| "wf_cmd (PIPE a b) \<longleftrightarrow> wf_cmd a \<and> wf_cmd b"
| "wf_cmd (LIST a b) \<longleftrightarrow> wf_cmd a \<and> wf_cmd b"
| "wf_cmd (BACK a) \<longleftrightarrow> wf_cmd a"

section \<open>Redirections\<close>

primrec base :: "'w cmd \<Rightarrow> 'w cmd" where
  "base (EXEC args) = EXEC args"
| "base (REDIR c f m fd) = base c"
| "base (PIPE a b) = PIPE a b"
| "base (LIST a b) = LIST a b"
| "base (BACK a) = BACK a"

primrec redirs :: "'w cmd \<Rightarrow> ('w \<times> uint \<times> nat) list" where
  "redirs (EXEC args) = []"
| "redirs (REDIR c f m fd) = redirs c @ [(f, m, fd)]"
| "redirs (PIPE a b) = []"
| "redirs (LIST a b) = []"
| "redirs (BACK a) = []"

primrec wrap :: "('w \<times> uint \<times> nat) list \<Rightarrow> 'w cmd \<Rightarrow> 'w cmd" where
  "wrap [] c = c"
| "wrap (r # rs) c = (case r of (f, m, fd) \<Rightarrow> wrap rs (REDIR c f m fd))"

lemma wrap_append: "wrap (rs @ [(f, m, fd)]) c = REDIR (wrap rs c) f m fd"
  by (induction rs arbitrary: c) (auto split: prod.splits)

lemma wrap_base: "wrap (redirs c) (base c) = c"
  by (induction c) (simp_all add: wrap_append)

lemma pr_base: "pr 3 c = pr 3 (base c) @ concat (map pr_redir (redirs c))"
  by (induction c) simp_all

lemma wf_base: "wf_cmd c \<Longrightarrow> wf_cmd (base c) \<and> list_all wf_redir (redirs c)"
  by (induction c) simp_all

lemma set_args_wrap: "set_args args (wrap rs (EXEC x)) = wrap rs (EXEC args)"
proof -
  have "set_args args (wrap rs c) = wrap rs (set_args args c)" for c
    by (induction rs arbitrary: c) (auto split: prod.splits)
  then show ?thesis by simp
qed

lemma map_wrap: "map_cmd g (wrap rs c) = wrap (map (\<lambda>(f, m, fd). (g f, m, fd)) rs) (map_cmd g c)"
  by (induction rs arbitrary: c) (auto split: prod.splits)

section \<open>What follows\<close>

text \<open>The text ends, or goes on with one of some characters.\<close>

definition stops :: "string \<Rightarrow> byte list \<Rightarrow> bool" where
  "stops toks rest \<longleftrightarrow> rest = [] \<or> hd rest \<in> set (map of_char toks)"

lemma trim_symbol: "among c symbols \<Longrightarrow> trim (c # r) = c # r"
  by (auto simp: trim_def among_def symbols_def whitespace_def)

lemma trim_word: "is_word w \<Longrightarrow> trim (w @ r) = w @ r"
  by (cases w) (auto simp: trim_def is_word_def is_wordc_def)

lemma trim_space: "trim (32 # r) = trim r"
  by (simp add: trim_def among_def whitespace_def)

lemma stops_trim: "stops toks rest \<Longrightarrow> set toks \<subseteq> set ''<|>&;()'' \<Longrightarrow> trim rest = rest \<and> word_ends rest"
proof (cases rest)
  case (Cons c r)
  assume "stops toks rest" "set toks \<subseteq> set ''<|>&;()''"
  then obtain x where "x \<in> set ''<|>&;()''" "c = of_char x" using Cons by (auto simp: stops_def)
  then have "among c symbols" by (auto simp: among_def symbols_def)
  then show ?thesis using Cons trim_symbol [of c r] by (auto simp: word_ends_def is_wordc_def)
qed (simp add: trim_def word_ends_def)

lemma front_stops: "stops toks rest \<Longrightarrow> set toks \<subseteq> set ''<|>&;()'' \<Longrightarrow> front rest other \<longleftrightarrow> rest \<noteq> [] \<and> hd rest \<in> set (map of_char other)"
  using stops_trim [of toks rest] by (simp add: front_def among_def)

lemma redir_front:
  assumes "wf_redir r"
  shows "trim (pr_redir r @ x) = pr_redir r @ x" "front (pr_redir r @ x) ''<>''" "\<not> front (pr_redir r @ x) ''(''"
    "\<not> front (pr_redir r @ x) ''|)&;''" "word_ends (pr_redir r @ x)"
  by (auto simp: pr_redir_def ch_def trim_symbol front_def among_def symbols_def word_ends_def is_wordc_def split: prod.splits)

lemma redirs_front:
  assumes "list_all wf_redir rs" and "word_ends rest"
  shows "word_ends (concat (map pr_redir rs) @ rest)"
  using assms redir_front(5) by (cases rs) simp_all

text \<open>Redirections are read one by one.\<close>

lemma redirs_loop_near:
  "near buf es s (concat (map pr_redir rs) @ rest) \<Longrightarrow> list_all wf_redir rs \<Longrightarrow> word_ends rest \<Longrightarrow> \<not> front rest ''<>'' \<Longrightarrow>
   \<exists>tr t. (\<forall>K cm. parseredirs_loop (length rs + Suc K) buf es cm s = Inr (wrap tr cm, t)) \<and> near buf es t rest \<and>
     map (\<lambda>(q, m, fd). (text_of buf q, m, fd)) tr = rs"
proof (induction rs arbitrary: s)
  case Nil
  obtain t where "peek buf es (map of_char ''<>'') s = Inr (False, t)" "near buf es t rest"
    using peek_near [OF Nil.prems(1), of "''<>''"] Nil.prems(4) by auto
  then show ?case by (intro exI [of _ "[]"] exI [of _ t]) simp
next
  case (Cons r rs)
  obtain f m fd where r: "r = (f, m, fd)" by (cases r)
  have wf: "wf_redir r" "list_all wf_redir rs" using Cons.prems(2) by simp_all
  have wr: "is_word f" "m = O_RDONLY \<and> fd = 0 \<or> m = (O_WRONLY OR O_CREATE) \<and> fd = 1"
    using wf(1) by (auto simp: r wf_redir_def)
  let ?c = "if fd = 0 then ch (CHR ''<'') else ch (CHR ''>'')"
  let ?rest = "concat (map pr_redir rs) @ rest"
  have tx: "concat (map pr_redir (r # rs)) @ rest = ?c # f @ ?rest" by (simp add: r pr_redir_def)
  have tr: "trim (?c # f @ ?rest) = ?c # f @ ?rest" by (rule trim_symbol) (simp add: ch_def among_def symbols_def)
  obtain t where t: "peek buf es (map of_char ''<>'') s = Inr (True, t)" "near buf es t (?c # f @ ?rest)"
    using peek_near [OF Cons.prems(1), of "''<>''"] redir_front(2) [OF wf(1), of ?rest] unfolding tx by (auto simp: r pr_redir_def [of "(f, m, fd)"])
  have "f \<noteq> []" "is_wordc (hd f)" using wr(1) by (cases f; simp add: is_word_def)+
  then have "hd (f @ ?rest) \<noteq> of_char (CHR ''>'')" using wordc_symbols(2) by (metis hd_append2)
  then obtain q u where u: "gettoken buf es t = Inr ((?c, q), u)" "near buf es u (f @ ?rest)"
    using symbol_near [OF t(2) tr] by (cases "fd = 0") (auto simp: ch_def among_def)
  obtain q' v where v: "gettoken buf es u = Inr ((of_char (CHR ''a''), q'), v)" "text_of buf q' = f" "near buf es v ?rest"
    using word_near [OF u(2) trim_word [OF wr(1)] wr(1) redirs_front [OF wf(2) Cons.prems(3)]] by blast
  obtain tr w where w: "\<And>K cm. parseredirs_loop (length rs + Suc K) buf es cm v = Inr (wrap tr cm, w)" "near buf es w rest"
    "map (\<lambda>(q, m, fd). (text_of buf q, m, fd)) tr = rs"
    using Cons.IH [OF v(3) wf(2) Cons.prems(3,4)] by blast
  have "parseredirs_loop (length (r # rs) + Suc K) buf es cm s = Inr (wrap ((q', m, fd) # tr) cm, w)" for K cm
    using t(1) u(1) v(1) w(1) wr(2) by (auto simp: ch_def Let_def)
  then show ?case using w(2,3) v(2) by (intro exI [of _ "(q', m, fd) # tr"] exI [of _ w]) (simp add: r)
qed

lemma near_length: "near buf es s rest \<Longrightarrow> length (trim rest) \<le> es"
proof -
  assume "near buf es s rest"
  then obtain r where r: "at buf es s r" "trim r = trim rest" by (auto simp: near_def)
  then show ?thesis using length_trim [of r] at_length [OF r(1)] by simp
qed

lemma redirs_length: "list_all wf_redir rs \<Longrightarrow> length rs \<le> length (trim (concat (map pr_redir rs) @ rest))"
proof (cases rs)
  case (Cons r rs')
  assume w: "list_all wf_redir rs"
  have "length rs \<le> length (concat (map pr_redir rs))" for rs by (induction rs) (auto simp: pr_redir_def split: prod.splits)
  from this [of rs] show ?thesis using redir_front(1) [of r "concat (map pr_redir rs') @ rest"] w Cons by simp
qed simp

lemma parseredirs_near:
  assumes "near buf es s (concat (map pr_redir rs) @ rest)" and "list_all wf_redir rs" and "word_ends rest" and "\<not> front rest ''<>''"
  shows "\<exists>tr t. (\<forall>cm. parseredirs buf es cm s = Inr (wrap tr cm, t)) \<and> near buf es t rest \<and> map (\<lambda>(q, m, fd). (text_of buf q, m, fd)) tr = rs"
proof -
  have "length rs \<le> es" using redirs_length [OF assms(2), of rest] near_length [OF assms(1)] by linarith
  then have "Suc es = length rs + Suc (es - length rs)" by simp
  then show ?thesis using redirs_loop_near [OF assms] unfolding parseredirs_def by metis
qed

section \<open>Simple commands\<close>

definition words :: "byte list list \<Rightarrow> byte list" where
  "words ws = concat (map (\<lambda>w. 32 # w) ws)"

lemma words_simps [simp]: "words [] = []" "words (w # ws) = 32 # w @ words ws"
  by (simp_all add: words_def)

lemma word_front:
  assumes "is_word w"
  shows "trim (32 # w @ x) = w @ x" "set toks \<subseteq> set ''<|>&;()'' \<Longrightarrow> \<not> front (32 # w @ x) toks" "word_ends (32 # w @ x)"
proof -
  show tr: "trim (32 # w @ x) = w @ x" unfolding trim_space by (rule trim_word [OF assms])
  obtain c v where w: "w = c # v" using assms by (cases w) (auto simp: is_word_def)
  have "\<not> among c symbols" using assms by (simp add: w is_word_def is_wordc_def)
  then show "\<not> front (32 # w @ x) toks" if "set toks \<subseteq> set ''<|>&;()''"
    using that unfolding front_def tr by (auto simp: w among_def symbols_def)
  show "word_ends (32 # w @ x)" by (simp add: word_ends_def is_wordc_def among_def whitespace_def)
qed

lemma words_ends: "list_all is_word ws \<Longrightarrow> word_ends x \<Longrightarrow> word_ends (words ws @ x)"
  using word_front(3) by (cases ws) simp_all

lemma words_length: "list_all is_word ws \<Longrightarrow> length ws \<le> length (trim (words ws @ x))"
proof (cases ws)
  case (Cons w ws')
  assume w: "list_all is_word ws"
  have "length ws' \<le> length (words ws')" by (induction ws') auto
  then show ?thesis using w word_front(1) [of w "words ws' @ x"] Cons by (cases w) (simp_all add: is_word_def)
qed simp

lemma exec_loop_near:
  "near buf es s (words ws @ concat (map pr_redir rs) @ rest) \<Longrightarrow> list_all is_word ws \<Longrightarrow> list_all wf_redir rs \<Longrightarrow>
   stops ''|)&;'' rest \<Longrightarrow> length args + length ws < MAXARGS \<Longrightarrow>
   \<exists>tws tr t. andThen (parseredirs buf es (EXEC []) s) (\<lambda>(cm, s). parseexec_loop (length ws + Suc K) buf es cm args s)
       = Inr (wrap tr (EXEC (args @ tws)), t) \<and>
     near buf es t rest \<and> map (text_of buf) tws = ws \<and> map (\<lambda>(q, m, fd). (text_of buf q, m, fd)) tr = rs"
proof (induction ws arbitrary: s args)
  case Nil
  have rest: "trim rest = rest" "word_ends rest" "\<not> front rest ''<>''"
    using stops_trim [OF Nil.prems(4)] front_stops [OF Nil.prems(4), of "''<>''"] Nil.prems(4) by (auto simp: stops_def)
  obtain tr t where t: "parseredirs buf es (EXEC []) s = Inr (wrap tr (EXEC []), t)" "near buf es t rest"
      "map (\<lambda>(q, m, fd). (text_of buf q, m, fd)) tr = rs"
    using parseredirs_near [OF Nil.prems(1) [simplified] Nil.prems(3) rest(2,3)] by blast
  obtain u where u: "peek buf es (map of_char ''|)&;'') t = Inr (front rest ''|)&;'', u)" "near buf es u rest"
    using peek_near [OF t(2)] by blast
  show ?case
  proof (cases "rest = []")
    case True
    obtain q v where "gettoken buf es u = Inr ((0, q), v)" "near buf es v rest"
      using end_near [OF u(2)] rest(1) True by auto
    then show ?thesis using t u True by (intro exI [of _ "[]"] exI [of _ tr] exI [of _ v]) (simp add: front_def trim_def set_args_wrap)
  next
    case False
    then have "front rest ''|)&;''" using front_stops [OF Nil.prems(4), of "''|)&;''"] Nil.prems(4) by (simp add: stops_def)
    then show ?thesis using t u by (intro exI [of _ "[]"] exI [of _ tr] exI [of _ u]) (simp add: set_args_wrap)
  qed
next
  case (Cons w ws)
  let ?x = "words ws @ concat (map pr_redir rs) @ rest"
  have w: "is_word w" "list_all is_word ws" using Cons.prems(2) by simp_all
  have n: "near buf es s (32 # w @ ?x)" using Cons.prems(1) by simp
  have "word_ends (concat (map pr_redir rs) @ rest)"
    using redirs_front [OF Cons.prems(3)] stops_trim [OF Cons.prems(4)] by simp
  then have x: "word_ends ?x" by (rule words_ends [OF w(2)])
  obtain t where t: "parseredirs buf es (EXEC []) s = Inr (EXEC [], t)" "near buf es t (32 # w @ ?x)"
    using parseredirs_near [of buf es s "[]", OF _ _ word_front(3) [OF w(1)] word_front(2) [OF w(1)]] n by auto
  obtain u where u: "peek buf es (map of_char ''|)&;'') t = Inr (False, u)" "near buf es u (32 # w @ ?x)"
    using peek_near [OF t(2), of "''|)&;''"] word_front(2) [OF w(1), of "''|)&;''" ?x] by auto
  obtain q v where v: "gettoken buf es u = Inr ((of_char (CHR ''a''), q), v)" "text_of buf q = w" "near buf es v ?x"
    using word_near [OF u(2) word_front(1) [OF w(1)] w(1) x] by blast
  define n where "n = length ws + Suc K"
  obtain tws tr z where z: "andThen (parseredirs buf es (EXEC []) v) (\<lambda>(cm, s). parseexec_loop n buf es cm (args @ [q]) s)
       = Inr (wrap tr (EXEC ((args @ [q]) @ tws)), z)" "near buf es z rest" "map (text_of buf) tws = ws"
      "map (\<lambda>(q, m, fd). (text_of buf q, m, fd)) tr = rs"
    using Cons.IH [OF v(3) w(2) Cons.prems(3,4), of "args @ [q]"] Cons.prems(5) unfolding n_def by auto
  have "length (w # ws) + Suc K = Suc n" by (simp add: n_def)
  moreover have "length args + 1 < MAXARGS" using Cons.prems(5) by simp
  ultimately show ?case using t(1) u(1) v(1,2) z by (intro exI [of _ "q # tws"] exI [of _ tr] exI [of _ z]) simp
qed

section \<open>The levels of the grammar\<close>

text \<open>A parser reads a text as a command and leaves the rest.\<close>

definition reads :: "byte list \<Rightarrow> nat \<Rightarrow> (nat \<Rightarrow> (token cmd \<times> nat) res) \<Rightarrow> byte list \<Rightarrow> byte list cmd \<Rightarrow> byte list \<Rightarrow> bool" where
  "reads buf es f txt c rest \<longleftrightarrow> (\<forall>s. near buf es s (txt @ rest) \<longrightarrow>
     (\<exists>tc t. f s = Inr (tc, t) \<and> near buf es t rest \<and> map_cmd (text_of buf) tc = c))"

lemma readsI:
  "(\<And>s. near buf es s (txt @ rest) \<Longrightarrow> \<exists>tc t. f s = Inr (tc, t) \<and> near buf es t rest \<and> map_cmd (text_of buf) tc = c) \<Longrightarrow> reads buf es f txt c rest"
  by (simp add: reads_def)

lemma readsD:
  "reads buf es f txt c rest \<Longrightarrow> near buf es s (txt @ rest) \<Longrightarrow> \<exists>tc t. f s = Inr (tc, t) \<and> near buf es t rest \<and> map_cmd (text_of buf) tc = c"
  by (simp add: reads_def)

text \<open>A separator that follows is seen and read.\<close>

lemma separator_near:
  assumes "near buf es s (ch c # rest)" and "c \<in> set ''|();&''"
  shows "\<exists>t q u. peek buf es (map of_char [c]) s = Inr (True, t) \<and> gettoken buf es t = Inr ((ch c, q), u) \<and> near buf es u rest"
proof -
  have am: "among (ch c) symbols" using assms(2) by (auto simp: ch_def among_def symbols_def)
  have f: "front (ch c # rest) [c]" unfolding front_def trim_symbol [OF am] using assms(2) by (auto simp: among_def ch_def)
  obtain t where t: "peek buf es (map of_char [c]) s = Inr (True, t)" "near buf es t (ch c # rest)"
    using peek_near [OF assms(1), of "[c]"] f by auto
  have "\<exists>q u. gettoken buf es t = Inr ((ch c, q), u) \<and> near buf es u rest"
    by (rule symbol_near [OF t(2) trim_symbol [OF am]]) (use assms(2) in \<open>auto simp: ch_def among_def\<close>)
  then show ?thesis using t(1) by blast
qed

lemma no_separator_near:
  assumes "near buf es s rest" and "stops toks rest" and "set toks \<subseteq> set ''<|>&;()''" and "c \<notin> set toks" and "c \<in> set ''<|>&;()''"
  shows "\<exists>t. peek buf es (map of_char [c]) s = Inr (False, t) \<and> near buf es t rest"
proof -
  have "\<not> front rest [c]"
    using front_stops [OF assms(2,3), of "[c]"] assms(2-5) by (auto simp: stops_def)
  then show ?thesis using peek_near [OF assms(1), of "[c]"] by simp
qed

lemma pr_bracket: "\<forall>args. base c \<noteq> EXEC args \<Longrightarrow> pr 3 (base c) = ch (CHR ''('') # pr 0 (base c) @ [ch (CHR '')'')]"
  by (induction c) (simp_all add: bracket_def)

lemma block_reads:
  assumes line: "reads buf es (parseline K buf es) (pr 0 b) b (ch (CHR '')'') # concat (map pr_redir rs) @ rest)"
    and rs: "list_all wf_redir rs" and rest: "stops ''|)&;'' rest"
  shows "reads buf es (parseblock (Suc K) buf es) (ch (CHR ''('') # pr 0 b @ ch (CHR '')'') # concat (map pr_redir rs)) (wrap rs b) rest"
proof (rule readsI)
  fix s assume "near buf es s ((ch (CHR ''('') # pr 0 b @ ch (CHR '')'') # concat (map pr_redir rs)) @ rest)"
  then have n: "near buf es s (ch (CHR ''('') # pr 0 b @ ch (CHR '')'') # concat (map pr_redir rs) @ rest)" by simp
  obtain t q u where u: "peek buf es (map of_char ''('') s = Inr (True, t)" "gettoken buf es t = Inr ((ch (CHR ''(''), q), u)"
      "near buf es u (pr 0 b @ ch (CHR '')'') # concat (map pr_redir rs) @ rest)"
    using separator_near [OF n] by auto
  obtain tb v where v: "parseline K buf es u = Inr (tb, v)" "near buf es v (ch (CHR '')'') # concat (map pr_redir rs) @ rest)"
      "map_cmd (text_of buf) tb = b"
    using readsD [OF line u(3)] by blast
  obtain t' q' w where w: "peek buf es (map of_char '')'') v = Inr (True, t')" "gettoken buf es t' = Inr ((ch (CHR '')''), q'), w)"
      "near buf es w (concat (map pr_redir rs) @ rest)"
    using separator_near [OF v(2)] by auto
  have r: "word_ends rest" "\<not> front rest ''<>''"
    using stops_trim [OF rest] front_stops [OF rest, of "''<>''"] rest by (auto simp: stops_def)
  obtain tr z where z: "parseredirs buf es tb w = Inr (wrap tr tb, z)" "near buf es z rest" "map (\<lambda>(q, m, fd). (text_of buf q, m, fd)) tr = rs"
    using parseredirs_near [OF w(3) rs r] by blast
  show "\<exists>tc t. parseblock (Suc K) buf es s = Inr (tc, t) \<and> near buf es t rest \<and> map_cmd (text_of buf) tc = wrap rs b"
    using u(1,2) v(1,3) w(1,2) z by (intro exI [of _ "wrap tr tb"] exI [of _ z]) (simp add: parseblock.simps map_wrap)
qed

lemma simple_reads:
  assumes "list_all is_word ws" and "length ws < MAXARGS" and "list_all wf_redir rs" and "stops ''|)&;'' rest"
  shows "reads buf es (parseexec (Suc K) buf es) (words ws @ concat (map pr_redir rs)) (wrap rs (EXEC ws)) rest"
proof (rule readsI)
  fix s assume "near buf es s ((words ws @ concat (map pr_redir rs)) @ rest)"
  then have n: "near buf es s (words ws @ concat (map pr_redir rs) @ rest)" by simp
  have "\<not> front (words ws @ concat (map pr_redir rs) @ rest) ''(''"
  proof (cases ws)
    case Nil
    then show ?thesis
      using front_stops [OF assms(4), of "''(''"] assms(3,4) redir_front(3) by (cases rs) (auto simp: stops_def)
  next
    case (Cons w ws')
    then show ?thesis using word_front(2) [of w "''(''"] assms(1) by simp
  qed
  then obtain t where t: "peek buf es (map of_char ''('') s = Inr (False, t)" "near buf es t (words ws @ concat (map pr_redir rs) @ rest)"
    using peek_near [OF n, of "''(''"] by auto
  have "length ws \<le> es" using words_length [OF assms(1)] near_length [OF n] le_trans by blast
  then have es: "Suc es = length ws + Suc (es - length ws)" by simp
  obtain tws tr u where u: "andThen (parseredirs buf es (EXEC []) t) (\<lambda>(cm, s). parseexec_loop (Suc es) buf es cm [] s) = Inr (wrap tr (EXEC tws), u)"
      "near buf es u rest" "map (text_of buf) tws = ws" "map (\<lambda>(q, m, fd). (text_of buf q, m, fd)) tr = rs"
    using exec_loop_near [OF t(2) assms(1,3,4), of "[]" "es - length ws"] assms(2) unfolding es [symmetric] by auto
  show "\<exists>tc t. parseexec (Suc K) buf es s = Inr (tc, t) \<and> near buf es t rest \<and> map_cmd (text_of buf) tc = wrap rs (EXEC ws)"
    using t(1) u by (intro exI [of _ "wrap tr (EXEC tws)"] exI [of _ u]) (simp add: parseexec.simps map_wrap del: parseexec_loop.simps)
qed

lemma exec_reads:
  assumes "wf_cmd c" and "stops ''|)&;'' rest"
    and block: "\<And>b rs. \<lbrakk>wf_cmd b; list_all wf_redir rs; pr 3 c = ch (CHR ''('') # pr 0 b @ ch (CHR '')'') # concat (map pr_redir rs)\<rbrakk> \<Longrightarrow>
      reads buf es (parseblock K buf es) (ch (CHR ''('') # pr 0 b @ ch (CHR '')'') # concat (map pr_redir rs)) (wrap rs b) rest"
  shows "reads buf es (parseexec (Suc K) buf es) (pr 3 c) c rest"
proof (cases "\<exists>ws. base c = EXEC ws")
  case True
  then obtain ws where ws: "base c = EXEC ws" by blast
  have w: "list_all is_word ws" "length ws < MAXARGS" "list_all wf_redir (redirs c)" using wf_base [OF assms(1)] by (simp_all add: ws)
  have "pr 3 c = words ws @ concat (map pr_redir (redirs c))" using pr_base [of c] by (simp add: ws words_def)
  then show ?thesis using simple_reads [OF w assms(2), of buf es K] wrap_base [of c] by (simp add: ws)
next
  case False
  then have p: "pr 3 c = ch (CHR ''('') # pr 0 (base c) @ ch (CHR '')'') # concat (map pr_redir (redirs c))"
    using pr_base [of c] pr_bracket [of c] by simp
  have b: "reads buf es (parseblock K buf es) (pr 3 c) c rest"
    using block [OF _ _ p] wf_base [OF assms(1)] wrap_base [of c] unfolding p [symmetric] by simp
  show ?thesis
  proof (rule readsI)
    fix s assume n: "near buf es s (pr 3 c @ rest)"
    have "front (pr 3 c @ rest) ''(''" unfolding p by (simp add: front_def ch_def trim_symbol among_def symbols_def)
    then obtain t where t: "peek buf es (map of_char ''('') s = Inr (True, t)" "near buf es t (pr 3 c @ rest)"
      using peek_near [OF n, of "''(''"] by auto
    then show "\<exists>tc t. parseexec (Suc K) buf es s = Inr (tc, t) \<and> near buf es t rest \<and> map_cmd (text_of buf) tc = c"
      using readsD [OF b t(2)] by (simp add: parseexec.simps)
  qed
qed

lemma pipe_alone_reads:
  assumes e: "reads buf es (parseexec K buf es) txt c rest" and rest: "stops '')&;'' rest"
  shows "reads buf es (parsepipe (Suc K) buf es) txt c rest"
proof (rule readsI)
  fix s assume "near buf es s (txt @ rest)"
  from readsD [OF e this] obtain tc t where t: "parseexec K buf es s = Inr (tc, t)" "near buf es t rest" "map_cmd (text_of buf) tc = c" by blast
  obtain u where "peek buf es (map of_char ''|'') t = Inr (False, u)" "near buf es u rest"
    using no_separator_near [OF t(2) rest, of "CHR ''|''"] by auto
  then show "\<exists>tc t. parsepipe (Suc K) buf es s = Inr (tc, t) \<and> near buf es t rest \<and> map_cmd (text_of buf) tc = c"
    using t by (simp add: parsepipe.simps)
qed

lemma pipe_both_reads:
  assumes a: "reads buf es (parseexec K buf es) ta a (ch (CHR ''|'') # tb @ rest)" and b: "reads buf es (parsepipe K buf es) tb b rest"
  shows "reads buf es (parsepipe (Suc K) buf es) (ta @ ch (CHR ''|'') # tb) (PIPE a b) rest"
proof (rule readsI)
  fix s assume "near buf es s ((ta @ ch (CHR ''|'') # tb) @ rest)"
  then have "near buf es s (ta @ ch (CHR ''|'') # tb @ rest)" by simp
  from readsD [OF a this] obtain ca t where t: "parseexec K buf es s = Inr (ca, t)" "near buf es t (ch (CHR ''|'') # tb @ rest)"
    "map_cmd (text_of buf) ca = a" by blast
  obtain t' q u where u: "peek buf es (map of_char ''|'') t = Inr (True, t')" "gettoken buf es t' = Inr ((ch (CHR ''|''), q), u)" "near buf es u (tb @ rest)"
    using separator_near [OF t(2)] by auto
  from readsD [OF b u(3)] obtain cb v where "parsepipe K buf es u = Inr (cb, v)" "near buf es v rest" "map_cmd (text_of buf) cb = b" by blast
  then show "\<exists>tc t. parsepipe (Suc K) buf es s = Inr (tc, t) \<and> near buf es t rest \<and> map_cmd (text_of buf) tc = PIPE a b"
    using t u by (simp add: parsepipe.simps)
qed

text \<open>What stands before \<open>;\<close>: a pipeline, put in the background by the ampersands that follow it.\<close>

definition reads_back :: "byte list \<Rightarrow> nat \<Rightarrow> nat \<Rightarrow> byte list \<Rightarrow> byte list cmd \<Rightarrow> byte list \<Rightarrow> bool" where
  "reads_back buf es K txt c rest \<longleftrightarrow> (\<forall>s. near buf es s (txt @ rest) \<longrightarrow>
     (\<exists>tc t tp u n. parsepipe K buf es s = Inr (tp, u) \<and> n \<le> length (trim txt) \<and> (\<forall>J. back_loop (n + J) buf es tp u = back_loop J buf es tc t) \<and>
        near buf es t rest \<and> map_cmd (text_of buf) tc = c))"

lemma back_none:
  assumes "reads buf es (parsepipe K buf es) txt c rest"
  shows "reads_back buf es K txt c rest"
  unfolding reads_back_def
proof (intro allI impI)
  fix s assume "near buf es s (txt @ rest)"
  from readsD [OF assms this] obtain tc t where "parsepipe K buf es s = Inr (tc, t)" "near buf es t rest" "map_cmd (text_of buf) tc = c" by blast
  then show "\<exists>tc t tp u n. parsepipe K buf es s = Inr (tp, u) \<and> n \<le> length (trim txt) \<and> (\<forall>J. back_loop (n + J) buf es tp u = back_loop J buf es tc t) \<and>
        near buf es t rest \<and> map_cmd (text_of buf) tc = c"
    by (intro exI [of _ tc] exI [of _ t] exI [of _ tc] exI [of _ t] exI [of _ 0]) simp
qed

lemma trim_snoc: "among c symbols \<Longrightarrow> length (trim (x @ [c])) = Suc (length (trim x))"
proof (induction x)
  case (Cons a x)
  then show ?case by (simp add: trim_def)
qed (simp add: trim_symbol trim_def [of "[]"])

lemma back_one:
  assumes "reads_back buf es K txt c (ch (CHR ''&'') # rest)"
  shows "reads_back buf es K (txt @ [ch (CHR ''&'')]) (BACK c) rest"
  unfolding reads_back_def
proof (intro allI impI)
  fix s assume "near buf es s ((txt @ [ch (CHR ''&'')]) @ rest)"
  then have "near buf es s (txt @ ch (CHR ''&'') # rest)" by simp
  then obtain tc t tp u n where n: "parsepipe K buf es s = Inr (tp, u)" "n \<le> length (trim txt)"
      "\<And>J. back_loop (n + J) buf es tp u = back_loop J buf es tc t" "near buf es t (ch (CHR ''&'') # rest)" "map_cmd (text_of buf) tc = c"
    using assms unfolding reads_back_def by blast
  obtain t' q v where v: "peek buf es (map of_char ''&'') t = Inr (True, t')" "gettoken buf es t' = Inr ((ch (CHR ''&''), q), v)" "near buf es v rest"
    using separator_near [OF n(4)] by auto
  have "back_loop (Suc n + J) buf es tp u = back_loop J buf es (BACK tc) v" for J
    using n(3) [of "Suc J"] v(1,2) by simp
  moreover have "Suc n \<le> length (trim (txt @ [ch (CHR ''&'')]))" using n(2) trim_snoc [of "ch (CHR ''&'')" "txt"] by (simp add: ch_def among_def symbols_def)
  ultimately show "\<exists>tc t tp u m. parsepipe K buf es s = Inr (tp, u) \<and> m \<le> length (trim (txt @ [ch (CHR ''&'')])) \<and>
      (\<forall>J. back_loop (m + J) buf es tp u = back_loop J buf es tc t) \<and> near buf es t rest \<and> map_cmd (text_of buf) tc = BACK c"
    using n(1,5) v(3) by (intro exI [of _ "BACK tc"] exI [of _ v] exI [of _ tp] exI [of _ u] exI [of _ "Suc n"]) simp
qed

lemma back_stops:
  assumes "reads_back buf es K txt c rest" and "stops '');'' rest" and "near buf es s (txt @ rest)"
  shows "\<exists>tc t. andThen (parsepipe K buf es s) (\<lambda>(cmd, s). back_loop (Suc es) buf es cmd s) = Inr (tc, t) \<and> near buf es t rest \<and>
    map_cmd (text_of buf) tc = c"
proof -
  obtain tc t tp u n where n: "parsepipe K buf es s = Inr (tp, u)" "n \<le> length (trim txt)"
      "\<And>J. back_loop (n + J) buf es tp u = back_loop J buf es tc t" "near buf es t rest" "map_cmd (text_of buf) tc = c"
    using assms(1,3) unfolding reads_back_def by blast
  obtain v where v: "peek buf es (map of_char ''&'') t = Inr (False, v)" "near buf es v rest"
    using no_separator_near [OF n(4) assms(2), of "CHR ''&''"] by auto
  have "length (trim txt) \<le> length (trim (txt @ rest))" unfolding trim_def by (induction "txt") (auto intro: le_SucI)
  then have "n \<le> es" using n(2) near_length [OF assms(3)] by linarith
  then have "Suc es = n + Suc (es - n)" by simp
  then have "back_loop (Suc es) buf es tp u = back_loop (Suc (es - n)) buf es tc t" by (metis n(3))
  then have "back_loop (Suc es) buf es tp u = Inr (tc, v)" using v(1) by simp
  then show ?thesis using n(1,5) v(2) by (intro exI [of _ tc] exI [of _ v]) simp
qed

lemma parseline_back:
  "parseline (Suc k) buf es s =
     andThen (andThen (parsepipe k buf es s) (\<lambda>(cmd, s). back_loop (Suc es) buf es cmd s)) (\<lambda>(cmd, s).
     andThen (peek buf es (map of_char '';'') s) (\<lambda>(b, s).
     if b
     then andThen (gettoken buf es s) (\<lambda>(_, s). andThen (parseline k buf es s) (\<lambda>(right, s). Inr (listcmd cmd right, s)))
     else Inr (cmd, s)))"
  unfolding parseline.simps(2) by (cases "parsepipe k buf es s") (auto split: prod.splits simp del: back_loop.simps)

lemma line_alone_reads:
  assumes b: "reads_back buf es K txt c rest" and rest: "stops '')'' rest"
  shows "reads buf es (parseline (Suc K) buf es) txt c rest"
proof (rule readsI)
  fix s assume n: "near buf es s (txt @ rest)"
  have r: "stops '');'' rest" using rest by (auto simp: stops_def)
  obtain tc t where t: "andThen (parsepipe K buf es s) (\<lambda>(cmd, s). back_loop (Suc es) buf es cmd s) = Inr (tc, t)" "near buf es t rest"
      "map_cmd (text_of buf) tc = c"
    using back_stops [OF b r n] by blast
  obtain u where "peek buf es (map of_char '';'') t = Inr (False, u)" "near buf es u rest"
    using no_separator_near [OF t(2) rest, of "CHR '';''"] by auto
  then show "\<exists>tc t. parseline (Suc K) buf es s = Inr (tc, t) \<and> near buf es t rest \<and> map_cmd (text_of buf) tc = c"
    unfolding parseline_back t(1) using t(3) by simp
qed

lemma line_both_reads:
  assumes a: "reads_back buf es K ta a (ch (CHR '';'') # tb @ rest)" and b: "reads buf es (parseline K buf es) tb b rest"
  shows "reads buf es (parseline (Suc K) buf es) (ta @ ch (CHR '';'') # tb) (LIST a b) rest"
proof (rule readsI)
  fix s assume "near buf es s ((ta @ ch (CHR '';'') # tb) @ rest)"
  then have n: "near buf es s (ta @ ch (CHR '';'') # tb @ rest)" by simp
  have r: "stops '');'' (ch (CHR '';'') # tb @ rest)" by (simp add: stops_def ch_def)
  obtain ca t where t: "andThen (parsepipe K buf es s) (\<lambda>(cmd, s). back_loop (Suc es) buf es cmd s) = Inr (ca, t)"
      "near buf es t (ch (CHR '';'') # tb @ rest)" "map_cmd (text_of buf) ca = a"
    using back_stops [OF a r n] by blast
  obtain t' q u where u: "peek buf es (map of_char '';'') t = Inr (True, t')" "gettoken buf es t' = Inr ((ch (CHR '';''), q), u)" "near buf es u (tb @ rest)"
    using separator_near [OF t(2)] by auto
  from readsD [OF b u(3)] obtain cb v where "parseline K buf es u = Inr (cb, v)" "near buf es v rest" "map_cmd (text_of buf) cb = b" by blast
  then show "\<exists>tc t. parseline (Suc K) buf es s = Inr (tc, t) \<and> near buf es t rest \<and> map_cmd (text_of buf) tc = LIST a b"
    unfolding parseline_back t(1) using t(3) u by simp
qed

section \<open>All levels together\<close>

definition level_exec :: "byte list \<Rightarrow> nat \<Rightarrow> nat \<Rightarrow> bool" where
  "level_exec buf es K \<longleftrightarrow> (\<forall>c rest. wf_cmd c \<longrightarrow> stops ''|)&;'' rest \<longrightarrow> 4 * length (pr 3 c) + 2 \<le> K \<longrightarrow> reads buf es (parseexec K buf es) (pr 3 c) c rest)"

definition level_pipe :: "byte list \<Rightarrow> nat \<Rightarrow> nat \<Rightarrow> bool" where
  "level_pipe buf es K \<longleftrightarrow> (\<forall>c rest. wf_cmd c \<longrightarrow> stops '')&;'' rest \<longrightarrow> 4 * length (pr 2 c) + 3 \<le> K \<longrightarrow> reads buf es (parsepipe K buf es) (pr 2 c) c rest)"

definition level_line :: "byte list \<Rightarrow> nat \<Rightarrow> nat \<Rightarrow> bool" where
  "level_line buf es K \<longleftrightarrow> (\<forall>c rest. wf_cmd c \<longrightarrow> stops '')'' rest \<longrightarrow> 4 * length (pr 0 c) + 4 \<le> K \<longrightarrow> reads buf es (parseline K buf es) (pr 0 c) c rest)"

definition level_block :: "byte list \<Rightarrow> nat \<Rightarrow> nat \<Rightarrow> bool" where
  "level_block buf es K \<longleftrightarrow> (\<forall>b rs rest. wf_cmd b \<longrightarrow> list_all wf_redir rs \<longrightarrow> stops ''|)&;'' rest \<longrightarrow> 4 * length (pr 0 b) + 5 \<le> K \<longrightarrow>
     reads buf es (parseblock K buf es) (ch (CHR ''('') # pr 0 b @ ch (CHR '')'') # concat (map pr_redir rs)) (wrap rs b) rest)"

lemma level_block_step: "level_line buf es K \<Longrightarrow> level_block buf es (Suc K)"
  unfolding level_block_def level_line_def
proof (intro allI impI)
  fix b rs rest
  assume l: "\<forall>c rest. wf_cmd c \<longrightarrow> stops '')'' rest \<longrightarrow> 4 * length (pr 0 c) + 4 \<le> K \<longrightarrow> reads buf es (parseline K buf es) (pr 0 c) c rest"
    and b: "wf_cmd b" "list_all wf_redir rs" "stops ''|)&;'' rest" "4 * length (pr 0 b) + 5 \<le> Suc K"
  have "reads buf es (parseline K buf es) (pr 0 b) b (ch (CHR '')'') # concat (map pr_redir rs) @ rest)"
    using l b(1,4) by (simp add: stops_def ch_def)
  then show "reads buf es (parseblock (Suc K) buf es) (ch (CHR ''('') # pr 0 b @ ch (CHR '')'') # concat (map pr_redir rs)) (wrap rs b) rest"
    by (rule block_reads [OF _ b(2,3)])
qed

lemma level_exec_step:
  assumes "level_block buf es K"
  shows "level_exec buf es (Suc K)"
  unfolding level_exec_def
proof (intro allI impI)
  fix c rest assume c: "wf_cmd c" "stops ''|)&;'' rest" "4 * length (pr 3 c) + 2 \<le> Suc K"
  show "reads buf es (parseexec (Suc K) buf es) (pr 3 c) c rest"
  proof (rule exec_reads [OF c(1,2)])
    fix b rs assume b: "wf_cmd b" "list_all wf_redir rs" "pr 3 c = ch (CHR ''('') # pr 0 b @ ch (CHR '')'') # concat (map pr_redir rs)"
    have "4 * length (pr 0 b) + 5 \<le> K" using c(3) unfolding b(3) by simp
    then show "reads buf es (parseblock K buf es) (ch (CHR ''('') # pr 0 b @ ch (CHR '')'') # concat (map pr_redir rs)) (wrap rs b) rest"
      using assms b(1,2) c(2) unfolding level_block_def by blast
  qed
qed

lemma stops_weak: "stops toks rest \<Longrightarrow> set toks \<subseteq> set toks' \<Longrightarrow> stops toks' rest"
  by (auto simp: stops_def)

lemma level_pipe_step:
  assumes e: "level_exec buf es K" and p: "level_pipe buf es K"
  shows "level_pipe buf es (Suc K)"
  unfolding level_pipe_def
proof (intro allI impI)
  fix c rest assume c: "wf_cmd c" "stops '')&;'' rest" "4 * length (pr 2 c) + 3 \<le> Suc K"
  show "reads buf es (parsepipe (Suc K) buf es) (pr 2 c) c rest"
  proof (cases "\<exists>a b. c = PIPE a b")
    case True
    then obtain a b where ab: "c = PIPE a b" by blast
    have "reads buf es (parseexec K buf es) (pr 3 a) a (ch (CHR ''|'') # pr 2 b @ rest)"
      using e c(1,3) unfolding level_exec_def by (simp add: ab bracket_def stops_def ch_def)
    moreover have "reads buf es (parsepipe K buf es) (pr 2 b) b rest"
      using p c unfolding level_pipe_def by (simp add: ab bracket_def)
    ultimately show ?thesis using pipe_both_reads [of buf es K "pr 3 a" a "pr 2 b" rest b] by (simp add: ab bracket_def)
  next
    case False
    then have "pr 2 c = pr 3 c" by (cases c) (auto simp: bracket_def)
    moreover have "stops ''|)&;'' rest" using c(2) by (rule stops_weak) simp
    ultimately have "reads buf es (parseexec K buf es) (pr 2 c) c rest"
      using e c(1,3) unfolding level_exec_def by simp
    then show ?thesis by (rule pipe_alone_reads [OF _ c(2)])
  qed
qed

lemma level_alone:
  "level_pipe buf es K \<Longrightarrow> pr 1 c = pr 2 c \<Longrightarrow> wf_cmd c \<Longrightarrow> stops '')&;'' rest \<Longrightarrow> 4 * length (pr 1 c) + 3 \<le> K \<Longrightarrow> reads_back buf es K (pr 1 c) c rest"
  by (rule back_none) (simp add: level_pipe_def)

lemma level_back:
  assumes p: "level_pipe buf es K"
  shows "wf_cmd c \<Longrightarrow> stops '')&;'' rest \<Longrightarrow> 4 * length (pr 1 c) + 3 \<le> K \<Longrightarrow> reads_back buf es K (pr 1 c) c rest"
proof (induction c arbitrary: rest)
  case (BACK c)
  have "reads_back buf es K (pr 1 c) c (ch (CHR ''&'') # rest)"
    by (rule BACK.IH) (use BACK.prems in \<open>simp_all add: bracket_def stops_def ch_def\<close>)
  then show ?case using back_one by (simp add: bracket_def)
next
  case (EXEC args)
  show ?case by (rule level_alone [OF p _ EXEC]) simp
next
  case (REDIR c f m fd)
  show ?case by (rule level_alone [OF p _ REDIR.prems]) simp
next
  case (PIPE a b)
  show ?case by (rule level_alone [OF p _ PIPE.prems]) (simp add: bracket_def)
next
  case (LIST a b)
  show ?case by (rule level_alone [OF p _ LIST.prems]) (simp add: bracket_def)
qed

lemma level_line_step:
  assumes p: "level_pipe buf es K" and l: "level_line buf es K"
  shows "level_line buf es (Suc K)"
  unfolding level_line_def
proof (intro allI impI)
  fix c rest assume c: "wf_cmd c" "stops '')'' rest" "4 * length (pr 0 c) + 4 \<le> Suc K"
  show "reads buf es (parseline (Suc K) buf es) (pr 0 c) c rest"
  proof (cases "\<exists>a b. c = LIST a b")
    case True
    then obtain a b where ab: "c = LIST a b" by blast
    have "reads_back buf es K (pr 1 a) a (ch (CHR '';'') # pr 0 b @ rest)"
      by (rule level_back [OF p]) (use c(1,3) in \<open>simp_all add: ab bracket_def stops_def ch_def\<close>)
    moreover have "reads buf es (parseline K buf es) (pr 0 b) b rest"
      using l c unfolding level_line_def by (simp add: ab bracket_def)
    ultimately show ?thesis using line_both_reads [of buf es K "pr 1 a" a "pr 0 b" rest b] by (simp add: ab bracket_def)
  next
    case False
    then have e: "pr 0 c = pr 1 c" by (cases c) (auto simp: bracket_def)
    have "stops '')&;'' rest" using c(2) by (rule stops_weak) simp
    then have "reads_back buf es K (pr 0 c) c rest" unfolding e using c(3) by (intro level_back [OF p c(1)]) (simp_all add: e)
    then show ?thesis by (rule line_alone_reads [OF _ c(2)])
  qed
qed

lemma levels: "level_exec buf es K \<and> level_pipe buf es K \<and> level_line buf es K \<and> level_block buf es K"
proof (induction K)
  case 0
  then show ?case by (simp add: level_exec_def level_pipe_def level_line_def level_block_def)
next
  case (Suc K)
  then show ?case using level_exec_step level_pipe_step level_line_step level_block_step by blast
qed

section \<open>The round trip\<close>

lemma pr_nonzero: "wf_cmd c \<Longrightarrow> 0 \<notin> set (pr p c)"
  by (induction c arbitrary: p) (auto simp: bracket_def ch_def is_word_def wf_redir_def pr_redir_def list_all_iff)

lemma parsecmd_done:
  assumes l: "parseline (4 * length txt + 5) (txt @ [0]) (length txt) 0 = Inr (tc, t)" and n: "near (txt @ [0]) (length txt) t []"
    and z: "0 \<notin> set txt"
  shows "\<exists>b. parsecmd (txt @ [0]) = Inr (tc, b) \<and> map_cmd (word_at b) tc = map_cmd (text_of (txt @ [0])) tc"
proof -
  let ?buf = "txt @ [0]" and ?es = "length txt"
  have c: "cstr ?buf = txt" using z by (simp add: cstr_append_nul)
  have es: "strlen ?buf = Inr ?es" "at ?buf ?es 0 txt" using line_at(1,5) [of ?buf] by (simp_all add: c)
  obtain r where r: "at ?buf ?es t r" "trim r = []" using n by (auto simp: near_def trim_def)
  obtain u where "peek ?buf ?es [] t = Inr (False, u)" "at ?buf ?es u []" using peek_at [OF r(1), of "[]"] r(2) by auto
  then have u: "peek ?buf ?es [] t = Inr (False, ?es)" using at_Nil by blast
  have "clean (parsed ?buf ?es ?es) (parseline (4 * ?es + 5) ?buf ?es 0)"
    using endsD [OF conjunct1 [OF parse_ends] es(2), of "4 * ?es + 5"] by simp
  then have "\<forall>q\<in>set_cmd tc. snd q < length ?buf" unfolding l by (auto simp: parsed_def good_tok_def)
  then obtain b where b: "nulterminate tc ?buf = Inr b" using nulterminate_ok by blast
  have p: "parsecmd ?buf = Inr (tc, b)" unfolding parsecmd_def es(1) andThen_Inr l by (simp add: u b)
  then have "\<forall>q\<in>set_cmd tc. word_at b q = text_of ?buf q" using parsecmd_words [of ?buf] by simp
  then show ?thesis using p by (auto intro!: cmd.map_cong0)
qed

text \<open>C10: Parsing undoes printing. Every command of the shell - a pipeline, a list, a background command, redirections of any of them -
  is written as a line with brackets only where the grammar needs them, and \<open>parsecmd\<close> reads from that line the command itself: the same tree,
  with the same words as the terminated strings in the line.\<close>

theorem parsecmd_print:
  assumes "wf_cmd c"
  shows "\<exists>tc b. parsecmd (print_cmd c @ [0]) = Inr (tc, b) \<and> map_cmd (word_at b) tc = c"
proof -
  let ?t = "print_cmd c" and ?es = "length (print_cmd c)"
  have z: "0 \<notin> set ?t" unfolding print_cmd_def by (rule pr_nonzero [OF assms])
  have "at (?t @ [0]) ?es 0 ?t" using line_at(5) [of "?t @ [0]"] z by (simp add: cstr_append_nul)
  then have n: "near (?t @ [0]) ?es 0 (?t @ [])" by (simp add: near_at(1))
  have "reads (?t @ [0]) ?es (parseline (4 * ?es + 5) (?t @ [0]) ?es) ?t c []"
    using levels [of "?t @ [0]" ?es "4 * ?es + 5"] assms unfolding level_line_def by (simp add: stops_def flip: print_cmd_def)
  from readsD [OF this n] obtain tc t where t: "parseline (4 * ?es + 5) (?t @ [0]) ?es 0 = Inr (tc, t)" "near (?t @ [0]) ?es t []"
      "map_cmd (text_of (?t @ [0])) tc = c" by blast
  then show ?thesis using parsecmd_done [OF t(1,2) z] by auto
qed

theorem parsecmd_print_witness:
  "\<exists>tc b. parsecmd (map of_char ''( a; b&)| c>d'' @ [0]) = Inr (tc, b) \<and>
     map_cmd (word_at b) tc =
       PIPE (LIST (EXEC [map of_char ''a'']) (BACK (EXEC [map of_char ''b''])))
            (REDIR (EXEC [map of_char ''c'']) (map of_char ''d'') (O_WRONLY OR O_CREATE) 1)"
proof -
  let ?c = "PIPE (LIST (EXEC [map of_char ''a'']) (BACK (EXEC [map of_char ''b''])))
            (REDIR (EXEC [map of_char ''c'']) (map of_char ''d'') (O_WRONLY OR O_CREATE) 1)"
  have w: "wf_cmd ?c" by (simp add: is_word_def is_wordc_def among_def whitespace_def symbols_def wf_redir_def MAXARGS_def)
  have p: "print_cmd ?c = map of_char ''( a; b&)| c>d''" by (simp add: print_cmd_def bracket_def ch_def pr_redir_def)
  show ?thesis using parsecmd_print [OF w] unfolding p .
qed

end
