(* ===== verification/Net.thy ===== *)
theory Net
  imports Prelude
begin

unbundle bit_operations_syntax

text \<open>
  The checksums of the network library (\<^verbatim>\<open>net/net.c\<close>) and the byte order macros (\<^verbatim>\<open>net/net.h\<close>), over the bytes of the headers.
  The specification is the check of a receiver: the one's complement sum of the words of the packet, in network order and
  with the checksum in place, is \<open>0xFFFF\<close>.
\<close>

section \<open>Byte order\<close>

definition HTONS :: "ushort \<Rightarrow> ushort" where
  "HTONS x = drop_bit 8 x OR push_bit 8 x"

definition HTONL :: "uint \<Rightarrow> uint" where
  "HTONL x =
     (drop_bit 24 x AND 0x000000FF) OR (drop_bit 8 x AND 0x0000FF00) OR
     (push_bit 8 x AND 0x00FF0000) OR (push_bit 24 x AND 0xFF000000)"

section \<open>Checksums\<close>

text \<open>The loop over whole words: from byte \<open>i\<close>, with \<open>size\<close> bytes to go; what is left of \<open>size\<close>, where, and the sum.\<close>

function words_loop :: "byte list \<Rightarrow> nat \<Rightarrow> int \<Rightarrow> uint \<Rightarrow> (nat \<times> int \<times> uint) res" where
  "words_loop bs i sz acc =
     (if sz > 1
      then if i + 2 \<le> length bs then words_loop bs (i + 2) (sz - 2) (acc + ucast (get16 bs i)) else Inl (Wild ''checksum'')
      else Inr (i, sz, acc))"
  by pat_completeness auto
termination
  by (relation "measure (\<lambda>(bs, i, sz, acc). nat sz)") auto

declare words_loop.simps [simp del]

definition fold16 :: "uint \<Rightarrow> uint" where
  "fold16 acc = (acc AND 0xFFFF) + drop_bit 16 acc"

definition checksum :: "byte list \<Rightarrow> int \<Rightarrow> ushort res" where
  "checksum buf sz =
     andThen (words_loop buf 0 sz 0) (\<lambda>(i, sz, acc).
     andThen (if sz > 0 then andThen (rd ''checksum'' buf i) (\<lambda>b. Inr (acc + ucast b)) else Inr acc) (\<lambda>acc.
     Inr (ucast (NOT (fold16 (fold16 acc))))))"

text \<open>Offsets of the fields: \<open>ver_ihl\<close> 0, \<open>protocol\<close> 9, \<open>checksum\<close> 10, \<open>src\<close> 12, \<open>dst\<close> 16 of an IP header; \<open>length\<close> 4, \<open>checksum\<close> 6 of a UDP header.\<close>

definition ip4_checksum :: "byte list \<Rightarrow> byte list res" where
  "ip4_checksum hdr =
     (if length hdr < 20 then Inl (Wild ''ip4_checksum'')
      else
        let hdr = put16 hdr 10 0 in
        andThen (checksum hdr (uint ((hdr ! 0) AND 0xF) * 4)) (\<lambda>c. Inr (put16 hdr 10 c)))"

definition udp_checksum :: "byte list \<Rightarrow> byte list \<Rightarrow> byte list \<Rightarrow> byte list res" where
  "udp_checksum ip udp data =
     (if length ip < 20 \<or> length udp < 8 then Inl (Wild ''udp_checksum'')
      else
        let udp = put16 udp 6 0;
            acc = 0 + (drop_bit 16 (get32 ip 12) AND 0xFFFF) + (get32 ip 12 AND 0xFFFF)
                    + (drop_bit 16 (get32 ip 16) AND 0xFFFF) + (get32 ip 16 AND 0xFFFF)
                    + ucast (HTONS (ucast (ip ! 9))) + ucast (get16 udp 4)
                    + ucast (get16 udp 0) + ucast (get16 udp 2) + ucast (get16 udp 4) + ucast (get16 udp 6);
            sz = uint (HTONS (get16 udp 4)) - 8
        in andThen (words_loop data 0 sz acc) (\<lambda>(i, sz, acc).
           andThen (if sz \<noteq> 0 then andThen (rd ''udp_checksum'' data i) (\<lambda>b. Inr (acc + ucast b)) else Inr acc) (\<lambda>acc.
           Inr (put16 udp 6 (ucast (NOT (fold16 (fold16 acc))))))))"

section \<open>The sum of the words\<close>

fun le_sum :: "byte list \<Rightarrow> nat" where
  "le_sum (a # b # r) = unat a + 256 * unat b + le_sum r"
| "le_sum [a] = unat a"
| "le_sum [] = 0"

fun be_sum :: "byte list \<Rightarrow> nat" where
  "be_sum (a # b # r) = 256 * unat a + unat b + be_sum r"
| "be_sum [a] = 256 * unat a"
| "be_sum [] = 0"

lemma le_sum_append: "even (length xs) \<Longrightarrow> le_sum (xs @ ys) = le_sum xs + le_sum ys"
  by (induction xs rule: le_sum.induct) auto

lemma byte_less: "unat (a :: byte) < 256"
  using unsigned_less [of a] by simp

lemma le_sum_bound: "2 * le_sum xs \<le> 65535 * (length xs + 1)"
proof (induction xs rule: le_sum.induct)
  case (1 a b r)
  then show ?case using byte_less [of a] byte_less [of b] by simp
next
  case (2 a)
  then show ?case using byte_less [of a] by simp
qed simp

text \<open>The sum does not depend on the byte order, up to a rotation that keeps zero.\<close>

lemma be_le_sum: "be_sum xs mod 65535 = (256 * le_sum xs) mod 65535"
proof (induction xs rule: be_sum.induct)
  case (1 a b r)
  have "be_sum (a # b # r) mod 65535 = (256 * unat a + unat b + be_sum r mod 65535) mod 65535" by (simp add: mod_simps)
  also have "\<dots> = (256 * unat a + unat b + 256 * le_sum r) mod 65535" using 1 by (simp add: mod_simps)
  also have "\<dots> = (256 * le_sum (a # b # r)) mod 65535"
  proof -
    have "256 * le_sum (a # b # r) = 256 * unat a + unat b + 256 * le_sum r + 65535 * unat b" by (simp add: algebra_simps)
    then show ?thesis by (metis mod_mult_self2)
  qed
  finally show ?case .
qed simp_all

lemma be_sum_0: "be_sum xs = 0 \<longleftrightarrow> le_sum xs = 0"
  by (induction xs rule: be_sum.induct) auto

text \<open>One's complement addition, with the carry added back in.\<close>

definition oc_add :: "nat \<Rightarrow> nat \<Rightarrow> nat" where
  "oc_add a b = (if a + b > 65535 then a + b - 65535 else a + b)"

fun oc_sum :: "byte list \<Rightarrow> nat" where
  "oc_sum (a # b # r) = oc_add (256 * unat a + unat b) (oc_sum r)"
| "oc_sum [a] = 256 * unat a"
| "oc_sum [] = 0"

definition canon :: "nat \<Rightarrow> nat" where
  "canon n = (if n = 0 then 0 else (n - 1) mod 65535 + 1)"

lemma canon_small: "n \<le> 65535 \<Longrightarrow> canon n = n"
  by (simp add: canon_def)

lemma oc_add_canon: "n \<le> 65535 \<Longrightarrow> oc_add n (canon k) = canon (n + k)"
proof -
  assume n: "n \<le> 65535"
  show ?thesis
  proof (cases "k = 0 \<or> n = 0")
    case True
    then show ?thesis using n by (auto simp: oc_add_def canon_def intro: Suc_leI)
  next
    case False
    define q where "q = (k - 1) mod 65535"
    have q: "q < 65535" by (simp add: q_def)
    have "(n + k - 1) mod 65535 = (n + q) mod 65535"
      using False by (simp add: q_def mod_simps)
    also have "\<dots> = (if n + q \<ge> 65535 then n + q - 65535 else n + q)"
      using n q by (simp add: mod_if le_mod_geq)
    finally have e: "(n + k - 1) mod 65535 = (if n + q \<ge> 65535 then n + q - 65535 else n + q)" .
    have "canon (n + k) = (n + k - 1) mod 65535 + 1" "canon k = q + 1" using False by (simp_all add: canon_def q_def)
    then show ?thesis unfolding e by (auto simp: oc_add_def)
  qed
qed

lemma oc_sum_canon: "oc_sum xs = canon (be_sum xs)"
proof (induction xs rule: oc_sum.induct)
  case (1 a b r)
  then show ?case using oc_add_canon [of "256 * unat a + unat b" "be_sum r"] byte_less [of a] byte_less [of b] by simp
next
  case (2 a)
  then show ?case using byte_less [of a] by (simp add: canon_small)
qed (simp add: canon_def)

lemma oc_sum_valid:
  assumes "le_sum xs mod 65535 = 0" and "le_sum xs > 0"
  shows "oc_sum xs = 0xFFFF"
proof -
  have "be_sum xs mod 65535 = 0" using be_le_sum [of xs] assms(1) by (metis mod_mult_right_eq mult_0_right mod_0)
  moreover have "be_sum xs > 0" using assms(2) be_sum_0 [of xs] by simp
  ultimately obtain k where "be_sum xs = 65535 * Suc k" by (metis mod_0_imp_dvd dvdE mult_0_right gr0_conv_Suc less_not_refl neq0_conv)
  moreover have "(65535 * Suc k - 1) mod 65535 = 65534" by simp
  ultimately show ?thesis by (simp add: oc_sum_canon canon_def)
qed

section \<open>What the loops compute\<close>

lemma word16_join: "ucast (a :: byte) OR push_bit 8 (ucast (b :: byte)) = (ucast a + push_bit 8 (ucast b) :: ushort)"
  by (rule disjunctive_add_eq_or [symmetric]) (rule bit_word_eqI, auto simp: bit_simps dest: bit_imp_le_length)

lemma get16_nat: "unat (get16 bs i) = unat (bs ! i) + 256 * unat (bs ! (i + 1))"
proof -
  have "get16 bs i = of_nat (unat (bs ! i) + 256 * unat (bs ! (i + 1)))"
    unfolding get16_def word16_join by (simp add: push_bit_eq_mult)
  moreover have "unat (bs ! i) + 256 * unat (bs ! (i + 1)) < 2 ^ 16"
    using byte_less [of "bs ! i"] byte_less [of "bs ! (i + 1)"] by simp
  moreover have "unat (of_nat k :: ushort) = k" if "k < 2 ^ 16" for k using that by (simp add: unat_of_nat)
  ultimately show ?thesis by metis
qed

lemma fold16_nat: "unat (fold16 w) = unat w mod 65536 + unat w div 65536"
proof -
  have "w AND 0xFFFF = take_bit 16 w" by (simp add: take_bit_eq_mask mask_eq_exp_minus_1)
  moreover have "unat (take_bit 16 w) = unat w mod 65536" unfolding unsigned_take_bit_eq by (simp add: take_bit_eq_mod)
  ultimately have a: "unat (w AND 0xFFFF) = unat w mod 65536" by simp
  have b: "unat (drop_bit 16 w) = unat w div 65536" unfolding unsigned_drop_bit_eq by (simp add: drop_bit_eq_div take_bit_nat_eq_self)
  have "unat w div 65536 < 65536" using unat_uint_less [of w] by linarith
  moreover have "unat w mod 65536 < 65536" by simp
  ultimately have "unat w mod 65536 + unat w div 65536 < 2 ^ 32" by simp
  then show ?thesis unfolding fold16_def by (subst unat_add_lem [THEN iffD1]) (simp_all add: a b)
qed

lemma fold_bound: "n < 4294967296 \<Longrightarrow> n mod 65536 + n div 65536 \<le> (131070 :: nat)"
proof -
  assume "n < 4294967296"
  then have "n div 65536 \<le> 65535" by linarith
  moreover have "n mod 65536 < 65536" by simp
  ultimately show ?thesis by linarith
qed

lemma fold_bound2: "k \<le> 131070 \<Longrightarrow> k mod 65536 + k div 65536 \<le> (65535 :: nat)"
proof (cases "k < 65536")
  case False
  assume "k \<le> 131070"
  then have "k div 65536 = 1" "k mod 65536 = k - 65536" using False by (auto simp: mod_if div_nat_eqI)
  then show ?thesis using \<open>k \<le> 131070\<close> by simp
qed simp

lemma fold_mod: "(k mod 65536 + k div 65536) mod 65535 = k mod (65535 :: nat)"
proof -
  have "k = (k mod 65536 + k div 65536) + 65535 * (k div 65536)" using div_mult_mod_eq [of k 65536] by simp
  then show ?thesis by (metis mod_mult_self2)
qed

lemma fold16_twice: "unat (fold16 (fold16 w)) \<le> 65535 \<and> unat (fold16 (fold16 w)) mod 65535 = unat w mod 65535"
  unfolding fold16_nat fold_mod using fold_bound2 [OF fold_bound [OF unat_uint_less [of w]]] by simp

lemma complement_nat: "unat w \<le> 65535 \<Longrightarrow> unat (ucast (NOT (w :: uint)) :: ushort) = 65535 - unat w"
proof -
  assume "unat w \<le> 65535"
  then have u: "unat (ucast w :: ushort) = unat w" by (simp add: unsigned_ucast_eq take_bit_eq_mod)
  have "(ucast (NOT w) :: ushort) = NOT (ucast w)" by (rule bit_word_eqI) (simp add: bit_simps)
  also have "\<dots> = - 1 - ucast w" by (simp add: not_eq_complement)
  finally have "unat (ucast (NOT w) :: ushort) = unat (- 1 - ucast w :: ushort)" by simp
  also have "\<dots> = unat (- 1 :: ushort) - unat (ucast w :: ushort)" by (rule unat_sub) simp
  also have "unat (- 1 :: ushort) = 65535" by (simp add: unsigned_minus_1_eq_mask mask_eq_exp_minus_1)
  finally show ?thesis by (simp only: u)
qed

lemma take_two: "i + 2 \<le> length bs \<Longrightarrow> take (Suc (Suc n)) (drop i bs) = bs ! i # bs ! (i + 1) # take n (drop (i + 2) bs)"
  using Cons_nth_drop_Suc [of i bs] Cons_nth_drop_Suc [of "i + 1" bs] by (metis Suc_eq_plus1 Suc_le_lessD add_2_eq_Suc' le_SucI not_less_eq_eq take_Suc_Cons)

lemma words_loop_sum:
  "i + n \<le> length bs \<Longrightarrow>
   words_loop bs i (int n) acc = Inr (i + 2 * (n div 2), int (n mod 2), acc + of_nat (le_sum (take (2 * (n div 2)) (drop i bs))))"
proof (induction n arbitrary: i acc rule: less_induct)
  case (less n)
  show ?case
  proof (cases "n < 2")
    case True
    then show ?thesis by (auto simp: words_loop.simps [of bs i "int n"] less_2_cases_iff)
  next
    case False
    then obtain m where m: "n = Suc (Suc m)" by (metis less_2_cases_iff not0_implies_Suc One_nat_def)
    have "words_loop bs i (int n) acc = words_loop bs (i + 2) (int m) (acc + ucast (get16 bs i))"
      using less.prems by (subst words_loop.simps) (simp add: m)
    also have "\<dots> = Inr (i + 2 + 2 * (m div 2), int (m mod 2), acc + ucast (get16 bs i) + of_nat (le_sum (take (2 * (m div 2)) (drop (i + 2) bs))))"
      by (rule less.IH) (use less.prems in \<open>simp_all add: m\<close>)
    finally have *: "words_loop bs i (int n) acc = \<dots>" .
    have g: "(ucast (get16 bs i) :: uint) = of_nat (unat (bs ! i) + 256 * unat (bs ! (i + 1)))"
      unfolding get16_nat [symmetric] by (rule of_nat_unat [symmetric])
    have e: "2 * (n div 2) = Suc (Suc (2 * (m div 2)))" "n mod 2 = m mod 2" by (simp_all add: m)
    have "i + 2 \<le> length bs" using less.prems m by simp
    then show ?thesis unfolding * g e take_two [OF \<open>i + 2 \<le> length bs\<close>] by simp
  qed
qed

text \<open>Both tails add the last byte of an odd number.\<close>

lemma words_tail:
  assumes "n \<le> length bs" and P: "P (int (n mod 2)) \<longleftrightarrow> odd n"
  shows "andThen (words_loop bs 0 (int n) acc) (\<lambda>(i, sz, acc). andThen (if P sz then andThen (rd w bs i) (\<lambda>b. Inr (acc + ucast b)) else Inr acc) k)
    = k (acc + of_nat (le_sum (take n bs)))"
proof -
  have l: "words_loop bs 0 (int n) acc = Inr (2 * (n div 2), int (n mod 2), acc + of_nat (le_sum (take (2 * (n div 2)) bs)))"
    using words_loop_sum [of 0 n bs acc] assms(1) by simp
  show ?thesis
  proof (cases "odd n")
    case True
    then have n: "n = Suc (2 * (n div 2))" by presburger
    then have lt: "2 * (n div 2) < length bs" using assms(1) by linarith
    have "take n bs = take (2 * (n div 2)) bs @ [bs ! (2 * (n div 2))]" by (subst n) (rule take_Suc_conv_app_nth [OF lt])
    then have "le_sum (take n bs) = le_sum (take (2 * (n div 2)) bs) + unat (bs ! (2 * (n div 2)))"
      using le_sum_append [of "take (2 * (n div 2)) bs" "[bs ! (2 * (n div 2))]"] lt by simp
    moreover have "(ucast (bs ! (2 * (n div 2))) :: uint) = of_nat (unat (bs ! (2 * (n div 2))))" by simp
    ultimately show ?thesis using P lt unfolding l andThen_Inr by (simp only: True not_False_eq_True if_True prod.case rd_in andThen_Inr of_nat_add add.assoc)
  next
    case False
    then have "2 * (n div 2) = n" by presburger
    then show ?thesis using P False unfolding l by simp
  qed
qed

section \<open>A receiver accepts the packet\<close>

lemma complement_valid:
  assumes "n < 4294967296"
  shows "(n + unat (ucast (NOT (fold16 (fold16 (of_nat n :: uint)))) :: ushort)) mod 65535 = 0"
    and "n + unat (ucast (NOT (fold16 (fold16 (of_nat n :: uint)))) :: ushort) > 0"
proof -
  define k where "k = unat (fold16 (fold16 (of_nat n :: uint)))"
  have u: "unat (of_nat n :: uint) = n" using assms by (simp add: unat_of_nat)
  have k: "k \<le> 65535" "k mod 65535 = n mod 65535" using fold16_twice [of "of_nat n"] unfolding u k_def by blast+
  have c: "unat (ucast (NOT (fold16 (fold16 (of_nat n :: uint)))) :: ushort) = 65535 - k" unfolding k_def by (rule complement_nat) (use k(1) in \<open>simp add: k_def\<close>)
  have "(n + (65535 - k)) mod 65535 = (k + (65535 - k)) mod 65535" using k(2) by (metis mod_add_left_eq)
  then show "(n + unat (ucast (NOT (fold16 (fold16 (of_nat n :: uint)))) :: ushort)) mod 65535 = 0" unfolding c using k(1) by simp
  show "n + unat (ucast (NOT (fold16 (fold16 (of_nat n :: uint)))) :: ushort) > 0"
    unfolding c by (cases "n = 0") (simp_all add: k_def fold16_def)
qed

lemma le_sum_bytes16: "le_sum (bytes16 w) = unat w"
proof -
  have "get16 (bytes16 w) 0 = w" using get16_put16_same [of 0 "[0, 0]" w] by (simp add: put16_def patch_def)
  then show ?thesis using get16_nat [of "bytes16 w" 0] by (simp add: bytes16_def)
qed

lemma le_sum_put16:
  assumes "off + 2 \<le> n" and "n \<le> length bs" and "even off"
  shows "le_sum (take n (put16 bs off w)) = le_sum (take n (put16 bs off 0)) + unat w"
proof -
  have "take n (put16 bs off v) = take off bs @ bytes16 v @ take (n - off - 2) (drop (off + 2) bs)" for v
    using assms(1,2) by (simp add: put16_def patch_def take_drop)
  moreover have "even (length (take off bs))" using assms by simp
  ultimately show ?thesis by (simp add: le_sum_append le_sum_bytes16)
qed

definition header_size :: "byte list \<Rightarrow> nat" where
  "header_size hdr = unat ((hdr ! 0) AND 0xF) * 4"

lemma ip4_checksum_ok:
  assumes "20 \<le> header_size hdr" and "header_size hdr \<le> length hdr"
  shows "\<exists>c. ip4_checksum hdr = Inr (put16 hdr 10 c) \<and> oc_sum (take (header_size hdr) (put16 hdr 10 c)) = 0xFFFF"
proof -
  define n where "n = header_size hdr"
  define s where "s = le_sum (take n (put16 hdr 10 0))"
  define c where "c = (ucast (NOT (fold16 (fold16 (of_nat s :: uint)))) :: ushort)"
  have l: "20 \<le> length hdr" "n \<le> length hdr" "12 \<le> n" using assms by (simp_all add: n_def)
  have "unat ((hdr ! 0) AND 0xF) \<le> 15" using word_and_le1 [of "hdr ! 0" "0xF"] by (simp add: word_le_nat_alt)
  then have "n \<le> 60" by (simp add: n_def header_size_def)
  then have "s < 4294967296" using le_sum_bound [of "take n (put16 hdr 10 0)"] l by (simp add: s_def)
  from complement_valid [OF this] have v: "(s + unat c) mod 65535 = 0" "s + unat c > 0" by (simp_all add: c_def)
  have p: "put16 (put16 hdr 10 0) 10 c = put16 hdr 10 c" using l(1) by (simp add: put16_def patch_def)
  have h: "put16 hdr 10 0 ! 0 = hdr ! 0" using l(1) by (cases hdr) (simp_all add: put16_def patch_def)
  have i: "uint ((hdr ! 0) AND 0xF) * 4 = int n" by (simp add: n_def header_size_def)
  have "checksum (put16 hdr 10 0) (int n) = Inr c"
    unfolding checksum_def by (subst words_tail) (use l in \<open>simp_all add: s_def c_def mod_2_eq_odd\<close>)
  then have "ip4_checksum hdr = Inr (put16 hdr 10 c)" using l(1) unfolding ip4_checksum_def Let_def h i by (simp add: p)
  moreover have "oc_sum (take n (put16 hdr 10 c)) = 0xFFFF"
    by (rule oc_sum_valid) (use v le_sum_put16 [of 10 n hdr c] l in \<open>simp_all add: s_def\<close>)
  ultimately show ?thesis by (auto simp: n_def)
qed

text \<open>C36: An IP header with the checksum of \<open>ip4_checksum\<close> passes the check of a receiver. For every header, with options or not,
  the one's complement sum of its words in network order is then \<open>0xFFFF\<close>, and no other byte of the header has changed.\<close>

theorem ip4_checksum_verifies:
  assumes "20 \<le> header_size hdr" and "header_size hdr \<le> length hdr"
  shows "\<exists>c. ip4_checksum hdr = Inr (put16 hdr 10 c) \<and> oc_sum (take (header_size hdr) (put16 hdr 10 c)) = 0xFFFF"
  using ip4_checksum_ok [OF assms] .

theorem ip4_checksum_verifies_witness:
  "\<exists>c. ip4_checksum (map of_nat [0x45, 0, 1, 25, 0, 0, 0, 0, 255, 17, 7, 7, 0, 0, 0, 0, 255, 255, 255, 255])
       = Inr (put16 (map of_nat [0x45, 0, 1, 25, 0, 0, 0, 0, 255, 17, 7, 7, 0, 0, 0, 0, 255, 255, 255, 255]) 10 c) \<and>
     oc_sum (take 20 (put16 (map of_nat [0x45, 0, 1, 25, 0, 0, 0, 0, 255, 17, 7, 7, 0, 0, 0, 0, 255, 255, 255, 255]) 10 c)) = 0xFFFF"
proof -
  let ?h = "map of_nat [0x45, 0, 1, 25, 0, 0, 0, 0, 255, 17, 7, 7, 0, 0, 0, 0, 255, 255, 255, 255]"
  have h: "header_size ?h = 20" by (simp add: header_size_def)
  show ?thesis using ip4_checksum_verifies [of ?h] unfolding h by simp
qed

text \<open>The pseudo header that a UDP checksum covers: the addresses, the protocol and the length.\<close>

definition pseudo :: "byte list \<Rightarrow> byte list \<Rightarrow> byte list" where
  "pseudo ip udp = slice ip 12 8 @ [0, ip ! 9] @ slice udp 4 2"

lemma HTONS_nat: "unat (HTONS (get16 bs i)) = 256 * unat (bs ! i) + unat (bs ! (i + 1))"
proof -
  have "HTONS (get16 bs i) = get16 [bs ! (i + 1), bs ! i] 0"
    unfolding HTONS_def get16_def by (rule bit_word_eqI) (auto simp: bit_simps dest: bit_imp_le_length)
  then show ?thesis using get16_nat [of "[bs ! (i + 1), bs ! i]" 0] by simp
qed

lemma get32_halves: "get32 bs i AND 0xFFFF = ucast (get16 bs i)" "drop_bit 16 (get32 bs i) AND 0xFFFF = ucast (get16 bs (i + 2))"
proof -
  have e: "i + 2 + 1 = i + 3" by simp
  have m: "w AND 0xFFFF = take_bit 16 w" for w :: uint by (simp add: take_bit_eq_mask mask_eq_exp_minus_1)
  show "get32 bs i AND 0xFFFF = ucast (get16 bs i)"
    unfolding m get32_def get16_def by (rule bit_word_eqI) (auto simp: bit_simps dest: bit_imp_le_length)
  show "drop_bit 16 (get32 bs i) AND 0xFFFF = ucast (get16 bs (i + 2))"
    unfolding m get32_def get16_def e by (rule bit_word_eqI) (auto simp: bit_simps dest: bit_imp_le_length)
qed

lemma slice_words: "off + 2 * n \<le> length bs \<Longrightarrow> le_sum (slice bs off (2 * n)) = (\<Sum>i<n. unat (get16 bs (off + 2 * i)))"
proof (induction n arbitrary: off)
  case (Suc n)
  have "slice bs off (2 * Suc n) = bs ! off # bs ! (off + 1) # slice bs (off + 2) (2 * n)"
    using take_two [of off bs "2 * n"] Suc.prems by (simp add: slice_def)
  moreover have "le_sum (slice bs (off + 2) (2 * n)) = (\<Sum>i<n. unat (get16 bs (off + 2 * Suc i)))"
    using Suc.IH [of "off + 2"] Suc.prems by (simp add: add.assoc)
  ultimately show ?case using get16_nat [of bs off] unfolding sum.lessThan_Suc_shift by (simp del: One_nat_def)
qed simp

lemma ucast_get16: "(ucast (get16 bs i) :: uint) = of_nat (unat (get16 bs i))"
  by (rule of_nat_unat [symmetric])

lemma HTONS_byte: "(ucast (HTONS (ucast (b :: byte))) :: uint) = of_nat (256 * unat b)"
proof -
  have "HTONS (ucast b) = get16 [0, b] 0"
    unfolding HTONS_def get16_def by (rule bit_word_eqI) (auto simp: bit_simps dest: bit_imp_le_length)
  then show ?thesis using get16_nat [of "[0, b]" 0] ucast_get16 [of "[0, b]" 0] by simp
qed

text \<open>The sum of the pseudo header and of the header, as the code adds it up.\<close>

lemma udp_head_sum:
  assumes "20 \<le> length ip" and "8 \<le> length udp"
  shows "0 + (drop_bit 16 (get32 ip 12) AND 0xFFFF) + (get32 ip 12 AND 0xFFFF)
           + (drop_bit 16 (get32 ip 16) AND 0xFFFF) + (get32 ip 16 AND 0xFFFF)
           + ucast (HTONS (ucast (ip ! 9))) + ucast (get16 udp 4)
           + ucast (get16 udp 0) + ucast (get16 udp 2) + ucast (get16 udp 4) + ucast (get16 udp 6)
       = (of_nat (le_sum (pseudo ip udp @ take 8 udp)) :: uint)"
proof -
  have s: "le_sum (slice ip 12 8) = unat (get16 ip 12) + unat (get16 ip 14) + unat (get16 ip 16) + unat (get16 ip 18)"
    using slice_words [of 12 4 ip] assms(1) by (simp add: numeral_eq_Suc)
  have l: "le_sum (slice udp 4 2) = unat (get16 udp 4)" using slice_words [of 4 1 udp] assms(2) by simp
  have t: "le_sum (take 8 udp) = unat (get16 udp 0) + unat (get16 udp 2) + unat (get16 udp 4) + unat (get16 udp 6)"
    using slice_words [of 0 4 udp] assms(2) by (simp add: numeral_eq_Suc slice_def)
  have "le_sum (pseudo ip udp @ take 8 udp) = le_sum (slice ip 12 8) + 256 * unat (ip ! 9) + le_sum (slice udp 4 2) + le_sum (take 8 udp)"
    using assms le_sum_append [of "slice ip 12 8"] le_sum_append [of "slice udp 4 2"] by (simp add: pseudo_def)
  then show ?thesis unfolding s l t get32_halves HTONS_byte ucast_get16 by (simp del: of_nat_unat)
qed

lemma udp_checksum_ok:
  assumes "20 \<le> length ip" and "length udp = 8" and "unat (HTONS (get16 udp 4)) = 8 + n" and "n \<le> length data"
  shows "\<exists>c. udp_checksum ip udp data = Inr (put16 udp 6 c) \<and> oc_sum (pseudo ip udp @ put16 udp 6 c @ take n data) = 0xFFFF"
proof -
  define h where "h = le_sum (pseudo ip udp @ put16 udp 6 0)"
  define s where "s = h + le_sum (take n data)"
  define c where "c = (ucast (NOT (fold16 (fold16 (of_nat s :: uint)))) :: ushort)"
  have p: "pseudo ip (put16 udp 6 w) = pseudo ip udp" for w
    using assms(2) by (simp add: pseudo_def slice_def put16_def patch_def drop_take)
  have g: "get16 (put16 udp 6 w) 4 = get16 udp 4" for w using assms(2) by (simp add: byte_simps)
  have "h \<le> 65535 * 21" using le_sum_bound [of "pseudo ip udp @ put16 udp 6 0"] assms(1,2) by (simp add: h_def pseudo_def)
  moreover have "n < 65536" using assms(3) unsigned_less [of "HTONS (get16 udp 4)", where ?'a = nat] by simp
  ultimately have "s < 4294967296" using le_sum_bound [of "take n data"] assms(4) by (simp add: s_def)
  from complement_valid [OF this] have v: "(s + unat c) mod 65535 = 0" "s + unat c > 0" by (simp_all add: c_def)
  have i: "uint (HTONS (get16 udp 4)) - 8 = int n" unfolding uint_nat assms(3) by simp
  have "udp_checksum ip udp data = Inr (put16 (put16 udp 6 0) 6 c)"
    unfolding udp_checksum_def Let_def
    using assms(1,2) udp_head_sum [of ip "put16 udp 6 0"] words_tail [OF assms(4), of "\<lambda>sz. sz \<noteq> 0"]
    by (simp add: g p i h_def s_def c_def mod_2_eq_odd)
  moreover have "put16 (put16 udp 6 0) 6 c = put16 udp 6 c" using assms(2) by (simp add: put16_def patch_def)
  moreover have "le_sum (pseudo ip udp @ put16 udp 6 w @ take n data) = le_sum (pseudo ip udp @ put16 udp 6 w) + le_sum (take n data)" for w
    using le_sum_append [of "pseudo ip udp @ put16 udp 6 w" "take n data"] assms(1,2) by (simp add: pseudo_def)
  moreover have "le_sum (pseudo ip udp @ put16 udp 6 c) = h + unat c"
    using le_sum_put16 [of 6 8 udp c] le_sum_append [of "pseudo ip udp"] assms(1,2) by (simp add: h_def pseudo_def)
  ultimately show ?thesis using v oc_sum_valid [of "pseudo ip udp @ put16 udp 6 c @ take n data"]
    by (intro exI [of _ c]) (simp add: s_def ac_simps)
qed

text \<open>C12: A UDP packet with the checksum of \<open>udp_checksum\<close> passes the check of a receiver. For every packet whose length field says how
  long it is, odd lengths included, the one's complement sum of pseudo header, header and payload in network order is then \<open>0xFFFF\<close>, no
  byte outside of the payload is read, and no other byte of the header has changed.\<close>

theorem udp_checksum_verifies:
  assumes "20 \<le> length ip" and "length udp = 8" and "unat (HTONS (get16 udp 4)) = 8 + n" and "n \<le> length data"
  shows "\<exists>c. udp_checksum ip udp data = Inr (put16 udp 6 c) \<and> oc_sum (pseudo ip udp @ put16 udp 6 c @ take n data) = 0xFFFF"
  using udp_checksum_ok [OF assms] .

theorem udp_checksum_verifies_witness:
  "\<exists>c. udp_checksum (replicate 20 17) (map of_nat [0, 68, 0, 67, 0, 11, 5, 5]) [1, 2, 3, 4]
       = Inr (put16 (map of_nat [0, 68, 0, 67, 0, 11, 5, 5]) 6 c) \<and>
     oc_sum (pseudo (replicate 20 17) (map of_nat [0, 68, 0, 67, 0, 11, 5, 5]) @ put16 (map of_nat [0, 68, 0, 67, 0, 11, 5, 5]) 6 c @ [1, 2, 3]) = 0xFFFF"
proof -
  let ?u = "map of_nat [0, 68, 0, 67, 0, 11, 5, 5] :: byte list"
  have u: "unat (HTONS (get16 ?u 4)) = 8 + 3" by code_simp
  show ?thesis using udp_checksum_verifies [OF _ _ u, of "replicate 20 17" "[1, 2, 3, 4]"] by simp
qed

end
