(* ===== verification/Utils.thy ===== *)
theory Utils
  imports Uprog Grep Net Ne
begin

unbundle bit_operations_syntax

text \<open>
  The user programs \<^verbatim>\<open>cat.c\<close>, \<^verbatim>\<open>wc.c\<close>, \<^verbatim>\<open>echo.c\<close>, \<^verbatim>\<open>kill.c\<close>, \<^verbatim>\<open>ln.c\<close>, \<^verbatim>\<open>mkdir.c\<close>, \<^verbatim>\<open>rm.c\<close>, \<^verbatim>\<open>ls.c\<close>, \<^verbatim>\<open>grep.c\<close>, \<^verbatim>\<open>init.c\<close>,
  \<^verbatim>\<open>zombie.c\<close>, \<^verbatim>\<open>forktest.c\<close>, \<^verbatim>\<open>stressfs.c\<close> and \<^verbatim>\<open>ethtest.c\<close> as trees of system calls. Arguments are strings without their final zero. A loop
  that ends only when a call of the kernel says so takes the number of its rounds; the trap \<open>''rounds''\<close> says that it was too small.
\<close>

section \<open>cat\<close>

primrec cat :: "nat \<Rightarrow> nat \<Rightarrow> prog \<Rightarrow> prog" where
  "cat 0 fd k = Trap ''rounds''"
| "cat (Suc n) fd k =
     Read fd 512 (\<lambda>r.
       case r of
         None \<Rightarrow> printf 1 (line ''cat: read error'') [] Exit
       | Some bs \<Rightarrow> if bs = [] then k else Write 1 bs (\<lambda>_. cat n fd k))"

primrec cat_files :: "nat \<Rightarrow> byte list list \<Rightarrow> prog" where
  "cat_files n [] = Exit"
| "cat_files n (f # fs) =
     Open f 0 (\<lambda>fd.
       if fd < 0 then printf 1 (line ''cat: cannot open %s'') [word f] Exit
       else cat n (nat fd) (Close (nat fd) (cat_files n fs)))"

definition cat_main :: "nat \<Rightarrow> byte list list \<Rightarrow> prog" where
  "cat_main n argv = (if length argv \<le> 1 then cat n 0 Exit else cat_files n (tl argv))"

section \<open>wc\<close>

text \<open>\<open>l\<close>, \<open>w\<close>, \<open>c\<close> and \<open>inword\<close>.\<close>

type_synonym counts = "uint \<times> uint \<times> uint \<times> bool"

definition wc_white :: "byte \<Rightarrow> bool" where
  "wc_white b \<longleftrightarrow> (case strchr [32, 13, 9, 10, 11, 0] b of Inr (Some _) \<Rightarrow> True | _ \<Rightarrow> False)"

definition wc_char :: "byte \<Rightarrow> counts \<Rightarrow> counts" where
  "wc_char b = (\<lambda>(l, w, c, inword).
     let c = c + 1;
         l = (if b = 10 then l + 1 else l)
     in if wc_white b then (l, w, c, False)
        else if \<not> inword then (l, w + 1, c, True)
        else (l, w, c, inword))"

primrec wc_loop :: "nat \<Rightarrow> nat \<Rightarrow> byte list \<Rightarrow> counts \<Rightarrow> prog \<Rightarrow> prog" where
  "wc_loop 0 fd name cs k = Trap ''rounds''"
| "wc_loop (Suc n) fd name cs k =
     Read fd 512 (\<lambda>r.
       case r of
         None \<Rightarrow> printf 1 (line ''wc: read error'') [] Exit
       | Some bs \<Rightarrow>
           if bs = []
           then (case cs of (l, w, c, _) \<Rightarrow> printf 1 (line ''%d %d %d %s'') [Num l, Num w, Num c, word name] k)
           else wc_loop n fd name (fold wc_char bs cs) k)"

definition wc :: "nat \<Rightarrow> nat \<Rightarrow> byte list \<Rightarrow> prog \<Rightarrow> prog" where
  "wc n fd name k = wc_loop n fd name (0, 0, 0, False) k"

primrec wc_files :: "nat \<Rightarrow> byte list list \<Rightarrow> prog" where
  "wc_files n [] = Exit"
| "wc_files n (f # fs) =
     Open f 0 (\<lambda>fd.
       if fd < 0 then printf 1 (line ''cat: cannot open %s'') [word f] Exit
       else wc n (nat fd) f (Close (nat fd) (wc_files n fs)))"

definition wc_main :: "nat \<Rightarrow> byte list list \<Rightarrow> prog" where
  "wc_main n argv = (if length argv \<le> 1 then wc n 0 [] Exit else wc_files n (tl argv))"

section \<open>grep\<close>

primrec grep_lines_tree :: "nat \<Rightarrow> byte list \<Rightarrow> byte list \<Rightarrow> nat \<Rightarrow> (byte list \<Rightarrow> nat \<Rightarrow> prog) \<Rightarrow> prog" where
  "grep_lines_tree 0 pat buf p k = Trap ''rounds''"
| "grep_lines_tree (Suc n) pat buf p k =
     (case strchr (drop p buf) 10 of
        Inl _ \<Rightarrow> Trap ''strchr''
      | Inr None \<Rightarrow> k buf p
      | Inr (Some i) \<Rightarrow>
          let q = p + i; buf = buf[q := 0] in
          (case match pat (drop p buf) of
             Inl _ \<Rightarrow> Trap ''match''
           | Inr m \<Rightarrow>
               if m
               then let buf = buf[q := 10] in Write 1 (slice buf p (q + 1 - p)) (\<lambda>_. grep_lines_tree n pat buf (q + 1) k)
               else grep_lines_tree n pat buf (q + 1) k))"

text \<open>The buffer is static: it goes on to the next file.\<close>

primrec grep_tree :: "nat \<Rightarrow> byte list \<Rightarrow> nat \<Rightarrow> byte list \<Rightarrow> int \<Rightarrow> (byte list \<Rightarrow> prog) \<Rightarrow> prog" where
  "grep_tree 0 pat fd buf m k = Trap ''rounds''"
| "grep_tree (Suc n) pat fd buf m k =
     (if m < 0 then Trap ''grep: read before buf''
      else
        Read fd (length buf - nat m) (\<lambda>r.
          case r of
            None \<Rightarrow> k buf
          | Some c \<Rightarrow>
              if c = [] then k buf
              else
                let buf = patch buf (nat m) c; m = m + int (length c) in
                grep_lines_tree (Suc (length buf)) pat buf 0 (\<lambda>buf p.
                  let m = (if p = 0 then 0 else m);
                      m' = (if m > 0 then m - int p else m);
                      buf = (if m > 0 then patch buf 0 (slice buf p (nat m')) else buf)
                  in grep_tree n pat fd buf m' k)))"

primrec grep_files :: "nat \<Rightarrow> byte list \<Rightarrow> byte list list \<Rightarrow> byte list \<Rightarrow> prog" where
  "grep_files n pat [] buf = Exit"
| "grep_files n pat (f # fs) buf =
     Open f 0 (\<lambda>fd.
       if fd < 0 then printf 1 (line ''grep: cannot open %s'') [word f] Exit
       else grep_tree n (pat @ [0]) (nat fd) buf 0 (\<lambda>buf. Close (nat fd) (grep_files n pat fs buf)))"

definition grep_main :: "nat \<Rightarrow> byte list list \<Rightarrow> prog" where
  "grep_main n argv =
     (if length argv \<le> 1 then printf 2 (line ''usage: grep pattern [file ...]'') [] Exit
      else if length argv \<le> 2 then grep_tree n (argv ! 1 @ [0]) 0 (replicate 1024 0) 0 (\<lambda>buf. Exit)
      else grep_files n (argv ! 1) (drop 2 argv) (replicate 1024 0))"

section \<open>echo, kill, ln, mkdir, rm\<close>

primrec echo_args :: "byte list list \<Rightarrow> prog" where
  "echo_args [] = Exit"
| "echo_args (a # as) = printf 1 (lit ''%s%s'') [word a, word (if as \<noteq> [] then [32] else [10])] (echo_args as)"

definition echo_main :: "byte list list \<Rightarrow> prog" where
  "echo_main argv = echo_args (tl argv)"

primrec kill_args :: "byte list list \<Rightarrow> prog" where
  "kill_args [] = Exit"
| "kill_args (a # as) = (case atoi (a @ [0]) of Inl _ \<Rightarrow> Trap ''atoi'' | Inr n \<Rightarrow> Kill (of_int n) (kill_args as))"

definition kill_main :: "byte list list \<Rightarrow> prog" where
  "kill_main argv = (if length argv < 1 then printf 2 (line ''usage: kill pid...'') [] Exit else kill_args (tl argv))"

definition ln_main :: "byte list list \<Rightarrow> prog" where
  "ln_main argv =
     (if length argv \<noteq> 3 then printf 2 (line ''Usage: ln old new'') [] Exit
      else
        Link (argv ! 1) (argv ! 2) (\<lambda>r.
          if r < 0 then printf 2 (line ''link %s %s: failed'') [word (argv ! 1), word (argv ! 2)] Exit else Exit))"

primrec mkdir_args :: "byte list list \<Rightarrow> prog" where
  "mkdir_args [] = Exit"
| "mkdir_args (a # as) =
     Mkdir a (\<lambda>r. if r < 0 then printf 2 (line ''mkdir: %s failed to create'') [word a] Exit else mkdir_args as)"

definition mkdir_main :: "byte list list \<Rightarrow> prog" where
  "mkdir_main argv = (if length argv < 2 then printf 2 (line ''Usage: mkdir files...'') [] Exit else mkdir_args (tl argv))"

primrec rm_args :: "byte list list \<Rightarrow> prog" where
  "rm_args [] = Exit"
| "rm_args (a # as) =
     Unlink a (\<lambda>r. if r < 0 then printf 2 (line ''rm: %s failed to delete'') [word a] Exit else rm_args as)"

definition rm_main :: "byte list list \<Rightarrow> prog" where
  "rm_main argv = (if length argv < 2 then printf 2 (line ''Usage: rm files...'') [] Exit else rm_args (tl argv))"

section \<open>ls\<close>

definition fmtname :: "byte list \<Rightarrow> byte list" where
  "fmtname path =
     (let p = rev (takeWhile (\<lambda>c. c \<noteq> 47) (rev path)) in
      if length p \<ge> DIRSIZ then p else p @ replicate (DIRSIZ - length p) 32)"

definition ls_entry :: "byte list \<Rightarrow> stat_t \<Rightarrow> prog \<Rightarrow> prog" where
  "ls_entry path st k = printf 1 (line ''%s %d %d %d'') [word (fmtname path), Num (scast (st_type st)), Num (st_ino st), Num (st_size st)] k"

text \<open>A \<open>dirent\<close> is 2 bytes of inode number and 14 of the name.\<close>

primrec ls_loop :: "nat \<Rightarrow> nat \<Rightarrow> byte list \<Rightarrow> prog \<Rightarrow> prog" where
  "ls_loop 0 fd path k = Trap ''rounds''"
| "ls_loop (Suc n) fd path k =
     Read fd 16 (\<lambda>r.
       case r of
         None \<Rightarrow> k
       | Some de \<Rightarrow>
           if length de \<noteq> 16 then k
           else if get16 de 0 = 0 then ls_loop n fd path k
           else
             let buf = cstr (path @ [47] @ slice de 2 DIRSIZ @ [0]) in
             ulib_stat buf (\<lambda>st.
               case st of
                 None \<Rightarrow> printf 1 (line ''ls: cannot stat %s'') [word buf] (ls_loop n fd path k)
               | Some st \<Rightarrow> ls_entry buf st (ls_loop n fd path k)))"

definition ls :: "nat \<Rightarrow> byte list \<Rightarrow> prog \<Rightarrow> prog" where
  "ls n path k =
     Open path 0 (\<lambda>fd.
       if fd < 0 then printf 2 (line ''ls: cannot open %s'') [word path] k
       else
         Fstat (nat fd) (\<lambda>r.
           case r of
             None \<Rightarrow> printf 2 (line ''ls: cannot stat %s'') [word path] (Close (nat fd) k)
           | Some st \<Rightarrow>
               let k = Close (nat fd) k in
               if st_type st = T_FILE then ls_entry path st k
               else if st_type st = T_DIR
               then if length path + 1 + DIRSIZ + 1 > 512 then printf 1 (line ''ls: path too long'') [] k
                    else ls_loop n (nat fd) path k
               else k))"

primrec ls_args :: "nat \<Rightarrow> byte list list \<Rightarrow> prog" where
  "ls_args n [] = Exit"
| "ls_args n (a # as) = ls n a (ls_args n as)"

definition ls_main :: "nat \<Rightarrow> byte list list \<Rightarrow> prog" where
  "ls_main n argv = (if length argv < 2 then ls n [46] Exit else ls_args n (tl argv))"

section \<open>init, zombie, forktest, stressfs\<close>

primrec init_wait :: "nat \<Rightarrow> int \<Rightarrow> prog \<Rightarrow> prog" where
  "init_wait 0 pid k = Trap ''rounds''"
| "init_wait (Suc n) pid k =
     Wait (\<lambda>wpid. if wpid \<ge> 0 \<and> wpid \<noteq> pid then printf 1 (line ''zombie!'') [] (init_wait n pid k) else k)"

primrec init_loop :: "nat \<Rightarrow> nat \<Rightarrow> prog" where
  "init_loop m 0 = Trap ''rounds''"
| "init_loop m (Suc n) =
     printf 1 (line ''init: starting sh'') []
       (Fork (\<lambda>pid.
          if pid < 0 then printf 1 (line ''init: fork failed'') [] Exit
          else if pid = 0
          then Exec (map of_char ''sh'') [map of_char ''sh''] (printf 1 (line ''init: exec sh failed'') [] Exit)
          else init_wait m pid (init_loop m n)))"

definition init_main :: "nat \<Rightarrow> nat \<Rightarrow> prog" where
  "init_main m n =
     (let console = map of_char ''console'';
          eth = map of_char ''eth'';
          rest =
            Dup 0 (Dup 0
              (Open eth O_RDWR (\<lambda>fd. if fd < 0 then Mknod eth 2 0 (init_loop m n) else Close (nat fd) (init_loop m n))))
      in Open console O_RDWR (\<lambda>r. if r < 0 then Mknod console 1 1 (Open console O_RDWR (\<lambda>_. rest)) else rest))"

definition zombie_main :: prog where
  "zombie_main = Fork (\<lambda>pid. if pid > 0 then Sleep 5 Exit else Exit)"

text \<open>\<open>forktest\<close> has a \<open>printf\<close> of its own, which writes the string as it is.\<close>

definition forktest_printf :: "nat \<Rightarrow> byte list \<Rightarrow> prog \<Rightarrow> prog" where
  "forktest_printf fd s k = Write fd (cstr s) (\<lambda>_. k)"

primrec forktest_forks :: "nat \<Rightarrow> nat \<Rightarrow> (nat \<Rightarrow> prog) \<Rightarrow> prog" where
  "forktest_forks 0 n k = k n"
| "forktest_forks (Suc r) n k = Fork (\<lambda>pid. if pid < 0 then k n else if pid = 0 then Exit else forktest_forks r (Suc n) k)"

primrec forktest_waits :: "nat \<Rightarrow> prog \<Rightarrow> prog" where
  "forktest_waits 0 k = k"
| "forktest_waits (Suc n) k = Wait (\<lambda>r. if r < 0 then forktest_printf 1 (line ''wait stopped early'') Exit else forktest_waits n k)"

definition forktest :: "prog \<Rightarrow> prog" where
  "forktest k =
     forktest_printf 1 (line ''fork test'')
       (forktest_forks 1000 0 (\<lambda>n.
          if n = 1000 then forktest_printf 1 (line ''fork claimed to work N times!'') Exit
          else
            forktest_waits n
              (Wait (\<lambda>r. if r \<noteq> - 1 then forktest_printf 1 (line ''wait got too many'') Exit
                         else forktest_printf 1 (line ''fork test OK'') k))))"

definition forktest_main :: prog where
  "forktest_main = forktest Exit"

text \<open>When \<open>stressfs\<close> cannot open its file, its writes to descriptor -1 fail and change nothing.\<close>

primrec stress_forks :: "nat \<Rightarrow> nat \<Rightarrow> (nat \<Rightarrow> prog) \<Rightarrow> prog" where
  "stress_forks 0 i k = k i"
| "stress_forks (Suc r) i k = Fork (\<lambda>pid. if pid > 0 then k i else stress_forks r (Suc i) k)"

definition stressfs_main :: prog where
  "stressfs_main =
     printf 1 (line ''stressfs starting'') []
       (stress_forks 4 0 (\<lambda>i.
          printf 1 (line ''%d'') [Num (of_nat i)]
            (let path = (map of_char ''stressfs0'')[8 := 48 + of_nat i] in
             Open path (O_CREATE OR O_RDWR) (\<lambda>fd.
               if fd < 0 then Wait (\<lambda>_. Exit)
               else
                 fold (\<lambda>i k. printf (nat fd) (line ''%d'') [Num (of_nat i)] k) (rev [0..<100])
                   (Close (nat fd) (Wait (\<lambda>_. Exit)))))))"

section \<open>ethtest\<close>

text \<open>The headers and the request that \<open>getip\<close> has as static data. Lengths and checksums are filled in later.\<close>

definition MAC_ADDRESS :: "byte list" where
  "MAC_ADDRESS = [0x52, 0x54, 0x00, 0x12, 0x34, 0x56]"

definition ethhdr :: "byte list" where
  "ethhdr = replicate 6 0xFF @ MAC_ADDRESS @ bytes16 (HTONS 0x0800)"

definition iphdr :: "byte list" where
  "iphdr = [0x45, 0] @ bytes16 0 @ bytes16 0 @ bytes16 0 @ [0xFF, 17] @ bytes16 0 @ [0, 0, 0, 0] @ [0xFF, 0xFF, 0xFF, 0xFF]"

definition udphdr :: "byte list" where
  "udphdr = bytes16 (HTONS 68) @ bytes16 (HTONS 67) @ bytes16 0 @ bytes16 0"

definition dhcp :: "byte list" where
  "dhcp =
     [1, 1, 6, 0] @ bytes32 0 @ bytes16 0 @ bytes16 0x8000 @ replicate 16 0 @ (MAC_ADDRESS @ replicate 10 0) @
     replicate 64 0 @ replicate 128 0 @ bytes32 (HTONL 0x63825363) @
     ([53, 1, 1] @ [61, 7, 1] @ MAC_ADDRESS @ [0xFF] @ replicate 295 0)"

text \<open>What is in \<open>buf\<close>, and the size of the packet.\<close>

definition discover :: "(byte list \<times> nat) res" where
  "discover =
     (let sz = length udphdr + length dhcp - 308 + 13;
          udphdr = put16 udphdr 4 (HTONS (of_nat sz));
          sz = sz + length iphdr;
          iphdr = put16 iphdr 2 (HTONS (of_nat sz))
      in andThen (ip4_checksum iphdr) (\<lambda>iphdr.
         andThen (udp_checksum iphdr udphdr dhcp) (\<lambda>udphdr.
         let buf = replicate ETH_MAX_SIZE 0;
             buf = patch buf 0 ethhdr;
             buf = patch buf (length ethhdr) iphdr;
             buf = patch buf (length ethhdr + length iphdr) udphdr;
             buf = patch buf (length ethhdr + length iphdr + length udphdr) dhcp
         in Inr (buf, sz + length ethhdr))))"

text \<open>The address that the reply gives.\<close>

definition print_ip :: "byte list \<Rightarrow> prog \<Rightarrow> prog" where
  "print_ip buf k =
     printf 1 (lit ''Given IPv4 address: '') []
       (fold (\<lambda>i k. printf 1 (lit ''%d%s'') [Num (ucast (buf ! (14 + 20 + 8 + 16 + i))), word (if i = 3 then [10] else [46])] k) (rev [0..<4]) k)"

primrec getip_read :: "nat \<Rightarrow> nat \<Rightarrow> byte list \<Rightarrow> prog \<Rightarrow> prog" where
  "getip_read 0 fd buf k = Trap ''rounds''"
| "getip_read (Suc n) fd buf k =
     Read fd ETH_MAX_SIZE (\<lambda>r.
       case r of
         None \<Rightarrow> k
       | Some bs \<Rightarrow>
           if bs = [] then Sleep 10 (getip_read n fd buf k)
           else printf 1 (line ''receive %d byte'') [Num (of_nat (length bs))] (print_ip (patch buf 0 bs) k))"

definition getip :: "nat \<Rightarrow> nat \<Rightarrow> prog \<Rightarrow> prog" where
  "getip n fd k =
     (case discover of
        Inl _ \<Rightarrow> Trap ''discover''
      | Inr (buf, sz) \<Rightarrow> Write fd (take sz buf) (\<lambda>r. printf 1 (line ''write %d byte'') [Num (of_int r)] (getip_read n fd buf k)))"

definition ethtest :: "nat \<Rightarrow> nat \<Rightarrow> prog \<Rightarrow> prog" where
  "ethtest n fd k = Ioctl fd (of_int ETH_IPC_SETUP) 0 (getip n fd k)"

definition ethtest_main :: "nat \<Rightarrow> prog" where
  "ethtest_main n =
     Open (map of_char ''eth'') O_RDWR (\<lambda>fd.
       if fd < 0 then printf 1 (line ''open: cannot open %s'') [word (map of_char ''eth'')] Exit
       else ethtest n (nat fd) (Close (nat fd) Exit))"

primrec dump_loop :: "nat \<Rightarrow> byte list \<Rightarrow> prog \<Rightarrow> prog" where
  "dump_loop i [] k = printf 1 [10, 0] [] k"
| "dump_loop i (b # bs) k =
     (let k = printf 1 (if b \<le> 0xF then lit ''0%x '' else lit ''%x '') [Num (ucast b)] (dump_loop (Suc i) bs k) in
      if i \<noteq> 0
      then if i mod 16 = 0 then printf 1 [10, 0] [] k
           else if i * 2 mod 16 = 0 then printf 1 (lit '' '') [] k
           else k
      else k)"

definition dump :: "byte list \<Rightarrow> prog \<Rightarrow> prog" where
  "dump buf k = dump_loop 0 buf k"

end
