(* ===== verification/ShellRun.thy ===== *)
theory ShellRun
  imports ShellOk
begin

text \<open>
  What the shell does whatever it reads and whatever the kernel answers: it never traps, and it leaves no end of a pipe open in a
  process that waits or runs a program, so that a reader of a pipe sees its end.
\<close>

section \<open>Traps\<close>

text \<open>The traps that some answers lead to. A \<open>read\<close> gives at most as many bytes as were asked for.\<close>

primrec traps :: "prog \<Rightarrow> string set" where
  "traps Exit = {}"
| "traps (Exec f a p) = traps p"
| "traps (Open f m k) = (\<Union>r. traps (k r))"
| "traps (Close fd p) = traps p"
| "traps (Dup fd p) = traps p"
| "traps (Pipe kp) = (\<Union>r p0 p1. traps (kp r p0 p1))"
| "traps (Fork k) = (\<Union>r. traps (k r))"
| "traps (Wait k) = (\<Union>r. traps (k r))"
| "traps (Kill x p) = traps p"
| "traps (Sleep n p) = traps p"
| "traps (Chdir f k) = (\<Union>r. traps (k r))"
| "traps (Mkdir f k) = (\<Union>r. traps (k r))"
| "traps (Unlink f k) = (\<Union>r. traps (k r))"
| "traps (Link f g k) = (\<Union>r. traps (k r))"
| "traps (Mknod f a b p) = traps p"
| "traps (Read fd n kb) = (\<Union>r\<in>{r. \<forall>bs. r = Some bs \<longrightarrow> length bs \<le> n}. traps (kb r))"
| "traps (Write fd bs k) = (\<Union>r. traps (k r))"
| "traps (Fstat fd ks) = (\<Union>r. traps (ks r))"
| "traps (Ioctl fd a b p) = traps p"
| "traps (Trap m) = {m}"

lemma traps_putc [simp]: "traps (putc fd c k) = traps k"
  by (simp add: putc_def)

lemma traps_putcs [simp]: "traps (putcs fd cs k) = traps k"
  by (induction cs) simp_all

lemma traps_uprintint [simp]: "traps (uprintint fd x b sg k) = traps k"
  by (simp add: uprintint_def)

lemmas format_simps = printf_def line_def lit_def word_def Let_def

lemma traps_panic [simp]: "traps (panic m) = {}"
  by (simp add: panic_def format_simps)

lemma traps_fork1: "(\<And>r. traps (k r) = {}) \<Longrightarrow> traps (fork1 k) = {}"
  by (simp add: fork1_def)

lemma traps_runcmd [simp]: "traps (runcmd c) = {}"
  by (induction c) (auto simp: format_simps fork1_def split: list.split)

lemma traps_runline: "0 \<in> set buf \<Longrightarrow> traps (runline buf) = {}"
  using parsecmd_words [of buf]
  by (auto simp: runline_def format_simps clean_def split: sum.splits option.splits stop.splits)

lemma traps_ugets_loop:
  assumes "\<And>bs. length bs \<le> length acc + n + 1 \<Longrightarrow> bs \<noteq> [] \<Longrightarrow> last bs = 0 \<Longrightarrow> traps (k bs) \<subseteq> A"
  shows "traps (ugets_loop n acc k) \<subseteq> A"
  using assms
proof (induction n arbitrary: acc)
  case 0
  show ?case unfolding ugets_loop.simps by (rule 0) simp_all
next
  case (Suc n)
  have e: "traps (k (acc @ [0])) \<subseteq> A" by (rule Suc.prems) simp_all
  have "traps (ugets_loop n (acc @ [c]) k) \<subseteq> A" for c by (rule Suc.IH) (use Suc.prems in simp)
  moreover have "traps (k (acc @ [c, 0])) \<subseteq> A" for c by (rule Suc.prems) simp_all
  ultimately have "traps (case r of Some (c # _) \<Rightarrow> if c = 10 \<or> c = 13 then k (acc @ [c, 0]) else ugets_loop n (acc @ [c]) k | _ \<Rightarrow> k (acc @ [0])) \<subseteq> A" for r
    using e by (cases r) (auto split: list.split)
  then show ?case by auto
qed

lemma traps_getcmd:
  assumes "\<And>bs. bs \<noteq> [] \<Longrightarrow> last bs = 0 \<Longrightarrow> traps (k (patch (replicate n 0) 0 bs)) \<subseteq> A"
  shows "traps (getcmd n k) \<subseteq> A"
proof -
  have "traps (ugets_loop (n - 1) [] (\<lambda>bs. k (patch (replicate n 0) 0 bs))) \<subseteq> A" by (rule traps_ugets_loop) (rule assms)
  then show ?thesis by (simp add: getcmd_def printf_def lit_def ugets_def)
qed

lemma traps_main_loop: "traps (main_loop n) \<subseteq> {''lines''}"
proof (induction n)
  case (Suc n)
  have r: "traps (if buf ! 0 = 0 then Exit
       else if is_cd buf
       then
         let dir = cstr (drop 3 (buf[length (cstr buf) - 1 := 0])) in
         Chdir dir (\<lambda>r. if r < 0 then printf 2 (line ''cannot cd %s'') [word dir] (main_loop n) else main_loop n)
       else fork1 (\<lambda>pid. if pid = 0 then runline buf else Wait (\<lambda>_. main_loop n))) \<subseteq> {''lines''}" if "0 \<in> set buf" for buf
    using Suc traps_runline [OF that] by (auto simp: format_simps fork1_def split: if_splits)
  have "0 \<in> set (patch (replicate 100 0) 0 bs)" if "bs \<noteq> []" "last bs = 0" for bs :: "byte list"
    using last_in_set [OF that(1)] that(2) by (simp add: patch_def)
  then show ?case unfolding main_loop.simps by (intro traps_getcmd r) simp_all
qed simp

lemma traps_open_console: "traps p \<subseteq> A \<Longrightarrow> traps (open_console k p) \<subseteq> insert ''console'' A"
  by (induction k) (auto split: if_splits)


section \<open>Ends of pipes\<close>

text \<open>
  With the descriptors \<open>S\<close> of pipes open, no process waits or runs a program, whatever the answers: a process first closes all ends of its
  pipes. A copy made by \<open>dup\<close> is its standard input or output.
\<close>

primrec sealed :: "prog \<Rightarrow> nat set \<Rightarrow> bool" where
  "sealed Exit S \<longleftrightarrow> True"
| "sealed (Exec f a p) S \<longleftrightarrow> S = {} \<and> sealed p S"
| "sealed (Open f m k) S \<longleftrightarrow> (\<forall>r. sealed (k r) S)"
| "sealed (Close fd p) S \<longleftrightarrow> sealed p (S - {fd})"
| "sealed (Dup fd p) S \<longleftrightarrow> sealed p S"
| "sealed (Pipe kp) S \<longleftrightarrow> (\<forall>r p0 p1. sealed (kp r p0 p1) (if r < 0 then S else {p0, p1} \<union> S))"
| "sealed (Fork k) S \<longleftrightarrow> (\<forall>r. sealed (k r) S)"
| "sealed (Wait k) S \<longleftrightarrow> S = {} \<and> (\<forall>r. sealed (k r) S)"
| "sealed (Kill x p) S \<longleftrightarrow> sealed p S"
| "sealed (Sleep n p) S \<longleftrightarrow> sealed p S"
| "sealed (Chdir f k) S \<longleftrightarrow> (\<forall>r. sealed (k r) S)"
| "sealed (Mkdir f k) S \<longleftrightarrow> (\<forall>r. sealed (k r) S)"
| "sealed (Unlink f k) S \<longleftrightarrow> (\<forall>r. sealed (k r) S)"
| "sealed (Link f g k) S \<longleftrightarrow> (\<forall>r. sealed (k r) S)"
| "sealed (Mknod f a b p) S \<longleftrightarrow> sealed p S"
| "sealed (Read fd n kb) S \<longleftrightarrow> S = {} \<and> (\<forall>r. sealed (kb r) S)"
| "sealed (Write fd bs k) S \<longleftrightarrow> (\<forall>r. sealed (k r) S)"
| "sealed (Fstat fd ks) S \<longleftrightarrow> (\<forall>r. sealed (ks r) S)"
| "sealed (Ioctl fd a b p) S \<longleftrightarrow> sealed p S"
| "sealed (Trap m) S \<longleftrightarrow> True"

lemma sealed_putcs [simp]: "sealed (putc fd c k) S = sealed k S" "sealed (putcs fd cs k) S = sealed k S"
  by (induction cs) (simp_all add: putc_def)

lemma sealed_panic [simp]: "sealed (panic m) S"
  by (simp add: panic_def format_simps)

lemma sealed_fork1: "sealed (fork1 k) S \<longleftrightarrow> (\<forall>r. r \<noteq> - 1 \<longrightarrow> sealed (k r) S)"
  by (auto simp: fork1_def)

lemma sealed_runcmd: "sealed (runcmd c) {}"
proof (induction c)
  case (PIPE a b)
  have e: "{p0, p1} - {i} - {p0} - {p1} = {}" "{p0, p1} - {p0} - {p1} = {}" for p0 p1 i :: nat by auto
  show ?case using PIPE by (simp add: sealed_fork1 e)
qed (auto simp: format_simps sealed_fork1 split: list.split)

lemma sealed_runline: "sealed (runline buf) {}"
  by (auto simp: runline_def format_simps sealed_runcmd split: sum.split option.split stop.split)

lemma sealed_ugets_loop: "(\<And>bs. sealed (k bs) {}) \<Longrightarrow> sealed (ugets_loop n acc k) {}"
  by (induction n arbitrary: acc) (auto split: option.split list.split)

lemma sealed_main_loop: "sealed (main_loop n) {}"
proof (induction n)
  case (Suc n)
  have "sealed (ugets 100 (\<lambda>bs. let buf = patch (replicate 100 0) 0 bs in k buf)) {}" if "\<And>buf. sealed (k buf) {}" for k
    unfolding ugets_def Let_def by (rule sealed_ugets_loop) (rule that)
  then have g: "sealed (getcmd 100 k) {}" if "\<And>buf. sealed (k buf) {}" for k using that by (simp add: getcmd_def printf_def lit_def)
  show ?case unfolding main_loop.simps by (rule g) (use Suc sealed_runline in \<open>auto simp: format_simps sealed_fork1\<close>)
qed simp

text \<open>C38: The shell leaves no end of a pipe open. For every input and all answers of the kernel, a process of the shell that waits, reads commands
  or runs a program has closed both ends of every pipe that was made for it, or handed down to it, except the copy that is its standard input
  or output. So the reader of a pipe sees the end of its input when the writer has ended.\<close>

theorem shell_seals_pipes: "sealed (sh_main n) {}"
proof -
  have "sealed (open_console k p) {}" if "sealed p {}" for k p using that by (induction k) auto
  then show ?thesis using sealed_main_loop by (simp add: sh_main_def)
qed

end
