(* ===== verification/UtilsOk.thy ===== *)
theory UtilsOk
  imports Utils ShellRun ConsoleOk
begin

text \<open>
  What the user programs do: numbers that \<open>printf\<close> prints read back, \<open>wc\<close> counts whatever pieces the kernel delivers its input in,
  no program traps, and the request of \<open>ethtest\<close> passes the checks of a receiver.
\<close>

section \<open>Printing\<close>

lemma good_digit_upper: "good_digits digit_upper"
  unfolding good_digits_def
proof (intro allI impI)
  fix d :: uint
  assume "d < 16"
  then have d: "unat d < 16" by (simp add: word_less_nat_alt)
  have u: "unat (ucast d :: byte) = unat d" using d by (simp add: unsigned_ucast_eq take_bit_nat_eq_self)
  show "undigit (digit_upper d) = unat d \<and> digit_upper d \<noteq> 45"
    using d u by (auto simp: digit_upper_def undigit_def word_less_nat_alt unat_word_ariths word_unat_eq_iff)
qed

definition decimal :: "uint \<Rightarrow> byte list" where
  "decimal x = rev (printint_buf digit_upper x 10 True)"

lemma read_decimal: "n < 2147483648 \<Longrightarrow> read_int 10 (decimal (of_nat n)) = int n"
proof -
  assume n: "n < 2147483648"
  have "read_int 10 (decimal (of_nat n)) = sint (of_nat n :: uint)"
    using printint_buf_ok [OF good_digit_upper, of 10 "of_nat n" True] by (simp add: decimal_def)
  also have "\<dots> = int n" using n by (simp add: sint_cases unsigned_of_nat take_bit_eq_mod)
  finally show ?thesis .
qed

lemma uprintint_decimal: "uprintint fd x 10 True k = putcs fd (decimal x) k"
  by (simp add: uprintint_def decimal_def)

lemma putcs_append: "putcs fd (xs @ ys) k = putcs fd xs (putcs fd ys k)"
  by (induction xs) simp_all

text \<open>The kernel is told to write the characters one by one.\<close>

definition wrote :: "nat \<Rightarrow> byte list \<Rightarrow> event list" where
  "wrote fd cs = map (\<lambda>c. EWrite fd [c] 1) cs"

lemma replay_putcs: "replay (putcs fd cs k) (wrote fd cs @ es) = replay k es"
  by (induction cs) (simp_all add: wrote_def putc_def)

section \<open>wc\<close>

text \<open>Where words start.\<close>

definition word_starts :: "byte list \<Rightarrow> nat set" where
  "word_starts t = {i. i < length t \<and> \<not> wc_white (t ! i) \<and> (i = 0 \<or> wc_white (t ! (i - 1)))}"

definition in_word :: "byte list \<Rightarrow> bool" where
  "in_word t \<longleftrightarrow> t \<noteq> [] \<and> \<not> wc_white (last t)"

definition totals :: "byte list \<Rightarrow> counts" where
  "totals t = (of_nat (count_list t 10), of_nat (card (word_starts t)), of_nat (length t), in_word t)"

lemma word_starts_snoc:
  "word_starts (t @ [b]) = (if \<not> wc_white b \<and> \<not> in_word t then insert (length t) (word_starts t) else word_starts t)"
  by (cases "t = []") (auto simp: word_starts_def in_word_def nth_append last_conv_nth less_Suc_eq)

lemma finite_word_starts: "finite (word_starts t)" "length t \<notin> word_starts t"
  by (simp_all add: word_starts_def)

lemma wc_char_totals: "wc_char b (totals t) = totals (t @ [b])"
proof -
  have "in_word (t @ [b]) \<longleftrightarrow> \<not> wc_white b" by (simp add: in_word_def)
  then show ?thesis
    using finite_word_starts [of t] by (simp add: wc_char_def totals_def word_starts_snoc Let_def)
qed

lemma fold_wc_totals: "fold wc_char bs (totals t) = totals (t @ bs)"
  by (induction bs arbitrary: t) (simp_all add: wc_char_totals)

definition reads_of :: "nat \<Rightarrow> byte list list \<Rightarrow> event list" where
  "reads_of fd chunks = map (\<lambda>c. ERead fd 512 (Some c)) chunks @ [ERead fd 512 (Some [])]"

lemma wc_loop_reads:
  "[] \<notin> set chunks \<Longrightarrow> length chunks < n \<Longrightarrow>
   replay (wc_loop n fd name (totals t) k) (reads_of fd chunks @ es) =
   replay (case totals (t @ concat chunks) of (l, w, c, _) \<Rightarrow> printf 1 (line ''%d %d %d %s'') [Num l, Num w, Num c, word name] k) es"
proof (induction chunks arbitrary: n t)
  case Nil
  then show ?case by (cases n) (simp_all add: reads_of_def)
next
  case (Cons c chunks)
  then obtain m where m: "n = Suc m" by (cases n) auto
  have "replay (wc_loop n fd name (totals t) k) (reads_of fd (c # chunks) @ es) = replay (wc_loop m fd name (totals (t @ c)) k) (reads_of fd chunks @ es)"
    using Cons.prems(1) by (cases c) (simp_all add: m reads_of_def fold_wc_totals del: fold_Cons)
  then show ?case using Cons.IH [of m "t @ c"] Cons.prems by (simp add: m)
qed

lemma printf_counts:
  assumes "0 \<notin> set name"
  shows "printf 1 (line ''%d %d %d %s'') [Num l, Num w, Num c, word name] k =
    putcs 1 (decimal l @ [32] @ decimal w @ [32] @ decimal c @ [32] @ name @ [10]) k"
proof -
  have "cstr (name @ [0]) = name" using assms by (simp add: cstr_append_nul)
  then show ?thesis by (simp add: printf_def line_def word_def uprintint_decimal putcs_append)
qed

text \<open>C39: \<open>wc\<close> counts what it reads, whatever the pieces. For every way in which the kernel delivers a text, \<open>wc\<close> reads it to the end and then
  prints three numbers and the name; the numbers, read as decimals, are the newlines, the starts of words and the bytes of the text.
  No word that is cut by the end of a piece is counted twice.\<close>

theorem wc_counts:
  assumes "[] \<notin> set chunks" and "length chunks < n" and "length (concat chunks) < 2147483648" and "0 \<notin> set name"
  shows "\<exists>l w c. replay (wc n fd name k) (reads_of fd chunks @ wrote 1 (l @ [32] @ w @ [32] @ c @ [32] @ name @ [10])) = Some k \<and>
    read_int 10 l = int (count_list (concat chunks) 10) \<and>
    read_int 10 w = int (card (word_starts (concat chunks))) \<and>
    read_int 10 c = int (length (concat chunks))"
proof -
  let ?t = "concat chunks"
  have t: "(0, 0, 0, False) = totals []" by (simp add: totals_def word_starts_def in_word_def)
  have "card (word_starts ?t) \<le> length ?t" using card_mono [of "{..<length ?t}" "word_starts ?t"] by (auto simp: word_starts_def)
  moreover have "count_list ?t 10 \<le> length ?t" by (rule count_le_length)
  moreover have "replay (putcs 1 cs k) (wrote 1 cs) = Some k" for cs using replay_putcs [of 1 cs k "[]"] by simp
  ultimately have d: "count_list ?t 10 < 2147483648" "card (word_starts ?t) < 2147483648"
      "\<And>cs. replay (putcs 1 cs k) (wrote 1 cs) = Some k" using assms(3) by simp_all
  show ?thesis
    by (rule exI [of _ "decimal (of_nat (count_list ?t 10))"], rule exI [of _ "decimal (of_nat (card (word_starts ?t)))"],
        rule exI [of _ "decimal (of_nat (length ?t))"])
      (simp add: wc_def t wc_loop_reads [OF assms(1,2)] totals_def [of "concat chunks"] printf_counts [OF assms(4)] read_decimal d assms(3) del: One_nat_def)
qed

theorem wc_counts_witness:
  "\<exists>l w c. replay (wc 3 0 [120] Exit) (reads_of 0 [[97, 98], [99, 10]] @ wrote 1 (l @ [32] @ w @ [32] @ c @ [32] @ [120] @ [10])) = Some Exit \<and>
    read_int 10 l = 1 \<and> read_int 10 w = int (card (word_starts [97, 98, 99, 10])) \<and> read_int 10 c = 4"
  using wc_counts [of "[[97, 98], [99, 10]]" 3 "[120]" 0 Exit] by simp

section \<open>ethtest\<close>

lemma patch_next: "length ys \<le> n \<Longrightarrow> patch (xs @ replicate n z) (length xs) ys = xs @ ys @ replicate (n - length ys) z"
  by (simp add: patch_def)

lemma get16_inside: "j = length xs + i \<Longrightarrow> i + 2 \<le> length ys \<Longrightarrow> get16 (xs @ ys @ zs) j = get16 ys i"
  by (simp add: get16_def nth_append)

lemma slice_inside: "length xs = i \<Longrightarrow> length ys = n \<Longrightarrow> slice (xs @ ys @ zs) i n = ys"
  by (simp add: slice_def)

lemma HTONS_HTONS: "HTONS (HTONS x) = x"
proof (rule bit_word_eqI)
  fix n assume "n < LENGTH(16)"
  then show "bit (HTONS (HTONS x)) n = bit x n" by (cases "n < 8") (auto simp: HTONS_def bit_simps)
qed

lemma part_lengths [simp]: "length ethhdr = 14" "length iphdr = 20" "length udphdr = 8" "length dhcp = 548"
  by (simp_all add: ethhdr_def iphdr_def udphdr_def dhcp_def MAC_ADDRESS_def)

lemma discover_parts:
  "\<exists>c d. let ip = put16 (put16 iphdr 2 (HTONS 281)) 10 c; udp = put16 (put16 udphdr 4 (HTONS 261)) 6 d in
     discover = Inr (ethhdr @ ip @ udp @ dhcp @ replicate 924 0, 295) \<and> oc_sum ip = 0xFFFF \<and> oc_sum (pseudo ip udp @ udp @ take 253 dhcp) = 0xFFFF"
proof -
  define ip where "ip = put16 iphdr 2 (HTONS 281)"
  define udp where "udp = put16 udphdr 4 (HTONS 261)"
  have len: "length ip = 20" "length udp = 8" by (simp_all add: ip_def udp_def)
  have "ip ! 0 = 0x45" by (simp add: ip_def put16_def patch_def iphdr_def)
  then have h: "header_size ip = 20" by (simp add: header_size_def)
  obtain c where c: "ip4_checksum ip = Inr (put16 ip 10 c)" "oc_sum (put16 ip 10 c) = 0xFFFF"
    using ip4_checksum_ok [of ip] len h by auto
  have u: "unat (HTONS (get16 udp 4)) = 8 + 253" by (simp add: udp_def byte_simps HTONS_HTONS)
  obtain d where d: "udp_checksum (put16 ip 10 c) udp dhcp = Inr (put16 udp 6 d)"
      "oc_sum (pseudo (put16 ip 10 c) udp @ put16 udp 6 d @ take 253 dhcp) = 0xFFFF"
    using udp_checksum_ok [OF _ len(2) u, of "put16 ip 10 c" dhcp] len by auto
  have p: "pseudo (put16 ip 10 c) (put16 udp 6 d) = pseudo (put16 ip 10 c) udp"
    using len(2) by (simp add: pseudo_def slice_def put16_def patch_def drop_take)
  have "discover = Inr (ethhdr @ put16 ip 10 c @ put16 udp 6 d @ dhcp @ replicate 924 0, 295)"
  proof -
    let ?z = "replicate 1514 0 :: byte list"
    have "patch ?z 0 ethhdr = ethhdr @ replicate 1500 0" using patch_next [of ethhdr 1514 "[]" 0] by simp
    moreover have "patch (ethhdr @ replicate 1500 0) 14 (put16 ip 10 c) = (ethhdr @ put16 ip 10 c) @ replicate 1480 0"
      using patch_next [of "put16 ip 10 c" 1500 ethhdr 0] len by simp
    moreover have "patch ((ethhdr @ put16 ip 10 c) @ replicate 1480 0) 34 (put16 udp 6 d) = (ethhdr @ put16 ip 10 c @ put16 udp 6 d) @ replicate 1472 0"
      using patch_next [of "put16 udp 6 d" 1480 "ethhdr @ put16 ip 10 c" 0] len by simp
    moreover have "patch ((ethhdr @ put16 ip 10 c @ put16 udp 6 d) @ replicate 1472 0) 42 dhcp = (ethhdr @ put16 ip 10 c @ put16 udp 6 d @ dhcp) @ replicate 924 0"
      using patch_next [of dhcp 1472 "ethhdr @ put16 ip 10 c @ put16 udp 6 d" 0] len by simp
    ultimately show ?thesis
      unfolding discover_def Let_def using c(1) d(1) len by (simp add: ip_def [symmetric] udp_def [symmetric] ETH_MAX_SIZE_def del: append_assoc)
  qed
  then show ?thesis using c(2) d(2) unfolding ip_def [symmetric] udp_def [symmetric] Let_def p by (intro exI [of _ c] exI [of _ d]) (simp only: p simp_thms)
qed

text \<open>The request of \<open>ethtest\<close> is well formed. The packet it sends has a size the driver accepts, its lengths are those of its parts, and both
  checksums pass the check of a receiver. But the broadcast flag is not converted to network order: the server reads \<open>0x0080\<close> where
  the flag is \<open>0x8000\<close>.\<close>

theorem ethtest_request:
  "\<exists>buf. discover = Inr (buf, 295) \<and> length buf = ETH_MAX_SIZE \<and> ETH_MIN_SIZE \<le> 295 \<and>
     unat (HTONS (get16 buf 16)) = 20 + 261 \<and> unat (HTONS (get16 buf 38)) = 261 \<and>
     oc_sum (slice buf 14 20) = 0xFFFF \<and>
     oc_sum (pseudo (slice buf 14 20) (slice buf 34 8) @ slice buf 34 8 @ slice buf 42 253) = 0xFFFF \<and>
     HTONS (get16 buf 52) = 0x0080"
proof -
  obtain c d where cd: "discover = Inr (ethhdr @ put16 (put16 iphdr 2 (HTONS 281)) 10 c @ put16 (put16 udphdr 4 (HTONS 261)) 6 d @ dhcp @ replicate 924 0, 295)"
      "oc_sum (put16 (put16 iphdr 2 (HTONS 281)) 10 c) = 0xFFFF"
      "oc_sum (pseudo (put16 (put16 iphdr 2 (HTONS 281)) 10 c) (put16 (put16 udphdr 4 (HTONS 261)) 6 d) @ put16 (put16 udphdr 4 (HTONS 261)) 6 d @ take 253 dhcp) = 0xFFFF"
    using discover_parts by (auto simp: Let_def)
  define ip where "ip = put16 (put16 iphdr 2 (HTONS 281)) 10 c"
  define udp where "udp = put16 (put16 udphdr 4 (HTONS 261)) 6 d"
  define buf where "buf = ethhdr @ ip @ udp @ dhcp @ replicate 924 0"
  have len: "length ip = 20" "length udp = 8" by (simp_all add: ip_def udp_def)
  have g: "get16 ip 2 = HTONS 281" "get16 udp 4 = HTONS 261" by (simp_all add: ip_def udp_def byte_simps)
  have "get16 buf 16 = get16 ip 2" unfolding buf_def by (rule get16_inside) (simp_all add: len)
  moreover have "get16 ((ethhdr @ ip) @ udp @ dhcp @ replicate 924 0) 38 = get16 udp 4" by (rule get16_inside) (simp_all add: len)
  moreover have "get16 ((ethhdr @ ip @ udp) @ dhcp @ replicate 924 0) 52 = get16 dhcp 10" by (rule get16_inside) (simp_all add: len)
  moreover have "slice buf 14 20 = ip" unfolding buf_def by (rule slice_inside) (simp_all add: len)
  moreover have "slice ((ethhdr @ ip) @ udp @ dhcp @ replicate 924 0) 34 8 = udp" by (rule slice_inside) (simp_all add: len)
  moreover have "slice ((ethhdr @ ip @ udp) @ take 253 dhcp @ drop 253 dhcp @ replicate 924 0) 42 253 = take 253 dhcp" by (rule slice_inside) (simp_all add: len)
  moreover have "take 253 dhcp @ drop 253 dhcp @ z = dhcp @ z" for z by (simp flip: append_assoc)
  moreover have "HTONS (get16 dhcp 10) = 0x0080" by (simp add: get16_def dhcp_def bytes16_def bytes32_def HTONS_def)
  moreover have "length buf = ETH_MAX_SIZE" by (simp add: buf_def len ETH_MAX_SIZE_def)
  ultimately show ?thesis
    using cd unfolding ip_def [symmetric] udp_def [symmetric] buf_def [symmetric]
    by (intro exI [of _ buf]) (simp add: buf_def g HTONS_HTONS ETH_MIN_SIZE_def)
qed

section \<open>No program traps\<close>

lemma traps_cat: "traps (cat n fd k) \<subseteq> insert ''rounds'' (traps k)"
  by (induction n) (auto simp: format_simps split: option.splits if_splits)

lemma traps_wc_loop: "traps (wc_loop n fd name cs k) \<subseteq> insert ''rounds'' (traps k)"
proof (induction n arbitrary: cs)
  case (Suc n)
  obtain l w c i where cs: "cs = (l, w, c, i)" by (cases cs)
  have s: "x \<in> traps (wc_loop n fd name (fold wc_char bs cs) k) \<Longrightarrow> x = ''rounds'' \<or> x \<in> traps k" for bs x using Suc [of "fold wc_char bs cs"] by auto
  show ?case unfolding cs by (auto simp: format_simps split: option.splits if_splits dest!: s [unfolded cs])
qed simp

lemma traps_files:
  "traps (cat_files n fs) \<subseteq> {''rounds''}" "traps (wc_files n fs) \<subseteq> {''rounds''}"
proof (induction fs)
  case (Cons f fs)
  {
    case 1
    show ?case using Cons traps_cat [of n _ "Close _ (cat_files n fs)"] by (fastforce simp: format_simps split: if_splits)
  next
    case 2
    show ?case using Cons traps_wc_loop [of n _ f _ "Close _ (wc_files n fs)"] by (fastforce simp: format_simps wc_def split: if_splits)
  }
qed simp_all

lemma traps_args:
  "traps (echo_args as) = {}" "traps (mkdir_args as) = {}" "traps (rm_args as) = {}"
  by (induction as) (auto simp: format_simps)

lemma traps_ls_entry [simp]: "traps (ls_entry path st k) = traps k"
  by (simp add: ls_entry_def format_simps)

lemma traps_ls_loop: "traps (ls_loop n fd path k) \<subseteq> insert ''rounds'' (traps k)"
  by (induction n) (auto simp: format_simps ulib_stat_def split: option.splits if_splits)

lemma traps_ls: "traps (ls n path k) \<subseteq> insert ''rounds'' (traps k)"
  using traps_ls_loop [of n _ path "Close _ k"] by (fastforce simp: ls_def format_simps split: option.splits if_splits)

lemma traps_ls_args: "traps (ls_args n as) \<subseteq> {''rounds''}"
proof (induction as)
  case (Cons a as)
  then show ?case using traps_ls [of n a "ls_args n as"] by auto
qed simp

lemma traps_init_wait: "traps (init_wait n pid k) \<subseteq> insert ''rounds'' (traps k)"
  by (induction n) (auto simp: format_simps split: if_splits)

lemma traps_init_loop: "traps (init_loop m n) \<subseteq> {''rounds''}"
proof (induction n)
  case (Suc n)
  then show ?case using traps_init_wait [of m _ "init_loop m n"] by (fastforce simp: format_simps split: if_splits)
qed simp

lemma traps_forktest: "traps forktest_main = {}"
proof -
  have f: "traps (forktest_forks r n k) = {}" if "\<And>i. traps (k i) = {}" for r n k using that by (induction r arbitrary: n) auto
  have w: "traps (forktest_waits n k) = {}" if "traps k = {}" for n k using that by (induction n) (auto simp: forktest_printf_def)
  show ?thesis unfolding forktest_main_def forktest_def forktest_printf_def by (simp, rule f) (auto intro!: w split: if_splits)
qed

lemma traps_fold: "(\<And>x k. traps (f x k) = traps k) \<Longrightarrow> traps (fold f xs k) = traps k"
  by (induction xs arbitrary: k) simp_all

lemma traps_stressfs: "traps stressfs_main = {}"
proof -
  have f: "traps (stress_forks r i k) = {}" if "\<And>i. traps (k i) = {}" for r i k using that by (induction r arbitrary: i) auto
  show ?thesis unfolding stressfs_main_def by (simp add: format_simps, rule f) (simp add: format_simps traps_fold)
qed

lemma traps_getip: "traps (getip_read n fd buf k) \<subseteq> insert ''rounds'' (traps k)"
  by (induction n) (auto simp: format_simps print_ip_def traps_fold split: option.splits if_splits)

lemma traps_ethtest: "traps (ethtest_main n) \<subseteq> {''rounds''}"
proof -
  obtain buf sz where d: "discover = Inr (buf, sz)" using discover_parts by (auto simp: Let_def)
  have "traps (getip n fd (Close fd Exit)) \<subseteq> {''rounds''}" for fd
    unfolding getip_def d using traps_getip [of n fd buf "Close fd Exit"] by (simp add: format_simps)
  then show ?thesis by (simp add: ethtest_main_def ethtest_def format_simps UN_subset_iff)
qed


end
