(* ===== verification/Umalloc.thy ===== *)
theory Umalloc
  imports Prelude
begin

text \<open>
  The memory allocator of user programs (\<^verbatim>\<open>umalloc.c\<close>). A header is at an address; \<open>ptr\<close> and \<open>size\<close> of the headers are functions of it. Blocks are
  whole headers, 8 bytes, so a pointer \<open>p + n\<close> of the source is the address \<open>p + 8 * n\<close>. The address of \<open>base\<close> and the system call \<open>sbrk\<close> are
  parameters; \<open>sbrk\<close> has a state of its own. Loops over the free list are bounded by \<open>ROUNDS\<close>, more than there are addresses; it is shown
  that the bound is never reached.
\<close>

section \<open>The code\<close>

record uheap =
  u_ptr :: "uint \<Rightarrow> uint"
  u_size :: "uint \<Rightarrow> uint"
  u_freep :: uint

definition set_ptr :: "uint \<Rightarrow> uint \<Rightarrow> uheap \<Rightarrow> uheap" where
  "set_ptr p x h = h\<lparr>u_ptr := (u_ptr h)(p := x)\<rparr>"

definition set_size :: "uint \<Rightarrow> uint \<Rightarrow> uheap \<Rightarrow> uheap" where
  "set_size p x h = h\<lparr>u_size := (u_size h)(p := x)\<rparr>"

primrec find_place :: "nat \<Rightarrow> uint \<Rightarrow> uint \<Rightarrow> uheap \<Rightarrow> uint res" where
  "find_place 0 bp p h = Inl (Spins ''free'')"
| "find_place (Suc k) bp p h =
     (if bp > p \<and> bp < u_ptr h p then Inr p
      else if p \<ge> u_ptr h p \<and> (bp > p \<or> bp < u_ptr h p) then Inr p
      else find_place k bp (u_ptr h p) h)"

definition join_up :: "uint \<Rightarrow> uint \<Rightarrow> uheap \<Rightarrow> uheap" where
  "join_up bp p h =
     (if bp + 8 * u_size h bp = u_ptr h p
      then let h = set_size bp (u_size h bp + u_size h (u_ptr h p)) h in set_ptr bp (u_ptr h (u_ptr h p)) h
      else set_ptr bp (u_ptr h p) h)"

definition join_down :: "uint \<Rightarrow> uint \<Rightarrow> uheap \<Rightarrow> uheap" where
  "join_down bp p h =
     (if p + 8 * u_size h p = bp
      then let h = set_size p (u_size h p + u_size h bp) h in set_ptr p (u_ptr h bp) h
      else set_ptr p bp h)"

definition ROUNDS :: nat where "ROUNDS = 4294967297"

definition ufree :: "uint \<Rightarrow> uheap \<Rightarrow> uheap res" where
  "ufree ap h =
     (let bp = ap - 8 in
      andThen (find_place ROUNDS bp (u_freep h) h) (\<lambda>p. Inr ((join_down bp p (join_up bp p h))\<lparr>u_freep := p\<rparr>)))"

text \<open>\<open>morecore\<close> returns the new \<open>freep\<close>, or \<open>None\<close> for the null pointer.\<close>

definition morecore :: "(uint \<Rightarrow> 's \<Rightarrow> uint \<times> 's) \<Rightarrow> uint \<Rightarrow> uheap \<times> 's \<Rightarrow> (uint option \<times> uheap \<times> 's) res" where
  "morecore sbrk nu hs =
     (let (h, s) = hs; nu = (if nu < 4096 then 4096 else nu) in
      case sbrk (nu * 8) s of (p, s) \<Rightarrow>
      if p = - 1 then Inr (None, h, s)
      else andThen (ufree (p + 8) (set_size p nu h)) (\<lambda>h. Inr (Some (u_freep h), h, s)))"

text \<open>The block \<open>p\<close> after \<open>prevp\<close> is big enough.\<close>

definition take_block :: "uint \<Rightarrow> uint \<Rightarrow> uint \<Rightarrow> uheap \<Rightarrow> uint \<times> uheap" where
  "take_block nunits prevp p h =
     (if u_size h p = nunits
      then (p + 8, (set_ptr prevp (u_ptr h p) h)\<lparr>u_freep := prevp\<rparr>)
      else let h = set_size p (u_size h p - nunits) h;
               p = p + 8 * u_size h p;
               h = set_size p nunits h
           in (p + 8, h\<lparr>u_freep := prevp\<rparr>))"

primrec malloc_loop ::
  "(uint \<Rightarrow> 's \<Rightarrow> uint \<times> 's) \<Rightarrow> nat \<Rightarrow> uint \<Rightarrow> uint \<Rightarrow> uint \<Rightarrow> uheap \<times> 's \<Rightarrow> (uint option \<times> uheap \<times> 's) res" where
  "malloc_loop sbrk 0 nunits prevp p hs = Inl (Spins ''malloc'')"
| "malloc_loop sbrk (Suc k) nunits prevp p hs =
     (let (h, s) = hs in
      if u_size h p \<ge> nunits then (case take_block nunits prevp p h of (r, h) \<Rightarrow> Inr (Some r, h, s))
      else if p = u_freep h
      then
        andThen (morecore sbrk nunits (h, s)) (\<lambda>(r, h, s).
        case r of None \<Rightarrow> Inr (None, h, s) | Some p \<Rightarrow> malloc_loop sbrk k nunits p (u_ptr h p) (h, s))
      else malloc_loop sbrk k nunits p (u_ptr h p) (h, s))"

definition units :: "uint \<Rightarrow> uint" where
  "units nbytes = (nbytes + 8 - 1) div 8 + 1"

text \<open>The first call makes a list of \<open>base\<close> alone.\<close>

definition start :: "uint \<Rightarrow> uheap \<Rightarrow> uheap" where
  "start base h = (if u_freep h = 0 then set_size base 0 ((set_ptr base base h)\<lparr>u_freep := base\<rparr>) else h)"

definition malloc :: "(uint \<Rightarrow> 's \<Rightarrow> uint \<times> 's) \<Rightarrow> uint \<Rightarrow> uint \<Rightarrow> uheap \<times> 's \<Rightarrow> (uint option \<times> uheap \<times> 's) res" where
  "malloc sbrk base nbytes hs =
     (let (h, s) = hs;
          h = start base h;
          prevp = u_freep h
      in malloc_loop sbrk (2 * ROUNDS) (units nbytes) prevp (u_ptr h prevp) (h, s))"

lemma header_simps [simp]:
  "u_ptr (set_ptr p x h) = (u_ptr h)(p := x)" "u_size (set_ptr p x h) = u_size h" "u_freep (set_ptr p x h) = u_freep h"
  "u_ptr (set_size p x h) = u_ptr h" "u_size (set_size p x h) = (u_size h)(p := x)" "u_freep (set_size p x h) = u_freep h"
  by (simp_all add: set_ptr_def set_size_def)

section \<open>Circular order\<close>

text \<open>\<open>x\<close> follows \<open>n\<close> in the circle of the members of \<open>N\<close>.\<close>

definition follows :: "'a::linorder set \<Rightarrow> 'a \<Rightarrow> 'a \<Rightarrow> bool" where
  "follows N n x \<longleftrightarrow> x \<in> N \<and> (n < x \<and> (\<forall>m\<in>N. m \<le> n \<or> x \<le> m) \<or> x \<le> n \<and> (\<forall>m\<in>N. x \<le> m \<and> m \<le> n))"

lemma follows_delete:
  assumes "follows N n q" and "follows N q x" and n: "n \<in> N" "n \<noteq> q"
  shows "follows (N - {q}) n x"
proof -
  have q: "q \<in> N" and x: "x \<in> N" using assms(1,2) by (auto simp: follows_def)
  consider "n < q" "\<forall>m\<in>N. m \<le> n \<or> q \<le> m" | "q \<le> n" "\<forall>m\<in>N. q \<le> m \<and> m \<le> n" using assms(1) by (auto simp: follows_def)
  then show ?thesis
  proof cases
    case 1
    consider "q < x" "\<forall>m\<in>N. m \<le> q \<or> x \<le> m" | "x \<le> q" "\<forall>m\<in>N. x \<le> m \<and> m \<le> q" using assms(2) by (auto simp: follows_def)
    then show ?thesis
    proof cases
      case a: 1
      have "m \<le> n \<or> x \<le> m" if "m \<in> N - {q}" for m using that 1(2) a(2) by (auto dest!: bspec)
      then show ?thesis using 1(1) a(1) x by (auto simp: follows_def)
    next
      case b: 2
      have l: "x \<le> m \<and> m \<le> n" if "m \<in> N - {q}" for m using that 1(2) b(2) by (auto dest!: bspec)
      moreover have "x \<noteq> q" using b(2) 1(1) n by auto
      ultimately show ?thesis using x n by (auto simp: follows_def)
    qed
  next
    case 2
    then have "q < n" using n by auto
    then have "q < x" "\<forall>m\<in>N. m \<le> q \<or> x \<le> m" using assms(2) n(1) by (auto simp: follows_def)
    moreover from this have "x \<le> m \<and> m \<le> n" if "m \<in> N - {q}" for m using that 2(2) by (auto dest!: bspec)
    ultimately show ?thesis using x n by (auto simp: follows_def)
  qed
qed

lemma follows_delete_other: "follows N n x \<Longrightarrow> x \<noteq> q \<Longrightarrow> follows (N - {q}) n x"
  by (auto simp: follows_def)

lemma follows_insert:
  assumes "follows N t x" and "t \<in> N" and "t < b" and "b < x \<or> x \<le> t"
  shows "follows (insert b N) t b" "follows (insert b N) b x"
  using assms by (auto simp: follows_def)

lemma follows_insert_other:
  assumes "follows N t x" and b: "t < b" "b < x \<or> x \<le> t" and "follows N n y" and n: "n \<in> N" "n \<noteq> t" and t: "t \<in> N"
  shows "follows (insert b N) n y"
proof -
  have x: "x \<in> N" and y: "y \<in> N" using assms(1,4) by (auto simp: follows_def)
  consider "t < x" "\<forall>m\<in>N. m \<le> t \<or> x \<le> m" | "x \<le> t" "\<forall>m\<in>N. x \<le> m \<and> m \<le> t" using assms(1) by (auto simp: follows_def)
  then show ?thesis
  proof cases
    case 1
    then have bx: "b < x" using b by auto
    have nb: "n < t \<or> b < n" using 1(2) n bx by (auto dest!: bspec)
    show ?thesis
    proof (cases "n < y")
      case True
      then have "t \<le> n \<or> y \<le> t" using assms(4) t by (auto simp: follows_def)
      then have "b \<le> n \<or> y \<le> b" using nb b(1) by auto
      then show ?thesis using assms(4) True by (auto simp: follows_def)
    next
      case False
      then have all: "\<forall>m\<in>N. y \<le> m \<and> m \<le> n" using assms(4) by (auto simp: follows_def)
      then have "y \<le> t" "x \<le> n" using t x by auto
      then show ?thesis using assms(4) False all b(1) bx by (auto simp: follows_def)
    qed
  next
    case 2
    then have "n < t" using n by auto
    then have "n < y" using assms(4) t by (auto simp: follows_def)
    moreover have "y \<le> b" using 2(2) y b(1) by auto
    ultimately show ?thesis using assms(4) by (auto simp: follows_def)
  qed
qed

text \<open>The members from \<open>p\<close> on around to \<open>t\<close>.\<close>

definition around :: "'a::linorder set \<Rightarrow> 'a \<Rightarrow> 'a \<Rightarrow> 'a set" where
  "around N t p = (if p \<le> t then {m \<in> N. p \<le> m \<and> m \<le> t} else {m \<in> N. p \<le> m \<or> m \<le> t})"

lemma around_self: "p \<in> N \<Longrightarrow> p \<in> around N t p"
  by (auto simp: around_def)

lemma around_next:
  assumes "follows N p x" and "p \<in> N" and "t \<in> N" and "p \<noteq> t"
  shows "around N t x = around N t p - {p}"
proof -
  consider "p < x" "\<forall>m\<in>N. m \<le> p \<or> x \<le> m" | "x \<le> p" "\<forall>m\<in>N. x \<le> m \<and> m \<le> p" using assms(1) by (auto simp: follows_def)
  then show ?thesis
  proof cases
    case 1
    have "x \<le> t \<longleftrightarrow> p \<le> t" using 1 assms(3,4) by (auto dest!: bspec)
    moreover have "x \<le> m \<longleftrightarrow> p \<le> m \<and> m \<noteq> p" if "m \<in> N" for m using 1 that by (auto dest!: bspec)
    ultimately show ?thesis using assms(4) by (auto simp: around_def)
  next
    case 2
    have "t < p" using 2 assms(3,4) by auto
    moreover have "x \<le> t" using 2 assms(3) by auto
    moreover have "p \<le> m \<longleftrightarrow> m = p" "x \<le> m" if "m \<in> N" for m using 2 that by (auto dest!: bspec)
    ultimately show ?thesis using 2 by (auto simp: around_def)
  qed
qed

lemma around_all:
  assumes "follows N t x" and "t \<in> N"
  shows "around N t x = N"
  using assms by (auto simp: follows_def around_def)

lemma follows_inj:
  assumes "follows N n q" and "follows N t q" and "n \<in> N" and "t \<in> N"
  shows "n = t"
proof -
  have "n < q \<longleftrightarrow> t < q" using assms by (auto simp: follows_def)
  moreover have "n \<le> t \<and> t \<le> n" if "n < q" "t < q" using assms that by (fastforce simp: follows_def)
  moreover have "n \<le> t \<and> t \<le> n" if "\<not> n < q" "\<not> t < q" using assms that by (auto simp: follows_def)
  ultimately show ?thesis by auto
qed

section \<open>The free list\<close>

definition area :: "uheap \<Rightarrow> uint \<Rightarrow> nat set" where
  "area h n = {unat n ..< unat n + 8 * unat (u_size h n)}"

definition free_mem :: "uint set \<Rightarrow> uheap \<Rightarrow> nat set" where
  "free_mem N h = (\<Union>n\<in>N. area h n)"

text \<open>The sizes of the blocks in \<open>N\<close>: they do not overlap and do not reach the end of the address space; \<open>base\<close> is the lowest.\<close>

definition spaced :: "uint \<Rightarrow> uint set \<Rightarrow> uheap \<Rightarrow> bool" where
  "spaced base N h \<longleftrightarrow> finite N \<and> base \<in> N \<and> u_size h base = 0 \<and>
     (\<forall>n\<in>N. n \<noteq> base \<longrightarrow> unat base + 8 \<le> unat n \<and> 0 < u_size h n \<and> unat n + 8 * unat (u_size h n) < 2 ^ 32) \<and>
     (\<forall>n\<in>N. \<forall>m\<in>N. n < m \<longrightarrow> unat n + 8 * unat (u_size h n) \<le> unat m)"

definition heap_ok :: "uint \<Rightarrow> uint set \<Rightarrow> uheap \<Rightarrow> bool" where
  "heap_ok base N h \<longleftrightarrow> spaced base N h \<and> u_freep h \<in> N \<and> (\<forall>n\<in>N. follows N n (u_ptr h n))"

text \<open>A block that is not in the list and can be put there.\<close>

definition fresh_block :: "uint \<Rightarrow> uint set \<Rightarrow> uheap \<Rightarrow> uint \<Rightarrow> bool" where
  "fresh_block base N h bp \<longleftrightarrow> bp \<notin> N \<and> unat base + 8 \<le> unat bp \<and> 0 < u_size h bp \<and> unat bp + 8 * unat (u_size h bp) < 2 ^ 32 \<and>
     (\<forall>m\<in>N. m < bp \<longrightarrow> unat m + 8 * unat (u_size h m) \<le> unat bp) \<and>
     (\<forall>m\<in>N. bp < m \<longrightarrow> unat bp + 8 * unat (u_size h bp) \<le> unat m)"

text \<open>The block of the list before it.\<close>

definition before :: "uint set \<Rightarrow> uint \<Rightarrow> uint \<Rightarrow> bool" where
  "before N bp t \<longleftrightarrow> t \<in> N \<and> t < bp \<and> (\<forall>m\<in>N. m < bp \<longrightarrow> m \<le> t)"

lemma before_exists:
  assumes "finite N" and "base \<in> N" and "base < bp"
  shows "\<exists>t. before N bp t"
proof -
  have "finite {m \<in> N. m < bp}" "{m \<in> N. m < bp} \<noteq> {}" using assms by auto
  then have "before N bp (Max {m \<in> N. m < bp})" using Max_in [of "{m \<in> N. m < bp}"] Max_ge [of "{m \<in> N. m < bp}"] by (simp add: before_def)
  then show ?thesis ..
qed

lemma find_place_ok:
  assumes ok: "heap_ok base N h" and t: "before N bp t" and bp: "bp \<notin> N"
  shows "p \<in> N \<Longrightarrow> card (around N t p) \<le> k \<Longrightarrow> find_place k bp p h = Inr t"
proof (induction k arbitrary: p)
  case 0
  have "finite N" using ok by (simp add: heap_ok_def spaced_def)
  then have "finite (around N t p)" by (simp add: around_def)
  then show ?case using 0 around_self [of p N t] by auto
next
  case (Suc k)
  have fin: "finite (around N t p)" using ok by (simp add: heap_ok_def spaced_def around_def)
  have tn: "t \<in> N" "t < bp" "\<forall>m\<in>N. m < bp \<longrightarrow> m \<le> t" using t by (auto simp: before_def)
  have f: "follows N p (u_ptr h p)" using ok Suc.prems(1) by (simp add: heap_ok_def)
  have x: "u_ptr h p \<in> N" "u_ptr h p \<noteq> bp" using f bp by (auto simp: follows_def)
  show ?case
  proof (cases "p = t")
    case True
    have "bp < u_ptr h p \<or> u_ptr h p \<le> p"
      using x tn(3) True by (metis leD le_less_linear linorder_neqE)
    then show ?thesis using tn(2) True by auto
  next
    case False
    have "\<not> (bp > p \<and> bp < u_ptr h p) \<and> \<not> (p \<ge> u_ptr h p \<and> (bp > p \<or> bp < u_ptr h p))"
    proof (cases "p < bp")
      case lt: True
      then have "p < t" using tn(3) Suc.prems(1) False by (simp add: order.not_eq_order_implies_strict)
      then have "p < u_ptr h p" "u_ptr h p \<le> t" using f tn(1) by (auto simp: follows_def dest!: bspec)
      then show ?thesis using tn(2) by auto
    next
      case ge: False
      then have "\<not> bp < u_ptr h p" if "u_ptr h p \<le> p" using that f tn(1,2) by (auto simp: follows_def dest!: bspec)
      then show ?thesis using ge by auto
    qed
    moreover have "find_place k bp (u_ptr h p) h = Inr t"
      by (rule Suc.IH [OF x(1)]) (use around_next [OF f Suc.prems(1) tn(1) False] around_self [OF Suc.prems(1), of t] fin Suc.prems(2) in \<open>simp\<close>)
    ultimately show ?thesis by auto
  qed
qed

lemma unat_units: "unat a + 8 * unat b < 2 ^ 32 \<Longrightarrow> unat (a + 8 * b :: uint) = unat a + 8 * unat b"
proof -
  assume a: "unat a + 8 * unat b < 2 ^ 32"
  then have "unat (8 * b) = 8 * unat b" by (simp add: unat_word_ariths)
  then show ?thesis using a by (simp add: unat_word_ariths)
qed

text \<open>The list with \<open>bp\<close> in it, when the pointer of the block before it is still to be set.\<close>

definition pending :: "uint \<Rightarrow> uint set \<Rightarrow> uheap \<Rightarrow> uint \<Rightarrow> uint \<Rightarrow> bool" where
  "pending base N h t bp \<longleftrightarrow> spaced base N h \<and> t \<in> N \<and> bp \<in> N \<and> bp \<noteq> base \<and> t < bp \<and> follows N t bp \<and>
     (\<forall>n\<in>N. n \<noteq> t \<longrightarrow> follows N n (u_ptr h n))"

lemma spaced_insert:
  assumes "spaced base N h" and "fresh_block base N h bp"
  shows "spaced base (insert bp N) h"
  using assms unfolding spaced_def fresh_block_def by auto

lemma spaced_cong: "spaced base N h \<Longrightarrow> (\<And>n. n \<in> N \<Longrightarrow> u_size h' n = u_size h n) \<Longrightarrow> spaced base N h'"
  unfolding spaced_def by auto

lemma spaced_subset: "spaced base N h \<Longrightarrow> M \<subseteq> N \<Longrightarrow> base \<in> M \<Longrightarrow> spaced base M h"
  unfolding spaced_def by (auto intro: finite_subset)

lemma free_mem_cong: "(\<And>n. n \<in> N \<Longrightarrow> u_size h' n = u_size h n) \<Longrightarrow> free_mem N h' = free_mem N h"
  by (simp add: free_mem_def area_def)

lemma free_mem_insert: "free_mem (insert n N) h = area h n \<union> free_mem N h"
  by (simp add: free_mem_def)

lemma before_follows:
  assumes "heap_ok base N h" and "before N bp t" and "bp \<notin> N"
  shows "follows N t (u_ptr h t)" "t \<in> N" "t < bp" "bp < u_ptr h t \<or> u_ptr h t \<le> t" "u_ptr h t \<in> N"
proof -
  show t: "t \<in> N" "t < bp" using assms(2) by (auto simp: before_def)
  show f: "follows N t (u_ptr h t)" using assms(1) t by (auto simp: heap_ok_def)
  then show x: "u_ptr h t \<in> N" by (simp add: follows_def)
  show "bp < u_ptr h t \<or> u_ptr h t \<le> t" using x assms(2,3) unfolding before_def by (metis leD le_less_linear linorder_neqE)
qed

lemma join_up_apart:
  assumes ok: "heap_ok base N h" and fresh: "fresh_block base N h bp" and t: "before N bp t"
    and apart: "bp + 8 * u_size h bp \<noteq> u_ptr h t"
  shows "pending base (insert bp N) (join_up bp t h) t bp" "free_mem (insert bp N) (join_up bp t h) = free_mem N h \<union> area h bp"
    "u_size (join_up bp t h) = u_size h"
proof -
  let ?h = "set_ptr bp (u_ptr h t) h"
  have j: "join_up bp t h = ?h" using apart by (simp add: join_up_def)
  have bp: "bp \<notin> N" using fresh by (simp add: fresh_block_def)
  note b = before_follows [OF ok t bp]
  have base: "bp \<noteq> base" using fresh by (auto simp: fresh_block_def)
  have "spaced base (insert bp N) ?h"
    by (rule spaced_cong [OF spaced_insert [OF _ fresh]]) (use ok in \<open>simp_all add: heap_ok_def\<close>)
  moreover have "follows (insert bp N) n (u_ptr ?h n)" if "n \<in> insert bp N" "n \<noteq> t" for n
  proof (cases "n = bp")
    case True
    then show ?thesis using follows_insert(2) [OF b(1-4)] by simp
  next
    case False
    then have n: "n \<in> N" using that by simp
    have "follows N n (u_ptr h n)" using ok n by (simp add: heap_ok_def)
    then have "follows (insert bp N) n (u_ptr h n)" by (rule follows_insert_other [OF b(1,3,4) _ n that(2) b(2)])
    then show ?thesis using False by simp
  qed
  ultimately show "pending base (insert bp N) (join_up bp t h) t bp"
    unfolding j pending_def using follows_insert(1) [OF b(1-4)] b(2,3) base by auto
  show "free_mem (insert bp N) (join_up bp t h) = free_mem N h \<union> area h bp" unfolding j by (auto simp: free_mem_def area_def)
  show "u_size (join_up bp t h) = u_size h" unfolding j by simp
qed

lemma join_up_joins:
  assumes ok: "heap_ok base N h" and fresh: "fresh_block base N h bp" and t: "before N bp t"
    and q: "q = u_ptr h t" and touch: "bp + 8 * u_size h bp = q"
  shows "pending base (insert bp (N - {q})) (join_up bp t h) t bp"
    "free_mem (insert bp (N - {q})) (join_up bp t h) = free_mem N h \<union> area h bp"
    "u_size (join_up bp t h) = (u_size h)(bp := u_size h bp + u_size h q)"
    "u_size h bp \<le> u_size h bp + u_size h q"
proof -
  let ?h = "set_ptr bp (u_ptr h q) (set_size bp (u_size h bp + u_size h q) h)"
  have bp: "bp \<notin> N" "unat base + 8 \<le> unat bp" "0 < u_size h bp" "unat bp + 8 * unat (u_size h bp) < 2 ^ 32"
      "\<forall>m\<in>N. m < bp \<longrightarrow> unat m + 8 * unat (u_size h m) \<le> unat bp" "\<forall>m\<in>N. bp < m \<longrightarrow> unat bp + 8 * unat (u_size h bp) \<le> unat m"
    using fresh by (auto simp: fresh_block_def)
  have j: "join_up bp t h = ?h" using touch bp(1) before_follows(5) [OF ok t bp(1)] unfolding join_up_def q by (auto simp: Let_def)
  note b = before_follows [OF ok t bp(1), folded q]
  have uq: "unat q = unat bp + 8 * unat (u_size h bp)" using unat_units [OF bp(4)] touch by simp
  then have bq: "bp < q" using bp(3) by (simp add: word_less_nat_alt)
  then have tq: "t < q" using b(3) by simp
  have sp: "spaced base N h" using ok by (simp add: heap_ok_def)
  have base: "q \<noteq> base" "bp \<noteq> base" "base \<in> N" "t \<noteq> q" using bq bp(2) tq sp by (auto simp: word_less_nat_alt spaced_def)
  have qs: "unat q + 8 * unat (u_size h q) < 2 ^ 32" using sp b(5) base(1) by (auto simp: spaced_def)
  have us: "unat (u_size h bp + u_size h q) = unat (u_size h bp) + unat (u_size h q)"
    using qs uq by (simp add: unat_word_ariths)
  then show "u_size h bp \<le> u_size h bp + u_size h q" by (simp add: word_le_nat_alt)
  show "u_size (join_up bp t h) = (u_size h)(bp := u_size h bp + u_size h q)" unfolding j by simp
  have s0: "spaced base (N - {q}) ?h"
    by (rule spaced_cong [OF spaced_subset [OF sp]]) (use base bp(1) in auto)
  have "fresh_block base (N - {q}) ?h bp"
    unfolding fresh_block_def
  proof (intro conjI ballI impI)
    fix m assume m: "m \<in> N - {q}" "bp < m"
    then have "unat q \<le> unat m" using bp(6) uq by auto
    then have "q < m" using m by (auto simp: word_less_nat_alt word_unat_eq_iff)
    then have "unat q + 8 * unat (u_size h q) \<le> unat m" using sp m b(5) by (auto simp: spaced_def)
    then show "unat bp + 8 * unat (u_size ?h bp) \<le> unat m" using us uq by simp
  qed (use bp us uq qs in \<open>auto simp: word_less_nat_alt\<close>)
  then have s1: "spaced base (insert bp (N - {q})) ?h" by (rule spaced_insert [OF s0])
  have fq: "follows N q (u_ptr h q)" using ok b(5) by (simp add: heap_ok_def)
  have f0: "follows (N - {q}) t (u_ptr h q)" by (rule follows_delete [OF b(1) fq b(2) base(4)])
  have n0: "u_ptr h q \<in> N - {q}" using f0 by (simp add: follows_def)
  have side: "bp < u_ptr h q \<or> u_ptr h q \<le> t"
    using fq b(2) bq tq by (auto simp: follows_def)
  have t0: "t \<in> N - {q}" using b(2) base(4) by simp
  have "follows (insert bp (N - {q})) n (u_ptr ?h n)" if "n \<in> insert bp (N - {q})" "n \<noteq> t" for n
  proof (cases "n = bp")
    case True
    then show ?thesis using follows_insert(2) [OF f0 t0 b(3) side] by simp
  next
    case False
    then have n: "n \<in> N - {q}" using that by simp
    then have f: "follows N n (u_ptr h n)" using ok by (simp add: heap_ok_def)
    have "u_ptr h n \<noteq> q" using follows_inj [of N n q t] f b(1,2) n that(2) by auto
    then have "follows (N - {q}) n (u_ptr h n)" by (rule follows_delete_other [OF f])
    then have "follows (insert bp (N - {q})) n (u_ptr h n)" by (rule follows_insert_other [OF f0 b(3) side _ n that(2) t0])
    then show ?thesis using False by simp
  qed
  then show "pending base (insert bp (N - {q})) (join_up bp t h) t bp"
    unfolding j pending_def using s1 follows_insert(1) [OF f0 t0 b(3) side] t0 b(3) base(2) by auto
  have "area ?h bp = area h bp \<union> area h q" unfolding area_def using us uq by auto
  moreover have "free_mem (N - {q}) ?h = free_mem (N - {q}) h" by (rule free_mem_cong) (use bp(1) in auto)
  ultimately have "free_mem (insert bp (N - {q})) ?h = area h bp \<union> (area h q \<union> free_mem (N - {q}) h)" by (simp add: free_mem_def Un_assoc)
  moreover have "area h q \<union> free_mem (N - {q}) h = free_mem N h" using b(5) by (auto simp: free_mem_def)
  ultimately show "free_mem (insert bp (N - {q})) (join_up bp t h) = free_mem N h \<union> area h bp" unfolding j by (simp add: Un_commute)
qed

lemma join_up_ok:
  assumes "heap_ok base N h" and "fresh_block base N h bp" and "before N bp t"
  shows "\<exists>M. pending base M (join_up bp t h) t bp \<and> M \<subseteq> insert bp N \<and> free_mem M (join_up bp t h) = free_mem N h \<union> area h bp \<and>
    u_size h bp \<le> u_size (join_up bp t h) bp \<and> (\<forall>a. a \<noteq> bp \<longrightarrow> u_size (join_up bp t h) a = u_size h a)"
proof (cases "bp + 8 * u_size h bp = u_ptr h t")
  case True
  show ?thesis using join_up_joins [OF assms refl True] by (intro exI [of _ "insert bp (N - {u_ptr h t})"]) auto
next
  case False
  show ?thesis using join_up_apart [OF assms False] by (intro exI [of _ "insert bp N"]) auto
qed

lemma join_down_ok:
  assumes p: "pending base N h t bp"
  shows "\<exists>M. heap_ok base M ((join_down bp t h)\<lparr>u_freep := t\<rparr>) \<and> M \<subseteq> N \<and> free_mem M (join_down bp t h) = free_mem N h \<and> t \<in> M \<and>
    (\<exists>m\<in>M. u_size h bp \<le> u_size (join_down bp t h) m) \<and> (\<forall>a. a \<notin> N \<longrightarrow> u_size (join_down bp t h) a = u_size h a)"
proof -
  have sp: "spaced base N h" and n: "t \<in> N" "bp \<in> N" "bp \<noteq> base" "t < bp" and f: "follows N t bp"
    and o: "\<forall>n\<in>N. n \<noteq> t \<longrightarrow> follows N n (u_ptr h n)" using p by (auto simp: pending_def)
  show ?thesis
  proof (cases "t + 8 * u_size h t = bp")
    case False
    let ?h = "set_ptr t bp h"
    have j: "join_down bp t h = ?h" using False by (simp add: join_down_def)
    have "spaced base N (?h\<lparr>u_freep := t\<rparr>)" by (rule spaced_cong [OF sp]) simp
    then have "heap_ok base N (?h\<lparr>u_freep := t\<rparr>)" using f o n by (auto simp: heap_ok_def)
    moreover have "free_mem N ?h = free_mem N h" by (rule free_mem_cong) simp
    ultimately show ?thesis unfolding j using n by (intro exI [of _ N]) auto
  next
    case True
    let ?h = "set_ptr t (u_ptr h bp) (set_size t (u_size h t + u_size h bp) h)"
    have tbp: "t \<noteq> bp" using n(4) by simp
    have j: "join_down bp t h = ?h" using True tbp by (simp add: join_down_def Let_def)
    have tb: "t \<noteq> base" using True sp n(3) by (auto simp: spaced_def)
    have ts: "unat t + 8 * unat (u_size h t) < 2 ^ 32" "0 < u_size h t" "unat base + 8 \<le> unat t" using sp n(1) tb by (auto simp: spaced_def)
    have ub: "unat bp = unat t + 8 * unat (u_size h t)" using unat_units [OF ts(1)] True by simp
    have bs: "unat bp + 8 * unat (u_size h bp) < 2 ^ 32" using sp n by (auto simp: spaced_def)
    have us: "unat (u_size h t + u_size h bp) = unat (u_size h t) + unat (u_size h bp)" using ub bs by (simp add: unat_word_ariths)
    have base: "base \<in> N" using sp by (simp add: spaced_def)
    have "spaced base (N - {bp} - {t}) ?h" by (rule spaced_cong [OF spaced_subset [OF sp]]) (use base n(3) tb in auto)
    moreover have "fresh_block base (N - {bp} - {t}) ?h t"
      unfolding fresh_block_def
    proof (intro conjI ballI impI)
      fix m assume m: "m \<in> N - {bp} - {t}" "t < m"
      then have "bp < m" using f by (auto simp: follows_def)
      then have "unat bp + 8 * unat (u_size h bp) \<le> unat m" using sp m n(2) by (auto simp: spaced_def)
      then show "unat t + 8 * unat (u_size ?h t) \<le> unat m" using us ub by simp
    next
      fix m assume m: "m \<in> N - {bp} - {t}" "m < t"
      then show "unat m + 8 * unat (u_size ?h m) \<le> unat t" using sp n(1) by (auto simp: spaced_def)
    qed (use ts us ub bs in \<open>auto simp: word_less_nat_alt\<close>)
    ultimately have "spaced base (insert t (N - {bp} - {t})) ?h" by (rule spaced_insert)
    moreover have "insert t (N - {bp} - {t}) = N - {bp}" using n(1) tbp by auto
    ultimately have s: "spaced base (N - {bp}) ?h" by simp
    have fb: "follows N bp (u_ptr h bp)" using o n(2) tbp by auto
    have "follows (N - {bp}) m (u_ptr ?h m)" if "m \<in> N - {bp}" for m
    proof (cases "m = t")
      case True
      then show ?thesis using follows_delete [OF f fb n(1) tbp] by simp
    next
      case False
      then have g: "follows N m (u_ptr h m)" using o that by auto
      have "u_ptr h m \<noteq> bp" using follows_inj [of N m bp t] g f n(1) that False by auto
      then show ?thesis using follows_delete_other [OF g] False by simp
    qed
    moreover have "spaced base (N - {bp}) (?h\<lparr>u_freep := t\<rparr>)" by (rule spaced_cong [OF s]) simp
    ultimately have ok: "heap_ok base (N - {bp}) (?h\<lparr>u_freep := t\<rparr>)" using n(1) tbp by (simp add: heap_ok_def)
    define R where "R = N - {bp} - {t}"
    have R: "N - {bp} = insert t R" "N = insert bp (insert t R)" unfolding R_def using n(1,2) tbp by auto
    have "area ?h t = area h t \<union> area h bp" unfolding area_def using us ub by auto
    moreover have "free_mem R ?h = free_mem R h" by (rule free_mem_cong) (auto simp: R_def)
    moreover have "free_mem (N - {bp}) ?h = area ?h t \<union> free_mem R ?h" unfolding R(1) by (rule free_mem_insert)
    moreover have "free_mem N h = area h bp \<union> (area h t \<union> free_mem R h)" unfolding R(2) free_mem_insert ..
    ultimately have "free_mem (N - {bp}) ?h = free_mem N h" by auto
    moreover have "u_size h bp \<le> u_size ?h t" using us by (simp add: word_le_nat_alt)
    ultimately show ?thesis unfolding j using ok n(1) tbp by (intro exI [of _ "N - {bp}"]) auto
  qed
qed

section \<open>free\<close>

lemma card_rounds: "card (N :: uint set) < ROUNDS"
proof -
  have "card N \<le> card (UNIV :: uint set)" by (rule card_mono) simp_all
  then show ?thesis by (simp add: ROUNDS_def card_word)
qed

lemma ufree_ok:
  assumes ok: "heap_ok base N h" and fresh: "fresh_block base N h bp"
  shows "\<exists>h' M. ufree (bp + 8) h = Inr h' \<and> heap_ok base M h' \<and> M \<subseteq> insert bp N \<and> free_mem M h' = free_mem N h \<union> area h bp \<and>
    (\<exists>m\<in>M. u_size h bp \<le> u_size h' m) \<and> (\<forall>a. a \<notin> insert bp N \<longrightarrow> u_size h' a = u_size h a)"
proof -
  have bp: "bp \<notin> N" "base < bp" using fresh by (auto simp: fresh_block_def word_less_nat_alt)
  have N: "finite N" "base \<in> N" "u_freep h \<in> N" using ok by (auto simp: heap_ok_def spaced_def)
  obtain t where t: "before N bp t" using before_exists [OF N(1,2) bp(2)] by blast
  have f: "find_place ROUNDS bp (u_freep h) h = Inr t"
    by (rule find_place_ok [OF ok t bp(1) N(3)]) (rule less_imp_le [OF card_rounds])
  obtain M where M: "pending base M (join_up bp t h) t bp" "M \<subseteq> insert bp N" "free_mem M (join_up bp t h) = free_mem N h \<union> area h bp"
      "u_size h bp \<le> u_size (join_up bp t h) bp" "\<forall>a. a \<noteq> bp \<longrightarrow> u_size (join_up bp t h) a = u_size h a"
    using join_up_ok [OF ok fresh t] by blast
  obtain L where L: "heap_ok base L ((join_down bp t (join_up bp t h))\<lparr>u_freep := t\<rparr>)" "L \<subseteq> M"
      "free_mem L (join_down bp t (join_up bp t h)) = free_mem M (join_up bp t h)"
      "\<exists>m\<in>L. u_size (join_up bp t h) bp \<le> u_size (join_down bp t (join_up bp t h)) m"
      "\<forall>a. a \<notin> M \<longrightarrow> u_size (join_down bp t (join_up bp t h)) a = u_size (join_up bp t h) a"
    using join_down_ok [OF M(1)] by blast
  let ?h = "(join_down bp t (join_up bp t h))\<lparr>u_freep := t\<rparr>"
  have "free_mem L ?h = free_mem L (join_down bp t (join_up bp t h))" by (rule free_mem_cong) simp
  moreover have "ufree (bp + 8) h = Inr ?h" by (simp add: ufree_def f)
  moreover have "\<exists>m\<in>L. u_size h bp \<le> u_size ?h m" using L(4) M(4) by (auto intro: order_trans)
  ultimately show ?thesis
    using L(1-3,5) M(2,3,5) by (intro exI [of _ ?h] exI [of _ L]) auto
qed

section \<open>Taking a block\<close>

lemma areas_apart:
  assumes "spaced base N h" and "n \<in> N" and "m \<in> N" and "n \<noteq> m"
  shows "area h n \<inter> area h m = {}"
proof -
  have "n < m \<or> m < n" using assms(4) by auto
  then show ?thesis using assms(1-3) unfolding spaced_def area_def by (fastforce)
qed

lemma free_mem_remove:
  assumes "spaced base N h" and "p \<in> N"
  shows "free_mem (N - {p}) h = free_mem N h - area h p"
  using areas_apart [OF assms(1) assms(2)] by (auto simp: free_mem_def)

lemma node_below: "spaced base N h \<Longrightarrow> n \<in> N \<Longrightarrow> n \<noteq> base \<Longrightarrow> base < n"
  by (auto simp: spaced_def word_less_nat_alt)

definition block :: "uint \<times> uint \<Rightarrow> nat set" where
  "block a = {unat (fst a) ..< unat (fst a) + 8 * unat (snd a)}"

text \<open>The block \<open>b\<close> of \<open>n\<close> units has been taken from the list.\<close>

definition taken :: "uint \<Rightarrow> uint set \<Rightarrow> uheap \<Rightarrow> uint \<Rightarrow> uint \<Rightarrow> uint set \<Rightarrow> uheap \<Rightarrow> bool" where
  "taken base N h n b M h' \<longleftrightarrow> heap_ok base M h' \<and> M \<subseteq> N \<and> u_size h' b = n \<and> block (b, n) \<subseteq> free_mem N h \<and>
     free_mem M h' = free_mem N h - block (b, n) \<and> unat base + 8 \<le> unat b \<and> unat b + 8 * unat n < 2 ^ 32 \<and>
     (\<forall>a. a \<notin> N \<longrightarrow> a \<noteq> b \<longrightarrow> u_size h' a = u_size h a)"

lemma take_exact:
  assumes ok: "heap_ok base N h" and q: "prevp \<in> N" "p = u_ptr h prevp" and fit: "u_size h p = n" "0 < n"
  shows "taken base N h n p (N - {p}) ((set_ptr prevp (u_ptr h p) h)\<lparr>u_freep := prevp\<rparr>)"
proof -
  let ?h = "(set_ptr prevp (u_ptr h p) h)\<lparr>u_freep := prevp\<rparr>"
  have sp: "spaced base N h" and f: "\<And>n. n \<in> N \<Longrightarrow> follows N n (u_ptr h n)" using ok by (auto simp: heap_ok_def)
  have p: "p \<in> N" using f [OF q(1)] q(2) by (simp add: follows_def)
  have base: "p \<noteq> base" "base \<in> N" "finite N" using fit sp by (auto simp: spaced_def)
  have "prevp \<noteq> p"
  proof
    assume "prevp = p"
    then have "follows N p p" using f [OF q(1)] q(2) by simp
    then have "base = p" using base(2) by (auto simp: follows_def)
    then show False using base(1) by simp
  qed
  have "follows (N - {p}) m (u_ptr ?h m)" if "m \<in> N - {p}" for m
  proof (cases "m = prevp")
    case True
    then show ?thesis using follows_delete [of N prevp p "u_ptr h p"] f q p \<open>prevp \<noteq> p\<close> by simp
  next
    case False
    then have "u_ptr h m \<noteq> p" using follows_inj [of N m p prevp] f [of m] f [OF q(1), folded q(2)] that q(1) by auto
    then show ?thesis using follows_delete_other [of N m "u_ptr h m" p] f that False by simp
  qed
  moreover have "spaced base (N - {p}) ?h" by (rule spaced_cong [OF spaced_subset [OF sp]]) (use base in auto)
  ultimately have "heap_ok base (N - {p}) ?h" using q(1) \<open>prevp \<noteq> p\<close> by (simp add: heap_ok_def)
  moreover have "free_mem (N - {p}) ?h = free_mem N h - block (p, n)"
    using free_mem_remove [OF sp p] free_mem_cong [of "N - {p}" ?h h] fit by (simp add: block_def area_def)
  moreover have "block (p, n) \<subseteq> free_mem N h" using p fit by (auto simp: free_mem_def block_def area_def)
  moreover have "unat base + 8 \<le> unat p" "unat p + 8 * unat n < 2 ^ 32" using sp p base(1) fit by (auto simp: spaced_def)
  ultimately show ?thesis using fit by (auto simp: taken_def)
qed

lemma take_tail:
  assumes ok: "heap_ok base N h" and q: "prevp \<in> N" "p \<in> N" and fit: "n < u_size h p" "0 < n"
    and b: "b = p + 8 * (u_size h p - n)"
  shows "taken base N h n b N ((set_size b n (set_size p (u_size h p - n) h))\<lparr>u_freep := prevp\<rparr>)"
proof -
  let ?h = "(set_size b n (set_size p (u_size h p - n) h))\<lparr>u_freep := prevp\<rparr>"
  have sp: "spaced base N h" using ok by (auto simp: heap_ok_def)
  have base: "p \<noteq> base" "base \<in> N" "finite N" using fit sp by (auto simp: spaced_def)
  have ps: "unat base + 8 \<le> unat p" "unat p + 8 * unat (u_size h p) < 2 ^ 32" using sp q(2) base(1) by (auto simp: spaced_def)
  have us: "unat (u_size h p - n) = unat (u_size h p) - unat n" using fit by (simp add: unat_sub word_less_nat_alt word_le_nat_alt)
  have lt: "unat n < unat (u_size h p)" "0 < unat n" using fit by (simp_all add: word_less_nat_alt)
  have ub: "unat b = unat p + 8 * (unat (u_size h p) - unat n)" unfolding b using unat_units [of p "u_size h p - n"] ps us by simp
  have inside: "unat p < unat b" "unat b + 8 * unat n = unat p + 8 * unat (u_size h p)" using ub lt by simp_all
  have bN: "b \<notin> N"
  proof
    assume "b \<in> N"
    then have "unat p + 8 * unat (u_size h p) \<le> unat b" using sp q(2) inside(1) by (auto simp: spaced_def word_less_nat_alt)
    then show False using inside(2) lt by simp
  qed
  have "b \<noteq> p" using inside by auto
  have s0: "spaced base (N - {p}) ?h" by (rule spaced_cong [OF spaced_subset [OF sp]]) (use base bN in auto)
  have "fresh_block base (N - {p}) ?h p"
    unfolding fresh_block_def
  proof (intro conjI ballI impI)
    fix m assume m: "m \<in> N - {p}" "p < m"
    then have "unat p + 8 * unat (u_size h p) \<le> unat m" using sp q(2) by (auto simp: spaced_def)
    then show "unat p + 8 * unat (u_size ?h p) \<le> unat m" using us \<open>b \<noteq> p\<close> by simp
  next
    fix m assume m: "m \<in> N - {p}" "m < p"
    then have "b \<noteq> m" using bN by auto
    then show "unat m + 8 * unat (u_size ?h m) \<le> unat p" using sp q(2) m by (auto simp: spaced_def)
  next
    show "0 < u_size ?h p" using us lt \<open>b \<noteq> p\<close> by (simp add: word_less_nat_alt)
    show "unat p + 8 * unat (u_size ?h p) < 2 ^ 32" using us ps(2) \<open>b \<noteq> p\<close> by simp
  qed (use ps in auto)
  then have "spaced base (insert p (N - {p})) ?h" by (rule spaced_insert [OF s0])
  then have sp': "spaced base N ?h" using q(2) by (simp add: insert_absorb)
  then have "heap_ok base N ?h" using ok q(1) by (simp add: heap_ok_def)
  moreover have a: "area h p = area ?h p \<union> block (b, n)" "area ?h p \<inter> block (b, n) = {}"
    unfolding area_def block_def using us ub lt \<open>b \<noteq> p\<close> by auto
  moreover have "free_mem N ?h = free_mem N h - block (b, n)"
  proof -
    have "free_mem (N - {p}) ?h = free_mem (N - {p}) h" by (rule free_mem_cong) (use bN in auto)
    then have "free_mem (N - {p}) ?h = free_mem N h - area h p" by (simp only: free_mem_remove [OF sp q(2)])
    moreover have "free_mem N ?h = area ?h p \<union> free_mem (N - {p}) ?h" using q(2) by (auto simp: free_mem_def)
    moreover have "area h p \<subseteq> free_mem N h" using q(2) by (auto simp: free_mem_def)
    ultimately show ?thesis using a by auto
  qed
  moreover have "block (b, n) \<subseteq> free_mem N h" using a(1) q(2) by (auto simp: free_mem_def)
  ultimately show ?thesis unfolding taken_def using inside ps q(2) by auto
qed

lemma take_block_ok:
  assumes "heap_ok base N h" and "prevp \<in> N" and "n \<le> u_size h (u_ptr h prevp)" and "0 < n"
  shows "\<exists>b M h'. take_block n prevp (u_ptr h prevp) h = (b + 8, h') \<and> taken base N h n b M h'"
proof (cases "u_size h (u_ptr h prevp) = n")
  case True
  then show ?thesis using take_exact [OF assms(1,2) refl True assms(4)] by (auto simp: take_block_def)
next
  case False
  then have "n < u_size h (u_ptr h prevp)" using assms(3) by simp
  moreover have "u_ptr h prevp \<in> N" using assms(1,2) by (auto simp: heap_ok_def follows_def)
  ultimately show ?thesis
    using take_tail [OF assms(1,2) _ _ assms(4) refl, of "u_ptr h prevp"] False by (auto simp: take_block_def Let_def)
qed

section \<open>The search\<close>

lemma malloc_finds:
  assumes ok: "heap_ok base N h"
  shows "prevp \<in> N \<Longrightarrow> m \<in> around N (u_freep h) (u_ptr h prevp) \<Longrightarrow> n \<le> u_size h m \<Longrightarrow> card (around N (u_freep h) (u_ptr h prevp)) \<le> k \<Longrightarrow>
    \<exists>q\<in>N. n \<le> u_size h (u_ptr h q) \<and>
      malloc_loop sbrk k n prevp (u_ptr h prevp) (h, s) = (case take_block n q (u_ptr h q) h of (r, h) \<Rightarrow> Inr (Some r, h, s))"
proof (induction k arbitrary: prevp)
  case 0
  have "finite (around N (u_freep h) (u_ptr h prevp))" using ok by (simp add: heap_ok_def spaced_def around_def)
  then show ?case using 0 by auto
next
  case (Suc k)
  let ?p = "u_ptr h prevp" and ?t = "u_freep h"
  have N: "finite N" "?t \<in> N" "\<And>n. n \<in> N \<Longrightarrow> follows N n (u_ptr h n)" using ok by (auto simp: heap_ok_def spaced_def)
  have p: "?p \<in> N" using N(3) [OF Suc.prems(1)] by (simp add: follows_def)
  show ?case
  proof (cases "n \<le> u_size h ?p")
    case True
    then show ?thesis using Suc.prems(1) by (intro bexI [of _ prevp]) auto
  next
    case False
    then have "m \<noteq> ?p" using Suc.prems(3) by auto
    have "?p \<noteq> ?t"
    proof
      assume "?p = ?t"
      then have "around N ?t ?p = {?p}" using p by (auto simp: around_def)
      then show False using Suc.prems(2) \<open>m \<noteq> ?p\<close> by auto
    qed
    then have a: "around N ?t (u_ptr h ?p) = around N ?t ?p - {?p}" by (rule around_next [OF N(3) [OF p] p N(2)])
    have "finite (around N ?t ?p)" using N(1) by (simp add: around_def)
    then have "card (around N ?t (u_ptr h ?p)) \<le> k" using Suc.prems(4) around_self [OF p, of ?t] unfolding a by simp
    moreover have "m \<in> around N ?t (u_ptr h ?p)" using Suc.prems(2) \<open>m \<noteq> ?p\<close> unfolding a by simp
    ultimately show ?thesis using Suc.IH [OF p _ Suc.prems(3)] False \<open>?p \<noteq> ?t\<close> by auto
  qed
qed

lemma malloc_asks:
  assumes ok: "heap_ok base N h"
  shows "prevp \<in> N \<Longrightarrow> \<forall>m\<in>around N (u_freep h) (u_ptr h prevp). u_size h m < n \<Longrightarrow> card (around N (u_freep h) (u_ptr h prevp)) = c \<Longrightarrow>
    malloc_loop sbrk (c + k) n prevp (u_ptr h prevp) (h, s) =
      andThen (morecore sbrk n (h, s)) (\<lambda>(r, h, s). case r of None \<Rightarrow> Inr (None, h, s) | Some p \<Rightarrow> malloc_loop sbrk k n p (u_ptr h p) (h, s))"
proof (induction c arbitrary: prevp)
  case 0
  have N: "finite N" "follows N prevp (u_ptr h prevp)" using ok 0 by (auto simp: heap_ok_def spaced_def)
  then have "u_ptr h prevp \<in> around N (u_freep h) (u_ptr h prevp)" by (intro around_self) (simp add: follows_def)
  then show ?case using 0 N by (auto simp: around_def)
next
  case (Suc c)
  let ?p = "u_ptr h prevp" and ?t = "u_freep h"
  have N: "finite N" "?t \<in> N" "\<And>n. n \<in> N \<Longrightarrow> follows N n (u_ptr h n)" using ok by (auto simp: heap_ok_def spaced_def)
  have p: "?p \<in> N" using N(3) [OF Suc.prems(1)] by (simp add: follows_def)
  have fin: "finite (around N ?t ?p)" using N(1) by (simp add: around_def)
  have unfit: "\<not> n \<le> u_size h ?p" using Suc.prems(2) around_self [OF p, of ?t] by auto
  show ?case
  proof (cases "?p = ?t")
    case True
    then have "around N ?t ?p = {?p}" using p by (auto simp: around_def)
    then have "c = 0" using Suc.prems(3) by simp
    then show ?thesis using unfit True by simp
  next
    case False
    then have a: "around N ?t (u_ptr h ?p) = around N ?t ?p - {?p}" by (rule around_next [OF N(3) [OF p] p N(2)])
    have "card (around N ?t (u_ptr h ?p)) = c" using Suc.prems(3) around_self [OF p, of ?t] fin unfolding a by simp
    moreover have "\<forall>m\<in>around N ?t (u_ptr h ?p). u_size h m < n" using Suc.prems(2) unfolding a by auto
    ultimately show ?thesis using Suc.IH [OF p] unfit False by simp
  qed
qed

section \<open>The invariant\<close>

text \<open>The state of the allocator: the blocks \<open>A\<close> are in use; \<open>N\<close> is the free list. All of this memory was given by the system, and no two parts of it overlap.\<close>

definition heap_inv :: "('s \<Rightarrow> nat set) \<Rightarrow> ('s \<Rightarrow> bool) \<Rightarrow> uint \<Rightarrow> uint set \<Rightarrow> uheap \<Rightarrow> 's \<Rightarrow> (uint \<times> uint) set \<Rightarrow> bool" where
  "heap_inv given valid base N h s A \<longleftrightarrow> valid s \<and> (A = {} \<or> u_freep h \<noteq> 0) \<and> heap_ok base N (start base h) \<and> free_mem N (start base h) \<subseteq> given s \<and>
     (\<forall>a\<in>A. u_size h (fst a) = snd a \<and> 0 < snd a \<and> unat base + 8 \<le> unat (fst a) \<and> unat (fst a) + 8 * unat (snd a) < 2 ^ 32 \<and>
        block a \<subseteq> given s \<and> block a \<inter> free_mem N (start base h) = {}) \<and>
     (\<forall>a\<in>A. \<forall>b\<in>A. a \<noteq> b \<longrightarrow> block a \<inter> block b = {})"

lemma heap_invI:
  assumes "valid s" and "A = {} \<or> u_freep h \<noteq> 0" and "heap_ok base N (start base h)" and "free_mem N (start base h) \<subseteq> given s"
    and "\<And>a. a \<in> A \<Longrightarrow> u_size h (fst a) = snd a \<and> 0 < snd a \<and> unat base + 8 \<le> unat (fst a) \<and> unat (fst a) + 8 * unat (snd a) < 2 ^ 32"
    and "\<And>a. a \<in> A \<Longrightarrow> block a \<subseteq> given s" and "\<And>a. a \<in> A \<Longrightarrow> block a \<inter> free_mem N (start base h) = {}"
    and "\<And>a b. a \<in> A \<Longrightarrow> b \<in> A \<Longrightarrow> a \<noteq> b \<Longrightarrow> block a \<inter> block b = {}"
  shows "heap_inv given valid base N h s A"
  unfolding heap_inv_def using assms by simp

lemma heap_invD:
  assumes "heap_inv given valid base N h s A" and "a \<in> A"
  shows "u_size h (fst a) = snd a \<and> 0 < snd a \<and> unat base + 8 \<le> unat (fst a) \<and> unat (fst a) + 8 * unat (snd a) < 2 ^ 32"
    "block a \<subseteq> given s" "block a \<inter> free_mem N (start base h) = {}" "b \<in> A \<Longrightarrow> a \<noteq> b \<Longrightarrow> block a \<inter> block b = {}"
  using assms unfolding heap_inv_def by simp_all

text \<open>The bytes of a block that its user may change.\<close>

definition payload :: "uint \<times> uint \<Rightarrow> nat set" where
  "payload a = {unat (fst a) + 8 ..< unat (fst a) + 8 * unat (snd a)}"

text \<open>What a program does with the allocator: it asks for memory, writes to what it was given, and gives it back.\<close>

inductive heap_step ::
  "(uint \<Rightarrow> 's \<Rightarrow> uint \<times> 's) \<Rightarrow> uint \<Rightarrow> uheap \<times> 's \<times> (uint \<times> uint) set \<Rightarrow> uheap \<times> 's \<times> (uint \<times> uint) set \<Rightarrow> bool" for sbrk base where
  got: "nbytes \<le> 0x7FFFFFE0 \<Longrightarrow> malloc sbrk base nbytes (h, s) = Inr (Some p, h', s') \<Longrightarrow>
    heap_step sbrk base (h, s, A) (h', s', insert (p - 8, units nbytes) A)"
| none: "nbytes \<le> 0x7FFFFFE0 \<Longrightarrow> malloc sbrk base nbytes (h, s) = Inr (None, h', s') \<Longrightarrow> heap_step sbrk base (h, s, A) (h', s', A)"
| gave: "a \<in> A \<Longrightarrow> ufree (fst a + 8) h = Inr h' \<Longrightarrow> heap_step sbrk base (h, s, A) (h', s, A - {a})"
| wrote: "u_freep h' = u_freep h \<Longrightarrow>
    (\<And>x. (\<And>a. a \<in> A \<Longrightarrow> unat x \<notin> payload a) \<Longrightarrow> u_ptr h' x = u_ptr h x \<and> u_size h' x = u_size h x) \<Longrightarrow>
    heap_step sbrk base (h, s, A) (h', s, A)"

lemma units_nat: "nbytes \<le> 0x7FFFFFE0 \<Longrightarrow> unat (units nbytes) = (unat nbytes + 7) div 8 + 1"
proof -
  assume "nbytes \<le> 0x7FFFFFE0"
  then have n: "unat nbytes \<le> 0x7FFFFFE0" by (simp add: word_le_nat_alt)
  then have "unat (nbytes + 8 - 1) = unat nbytes + 7" by (simp add: unat_word_ariths)
  then have d: "unat ((nbytes + 8 - 1) div 8) = (unat nbytes + 7) div 8" by (simp add: unat_div)
  have "unat (x + 1) = unat x + 1" if "unat x < 4294967295" for x :: uint using that by (simp add: unat_word_ariths)
  moreover have "unat ((nbytes + 8 - 1) div 8) < 4294967295" unfolding d using n by simp
  ultimately show ?thesis unfolding units_def by (simp only: d)
qed

lemma freep_nonzero: "heap_ok base N h \<Longrightarrow> base \<noteq> 0 \<Longrightarrow> u_freep h \<noteq> 0"
  unfolding heap_ok_def spaced_def by (metis unat_0 le_zero_eq add_is_0 zero_neq_numeral)

lemma start_idem: "heap_ok base N h \<Longrightarrow> base \<noteq> 0 \<Longrightarrow> start base h = h"
  using freep_nonzero by (simp add: start_def)

lemma start_size: "a \<noteq> base \<Longrightarrow> u_size (start base h) a = u_size h a"
  by (simp add: start_def)

section \<open>Memory from the system\<close>

text \<open>
  What the allocator relies on: a call of \<open>sbrk\<close> with a positive number of bytes gives memory that was not given before and lies above \<open>base\<close>,
  or gives nothing.
\<close>

locale memory_source =
  fixes sbrk :: "uint \<Rightarrow> 's \<Rightarrow> uint \<times> 's"
    and given :: "'s \<Rightarrow> nat set"
    and valid :: "'s \<Rightarrow> bool"
    and base :: uint
  assumes grants: "valid s \<Longrightarrow> 0 < n \<Longrightarrow> n < 0x80000000 \<Longrightarrow> sbrk n s = (p, s') \<Longrightarrow> valid s' \<and>
      (if p = - 1 then given s' = given s
       else unat base + 8 \<le> unat p \<and> unat p + unat n < 2 ^ 32 \<and>
         {unat p ..< unat p + unat n} \<inter> given s = {} \<and> given s' = given s \<union> {unat p ..< unat p + unat n})"
begin

lemma new_block:
  assumes ok: "heap_ok base N h" and given: "free_mem N h \<subseteq> given s"
    and p: "unat base + 8 \<le> unat p" "unat p + 8 * unat nu < 2 ^ 32" "{unat p ..< unat p + 8 * unat nu} \<inter> given s = {}" "0 < nu"
  shows "fresh_block base N (set_size p nu h) p" "heap_ok base N (set_size p nu h)" "free_mem N (set_size p nu h) = free_mem N h" "unat p \<notin> given s" "p \<notin> N"
proof -
  have sp: "spaced base N h" using ok by (simp add: heap_ok_def)
  have pos: "0 < unat nu" using p(4) by (simp add: word_less_nat_alt)
  then have pr: "unat p \<in> {unat p ..< unat p + 8 * unat nu}" by simp
  then show g: "unat p \<notin> given s" using p(3) by blast
  have inside: "unat m \<in> given s" if "m \<in> N" "m \<noteq> base" for m
  proof -
    have "unat m \<in> area h m" using sp that by (auto simp: spaced_def area_def word_less_nat_alt)
    then show ?thesis using given that(1) by (auto simp: free_mem_def)
  qed
  have "p \<noteq> base" using p(1) by auto
  then show pN: "p \<notin> N" using g inside [of p] by auto
  have below: "unat m + 8 * unat (u_size h m) \<le> unat p" if "m \<in> N" "m < p" for m
  proof (rule ccontr)
    assume "\<not> ?thesis"
    then have "unat p \<in> area h m" using that by (auto simp: area_def word_less_nat_alt)
    then show False using g given that(1) by (auto simp: free_mem_def)
  qed
  have above: "unat p + 8 * unat nu \<le> unat m" if "m \<in> N" "p < m" for m
  proof (rule ccontr)
    assume "\<not> ?thesis"
    then have "unat m \<in> {unat p ..< unat p + 8 * unat nu}" using that by (auto simp: word_less_nat_alt)
    moreover have "m \<noteq> base" using that p(1) by (auto simp: word_less_nat_alt)
    ultimately show False using inside [OF that(1)] p(3) by blast
  qed
  show "fresh_block base N (set_size p nu h) p" unfolding fresh_block_def using pN p below above by auto
  have same: "u_size (set_size p nu h) m = u_size h m" if "m \<in> N" for m using that pN by auto
  show "heap_ok base N (set_size p nu h)" using ok spaced_cong [OF sp same] by (simp add: heap_ok_def)
  show "free_mem N (set_size p nu h) = free_mem N h" by (rule free_mem_cong [OF same])
qed

lemma morecore_ok:
  assumes ok: "heap_ok base N h" and sub: "free_mem N h \<subseteq> given s" and v: "valid s" and n: "0 < n" "8 * unat n < 0x80000000"
  shows "\<exists>r h' s'. morecore sbrk n (h, s) = Inr (r, h', s') \<and> valid s' \<and>
    (case r of
       None \<Rightarrow> h' = h \<and> given s' = given s
     | Some p \<Rightarrow> p = u_freep h' \<and> (\<exists>M. heap_ok base M h' \<and> given s \<subseteq> given s' \<and> free_mem M h' = free_mem N h \<union> (given s' - given s) \<and>
         (\<exists>m\<in>M. n \<le> u_size h' m) \<and> (\<forall>a. unat a \<in> given s \<longrightarrow> a \<notin> N \<longrightarrow> u_size h' a = u_size h a) \<and> (\<forall>m\<in>M. m \<in> N \<or> unat m \<notin> given s)))"
proof -
  define nu where "nu = (if n < 4096 then 4096 else n)"
  have nu: "n \<le> nu" "0 < nu" "8 * unat nu < 0x80000000" using n by (auto simp: nu_def)
  then have u8: "unat (nu * 8) = 8 * unat nu" by (simp add: unat_word_ariths)
  then have n8: "0 < nu * 8" "nu * 8 < 0x80000000" using nu(2,3) by (simp_all add: word_less_nat_alt)
  obtain p s' where sb: "sbrk (nu * 8) s = (p, s')" by (cases "sbrk (nu * 8) s")
  note g = grants [OF v n8 sb]
  show ?thesis
  proof (cases "p = - 1")
    case True
    then show ?thesis using g sb by (intro exI [of _ None] exI [of _ h] exI [of _ s']) (simp add: morecore_def nu_def [symmetric])
  next
    case False
    then have p: "valid s'" "unat base + 8 \<le> unat p" "unat p + 8 * unat nu < 2 ^ 32" "{unat p ..< unat p + 8 * unat nu} \<inter> given s = {}"
        "given s' = given s \<union> {unat p ..< unat p + 8 * unat nu}" using g u8 by auto
    note b = new_block [OF ok sub p(2-4) nu(2)]
    obtain h' M where M: "ufree (p + 8) (set_size p nu h) = Inr h'" "heap_ok base M h'" "M \<subseteq> insert p N"
        "free_mem M h' = free_mem N h \<union> area (set_size p nu h) p" "\<exists>m\<in>M. nu \<le> u_size h' m"
        "\<forall>a. a \<notin> insert p N \<longrightarrow> u_size h' a = u_size (set_size p nu h) a"
      using ufree_ok [OF b(2,1)] unfolding b(3) by auto
    have a: "area (set_size p nu h) p = given s' - given s" using p(4,5) by (auto simp: area_def)
    have "\<exists>m\<in>M. n \<le> u_size h' m" using M(5) nu(1) by (auto intro: order_trans)
    moreover have "\<forall>m\<in>M. m \<in> N \<or> unat m \<notin> given s" using M(3) b(4) by auto
    moreover have "u_size h' a = u_size h a" if "unat a \<in> given s" "a \<notin> N" for a using M(6) that b(4) by auto
    moreover have "morecore sbrk n (h, s) = Inr (Some (u_freep h'), h', s')" using False sb M(1) by (simp add: morecore_def nu_def [symmetric])
    ultimately show ?thesis using M(2,4) p(1,5) unfolding a
      by (intro exI [of _ "Some (u_freep h')"] exI [of _ h'] exI [of _ s']) auto
  qed
qed

lemma malloc_search:
  assumes ok: "heap_ok base N h" and sub: "free_mem N h \<subseteq> given s" and v: "valid s" and n: "0 < n" "8 * unat n < 0x80000000"
  shows "\<exists>r h' s'. malloc_loop sbrk (2 * ROUNDS) n (u_freep h) (u_ptr h (u_freep h)) (h, s) = Inr (r, h', s') \<and> valid s' \<and> given s \<subseteq> given s' \<and>
    (case r of
       None \<Rightarrow> h' = h
     | Some p \<Rightarrow> \<exists>b M. p = b + 8 \<and> heap_ok base M h' \<and> u_size h' b = n \<and>
         block (b, n) \<subseteq> free_mem N h \<union> (given s' - given s) \<and> free_mem M h' = (free_mem N h \<union> (given s' - given s)) - block (b, n) \<and>
         unat base + 8 \<le> unat b \<and> unat b + 8 * unat n < 2 ^ 32 \<and>
         (\<forall>a. unat a \<in> given s \<longrightarrow> a \<notin> N \<longrightarrow> a \<noteq> b \<longrightarrow> u_size h' a = u_size h a))"
proof -
  have f: "u_freep h \<in> N" "follows N (u_freep h) (u_ptr h (u_freep h))" using ok by (auto simp: heap_ok_def)
  have all: "around N (u_freep h) (u_ptr h (u_freep h)) = N" by (rule around_all [OF f(2,1)])
  show ?thesis
  proof (cases "\<exists>m\<in>N. n \<le> u_size h m")
    case True
    then obtain m where m: "m \<in> N" "n \<le> u_size h m" by blast
    obtain q where q: "q \<in> N" "n \<le> u_size h (u_ptr h q)"
        "malloc_loop sbrk (2 * ROUNDS) n (u_freep h) (u_ptr h (u_freep h)) (h, s) = (case take_block n q (u_ptr h q) h of (r, h) \<Rightarrow> Inr (Some r, h, s))"
      using malloc_finds [OF ok f(1), of m n "2 * ROUNDS" sbrk s] m card_rounds [of N] unfolding all by auto
    obtain b M h' where b: "take_block n q (u_ptr h q) h = (b + 8, h')" "taken base N h n b M h'" using take_block_ok [OF ok q(1,2) n(1)] by blast
    show ?thesis unfolding q(3) b(1)
      by (intro exI [of _ "Some (b + 8)"] exI [of _ h'] exI [of _ s])
        (use b(2) v in \<open>auto simp: taken_def intro!: exI [of _ b] exI [of _ M]\<close>)
  next
    case False
    have small: "\<forall>m\<in>around N (u_freep h) (u_ptr h (u_freep h)). u_size h m < n" using False unfolding all by auto
    have k: "2 * ROUNDS = card N + (2 * ROUNDS - card N)" "ROUNDS \<le> 2 * ROUNDS - card N" using card_rounds [of N] by simp_all
    have asks: "malloc_loop sbrk (2 * ROUNDS) n (u_freep h) (u_ptr h (u_freep h)) (h, s) =
        andThen (morecore sbrk n (h, s)) (\<lambda>(r, h, s). case r of None \<Rightarrow> Inr (None, h, s) | Some p \<Rightarrow> malloc_loop sbrk (2 * ROUNDS - card N) n p (u_ptr h p) (h, s))"
      using malloc_asks [OF ok f(1) small, of "card N" sbrk "2 * ROUNDS - card N" s] unfolding all k(1) [symmetric] by simp
    obtain r h1 s1 where r: "morecore sbrk n (h, s) = Inr (r, h1, s1)" "valid s1"
        "case r of
           None \<Rightarrow> h1 = h \<and> given s1 = given s
         | Some p \<Rightarrow> p = u_freep h1 \<and> (\<exists>M. heap_ok base M h1 \<and> given s \<subseteq> given s1 \<and> free_mem M h1 = free_mem N h \<union> (given s1 - given s) \<and>
             (\<exists>m\<in>M. n \<le> u_size h1 m) \<and> (\<forall>a. unat a \<in> given s \<longrightarrow> a \<notin> N \<longrightarrow> u_size h1 a = u_size h a) \<and> (\<forall>m\<in>M. m \<in> N \<or> unat m \<notin> given s))"
      using morecore_ok [OF ok sub v n] by blast
    show ?thesis
    proof (cases r)
      case None
      then show ?thesis using r unfolding asks by (intro exI [of _ None] exI [of _ h] exI [of _ s1]) simp
    next
      case (Some p)
      then obtain M m where M: "p = u_freep h1" "heap_ok base M h1" "given s \<subseteq> given s1" "free_mem M h1 = free_mem N h \<union> (given s1 - given s)"
          "m \<in> M" "n \<le> u_size h1 m" "\<forall>a. unat a \<in> given s \<longrightarrow> a \<notin> N \<longrightarrow> u_size h1 a = u_size h a" "\<forall>m\<in>M. m \<in> N \<or> unat m \<notin> given s"
        using r(3) by auto
      have g: "u_freep h1 \<in> M" "follows M (u_freep h1) (u_ptr h1 (u_freep h1))" using M(2) by (auto simp: heap_ok_def)
      have all1: "around M (u_freep h1) (u_ptr h1 (u_freep h1)) = M" by (rule around_all [OF g(2,1)])
      have "card M \<le> 2 * ROUNDS - card N" using card_rounds [of M] k(2) by simp
      then obtain q where q: "q \<in> M" "n \<le> u_size h1 (u_ptr h1 q)"
          "malloc_loop sbrk (2 * ROUNDS - card N) n (u_freep h1) (u_ptr h1 (u_freep h1)) (h1, s1)
            = (case take_block n q (u_ptr h1 q) h1 of (r, h) \<Rightarrow> Inr (Some r, h, s1))"
        using malloc_finds [OF M(2) g(1), of m n "2 * ROUNDS - card N" sbrk s1] M(5,6) unfolding all1 by blast
      obtain b L h' where b: "take_block n q (u_ptr h1 q) h1 = (b + 8, h')" "taken base M h1 n b L h'" using take_block_ok [OF M(2) q(1,2) n(1)] by blast
      have res: "malloc_loop sbrk (2 * ROUNDS) n (u_freep h) (u_ptr h (u_freep h)) (h, s) = Inr (Some (b + 8), h', s1)"
        unfolding asks using r(1) Some M(1) q(3) b(1) by simp
      have "u_size h' a = u_size h a" if "unat a \<in> given s" "a \<notin> N" "a \<noteq> b" for a
        using M(7,8) b(2) that by (auto simp: taken_def)
      then show ?thesis
        by (intro exI [of _ "Some (b + 8)"] exI [of _ h'] exI [of _ s1])
          (use res b(2) r(2) M(3,4) in \<open>auto simp: taken_def intro!: exI [of _ b] exI [of _ L]\<close>)
    qed
  qed
qed

lemma inv_facts:
  assumes inv: "heap_inv given valid base N h s A" and a: "(b, n) \<in> A"
  shows "u_size h b = n" "0 < n" "unat base + 8 \<le> unat b" "unat b + 8 * unat n < 2 ^ 32" "start base h = h" "unat b \<in> block (b, n)"
    "block (b, n) \<subseteq> given s" "block (b, n) \<inter> free_mem N (start base h) = {}"
proof -
  show n: "u_size h b = n" "0 < n" "unat base + 8 \<le> unat b" "unat b + 8 * unat n < 2 ^ 32" "block (b, n) \<subseteq> given s"
    "block (b, n) \<inter> free_mem N (start base h) = {}" using inv a unfolding heap_inv_def by auto
  show "start base h = h" using inv a by (auto simp: heap_inv_def start_def)
  show "unat b \<in> block (b, n)" using n(2) by (simp add: block_def word_less_nat_alt)
qed

lemma node_in_free: "spaced base N h \<Longrightarrow> m \<in> N \<Longrightarrow> m \<noteq> base \<Longrightarrow> unat m \<in> free_mem N h"
  by (auto simp: spaced_def free_mem_def area_def word_less_nat_alt)

lemma inv_fresh:
  assumes inv: "heap_inv given valid base N h s A" and a: "(b, n) \<in> A"
  shows "b \<notin> N" "fresh_block base N h b"
proof -
  note f = inv_facts [OF inv a]
  have sp: "spaced base N h" using inv f(5) by (simp add: heap_inv_def heap_ok_def)
  have disj: "unat x \<notin> free_mem N h" if "unat x \<in> block (b, n)" for x :: uint using f(8) that unfolding f(5) by blast
  have bb: "b \<noteq> base" using f(3) by auto
  then show bN: "b \<notin> N" using node_in_free [OF sp] disj [OF f(6)] by blast
  have "unat m + 8 * unat (u_size h m) \<le> unat b" if "m \<in> N" "m < b" for m
  proof (rule ccontr)
    assume "\<not> ?thesis"
    then have "unat b \<in> area h m" using that by (auto simp: area_def word_less_nat_alt)
    then show False using disj [OF f(6)] that(1) by (auto simp: free_mem_def)
  qed
  moreover have "unat b + 8 * unat n \<le> unat m" if "m \<in> N" "b < m" for m
  proof (rule ccontr)
    assume "\<not> ?thesis"
    then have "unat m \<in> block (b, n)" using that by (auto simp: block_def word_less_nat_alt)
    moreover have "m \<noteq> base" using that f(3) by (auto simp: word_less_nat_alt)
    ultimately show False using node_in_free [OF sp that(1)] disj by blast
  qed
  ultimately show "fresh_block base N h b" unfolding fresh_block_def using bN f(1-4) by auto
qed

lemma free_inv:
  assumes base_pos: "base \<noteq> 0" and inv: "heap_inv given valid base N h s A" and a: "(b, n) \<in> A"
  shows "\<exists>h' M. ufree (b + 8) h = Inr h' \<and> heap_inv given valid base M h' s (A - {(b, n)})"
proof -
  note f = inv_facts [OF inv a]
  have ok: "heap_ok base N h" using inv f(5) by (simp add: heap_inv_def)
  obtain h' M where M: "ufree (b + 8) h = Inr h'" "heap_ok base M h'" "free_mem M h' = free_mem N h \<union> area h b"
      "\<forall>a. a \<notin> insert b N \<longrightarrow> u_size h' a = u_size h a"
    using ufree_ok [OF ok inv_fresh(2) [OF inv a]] by blast
  have st: "start base h' = h'" by (rule start_idem [OF M(2) base_pos])
  have ar: "area h b = block (b, n)" using f(1) by (simp add: area_def block_def)
  have disj: "block x \<inter> block y = {}" if "x \<in> A" "y \<in> A" "x \<noteq> y" for x y using inv that unfolding heap_inv_def by blast
  have "heap_inv given valid base M h' s (A - {(b, n)})"
    unfolding heap_inv_def st
  proof (intro conjI ballI impI)
    show "valid s" using inv by (simp add: heap_inv_def)
    show "A - {(b, n)} = {} \<or> u_freep h' \<noteq> 0" using freep_nonzero [OF M(2) base_pos] by simp
    show "heap_ok base M h'" by (rule M(2))
    show "free_mem M h' \<subseteq> given s" using inv f(5,7) unfolding M(3) ar heap_inv_def by auto
    fix x assume x: "x \<in> A - {(b, n)}"
    then have xA: "(fst x, snd x) \<in> A" by simp
    note g = inv_facts [OF inv xA]
    have d: "block x \<inter> block (b, n) = {}" using disj [of x "(b, n)"] a x by auto
    have "unat (fst x) \<noteq> unat b" using d g(6) f(6) by auto
    then have "fst x \<notin> insert b N" using inv_fresh(1) [OF inv xA] by auto
    then show "u_size h' (fst x) = snd x" using M(4) g(1) by simp
    show "0 < snd x" "unat base + 8 \<le> unat (fst x)" "unat (fst x) + 8 * unat (snd x) < 2 ^ 32" using g(2-4) .
    show "block x \<subseteq> given s" using g(7) by simp
    show "block x \<inter> free_mem M h' = {}" using g(8) d unfolding M(3) ar f(5) by auto
    fix y assume "y \<in> A - {(b, n)}" "x \<noteq> y"
    then show "block x \<inter> block y = {}" using disj x by auto
  qed
  then show ?thesis using M(1) by blast
qed

lemma inv_keep:
  assumes base_pos: "base \<noteq> 0" and inv: "heap_inv given valid base N h s A" and ok: "heap_ok base M h'" and v: "valid s'" and sub: "given s \<subseteq> given s'" "free_mem M h' \<subseteq> given s'"
    and size: "\<And>x. x \<in> A \<Longrightarrow> u_size h' (fst x) = u_size h (fst x)" and disj: "\<And>x. x \<in> A \<Longrightarrow> block x \<inter> free_mem M h' = {}"
  shows "heap_inv given valid base M h' s' A"
proof -
  have st: "start base h' = h'" by (rule start_idem [OF ok base_pos])
  show ?thesis
  proof (rule heap_invI)
    fix a assume a: "a \<in> A"
    show "u_size h' (fst a) = snd a \<and> 0 < snd a \<and> unat base + 8 \<le> unat (fst a) \<and> unat (fst a) + 8 * unat (snd a) < 2 ^ 32"
      using heap_invD(1) [OF inv a] size [OF a] by simp
    show "block a \<subseteq> given s'" using heap_invD(2) [OF inv a] sub(1) by (rule order_trans)
    show "block a \<inter> free_mem M (start base h') = {}" unfolding st by (rule disj [OF a])
    show "block a \<inter> block b = {}" if "b \<in> A" "a \<noteq> b" for b by (rule heap_invD(4) [OF inv a that])
  qed (use v ok sub(2) freep_nonzero [OF ok base_pos] in \<open>simp_all add: st\<close>)
qed

lemma inv_insert:
  assumes inv: "heap_inv given valid base N h s A" and st: "u_freep h \<noteq> 0"
    and b: "u_size h b = n" "0 < n" "unat base + 8 \<le> unat b" "unat b + 8 * unat n < 2 ^ 32" "block (b, n) \<subseteq> given s" "block (b, n) \<inter> free_mem N h = {}"
    and disj: "\<And>x. x \<in> A \<Longrightarrow> block (b, n) \<inter> block x = {}"
  shows "heap_inv given valid base N h s (insert (b, n) A)"
proof (rule heap_invI)
  have h: "start base h = h" using st by (simp add: start_def)
  show "valid s" "heap_ok base N (start base h)" "free_mem N (start base h) \<subseteq> given s" using inv by (simp_all add: heap_inv_def)
  show "insert (b, n) A = {} \<or> u_freep h \<noteq> 0" using st by simp
  fix a assume a: "a \<in> insert (b, n) A"
  show "u_size h (fst a) = snd a \<and> 0 < snd a \<and> unat base + 8 \<le> unat (fst a) \<and> unat (fst a) + 8 * unat (snd a) < 2 ^ 32"
    by (cases "a = (b, n)") (use a b heap_invD(1) [OF inv, of a] in simp_all)
  show "block a \<subseteq> given s" by (cases "a = (b, n)") (use a b heap_invD(2) [OF inv, of a] in simp_all)
  show "block a \<inter> free_mem N (start base h) = {}" by (cases "a = (b, n)") (use a b h heap_invD(3) [OF inv, of a] in simp_all)
  show "block a \<inter> block c = {}" if "c \<in> insert (b, n) A" "a \<noteq> c" for c
  proof (cases "a = (b, n) \<or> c = (b, n)")
    case True
    then show ?thesis using a that disj [of a] disj [of c] by auto
  next
    case False
    then show ?thesis using heap_invD(4) [OF inv, of a c] a that by simp
  qed
qed

lemma malloc_inv:
  assumes base_pos: "base \<noteq> 0" and inv: "heap_inv given valid base N h s A" and nb: "nbytes \<le> 0x7FFFFFE0"
  shows "\<exists>r h' s'. malloc sbrk base nbytes (h, s) = Inr (r, h', s') \<and>
    (case r of
       None \<Rightarrow> heap_inv given valid base N h' s' A
     | Some p \<Rightarrow> unat nbytes + 8 \<le> 8 * unat (units nbytes) \<and> (\<forall>a\<in>A. block (p - 8, units nbytes) \<inter> block a = {}) \<and>
         (\<exists>M. heap_inv given valid base M h' s' (insert (p - 8, units nbytes) A)))"
proof -
  define n where "n = units nbytes"
  let ?h = "start base h"
  have un: "unat n = (unat nbytes + 7) div 8 + 1" unfolding n_def by (rule units_nat [OF nb])
  have n: "0 < n" "8 * unat n < 0x80000000" "unat nbytes + 8 \<le> 8 * unat n"
    using un nb by (auto simp: word_less_nat_alt word_le_nat_alt)
  have ok: "heap_ok base N ?h" "free_mem N ?h \<subseteq> given s" "valid s" using inv by (simp_all add: heap_inv_def)
  have size: "u_size ?h (fst x) = u_size h (fst x)" if "x \<in> A" for x
    using inv_facts(3) [OF inv, of "fst x" "snd x"] that by (intro start_size) auto
  obtain r h' s' where m: "malloc_loop sbrk (2 * ROUNDS) n (u_freep ?h) (u_ptr ?h (u_freep ?h)) (?h, s) = Inr (r, h', s')" "valid s'" "given s \<subseteq> given s'"
      "case r of
         None \<Rightarrow> h' = ?h
       | Some p \<Rightarrow> \<exists>b M. p = b + 8 \<and> heap_ok base M h' \<and> u_size h' b = n \<and>
           block (b, n) \<subseteq> free_mem N ?h \<union> (given s' - given s) \<and> free_mem M h' = (free_mem N ?h \<union> (given s' - given s)) - block (b, n) \<and>
           unat base + 8 \<le> unat b \<and> unat b + 8 * unat n < 2 ^ 32 \<and>
           (\<forall>a. unat a \<in> given s \<longrightarrow> a \<notin> N \<longrightarrow> a \<noteq> b \<longrightarrow> u_size h' a = u_size ?h a)"
    using malloc_search [OF ok n(1,2)] by blast
  have res: "malloc sbrk base nbytes (h, s) = Inr (r, h', s')" using m(1) by (simp add: malloc_def n_def)
  have apart: "block x \<inter> free_mem N ?h = {}" "block x \<subseteq> given s" if "x \<in> A" for x using heap_invD(3,2) [OF inv that] .
  show ?thesis
  proof (cases r)
    case None
    then have "h' = ?h" using m(4) by simp
    then have "heap_inv given valid base N h' s' A"
      using inv_keep [OF base_pos inv _ m(2,3), of N h'] ok(1,2) m(3) size apart(1) by auto
    then show ?thesis using res None by auto
  next
    case (Some p)
    then obtain b M where b: "p = b + 8" "heap_ok base M h'" "u_size h' b = n" "block (b, n) \<subseteq> free_mem N ?h \<union> (given s' - given s)"
        "free_mem M h' = (free_mem N ?h \<union> (given s' - given s)) - block (b, n)" "unat base + 8 \<le> unat b" "unat b + 8 * unat n < 2 ^ 32"
        "\<And>a. unat a \<in> given s \<Longrightarrow> a \<notin> N \<Longrightarrow> a \<noteq> b \<Longrightarrow> u_size h' a = u_size ?h a"
      using m(4) by auto
    have disj: "block (b, n) \<inter> block x = {}" if "x \<in> A" for x using apart [OF that] b(4) by blast
    have inb: "unat b \<in> block (b, n)" using n(1) by (simp add: block_def word_less_nat_alt)
    have hd: "u_size h' (fst x) = u_size h (fst x)" if x: "x \<in> A" for x
    proof -
      have xA: "(fst x, snd x) \<in> A" using x by simp
      have "fst x \<noteq> b" using disj [OF x] inb inv_facts(6) [OF inv xA] by auto
      moreover have "unat (fst x) \<in> given s" using inv_facts(6,7) [OF inv xA] by blast
      ultimately show ?thesis using b(8) inv_fresh(1) [OF inv xA] size [OF x] by simp
    qed
    have "block x \<inter> free_mem M h' = {}" if "x \<in> A" for x using apart [OF that] unfolding b(5) by blast
    then have "heap_inv given valid base M h' s' A"
      using inv_keep [OF base_pos inv b(2) m(2,3) _ hd] b(5) ok(2) m(3) by blast
    moreover have "block (b, n) \<inter> free_mem M h' = {}" unfolding b(5) by blast
    moreover have "block (b, n) \<subseteq> given s'" using b(4) ok(2) m(3) by blast
    ultimately have "heap_inv given valid base M h' s' (insert (b, n) A)"
      using inv_insert [OF _ freep_nonzero [OF b(2) base_pos] b(3) n(1) b(6,7) _ _ disj] by blast
    then show ?thesis using res Some b(1) n(3) disj unfolding n_def [symmetric] by auto
  qed
qed

lemma wrote_inv:
  assumes base_pos: "base \<noteq> 0" and inv: "heap_inv given valid base N h s A" and fp: "u_freep h' = u_freep h"
    and same: "\<And>x. (\<And>a. a \<in> A \<Longrightarrow> unat x \<notin> payload a) \<Longrightarrow> u_ptr h' x = u_ptr h x \<and> u_size h' x = u_size h x"
  shows "heap_inv given valid base N h' s A"
proof (cases "A = {}")
  case True
  then have "u_ptr h' = u_ptr h" "u_size h' = u_size h" using same by auto
  then have "h' = h" using fp by simp
  then show ?thesis using inv by simp
next
  case False
  then have st: "start base h = h" using inv by (auto simp: heap_inv_def start_def)
  have ok: "heap_ok base N h" and sub: "free_mem N h \<subseteq> given s" and v: "valid s" using inv st by (simp_all add: heap_inv_def)
  have sp: "spaced base N h" using ok by (simp add: heap_ok_def)
  have part: "payload a \<subseteq> block a" for a by (auto simp: payload_def block_def)
  have node: "u_ptr h' m = u_ptr h m \<and> u_size h' m = u_size h m" if m: "m \<in> N" for m
  proof (rule same)
    fix a assume a: "a \<in> A"
    show "unat m \<notin> payload a"
    proof (cases "m = base")
      case True
      then show ?thesis using heap_invD(1) [OF inv a] by (simp add: payload_def)
    next
      case False
      have "block a \<inter> free_mem N h = {}" using heap_invD(3) [OF inv a] st by simp
      then show ?thesis using node_in_free [OF sp m False] part [of a] by blast
    qed
  qed
  have hd: "u_size h' (fst x) = u_size h (fst x)" if x: "x \<in> A" for x
  proof (rule conjunct2 [OF same])
    fix a assume a: "a \<in> A"
    have x': "(fst x, snd x) \<in> A" using x by simp
    show "unat (fst x) \<notin> payload a"
    proof (cases "x = a")
      case True
      then show ?thesis by (simp add: payload_def)
    next
      case False
      then have "block x \<inter> block a = {}" by (rule heap_invD(4) [OF inv x a])
      then show ?thesis using inv_facts(6) [OF inv x'] part [of a] by auto
    qed
  qed
  have "spaced base N h'" by (rule spaced_cong [OF sp]) (simp add: node)
  then have ok': "heap_ok base N h'" using ok node fp by (simp add: heap_ok_def)
  have fm: "free_mem N h' = free_mem N h" by (rule free_mem_cong) (simp add: node)
  have dj: "block x \<inter> free_mem N h' = {}" if "x \<in> A" for x using heap_invD(3) [OF inv that] unfolding fm st .
  show ?thesis by (rule inv_keep [OF base_pos inv ok' v order_refl _ hd dj]) (use sub in \<open>simp_all add: fm\<close>)
qed

lemma step_inv:
  assumes base_pos: "base \<noteq> 0" and "heap_step sbrk base x y" and "heap_inv given valid base N (fst x) (fst (snd x)) (snd (snd x))"
  shows "\<exists>M. heap_inv given valid base M (fst y) (fst (snd y)) (snd (snd y))"
  using assms(2,3)
proof (induction rule: heap_step.induct)
  case (got nbytes h s p h' s' A)
  then show ?case using malloc_inv [OF base_pos, of N h s A nbytes] by auto
next
  case (none nbytes h s h' s' A)
  then show ?case using malloc_inv [OF base_pos, of N h s A nbytes] by auto
next
  case (gave a A h h' s)
  then show ?case using free_inv [OF base_pos, of N h s A "fst a" "snd a"] by auto
next
  case (wrote h' h A s)
  have "heap_inv given valid base N h' s A" by (rule wrote_inv [OF base_pos, of N h]) (use wrote in auto)
  then show ?case by auto
qed

lemma run_inv:
  assumes base_pos: "base \<noteq> 0" and "(heap_step sbrk base)\<^sup>*\<^sup>* x y" and "heap_inv given valid base N (fst x) (fst (snd x)) (snd (snd x))"
  shows "\<exists>M. heap_inv given valid base M (fst y) (fst (snd y)) (snd (snd y))"
  using assms(2,3)
proof (induction rule: rtranclp_induct)
  case (step y z)
  then obtain M where "heap_inv given valid base M (fst y) (fst (snd y)) (snd (snd y))" by blast
  then show ?case by (rule step_inv [OF base_pos step.hyps(2)])
qed blast

lemma empty_inv: "u_freep h = 0 \<Longrightarrow> valid s \<Longrightarrow> heap_inv given valid base {base} h s {}"
  by (auto simp: heap_inv_def start_def heap_ok_def spaced_def free_mem_def area_def follows_def)

end

end
