(* ===== verification/UmallocOk.thy ===== *)
theory UmallocOk
  imports Umalloc KernelRun
begin

text \<open>
  The allocator of user programs on the memory that the kernel gives: \<open>sbrk\<close> of the kernel, through \<open>growproc\<close> and \<open>allocuvm\<close>, has the laws
  the allocator relies on, so no two blocks in use overlap, whatever a program does with them.
\<close>

section \<open>sbrk\<close>

text \<open>What \<open>sys_sbrk\<close> returns to the process \<open>me\<close>, and the kernel after it. A panic of the kernel does not return; it is counted as no memory.\<close>

definition kernel_sbrk :: "kimage \<Rightarrow> nat \<Rightarrow> uint \<Rightarrow> 'a vmstate_scheme \<Rightarrow> uint \<times> 'a vmstate_scheme" where
  "kernel_sbrk im me n s =
     (case growproc im (sint n) s of
        Inl _ \<Rightarrow> (- 1, s)
      | Inr (r, s') \<Rightarrow> if r < 0 then (- 1, s') else (p_sz (procs s ! me), s'))"

text \<open>The process runs, its static data end above \<open>base\<close>, and its memory is below \<open>USERTOP\<close>.\<close>

definition runs_above :: "uint \<Rightarrow> nat \<Rightarrow> 'a vmstate_scheme \<Rightarrow> bool" where
  "runs_above base me s \<longleftrightarrow> myproc s = Some me \<and> me < length (procs s) \<and> unat base + 8 \<le> unat (p_sz (procs s ! me)) \<and> p_sz (procs s ! me) \<le> USERTOP"

definition memory_of :: "nat \<Rightarrow> 'a vmstate_scheme \<Rightarrow> nat set" where
  "memory_of me s = {..<unat (p_sz (procs s ! me))}"

interpretation same: ksafe "\<lambda>t. procs t = ps \<and> curproc t = cp \<and> cur t = c" for ps cp c
  by unfold_locales simp_all

lemma allocuvm_loop_value:
  "allocuvm_loop k kend d a oldsz newsz s = Inr (v, t) \<Longrightarrow> v = 0 \<or> v = newsz"
  by (induction k arbitrary: a s) (auto simp: Let_def andThen_eq_Inr split: if_splits)

lemma allocuvm_value:
  assumes "allocuvm kend d oldsz newsz s = Inr (v, t)" and "oldsz \<le> newsz"
  shows "v = 0 \<or> v = newsz \<and> newsz \<le> USERTOP"
proof (cases "newsz > USERTOP")
  case False
  then have "allocuvm_loop (unat newsz div 4096 + 2) kend d (PGROUNDUP oldsz) oldsz newsz s = Inr (v, t)"
    using assms(1) leD [OF assms(2)] unfolding allocuvm_def by (simp only: if_False)
  from allocuvm_loop_value [OF this] show ?thesis using False by auto
qed (use assms(1) in \<open>simp add: allocuvm_def\<close>)

lemma switchuvm_same:
  assumes "switchuvm ts p s = Inr t"
  shows "procs t = procs s \<and> curproc t = curproc s \<and> cur t = cur s"
proof -
  let ?P = "\<lambda>t. procs t = procs s \<and> curproc t = curproc s \<and> cur t = cur s"
  have f: "?P (t\<lparr>gdt := a\<rparr>) = ?P t" "?P (t\<lparr>ts_ss0 := b\<rparr>) = ?P t" "?P (t\<lparr>ts_esp0 := c\<rparr>) = ?P t" "?P (t\<lparr>tr := d\<rparr>) = ?P t" "?P (t\<lparr>cr3 := e\<rparr>) = ?P t"
    for t :: "'a vmstate_scheme" and a b c d e by simp_all
  have "safe1 ?P (switchuvm ts p s)"
    unfolding switchuvm_def Let_def set_seg_def lcr3_def
    by (intro safe_rules same.popcli f(1) [THEN iffD2] f(2) [THEN iffD2] f(3) [THEN iffD2] f(4) [THEN iffD2] f(5) [THEN iffD2] same.pushcli) simp_all
  then show ?thesis using assms by (simp add: safe1_def)
qed

lemma growproc_grows:
  assumes g: "growproc im n s = Inr (r, t)" and n: "0 < n" "unat (p_sz (procs s ! me)) + nat n < 2 ^ 32"
    and me: "myproc s = Some me" "me < length (procs s)"
  shows "curproc t = curproc s \<and> cur t = cur s \<and> length (procs t) = length (procs s) \<and>
    (if r < 0 then procs t = procs s
     else unat (p_sz (procs t ! me)) = unat (p_sz (procs s ! me)) + nat n \<and> p_sz (procs t ! me) \<le> USERTOP)"
proof -
  let ?sz = "p_sz (procs s ! me)"
  have new: "unat (?sz + word_of_int n) = unat ?sz + nat n"
  proof -
    have "(word_of_int n :: uint) = of_nat (nat n)" using n(1) by simp
    moreover have "unat (of_nat k :: uint) = k" if "k < 2 ^ 32" for k using that by (simp add: unat_of_nat)
    moreover have "nat n < 2 ^ 32" using n(2) by linarith
    ultimately have "unat (word_of_int n :: uint) = nat n" by metis
    then show ?thesis using n(2) by (simp add: unat_word_ariths)
  qed
  then have le: "?sz \<le> ?sz + word_of_int n" by (simp add: word_le_nat_alt)
  obtain v u where a: "allocuvm (im_end im) (p_pgdir (procs s ! me)) ?sz (?sz + word_of_int n) s = Inr (v, u)"
    and rest: "(if v = 0 then Inr (- 1, u)
       else let s = upd_proc me (\<lambda>x. x\<lparr>p_sz := v\<rparr>) u in andThen (switchuvm (im_ts im) me s) (\<lambda>s. Inr (0, s))) = Inr (r, t)"
    using g n(1) me(1) unfolding growproc_def by (auto simp: Let_def andThen_eq_Inr split: if_splits)
  have u: "procs u = procs s" "curproc u = curproc s" "cur u = cur s"
    using same.allocuvm [of s "procs s" "curproc s" "cur s" "im_end im"] a by (auto simp: safe_def)
  show ?thesis
  proof (cases "v = 0")
    case True
    then show ?thesis using rest u by auto
  next
    case False
    then have v: "v = ?sz + word_of_int n" "v \<le> USERTOP" using allocuvm_value [OF a le] by auto
    obtain w where w: "switchuvm (im_ts im) me (upd_proc me (\<lambda>x. x\<lparr>p_sz := v\<rparr>) u) = Inr t" "r = 0"
      using rest False by (auto simp: Let_def andThen_eq_Inr)
    then show ?thesis using switchuvm_same [OF w(1)] u me(2) new v by (simp add: upd_proc_def)
  qed
qed

lemma kernel_memory: "memory_source (kernel_sbrk im me) (memory_of me) (runs_above base me) base"
proof unfold_locales
  fix s n p s'
  assume s: "runs_above base me s" and n: "0 < n" "n < 0x80000000" and k: "kernel_sbrk im me n s = (p, s')"
  let ?sz = "p_sz (procs s ! me)"
  have me: "myproc s = Some me" "me < length (procs s)" "unat base + 8 \<le> unat ?sz" "?sz \<le> USERTOP" using s by (auto simp: runs_above_def)
  have nn: "0 < unat n" "unat n < 0x80000000" "sint n = int (unat n)"
  proof -
    show u: "0 < unat n" "unat n < 0x80000000" using n by (simp_all add: word_less_nat_alt)
    have "uint n < 2147483648" using u(2) unfolding uint_nat by linarith
    then have "sint n = uint n" unfolding sint_cases by (simp only: if_True)
    then show "sint n = int (unat n)" by (simp only: uint_nat)
  qed
  have sz: "unat ?sz \<le> 0xA0000" using me(4) by (simp add: USERTOP_def word_le_nat_alt)
  show "runs_above base me s' \<and>
      (if p = - 1 then memory_of me s' = memory_of me s
       else unat base + 8 \<le> unat p \<and> unat p + unat n < 2 ^ 32 \<and>
         {unat p ..< unat p + unat n} \<inter> memory_of me s = {} \<and> memory_of me s' = memory_of me s \<union> {unat p ..< unat p + unat n})"
  proof (cases "growproc im (sint n) s")
    case (Inl e)
    then show ?thesis using k s by (auto simp: kernel_sbrk_def)
  next
    case (Inr x)
    then obtain r t where g: "growproc im (sint n) s = Inr (r, t)" by (cases x) auto
    have grow: "curproc t = curproc s \<and> cur t = cur s \<and> length (procs t) = length (procs s) \<and>
        (if r < 0 then procs t = procs s else unat (p_sz (procs t ! me)) = unat ?sz + unat n \<and> p_sz (procs t ! me) \<le> USERTOP)"
    proof -
      have "0 < sint n" "nat (sint n) = unat n" unfolding nn(3) using nn(1) by (simp_all only: of_nat_0_less_iff nat_int)
      moreover from this have "unat ?sz + nat (sint n) < 2 ^ 32" using nn(2) sz by simp
      ultimately show ?thesis using growproc_grows [OF g _ _ me(1,2)] by simp
    qed
    have my: "myproc t = Some me" using grow me(1) by (simp add: myproc_def)
    show ?thesis
    proof (cases "r < 0")
      case True
      then show ?thesis using k g grow my s me by (auto simp: kernel_sbrk_def runs_above_def memory_of_def)
    next
      case False
      have p: "p = ?sz" "s' = t" using False k g by (auto simp: kernel_sbrk_def)
      have "?sz \<noteq> - 1" using sz by auto
      then show ?thesis using False grow my me nn sz unfolding p by (auto simp: runs_above_def memory_of_def)
    qed
  qed
qed

interpretation km: memory_source "kernel_sbrk im me" "memory_of me" "runs_above base me" base for im me base
  by (rule kernel_memory)

section \<open>No two blocks overlap\<close>


text \<open>A process with four pages asks for more than there is, and then for 16 bytes.\<close>

definition small_kernel :: "unit trapstate" where
  "small_kernel = upd_proc 1 (\<lambda>p. p\<lparr>p_sz := 0x4000\<rparr>) family_kernel"

definition no_heap :: uheap where
  "no_heap = \<lparr>u_ptr = (\<lambda>_. 0), u_size = (\<lambda>_. 0), u_freep = 0\<rparr>"

lemma small_kernel_runs: "runs_above 0x2000 1 small_kernel"
  using family_kernel_procs(3)
  by (simp add: runs_above_def small_kernel_def upd_proc_def myproc_def NPROC_def USERTOP_def) (simp add: family_kernel_def boot_kernel_def boot_ext_def)

lemma small_kernel_refuses: "kernel_sbrk some_image 1 (0x8000000 * 8) small_kernel = (- 1, small_kernel)"
proof -
  have m: "myproc small_kernel = Some 1" and z: "p_sz (procs small_kernel ! 1) = 0x4000"
    using small_kernel_runs family_kernel_procs(3) by (simp_all add: runs_above_def small_kernel_def upd_proc_def NPROC_def)
  have "sint (0x8000000 * 8 :: uint) = 0x40000000" by (simp add: sint_cases)
  then show ?thesis using m z by (simp add: kernel_sbrk_def growproc_def allocuvm_def USERTOP_def)
qed

lemma refused_request: "malloc (kernel_sbrk some_image 1) 0x2000 0x3FFFFFF8 (no_heap, small_kernel) = Inr (None, start 0x2000 no_heap, small_kernel)"
proof -
  obtain k where k: "2 * ROUNDS = Suc k" by (simp add: ROUNDS_def)
  have u: "units 0x3FFFFFF8 = 0x8000000" by (simp add: units_def)
  have "start 0x2000 no_heap = set_size 0x2000 0 (set_ptr 0x2000 0x2000 (no_heap\<lparr>u_freep := 0x2000\<rparr>))"
    by (simp add: start_def no_heap_def set_ptr_def set_size_def)
  then have st: "u_freep (start 0x2000 no_heap) = 0x2000" "u_ptr (start 0x2000 no_heap) 0x2000 = 0x2000" "u_size (start 0x2000 no_heap) 0x2000 = 0"
    by simp_all
  have "morecore (kernel_sbrk some_image 1) 0x8000000 (start 0x2000 no_heap, small_kernel) = Inr (None, start 0x2000 no_heap, small_kernel)"
    unfolding morecore_def using small_kernel_refuses by simp
  then show ?thesis unfolding malloc_def Let_def u k by (simp add: st)
qed


end
