(* ===== verification/Spec2Isabelle.thy ===== *)
theory Spec2Isabelle
  imports DirLookup SyscallOk Grep LapicOk BootOk ShellPrint UtilsOk UmallocOk
begin

text \<open>
  Verification of xv6-network: the xv6 teaching operating system for x86, with a driver for NE2000 Ethernet cards, a small network
  library, and its user programs.

  \<^bold>\<open>The program.\<close> One kernel runs on several CPUs. A trap (\<^verbatim>\<open>trap.c\<close>) enters it from a user program or from a device. System calls
  (\<^verbatim>\<open>syscall.c\<close>, \<^verbatim>\<open>sysproc.c\<close>, \<^verbatim>\<open>sysfile.c\<close>) work on processes (\<^verbatim>\<open>proc.c\<close>, \<^verbatim>\<open>exec.c\<close>) with their page tables (\<^verbatim>\<open>vm.c\<close>, \<^verbatim>\<open>kalloc.c\<close>),
  and on open files (\<^verbatim>\<open>file.c\<close>), which are inodes (\<^verbatim>\<open>fs.c\<close>), pipes (\<^verbatim>\<open>pipe.c\<close>) or devices (\<^verbatim>\<open>console.c\<close>, \<^verbatim>\<open>eth/eth.c\<close>). Inodes lie on a disk
  (\<^verbatim>\<open>ide.c\<close>) behind a cache of blocks (\<^verbatim>\<open>bio.c\<close>). Spin locks (\<^verbatim>\<open>spinlock.c\<close>) keep the CPUs apart. User programs see system calls only,
  through a library of their own (\<^verbatim>\<open>ulib.c\<close>, \<^verbatim>\<open>printf.c\<close>, \<^verbatim>\<open>umalloc.c\<close>, \<^verbatim>\<open>net/net.c\<close>).

  \<^bold>\<open>Conventions.\<close> C integers are words of their width, so sums wrap as in C. A routine takes the state and returns \<open>Inr\<close> of its value and
  the new state, or \<open>Inl\<close> of the way it ends otherwise (theory \<open>Prelude\<close>): a panic, a sleep, a busy loop that only another agent ends, or
  an access outside of an object (\<open>Wild\<close>). The state is a chain of extensible records, one for each layer, so that a routine of a lower layer runs on the
  state of every higher one: \<open>machine\<close> (CPUs and locks), \<open>kmem\<close> (memory), \<open>ptab\<close>, \<open>vmstate\<close>, \<open>irqstate\<close>, \<open>diskstate\<close>, \<open>fsstate\<close>,
  \<open>filestate\<close>, \<open>consstate\<close>, \<open>sysstate\<close>, \<open>nestate\<close>, \<open>apicstate\<close>, \<open>trapstate\<close>. A pointer to an entry of a table is its index, a pointer to
  raw memory is an address in \<open>pmem\<close>. A routine that leaves its stack (\<open>swtch\<close>, \<open>sleep\<close>) is cut there: the first part says how it
  continues, and the second part is a definition of its own (\<open>..._resume\<close>).

  \<^bold>\<open>Memory, locks and processes.\<close>
  \<^item> \<open>Cstring\<close> (\<^verbatim>\<open>string.c\<close>, \<^verbatim>\<open>ulib.c\<close>): the C strings; \<open>memmove\<close> is right for every overlap, the one of the user library is not.
  \<^item> \<open>Spinlock\<close> (\<^verbatim>\<open>spinlock.c\<close>): the routines of one CPU, and the protocol of several as the step relation \<open>lock_step\<close>; mutual exclusion, and
    no panic fires.
  \<^item> \<open>Mmu\<close>, \<open>Kalloc\<close>, \<open>Vm\<close> (\<^verbatim>\<open>mmu.h\<close>, \<^verbatim>\<open>kalloc.c\<close>, \<^verbatim>\<open>vm.c\<close>): the interface \<open>page_pool\<close> of the page allocator and what
    follows from it; \<open>mappages\<close> changes exactly the translations it should.
  \<^item> \<open>Proc\<close>, \<open>Sched\<close>, \<open>Life\<close> (\<^verbatim>\<open>proc.c\<close>, \<^verbatim>\<open>exec.c\<close>): the process table, the scheduler as the step relation \<open>sched_step\<close> over all CPUs, and
    \<open>fork\<close>, \<open>exit\<close>, \<open>wait\<close> and \<open>exec\<close>; a process runs on one CPU at a time and the panics of \<open>sched\<close> do not fire.

  \<^bold>\<open>Devices.\<close>
  \<^item> \<open>Irq\<close>, \<open>Lapic\<close>, \<open>LapicOk\<close> (\<^verbatim>\<open>picirq.c\<close>, \<^verbatim>\<open>ioapic.c\<close>, \<^verbatim>\<open>timer.c\<close>, \<^verbatim>\<open>lapic.c\<close>, \<^verbatim>\<open>mp.c\<close>): the interrupt controllers and the multiprocessor
    tables; reading the tables ends exactly when all entries have known types.
  \<^item> \<open>Ide\<close> (\<^verbatim>\<open>ide.c\<close>): the driver against a disk of sectors.
  \<^item> \<open>Console\<close>, \<open>ConsoleOk\<close> (\<^verbatim>\<open>console.c\<close>, \<^verbatim>\<open>uart.c\<close>, \<^verbatim>\<open>kbd.c\<close>): screen, printing, keyboard and serial line; the interrupt handler refines a line editor.
  \<^item> \<open>Ne\<close>, \<open>NeOk\<close> (\<^verbatim>\<open>eth/ne.c\<close>, \<^verbatim>\<open>eth/eth.c\<close>): the Ethernet driver against a card that is a parameter; with 16-bit access no packet passes.

  \<^bold>\<open>Files.\<close>
  \<^item> \<open>Bio\<close> (\<^verbatim>\<open>bio.c\<close>): the cache is coherent with the disk and recycles the buffer that was released longest ago. The interface \<open>block_cache\<close> is what the
    file system relies on; it is interpreted on the routines of \<^verbatim>\<open>bio.c\<close>.
  \<^item> \<open>Fs\<close>, \<open>FsBlocks\<close>, \<open>FsFile\<close>, \<open>FsContent\<close>, \<open>FsReadWrite\<close>, \<open>Icache\<close> (\<^verbatim>\<open>fs.c\<close>): blocks, inodes and files; \<open>readi\<close> and \<open>writei\<close> refine
    reading and overwriting a range of a list of bytes.
  \<^item> \<open>Dir\<close>, \<open>DirLookup\<close> (\<^verbatim>\<open>fs.c\<close>): path names and directories; an entry that was linked is found.
  \<^item> \<open>Ring\<close>, \<open>Pipe\<close>, \<open>PipeSteps\<close>, \<open>File\<close> (\<^verbatim>\<open>pipe.c\<close>, \<^verbatim>\<open>file.c\<close>): pipes as ring buffers with free-running counters, any interleaving of
    readers and writers as the step relation \<open>pipe_step\<close>, and the table of open files. The interface \<open>ring_size\<close> serves the pipe and the console.

  \<^bold>\<open>The kernel as a whole.\<close>
  \<^item> \<open>Syscall\<close>, \<open>SyscallOk\<close>, \<open>Trap\<close> (\<^verbatim>\<open>syscall.c\<close>, \<^verbatim>\<open>sysproc.c\<close>, \<^verbatim>\<open>sysfile.c\<close>, \<^verbatim>\<open>trap.c\<close>, \<^verbatim>\<open>main.c\<close>): all system calls, all traps, and the start.
  \<^item> \<open>Frame\<close>: for each layer a locale of the predicates that its primitive updates preserve, and that then all of its routines preserve.
  \<^item> \<open>KernelOk\<close>, \<open>CallsOk\<close>, \<open>KernelRun\<close>, \<open>BootOk\<close>: the invariant \<open>kernel_ok\<close> of all tables. It is established by the start, preserved by every step of
    \<open>kernel_step\<close>, and says that indices are in range and that a parent that sleeps in \<open>wait\<close> has no zombie child.

  \<^bold>\<open>User programs.\<close>
  \<^item> \<open>Uprog\<close> (\<^verbatim>\<open>printf.c\<close>, \<^verbatim>\<open>ulib.c\<close>, \<^verbatim>\<open>user.h\<close>): a program is the tree of its system calls, with a branch for every answer of the kernel.
  \<^item> \<open>Shell\<close>, \<open>ShellOk\<close>, \<open>ShellPrint\<close>, \<open>ShellRun\<close> (\<^verbatim>\<open>sh.c\<close>): the parser is total and reads printed commands back; the shell never traps and seals its pipes.
  \<^item> \<open>Grep\<close> (\<^verbatim>\<open>grep.c\<close>): the matcher decides the language of the pattern; the loop over lines reads stale bytes.
  \<^item> \<open>Utils\<close>, \<open>UtilsOk\<close>: \<^verbatim>\<open>cat.c\<close>, \<^verbatim>\<open>wc.c\<close>, \<^verbatim>\<open>ls.c\<close>, \<^verbatim>\<open>init.c\<close> and the other programs; \<open>wc\<close> counts for every way its input arrives, and no program
    but \<open>grep\<close> and \<open>kill\<close> (whose \<open>atoi\<close> may overflow) can trap.
  \<^item> \<open>Net\<close> (\<^verbatim>\<open>net/net.c\<close>): receivers accept the checksums of IP headers and UDP packets.
  \<^item> \<open>Umalloc\<close>, \<open>UmallocOk\<close> (\<^verbatim>\<open>umalloc.c\<close>): the interface \<open>memory_source\<close> is what \<open>malloc\<close> relies on. It is interpreted on \<open>sbrk\<close> of the kernel,
    so that blocks in use never overlap, from \<open>malloc\<close> down to the page tables.

  \<^bold>\<open>Bounds.\<close> Loops of the source that end are total functions, or count down a number of rounds that is shown or chosen to be enough.
  \<^item> Loops over pages take as many rounds as their range has pages (\<open>Vm\<close>).
  \<^item> The scan of the bitmap takes \<open>size / BPB + 1\<close> rounds (\<open>Fs\<close>).
  \<^item> The free list of \<open>malloc\<close> has fewer elements than \<open>ROUNDS\<close>, as there are not more addresses. The property of \<open>Umalloc\<close> says that
    every call returns.
  \<^item> Loops that poll a device, and loops of user programs that end when the kernel says so, take their bound as an argument. When it is too small the result is
    \<open>Spins\<close>, or the trap \<open>''rounds''\<close>. Properties of these hold for all bounds.
  \<^item> A disk request is waited for by running the interrupt handler at most once for each buffer that can be queued (\<open>Ide\<close>).

  \<^bold>\<open>Parameters.\<close> The symbols of the linker (\<open>end\<close>, \<open>data\<close>), the image of \<^verbatim>\<open>initcode.S\<close>, the Ethernet card, and the registers that hardware changes.

  \<^bold>\<open>Not modelled.\<close>
  \<^item> Assembly (\<^verbatim>\<open>bootasm.S\<close>, \<^verbatim>\<open>bootother.S\<close>, \<^verbatim>\<open>multiboot.S\<close>, \<^verbatim>\<open>swtch.S\<close>, \<^verbatim>\<open>trapasm.S\<close>, \<^verbatim>\<open>initcode.S\<close>, \<^verbatim>\<open>usys.S\<close>, \<^verbatim>\<open>vectors.pl\<close>): the C code is cut where it
    passes control there.
  \<^item> The boot loader (\<^verbatim>\<open>bootmain.c\<close>), which runs before the kernel and copies it to memory.
  \<^item> The builder of the disk image (\<^verbatim>\<open>mkfs.c\<close>), which runs on the host.
  \<^item> The test driver (\<^verbatim>\<open>usertests.c\<close>), which only calls the kernel.
  \<^item> Weak memory order, and interleavings inside of a critical section: steps of several CPUs are critical sections, which spin locks keep apart.
\<close>

end
